(* ===== verification/Prelude.thy ===== *)
theory Prelude
  imports Main "HOL-Library.Word"
begin

text \<open>
  The vocabulary every component of the development shares.

  \<^item> Rust's integers: \<open>byte\<close>, \<open>u32\<close>, \<open>u64\<close> are words; an \<open>i64\<close> is kept as its
    64-bit pattern and read with \<^const>\<open>sint\<close>; an \<open>f64\<close> is kept as the bit pattern that
    \<^verbatim>\<open>f64::to_bits\<close> returns.
  \<^item> \<open>usize\<close> is \<^typ>\<open>nat\<close>. Sums and differences that a value read from the input can push
    past the width wrap as the release profile of the crate does (\<open>usize_add\<close>,
    \<open>usize_sub\<close>); positions inside a buffer stay below the buffer's length.
  \<^item> A Rust call that returns \<^verbatim>\<open>Result<T, &str>\<close> and may also panic (an index or a slice
    out of range) is an \<open>outcome\<close>: \<open>Ok\<close>, \<open>Err\<close> or \<open>Panic\<close>.
  \<^item> \<open>to_be_bytes\<close>/\<open>from_be_bytes\<close> and their little-endian forms, for any width.
\<close>

unbundle bit_operations_syntax

named_theorems outcome_simps \<open>evaluation of the outcome operations\<close>
named_theorems byte_simps \<open>bytes as natural numbers\<close>

type_synonym byte = "8 word"
type_synonym bytes = "8 word list"
type_synonym u16 = "16 word"
type_synonym u32 = "32 word"
type_synonym u64 = "64 word"
type_synonym i64 = "64 word"
type_synonym f64 = "64 word"

subsection \<open>Results, errors and panics\<close>

datatype 'a outcome = Ok 'a | Err string | Panic

fun bind_outcome :: "'a outcome \<Rightarrow> ('a \<Rightarrow> 'b outcome) \<Rightarrow> 'b outcome" where
  "bind_outcome (Ok x) f = f x"
| "bind_outcome (Err e) f = Err e"
| "bind_outcome Panic f = Panic"

fun fold_outcome :: "('s \<Rightarrow> 'a \<Rightarrow> 's outcome) \<Rightarrow> 's \<Rightarrow> 'a list \<Rightarrow> 's outcome" where
  "fold_outcome f s [] = Ok s"
| "fold_outcome f s (x # xs) = bind_outcome (f s x) (\<lambda>s'. fold_outcome f s' xs)"

definition ok_or :: "'a option \<Rightarrow> string \<Rightarrow> 'a outcome" where
  "ok_or x e = (case x of None \<Rightarrow> Err e | Some y \<Rightarrow> Ok y)"

definition index_at :: "'a list \<Rightarrow> nat \<Rightarrow> 'a outcome" where
  "index_at xs i = (if i < length xs then Ok (xs ! i) else Panic)"

definition slice :: "'a list \<Rightarrow> nat \<Rightarrow> nat \<Rightarrow> 'a list outcome" where
  "slice xs s e = (if s \<le> e \<and> e \<le> length xs then Ok (take (e - s) (drop s xs)) else Panic)"

lemma bind_outcome_cong [fundef_cong]:
  "m = m' \<Longrightarrow> (\<And>x. m' = Ok x \<Longrightarrow> f x = g x) \<Longrightarrow> bind_outcome m f = bind_outcome m' g"
  by (cases m') auto

lemma bind_outcome_eq_Ok:
  "bind_outcome m f = Ok y \<longleftrightarrow> (\<exists>x. m = Ok x \<and> f x = Ok y)"
  by (cases m) auto

lemma bind_outcome_eq_Panic:
  "bind_outcome m f = Panic \<longleftrightarrow> m = Panic \<or> (\<exists>x. m = Ok x \<and> f x = Panic)"
  by (cases m) auto

lemma bind_outcome_assoc:
  "bind_outcome (bind_outcome m f) g = bind_outcome m (\<lambda>x. bind_outcome (f x) g)"
  by (cases m) auto

lemma bind_outcome_Ok_right [simp]: "bind_outcome m Ok = m"
  by (cases m) auto

lemma fold_outcome_append:
  "fold_outcome f s (xs @ ys) = bind_outcome (fold_outcome f s xs) (\<lambda>s'. fold_outcome f s' ys)"
  by (induction xs arbitrary: s) (simp_all add: bind_outcome_assoc)

lemma index_at_Ok [outcome_simps]: "i < length xs \<Longrightarrow> index_at xs i = Ok (xs ! i)"
  by (simp add: index_at_def)

lemma index_at_eq_Ok: "index_at xs i = Ok x \<longleftrightarrow> i < length xs \<and> x = xs ! i"
  by (auto simp: index_at_def)

lemma index_at_append [outcome_simps]: "index_at (xs @ y # ys) (length xs) = Ok y"
  by (simp add: index_at_def)

lemma slice_Ok [outcome_simps]:
  "s \<le> e \<Longrightarrow> e \<le> length xs \<Longrightarrow> slice xs s e = Ok (take (e - s) (drop s xs))"
  by (simp add: slice_def)

lemma slice_eq_Ok: "slice xs s e = Ok ys \<longleftrightarrow> s \<le> e \<and> e \<le> length xs \<and> ys = take (e - s) (drop s xs)"
  by (auto simp: slice_def)

lemma slice_middle [outcome_simps]:
  "s = length xs \<Longrightarrow> e = length xs + length ys \<Longrightarrow> slice (xs @ ys @ zs) s e = Ok ys"
  by (simp add: slice_def)

lemmas outcome_elims = bind_outcome_eq_Ok index_at_eq_Ok slice_eq_Ok

subsection \<open>Word-sized arithmetic on positions\<close>

definition usize_add :: "nat \<Rightarrow> nat \<Rightarrow> nat" where
  "usize_add a b = (a + b) mod 2 ^ 64"

definition usize_sub :: "nat \<Rightarrow> nat \<Rightarrow> nat" where
  "usize_sub a b = (a + 2 ^ 64 - b) mod 2 ^ 64"

lemma usize_add_exact [simp]: "a + b < 2 ^ 64 \<Longrightarrow> usize_add a b = a + b"
  by (simp add: usize_add_def)

lemma usize_add_no_wrap: "a \<le> usize_add a b \<Longrightarrow> b < 2 ^ 64 \<Longrightarrow> usize_add a b = a + b"
proof -
  assume le: "a \<le> usize_add a b" and b: "b < 2 ^ 64"
  have "a < 2 ^ 64" using le mod_less_divisor [of "2 ^ 64" "a + b"] by (simp add: usize_add_def)
  with b have s: "a + b < 2 ^ 64 + 2 ^ 64" by linarith
  show ?thesis
  proof (rule ccontr)
    assume "usize_add a b \<noteq> a + b"
    then have ge: "2 ^ 64 \<le> a + b" by (meson not_le usize_add_exact)
    with s have "(a + b) mod 2 ^ 64 = a + b - 2 ^ 64" by (subst le_mod_geq) simp_all
    with le b ge show False by (simp add: usize_add_def)
  qed
qed

lemma usize_sub_exact [simp]: "b \<le> a \<Longrightarrow> a < 2 ^ 64 \<Longrightarrow> usize_sub a b = a - b"
proof -
  assume "b \<le> a" "a < 2 ^ 64"
  then have "a + 2 ^ 64 - b = 2 ^ 64 + (a - b)" and "a - b < 2 ^ 64" by simp_all
  then show ?thesis by (simp only: usize_sub_def mod_add_self1 mod_less)
qed

text \<open>
  A Rust slice never exceeds \<^verbatim>\<open>isize::MAX\<close> bytes. \<open>fits\<close> states it of a buffer of the
  model, whose lists have no such bound of their own.
\<close>

definition fits :: "'a list \<Rightarrow> bool" where
  "fits xs \<longleftrightarrow> length xs < 2 ^ 63"

lemma fits_appendD: "fits (xs @ ys) \<Longrightarrow> fits xs" "fits (xs @ ys) \<Longrightarrow> fits ys"
  by (simp_all add: fits_def)

lemma fits_drop: "fits xs \<Longrightarrow> fits (drop n xs)"
  by (simp add: fits_def)

subsection \<open>Bytes as digits\<close>

fun be_bytes :: "nat \<Rightarrow> nat \<Rightarrow> bytes" where
  "be_bytes 0 v = []"
| "be_bytes (Suc n) v = word_of_nat (v div 256 ^ n) # be_bytes n v"

definition be_nat :: "bytes \<Rightarrow> nat" where
  "be_nat bs = foldl (\<lambda>a b. a * 256 + unat b) 0 bs"

definition le_bytes :: "nat \<Rightarrow> nat \<Rightarrow> bytes" where
  "le_bytes n v = rev (be_bytes n v)"

definition le_nat :: "bytes \<Rightarrow> nat" where
  "le_nat bs = be_nat (rev bs)"

lemma length_be_bytes [simp]: "length (be_bytes n v) = n"
  by (induction n) auto

lemma length_le_bytes [simp]: "length (le_bytes n v) = n"
  by (simp add: le_bytes_def)

lemma unat_word_of_nat_byte [byte_simps]: "unat (word_of_nat n :: byte) = n mod 256"
  by (simp add: unat_of_nat)

lemma unat_byte_less [simp, byte_simps]: "unat (b :: byte) < 256"
  by (rule order.strict_trans2 [OF unsigned_less]) simp

lemma foldl_be_nat:
  "foldl (\<lambda>a b. a * 256 + unat b) acc bs = acc * 256 ^ length bs + be_nat bs"
proof (induction bs arbitrary: acc)
  case Nil
  show ?case by (simp add: be_nat_def)
next
  case (Cons b bs)
  show ?case
    using Cons [of "acc * 256 + unat b"] Cons [of "unat b"]
    by (simp add: be_nat_def algebra_simps)
qed

lemma be_nat_Nil [simp]: "be_nat [] = 0"
  by (simp add: be_nat_def)

lemma be_nat_Cons: "be_nat (b # bs) = unat (b :: byte) * 256 ^ length bs + be_nat bs"
  using foldl_be_nat [of "unat b" bs] by (simp add: be_nat_def)

lemma be_nat_append: "be_nat (xs @ ys) = be_nat xs * 256 ^ length ys + be_nat ys"
  by (induction xs) (simp_all add: be_nat_Cons algebra_simps power_add)

lemma be_nat_bound: "be_nat bs < 256 ^ length bs"
proof (induction bs)
  case Nil
  show ?case by simp
next
  case (Cons b bs)
  have "unat b * 256 ^ length bs + 256 ^ length bs \<le> 256 * 256 ^ length bs"
    using mult_le_mono1 [OF Suc_leI [OF unat_byte_less [of b]], of "256 ^ length bs"] by simp
  with Cons have "unat b * 256 ^ length bs + be_nat bs < 256 * 256 ^ length bs" by linarith
  then show ?case by (simp add: be_nat_Cons)
qed

lemma be_nat_be_bytes: "be_nat (be_bytes n v) = v mod 256 ^ n"
proof (induction n)
  case 0
  show ?case by simp
next
  case (Suc n)
  then show ?case
    using mod_mult2_eq [of v "256 ^ n" 256]
    by (simp add: be_nat_Cons byte_simps ac_simps)
qed

lemma be_bytes_drop_high: "be_bytes n (k * 256 ^ n + m) = be_bytes n m"
proof (induction n arbitrary: k)
  case (Suc n)
  have "(k * (256 * 256 ^ n) + m) div 256 ^ n = k * 256 + m div 256 ^ n"
    using div_mult_self3 [of "256 ^ n :: nat" "k * 256" m] by (simp add: ac_simps)
  moreover have "(word_of_nat (k * 256 + m div 256 ^ n) :: byte) = word_of_nat (m div 256 ^ n)"
    by (simp only: word_of_nat_eq_iff) (simp add: take_bit_eq_mod)
  moreover have "be_bytes n (k * (256 * 256 ^ n) + m) = be_bytes n m"
    using Suc.IH [of "k * 256"] by (simp add: ac_simps)
  ultimately show ?case by simp
qed simp

lemma be_bytes_mod: "be_bytes n (v mod 256 ^ n) = be_bytes n v"
  using be_bytes_drop_high [of n "v div 256 ^ n" "v mod 256 ^ n"] by (simp only: div_mult_mod_eq)

lemma be_bytes_be_nat: "be_bytes (length bs) (be_nat bs) = bs"
proof (induction bs)
  case Nil
  show ?case by simp
next
  case (Cons b bs)
  have "be_nat (b # bs) div 256 ^ length bs = unat b"
    using be_nat_bound [of bs] by (simp add: be_nat_Cons)
  with Cons show ?case by (simp add: be_nat_Cons be_bytes_drop_high)
qed

lemma le_nat_le_bytes: "le_nat (le_bytes n v) = v mod 256 ^ n"
  by (simp add: le_nat_def le_bytes_def be_nat_be_bytes)

lemma le_nat_bound: "le_nat bs < 256 ^ length bs"
  using be_nat_bound [of "rev bs"] by (simp add: le_nat_def)

lemma u64_bound [simp]: "unat (v :: u64) < 2 ^ 64"
  by (rule order.strict_trans2 [OF unsigned_less]) simp

lemma unat_take_bit: "unat (take_bit n (x :: u64)) = unat x mod 2 ^ n"
  by (simp only: unsigned_take_bit_eq) (simp add: take_bit_eq_mod)

lemma unat_drop7: "unat (drop_bit n (x :: u64)) = unat x div 2 ^ n"
proof -
  have "take_bit LENGTH(64) (unat x) = unat x"
    using u64_bound [of x] by (simp add: take_bit_nat_eq_self)
  then show ?thesis by (simp only: unsigned_drop_bit_eq) (simp add: drop_bit_eq_div)
qed

text \<open>The 64-bit instances: \<^verbatim>\<open>to_be_bytes\<close>, \<^verbatim>\<open>from_be_bytes\<close> on \<open>u64\<close>, \<open>i64\<close> and \<open>f64\<close> bits.\<close>

abbreviation be64 :: "u64 \<Rightarrow> bytes" where
  "be64 w \<equiv> be_bytes 8 (unat w)"

abbreviation of_be64 :: "bytes \<Rightarrow> u64" where
  "of_be64 bs \<equiv> word_of_nat (be_nat bs)"

lemma of_be64_be64 [simp]: "word_of_nat (be_nat (be64 w)) = w"
proof -
  have "unat w < 256 ^ 8"
    by (rule order.strict_trans2 [OF unsigned_less]) simp
  then show ?thesis by (simp add: be_nat_be_bytes)
qed

lemma be64_of_be64: "length bs = 8 \<Longrightarrow> be64 (of_be64 bs) = bs"
  using be_nat_bound [of bs] be_bytes_be_nat [of bs] by (simp add: unat_of_nat)

abbreviation be32 :: "u32 \<Rightarrow> bytes" where
  "be32 w \<equiv> be_bytes 4 (unat w)"

lemma be32_word: "word_of_nat (be_nat (be32 w)) = w"
proof -
  have "unat w < 256 ^ 4" using unsigned_less [of w] by simp
  then show ?thesis by (simp add: be_nat_be_bytes)
qed

subsection \<open>Signed reading\<close>

lemma sint_unat:
  fixes w :: "'a::len word"
  shows "sint w = (if 2 * unat w < 2 ^ LENGTH('a) then int (unat w) else int (unat w) - 2 ^ LENGTH('a))"
proof -
  define h :: int where "h = 2 ^ (LENGTH('a) - 1)"
  have L: "(2 :: int) ^ LENGTH('a) = 2 * h"
    unfolding h_def by (metis One_nat_def Suc_pred len_gt_0 power_Suc)
  have r: "- h \<le> sint w" "sint w < h"
    using sint_greater_eq [of w] sint_less [of w] by (simp_all add: h_def)
  have u: "int (unat w) = sint w mod (2 * h)"
    using uint_sint [of w] by (simp add: take_bit_eq_mod L)
  have c: "2 * unat w < 2 ^ LENGTH('a) \<longleftrightarrow> int (unat w) < h"
    using L by (simp flip: of_nat_less_iff [where ?'a = int])
  show ?thesis
  proof (cases "sint w < 0")
    case True
    have "sint w mod (2 * h) = (sint w + 2 * h) mod (2 * h)" by simp
    also have "\<dots> = sint w + 2 * h" using True r by (intro mod_pos_pos_trivial) auto
    finally show ?thesis using True r u c L by simp
  next
    case False
    then have "sint w mod (2 * h) = sint w" using r by (intro mod_pos_pos_trivial) auto
    then show ?thesis using False r u c L by simp
  qed
qed

lemma i64_cases: "sint (v :: i64) = (if unat v < 2 ^ 63 then int (unat v) else int (unat v) - 2 ^ 64)"
  using sint_unat [of v] by simp

text \<open>The string literals of the code as bytes.\<close>

definition lit :: "string \<Rightarrow> bytes" where
  "lit s = map (\<lambda>c. word_of_nat (of_char c)) s"

subsection \<open>ASCII case\<close>

text \<open>\<^verbatim>\<open>u8::to_ascii_lowercase\<close> and \<^verbatim>\<open>str::eq_ignore_ascii_case\<close>.\<close>

definition ascii_lower :: "byte \<Rightarrow> byte" where
  "ascii_lower b = (if 0x41 \<le> b \<and> b \<le> 0x5A then b + 0x20 else b)"

definition eq_ignore_ascii_case :: "bytes \<Rightarrow> bytes \<Rightarrow> bool" where
  "eq_ignore_ascii_case a b \<longleftrightarrow> map ascii_lower a = map ascii_lower b"

subsection \<open>Lists\<close>

text \<open>Rust's \<^verbatim>\<open>Iterator::position\<close>: the index of the first element that satisfies the predicate.\<close>

definition position :: "('a \<Rightarrow> bool) \<Rightarrow> 'a list \<Rightarrow> nat option" where
  "position P xs = (let k = length (takeWhile (\<lambda>x. \<not> P x) xs) in if k < length xs then Some k else None)"

lemma position_Some: "position P xs = Some k \<Longrightarrow> k < length xs \<and> P (xs ! k)"
  by (auto simp: position_def Let_def split: if_splits dest: nth_length_takeWhile)

lemma position_append [simp]: "\<not> list_ex P xs \<Longrightarrow> P y \<Longrightarrow> position P (xs @ y # ys) = Some (length xs)"
  by (simp add: position_def Let_def list_ex_iff)

lemma position_None: "position P xs = None \<longleftrightarrow> \<not> list_ex P xs"
proof (cases "list_ex P xs")
  case True
  then obtain x where "x \<in> set xs" "P x" by (auto simp: list_ex_iff)
  then have "takeWhile (\<lambda>x. \<not> P x) xs \<noteq> xs" by (metis set_takeWhileD)
  then have "length (takeWhile (\<lambda>x. \<not> P x) xs) < length xs"
    by (metis length_takeWhile_le le_neq_implies_less takeWhile_eq_take take_all_iff order_refl)
  with True show ?thesis by (simp add: position_def)
next
  case False
  then have "length (takeWhile (\<lambda>x. \<not> P x) xs) = length xs"
    by (intro arg_cong [of _ _ length]) (simp add: list_ex_iff)
  with False show ?thesis by (simp only: position_def Let_def) simp
qed

lemma take_drop_append_middle [simp]:
  "take (length ys) (drop (length xs) (xs @ ys @ zs)) = ys"
  by simp

lemma drop_eq_append_length: "drop i xs = ys @ zs \<Longrightarrow> ys \<noteq> [] \<Longrightarrow> i + length ys \<le> length xs"
proof -
  assume d: "drop i xs = ys @ zs" and "ys \<noteq> []"
  then have "i < length xs" by (metis Nil_is_append_conv drop_all leI)
  moreover have "length xs - i = length ys + length zs" using arg_cong [OF d, of length] by simp
  ultimately show ?thesis by simp
qed

lemma drop_add_append: "drop i xs = ys @ zs \<Longrightarrow> drop (i + length ys) xs = zs"
  by (metis add.commute append_eq_conv_conj drop_drop)

lemma drop_eq_Cons_nth: "drop i xs = y # ys \<Longrightarrow> i < length xs \<and> xs ! i = y \<and> drop (Suc i) xs = ys"
  by (metis drop_all drop_Suc length_Cons list.sel(3) not_le nth_via_drop tl_drop list.discI)

end
