(* ===== verification/Codec.thy ===== *)
theory Codec
  imports Prelude
begin

text \<open>
  The interface of a self-delimiting encoding: an encoder, a decoder that returns the value
  and the number of bytes it consumed, and the values the encoder accepts. Everything a
  client needs of it (injectivity, prefix-freeness, a sequence of encodings decodes
  item by item) is proved here once; the varint, the changeset field and the row value
  codecs interpret the locale.
\<close>

fun dec_many :: "(bytes \<Rightarrow> ('a \<times> nat) option) \<Rightarrow> nat \<Rightarrow> bytes \<Rightarrow> ('a list \<times> nat) option" where
  "dec_many dec 0 bs = Some ([], 0)"
| "dec_many dec (Suc n) bs =
     (case dec bs of None \<Rightarrow> None
      | Some (x, k) \<Rightarrow> (case dec_many dec n (drop k bs) of None \<Rightarrow> None
                       | Some (xs, m) \<Rightarrow> Some (x # xs, k + m)))"

locale prefix_codec =
  fixes enc :: "'a \<Rightarrow> bytes"
    and dec :: "bytes \<Rightarrow> ('a \<times> nat) option"
    and valid :: "'a \<Rightarrow> bool"
  assumes dec_enc: "valid x \<Longrightarrow> fits (enc x @ rest) \<Longrightarrow> dec (enc x @ rest) = Some (x, length (enc x))"
begin

lemma dec_enc_Nil: "valid x \<Longrightarrow> fits (enc x) \<Longrightarrow> dec (enc x) = Some (x, length (enc x))"
  using dec_enc [of x "[]"] by simp

lemma enc_prefix_free:
  assumes "valid x" "valid y" "fits (enc x @ r)" "enc x @ r = enc y @ s"
  shows "x = y \<and> r = s"
proof -
  have "dec (enc x @ r) = Some (y, length (enc y))"
    using dec_enc [OF assms(2), of s] assms(3) unfolding assms(4) by blast
  then have "x = y" using dec_enc [OF assms(1,3)] by simp
  with assms(4) show ?thesis by simp
qed

lemma enc_inj: "valid x \<Longrightarrow> valid y \<Longrightarrow> fits (enc x) \<Longrightarrow> enc x = enc y \<Longrightarrow> x = y"
  using enc_prefix_free [of x y "[]" "[]"] by simp

lemma dec_many_enc:
  "list_all valid xs \<Longrightarrow> fits (concat (map enc xs) @ rest) \<Longrightarrow>
   dec_many dec (length xs) (concat (map enc xs) @ rest) = Some (xs, length (concat (map enc xs)))"
proof (induction xs)
  case (Cons x xs)
  have "fits (concat (map enc xs) @ rest)"
    using fits_appendD(2) [of "enc x"] Cons.prems(2) by simp
  with Cons show ?case by (simp add: dec_enc)
qed simp

lemma enc_list_inj:
  assumes "list_all valid xs" "list_all valid ys" "length xs = length ys"
    and "fits (concat (map enc xs) @ r)"
    and "concat (map enc xs) @ r = concat (map enc ys) @ s"
  shows "xs = ys \<and> r = s"
proof -
  have "dec_many dec (length ys) (concat (map enc ys) @ s) = Some (xs, length (concat (map enc xs)))"
    using dec_many_enc [OF assms(1,4)] by (simp only: assms(3,5))
  then have "xs = ys" using dec_many_enc [OF assms(2), of s] assms(4,5) by simp
  with assms(5) show ?thesis by simp
qed

end

end
