(* ===== verification/Varint.thy ===== *)
theory Varint
  imports Codec
begin

text \<open>
  \<^verbatim>\<open>src/storage/sqlitefmt/varint.rs\<close>: SQLite's big-endian variable-length integer (one to
  eight bytes of seven bits, or nine bytes of which the last is raw), and the abstract
  digit strings that both this codec and the session codec are proved to produce.
  The encoders append to a Rust buffer; the model returns the bytes they append.
\<close>

subsection \<open>The code\<close>

function read_varint_loop :: "bytes \<Rightarrow> nat \<Rightarrow> nat \<Rightarrow> u64 \<Rightarrow> (u64 \<times> nat) option" where
  "read_varint_loop buf off i result =
     (if i < 8
      then if off + i < length buf
           then let b = buf ! (off + i);
                    result' = push_bit 7 result OR ucast (b AND 0x7f)
                in if b AND 0x80 = 0 then Some (result', i + 1)
                   else read_varint_loop buf off (i + 1) result'
           else None
      else if off + 8 < length buf
           then Some (push_bit 8 result OR ucast (buf ! (off + 8)), 9)
           else None)"
  by pat_completeness auto
termination
  by (relation "measure (\<lambda>(buf, off, i, result). 8 - i)") auto

definition read_varint :: "bytes \<Rightarrow> nat \<Rightarrow> (i64 \<times> nat) option" where
  "read_varint buf off = read_varint_loop buf off 0 0"

function varint_count :: "nat \<Rightarrow> u64 \<Rightarrow> nat" where
  "varint_count n x = (if x = 0 then n else varint_count (n + 1) (drop_bit 7 x))"
  by pat_completeness auto
termination
  by (relation "measure (\<lambda>(n, x). unat x)")
    (auto simp: drop_bit_eq_div unat_div word_unat_eq_iff)

fun nine_groups :: "nat \<Rightarrow> u64 \<Rightarrow> bytes" where
  "nine_groups 0 rest = []"
| "nine_groups (Suc i) rest = nine_groups i (drop_bit 7 rest) @ [ucast (rest AND 0x7f) OR 0x80]"

definition write_varint :: "i64 \<Rightarrow> bytes" where
  "write_varint uv =
     (if uv \<le> 0x7f then [ucast uv]
      else if sint uv < 0 \<or> 2 ^ 56 \<le> uv
      then nine_groups 8 (drop_bit 8 uv) @ [ucast (uv AND 0xff)]
      else map (\<lambda>i. (ucast (drop_bit (7 * i) uv AND 0x7f) :: byte) OR (if 0 < i then 0x80 else 0))
             (rev [0 ..< varint_count 1 (drop_bit 7 uv)]))"

declare read_varint_loop.simps [simp del] varint_count.simps [simp del]

subsection \<open>Digit strings\<close>

text \<open>
  \<open>vhi k w\<close>: the \<open>k\<close> low base-128 digits of \<open>w\<close>, most significant first, each with the
  continuation bit. \<open>vspec v\<close> is the encoding the file format prescribes for \<open>v\<close>.
\<close>

fun vhi :: "nat \<Rightarrow> nat \<Rightarrow> bytes" where
  "vhi 0 w = []"
| "vhi (Suc k) w = word_of_nat (128 + w div 128 ^ k mod 128) # vhi k w"

fun groups :: "nat \<Rightarrow> nat" where
  "groups w = (if w = 0 then 0 else Suc (groups (w div 128)))"

declare groups.simps [simp del]

definition vspec :: "nat \<Rightarrow> bytes" where
  "vspec v = (if v < 2 ^ 56 then vhi (groups (v div 128)) (v div 128) @ [word_of_nat (v mod 128)]
              else vhi 8 (v div 256) @ [word_of_nat (v mod 256)])"

fun rd :: "nat \<Rightarrow> u64 \<Rightarrow> bytes \<Rightarrow> (u64 \<times> nat) option" where
  "rd i r [] = None"
| "rd i r (b # bs) =
     (if i < 8
      then let r' = push_bit 7 r OR ucast (b AND 0x7f)
           in if b AND 0x80 = 0 then Some (r', i + 1) else rd (i + 1) r' bs
      else Some (push_bit 8 r OR ucast b, 9))"

lemma length_vhi [simp]: "length (vhi k w) = k"
  by (induction k) auto

lemma groups_0 [simp]: "groups 0 = 0"
  by (simp add: groups.simps)

lemma groups_bound: "w < 128 ^ groups w"
proof (induction w rule: groups.induct)
  case (1 w)
  show ?case
  proof (cases "w = 0")
    case False
    with 1 have "w div 128 < 128 ^ groups (w div 128)" by simp
    then have "w < 128 * 128 ^ groups (w div 128)"
      by (simp add: div_less_iff_less_mult ac_simps)
    with False show ?thesis by (simp add: groups.simps [of w])
  qed simp
qed

lemma groups_le: "w < 128 ^ n \<Longrightarrow> groups w \<le> n"
proof (induction n arbitrary: w)
  case 0
  then show ?case by simp
next
  case (Suc n)
  then have "w div 128 < 128 ^ n"
    by (simp add: div_less_iff_less_mult ac_simps)
  then show ?case using Suc.IH [of "w div 128"] by (simp add: groups.simps [of w])
qed

lemma vhi_snoc: "vhi (Suc k) w = vhi k (w div 128) @ [word_of_nat (128 + w mod 128)]"
proof (induction k)
  case 0
  show ?case by simp
next
  case (Suc k)
  have "w div 128 ^ Suc k = w div 128 div 128 ^ k"
    by (simp add: div_mult2_eq)
  then show ?case
    using Suc by (simp del: vhi.simps(2) add: vhi.simps(2) [of "Suc k" w] vhi.simps(2) [of k "w div 128"])
qed

subsection \<open>Word steps as digit steps\<close>

lemma and_7f_take_bit: "(b :: byte) AND 0x7f = take_bit 7 b"
  using take_bit_eq_mask [of 7 b] by (simp add: mask_eq_exp_minus_1)

lemma and_7f: "unat ((b :: byte) AND 0x7f) = unat b mod 128"
proof -
  have "b AND 0x7f = b mod 128"
    using take_bit_eq_mask [of 7 b] by (simp add: mask_eq_exp_minus_1 take_bit_eq_mod)
  then show ?thesis by (simp add: unat_mod)
qed

lemma and_80_iff: "(b :: byte) AND 0x80 = 0 \<longleftrightarrow> unat b < 128"
proof -
  have "b AND 0x80 = 0 \<longleftrightarrow> \<not> bit b 7"
    using and_exp_eq_0_iff_not_bit [of b 7] by simp
  also have "\<dots> \<longleftrightarrow> \<not> bit (unat b) 7"
    by (simp add: bit_unsigned_iff)
  also have "\<dots> \<longleftrightarrow> even (unat b div 128)"
    by (simp add: bit_iff_odd)
  also have "\<dots> \<longleftrightarrow> unat b < 128"
  proof (cases "unat b < 128")
    case False
    then have "unat b div 128 = 1"
      using unat_byte_less [of b] by (intro div_nat_eqI) simp_all
    with False show ?thesis by simp
  qed simp
  finally show ?thesis .
qed

lemma shift7_step:
  "push_bit 7 (r :: u64) OR ucast ((b :: byte) AND 0x7f) = r * 128 + word_of_nat (unat b mod 128)"
proof -
  have "(ucast (b AND 0x7f) :: u64) = word_of_nat (unat (b AND 0x7f))"
    by (simp add: word_unat_eq_iff unsigned_ucast_eq)
  moreover have "push_bit 7 r OR ucast (take_bit 7 b) = push_bit 7 r + ucast (take_bit 7 b)"
    by (rule disjunctive_add [symmetric]) (simp only: bit_simps, auto)
  ultimately show ?thesis by (simp add: and_7f_take_bit [symmetric] and_7f push_bit_eq_mult)
qed

lemma shift8_step:
  "push_bit 8 (r :: u64) OR ucast (b :: byte) = r * 256 + word_of_nat (unat b)"
proof -
  have "(ucast b :: u64) = word_of_nat (unat b)"
    by (simp add: word_unat_eq_iff unsigned_ucast_eq)
  moreover have "push_bit 8 r OR ucast b = push_bit 8 r + ucast b"
    by (rule disjunctive_add [symmetric]) (simp only: bit_simps, auto dest: bit_imp_le_length)
  ultimately show ?thesis by (simp add: push_bit_eq_mult)
qed

lemma ucast_take_bit: "n \<le> 8 \<Longrightarrow> (ucast (take_bit n (x :: u64)) :: byte) = word_of_nat (unat x mod 2 ^ n)"
proof -
  assume "n \<le> 8"
  then have "(2 :: nat) ^ n \<le> 256" using power_increasing [of n 8 "2 :: nat"] by simp
  moreover have "unat x mod 2 ^ n < 2 ^ n" by simp
  ultimately have "unat x mod 2 ^ n < 256" by linarith
  then show ?thesis
    by (simp only: word_unat_eq_iff unsigned_ucast_eq unat_take_bit byte_simps)
      (simp add: take_bit_eq_mod)
qed

lemma cont_byte:
  "(ucast ((x :: u64) AND 0x7f) :: byte) OR 0x80 = word_of_nat (128 + unat x mod 128)"
proof -
  have x: "x AND 0x7f = take_bit 7 x"
    using take_bit_eq_mask [of 7 x] by (simp add: mask_eq_exp_minus_1)
  have "(ucast (take_bit 7 x) :: byte) OR push_bit 7 1 = ucast (take_bit 7 x) + push_bit 7 1"
    by (rule disjunctive_add [symmetric]) (simp only: bit_simps, auto)
  moreover have "(ucast (take_bit 7 x) :: byte) = word_of_nat (unat x mod 128)"
    using ucast_take_bit [of 7 x] by simp
  ultimately show ?thesis by (simp add: x ac_simps)
qed

lemma last_byte: "(ucast ((x :: u64) AND 0x7f) :: byte) = word_of_nat (unat x mod 128)"
proof -
  have "x AND 0x7f = take_bit 7 x"
    using take_bit_eq_mask [of 7 x] by (simp add: mask_eq_exp_minus_1)
  then show ?thesis using ucast_take_bit [of 7 x] by simp
qed

lemma raw_byte: "(ucast ((x :: u64) AND 0xff) :: byte) = word_of_nat (unat x mod 256)"
proof -
  have "x AND 0xff = take_bit 8 x"
    using take_bit_eq_mask [of 8 x] by (simp add: mask_eq_exp_minus_1)
  then show ?thesis using ucast_take_bit [of 8 x] by simp
qed

lemma nine_groups_vhi: "nine_groups k x = vhi k (unat x)"
proof (induction k arbitrary: x)
  case 0
  show ?case by simp
next
  case (Suc k)
  then show ?case
    by (simp only: nine_groups.simps vhi_snoc cont_byte unat_drop7) simp
qed

lemma varint_count_groups: "varint_count n x = n + groups (unat x)"
proof (induction n x rule: varint_count.induct)
  case (1 n x)
  show ?case
  proof (cases "x = 0")
    case True
    then show ?thesis by (simp add: varint_count.simps)
  next
    case False
    with 1 have "varint_count (n + 1) (drop_bit 7 x) = n + 1 + groups (unat x div 128)"
      using unat_drop7 [of 7 x] by simp
    with False show ?thesis
      by (simp add: varint_count.simps [of n x] groups.simps [of "unat x"] word_unat_eq_iff)
  qed
qed

subsection \<open>The encoder writes the prescribed digits\<close>

lemma group_bytes_vhi:
  "map (\<lambda>i. (ucast (drop_bit (7 * i) (v :: u64) AND 0x7f) :: byte) OR (if 0 < i then 0x80 else 0))
     (rev [0 ..< Suc k]) = vhi k (unat v div 128) @ [word_of_nat (unat v mod 128)]"
proof (induction k)
  case 0
  show ?case by (simp add: last_byte)
next
  case (Suc k)
  have "unat (drop_bit (7 * Suc k) v) mod 128 = unat v div 128 div 128 ^ k mod 128"
    by (simp add: unat_drop7 power_add power_mult flip: div_mult2_eq)
  then show ?case
    using Suc by (simp add: cont_byte)
qed

lemma sint_neg_iff: "sint (v :: u64) < 0 \<longleftrightarrow> 2 ^ 63 \<le> unat v"
proof -
  have "sint v < 0 \<longleftrightarrow> bit (unat v) 63"
    using bit_last_iff [of v] by (simp add: bit_unsigned_iff)
  also have "\<dots> \<longleftrightarrow> odd (unat v div 2 ^ 63)"
    by (simp add: bit_iff_odd)
  also have "\<dots> \<longleftrightarrow> 2 ^ 63 \<le> unat v"
  proof (cases "unat v < 2 ^ 63")
    case False
    have "unat v < 2 ^ 64"
      by (rule order.strict_trans2 [OF unsigned_less]) simp
    with False have "unat v div 2 ^ 63 = 1"
      by (intro div_nat_eqI) simp_all
    with False show ?thesis by simp
  qed simp
  finally show ?thesis .
qed

lemma write_varint_vspec: "write_varint v = vspec (unat v)"
proof -
  consider (one) "unat v \<le> 127" | (mid) "127 < unat v" "unat v < 2 ^ 56" | (nine) "2 ^ 56 \<le> unat v"
    by linarith
  then show ?thesis
  proof cases
    case one
    then have "(ucast v :: byte) = word_of_nat (unat v)"
      by (simp add: word_unat_eq_iff unsigned_ucast_eq take_bit_eq_mod byte_simps)
    with one show ?thesis by (simp add: write_varint_def vspec_def word_le_nat_alt)
  next
    case mid
    have "varint_count 1 (drop_bit 7 v) = Suc (groups (unat v div 128))"
      using unat_drop7 [of 7 v] by (simp only: varint_count_groups) simp
    then show ?thesis
      unfolding write_varint_def vspec_def
      using mid by (simp only: group_bytes_vhi) (simp add: word_le_nat_alt sint_neg_iff)
  next
    case nine
    have "unat (drop_bit 8 v) = unat v div 256"
      using unat_drop7 [of 8 v] by simp
    with nine show ?thesis
      by (simp add: write_varint_def vspec_def word_le_nat_alt nine_groups_vhi raw_byte)
  qed
qed

subsection \<open>The decoder reads them back\<close>

lemma read_varint_loop_rd: "i \<le> 8 \<Longrightarrow> read_varint_loop buf off i r = rd i r (drop (off + i) buf)"
proof (induction buf off i r rule: read_varint_loop.induct)
  case (1 buf off i r)
  show ?case
  proof (cases "off + i < length buf")
    case True
    with 1 show ?thesis
      by (auto simp: read_varint_loop.simps [of buf off i r] Let_def Cons_nth_drop_Suc [symmetric])
  next
    case False
    with 1 show ?thesis by (auto simp: read_varint_loop.simps [of buf off i r])
  qed
qed

lemma rd_vhi:
  "i + k \<le> 8 \<Longrightarrow> rd i (word_of_nat a) (vhi k w @ bs) = rd (i + k) (word_of_nat (a * 128 ^ k + w mod 128 ^ k)) bs"
proof (induction k arbitrary: i a)
  case 0
  then show ?case by simp
next
  case (Suc k)
  define d where "d = w div 128 ^ k mod 128"
  have d: "d < 128" by (simp add: d_def)
  then have b: "unat (word_of_nat (128 + d) :: byte) = 128 + d"
    unfolding byte_simps by simp
  have "rd i (word_of_nat a) (vhi (Suc k) w @ bs) = rd (Suc i) (word_of_nat (a * 128 + d)) (vhi k w @ bs)"
    using Suc.prems b d by (simp add: shift7_step and_80_iff d_def [symmetric])
  also have "\<dots> = rd (i + Suc k) (word_of_nat ((a * 128 + d) * 128 ^ k + w mod 128 ^ k)) bs"
    using Suc.IH [of "Suc i" "a * 128 + d"] Suc.prems by simp
  also have "(a * 128 + d) * 128 ^ k + w mod 128 ^ k = a * 128 ^ Suc k + w mod 128 ^ Suc k"
    using mod_mult2_eq [of w "128 ^ k" 128] by (simp add: d_def algebra_simps)
  finally show ?case .
qed

lemma rd_vspec: "v < 2 ^ 64 \<Longrightarrow> rd 0 0 (vspec v @ bs) = Some (word_of_nat v, length (vspec v))"
proof (cases "v < 2 ^ 56")
  case True
  define k where "k = groups (v div 128)"
  have "v div 128 < 128 ^ 7"
    using True by (simp add: div_less_iff_less_mult)
  then have "k \<le> 7" unfolding k_def by (rule groups_le)
  moreover have "v div 128 mod 128 ^ k = v div 128"
    using groups_bound [of "v div 128"] by (simp add: k_def)
  moreover have "unat (word_of_nat (v mod 128) :: byte) = v mod 128"
    by (simp only: byte_simps) (rule mod_less, rule order.strict_trans2 [OF mod_less_divisor], simp_all)
  ultimately have "rd 0 0 (vspec v @ bs) = Some (word_of_nat (v div 128) * 128 + word_of_nat (v mod 128), Suc k)"
    using True rd_vhi [of 0 k 0 "v div 128"]
    by (simp add: vspec_def k_def [symmetric] shift7_step and_80_iff)
  moreover have "(word_of_nat (v div 128) * 128 + word_of_nat (v mod 128) :: u64) = word_of_nat v"
    using arg_cong [OF div_mult_mod_eq [of v 128], of "word_of_nat :: nat \<Rightarrow> u64"] by (simp only: of_nat_add of_nat_mult of_nat_numeral)
  ultimately show ?thesis using True by (simp add: vspec_def k_def)
next
  case False
  assume "v < 2 ^ 64"
  then have "v div 256 < 128 ^ 8"
    by (simp add: div_less_iff_less_mult)
  then have "rd 0 0 (vspec v @ bs) = Some (word_of_nat (v div 256) * 256 + word_of_nat (v mod 256), 9)"
    using False rd_vhi [of 0 8 0 "v div 256"] by (simp add: vspec_def shift8_step byte_simps)
  moreover have "(word_of_nat (v div 256) * 256 + word_of_nat (v mod 256) :: u64) = word_of_nat v"
    using arg_cong [OF div_mult_mod_eq [of v 256], of "word_of_nat :: nat \<Rightarrow> u64"] by (simp only: of_nat_add of_nat_mult of_nat_numeral)
  ultimately show ?thesis using False by (simp add: vspec_def)
qed

lemma read_varint_rd: "read_varint buf off = rd 0 0 (drop off buf)"
  using read_varint_loop_rd [of 0 buf off 0] by (simp add: read_varint_def)

interpretation sqlite_varint: prefix_codec write_varint "\<lambda>bs. read_varint bs 0" "\<lambda>_. True"
  by unfold_locales (simp add: read_varint_rd write_varint_vspec rd_vspec [OF u64_bound])

lemma read_varint_at:
  "off = length pre \<Longrightarrow> read_varint (pre @ write_varint v @ rest) off = Some (v, length (write_varint v))"
  by (simp add: read_varint_rd write_varint_vspec rd_vspec [OF u64_bound])

lemma length_write_varint: "1 \<le> length (write_varint v) \<and> length (write_varint v) \<le> 9"
proof (cases "unat v < 2 ^ 56")
  case True
  then have "unat v div 128 < 128 ^ 7"
    by (simp add: div_less_iff_less_mult)
  then have "groups (unat v div 128) \<le> 7" by (rule groups_le)
  with True show ?thesis by (simp add: write_varint_vspec vspec_def)
qed (simp add: write_varint_vspec vspec_def)

lemma rd_consumed: "rd i r bs = Some (v, n) \<Longrightarrow> i \<le> 8 \<Longrightarrow> i < n \<and> n \<le> 9 \<and> n \<le> i + length bs"
proof (induction i r bs rule: rd.induct)
  case (2 i r b bs)
  then show ?case
    by (cases "i < 8") (auto simp: Let_def split: if_splits)
qed simp

lemma read_varint_consumed:
  "read_varint buf off = Some (v, n) \<Longrightarrow> 1 \<le> n \<and> n \<le> 9 \<and> off + n \<le> length buf"
  using rd_consumed [of 0 0 "drop off buf" v n] by (cases "off \<le> length buf") (auto simp: read_varint_rd)

subsection \<open>Properties\<close>

text \<open>
  wherever a varint written by \<^verbatim>\<open>write_varint\<close> lies in a buffer, \<^verbatim>\<open>read_varint\<close> at its offset
  returns the signed value and exactly the 1 to 9 bytes that were written.
\<close>

theorem varint_roundtrip:
  "read_varint (pre @ write_varint v @ rest) (length pre) = Some (v, length (write_varint v))
   \<and> length (write_varint v) \<in> {1 .. 9}"
  using read_varint_at [of "length pre" pre v rest] length_write_varint [of v] by simp

text \<open>
  \<^verbatim>\<open>read_varint\<close> is total on any buffer and offset and never claims bytes past the end: a
  success consumes 1 to 9 bytes inside the buffer.
\<close>

lemma read_varint_in_bounds:
  "case read_varint buf off of None \<Rightarrow> True | Some (v, n) \<Rightarrow> 1 \<le> n \<and> n \<le> 9 \<and> off + n \<le> length buf"
  using read_varint_consumed by (auto split: option.splits)

end
