(* ===== verification/Text.thy ===== *)
theory Text
  imports Prelude
begin

text \<open>
  \<^verbatim>\<open>src/types/text.rs\<close>: the engine's TEXT representation. A text either holds valid UTF-8
  (the inline and heap variants, \<open>Plain\<close>) or bytes that are not (the raw variant, which
  carries a masked copy for \<^verbatim>\<open>as_str\<close>). \<open>from_utf8\<close> is the standard library's
  \<^verbatim>\<open>std::str::from_utf8\<close>, which reports how far the input is valid and how long the first
  invalid sequence is.
\<close>

subsection \<open>The standard library's UTF-8 validation\<close>

datatype utf8_step = Good nat | Bad "nat option"

definition is_cont :: "byte \<Rightarrow> bool" where
  "is_cont b \<longleftrightarrow> 0x80 \<le> unat b \<and> unat b \<le> 0xBF"

definition second3_ok :: "nat \<Rightarrow> byte \<Rightarrow> bool" where
  "second3_ok lead b \<longleftrightarrow>
     (if lead = 0xE0 then 0xA0 \<le> unat b \<and> unat b \<le> 0xBF
      else if lead = 0xED then 0x80 \<le> unat b \<and> unat b \<le> 0x9F
      else is_cont b)"

definition second4_ok :: "nat \<Rightarrow> byte \<Rightarrow> bool" where
  "second4_ok lead b \<longleftrightarrow>
     (if lead = 0xF0 then 0x90 \<le> unat b \<and> unat b \<le> 0xBF
      else if lead = 0xF4 then 0x80 \<le> unat b \<and> unat b \<le> 0x8F
      else is_cont b)"

fun third_cont :: "bytes \<Rightarrow> utf8_step" where
  "third_cont [] = Bad None"
| "third_cont (b # _) = (if is_cont b then Good 3 else Bad (Some 2))"

fun third_fourth_cont :: "bytes \<Rightarrow> utf8_step" where
  "third_fourth_cont [] = Bad None"
| "third_fourth_cont (b # bs) =
     (if \<not> is_cont b then Bad (Some 2)
      else case bs of [] \<Rightarrow> Bad None | c # _ \<Rightarrow> if is_cont c then Good 4 else Bad (Some 3))"

fun utf8_char :: "bytes \<Rightarrow> utf8_step" where
  "utf8_char [] = Bad None"
| "utf8_char (b # bs) =
     (let n = unat b in
      if n < 0x80 then Good 1
      else if 0xC2 \<le> n \<and> n \<le> 0xDF
      then (case bs of [] \<Rightarrow> Bad None | c # _ \<Rightarrow> if is_cont c then Good 2 else Bad (Some 1))
      else if 0xE0 \<le> n \<and> n \<le> 0xEF
      then (case bs of [] \<Rightarrow> Bad None
            | c # cs \<Rightarrow> if second3_ok n c then third_cont cs else Bad (Some 1))
      else if 0xF0 \<le> n \<and> n \<le> 0xF4
      then (case bs of [] \<Rightarrow> Bad None
            | c # cs \<Rightarrow> if second4_ok n c then third_fourth_cont cs else Bad (Some 1))
      else Bad (Some 1))"

lemma third_cont_Good: "third_cont bs = Good n \<Longrightarrow> n = 3 \<and> 1 \<le> length bs"
  by (cases bs) (auto split: if_splits)

lemma third_fourth_cont_Good: "third_fourth_cont bs = Good n \<Longrightarrow> n = 4 \<and> 2 \<le> length bs"
  by (cases bs) (auto split: if_splits list.splits)

lemma utf8_char_Good: "utf8_char bs = Good n \<Longrightarrow> 1 \<le> n \<and> n \<le> 4 \<and> n \<le> length bs"
  by (cases bs)
    (auto simp: Let_def split: if_splits list.splits dest!: third_cont_Good third_fourth_cont_Good)

function utf8_scan :: "nat \<Rightarrow> bytes \<Rightarrow> (nat \<times> nat option) option" where
  "utf8_scan pos bs =
     (if bs = [] then None
      else case utf8_char bs of Good n \<Rightarrow> utf8_scan (pos + n) (drop n bs) | Bad e \<Rightarrow> Some (pos, e))"
  by pat_completeness auto
termination
  by (relation "measure (\<lambda>(pos, bs). length bs)") (auto dest: utf8_char_Good)

declare utf8_scan.simps [simp del]

text \<open>\<open>None\<close> is \<^verbatim>\<open>Ok\<close>; \<open>Some (valid_up_to, error_len)\<close> is the \<^verbatim>\<open>Utf8Error\<close>.\<close>

definition from_utf8 :: "bytes \<Rightarrow> (nat \<times> nat option) option" where
  "from_utf8 bs = utf8_scan 0 bs"

abbreviation utf8_valid :: "bytes \<Rightarrow> bool" where
  "utf8_valid bs \<equiv> from_utf8 bs = None"

lemma third_cont_Bad: "third_cont bs = Bad (Some k) \<Longrightarrow> k = 2 \<and> 1 \<le> length bs"
  by (cases bs) (auto split: if_splits)

lemma third_fourth_cont_Bad: "third_fourth_cont bs = Bad (Some k) \<Longrightarrow> 2 \<le> k \<and> k \<le> 1 + length bs"
  by (cases bs) (auto split: if_splits list.splits)

lemma utf8_char_Bad: "utf8_char bs = Bad (Some k) \<Longrightarrow> 1 \<le> k \<and> k \<le> length bs"
  by (cases bs)
    (auto simp: Let_def split: if_splits list.splits dest!: third_cont_Bad third_fourth_cont_Bad)

lemma utf8_scan_Some:
  "utf8_scan pos bs = Some (p, e) \<Longrightarrow>
   pos \<le> p \<and> p - pos < length bs \<and> (\<forall>k. e = Some k \<longrightarrow> 1 \<le> k \<and> p - pos + k \<le> length bs)"
proof (induction pos bs rule: utf8_scan.induct)
  case (1 pos bs)
  show ?case
  proof (cases "utf8_char bs")
    case (Good n)
    then have "1 \<le> n \<and> n \<le> length bs" by (auto dest: utf8_char_Good)
    moreover have ne: "bs \<noteq> []" using Good by auto
    moreover have "utf8_scan (pos + n) (drop n bs) = Some (p, e)"
      using 1(2) Good ne by (simp add: utf8_scan.simps [of pos bs])
    note 1(1) [OF ne Good this]
    ultimately show ?thesis by auto
  next
    case (Bad e')
    with 1(2) have "p = pos \<and> e = e' \<and> bs \<noteq> []"
      by (auto simp: utf8_scan.simps [of pos bs] split: if_splits)
    with Bad show ?thesis by (auto dest: utf8_char_Bad)
  qed
qed

lemma from_utf8_Some:
  "from_utf8 bs = Some (p, e) \<Longrightarrow> p < length bs \<and> (\<forall>k. e = Some k \<longrightarrow> 1 \<le> k \<and> p + k \<le> length bs)"
  unfolding from_utf8_def by (drule utf8_scan_Some) auto

subsection \<open>The code\<close>

datatype rtext = Plain bytes | Raw bytes

fun as_bytes :: "rtext \<Rightarrow> bytes" where
  "as_bytes (Plain b) = b"
| "as_bytes (Raw b) = b"

fun is_raw :: "rtext \<Rightarrow> bool" where
  "is_raw (Plain b) = False"
| "is_raw (Raw b) = True"

definition text_len :: "rtext \<Rightarrow> nat" where
  "text_len t = length (as_bytes t)"

definition INLINE_CAP :: nat where "INLINE_CAP = 23"

definition is_inline :: "rtext \<Rightarrow> bool" where
  "is_inline t \<longleftrightarrow> \<not> is_raw t \<and> text_len t \<le> INLINE_CAP"

definition RAW_MASK :: byte where "RAW_MASK = 0x1A"

definition fill_range :: "'a list \<Rightarrow> nat \<Rightarrow> nat \<Rightarrow> 'a \<Rightarrow> 'a list" where
  "fill_range xs s n v = take s xs @ replicate n v @ drop (s + n) xs"

function mask_loop :: "nat \<Rightarrow> bytes \<Rightarrow> bytes" where
  "mask_loop at masked =
     (if at < length masked
      then case from_utf8 (drop at masked) of
             None \<Rightarrow> masked
           | Some (valid_up_to, error_len) \<Rightarrow>
               let bad_start = at + valid_up_to;
                   bad_len = (case error_len of Some k \<Rightarrow> k | None \<Rightarrow> length masked - bad_start)
               in mask_loop (bad_start + bad_len) (fill_range masked bad_start bad_len RAW_MASK)
      else masked)"
  by pat_completeness auto
termination
  by (relation "measure (\<lambda>(at, masked). length masked - at)")
    (auto simp: fill_range_def split: option.splits dest!: from_utf8_Some)

declare mask_loop.simps [simp del]

fun as_str :: "rtext \<Rightarrow> bytes" where
  "as_str (Plain b) = b"
| "as_str (Raw b) = mask_loop 0 b"

definition from_invalid_bytes :: "bytes \<Rightarrow> rtext" where
  "from_invalid_bytes b = (if b = [] \<or> utf8_valid b then Plain b else Raw b)"

definition from_bytes :: "bytes \<Rightarrow> rtext" where
  "from_bytes b = (case from_utf8 b of None \<Rightarrow> Plain b | Some _ \<Rightarrow> from_invalid_bytes b)"

definition duplicate :: "rtext \<Rightarrow> rtext" where
  "duplicate t = (if is_inline t then t
                  else if is_raw t then from_invalid_bytes (as_bytes t) else Plain (as_bytes t))"

fun skip_cont :: "bytes \<Rightarrow> bytes" where
  "skip_cont [] = []"
| "skip_cont (b # bs) = (if b AND 0xC0 = 0x80 then skip_cont bs else b # bs)"

lemma length_skip_cont: "length (skip_cont bs) \<le> length bs"
  by (induction bs) auto

function sqlite_char_count :: "bytes \<Rightarrow> nat" where
  "sqlite_char_count [] = 0"
| "sqlite_char_count (lead # bs) =
     1 + sqlite_char_count (if 0xC0 \<le> lead then skip_cont bs else bs)"
  by pat_completeness auto
termination
  by (relation "measure length") (auto simp: le_imp_less_Suc length_skip_cont)

function char_starts :: "nat \<Rightarrow> bytes \<Rightarrow> nat list" where
  "char_starts i [] = []"
| "char_starts i (lead # bs) =
     (let rest = (if 0xC0 \<le> lead then skip_cont bs else bs)
      in i # char_starts (i + (length (lead # bs) - length rest)) rest)"
  by pat_completeness auto
termination
  by (relation "measure (\<lambda>(i, bs). length bs)") (auto simp: le_imp_less_Suc length_skip_cont)

definition sqlite_char_offsets :: "bytes \<Rightarrow> nat list" where
  "sqlite_char_offsets bs = char_starts 0 bs @ [length bs]"

definition char_start :: "byte \<Rightarrow> bool" where
  "char_start b \<longleftrightarrow> - 64 \<le> sint b"

function count_chunks :: "nat \<Rightarrow> bytes \<Rightarrow> nat" where
  "count_chunks n bytes =
     (if 32 \<le> length bytes
      then let c = take 32 bytes;
               k = length (filter char_start c)
           in if 0 \<in> set c then n + length (filter char_start (takeWhile (\<lambda>x. x \<noteq> 0) c))
              else count_chunks (n + k) (drop 32 bytes)
      else n + length (filter char_start (takeWhile (\<lambda>x. x \<noteq> 0) bytes)))"
  by pat_completeness auto
termination
  by (relation "measure (\<lambda>(n, bytes). length bytes)") auto

declare count_chunks.simps [simp del]

definition utf8_char_count_to_nul :: "bytes \<Rightarrow> nat" where
  "utf8_char_count_to_nul bytes = count_chunks 0 bytes"

text \<open>A text the constructors build: plain exactly when its bytes are valid UTF-8.\<close>

definition text_wf :: "rtext \<Rightarrow> bool" where
  "text_wf t \<longleftrightarrow> is_raw t = (\<not> utf8_valid (as_bytes t))"

subsection \<open>Valid UTF-8 composes\<close>

lemma third_cont_append: "third_cont bs = Good n \<Longrightarrow> third_cont (bs @ cs) = Good n"
  by (cases bs) (auto split: if_splits)

lemma third_fourth_cont_append: "third_fourth_cont bs = Good n \<Longrightarrow> third_fourth_cont (bs @ cs) = Good n"
  by (cases bs) (auto split: if_splits list.splits)

lemma utf8_char_append: "utf8_char bs = Good n \<Longrightarrow> utf8_char (bs @ cs) = Good n"
  by (cases bs)
    (auto simp: Let_def split: if_splits list.splits
      dest: third_cont_append [where cs = cs] third_fourth_cont_append [where cs = cs])

lemma utf8_char_take: "utf8_char bs = Good n \<Longrightarrow> utf8_char (take n bs) = Good n"
proof -
  assume g: "utf8_char bs = Good n"
  consider "bs = []" | b where "bs = [b]" | b c where "bs = [b, c]" | b c d where "bs = [b, c, d]"
    | b c d e r where "bs = b # c # d # e # r"
    by (metis list.exhaust)
  then show ?thesis
    using g by cases (auto simp: Let_def split: if_splits)
qed

lemma utf8_scan_shift:
  "utf8_scan pos bs = map_option (\<lambda>(p, e). (p + pos, e)) (utf8_scan 0 bs)"
proof (induction "length bs" arbitrary: pos bs rule: less_induct)
  case less
  show ?case
  proof (cases "bs = []")
    case False
    show ?thesis
    proof (cases "utf8_char bs")
      case (Good n)
      then have "length (drop n bs) < length bs" using False utf8_char_Good [OF Good] by auto
      note IH = less.hyps [OF this]
      show ?thesis
        using False Good IH [of "pos + n"] IH [of n]
        by (cases "utf8_scan 0 (drop n bs)")
          (auto simp: utf8_scan.simps [of pos bs] utf8_scan.simps [of 0 bs])
    qed (simp add: utf8_scan.simps [of pos bs] utf8_scan.simps [of 0 bs])
  qed (simp add: utf8_scan.simps)
qed

lemma utf8_scan_append:
  "utf8_scan pos bs = None \<Longrightarrow> utf8_scan pos (bs @ cs) = utf8_scan (pos + length bs) cs"
proof (induction pos bs rule: utf8_scan.induct)
  case (1 pos bs)
  show ?case
  proof (cases "bs = []")
    case False
    with 1(2) obtain n where g: "utf8_char bs = Good n" and s: "utf8_scan (pos + n) (drop n bs) = None"
      by (auto simp: utf8_scan.simps [of pos bs] split: utf8_step.splits)
    have n: "n \<le> length bs" using utf8_char_Good [OF g] by simp
    have "utf8_scan pos (bs @ cs) = utf8_scan (pos + n) (drop n bs @ cs)"
      using False n utf8_char_append [OF g, of cs] by (simp add: utf8_scan.simps [of pos "bs @ cs"])
    also have "\<dots> = utf8_scan (pos + length bs) cs"
      using 1(1) [OF False g s] n by simp
    finally show ?thesis .
  qed simp
qed

lemma utf8_valid_append: "utf8_valid bs \<Longrightarrow> utf8_valid cs \<Longrightarrow> utf8_valid (bs @ cs)"
  by (simp add: from_utf8_def utf8_scan_append utf8_scan_shift [of "length bs"])

lemma utf8_valid_Nil [simp]: "utf8_valid []"
  by (simp add: from_utf8_def utf8_scan.simps)

lemma utf8_valid_step:
  assumes "utf8_char bs = Good n"
  shows "utf8_valid bs \<longleftrightarrow> utf8_valid (drop n bs)"
proof -
  have "bs \<noteq> []" using assms by auto
  then show ?thesis
    using assms utf8_scan_shift [of n "drop n bs"] by (simp add: from_utf8_def utf8_scan.simps [of 0 bs])
qed

lemma utf8_valid_ascii: "list_all (\<lambda>b. unat b < 0x80) bs \<Longrightarrow> utf8_valid bs"
  by (induction bs) (simp_all add: utf8_valid_step [where n = 1])

lemma utf8_valid_prefix:
  "utf8_scan 0 bs = Some (p, e) \<Longrightarrow> utf8_scan 0 (take p bs) = None"
proof (induction "length bs" arbitrary: bs p rule: less_induct)
  case less
  have ne: "bs \<noteq> []" using less.prems by (auto simp: utf8_scan.simps)
  show ?case
  proof (cases "utf8_char bs")
    case (Good n)
    have n: "1 \<le> n" "n \<le> length bs" using utf8_char_Good [OF Good] by simp_all
    from less.prems obtain q where q: "utf8_scan 0 (drop n bs) = Some (q, e)" "p = q + n"
      using ne Good utf8_scan_shift [of n "drop n bs"] by (auto simp: utf8_scan.simps [of 0 bs])
    have "take p bs = take n bs @ take q (drop n bs)"
      using q(2) by (simp add: take_add ac_simps)
    moreover have "utf8_scan 0 (take n bs) = None"
      using utf8_valid_step [OF utf8_char_take [OF Good]] by (simp add: from_utf8_def utf8_scan.simps)
    moreover have "utf8_scan 0 (take q (drop n bs)) = None"
      using less.hyps [OF _ q(1)] n ne by simp
    ultimately show ?thesis
      using utf8_valid_append by (simp add: from_utf8_def)
  qed (use less.prems ne in \<open>auto simp: utf8_scan.simps\<close>)
qed

subsection \<open>The raw variant's masked view\<close>

lemma length_fill_range [simp]: "s + n \<le> length xs \<Longrightarrow> length (fill_range xs s n v) = length xs"
  by (simp add: fill_range_def)

lemma mask_loop_valid:
  "at \<le> length masked \<Longrightarrow> utf8_valid (take at masked) \<Longrightarrow>
   utf8_valid (mask_loop at masked) \<and> length (mask_loop at masked) = length masked"
proof (induction at masked rule: mask_loop.induct)
  case (1 at masked)
  show ?case
  proof (cases "at < length masked")
    case False
    then have "mask_loop at masked = masked" by (simp add: mask_loop.simps [of at masked])
    with False "1.prems" show ?thesis by simp
  next
    case True
    show ?thesis
    proof (cases "from_utf8 (drop at masked)")
      case None
      with "1.prems" True show ?thesis
        using utf8_valid_append [of "take at masked" "drop at masked"]
        by (simp add: mask_loop.simps [of at masked])
    next
      case (Some err)
      obtain vu el where err: "err = (vu, el)" by (cases err)
      define bs where "bs = at + vu"
      define bl where "bl = (case el of Some k \<Rightarrow> k | None \<Rightarrow> length masked - bs)"
      have vu: "vu < length masked - at" and bl: "bs + bl \<le> length masked"
        using from_utf8_Some [of "drop at masked" vu el] Some err True
        by (auto simp: bs_def bl_def split: option.splits)
      have step: "mask_loop at masked = mask_loop (bs + bl) (fill_range masked bs bl RAW_MASK)"
        unfolding bs_def bl_def using True Some err by (simp add: mask_loop.simps [of at masked] Let_def)
      have "take (bs + bl) (fill_range masked bs bl RAW_MASK)
              = (take at masked @ take vu (drop at masked)) @ replicate bl RAW_MASK"
        using bl vu by (simp add: fill_range_def bs_def take_add min_def)
      moreover have "utf8_valid (take vu (drop at masked))"
        using utf8_valid_prefix [of "drop at masked" vu el] Some err by (simp add: from_utf8_def)
      moreover have "utf8_valid (replicate bl RAW_MASK)"
        by (rule utf8_valid_ascii) (simp add: RAW_MASK_def list_all_iff)
      ultimately have "utf8_valid (take (bs + bl) (fill_range masked bs bl RAW_MASK))"
        using "1.prems"(2) by (simp only: utf8_valid_append)
      then show ?thesis
        using "1.IH" [OF True Some err [symmetric] refl refl] bl step unfolding bs_def bl_def by simp
    qed
  qed
qed

lemma as_str_valid: "text_wf t \<Longrightarrow> utf8_valid (as_str t) \<and> length (as_str t) = length (as_bytes t)"
  by (cases t) (use mask_loop_valid [of 0] in \<open>simp_all add: text_wf_def del: not_None_eq\<close>)

lemma text_wf_from_bytes: "text_wf (from_bytes b) \<and> as_bytes (from_bytes b) = b"
  by (auto simp: from_bytes_def from_invalid_bytes_def text_wf_def split: option.splits)

lemma text_wf_from_invalid_bytes: "text_wf (from_invalid_bytes b) \<and> as_bytes (from_invalid_bytes b) = b"
  by (auto simp: from_invalid_bytes_def text_wf_def)

subsection \<open>Character counts\<close>

lemma byte_bit: "k < 8 \<Longrightarrow> bit (b :: byte) k \<longleftrightarrow> odd (unat b div 2 ^ k)"
proof -
  assume "k < 8"
  then have "bit b k \<longleftrightarrow> bit (unat b) k" by (simp add: bit_unsigned_iff)
  then show ?thesis by (simp add: bit_iff_odd)
qed

lemma and_c0_iff: "(b :: byte) AND 0xC0 = 0x80 \<longleftrightarrow> is_cont b"
proof -
  have "b AND 0xC0 = 0x80 \<longleftrightarrow> bit b 7 \<and> \<not> bit b 6"
  proof
    assume h: "b AND 0xC0 = 0x80"
    have "bit (b AND 0xC0) 7 \<and> \<not> bit (b AND 0xC0) 6" unfolding h by simp
    then show "bit b 7 \<and> \<not> bit b 6" by (simp add: bit_and_iff)
  next
    assume h: "bit b 7 \<and> \<not> bit b 6"
    show "b AND 0xC0 = 0x80"
    proof (rule bit_word_eqI)
      fix n
      assume "n < LENGTH(8)"
      then consider "n = 0" | "n = 1" | "n = 2" | "n = 3" | "n = 4" | "n = 5" | "n = 6" | "n = 7" by fastforce
      then show "bit (b AND 0xC0) n \<longleftrightarrow> bit (0x80 :: byte) n"
        using h by cases (simp_all add: bit_and_iff)
    qed
  qed
  also have "\<dots> \<longleftrightarrow> odd (unat b div 128) \<and> even (unat b div 64)"
    using byte_bit [of 7 b] byte_bit [of 6 b] by simp
  also have "\<dots> \<longleftrightarrow> unat b div 64 = 2"
  proof -
    have e: "unat b div 128 = unat b div 64 div 2" by (simp flip: div_mult2_eq)
    have "unat b div 64 < 4" using unat_byte_less [of b] by (simp add: div_less_iff_less_mult)
    then consider "unat b div 64 = 0" | "unat b div 64 = 1" | "unat b div 64 = 2" | "unat b div 64 = 3"
      by linarith
    then show ?thesis by cases (simp_all add: e)
  qed
  also have "\<dots> \<longleftrightarrow> is_cont b"
    unfolding is_cont_def by (rule iffI) (linarith, rule div_nat_eqI, simp_all)
  finally show ?thesis .
qed

lemma char_start_iff: "char_start b \<longleftrightarrow> \<not> is_cont b"
proof -
  have "sint b = (if unat b < 128 then int (unat b) else int (unat b) - 256)"
    using sint_unat [of b] by simp
  then show ?thesis
    unfolding char_start_def is_cont_def
    using unat_byte_less [of b] by (cases "unat b < 128") (simp_all del: of_nat_unat, linarith+)
qed

lemma char_start_eq: "char_start = (\<lambda>b. \<not> is_cont b)"
  by (simp add: fun_eq_iff char_start_iff)

text \<open>A character of valid UTF-8: one start byte, then continuation bytes only.\<close>

lemma second_ok_cont: "second3_ok n c \<Longrightarrow> is_cont c" "second4_ok n c \<Longrightarrow> is_cont c"
  by (auto simp: second3_ok_def second4_ok_def is_cont_def split: if_splits)

lemma utf8_char_shape:
  assumes "utf8_char bs = Good n"
  shows "\<exists>b cs rest. bs = b # cs @ rest \<and> Suc (length cs) = n \<and> \<not> is_cont b
           \<and> list_all is_cont cs \<and> (cs \<noteq> [] \<longrightarrow> 0xC0 \<le> b)"
proof -
  obtain b r where bs: "bs = b # r" using assms by (cases bs) auto
  have c0: "0xC0 \<le> unat b \<Longrightarrow> 0xC0 \<le> b" by (simp add: word_le_nat_alt)
  have nc: "unat b < 0x80 \<or> 0xC0 \<le> unat b \<Longrightarrow> \<not> is_cont b" by (auto simp: is_cont_def)
  have "(n = 1 \<and> unat b < 0x80)
      \<or> (\<exists>c q. r = c # q \<and> n = 2 \<and> 0xC0 \<le> unat b \<and> is_cont c)
      \<or> (\<exists>c d q. r = c # d # q \<and> n = 3 \<and> 0xC0 \<le> unat b \<and> is_cont c \<and> is_cont d)
      \<or> (\<exists>c d e q. r = c # d # e # q \<and> n = 4 \<and> 0xC0 \<le> unat b \<and> is_cont c \<and> is_cont d \<and> is_cont e)"
  proof (cases r)
    case Nil
    with assms bs show ?thesis by (auto simp: Let_def split: if_splits)
  next
    case (Cons c q)
    have "third_cont q = Good n \<Longrightarrow> n = 3 \<and> (\<exists>d q'. q = d # q' \<and> is_cont d)"
      by (cases q) (auto split: if_splits)
    moreover have "third_fourth_cont q = Good n \<Longrightarrow> n = 4 \<and> (\<exists>d e q'. q = d # e # q' \<and> is_cont d \<and> is_cont e)"
      by (cases q) (auto split: if_splits list.splits)
    ultimately show ?thesis
      using assms bs Cons by (auto simp: Let_def dest: second_ok_cont split: if_splits)
  qed
  then show ?thesis
  proof (elim disjE exE conjE)
    assume "n = 1" "unat b < 0x80"
    with bs nc show ?thesis by (intro exI [of _ b] exI [of _ "[]"] exI [of _ r]) auto
  next
    fix c q assume "r = c # q" "n = 2" "0xC0 \<le> unat b" "is_cont c"
    with bs nc c0 show ?thesis by (intro exI [of _ b] exI [of _ "[c]"] exI [of _ q]) auto
  next
    fix c d q assume "r = c # d # q" "n = 3" "0xC0 \<le> unat b" "is_cont c" "is_cont d"
    with bs nc c0 show ?thesis by (intro exI [of _ b] exI [of _ "[c, d]"] exI [of _ q]) auto
  next
    fix c d e q assume "r = c # d # e # q" "n = 4" "0xC0 \<le> unat b" "is_cont c" "is_cont d" "is_cont e"
    with bs nc c0 show ?thesis by (intro exI [of _ b] exI [of _ "[c, d, e]"] exI [of _ q]) auto
  qed
qed

lemma skip_cont_append:
  "list_all is_cont cs \<Longrightarrow> (rest = [] \<or> \<not> is_cont (hd rest)) \<Longrightarrow> skip_cont (cs @ rest) = rest"
  by (induction cs) (cases rest; auto simp: and_c0_iff)+

lemma utf8_valid_hd: "utf8_valid bs \<Longrightarrow> bs \<noteq> [] \<Longrightarrow> \<not> is_cont (hd bs)"
proof -
  assume "utf8_valid bs" and ne: "bs \<noteq> []"
  then obtain n where "utf8_char bs = Good n"
    by (auto simp: from_utf8_def utf8_scan.simps [of 0 bs] split: utf8_step.splits)
  then show ?thesis using utf8_char_shape [of bs n] by auto
qed

text \<open>
  Induction over the characters of valid UTF-8: the empty text, and a character followed by
  valid UTF-8.
\<close>

lemma utf8_valid_induct [consumes 1, case_names Nil Char]:
  assumes "utf8_valid bs" and "P []"
    and "\<And>b cs rest. \<not> is_cont b \<Longrightarrow> list_all is_cont cs \<Longrightarrow> (cs \<noteq> [] \<Longrightarrow> 0xC0 \<le> b) \<Longrightarrow>
           utf8_valid rest \<Longrightarrow> P rest \<Longrightarrow> P (b # cs @ rest)"
  shows "P bs"
  using assms(1)
proof (induction "length bs" arbitrary: bs rule: less_induct)
  case less
  show ?case
  proof (cases "bs = []")
    case True
    with assms(2) show ?thesis by simp
  next
    case False
    with less.prems obtain n where g: "utf8_char bs = Good n"
      by (auto simp: from_utf8_def utf8_scan.simps [of 0 bs] split: utf8_step.splits)
    from utf8_char_shape [OF g] obtain b cs rest where
      bs: "bs = b # cs @ rest" and n: "Suc (length cs) = n" and b: "\<not> is_cont b" and cs: "list_all is_cont cs"
      and hi: "cs \<noteq> [] \<longrightarrow> 0xC0 \<le> b"
      by blast
    have "drop n bs = rest" using bs n by auto
    then have v: "utf8_valid rest" using utf8_valid_step [OF g] less.prems by simp
    have "P rest" using less.hyps [OF _ v] bs by simp
    then show ?thesis using assms(3) [OF b cs _ v] hi bs by blast
  qed
qed

lemma cont_nonzero: "is_cont b \<Longrightarrow> b \<noteq> 0"
  by (auto simp: is_cont_def)

lemma takeWhile_hd_start:
  "utf8_valid bs \<Longrightarrow> takeWhile P bs = [] \<or> \<not> is_cont (hd (takeWhile P bs))"
  using utf8_valid_hd [of bs] by (cases bs) auto

lemma takeWhile_conts:
  "list_all is_cont cs \<Longrightarrow> takeWhile (\<lambda>x. x \<noteq> 0) (cs @ rest) = cs @ takeWhile (\<lambda>x. x \<noteq> 0) rest"
  by (induction cs) (auto dest: cont_nonzero)

lemma char_count_valid:
  "utf8_valid bs \<Longrightarrow>
   sqlite_char_count (takeWhile (\<lambda>x. x \<noteq> 0) bs) = length (filter char_start (takeWhile (\<lambda>x. x \<noteq> 0) bs))"
proof (induction rule: utf8_valid_induct)
  case Nil
  show ?case by simp
next
  case (Char b cs rest)
  let ?w = "takeWhile (\<lambda>x. x \<noteq> 0) rest"
  have none: "filter (\<lambda>b. \<not> is_cont b) cs = []"
    using Char(2) by (simp add: filter_empty_conv list_all_iff)
  have sk: "skip_cont (cs @ ?w) = ?w"
    by (rule skip_cont_append [OF Char(2) takeWhile_hd_start [OF Char(4)]])
  have "cs = [] \<Longrightarrow> skip_cont ?w = ?w" using sk by simp
  then have "b \<noteq> 0 \<Longrightarrow> sqlite_char_count (b # cs @ ?w) = 1 + sqlite_char_count ?w"
    using sk Char(3) by (cases "cs = []") auto
  then show ?case
    using Char(1,5) by (simp add: takeWhile_conts [OF Char(2)] none char_start_eq)
qed

lemma count_chunks_eq:
  "count_chunks n bs = n + length (filter char_start (takeWhile (\<lambda>x. x \<noteq> 0) bs))"
proof (induction n bs rule: count_chunks.induct)
  case (1 n bs)
  have split: "takeWhile (\<lambda>x. x \<noteq> 0) bs =
      (if 0 \<in> set (take 32 bs) then takeWhile (\<lambda>x. x \<noteq> 0) (take 32 bs)
       else take 32 bs @ takeWhile (\<lambda>x. x \<noteq> 0) (drop 32 bs))"
    using takeWhile_append [of "\<lambda>x. x \<noteq> 0" "take 32 bs" "drop 32 bs"] by auto
  show ?case
  proof (cases "32 \<le> length bs \<and> 0 \<notin> set (take 32 bs)")
    case True
    then have "count_chunks n bs = count_chunks (n + length (filter char_start (take 32 bs))) (drop 32 bs)"
      by (simp add: count_chunks.simps [of n bs] Let_def)
    also have "\<dots> = n + length (filter char_start (take 32 bs))
        + length (filter char_start (takeWhile (\<lambda>x. x \<noteq> 0) (drop 32 bs)))"
      using True by (intro 1) auto
    finally show ?thesis using True split by simp
  next
    case False
    show ?thesis
    proof (cases "32 \<le> length bs")
      case True
      with False have z: "0 \<in> set (take 32 bs)" by simp
      then have "takeWhile (\<lambda>x. x \<noteq> 0) bs = takeWhile (\<lambda>x. x \<noteq> 0) (take 32 bs)" by (simp only: split if_True)
      with True z show ?thesis by (simp add: count_chunks.simps [of n bs] Let_def)
    qed (simp add: count_chunks.simps [of n bs])
  qed
qed

lemma length_char_starts: "length (char_starts i bs) = sqlite_char_count bs"
  by (induction i bs rule: char_starts.induct) (simp_all add: Let_def)

subsection \<open>Properties\<close>

text \<open>
  every text built from arbitrary bytes keeps those bytes, and the string view handed to
  \<^verbatim>\<open>from_utf8_unchecked\<close> is valid UTF-8 of the same length (the safety condition of the
  \<^verbatim>\<open>unsafe\<close> blocks in \<^verbatim>\<open>as_str\<close>).
\<close>

theorem as_str_is_utf8:
  "utf8_valid (as_str (from_bytes b)) \<and> length (as_str (from_bytes b)) = length b \<and> as_bytes (from_bytes b) = b"
  using as_str_valid [of "from_bytes b"] text_wf_from_bytes [of b] by simp

text \<open>
  on valid UTF-8 the chunked, branch-free count equals the stepping count of the bytes
  before the first NUL.
\<close>

theorem utf8_count_matches_stepping:
  "utf8_valid bs \<Longrightarrow> utf8_char_count_to_nul bs = sqlite_char_count (takeWhile (\<lambda>x. x \<noteq> 0) bs)"
  by (simp add: utf8_char_count_to_nul_def count_chunks_eq char_count_valid)

theorem utf8_count_matches_stepping_witness:
  "utf8_char_count_to_nul [0x63, 0xC3, 0xA9, 0, 0x41] = sqlite_char_count (takeWhile (\<lambda>x. x \<noteq> 0) [0x63, 0xC3, 0xA9, 0, 0x41])"
proof (rule utf8_count_matches_stepping)
  show "utf8_valid [0x63, 0xC3, 0xA9, 0, 0x41]"
    by (simp add: from_utf8_def utf8_scan.simps is_cont_def)
qed

end
