(* ===== verification/Ordering.thy ===== *)
theory Ordering
  imports Prelude
begin

text \<open>
  Rust's \<^verbatim>\<open>std::cmp::Ordering\<close>: comparison functions, the contract of \<^verbatim>\<open>Ord::cmp\<close> (a total
  preorder) and the contract of an encoding whose byte order is the order of the values.
  The values, the text orders and the index keys interpret the locales.
\<close>

datatype ordering = Less | Equal | Greater

fun reverse :: "ordering \<Rightarrow> ordering" where
  "reverse Less = Greater"
| "reverse Equal = Equal"
| "reverse Greater = Less"

text \<open>\<^verbatim>\<open>Ordering::then\<close>: the second comparison decides a tie of the first.\<close>

definition and_then :: "ordering \<Rightarrow> ordering \<Rightarrow> ordering" where
  "and_then c d = (if c = Equal then d else c)"

definition cmp_of :: "('a::linorder) \<Rightarrow> 'a \<Rightarrow> ordering" where
  "cmp_of x y = (if x < y then Less else if y < x then Greater else Equal)"

text \<open>The comparison of slices: the first difference decides, then the shorter one is less.\<close>

fun cmp_list :: "('a::linorder) list \<Rightarrow> 'a list \<Rightarrow> ordering" where
  "cmp_list [] [] = Equal"
| "cmp_list [] (y # ys) = Less"
| "cmp_list (x # xs) [] = Greater"
| "cmp_list (x # xs) (y # ys) = (if x < y then Less else if y < x then Greater else cmp_list xs ys)"

fun lex_cmp :: "('a \<Rightarrow> 'a \<Rightarrow> ordering) \<Rightarrow> 'a list \<Rightarrow> 'a list \<Rightarrow> ordering" where
  "lex_cmp c [] [] = Equal"
| "lex_cmp c [] (y # ys) = Less"
| "lex_cmp c (x # xs) [] = Greater"
| "lex_cmp c (x # xs) (y # ys) = and_then (c x y) (lex_cmp c xs ys)"

lemma and_then_simps [simp]: "and_then Less d = Less" "and_then Equal d = d" "and_then Greater d = Greater" "and_then c Equal = c"
  by (simp_all add: and_then_def)

lemma reverse_simps [simp]: "reverse (reverse c) = c" "reverse c = Equal \<longleftrightarrow> c = Equal" "reverse c = Less \<longleftrightarrow> c = Greater" "reverse c = Greater \<longleftrightarrow> c = Less"
  by (cases c; simp)+

lemma reverse_and_then: "reverse (and_then c d) = and_then (reverse c) (reverse d)"
  by (cases c) simp_all

lemma cmp_of_simps [simp]:
  "cmp_of x y = Less \<longleftrightarrow> x < y" "cmp_of x y = Equal \<longleftrightarrow> x = y" "cmp_of x y = Greater \<longleftrightarrow> y < x" "cmp_of x x = Equal"
  by (auto simp: cmp_of_def)

lemma reverse_cmp_of: "reverse (cmp_of x y) = cmp_of y x"
  by (auto simp: cmp_of_def)

lemma cmp_list_lex: "cmp_list xs ys = lex_cmp cmp_of xs ys"
  by (induction xs ys rule: cmp_list.induct) (auto simp: cmp_of_def and_then_def)

lemma cmp_list_self [simp]: "cmp_list xs xs = Equal"
  by (induction xs) simp_all

lemma cmp_list_Equal: "cmp_list xs ys = Equal \<longleftrightarrow> xs = ys"
  by (induction xs ys rule: cmp_list.induct) auto

lemma cmp_list_append:
  "length xs = length ys \<Longrightarrow> cmp_list (xs @ as) (ys @ bs) = and_then (cmp_list xs ys) (cmp_list as bs)"
  by (induction xs ys rule: list_induct2) auto

subsection \<open>The contract of a comparison\<close>

locale total_preorder =
  fixes cmp :: "'a \<Rightarrow> 'a \<Rightarrow> ordering"
  assumes cmp_reverse: "reverse (cmp x y) = cmp y x"
    and cmp_trans: "cmp x y \<noteq> Greater \<Longrightarrow> cmp y z \<noteq> Greater \<Longrightarrow> cmp x z \<noteq> Greater"
begin

lemma cmp_refl: "cmp x x = Equal"
  using cmp_reverse [of x x] by (cases "cmp x x") simp_all

lemma cmp_Greater_iff: "cmp x y = Greater \<longleftrightarrow> cmp y x = Less"
  using cmp_reverse [of x y] by (cases "cmp x y") auto

lemma cmp_Equal_sym: "cmp x y = Equal \<longleftrightarrow> cmp y x = Equal"
  using cmp_reverse [of x y] by (cases "cmp x y") auto

lemma cmp_Equal_trans: "cmp x y = Equal \<Longrightarrow> cmp y z = Equal \<Longrightarrow> cmp x z = Equal"
  using cmp_trans [of x y z] cmp_trans [of z y x] cmp_Equal_sym [of x y] cmp_Equal_sym [of y z] cmp_Greater_iff [of z x]
  by (cases "cmp x z") auto

lemma cmp_cong:
  assumes "cmp x y = Equal"
  shows "cmp x z = cmp y z"
proof (cases "cmp x z = Greater \<or> cmp y z = Greater")
  case True
  have "cmp y x \<noteq> Greater" "cmp x y \<noteq> Greater" using assms cmp_Equal_sym [of x y] by auto
  then show ?thesis using True cmp_trans by metis
next
  case False
  then have "cmp y z = Equal \<longleftrightarrow> cmp x z = Equal" using assms cmp_Equal_trans cmp_Equal_sym by metis
  with False show ?thesis by (metis ordering.exhaust)
qed

lemma cmp_Less_trans: "cmp x y = Less \<Longrightarrow> cmp y z \<noteq> Greater \<Longrightarrow> cmp x z = Less"
  using cmp_trans [of x y z] cmp_trans [of z y x] cmp_cong [of x z y] cmp_Greater_iff cmp_reverse
  by (metis ordering.exhaust ordering.distinct(3,5))

lemma lex_reverse: "reverse (lex_cmp cmp xs ys) = lex_cmp cmp ys xs"
proof (induction xs arbitrary: ys)
  case Nil
  then show ?case by (cases ys) simp_all
next
  case (Cons x xs)
  then show ?case by (cases ys) (simp_all add: reverse_and_then cmp_reverse)
qed

text \<open>Rows are compared column by column: the lifted comparison keeps the contract.\<close>

lemma lex_trans: "lex_cmp cmp xs ys \<noteq> Greater \<Longrightarrow> lex_cmp cmp ys zs \<noteq> Greater \<Longrightarrow> lex_cmp cmp xs zs \<noteq> Greater"
proof (induction xs arbitrary: ys zs)
  case Nil
  then show ?case by (cases zs) simp_all
next
  case (Cons x xs)
  then obtain y ys' where ys: "ys = y # ys'" by (cases ys) simp_all
  with Cons.prems(2) obtain z zs' where zs: "zs = z # zs'" by (cases zs) simp_all
  have le: "cmp x y \<noteq> Greater" "cmp y z \<noteq> Greater" using Cons.prems by (auto simp: ys zs)
  show ?case
  proof (cases "cmp x y = Equal \<and> cmp y z = Equal")
    case True
    then have "cmp x z = Equal" using cmp_Equal_trans by blast
    moreover have "lex_cmp cmp xs zs' \<noteq> Greater" using Cons.IH [of ys' zs'] Cons.prems True by (simp add: ys zs)
    ultimately show ?thesis by (simp add: zs)
  next
    case False
    then have "cmp x z = Less"
      using le cmp_Less_trans [of x y z] cmp_cong [of x y z] by (cases "cmp x y"; cases "cmp y z") auto
    then show ?thesis by (simp add: zs)
  qed
qed

lemma lex_total_preorder: "total_preorder (lex_cmp cmp)"
  by unfold_locales (rule lex_reverse, erule (1) lex_trans)

end

text \<open>Comparisons are built from others: by a key, and one after the other.\<close>

lemma preorder_cmp_of: "total_preorder (\<lambda>x y. cmp_of (f x) (f y))"
  by unfold_locales (auto simp: reverse_cmp_of not_less cmp_of_def split: if_splits)

lemma preorder_cmp_list: "total_preorder (\<lambda>x y. cmp_list (f x) (f y))"
proof -
  have "total_preorder (lex_cmp cmp_of)"
    by (rule total_preorder.lex_total_preorder) (rule preorder_cmp_of [of "\<lambda>x. x"])
  then show ?thesis unfolding cmp_list_lex total_preorder_def by blast
qed

lemma preorder_and_then:
  assumes "total_preorder c" "total_preorder d"
  shows "total_preorder (\<lambda>x y. and_then (c x y) (d x y))"
proof
  fix x y z
  show "reverse (and_then (c x y) (d x y)) = and_then (c y x) (d y x)"
    by (simp add: reverse_and_then total_preorder.cmp_reverse [OF assms(1)] total_preorder.cmp_reverse [OF assms(2)])
  assume le: "and_then (c x y) (d x y) \<noteq> Greater" "and_then (c y z) (d y z) \<noteq> Greater"
  then have c: "c x y \<noteq> Greater" "c y z \<noteq> Greater" by auto
  show "and_then (c x z) (d x z) \<noteq> Greater"
  proof (cases "c x y = Equal \<and> c y z = Equal")
    case True
    then have "c x z = Equal" using total_preorder.cmp_Equal_trans [OF assms(1)] by blast
    then show ?thesis using True le total_preorder.cmp_trans [OF assms(2), of x y z] by simp
  next
    case False
    then have "c x z = Less"
      using c total_preorder.cmp_Less_trans [OF assms(1), of x y z] total_preorder.cmp_cong [OF assms(1), of x y z]
      by (cases "c x y"; cases "c y z") auto
    then show ?thesis by simp
  qed
qed

subsection \<open>Encodings that keep the order\<close>

text \<open>
  The key of a value decides before anything that follows it: keys of different values differ
  before either of them ends, so keys can be put one after the other.
\<close>

locale order_encoding =
  fixes enc :: "'a \<Rightarrow> bytes"
    and cmp :: "'a \<Rightarrow> 'a \<Rightarrow> ordering"
    and valid :: "'a \<Rightarrow> bool"
  assumes enc_order: "valid x \<Longrightarrow> valid y \<Longrightarrow> cmp_list (enc x @ r) (enc y @ s) = and_then (cmp x y) (cmp_list r s)"
begin

lemma enc_cmp: "valid x \<Longrightarrow> valid y \<Longrightarrow> cmp_list (enc x) (enc y) = cmp x y"
  using enc_order [of x y "[]" "[]"] by simp

lemma enc_eq_iff: "valid x \<Longrightarrow> valid y \<Longrightarrow> enc x = enc y \<longleftrightarrow> cmp x y = Equal"
  using enc_cmp [of x y] cmp_list_Equal by metis

text \<open>A key is found by its prefix: no key continues another one.\<close>

lemma enc_no_prefix: "valid x \<Longrightarrow> valid y \<Longrightarrow> enc y = enc x @ r \<Longrightarrow> r = [] \<and> cmp x y = Equal"
proof -
  assume v: "valid x" "valid y" and e: "enc y = enc x @ r"
  have "cmp_list (enc x @ []) (enc y @ []) = cmp x y" using enc_order [OF v, of "[]" "[]"] by simp
  moreover have "cmp_list (enc x @ []) (enc x @ r) = cmp_list [] r" by (simp only: cmp_list_append) simp
  moreover have "cmp_list (enc x @ r @ [0]) (enc y @ []) = and_then (cmp x y) (cmp_list (r @ [0]) [])"
    using enc_order [OF v, of "r @ [0]" "[]"] by simp
  moreover have "cmp_list (enc x @ r @ [0]) (enc x @ r) = cmp_list (r @ [0]) r" by (simp only: cmp_list_append) simp
  moreover have "cmp_list (r @ [0]) r = Greater" using cmp_list_append [of r r "[0]" "[]"] by simp
  ultimately show ?thesis using e by (cases r) (auto simp: and_then_def split: if_splits)
qed

lemma enc_list_order:
  "list_all valid xs \<Longrightarrow> list_all valid ys \<Longrightarrow> length xs = length ys \<Longrightarrow>
   cmp_list (concat (map enc xs) @ r) (concat (map enc ys) @ s) = and_then (lex_cmp cmp xs ys) (cmp_list r s)"
proof (induction xs arbitrary: ys)
  case (Cons x xs)
  then obtain y ys' where ys: "ys = y # ys'" "length xs = length ys'" by (cases ys) auto
  with Cons have "cmp_list (concat (map enc xs) @ r) (concat (map enc ys') @ s) = and_then (lex_cmp cmp xs ys') (cmp_list r s)"
    by simp
  with Cons.prems show ?case by (simp add: ys enc_order and_then_def)
qed simp

end

end
