(* ===== verification/F64.thy ===== *)
theory F64
  imports Ordering
begin

text \<open>
  Rust's \<^verbatim>\<open>f64\<close> as its 64-bit pattern: the IEEE comparisons, the saturating casts to integers
  and the rounding cast from \<open>i64\<close>. Every number that is not a NaN is \<open>f64_scaled\<close> times
  \<open>2 ^ -1074\<close>, an integer, so the comparisons are comparisons of integers.
\<close>

subsection \<open>Definitions\<close>

definition f64_is_nan :: "f64 \<Rightarrow> bool" where
  "f64_is_nan b \<longleftrightarrow> 0x7FF0000000000000 < b AND 0x7FFFFFFFFFFFFFFF"

definition f64_is_zero :: "f64 \<Rightarrow> bool" where
  "f64_is_zero b \<longleftrightarrow> b AND 0x7FFFFFFFFFFFFFFF = 0"

definition f64_eq :: "f64 \<Rightarrow> f64 \<Rightarrow> bool" where
  "f64_eq a b \<longleftrightarrow> \<not> f64_is_nan a \<and> \<not> f64_is_nan b \<and> (a = b \<or> f64_is_zero a \<and> f64_is_zero b)"

text \<open>
  The parts of a 64-bit IEEE number, its integer part and the saturating cast \<^verbatim>\<open>as i64\<close>: the
  value of a finite number is its significand times a power of two.
\<close>

definition f64_exponent :: "f64 \<Rightarrow> nat" where
  "f64_exponent b = unat (drop_bit 52 b AND 0x7FF)"

definition f64_significand :: "f64 \<Rightarrow> nat" where
  "f64_significand b = unat (b AND 0xFFFFFFFFFFFFF) + (if f64_exponent b = 0 then 0 else 2 ^ 52)"

definition f64_negative :: "f64 \<Rightarrow> bool" where
  "f64_negative b \<longleftrightarrow> b AND 0x8000000000000000 \<noteq> 0"

definition f64_is_finite :: "f64 \<Rightarrow> bool" where
  "f64_is_finite b \<longleftrightarrow> f64_exponent b \<noteq> 2047"

definition f64_is_integral :: "f64 \<Rightarrow> bool" where
  "f64_is_integral b \<longleftrightarrow> (let e = max 1 (f64_exponent b) in 1075 \<le> e \<or> f64_significand b mod 2 ^ (1075 - e) = 0)"

definition f64_abs_trunc :: "f64 \<Rightarrow> nat" where
  "f64_abs_trunc b = (let e = max 1 (f64_exponent b) in
     if 1075 \<le> e then f64_significand b * 2 ^ (e - 1075) else f64_significand b div 2 ^ (1075 - e))"

definition f64_to_i64 :: "f64 \<Rightarrow> i64" where
  "f64_to_i64 b =
     (if f64_is_nan b then 0
      else if \<not> f64_is_finite b then (if f64_negative b then word_of_int (- (2 ^ 63)) else word_of_int (2 ^ 63 - 1))
      else if f64_negative b then word_of_int (max (- int (f64_abs_trunc b)) (- (2 ^ 63)))
      else word_of_int (min (int (f64_abs_trunc b)) (2 ^ 63 - 1)))"


definition f64_scaled :: "f64 \<Rightarrow> int" where
  "f64_scaled b = (let m = int (f64_significand b * 2 ^ (max 1 (f64_exponent b) - 1)) in if f64_negative b then - m else m)"

definition f64_less :: "f64 \<Rightarrow> f64 \<Rightarrow> bool" where
  "f64_less a b \<longleftrightarrow> \<not> f64_is_nan a \<and> \<not> f64_is_nan b \<and> f64_scaled a < f64_scaled b"

definition f64_partial_cmp :: "f64 \<Rightarrow> f64 \<Rightarrow> ordering option" where
  "f64_partial_cmp a b = (if f64_is_nan a \<or> f64_is_nan b then None else Some (cmp_of (f64_scaled a) (f64_scaled b)))"

definition f64_to_i128 :: "f64 \<Rightarrow> int" where
  "f64_to_i128 b =
     (if f64_is_nan b then 0
      else if \<not> f64_is_finite b then (if f64_negative b then - (2 ^ 127) else 2 ^ 127 - 1)
      else if f64_negative b then max (- int (f64_abs_trunc b)) (- (2 ^ 127))
      else min (int (f64_abs_trunc b)) (2 ^ 127 - 1))"

text \<open>\<^verbatim>\<open>i as f64\<close>: the nearest number, ties to the even significand.\<close>

fun bit_width :: "nat \<Rightarrow> nat" where
  "bit_width n = (if n = 0 then 0 else 1 + bit_width (n div 2))"

declare bit_width.simps [simp del]

definition round_even :: "nat \<Rightarrow> nat \<Rightarrow> nat" where
  "round_even u k = (let q = u div 2 ^ k; r = u mod 2 ^ k in
     if 2 ^ k < 2 * r \<or> 2 ^ k = 2 * r \<and> odd q then q + 1 else q)"

definition nat_magnitude :: "nat \<Rightarrow> nat" where
  "nat_magnitude u =
     (let w = bit_width u in
      if u = 0 then 0
      else if w \<le> 53 then (1021 + w) * 2 ^ 52 + u * 2 ^ (53 - w)
      else (1021 + w) * 2 ^ 52 + round_even u (w - 53))"

definition i64_to_f64 :: "i64 \<Rightarrow> f64" where
  "i64_to_f64 i = word_of_nat ((if sint i < 0 then 2 ^ 63 else 0) + nat_magnitude (nat \<bar>sint i\<bar>))"

subsection \<open>The magnitude of a bit pattern\<close>

definition mag :: "nat \<Rightarrow> nat" where
  "mag m = (m mod 2 ^ 52 + (if m div 2 ^ 52 = 0 then 0 else 2 ^ 52)) * 2 ^ (max 1 (m div 2 ^ 52) - 1)"

definition f64_bits :: "f64 \<Rightarrow> nat" where
  "f64_bits b = unat b mod 2 ^ 63"

lemma unat_and_mask: "unat (b AND mask n :: 64 word) = unat b mod 2 ^ n"
  by (simp only: take_bit_eq_mask [symmetric] unat_take_bit)

lemma mask_63: "unat (b AND 0x7FFFFFFFFFFFFFFF :: 64 word) = unat b mod 2 ^ 63"
proof -
  have "(0x7FFFFFFFFFFFFFFF :: 64 word) = mask 63" by (simp add: mask_eq_decr_exp)
  then show ?thesis using unat_and_mask [of b 63] by (simp only:)
qed

lemma mask_52: "unat (b AND 0xFFFFFFFFFFFFF :: 64 word) = unat b mod 2 ^ 52"
proof -
  have "(0xFFFFFFFFFFFFF :: 64 word) = mask 52" by (simp add: mask_eq_decr_exp)
  then show ?thesis using unat_and_mask [of b 52] by (simp only:)
qed

lemma f64_exponent_bits: "f64_exponent b = f64_bits b div 2 ^ 52"
proof -
  have "(0x7FF :: 64 word) = mask 11" by (simp add: mask_eq_decr_exp)
  then have "f64_exponent b = unat (drop_bit 52 b) mod 2 ^ 11"
    using unat_and_mask [of "drop_bit 52 b" 11] by (simp only: f64_exponent_def)
  also have "unat (drop_bit 52 b) = unat b div 2 ^ 52" by (rule unat_drop7)
  finally have "f64_exponent b = unat b div 2 ^ 52 mod 2 ^ 11" .
  also have "\<dots> = unat b mod (2 ^ 52 * 2 ^ 11) div 2 ^ 52" by (simp only: mod_mult2_eq) simp
  finally show ?thesis by (simp add: f64_bits_def)
qed

lemma f64_significand_bits: "f64_significand b = f64_bits b mod 2 ^ 52 + (if f64_bits b div 2 ^ 52 = 0 then 0 else 2 ^ 52)"
  using mod_mod_cancel [of "2 ^ 52" "2 ^ 63" "unat b"]
  by (simp add: f64_significand_def f64_exponent_bits mask_52 f64_bits_def le_imp_power_dvd)

lemma f64_negative_iff: "f64_negative b \<longleftrightarrow> 2 ^ 63 \<le> unat b"
proof -
  have "(0x8000000000000000 :: 64 word) = 2 ^ 63" by simp
  then have "f64_negative b \<longleftrightarrow> bit b 63" by (simp only: f64_negative_def and_exp_eq_0_iff_not_bit) simp
  also have "\<dots> \<longleftrightarrow> bit (unat b) 63" by (simp add: bit_unsigned_iff)
  also have "\<dots> \<longleftrightarrow> unat b div 2 ^ 63 mod 2 = 1" by (simp add: bit_iff_odd odd_iff_mod_2_eq_one)
  also have "\<dots> \<longleftrightarrow> 2 ^ 63 \<le> unat b" using u64_bound [of b] by auto
  finally show ?thesis .
qed

lemma unat_split: "unat b = (if f64_negative b then 2 ^ 63 else 0) + f64_bits b"
proof (cases "2 ^ 63 \<le> unat b")
  case True
  then have "unat b mod 2 ^ 63 = unat b - 2 ^ 63" using u64_bound [of b] by (subst le_mod_geq) simp_all
  with True show ?thesis by (simp add: f64_negative_iff f64_bits_def)
qed (simp add: f64_negative_iff f64_bits_def)

lemma f64_bits_less: "f64_bits b < 2 ^ 63"
  by (simp add: f64_bits_def)

lemma f64_scaled_mag: "f64_scaled b = (if f64_negative b then - int (mag (f64_bits b)) else int (mag (f64_bits b)))"
  by (simp add: f64_scaled_def f64_exponent_bits f64_significand_bits mag_def Let_def)

lemma f64_is_nan_bits: "f64_is_nan b \<longleftrightarrow> 2047 * 2 ^ 52 < f64_bits b"
  by (simp add: f64_is_nan_def word_less_nat_alt mask_63 f64_bits_def)

lemma f64_is_zero_bits: "f64_is_zero b \<longleftrightarrow> f64_bits b = 0"
  by (simp add: f64_is_zero_def word_unat_eq_iff mask_63 f64_bits_def)

lemma mag_ef: "f < 2 ^ 52 \<Longrightarrow> mag (e * 2 ^ 52 + f) = (f + (if e = 0 then 0 else 2 ^ 52)) * 2 ^ (max 1 e - 1)"
  by (simp add: mag_def)

lemma mag_Suc: "mag (Suc m) = mag m + 2 ^ (max 1 (m div 2 ^ 52) - 1)"
proof -
  obtain e f where m: "m = e * 2 ^ 52 + f" and f: "f < 2 ^ 52"
    by (rule that [of "m div 2 ^ 52" "m mod 2 ^ 52"]) simp_all
  then have e: "m div 2 ^ 52 = e" by simp
  have mm: "mag m = (f + (if e = 0 then 0 else 2 ^ 52)) * 2 ^ (max 1 e - 1)" unfolding m by (rule mag_ef [OF f])
  show ?thesis
  proof (cases "Suc f < 2 ^ 52")
    case True
    have "mag (Suc m) = (Suc f + (if e = 0 then 0 else 2 ^ 52)) * 2 ^ (max 1 e - 1)"
      using mag_ef [OF True, of e] by (simp add: m)
    then show ?thesis unfolding e by (simp add: mm)
  next
    case False
    then have f': "f = 2 ^ 52 - 1" using f by simp
    have "mag (Suc m) = 2 ^ 52 * 2 ^ e" using mag_ef [of 0 "e + 1"] by (simp add: m f')
    then show ?thesis unfolding e by (cases e) (simp_all add: mm f')
  qed
qed

lemma mag_strict_mono: "m < n \<Longrightarrow> mag m < mag n"
  by (rule strict_mono_less [THEN iffD2]) (simp_all add: strict_mono_Suc_iff mag_Suc)

lemma mag_less_iff: "mag m < mag n \<longleftrightarrow> m < n"
  using mag_strict_mono by (metis linorder_neqE_nat order.asym nat_less_le)

lemma mag_eq_iff: "mag m = mag n \<longleftrightarrow> m = n"
  using mag_strict_mono by (metis linorder_neqE_nat nat_less_le)

lemma mag_le_iff: "mag m \<le> mag n \<longleftrightarrow> m \<le> n"
  using mag_less_iff by (metis not_le)

lemma mag_0 [simp]: "mag 0 = 0"
  by (simp add: mag_def)

lemma mag_grid:
  assumes "2 ^ 52 \<le> q" "q \<le> 2 ^ 53"
  shows "mag (e * 2 ^ 52 + q) = q * 2 ^ e"
proof (cases "q = 2 ^ 53")
  case True
  then have "e * 2 ^ 52 + q = (e + 2) * 2 ^ 52" by simp
  then have d: "(e * 2 ^ 52 + q) div 2 ^ 52 = e + 2" "(e * 2 ^ 52 + q) mod 2 ^ 52 = 0" by simp_all
  show ?thesis unfolding mag_def d using True by simp
next
  case False
  then obtain f where f: "q = 2 ^ 52 + f" "f < 2 ^ 52" using assms le_Suc_ex [of "2 ^ 52" q] by fastforce
  then have "e * 2 ^ 52 + q = (e + 1) * 2 ^ 52 + f" by simp
  then have d: "(e * 2 ^ 52 + q) div 2 ^ 52 = e + 1" "(e * 2 ^ 52 + q) mod 2 ^ 52 = f" using f(2) by simp_all
  show ?thesis unfolding mag_def d using f by simp
qed

subsection \<open>Whole numbers\<close>

text \<open>The value of \<open>1\<close> in units of \<open>2 ^ -1074\<close>.\<close>

definition one_scaled :: nat where
  "one_scaled = 2 ^ 1074"

lemma one_scaled_pos [simp]: "0 < one_scaled" "one_scaled \<noteq> 0"
  by (simp_all add: one_scaled_def)

lemma power_one_scaled: "a + b = 1074 \<Longrightarrow> 2 ^ a * 2 ^ b = one_scaled"
  by (simp only: one_scaled_def power_add [symmetric])

lemma power_times_one_scaled: "c = a + 1074 \<Longrightarrow> 2 ^ c = 2 ^ a * one_scaled"
  by (simp only: one_scaled_def power_add)

lemma power_split: "a + b = c \<Longrightarrow> (2 :: nat) ^ a * 2 ^ b = 2 ^ c"
  by (simp only: power_add [symmetric])

lemma div_same_scale: "(x :: nat) div y = (x * 2 ^ a) div (y * 2 ^ a)"
  by simp

lemma abs_trunc_mag: "f64_abs_trunc b = mag (f64_bits b) div one_scaled"
proof -
  define e where "e = max 1 (f64_exponent b)"
  have m: "mag (f64_bits b) = f64_significand b * 2 ^ (e - 1)"
    by (simp only: mag_def e_def f64_exponent_bits f64_significand_bits)
  show ?thesis
  proof (cases "1075 \<le> e")
    case True
    then have "mag (f64_bits b) = (f64_significand b * 2 ^ (e - 1075)) * one_scaled"
      using power_times_one_scaled [of "e - 1" "e - 1075"] by (simp add: m)
    then show ?thesis using True by (simp only: f64_abs_trunc_def Let_def e_def [symmetric] nonzero_mult_div_cancel_right if_True) simp
  next
    case False
    then have "2 ^ (1075 - e) * 2 ^ (e - 1) = one_scaled" by (intro power_one_scaled) (simp add: e_def)
    then show ?thesis using False div_same_scale [of "f64_significand b" "2 ^ (1075 - e)" "e - 1"]
      by (simp only: f64_abs_trunc_def Let_def e_def [symmetric] m if_False)
  qed
qed

lemma is_integral_mag: "f64_is_integral b \<longleftrightarrow> one_scaled dvd mag (f64_bits b)"
proof -
  define e where "e = max 1 (f64_exponent b)"
  have m: "mag (f64_bits b) = f64_significand b * 2 ^ (e - 1)"
    by (simp only: mag_def e_def f64_exponent_bits f64_significand_bits)
  show ?thesis
  proof (cases "1075 \<le> e")
    case True
    then have "mag (f64_bits b) = (f64_significand b * 2 ^ (e - 1075)) * one_scaled"
      using power_times_one_scaled [of "e - 1" "e - 1075"] by (simp add: m)
    then have "one_scaled dvd mag (f64_bits b)" by (rule dvdI [OF trans [OF _ mult.commute]])
    with True show ?thesis by (simp only: f64_is_integral_def Let_def e_def [symmetric] simp_thms)
  next
    case False
    then have "2 ^ (1075 - e) * 2 ^ (e - 1) = one_scaled" by (intro power_one_scaled) (simp add: e_def)
    then have "one_scaled dvd mag (f64_bits b) \<longleftrightarrow> 2 ^ (1075 - e) * 2 ^ (e - 1) dvd f64_significand b * 2 ^ (e - 1)"
      by (simp only: m)
    also have "\<dots> \<longleftrightarrow> 2 ^ (1075 - e) dvd f64_significand b" by simp
    finally have "one_scaled dvd mag (f64_bits b) \<longleftrightarrow> 2 ^ (1075 - e) dvd f64_significand b" .
    with False show ?thesis by (simp only: f64_is_integral_def Let_def e_def [symmetric] dvd_eq_mod_eq_0 simp_thms)
  qed
qed

lemma mag_upper: "mag m < 2 ^ 53 * 2 ^ (max 1 (m div 2 ^ 52) - 1)"
proof -
  have "x + (if c then 0 else 2 ^ 52) < 2 ^ 53" if "x < 2 ^ 52" for x :: nat and c using that by simp
  then have "m mod 2 ^ 52 + (if m div 2 ^ 52 = 0 then 0 else 2 ^ 52) < 2 ^ 53" using mod_less_divisor [of "2 ^ 52" m] by simp
  then show ?thesis unfolding mag_def by (intro mult_strict_right_mono) simp_all
qed

lemma large_is_integral:
  assumes "2 ^ 53 * one_scaled \<le> mag m"
  shows "one_scaled dvd mag m"
proof -
  define e where "e = max 1 (m div 2 ^ 52)"
  have "2 ^ 53 * one_scaled < (2 :: nat) ^ 53 * 2 ^ (e - 1)" using assms mag_upper [of m] unfolding e_def by (rule order.strict_trans1)
  then have "(2 :: nat) ^ 1074 < 2 ^ (e - 1)" by (simp only: mult_less_cancel1 one_scaled_def)
  then have "1074 < e - 1" by (rule power_less_imp_less_exp [rotated]) simp
  then have "one_scaled dvd (2 :: nat) ^ (e - 1)" unfolding one_scaled_def by (intro le_imp_power_dvd) simp
  then show ?thesis unfolding mag_def e_def [symmetric] by (rule dvd_mult)
qed

subsection \<open>The cast from integers\<close>

lemma bit_width_bounds: "0 < u \<Longrightarrow> 1 \<le> bit_width u \<and> 2 ^ (bit_width u - 1) \<le> u \<and> u < 2 ^ bit_width u"
proof (induction u rule: bit_width.induct)
  case (1 n)
  show ?case
  proof (cases "n = 1")
    case True
    then show ?thesis using bit_width.simps [of 1] bit_width.simps [of 0] by simp
  next
    case False
    then have h: "0 < n div 2" using 1(2) by (simp add: div_greater_zero_iff)
    with 1 have ih: "1 \<le> bit_width (n div 2)" "2 ^ (bit_width (n div 2) - 1) \<le> n div 2" "n div 2 < 2 ^ bit_width (n div 2)"
      by simp_all
    obtain w where w: "bit_width (n div 2) = Suc w" using ih(1) by (cases "bit_width (n div 2)") simp_all
    have "bit_width n = Suc (Suc w)" using 1(2) w by (simp add: bit_width.simps [of n])
    moreover have "2 * 2 ^ w \<le> n" "n < 2 * (2 * 2 ^ w)" using ih(2,3) w by simp_all
    ultimately show ?thesis by simp
  qed
qed

lemma bit_width_le: "0 < u \<Longrightarrow> u < 2 ^ n \<Longrightarrow> bit_width u \<le> n"
proof -
  assume "0 < u" "u < 2 ^ n"
  with bit_width_bounds [of u] have "2 ^ (bit_width u - 1) < (2 :: nat) ^ n" by (meson order.strict_trans1)
  then have "bit_width u - 1 < n" by (rule power_less_imp_less_exp [rotated]) simp
  then show "bit_width u \<le> n" by simp
qed

lemma bit_width_div: "0 < u div 2 ^ n \<Longrightarrow> bit_width u = bit_width (u div 2 ^ n) + n"
proof (induction n arbitrary: u)
  case (Suc n)
  have "bit_width u = 1 + bit_width (u div 2)" using Suc.prems by (subst bit_width.simps) (cases "u = 0"; simp)
  moreover have "u div 2 ^ Suc n = u div 2 div 2 ^ n" by (simp add: div_mult2_eq)
  ultimately show ?case using Suc.IH [of "u div 2"] Suc.prems by simp
qed simp

text \<open>
  \<open>m\<close> is the pattern just below or at the integer \<open>u\<close>; the cast gives \<open>m\<close> or, when \<open>u\<close> is not
  representable, possibly its successor.
\<close>

lemma nat_magnitude_brackets:
  assumes "0 < u" "u \<le> 2 ^ 63"
  obtains m where "mag m \<le> u * one_scaled" "u * one_scaled < mag (Suc m)" "one_scaled dvd mag m" "Suc m < 2047 * 2 ^ 52"
    "nat_magnitude u = m \<or> nat_magnitude u = Suc m \<and> mag m < u * one_scaled"
    "mag m < u * one_scaled \<Longrightarrow> one_scaled dvd mag (Suc m) \<and> mag (Suc m) \<le> mag m + 2048 * one_scaled"
    "u < 2 ^ 53 \<Longrightarrow> mag m = u * one_scaled"
proof -
  define w where "w = bit_width u"
  have w: "1 \<le> w" "2 ^ (w - 1) \<le> u" "u < 2 ^ w" using bit_width_bounds [OF assms(1)] by (simp_all add: w_def)
  have w64: "w \<le> 64" unfolding w_def by (rule bit_width_le) (use assms in simp_all)
  show ?thesis
  proof (cases "w \<le> 53")
    case True
    define q where "q = u * 2 ^ (53 - w)"
    define m where "m = (1021 + w) * 2 ^ 52 + q"
    have "2 ^ (w - 1) * 2 ^ (53 - w) \<le> q" "q < 2 ^ w * 2 ^ (53 - w)" using w by (simp_all add: q_def)
    then have q: "2 ^ 52 \<le> q" "q < 2 ^ 53" using power_split [of "w - 1" "53 - w" 52] power_split [of w "53 - w" 53] w True by simp_all
    have mg: "mag m = u * one_scaled"
      unfolding m_def using mag_grid [of q "1021 + w"] q power_one_scaled [of "53 - w" "1021 + w"] True
      by (simp only: q_def mult.assoc less_imp_le)
    show ?thesis
    proof (rule that [of m])
      show "nat_magnitude u = m \<or> nat_magnitude u = Suc m \<and> mag m < u * one_scaled"
        using True assms(1) by (simp only: nat_magnitude_def Let_def w_def [symmetric] m_def q_def if_True) simp
      show "Suc m < 2047 * 2 ^ 52" using q True by (simp add: m_def)
      show "u * one_scaled < mag (Suc m)" unfolding mg [symmetric] by (simp add: mag_strict_mono)
    qed (simp_all only: mg less_irrefl order.refl dvd_triv_right)
  next
    case False
    define k where "k = w - 53"
    have k: "1 \<le> k" "k \<le> 11" "w = k + 53" using False w64 by (simp_all add: k_def)
    define q where "q = u div 2 ^ k"
    define m where "m = (1021 + w) * 2 ^ 52 + q"
    have q: "2 ^ 52 \<le> q" "q < 2 ^ 53"
      using w(2,3) k(3) power_split [of 52 k "w - 1"] power_split [of 53 k w]
      by (simp_all add: q_def less_mult_imp_div_less less_eq_div_iff_mult_less_eq)
    have g: "mag (Suc m) = (q + 1) * 2 ^ k * one_scaled" "mag m = q * 2 ^ k * one_scaled"
      using mag_grid [of "q + 1" "1021 + w"] mag_grid [of q "1021 + w"] q power_times_one_scaled [of "1021 + w" k] k(3)
      by (simp_all add: m_def distrib_right)
    have u: "q * 2 ^ k \<le> u" "u < (q + 1) * 2 ^ k"
      using div_mult_mod_eq [of u "2 ^ k"] mod_less_divisor [of "2 ^ k" u] by (simp_all add: q_def dividend_less_div_times)
    have two: "(2 :: nat) ^ k \<le> 2 ^ 11" using k(2) by (rule power_increasing) simp
    show ?thesis
    proof (rule that [of m])
      show "mag m \<le> u * one_scaled" unfolding g by (rule mult_right_mono [OF u(1)]) simp
      show "u * one_scaled < mag (Suc m)" unfolding g by (rule mult_strict_right_mono [OF u(2)]) simp
      show "one_scaled dvd mag m" unfolding g by (rule dvd_triv_right)
      show "Suc m < 2047 * 2 ^ 52" using q k by (simp add: m_def)
      have "nat_magnitude u = (1021 + w) * 2 ^ 52 + round_even u k"
        using False assms(1) by (simp only: nat_magnitude_def Let_def w_def [symmetric] k_def if_False) simp
      moreover have "round_even u k = q \<or> round_even u k = q + 1 \<and> u mod 2 ^ k \<noteq> 0"
      proof -
        have "(2 :: nat) ^ k \<noteq> 0" by simp
        then show ?thesis unfolding round_even_def q_def Let_def by (cases "u mod 2 ^ k = 0") simp_all
      qed
      moreover have "q * 2 ^ k < u" if "u mod 2 ^ k \<noteq> 0" using that div_mult_mod_eq [of u "2 ^ k"] by (simp add: q_def)
      ultimately show "nat_magnitude u = m \<or> nat_magnitude u = Suc m \<and> mag m < u * one_scaled"
        unfolding g by (auto simp only: m_def mult_less_cancel2) simp_all
      show "mag m < u * one_scaled \<Longrightarrow> one_scaled dvd mag (Suc m) \<and> mag (Suc m) \<le> mag m + 2048 * one_scaled"
        unfolding g using two by (simp only: dvd_triv_right simp_thms distrib_right [symmetric] mult_le_cancel2) simp
      show "u < 2 ^ 53 \<Longrightarrow> mag m = u * one_scaled"
        using w(2) k power_increasing [of 53 "w - 1" "2 :: nat"] by simp
    qed
  qed
qed

lemma sint_of_int64: "- (2 ^ 63) \<le> x \<Longrightarrow> x < 2 ^ 63 \<Longrightarrow> sint (word_of_int x :: 64 word) = x"
  by (simp add: signed_take_bit_int_eq_self_iff signed_of_int)

lemma f64_of_parts:
  assumes "m < 2 ^ 63"
  shows "f64_bits (word_of_nat ((if neg then 2 ^ 63 else 0) + m)) = m"
    and "f64_negative (word_of_nat ((if neg then 2 ^ 63 else 0) + m)) = neg"
proof -
  have "unat (word_of_nat ((if neg then 2 ^ 63 else 0) + m) :: 64 word) = (if neg then 2 ^ 63 else 0) + m"
    using assms by (simp add: unat_of_nat del: of_nat_add)
  then show "f64_bits (word_of_nat ((if neg then 2 ^ 63 else 0) + m)) = m"
      "f64_negative (word_of_nat ((if neg then 2 ^ 63 else 0) + m)) = neg"
    using assms by (simp_all add: f64_bits_def f64_negative_iff)
qed

lemma i64_abs_le: "nat \<bar>sint (i :: i64)\<bar> \<le> 2 ^ 63"
  using sint_ge [of i] sint_lt [of i] by simp

lemma nat_magnitude_0 [simp]: "nat_magnitude 0 = 0"
  by (simp add: nat_magnitude_def)

lemma nat_magnitude_less: "u \<le> 2 ^ 63 \<Longrightarrow> nat_magnitude u < 2047 * 2 ^ 52"
proof (cases "u = 0")
  case False
  assume "u \<le> 2 ^ 63"
  with False show ?thesis by (elim nat_magnitude_brackets [rotated]) auto
qed simp

lemma i64_to_f64_parts:
  "f64_bits (i64_to_f64 i) = nat_magnitude (nat \<bar>sint i\<bar>)" "f64_negative (i64_to_f64 i) \<longleftrightarrow> sint i < 0"
proof -
  have "nat_magnitude (nat \<bar>sint i\<bar>) < 2 ^ 63" using nat_magnitude_less [OF i64_abs_le [of i]] by simp
  then show "f64_bits (i64_to_f64 i) = nat_magnitude (nat \<bar>sint i\<bar>)" "f64_negative (i64_to_f64 i) \<longleftrightarrow> sint i < 0"
    using f64_of_parts [of "nat_magnitude (nat \<bar>sint i\<bar>)" "sint i < 0"] by (simp_all only: i64_to_f64_def)
qed

text \<open>An integer that some number equals is converted to that number.\<close>

lemma i64_to_f64_exact:
  fixes i :: i64
  assumes "mag n = nat \<bar>sint i\<bar> * one_scaled"
  shows "nat_magnitude (nat \<bar>sint i\<bar>) = n"
proof (cases "sint i = 0")
  case True
  then have "mag n = mag 0" using assms by simp
  then show ?thesis using True by (simp only: mag_eq_iff) simp
next
  case False
  then have "0 < nat \<bar>sint i\<bar>" by simp
  then obtain m where m: "mag m \<le> nat \<bar>sint i\<bar> * one_scaled" "nat \<bar>sint i\<bar> * one_scaled < mag (Suc m)"
      "nat_magnitude (nat \<bar>sint i\<bar>) = m \<or> nat_magnitude (nat \<bar>sint i\<bar>) = Suc m \<and> mag m < nat \<bar>sint i\<bar> * one_scaled"
    using i64_abs_le [of i] by (elim nat_magnitude_brackets) auto
  then have "n = m" unfolding assms [symmetric] by (simp only: mag_le_iff mag_less_iff)
  with m(3) assms show ?thesis by simp
qed

lemma i64_to_f64_small:
  fixes i :: i64
  assumes "nat \<bar>sint i\<bar> \<le> 2 ^ 53"
  shows "mag (nat_magnitude (nat \<bar>sint i\<bar>)) = nat \<bar>sint i\<bar> * one_scaled"
proof -
  consider "nat \<bar>sint i\<bar> = 0" | "nat \<bar>sint i\<bar> = 2 ^ 53" | "0 < nat \<bar>sint i\<bar>" "nat \<bar>sint i\<bar> < 2 ^ 53" using assms by linarith
  then show ?thesis
  proof cases
    case 2
    have "mag (1074 * 2 ^ 52 + 2 ^ 53) = 2 ^ 53 * one_scaled" using mag_grid [of "2 ^ 53" 1074] unfolding one_scaled_def by (simp only: order.refl) simp
    then show ?thesis using i64_to_f64_exact [of "1074 * 2 ^ 52 + 2 ^ 53" i] by (simp only: 2)
  next
    case 3
    then show ?thesis using i64_abs_le [of i] by (elim nat_magnitude_brackets) auto
  qed simp
qed

lemma f64_eqI: "f64_bits a = f64_bits b \<Longrightarrow> f64_negative a = f64_negative b \<Longrightarrow> a = b"
  by (simp add: word_unat_eq_iff unat_split)

lemma finite_not_nan: "f64_is_finite b \<Longrightarrow> \<not> f64_is_nan b"
  by (auto simp: f64_is_finite_def f64_is_nan_bits f64_exponent_bits f64_bits_def)

lemma i64_to_f64_to_i64:
  assumes f: "f64_is_finite f" "f64_is_integral f" "f64_abs_trunc f \<le> 2 ^ 53" "\<not> (f64_is_zero f \<and> f64_negative f)"
  shows "i64_to_f64 (f64_to_i64 f) = f" and "\<bar>sint (f64_to_i64 f)\<bar> \<le> 2 ^ 53"
proof -
  define t where "t = f64_abs_trunc f"
  have m: "mag (f64_bits f) = t * one_scaled" using f(2) by (simp add: t_def abs_trunc_mag is_integral_mag)
  have "f64_to_i64 f = word_of_int (if f64_negative f then - int t else int t)"
    using f(1,3) finite_not_nan [OF f(1)] by (simp add: f64_to_i64_def t_def max_def min_def)
  then have i: "sint (f64_to_i64 f) = (if f64_negative f then - int t else int t)"
    using f(3) by (simp add: t_def sint_of_int64)
  then have n: "nat \<bar>sint (f64_to_i64 f)\<bar> = t" by simp
  show "\<bar>sint (f64_to_i64 f)\<bar> \<le> 2 ^ 53" using f(3) by (simp add: i t_def)
  have z: "f64_negative f \<Longrightarrow> t \<noteq> 0" using f(4) m mag_eq_iff [of "f64_bits f" 0] by (auto simp: f64_is_zero_bits)
  show "i64_to_f64 (f64_to_i64 f) = f"
  proof (rule f64_eqI)
    show "f64_bits (i64_to_f64 (f64_to_i64 f)) = f64_bits f"
      using i64_to_f64_exact [of "f64_bits f" "f64_to_i64 f"] m n by (simp only: i64_to_f64_parts)
    show "f64_negative (i64_to_f64 (f64_to_i64 f)) = f64_negative f" using z by (simp add: i64_to_f64_parts i)
  qed
qed

end
