(* ===== verification/Values.thy ===== *)
theory Values
  imports Text F64
begin

text \<open>
  \<^verbatim>\<open>src/types/value.rs\<close>: the SQL value. An \<open>i64\<close> and an \<open>f64\<close> are bit patterns.
\<close>

datatype val = Null | Integer i64 | Real f64 | Txt rtext | Blob bytes

end
