(* ===== verification/Session_Codec.thy ===== *)
theory Session_Codec
  imports Varint Values
begin

text \<open>
  \<^verbatim>\<open>src/session/codec.rs\<close> (and the field writer of \<^verbatim>\<open>transform.rs\<close>): the self-contained
  fields of a changeset record, one type byte and a payload each. The writers return the
  bytes they append. The readers take the buffer and a position as the code does, fail with
  the code's message where it returns \<^verbatim>\<open>Err\<close>, and panic where an index or a slice is out
  of range.
\<close>

subsection \<open>The code\<close>

definition TYPE_UNDEF :: byte where "TYPE_UNDEF = 0x00"
definition TYPE_INT :: byte where "TYPE_INT = 0x01"
definition TYPE_REAL :: byte where "TYPE_REAL = 0x02"
definition TYPE_TEXT :: byte where "TYPE_TEXT = 0x03"
definition TYPE_BLOB :: byte where "TYPE_BLOB = 0x04"
definition TYPE_NULL :: byte where "TYPE_NULL = 0x05"
definition TYPE_REPLACED :: byte where "TYPE_REPLACED = 0xFF"

definition OP_INSERT :: byte where "OP_INSERT = 18"
definition OP_DELETE :: byte where "OP_DELETE = 9"
definition OP_UPDATE :: byte where "OP_UPDATE = 23"

lemmas type_defs = TYPE_UNDEF_def TYPE_INT_def TYPE_REAL_def TYPE_TEXT_def TYPE_BLOB_def
  TYPE_NULL_def TYPE_REPLACED_def
lemmas op_defs = OP_INSERT_def OP_DELETE_def OP_UPDATE_def

definition put_i64 :: "i64 \<Rightarrow> bytes" where
  "put_i64 v = be64 v"

definition get_i64 :: "bytes \<Rightarrow> nat \<Rightarrow> i64 outcome" where
  "get_i64 a pos = bind_outcome (slice a pos (pos + 8)) (\<lambda>b. Ok (of_be64 b))"

function low_groups :: "u64 \<Rightarrow> bytes" where
  "low_groups x = (if x = 0 then [] else ucast (x AND 0x7f) # low_groups (drop_bit 7 x))"
  by pat_completeness auto
termination
  by (relation "measure unat") (auto simp: drop_bit_eq_div unat_div word_unat_eq_iff)

declare low_groups.simps [simp del]

definition put_varint :: "u64 \<Rightarrow> bytes" where
  "put_varint v =
     (if v \<le> 0x7f then [ucast v]
      else if v \<le> 0x00ffffffffffffff
      then let tmp = low_groups v
           in map (\<lambda>i. if i = 0 then tmp ! i else tmp ! i OR 0x80) (rev [0 ..< length tmp])
      else map (\<lambda>s. ucast (0x80 OR (drop_bit s v AND 0x7f))) [57, 50, 43, 36, 29, 22, 15, 8]
             @ [ucast (v AND 0xff)])"

function get_varint_loop :: "bytes \<Rightarrow> nat \<Rightarrow> nat \<Rightarrow> nat \<Rightarrow> u64 \<Rightarrow> u64 \<times> nat" where
  "get_varint_loop a pos fin i v =
     (if i < fin
      then let b = a ! i in
           if i - pos = 8 then (push_bit 8 v OR ucast b, 9)
           else let v' = push_bit 7 v OR ucast (b AND 0x7f)
                in if b AND 0x80 = 0 then (v', i - pos + 1) else get_varint_loop a pos fin (i + 1) v'
      else (v, usize_sub fin pos))"
  by pat_completeness auto
termination
  by (relation "measure (\<lambda>(a, pos, fin, i, v). fin - i)") auto

declare get_varint_loop.simps [simp del]

definition get_varint :: "bytes \<Rightarrow> nat \<Rightarrow> u64 \<times> nat" where
  "get_varint a pos = get_varint_loop a pos (min (length a) (pos + 9)) pos 0"

definition serial_len :: "bytes \<Rightarrow> nat \<Rightarrow> nat outcome" where
  "serial_len a pos = bind_outcome (index_at a pos) (\<lambda>e.
     if e = TYPE_UNDEF \<or> e = TYPE_REPLACED \<or> e = TYPE_NULL then Ok 1
     else if e = TYPE_INT \<or> e = TYPE_REAL then Ok 9
     else let (n, hdr) = get_varint a (pos + 1) in Ok (usize_add (hdr + 1) (unat n)))"

fun append_value :: "val option \<Rightarrow> bytes" where
  "append_value None = [TYPE_UNDEF]"
| "append_value (Some Null) = [TYPE_NULL]"
| "append_value (Some (Integer i)) = TYPE_INT # put_i64 i"
| "append_value (Some (Real r)) = TYPE_REAL # put_i64 r"
| "append_value (Some (Txt t)) =
     TYPE_TEXT # put_varint (word_of_nat (length (as_str t))) @ as_str t"
| "append_value (Some (Blob b)) = TYPE_BLOB # put_varint (word_of_nat (length b)) @ b"

datatype sess_val = Undef | Replaced | SNull | SInt i64 | SReal f64 | SText bytes | SBlob bytes

fun to_value :: "sess_val \<Rightarrow> val option" where
  "to_value Undef = None"
| "to_value Replaced = None"
| "to_value SNull = Some Null"
| "to_value (SInt i) = Some (Integer i)"
| "to_value (SReal r) = Some (Real r)"
| "to_value (SText t) = (if utf8_valid t then Some (Txt (Plain t)) else None)"
| "to_value (SBlob b) = Some (Blob b)"

abbreviation corrupt_record :: string where
  "corrupt_record \<equiv> ''corrupt changeset record''"

definition parse_body :: "bytes \<Rightarrow> nat \<Rightarrow> (bytes \<Rightarrow> sess_val) \<Rightarrow> sess_val outcome" where
  "parse_body a pos mk =
     (let (n, hdr) = get_varint a (pos + 1); start = pos + 1 + hdr; fin = usize_add start (unat n)
      in if length a < fin then Err corrupt_record
         else bind_outcome (slice a start fin) (\<lambda>b. Ok (mk b)))"

definition parse_value :: "bytes \<Rightarrow> nat \<Rightarrow> (sess_val \<times> nat) outcome" where
  "parse_value a pos =
     (if length a \<le> pos then Err corrupt_record
      else let e = a ! pos in
        bind_outcome (serial_len a pos) (\<lambda>len.
          if length a < usize_add pos len then Err corrupt_record
          else bind_outcome
            (if e = TYPE_UNDEF then Ok Undef
             else if e = TYPE_REPLACED then Ok Replaced
             else if e = TYPE_NULL then Ok SNull
             else if e = TYPE_INT then bind_outcome (get_i64 a (pos + 1)) (\<lambda>v. Ok (SInt v))
             else if e = TYPE_REAL then bind_outcome (get_i64 a (pos + 1)) (\<lambda>v. Ok (SReal v))
             else if e = TYPE_TEXT then parse_body a pos SText
             else if e = TYPE_BLOB then parse_body a pos SBlob
             else Err corrupt_record)
            (\<lambda>v. Ok (v, len))))"

fun skip_record :: "bytes \<Rightarrow> nat \<Rightarrow> nat \<Rightarrow> nat outcome" where
  "skip_record a pos 0 = Ok pos"
| "skip_record a pos (Suc n) =
     bind_outcome (serial_len a pos) (\<lambda>l. skip_record a (usize_add pos l) n)"

fun parse_record_loop :: "bytes \<Rightarrow> nat \<Rightarrow> nat \<Rightarrow> (sess_val list \<times> nat) outcome" where
  "parse_record_loop a p 0 = Ok ([], p)"
| "parse_record_loop a p (Suc n) =
     bind_outcome (parse_value a p) (\<lambda>(v, l).
       bind_outcome (parse_record_loop a (usize_add p l) n) (\<lambda>(vs, q). Ok (v # vs, q)))"

definition parse_record :: "bytes \<Rightarrow> nat \<Rightarrow> nat \<Rightarrow> (sess_val list \<times> nat) outcome" where
  "parse_record a pos n =
     bind_outcome (parse_record_loop a pos n) (\<lambda>(vs, p). Ok (vs, usize_sub p pos))"

fun append_field :: "sess_val \<Rightarrow> bytes" where
  "append_field Undef = [TYPE_UNDEF]"
| "append_field Replaced = [TYPE_REPLACED]"
| "append_field SNull = [TYPE_NULL]"
| "append_field (SInt v) = TYPE_INT # put_i64 v"
| "append_field (SReal v) = TYPE_REAL # put_i64 v"
| "append_field (SText t) = TYPE_TEXT # put_varint (word_of_nat (length t)) @ t"
| "append_field (SBlob b) = TYPE_BLOB # put_varint (word_of_nat (length b)) @ b"

definition hash_append :: "u32 \<Rightarrow> u32 \<Rightarrow> u32" where
  "hash_append h add = (push_bit 3 h XOR h) XOR add"

definition hash_i64 :: "u32 \<Rightarrow> i64 \<Rightarrow> u32" where
  "hash_i64 h i = hash_append (hash_append h (ucast (i AND 0xffffffff)))
                    (ucast (signed_drop_bit 32 i AND 0xffffffff))"

definition hash_blob :: "u32 \<Rightarrow> bytes \<Rightarrow> u32" where
  "hash_blob h z = foldl (\<lambda>h b. hash_append h (ucast b)) h z"

definition hash_type :: "u32 \<Rightarrow> byte \<Rightarrow> u32" where
  "hash_type h e_type = hash_append h (ucast e_type)"

text \<open>The fields whose payload is a Rust slice.\<close>

fun sess_val_ok :: "sess_val \<Rightarrow> bool" where
  "sess_val_ok (SText t) = fits t"
| "sess_val_ok (SBlob b) = fits b"
| "sess_val_ok _ = True"

subsection \<open>Varints\<close>

fun gd :: "nat \<Rightarrow> u64 \<Rightarrow> bytes \<Rightarrow> u64 \<times> nat" where
  "gd i r [] = (r, i)"
| "gd i r (b # bs) =
     (if i = 8 then (push_bit 8 r OR ucast b, 9)
      else let r' = push_bit 7 r OR ucast (b AND 0x7f)
           in if b AND 0x80 = 0 then (r', i + 1) else gd (i + 1) r' bs)"

lemma get_varint_loop_gd:
  "pos + k \<le> fin \<Longrightarrow> fin = min (length a) (pos + 9) \<Longrightarrow> length a < 2 ^ 64 \<Longrightarrow> k \<le> 8 \<Longrightarrow>
   get_varint_loop a pos fin (pos + k) r = gd k r (drop (pos + k) a)"
proof (induction "9 - k" arbitrary: k r)
  case 0
  then show ?case by simp
next
  case (Suc m)
  show ?case
  proof (cases "pos + k < length a")
    case True
    then have d: "drop (pos + k) a = a ! (pos + k) # drop (pos + Suc k) a"
      by (simp add: Cons_nth_drop_Suc)
    have f: "pos + k < fin" using True Suc.prems by simp
    show ?thesis
    proof (cases "k = 8")
      case False
      then have "get_varint_loop a pos fin (pos + Suc k) r' = gd (Suc k) r' (drop (pos + Suc k) a)" for r'
        using Suc.hyps(1) [of "Suc k" r'] Suc.hyps(2) Suc.prems f by simp
      then show ?thesis
        using d f False by (simp add: get_varint_loop.simps [of a pos fin "pos + k" r] Let_def)
    qed (use d f in \<open>simp add: get_varint_loop.simps [of a pos fin "pos + 8" r] Let_def\<close>)
  next
    case False
    then have f: "fin = length a" "fin = pos + k" using Suc.prems by simp_all
    then have "get_varint_loop a pos fin (pos + k) r = (r, usize_sub fin pos)"
      using f(2) by (subst get_varint_loop.simps) simp
    with f Suc.prems show ?thesis by simp
  qed
qed

lemma get_varint_gd: "pos \<le> length a \<Longrightarrow> length a < 2 ^ 64 \<Longrightarrow> get_varint a pos = gd 0 0 (drop pos a)"
  using get_varint_loop_gd [of pos 0 "min (length a) (pos + 9)" a 0] by (simp add: get_varint_def)

lemma gd_rd: "rd i r bs = Some x \<Longrightarrow> i \<le> 8 \<Longrightarrow> gd i r bs = x"
  by (induction i r bs rule: rd.induct) (auto simp: Let_def split: if_splits)

lemma gd_consumed: "i \<le> 8 \<Longrightarrow> i \<le> snd (gd i r bs) \<and> snd (gd i r bs) \<le> 9 \<and> snd (gd i r bs) \<le> i + length bs"
proof (induction i r bs rule: gd.induct)
  case (2 i r b bs)
  show ?case
  proof (cases "i = 8 \<or> b AND 0x80 = 0")
    case True
    with 2(2) show ?thesis by (auto simp: Let_def)
  next
    case False
    with 2 show ?thesis by (simp add: Let_def)
  qed
qed simp

lemma length_low_groups: "length (low_groups x) = groups (unat x)"
proof (induction x rule: low_groups.induct)
  case (1 x)
  show ?case
  proof (cases "x = 0")
    case False
    with 1 have "length (low_groups (drop_bit 7 x)) = groups (unat x div 128)"
      using unat_drop7 [of 7 x] by simp
    with False show ?thesis
      by (simp add: low_groups.simps [of x] groups.simps [of "unat x"] word_unat_eq_iff)
  qed (simp add: low_groups.simps)
qed

lemma low_groups_nth: "i < length (low_groups x) \<Longrightarrow> low_groups x ! i = ucast (drop_bit (7 * i) x AND 0x7f)"
proof (induction x arbitrary: i rule: low_groups.induct)
  case (1 x)
  have ne: "x \<noteq> 0" using 1(2) by (auto simp: low_groups.simps)
  then have eq: "low_groups x = ucast (x AND 0x7f) # low_groups (drop_bit 7 x)"
    by (simp add: low_groups.simps [of x])
  show ?case
  proof (cases i)
    case 0
    then show ?thesis by (simp only: eq) simp
  next
    case (Suc j)
    have "drop_bit (7 * Suc j) x = drop_bit (7 * j) (drop_bit 7 x)"
      by (simp only: drop_bit_drop_bit) (simp add: ac_simps)
    then show ?thesis
      using 1(1) [OF ne, of j] 1(2) Suc by (simp only: eq) simp
  qed
qed

lemma vhi_map: "vhi k w = map (\<lambda>i. word_of_nat (128 + w div 128 ^ i mod 128)) (rev [0 ..< k])"
  by (induction k) simp_all

lemma high_byte: "(ucast (0x80 OR ((x :: u64) AND 0x7f)) :: byte) = word_of_nat (128 + unat x mod 128)"
  by (simp only: unsigned_or_eq cont_byte [symmetric]) (simp add: or.commute)

lemma put_varint_vspec: "put_varint v = vspec (unat v)"
proof -
  consider (one) "unat v \<le> 127" | (mid) "127 < unat v" "unat v < 2 ^ 56" | (nine) "2 ^ 56 \<le> unat v"
    by linarith
  then show ?thesis
  proof cases
    case one
    then show ?thesis
      using write_varint_vspec [of v] by (simp add: write_varint_def put_varint_def word_le_nat_alt)
  next
    case mid
    define tmp where "tmp = low_groups v"
    have len: "length tmp = Suc (groups (unat v div 128))"
      using mid by (simp add: tmp_def length_low_groups groups.simps [of "unat v"])
    have "map (\<lambda>i. if i = 0 then tmp ! i else tmp ! i OR 0x80) (rev [0 ..< length tmp])
        = map (\<lambda>i. (ucast (drop_bit (7 * i) v AND 0x7f) :: byte) OR (if 0 < i then 0x80 else 0))
            (rev [0 ..< length tmp])"
      using low_groups_nth [of 0 v] by (intro map_cong [OF refl]) (auto simp: tmp_def low_groups_nth)
    also have "\<dots> = vhi (groups (unat v div 128)) (unat v div 128) @ [word_of_nat (unat v mod 128)]"
      by (simp only: len group_bytes_vhi)
    finally show ?thesis
      using mid unfolding put_varint_def vspec_def
      by (simp only: tmp_def [symmetric] Let_def) (simp add: word_le_nat_alt)
  next
    case nine
    have shift: "unat (drop_bit (8 + 7 * i) v) = unat v div 256 div 128 ^ i" for i
      by (simp only: unat_drop7 power_add power_mult div_mult2_eq) simp
    have "[57, 50, 43, 36, 29, 22, 15, 8] = map (\<lambda>i. 8 + 7 * i) (rev [0 ..< 8 :: nat])"
      by (simp add: upt_conv_Cons)
    then have "map (\<lambda>s. ucast (0x80 OR (drop_bit s v AND 0x7f))) [57, 50, 43, 36, 29, 22, 15, 8]
        = vhi 8 (unat v div 256)"
      by (simp only: high_byte shift vhi_map map_map o_def)
    with nine show ?thesis
      unfolding put_varint_def vspec_def by (simp only: raw_byte) (simp add: word_le_nat_alt)
  qed
qed

lemma put_varint_write_varint: "put_varint v = write_varint v"
  by (simp add: put_varint_vspec write_varint_vspec)

lemma length_put_varint: "1 \<le> length (put_varint v) \<and> length (put_varint v) \<le> 9"
  unfolding put_varint_write_varint by (rule length_write_varint)

lemma gd_put_varint: "gd 0 0 (put_varint v @ rest) = (v, length (put_varint v))"
proof (rule gd_rd)
  show "rd 0 0 (put_varint v @ rest) = Some (v, length (put_varint v))"
    using rd_vspec [OF u64_bound [of v], of rest] by (simp add: put_varint_vspec)
qed simp

lemma get_varint_put_varint:
  "fits a \<Longrightarrow> drop pos a = put_varint v @ rest \<Longrightarrow> get_varint a pos = (v, length (put_varint v))"
proof -
  assume "fits a" and d: "drop pos a = put_varint v @ rest"
  moreover have "pos \<le> length a"
    using d length_put_varint [of v] by (metis Nil_is_append_conv drop_all linear list.size(3) not_one_le_zero)
  ultimately show ?thesis
    by (simp add: get_varint_gd fits_def gd_put_varint)
qed

subsection \<open>Fields\<close>

lemma append_field_ne [simp]: "append_field v \<noteq> []"
  by (cases v) simp_all

lemma drop_append_field_pos:
  "drop pos a = append_field v @ rest \<Longrightarrow>
   pos < length a \<and> a ! pos = hd (append_field v) \<and> pos + length (append_field v) \<le> length a"
  by (metis append_field_ne append_is_Nil_conv drop_all hd_append2 hd_drop_conv_nth leI
      length_append length_drop le_add1 le_add_diff_inverse nat_add_left_cancel_le less_imp_le)

lemma drop_Suc_eq: "drop pos a = x # xs \<Longrightarrow> drop (Suc pos) a = xs"
  by (metis drop_Suc list.sel(3) tl_drop)

text \<open>A text or blob field at \<open>pos\<close>: its varint header and where its body lies.\<close>

lemma body_field:
  assumes "fits a" "fits t" and d: "drop pos a = e # put_varint (word_of_nat (length t)) @ t @ rest"
  defines "hdr \<equiv> length (put_varint (word_of_nat (length t)))"
  shows "get_varint a (pos + 1) = (word_of_nat (length t), hdr)"
    and "unat (word_of_nat (length t) :: u64) = length t"
    and "pos + 1 + hdr + length t \<le> length a"
    and "take (length t) (drop (pos + 1 + hdr) a) = t"
proof -
  have d1: "drop (pos + 1) a = put_varint (word_of_nat (length t)) @ t @ rest"
    using drop_Suc_eq [OF d] by simp
  show "get_varint a (pos + 1) = (word_of_nat (length t), hdr)"
    unfolding hdr_def using assms(1) d1 by (rule get_varint_put_varint)
  show "unat (word_of_nat (length t) :: u64) = length t"
    using assms(2) by (simp add: fits_def unat_of_nat)
  have "length (drop pos a) = 1 + hdr + length t + length rest"
    unfolding d hdr_def by simp
  then show "pos + 1 + hdr + length t \<le> length a" by simp
  have "drop (pos + 1 + hdr) a = t @ rest"
    using arg_cong [OF d1, of "drop hdr"] by (simp add: hdr_def add.commute)
  then show "take (length t) (drop (pos + 1 + hdr) a) = t" by simp
qed

lemma serial_len_field:
  assumes "fits a" "sess_val_ok v" and d: "drop pos a = append_field v @ rest"
  shows "serial_len a pos = Ok (length (append_field v))"
proof -
  note p = drop_append_field_pos [OF d]
  have body: "serial_len a pos = Ok (length (append_field v))"
    if "append_field v = e # put_varint (word_of_nat (length t)) @ t" "fits t" "e = TYPE_TEXT \<or> e = TYPE_BLOB" for e t
  proof -
    have d': "drop pos a = e # put_varint (word_of_nat (length t)) @ t @ rest" using d that(1) by simp
    note b = body_field [OF assms(1) that(2) d']
    have "usize_add (length (put_varint (word_of_nat (length t))) + 1) (length t) = length (append_field v)"
      using b(3) assms(1) that(1) by (simp add: fits_def)
    then show ?thesis
      using p that b(1,2) by (auto simp: serial_len_def index_at_def type_defs)
  qed
  show ?thesis
    using body assms(2) p by (cases v) (auto simp: serial_len_def index_at_def type_defs put_i64_def)
qed

lemma parse_value_field:
  assumes "fits a" "sess_val_ok v" and d: "drop pos a = append_field v @ rest"
  shows "parse_value a pos = Ok (v, length (append_field v))"
proof -
  note p = drop_append_field_pos [OF d]
  note sl = serial_len_field [OF assms]
  have len: "usize_add pos (length (append_field v)) = pos + length (append_field v)"
    using p assms(1) by (simp add: fits_def)
  have i64: "get_i64 a (pos + 1) = Ok w" if "append_field v = e # put_i64 w" for e w
  proof -
    have "drop (pos + 1) a = put_i64 w @ rest" using d that drop_Suc_eq [of pos a] by simp
    then have "take 8 (drop (pos + 1) a) = put_i64 w" by (simp add: put_i64_def)
    moreover have "pos + 9 \<le> length a" using p that by (simp add: put_i64_def)
    ultimately show ?thesis by (simp add: get_i64_def slice_def put_i64_def)
  qed
  have body: "parse_body a pos mk = Ok (mk t)"
    if "append_field v = e # put_varint (word_of_nat (length t)) @ t" "fits t" for e t mk
  proof -
    have d': "drop pos a = e # put_varint (word_of_nat (length t)) @ t @ rest" using d that(1) by simp
    note b = body_field [OF assms(1) that(2) d']
    have "usize_add (pos + 1 + length (put_varint (word_of_nat (length t)))) (length t)
        = pos + 1 + length (put_varint (word_of_nat (length t))) + length t"
      using b(3) assms(1) by (simp add: fits_def)
    then show ?thesis using b by (simp add: parse_body_def slice_def)
  qed
  show ?thesis
    using p sl len assms(2)
    by (cases v) (auto simp: parse_value_def i64 [simplified] body type_defs)
qed

definition parse_field :: "bytes \<Rightarrow> (sess_val \<times> nat) option" where
  "parse_field bs = (case parse_value bs 0 of Ok r \<Rightarrow> Some r | _ \<Rightarrow> None)"

interpretation sess_field: prefix_codec append_field parse_field sess_val_ok
  by unfold_locales (simp add: parse_field_def parse_value_field [where pos = 0])

interpretation sess_varint: prefix_codec put_varint "\<lambda>bs. Some (get_varint bs 0)" "\<lambda>_. True"
  by unfold_locales (simp add: get_varint_put_varint [where pos = 0])

subsection \<open>Records\<close>

definition field_bytes :: "sess_val list \<Rightarrow> bytes" where
  "field_bytes vs = concat (map append_field vs)"

lemma field_bytes_Nil [simp]: "field_bytes [] = []"
  and field_bytes_Cons [simp]: "field_bytes (v # vs) = append_field v @ field_bytes vs"
  and field_bytes_append [simp]: "field_bytes (vs @ ws) = field_bytes vs @ field_bytes ws"
  by (simp_all add: field_bytes_def)

lemma field_bytes_inj:
  "list_all sess_val_ok vs \<Longrightarrow> list_all sess_val_ok ws \<Longrightarrow> length vs = length ws \<Longrightarrow>
   fits (field_bytes vs @ r) \<Longrightarrow> field_bytes vs @ r = field_bytes ws @ s \<Longrightarrow> vs = ws \<and> r = s"
  unfolding field_bytes_def by (rule sess_field.enc_list_inj)

lemma parse_record_loop_fields:
  "fits a \<Longrightarrow> list_all sess_val_ok vs \<Longrightarrow> drop pos a = field_bytes vs @ rest \<Longrightarrow> pos \<le> length a \<Longrightarrow>
   parse_record_loop a pos (length vs) = Ok (vs, pos + length (field_bytes vs))"
proof (induction vs arbitrary: pos)
  case (Cons v vs)
  have d: "drop pos a = append_field v @ field_bytes vs @ rest" using Cons.prems(3) by simp
  note p = drop_append_field_pos [OF d]
  have "drop (pos + length (append_field v)) a = field_bytes vs @ rest" by (rule drop_add_append [OF d])
  then have "parse_record_loop a (pos + length (append_field v)) (length vs)
      = Ok (vs, pos + length (append_field v) + length (field_bytes vs))"
    using Cons p by simp
  moreover have "parse_value a pos = Ok (v, length (append_field v))"
    using parse_value_field [OF Cons.prems(1) _ d] Cons.prems(2) by simp
  moreover have "usize_add pos (length (append_field v)) = pos + length (append_field v)"
    using p Cons.prems(1) by (simp add: fits_def)
  ultimately show ?case by simp
qed simp

lemma parse_record_fields:
  assumes "fits a" "list_all sess_val_ok vs" "drop pos a = field_bytes vs @ rest" "pos \<le> length a"
  shows "parse_record a pos (length vs) = Ok (vs, length (field_bytes vs))"
proof -
  have "pos + length (field_bytes vs) \<le> length a"
    using drop_eq_append_length [OF assms(3)] assms(4) by (cases "field_bytes vs = []") auto
  with assms show ?thesis
    by (simp add: parse_record_def parse_record_loop_fields fits_def)
qed

lemma skip_record_fields:
  "fits a \<Longrightarrow> list_all sess_val_ok vs \<Longrightarrow> drop pos a = field_bytes vs @ rest \<Longrightarrow>
   skip_record a pos (length vs) = Ok (pos + length (field_bytes vs))"
proof (induction vs arbitrary: pos)
  case (Cons v vs)
  have d: "drop pos a = append_field v @ field_bytes vs @ rest" using Cons.prems(3) by simp
  note p = drop_append_field_pos [OF d]
  have "drop (pos + length (append_field v)) a = field_bytes vs @ rest" by (rule drop_add_append [OF d])
  moreover have "serial_len a pos = Ok (length (append_field v))"
    using serial_len_field [OF Cons.prems(1) _ d] Cons.prems(2) by simp
  moreover have "usize_add pos (length (append_field v)) = pos + length (append_field v)"
    using p Cons.prems(1) by (simp add: fits_def)
  ultimately show ?case using Cons by simp
qed simp

text \<open>An engine value and its changeset field.\<close>

fun field_of_value :: "val option \<Rightarrow> sess_val" where
  "field_of_value None = Undef"
| "field_of_value (Some Null) = SNull"
| "field_of_value (Some (Integer i)) = SInt i"
| "field_of_value (Some (Real r)) = SReal r"
| "field_of_value (Some (Txt t)) = SText (as_str t)"
| "field_of_value (Some (Blob b)) = SBlob b"

lemma append_value_field: "append_value v = append_field (field_of_value v)"
  by (cases v rule: field_of_value.cases) simp_all

subsection \<open>Properties\<close>

text \<open>
  the session extension's own varint writer and the file format's, written independently
  of each other, produce the same bytes for every 64-bit value.
\<close>

theorem session_varint_is_sqlite_varint: "put_varint v = write_varint v"
  by (rule put_varint_write_varint)

text \<open>
  a serialized field, wherever it lies in a buffer, parses back to the same value and
  \<^verbatim>\<open>serial_len\<close> and \<^verbatim>\<open>parse_value\<close> agree on the bytes it occupies.
\<close>

theorem field_roundtrip:
  assumes "sess_val_ok v" "fits (pre @ append_field v @ rest)"
  shows "parse_value (pre @ append_field v @ rest) (length pre) = Ok (v, length (append_field v))
    \<and> serial_len (pre @ append_field v @ rest) (length pre) = Ok (length (append_field v))"
  using assms parse_value_field [of "pre @ append_field v @ rest" v "length pre" rest]
    serial_len_field [of "pre @ append_field v @ rest" v "length pre" rest] by simp

theorem field_roundtrip_witness:
  "parse_value ([7] @ append_field (SText [0x68, 0x69]) @ [5]) 1 = Ok (SText [0x68, 0x69], 4)"
proof -
  have l: "length (append_field (SText [0x68, 0x69])) = 4" by (simp add: put_varint_def)
  show ?thesis
    using field_roundtrip [of "SText [0x68, 0x69]" "[7]" "[5]"] l by (simp add: fits_def)
qed

text \<open>
  C27: what the capture path writes for an engine value reads back as that value, whatever follows
  it; text that is not UTF-8 reads back as its \<^verbatim>\<open>as_str\<close> view, in which the bytes that are not are
  replaced by the mask.
\<close>

theorem value_roundtrip:
  assumes "\<forall>t. v = Txt t \<longrightarrow> text_wf t" "fits (append_value (Some v) @ rest)"
  shows "\<exists>f. parse_value (append_value (Some v) @ rest) 0 = Ok (f, length (append_value (Some v)))
    \<and> to_value f = Some (case v of Txt t \<Rightarrow> Txt (Plain (as_str t)) | _ \<Rightarrow> v)"
proof -
  define f where "f = field_of_value (Some v)"
  have "length (append_field f) < 2 ^ 63" using assms(2) by (simp add: append_value_field f_def fits_def)
  then have "sess_val_ok f" by (cases f) (simp_all add: fits_def)
  then have "parse_value (append_field f @ rest) 0 = Ok (f, length (append_field f))"
    using assms(2) by (intro parse_value_field [where rest = rest]) (simp_all add: append_value_field f_def)
  moreover have "to_value f = Some (case v of Txt t \<Rightarrow> Txt (Plain (as_str t)) | _ \<Rightarrow> v)" using assms(1) as_str_valid by (cases v) (auto simp: f_def)
  ultimately show ?thesis by (auto simp: append_value_field f_def)
qed

theorem value_roundtrip_witness:
  "(\<exists>f. parse_value (append_value (Some (Integer 77)) @ [1]) 0 = Ok (f, length (append_value (Some (Integer 77)))) \<and> to_value f = Some (Integer 77))
   \<and> (\<exists>f. parse_value (append_value (Some (Txt (Raw [0x61, 0xc3]))) @ [1]) 0 = Ok (f, length (append_value (Some (Txt (Raw [0x61, 0xc3])))))
       \<and> to_value f = Some (Txt (Plain [0x61, 0x1a])))"
proof -
  have scan: "from_utf8 [0x61, 0xc3] = Some (1, None)" by (simp add: from_utf8_def utf8_scan.simps)
  then have "text_wf (Raw [0x61, 0xc3])" by (simp add: text_wf_def)
  moreover have raw: "as_str (Raw [0x61, 0xc3]) = [0x61, 0x1a]" using scan mask_loop.simps [of 0 "[0x61, 0xc3]"] mask_loop.simps [of "Suc (Suc 0)" "[0x61, 0x1a]"] by (simp add: fill_range_def RAW_MASK_def)
  moreover have "length (append_value (Some (Txt (Raw [0x61, 0xc3]))) @ [1]) < 2 ^ 63" using length_put_varint [of 2] raw by simp
  ultimately show ?thesis using value_roundtrip [of "Integer 77" "[1]"] value_roundtrip [of "Txt (Raw [0x61, 0xc3])" "[1]"]
    by (simp add: fits_def put_i64_def)
qed

end
