(* ===== verification/Session_Iter.thy ===== *)
theory Session_Iter
  imports Session_Codec
begin

text \<open>
  \<^verbatim>\<open>src/session/iter.rs\<close>: the changeset iterator. \<open>iter\<close> is the struct, \<open>iter_next\<close> the whole of
  \<^verbatim>\<open>next\<close> (the headers before a change, the change itself, the patchset shift and the
  inversion). After an \<^verbatim>\<open>Err\<close> every caller drops the iterator, so the model returns only the
  message there. \<open>iter_while\<close> is the \<^verbatim>\<open>while iter.next()? { .. }\<close> loop of the clients.
\<close>

subsection \<open>The code\<close>

record iter =
  it_data :: bytes
  it_pos :: nat
  it_cur :: nat
  it_end :: nat
  b_patchset :: bool
  b_invert :: bool
  z_tab :: bytes
  it_n_col :: nat
  it_ab_pk :: bytes
  it_op :: byte
  it_indirect :: bool
  it_old :: "sess_val option list"
  it_new :: "sess_val option list"
  it_raw :: bytes

abbreviation corrupt :: string where
  "corrupt \<equiv> ''corrupt changeset''"

abbreviation ch_T :: byte where "ch_T \<equiv> 0x54"
abbreviation ch_P :: byte where "ch_P \<equiv> 0x50"

definition CHANGESETSTART_INVERT :: u32 where
  "CHANGESETSTART_INVERT = 0x0002"

definition start_data :: "bytes \<Rightarrow> u32 \<Rightarrow> iter" where
  "start_data data flags = \<lparr>it_data = data, it_pos = 0, it_cur = 0, it_end = 0, b_patchset = False,
     b_invert = (flags AND CHANGESETSTART_INVERT \<noteq> 0), z_tab = [], it_n_col = 0, it_ab_pk = [],
     it_op = 0, it_indirect = False, it_old = [], it_new = [], it_raw = []\<rparr>"

definition read_tblhdr :: "iter \<Rightarrow> iter outcome" where
  "read_tblhdr it =
     (let data = it_data it; pos = it_pos it in
      if length data \<le> pos then Err corrupt
      else let (n, used) = get_varint data pos; pos1 = pos + used; n_col = unat n; fin = usize_add pos1 n_col in
        if n_col = 0 \<or> length data < fin then Err corrupt
        else bind_outcome (slice data pos1 fin) (\<lambda>ab_pk.
          bind_outcome (ok_or (position (\<lambda>b. b = 0) (drop fin data)) corrupt) (\<lambda>name_end.
            bind_outcome (slice data fin (fin + name_end)) (\<lambda>name.
              if utf8_valid name
              then Ok (it\<lparr>it_ab_pk := ab_pk, z_tab := name, it_pos := fin + name_end + 1, it_n_col := n_col\<rparr>)
              else Err corrupt))))"

lemma read_tblhdr_advances:
  "read_tblhdr it = Ok it' \<Longrightarrow> it_data it' = it_data it \<and> it_pos it < it_pos it' \<and> it_pos it' \<le> length (it_data it)
     \<and> length (it_ab_pk it') = it_n_col it' \<and> 0 < it_n_col it'
     \<and> b_invert it' = b_invert it \<and> b_patchset it' = b_patchset it"
proof -
  assume h: "read_tblhdr it = Ok it'"
  obtain n used where v: "get_varint (it_data it) (it_pos it) = (n, used)" by (metis surj_pair)
  define fin where "fin = usize_add (it_pos it + used) (unat n)"
  from h v obtain k where
    k: "position (\<lambda>b. b = 0) (drop fin (it_data it)) = Some k"
    and le: "it_pos it + used \<le> fin" "fin \<le> length (it_data it)" "unat n \<noteq> 0"
    and it': "it' = it\<lparr>it_ab_pk := take (fin - (it_pos it + used)) (drop (it_pos it + used) (it_data it)),
        z_tab := take k (drop fin (it_data it)), it_pos := fin + k + 1, it_n_col := unat n\<rparr>"
    by (auto simp: read_tblhdr_def Let_def bind_outcome_eq_Ok slice_eq_Ok fin_def ok_or_def
        split: if_splits option.splits)
  have "fin = it_pos it + used + unat n"
    using le(1) unfolding fin_def by (rule usize_add_no_wrap) (rule u64_bound)
  with it' le position_Some [OF k] show ?thesis by auto
qed

text \<open>
  The header loop: \<open>None\<close> when the input ends after a header (\<^verbatim>\<open>Ok(false)\<close>), otherwise the
  operation byte that follows.
\<close>

function header_loop :: "iter \<Rightarrow> byte \<Rightarrow> (byte option \<times> iter) outcome" where
  "header_loop it opb =
     (if opb = ch_T \<or> opb = ch_P
      then bind_outcome (read_tblhdr (it\<lparr>b_patchset := (opb = ch_P)\<rparr>)) (\<lambda>it'.
             if length (it_data it') \<le> it_pos it' then Ok (None, it')
             else header_loop (it'\<lparr>it_pos := it_pos it' + 1\<rparr>) (it_data it' ! it_pos it'))
      else Ok (Some opb, it))"
  by pat_completeness auto
termination
  by (relation "measure (\<lambda>(it, opb). length (it_data it) - it_pos it)")
    (auto dest!: read_tblhdr_advances)

declare header_loop.simps [simp del]

fun expand_pk :: "bytes \<Rightarrow> sess_val list \<Rightarrow> sess_val option list" where
  "expand_pk [] vs = []"
| "expand_pk (p # ps) vs =
     (if p \<noteq> 0 then (case vs of v # vs' \<Rightarrow> Some v # expand_pk ps vs' | [] \<Rightarrow> None # expand_pk ps [])
      else None # expand_pk ps vs)"

definition parse_sides :: "iter \<Rightarrow> byte \<Rightarrow> (sess_val option list \<times> sess_val option list \<times> nat) outcome" where
  "parse_sides it opb =
     (let data = it_data it; pos = it_pos it; n = it_n_col it in
      if b_patchset it
      then if opb = OP_DELETE
           then bind_outcome (parse_record data pos (length (filter (\<lambda>p. p \<noteq> 0) (it_ab_pk it)))) (\<lambda>(vals, used).
                  Ok (expand_pk (it_ab_pk it) vals, [], pos + used))
           else bind_outcome (parse_record data pos n) (\<lambda>(vals, used). Ok ([], map Some vals, pos + used))
      else if opb = OP_UPDATE
      then bind_outcome (parse_record data pos n) (\<lambda>(ov, used1).
             bind_outcome (parse_record data (pos + used1) n) (\<lambda>(nv, used2).
               Ok (map Some ov, map Some nv, pos + used1 + used2)))
      else if opb = OP_DELETE
      then bind_outcome (parse_record data pos n) (\<lambda>(ov, used). Ok (map Some ov, [], pos + used))
      else bind_outcome (parse_record data pos n) (\<lambda>(nv, used). Ok ([], map Some nv, pos + used)))"

text \<open>The patchset shift: \<^verbatim>\<open>op_old[i] = op_new[i].take()\<close> for the key columns.\<close>

fun shift_pk :: "bytes \<Rightarrow> nat list \<Rightarrow> sess_val option list \<Rightarrow> sess_val option list \<Rightarrow>
    (sess_val option list \<times> sess_val option list) outcome" where
  "shift_pk ab_pk [] ov nv = Ok (ov, nv)"
| "shift_pk ab_pk (i # is) ov nv =
     bind_outcome (index_at ab_pk i) (\<lambda>p.
       if p \<noteq> 0
       then bind_outcome (index_at nv i) (\<lambda>v.
              bind_outcome (index_at ov i) (\<lambda>_.
                if v = None then Err corrupt
                else shift_pk ab_pk is (ov[i := v]) (nv[i := None])))
       else shift_pk ab_pk is ov nv)"

fun drop_unmodified :: "bytes \<Rightarrow> nat list \<Rightarrow> sess_val option list \<Rightarrow> sess_val option list \<Rightarrow>
    sess_val option list outcome" where
  "drop_unmodified ab_pk [] ov nv = Ok ov"
| "drop_unmodified ab_pk (i # is) ov nv =
     bind_outcome (index_at ab_pk i) (\<lambda>p.
       if p = 0
       then bind_outcome (index_at nv i) (\<lambda>v.
              if v = None
              then bind_outcome (index_at ov i) (\<lambda>_. drop_unmodified ab_pk is (ov[i := None]) nv)
              else drop_unmodified ab_pk is ov nv)
       else drop_unmodified ab_pk is ov nv)"

definition flip_op :: "byte \<Rightarrow> byte" where
  "flip_op opb = (if opb = OP_INSERT then OP_DELETE else if opb = OP_DELETE then OP_INSERT else opb)"

definition orient_change :: "iter \<Rightarrow> byte \<Rightarrow> sess_val option list \<Rightarrow> sess_val option list \<Rightarrow> iter outcome" where
  "orient_change it opb ov nv =
     (if b_invert it then Ok (it\<lparr>it_op := flip_op opb, it_old := nv, it_new := ov\<rparr>)
      else if opb = OP_UPDATE
      then bind_outcome (drop_unmodified (it_ab_pk it) [0 ..< it_n_col it] ov nv) (\<lambda>ov'.
             Ok (it\<lparr>it_old := ov', it_new := nv\<rparr>))
      else Ok (it\<lparr>it_old := ov, it_new := nv\<rparr>))"

definition finish_change :: "iter \<Rightarrow> byte \<Rightarrow> sess_val option list \<Rightarrow> sess_val option list \<Rightarrow> nat \<Rightarrow> iter outcome" where
  "finish_change it opb ov nv pos' =
     bind_outcome (slice (it_data it) (it_cur it) pos') (\<lambda>raw.
       let it' = it\<lparr>it_pos := pos', it_end := pos', it_raw := raw\<rparr> in
       if b_patchset it \<and> opb = OP_UPDATE
       then bind_outcome (shift_pk (it_ab_pk it) [0 ..< it_n_col it] ov nv) (\<lambda>(ov', nv'). orient_change it' opb ov' nv')
       else orient_change it' opb ov nv)"

definition read_change :: "iter \<Rightarrow> byte \<Rightarrow> iter outcome" where
  "read_change it opb =
     (if z_tab it = [] \<or> (b_patchset it \<and> b_invert it) then Err corrupt
      else if opb \<noteq> OP_INSERT \<and> opb \<noteq> OP_DELETE \<and> opb \<noteq> OP_UPDATE then Err corrupt
      else if length (it_data it) \<le> it_pos it then Err corrupt
      else let it1 = it\<lparr>it_op := opb, it_indirect := (it_data it ! it_pos it \<noteq> 0),
                        it_pos := it_pos it + 1, it_cur := it_pos it + 1\<rparr>
        in bind_outcome (parse_sides it1 opb) (\<lambda>(ov, nv, pos'). finish_change it1 opb ov nv pos'))"

definition iter_next :: "iter \<Rightarrow> (bool \<times> iter) outcome" where
  "iter_next it =
     (let it0 = it\<lparr>it_old := [], it_new := [], it_raw := []\<rparr> in
      if length (it_data it0) \<le> it_pos it0 then Ok (False, it0)
      else bind_outcome (header_loop (it0\<lparr>it_pos := it_pos it0 + 1\<rparr>) (it_data it0 ! it_pos it0)) (\<lambda>(opb, it1).
        case opb of None \<Rightarrow> Ok (False, it1)
        | Some b \<Rightarrow> bind_outcome (read_change it1 b) (\<lambda>it2. Ok (True, it2))))"

definition old_val :: "iter \<Rightarrow> nat \<Rightarrow> sess_val option" where
  "old_val it i = (if i < length (it_old it) then it_old it ! i else None)"

definition new_val :: "iter \<Rightarrow> nat \<Rightarrow> sess_val option" where
  "new_val it i = (if i < length (it_new it) then it_new it ! i else None)"

subsection \<open>The iterator moves forward\<close>

lemma header_loop_advances:
  "header_loop it opb = Ok (r, it') \<Longrightarrow> it_pos it \<le> length (it_data it) \<Longrightarrow>
   it_data it' = it_data it \<and> it_pos it \<le> it_pos it' \<and> it_pos it' \<le> length (it_data it) \<and> b_invert it' = b_invert it
   \<and> (length (it_ab_pk it) = it_n_col it \<longrightarrow> length (it_ab_pk it') = it_n_col it')"
proof (induction it opb rule: header_loop.induct)
  case (1 it opb)
  show ?case
  proof (cases "opb = ch_T \<or> opb = ch_P")
    case False
    with "1.prems" show ?thesis by (simp add: header_loop.simps [of it opb])
  next
    case True
    with "1.prems"(1) obtain it1 where r: "read_tblhdr (it\<lparr>b_patchset := (opb = ch_P)\<rparr>) = Ok it1"
      and s: "(if length (it_data it1) \<le> it_pos it1 then Ok (None, it1)
         else header_loop (it1\<lparr>it_pos := it_pos it1 + 1\<rparr>) (it_data it1 ! it_pos it1)) = Ok (r, it')"
      by (auto simp: header_loop.simps [of it opb] bind_outcome_eq_Ok)
    note a = read_tblhdr_advances [OF r]
    show ?thesis
    proof (cases "length (it_data it1) \<le> it_pos it1")
      case True
      with s a show ?thesis by auto
    next
      case F: False
      then show ?thesis
        using "1.IH" [OF True r F] s a by auto
    qed
  qed
qed

lemma orient_change_frame:
  "orient_change it opb ov nv = Ok it' \<Longrightarrow>
   it_data it' = it_data it \<and> it_pos it' = it_pos it \<and> it_ab_pk it' = it_ab_pk it
   \<and> it_n_col it' = it_n_col it \<and> b_invert it' = b_invert it"
  by (auto simp: orient_change_def bind_outcome_eq_Ok split: if_splits)

lemma finish_change_frame:
  "finish_change it opb ov nv pos' = Ok it' \<Longrightarrow>
   it_data it' = it_data it \<and> it_pos it' = pos' \<and> it_cur it \<le> pos' \<and> pos' \<le> length (it_data it)
   \<and> it_ab_pk it' = it_ab_pk it \<and> it_n_col it' = it_n_col it \<and> b_invert it' = b_invert it"
  by (auto simp: finish_change_def Let_def bind_outcome_eq_Ok slice_eq_Ok split: if_splits
      dest!: orient_change_frame)

lemma read_change_advances:
  assumes "read_change it opb = Ok it'"
  shows "it_data it' = it_data it \<and> it_pos it < it_pos it' \<and> it_pos it' \<le> length (it_data it)
   \<and> it_ab_pk it' = it_ab_pk it \<and> it_n_col it' = it_n_col it \<and> b_invert it' = b_invert it"
proof -
  define it1 where "it1 = it\<lparr>it_op := opb, it_indirect := (it_data it ! it_pos it \<noteq> 0),
    it_pos := it_pos it + 1, it_cur := it_pos it + 1\<rparr>"
  from assms obtain ov nv p where "finish_change it1 opb ov nv p = Ok it'"
    by (auto simp: read_change_def Let_def bind_outcome_eq_Ok it1_def split: if_splits)
  from finish_change_frame [OF this] show ?thesis by (auto simp: it1_def)
qed

lemma iter_next_advances:
  assumes "iter_next it = Ok (True, it')"
  shows "it_data it' = it_data it \<and> it_pos it < it_pos it' \<and> it_pos it' \<le> length (it_data it)
    \<and> b_invert it' = b_invert it
    \<and> (length (it_ab_pk it) = it_n_col it \<longrightarrow> length (it_ab_pk it') = it_n_col it')"
proof -
  have p: "it_pos it < length (it_data it)"
    using assms by (auto simp: iter_next_def Let_def split: if_splits)
  with assms obtain b it1 where
    h: "header_loop (it\<lparr>it_old := [], it_new := [], it_raw := [], it_pos := it_pos it + 1\<rparr>) (it_data it ! it_pos it)
        = Ok (Some b, it1)"
    and r: "read_change it1 b = Ok it'"
    by (auto simp: iter_next_def Let_def bind_outcome_eq_Ok split: option.splits)
  show ?thesis
    using header_loop_advances [OF h] read_change_advances [OF r] p by auto
qed

record event =
  ev_table :: bytes
  ev_n_col :: nat
  ev_pk :: bytes
  ev_patchset :: bool
  ev_op :: byte
  ev_indirect :: bool
  ev_old :: "sess_val option list"
  ev_new :: "sess_val option list"
  ev_raw :: bytes

definition event_of :: "iter \<Rightarrow> event" where
  "event_of it = \<lparr>ev_table = z_tab it, ev_n_col = it_n_col it, ev_pk = it_ab_pk it,
     ev_patchset = b_patchset it, ev_op = it_op it, ev_indirect = it_indirect it,
     ev_old = it_old it, ev_new = it_new it, ev_raw = it_raw it\<rparr>"

function iter_while :: "('s \<Rightarrow> event \<Rightarrow> 's outcome) \<Rightarrow> 's \<Rightarrow> iter \<Rightarrow> 's outcome" where
  "iter_while body s it =
     bind_outcome (iter_next it) (\<lambda>(more, it').
       if more then bind_outcome (body s (event_of it')) (\<lambda>s'. iter_while body s' it') else Ok s)"
  by pat_completeness auto
termination
  by (relation "measure (\<lambda>(body, s, it). length (it_data it) - it_pos it)")
    (auto dest!: iter_next_advances)

declare iter_while.simps [simp del]

subsection \<open>Well-formed changesets\<close>

datatype change =
    Ins bool "sess_val list"
  | Del bool "sess_val list"
  | Upd bool "sess_val list" "sess_val list"

record cs_table =
  tb_name :: bytes
  tb_pk :: bytes
  tb_changes :: "change list"

definition ind_byte :: "bool \<Rightarrow> byte" where
  "ind_byte b = (if b then 1 else 0)"

fun change_op :: "change \<Rightarrow> byte" where
  "change_op (Ins _ _) = OP_INSERT"
| "change_op (Del _ _) = OP_DELETE"
| "change_op (Upd _ _ _) = OP_UPDATE"

fun change_ind :: "change \<Rightarrow> bool" where
  "change_ind (Ins i _) = i"
| "change_ind (Del i _) = i"
| "change_ind (Upd i _ _) = i"

fun change_raw :: "change \<Rightarrow> bytes" where
  "change_raw (Ins _ vs) = field_bytes vs"
| "change_raw (Del _ vs) = field_bytes vs"
| "change_raw (Upd _ ov nv) = field_bytes ov @ field_bytes nv"

definition render_change :: "change \<Rightarrow> bytes" where
  "render_change c = change_op c # ind_byte (change_ind c) # change_raw c"

definition render_header :: "byte \<Rightarrow> bytes \<Rightarrow> bytes \<Rightarrow> bytes" where
  "render_header kind pk name = kind # put_varint (word_of_nat (length pk)) @ pk @ name @ [0]"

definition render_table :: "cs_table \<Rightarrow> bytes" where
  "render_table t = render_header ch_T (tb_pk t) (tb_name t) @ concat (map render_change (tb_changes t))"

definition render :: "cs_table list \<Rightarrow> bytes" where
  "render ts = concat (map render_table ts)"

fun change_ok :: "nat \<Rightarrow> change \<Rightarrow> bool" where
  "change_ok n (Ins _ vs) = (length vs = n \<and> list_all sess_val_ok vs)"
| "change_ok n (Del _ vs) = (length vs = n \<and> list_all sess_val_ok vs)"
| "change_ok n (Upd _ ov nv) =
     (length ov = n \<and> length nv = n \<and> list_all sess_val_ok ov \<and> list_all sess_val_ok nv)"

definition name_ok :: "bytes \<Rightarrow> bool" where
  "name_ok nm \<longleftrightarrow> nm \<noteq> [] \<and> 0 \<notin> set nm \<and> utf8_valid nm"

definition table_ok :: "cs_table \<Rightarrow> bool" where
  "table_ok t \<longleftrightarrow> name_ok (tb_name t) \<and> tb_pk t \<noteq> []
     \<and> list_all (change_ok (length (tb_pk t))) (tb_changes t)"

text \<open>What a client of the iterator sees of a change (\<open>iv\<close>: the iterator was started with INVERT).\<close>

fun change_old :: "change \<Rightarrow> sess_val option list" where
  "change_old (Ins _ vs) = []"
| "change_old (Del _ vs) = map Some vs"
| "change_old (Upd _ ov nv) = map Some ov"

fun change_new :: "change \<Rightarrow> sess_val option list" where
  "change_new (Ins _ vs) = map Some vs"
| "change_new (Del _ vs) = []"
| "change_new (Upd _ ov nv) = map Some nv"

definition event_for :: "bool \<Rightarrow> cs_table \<Rightarrow> change \<Rightarrow> event" where
  "event_for iv t c = \<lparr>ev_table = tb_name t, ev_n_col = length (tb_pk t), ev_pk = tb_pk t, ev_patchset = False,
     ev_op = (if iv then flip_op (change_op c) else change_op c), ev_indirect = change_ind c,
     ev_old = (if iv then change_new c else change_old c),
     ev_new = (if iv then change_old c else change_new c), ev_raw = change_raw c\<rparr>"

definition events :: "bool \<Rightarrow> cs_table list \<Rightarrow> event list" where
  "events iv ts = concat (map (\<lambda>t. map (event_for iv t) (tb_changes t)) ts)"

subsection \<open>Reading back what is rendered\<close>

lemma read_tblhdr_render:
  assumes "fits (it_data it)" "name_ok nm" "pk \<noteq> []"
    and d: "drop (it_pos it) (it_data it) = put_varint (word_of_nat (length pk)) @ pk @ nm @ 0 # rest"
  shows "read_tblhdr it = Ok (it\<lparr>it_ab_pk := pk, z_tab := nm, it_n_col := length pk,
     it_pos := it_pos it + length (put_varint (word_of_nat (length pk))) + length pk + length nm + 1\<rparr>)"
proof -
  let ?h = "put_varint (word_of_nat (length pk))"
  have "?h \<noteq> []" using length_put_varint [of "word_of_nat (length pk)"] by auto
  then have p: "it_pos it < length (it_data it)" using drop_eq_append_length [OF d] by (cases ?h) auto
  have d1: "drop (it_pos it + length ?h) (it_data it) = pk @ nm @ 0 # rest" by (rule drop_add_append [OF d])
  then have d2: "drop (it_pos it + length ?h + length pk) (it_data it) = nm @ 0 # rest" by (rule drop_add_append)
  have le1: "it_pos it + length ?h + length pk \<le> length (it_data it)"
    using drop_eq_append_length [OF d1] assms(3) by simp
  have le2: "it_pos it + length ?h + length pk + length nm \<le> length (it_data it)"
    using drop_eq_append_length [OF d2] assms(2) by (simp add: name_ok_def)
  have n: "unat (word_of_nat (length pk) :: u64) = length pk"
    using le1 assms(1) by (simp add: fits_def unat_of_nat)
  have v: "get_varint (it_data it) (it_pos it) = (word_of_nat (length pk), length ?h)"
    by (rule get_varint_put_varint [OF assms(1) d])
  have u: "usize_add (it_pos it + length ?h) (length pk) = it_pos it + length ?h + length pk"
    using le1 assms(1) by (simp add: fits_def)
  have q: "position (\<lambda>b. b = 0) (nm @ 0 # rest) = Some (length nm)"
    using assms(2) by (auto simp: name_ok_def list_ex_iff)
  show ?thesis
    using p v n u le1 le2 d1 d2 q assms(2,3)
    by (simp add: read_tblhdr_def Let_def slice_def ok_or_def name_ok_def)
qed

text \<open>The iterator stands inside table \<open>t\<close> of a changeset.\<close>

definition in_table :: "bytes \<Rightarrow> bool \<Rightarrow> cs_table \<Rightarrow> iter \<Rightarrow> bool" where
  "in_table data iv t it \<longleftrightarrow> it_data it = data \<and> b_invert it = iv \<and> \<not> b_patchset it
     \<and> z_tab it = tb_name t \<and> it_ab_pk it = tb_pk t \<and> it_n_col it = length (tb_pk t)"

lemma drop_unmodified_full:
  "list_all (\<lambda>i. i < length ab_pk \<and> i < length nv) is \<Longrightarrow> None \<notin> set nv \<Longrightarrow>
   drop_unmodified ab_pk is ov nv = Ok ov"
proof (induction "is")
  case (Cons i "is")
  then obtain y where "nv ! i = Some y" by (metis list.pred_inject(2) nth_mem option.exhaust)
  with Cons show ?case by (simp add: index_at_def)
qed simp

lemma parse_sides_render:
  assumes "fits (it_data it)" "\<not> b_patchset it" "change_ok (it_n_col it) c"
    and d: "drop (it_pos it) (it_data it) = change_raw c @ rest" and p: "it_pos it \<le> length (it_data it)"
  shows "parse_sides it (change_op c) = Ok (change_old c, change_new c, it_pos it + length (change_raw c))"
proof (cases c)
  case (Ins i vs)
  then show ?thesis
    using assms parse_record_fields [OF assms(1) _ _ p, of vs rest] by (simp add: parse_sides_def op_defs)
next
  case (Del i vs)
  then show ?thesis
    using assms parse_record_fields [OF assms(1) _ _ p, of vs rest] by (simp add: parse_sides_def op_defs)
next
  case (Upd i ov nv)
  have d1: "drop (it_pos it) (it_data it) = field_bytes ov @ field_bytes nv @ rest" using d Upd by simp
  have d2: "drop (it_pos it + length (field_bytes ov)) (it_data it) = field_bytes nv @ rest"
    by (rule drop_add_append [OF d1])
  have p2: "it_pos it + length (field_bytes ov) \<le> length (it_data it)"
    using drop_eq_append_length [OF d1] p by (cases "field_bytes ov = []") auto
  show ?thesis
    using Upd assms(2,3) parse_record_fields [OF assms(1) _ d1 p] parse_record_fields [OF assms(1) _ d2 p2]
    by (simp add: parse_sides_def op_defs add.assoc)
qed

lemma iter_next_change:
  assumes "fits data" "in_table data iv t it" "table_ok t" "change_ok (length (tb_pk t)) c"
    and d: "drop (it_pos it) data = render_change c @ rest"
  shows "\<exists>it'. iter_next it = Ok (True, it') \<and> in_table data iv t it' \<and> drop (it_pos it') data = rest
    \<and> event_of it' = event_for iv t c"
proof -
  have tab: "it_data it = data" "b_invert it = iv" "\<not> b_patchset it" "z_tab it = tb_name t"
    "it_ab_pk it = tb_pk t" "it_n_col it = length (tb_pk t)"
    using assms(2) by (simp_all add: in_table_def)
  have d0: "drop (it_pos it) data = change_op c # ind_byte (change_ind c) # change_raw c @ rest"
    using d by (simp add: render_change_def)
  have p: "it_pos it < length data" "data ! it_pos it = change_op c"
    and d1: "drop (Suc (it_pos it)) data = ind_byte (change_ind c) # change_raw c @ rest"
    using drop_eq_Cons_nth [OF d0] by simp_all
  have p1: "Suc (it_pos it) < length data" "data ! Suc (it_pos it) = ind_byte (change_ind c)"
    and d2: "drop (Suc (Suc (it_pos it))) data = change_raw c @ rest"
    using drop_eq_Cons_nth [OF d1] by simp_all
  define pe where "pe = Suc (Suc (it_pos it)) + length (change_raw c)"
  have le: "pe \<le> length data"
    using drop_eq_append_length [OF d2] p1 by (cases "change_raw c = []") (auto simp: pe_def)
  have dr: "drop pe data = rest" unfolding pe_def by (rule drop_add_append [OF d2])
  have tk: "take (length (change_raw c)) (drop (Suc (Suc (it_pos it))) data) = change_raw c" using d2 by simp
  have op: "change_op c \<noteq> ch_T" "change_op c \<noteq> ch_P"
    "change_op c = OP_INSERT \<or> change_op c = OP_DELETE \<or> change_op c = OP_UPDATE"
    by (cases c; simp add: op_defs)+
  define it1 where "it1 = it\<lparr>it_old := [], it_new := [], it_raw := [], it_op := change_op c,
     it_indirect := change_ind c, it_pos := Suc (Suc (it_pos it)), it_cur := Suc (Suc (it_pos it))\<rparr>"
  have ps: "parse_sides it1 (change_op c) = Ok (change_old c, change_new c, pe)"
    using parse_sides_render [of it1 c rest] assms(1,4) tab d2 p1 by (simp add: it1_def pe_def)
  have ind: "(ind_byte (change_ind c) \<noteq> 0) = change_ind c" by (simp add: ind_byte_def)
  have nm: "tb_name t \<noteq> []" using assms(3) by (simp add: table_ok_def name_ok_def)
  have opn: "\<not> (change_op c \<noteq> OP_INSERT \<and> change_op c \<noteq> OP_DELETE \<and> change_op c \<noteq> OP_UPDATE)"
    using op(3) by blast
  have nx: "iter_next it = bind_outcome (finish_change it1 (change_op c) (change_old c) (change_new c) pe) (\<lambda>it2. Ok (True, it2))"
    using tab p p1 op(1,2) nm ps ind
    by (simp add: iter_next_def header_loop.simps read_change_def Let_def it1_def opn)
  have du: "change_op c = OP_UPDATE \<Longrightarrow>
      drop_unmodified (tb_pk t) [0 ..< length (tb_pk t)] (change_old c) (change_new c) = Ok (change_old c)"
    using assms(4) by (intro drop_unmodified_full) (cases c; auto simp: op_defs list_all_iff)+
  define it2 where "it2 = it1\<lparr>it_pos := pe, it_end := pe, it_raw := change_raw c,
     it_op := (if iv then flip_op (change_op c) else change_op c),
     it_old := (if iv then change_new c else change_old c), it_new := (if iv then change_old c else change_new c)\<rparr>"
  have "finish_change it1 (change_op c) (change_old c) (change_new c) pe = Ok it2"
    using tab le tk du
    by (cases "change_op c = OP_UPDATE")
      (simp_all add: finish_change_def orient_change_def Let_def slice_def it1_def it2_def pe_def)
  then have "iter_next it = Ok (True, it2)" using nx by simp
  moreover have "in_table data iv t it2 \<and> drop (it_pos it2) data = rest \<and> event_of it2 = event_for iv t c"
    using tab dr by (simp add: in_table_def it2_def it1_def event_of_def event_for_def)
  ultimately show ?thesis by blast
qed


lemma iter_while_changes:
  assumes "fits data" "table_ok t"
  shows "in_table data iv t it \<Longrightarrow> list_all (change_ok (length (tb_pk t))) cs \<Longrightarrow>
    drop (it_pos it) data = concat (map render_change cs) @ rest \<Longrightarrow>
    \<exists>it'. in_table data iv t it' \<and> drop (it_pos it') data = rest
      \<and> (\<forall>s. iter_while body s it =
              bind_outcome (fold_outcome body s (map (event_for iv t) cs)) (\<lambda>s'. iter_while body s' it'))"
proof (induction cs arbitrary: it)
  case Nil
  then show ?case by (intro exI [of _ it]) simp
next
  case (Cons c cs)
  then obtain it1 where n: "iter_next it = Ok (True, it1)" "in_table data iv t it1"
      "drop (it_pos it1) data = concat (map render_change cs) @ rest" "event_of it1 = event_for iv t c"
    using iter_next_change [OF assms(1) Cons.prems(1) assms(2), of c "concat (map render_change cs) @ rest"]
    by auto
  with Cons obtain it' where "in_table data iv t it'" "drop (it_pos it') data = rest"
      and w: "\<forall>s. iter_while body s it1 =
              bind_outcome (fold_outcome body s (map (event_for iv t) cs)) (\<lambda>s'. iter_while body s' it')"
    by auto
  then show ?case
    using n by (intro exI [of _ it']) (simp add: iter_while.simps [of body _ it] bind_outcome_assoc)
qed

lemma iter_while_header:
  assumes "fits data" "it_data it = data" "b_invert it = iv" "name_ok (tb_name t)" "tb_pk t \<noteq> []"
    and d: "drop (it_pos it) data = render_header ch_T (tb_pk t) (tb_name t) @ rest"
  shows "\<exists>it'. in_table data iv t it' \<and> drop (it_pos it') data = rest
    \<and> (\<forall>s. iter_while body s it = iter_while body s it')"
proof -
  let ?vi = "put_varint (word_of_nat (length (tb_pk t)))"
  have d0: "drop (it_pos it) data = ch_T # ?vi @ tb_pk t @ tb_name t @ 0 # rest"
    using d by (simp add: render_header_def)
  have p: "it_pos it < length data" "data ! it_pos it = ch_T"
    and d1: "drop (Suc (it_pos it)) data = ?vi @ tb_pk t @ tb_name t @ 0 # rest"
    using drop_eq_Cons_nth [OF d0] by simp_all
  define it0 where "it0 = it\<lparr>it_old := [], it_new := [], it_raw := [], it_pos := Suc (it_pos it), b_patchset := False\<rparr>"
  define q where "q = Suc (it_pos it) + length ?vi + length (tb_pk t) + length (tb_name t) + 1"
  define it' where "it' = it0\<lparr>it_ab_pk := tb_pk t, z_tab := tb_name t, it_n_col := length (tb_pk t), it_pos := q\<rparr>"
  have r: "read_tblhdr it0 = Ok it'"
    using read_tblhdr_render [of it0 "tb_name t" "tb_pk t" rest] assms(1,2,4,5) d1
    by (simp add: it0_def it'_def q_def)
  have dq: "drop q data = rest"
    using arg_cong [OF d1, of "drop (length ?vi + length (tb_pk t) + length (tb_name t) + 1)"]
    by (simp add: q_def ac_simps)
  have hl: "header_loop (it\<lparr>it_old := [], it_new := [], it_raw := [], it_pos := Suc (it_pos it)\<rparr>) ch_T =
      (if length data \<le> q then Ok (None, it') else header_loop (it'\<lparr>it_pos := Suc q\<rparr>) (data ! q))"
    using r assms(2) by (subst header_loop.simps) (simp add: it0_def it'_def)
  have same: "it'\<lparr>it_old := [], it_new := [], it_raw := []\<rparr> = it'" by (cases it) (simp add: it'_def it0_def)
  have data_q: "it_data it' = data" "it_pos it' = q" using assms(2) by (simp_all add: it'_def it0_def)
  have nx: "iter_next it = (if length data \<le> q then Ok (False, it') else iter_next it')"
    using p hl assms(2) same by (simp add: iter_next_def Let_def data_q)
  have "length data \<le> q \<Longrightarrow> iter_next it' = Ok (False, it')"
    using assms(2) by (simp add: iter_next_def Let_def it'_def it0_def)
  with nx have "iter_next it = iter_next it'" by simp
  then have "iter_while body s it = iter_while body s it'" for s
    by (simp add: iter_while.simps [of body s])
  moreover have "in_table data iv t it'" using assms(2,3) by (simp add: in_table_def it'_def it0_def)
  ultimately show ?thesis using dq by (intro exI [of _ it']) (simp add: it'_def)
qed

lemma iter_while_tables:
  assumes "fits data"
  shows "it_data it = data \<Longrightarrow> b_invert it = iv \<Longrightarrow> list_all table_ok ts \<Longrightarrow> drop (it_pos it) data = render ts \<Longrightarrow>
    iter_while body s it = fold_outcome body s (events iv ts)"
proof (induction ts arbitrary: it s)
  case Nil
  then show ?case by (simp add: iter_while.simps [of body s] iter_next_def Let_def render_def events_def)
next
  case (Cons t ts)
  have ok: "table_ok t" "list_all table_ok ts" using Cons.prems(3) by simp_all
  then have ok': "name_ok (tb_name t)" "tb_pk t \<noteq> []" "list_all (change_ok (length (tb_pk t))) (tb_changes t)"
    by (simp_all add: table_ok_def)
  have "drop (it_pos it) data = render_header ch_T (tb_pk t) (tb_name t)
      @ concat (map render_change (tb_changes t)) @ render ts"
    using Cons.prems(4) by (simp add: render_def render_table_def)
  from iter_while_header [OF assms Cons.prems(1,2) ok'(1,2) this, of body]
  obtain it1 where i1: "in_table data iv t it1"
      "drop (it_pos it1) data = concat (map render_change (tb_changes t)) @ render ts"
      "\<forall>s. iter_while body s it = iter_while body s it1" by blast
  from iter_while_changes [OF assms ok(1) i1(1) ok'(3) i1(2), of body]
  obtain it2 where i2: "in_table data iv t it2" "drop (it_pos it2) data = render ts"
      "\<forall>s. iter_while body s it1 = bind_outcome (fold_outcome body s (map (event_for iv t) (tb_changes t)))
         (\<lambda>s'. iter_while body s' it2)" by blast
  have "iter_while body s' it2 = fold_outcome body s' (events iv ts)" for s'
    using Cons.IH [of it2 s'] i2(1,2) ok(2) by (simp add: in_table_def)
  with i1(3) i2(3) show ?case by (simp add: events_def fold_outcome_append)
qed

definition wf_changeset :: "cs_table list \<Rightarrow> bool" where
  "wf_changeset ts \<longleftrightarrow> list_all table_ok ts \<and> fits (render ts)"

lemma iter_while_render:
  assumes "wf_changeset ts"
  shows "iter_while body s (start_data (render ts) flags)
    = fold_outcome body s (events (flags AND CHANGESETSTART_INVERT \<noteq> 0) ts)"
  using assms by (intro iter_while_tables) (simp_all add: wf_changeset_def start_data_def)

subsection \<open>Properties\<close>


definition defined_field :: "sess_val option list \<Rightarrow> nat \<Rightarrow> sess_val option" where
  "defined_field fs i = (if i < length fs \<and> fs ! i \<noteq> Some Undef then fs ! i else None)"


definition record_field :: "sess_val list \<Rightarrow> nat \<Rightarrow> sess_val option" where
  "record_field vs i = (if i < length vs \<and> vs ! i \<noteq> Undef then Some (vs ! i) else None)"




lemma defined_field_map [simp]: "defined_field (map Some vs) = record_field vs" "defined_field [] = (\<lambda>i. None)"
  by (auto simp: defined_field_def record_field_def fun_eq_iff)




definition sample_table :: cs_table where
  "sample_table = \<lparr>tb_name = [0x74], tb_pk = [1, 0], tb_changes = [Ins False [SInt 1, SNull], Upd True [SInt 2, SNull] [Undef, SInt 3]]\<rparr>"

lemma sample_table_wf: "wf_changeset [sample_table]"
proof -
  have "utf8_valid [0x74]" by (simp add: from_utf8_def utf8_scan.simps)
  moreover have "length (render [sample_table]) < 2 ^ 63"
    by (simp add: render_def render_table_def render_header_def sample_table_def render_change_def put_varint_def put_i64_def)
  ultimately show ?thesis
    by (simp add: wf_changeset_def fits_def table_ok_def name_ok_def sample_table_def)
qed


text \<open>
  C26: whatever the bytes, a step of the iterator that reports a change has moved forward inside
  the buffer, so a loop over any input, corrupt or not, ends.
\<close>

theorem iteration_progress:
  assumes "iter_next it = Ok (True, it')"
  shows "it_pos it < it_pos it' \<and> it_pos it' \<le> length (it_data it) \<and> it_data it' = it_data it"
  using iter_next_advances [OF assms] by simp

theorem iteration_progress_witness:
  "\<exists>it'. iter_next (start_data (render [sample_table]) 0) = Ok (True, it') \<and> 0 < it_pos it'"
proof -
  have "\<exists>it'. iter_next (start_data (render [sample_table]) 0) = Ok (True, it')"
  proof (rule ccontr)
    assume n: "\<nexists>it'. iter_next (start_data (render [sample_table]) 0) = Ok (True, it')"
    then have "iter_while (\<lambda>n e. Ok (Suc n)) 0 (start_data (render [sample_table]) 0) \<noteq> Ok 2"
      by (subst iter_while.simps) (auto simp: bind_outcome_eq_Ok)
    then show False
      using iter_while_render [OF sample_table_wf, of "\<lambda>n e. Ok (Suc n)" 0 0]
      by (simp add: events_def sample_table_def)
  qed
  then obtain it' where n: "iter_next (start_data (render [sample_table]) 0) = Ok (True, it')" ..
  from iteration_progress [OF this] n show ?thesis by (auto simp: start_data_def)
qed

end
