(* ===== verification/Change_Spec.thy ===== *)
theory Change_Spec
  imports Session_Iter
begin

text \<open>
  The abstract meaning of a change. A row of a table is absent or present; a change is a
  partial function on that state, undefined where the engine would report a conflict. The
  transforms of the session extension (inversion, concatenation, rebasing) are proved
  against it.
\<close>

type_synonym row = "sess_val list"

definition matches :: "sess_val list \<Rightarrow> row \<Rightarrow> bool" where
  "matches pat r \<longleftrightarrow> list_all2 (\<lambda>p v. p = Undef \<or> p = v) pat r"

definition overlay :: "sess_val list \<Rightarrow> row \<Rightarrow> row" where
  "overlay pat r = map2 (\<lambda>p v. if p = Undef then v else p) pat r"

fun act :: "change \<Rightarrow> row option \<Rightarrow> row option option" where
  "act (Ins _ vs) None = Some (Some vs)"
| "act (Ins _ vs) (Some r) = None"
| "act (Del _ vs) (Some r) = (if r = vs then Some None else None)"
| "act (Del _ vs) None = None"
| "act (Upd _ ov nv) (Some r) = (if matches ov r then Some (Some (overlay nv r)) else None)"
| "act (Upd _ ov nv) None = None"

text \<open>
  The shape of the changes a session captures: a row record has every field, an update has
  its key in \<open>old\<close> only and any other column in both halves or in neither.
\<close>

definition upd_shape :: "bytes \<Rightarrow> sess_val list \<Rightarrow> sess_val list \<Rightarrow> bool" where
  "upd_shape pk ov nv \<longleftrightarrow> length ov = length pk \<and> length nv = length pk
     \<and> list_all (\<lambda>(p, o', n). if p \<noteq> 0 then o' \<noteq> Undef \<and> n = Undef else (o' = Undef) = (n = Undef)) (zip pk (zip ov nv))"

fun change_shape :: "bytes \<Rightarrow> change \<Rightarrow> bool" where
  "change_shape pk (Ins _ vs) = (length vs = length pk \<and> Undef \<notin> set vs)"
| "change_shape pk (Del _ vs) = (length vs = length pk \<and> Undef \<notin> set vs)"
| "change_shape pk (Upd _ ov nv) = upd_shape pk ov nv"

text \<open>Pointwise reading of the list operations.\<close>

lemma matches_nth: "matches pat r \<longleftrightarrow> length pat = length r \<and> (\<forall>i < length r. pat ! i = Undef \<or> pat ! i = r ! i)"
  by (auto simp: matches_def list_all2_conv_all_nth)

lemma length_overlay [simp]: "length (overlay pat r) = min (length pat) (length r)"
  by (simp add: overlay_def)

lemma overlay_nth [simp]:
  "i < length pat \<Longrightarrow> i < length r \<Longrightarrow> overlay pat r ! i = (if pat ! i = Undef then r ! i else pat ! i)"
  by (simp add: overlay_def)

lemma upd_shape_nth:
  "upd_shape pk ov nv \<longleftrightarrow> length ov = length pk \<and> length nv = length pk
     \<and> (\<forall>i < length pk. if pk ! i \<noteq> 0 then ov ! i \<noteq> Undef \<and> nv ! i = Undef else (ov ! i = Undef) = (nv ! i = Undef))"
  by (auto simp: upd_shape_def list_all_length split: if_splits)

subsection \<open>Changesets on a database\<close>

text \<open>
  A row is located by its table, whose name is compared without case, and its key; a database maps locations to rows. A changeset
  is applied change by change and fails at the first conflict.
\<close>

type_synonym loc = "bytes \<times> sess_val list"
type_synonym db = "loc \<Rightarrow> row option"

definition key_of :: "bytes \<Rightarrow> sess_val list \<Rightarrow> sess_val list" where
  "key_of pk vs = map snd (filter (\<lambda>(p, v). p \<noteq> 0) (zip pk vs))"

fun change_rec :: "change \<Rightarrow> sess_val list" where
  "change_rec (Ins _ vs) = vs"
| "change_rec (Del _ vs) = vs"
| "change_rec (Upd _ ov nv) = ov"

definition located :: "cs_table list \<Rightarrow> (loc \<times> change) list" where
  "located ts = concat (map (\<lambda>t. map (\<lambda>c. ((map ascii_lower (tb_name t), key_of (tb_pk t) (change_rec c)), c)) (tb_changes t)) ts)"

fun apply_changes :: "(loc \<times> change) list \<Rightarrow> db \<Rightarrow> db option" where
  "apply_changes [] d = Some d"
| "apply_changes ((l, c) # cs) d = (case act c (d l) of None \<Rightarrow> None | Some s \<Rightarrow> apply_changes cs (d(l := s)))"

lemma apply_changes_append:
  "apply_changes (xs @ ys) d = (case apply_changes xs d of None \<Rightarrow> None | Some d' \<Rightarrow> apply_changes ys d')"
  by (induction xs arbitrary: d) (auto split: option.splits)

text \<open>With one change per row, applying a changeset is applying each change to its own row.\<close>

lemma apply_changes_distinct:
  "distinct (map fst cs) \<Longrightarrow>
   apply_changes cs d = Some d' \<longleftrightarrow>
     (\<forall>(l, c) \<in> set cs. act c (d l) = Some (d' l)) \<and> (\<forall>l. l \<notin> fst ` set cs \<longrightarrow> d' l = d l)"
proof (induction cs arbitrary: d)
  case Nil
  then show ?case by auto
next
  case (Cons x cs)
  obtain l c where x: "x = (l, c)" by fastforce
  show ?case
  proof (cases "act c (d l)")
    case None
    with x show ?thesis by auto
  next
    case (Some s)
    have ne: "l' \<noteq> l" if "(l', c') \<in> set cs" for l' c' using Cons.prems x that by force
    have A: "(\<forall>(l', c') \<in> set cs. act c' ((d(l := s)) l') = Some (d' l'))
        \<longleftrightarrow> (\<forall>(l', c') \<in> set cs. act c' (d l') = Some (d' l'))"
      using ne by (intro ball_cong) auto
    have "l \<notin> fst ` set cs" using Cons.prems x by simp
    then have B: "(\<forall>l'. l' \<notin> fst ` set cs \<longrightarrow> d' l' = (d(l := s)) l')
        \<longleftrightarrow> d' l = s \<and> (\<forall>l'. l' \<notin> fst ` set (x # cs) \<longrightarrow> d' l' = d l')"
      unfolding x by (auto simp: fun_upd_apply simp del: split_paired_All)
    have "apply_changes (x # cs) d = apply_changes cs (d(l := s))" using x Some by simp
    also have "\<dots> = Some d' \<longleftrightarrow> (\<forall>(l', c') \<in> set cs. act c' (d l') = Some (d' l')) \<and> d' l = s
        \<and> (\<forall>l'. l' \<notin> fst ` set (x # cs) \<longrightarrow> d' l' = d l')"
      using Cons.IH [of "d(l := s)"] Cons.prems unfolding A B by (simp add: fun_upd_def)
    finally show ?thesis using x Some by (auto simp del: split_paired_All)
  qed
qed

end
