(* ===== verification/Session_Invert.thy ===== *)
theory Session_Invert
  imports Change_Spec
begin

text \<open>
  \<^verbatim>\<open>src/session/transform.rs\<close>: \<^verbatim>\<open>invert\<close>, the buffer transform that turns a changeset into the
  one that undoes it. The \<^verbatim>\<open>while\<close> loop is \<open>invert_loop\<close>; \<open>fits cs\<close> in its guard holds of
  every Rust slice and only bounds the lists of the model.
\<close>

subsection \<open>The code\<close>

fun skip_checked :: "bytes \<Rightarrow> nat \<Rightarrow> nat \<Rightarrow> nat outcome" where
  "skip_checked cs pos 0 = Ok pos"
| "skip_checked cs pos (Suc n) =
     bind_outcome (serial_len cs pos) (\<lambda>l.
       if length cs < usize_add pos l then Err corrupt else skip_checked cs (usize_add pos l) n)"

definition pk_at :: "bool list \<Rightarrow> nat \<Rightarrow> bool" where
  "pk_at ab_pk i = (i < length ab_pk \<and> ab_pk ! i)"

definition invert_header :: "bytes \<Rightarrow> nat \<Rightarrow> (bool list \<times> bytes \<times> nat) outcome" where
  "invert_header cs pos0 =
     (let pos = pos0 + 1; (n, used) = get_varint cs pos; nc = unat n; fin = usize_add (pos + used) nc in
      if nc = 0 \<or> length cs < fin then Err corrupt
      else bind_outcome (slice cs (pos + used) fin) (\<lambda>pks.
        bind_outcome (ok_or (position (\<lambda>b. b = 0) (drop fin cs)) corrupt) (\<lambda>name_end.
          let hdr_end = fin + name_end + 1 in
          bind_outcome (slice cs (pos - 1) hdr_end) (\<lambda>hdr. Ok (map (\<lambda>p. p \<noteq> 0) pks, hdr, hdr_end)))))"

definition invert_row :: "bytes \<Rightarrow> nat \<Rightarrow> nat \<Rightarrow> byte \<Rightarrow> (bytes \<times> nat) outcome" where
  "invert_row cs pos n_col e =
     bind_outcome (index_at cs (pos + 1)) (\<lambda>indirect.
       bind_outcome (skip_checked cs (pos + 2) n_col) (\<lambda>pos'.
         bind_outcome (slice cs (pos + 2) pos') (\<lambda>rec.
           Ok ((if e = OP_INSERT then OP_DELETE else OP_INSERT) # indirect # rec, pos'))))"

fun invert_old :: "bytes \<Rightarrow> nat \<Rightarrow> bool list \<Rightarrow> sess_val list \<Rightarrow> nat \<Rightarrow> sess_val list \<Rightarrow> bytes outcome" where
  "invert_old cs old_start ab_pk nf i [] = Ok []"
| "invert_old cs old_start ab_pk nf i (f # fs) =
     bind_outcome
       (if pk_at ab_pk i then bind_outcome (serial_len cs old_start) (\<lambda>_. Ok (append_field f))
        else bind_outcome (index_at nf i) (\<lambda>g. Ok (append_field g)))
       (\<lambda>b. bind_outcome (invert_old cs old_start ab_pk nf (i + 1) fs) (\<lambda>bs. Ok (b @ bs)))"

fun invert_new :: "bool list \<Rightarrow> nat \<Rightarrow> sess_val list \<Rightarrow> bytes" where
  "invert_new ab_pk i [] = []"
| "invert_new ab_pk i (f # fs) = (if pk_at ab_pk i then [TYPE_UNDEF] else append_field f) @ invert_new ab_pk (i + 1) fs"

definition invert_update :: "bytes \<Rightarrow> nat \<Rightarrow> nat \<Rightarrow> bool list \<Rightarrow> (bytes \<times> nat) outcome" where
  "invert_update cs pos n_col ab_pk =
     bind_outcome (index_at cs (pos + 1)) (\<lambda>indirect.
       bind_outcome (parse_record cs (pos + 2) n_col) (\<lambda>(ofs, old_len).
         let new_start = usize_add (pos + 2) old_len in
         bind_outcome (parse_record cs new_start n_col) (\<lambda>(nfs, new_len).
           bind_outcome (invert_old cs (pos + 2) ab_pk nfs 0 ofs) (\<lambda>ob.
             Ok (OP_UPDATE # indirect # ob @ invert_new ab_pk 0 ofs, usize_add new_start new_len)))))"

text \<open>A successful field or record lies inside the buffer, so every round of the loop advances.\<close>

lemma parse_value_within:
  assumes "parse_value a pos = Ok (v, l)" "fits a"
  shows "0 < l \<and> pos + l \<le> length a"
proof -
  have pl: "pos < length a" using assms(1) by (auto simp: parse_value_def split: if_splits)
  obtain n hdr where g: "get_varint a (pos + 1) = (n, hdr)" by (metis surj_pair)
  have body: "0 < l \<and> pos + l \<le> length a"
    if "parse_body a pos mk = Ok v" "l = usize_add (hdr + 1) (unat n)" for mk
  proof -
    define st where "st = pos + 1 + hdr"
    have sl: "st \<le> usize_add st (unat n)" "usize_add st (unat n) \<le> length a"
      using that(1) g by (auto simp: parse_body_def Let_def bind_outcome_eq_Ok slice_eq_Ok st_def split: if_splits)
    have "usize_add st (unat n) = st + unat n"
      by (rule usize_add_no_wrap [OF sl(1)]) (rule u64_bound)
    then have "l = hdr + 1 + unat n" "st + unat n \<le> length a"
      using that(2) sl(2) assms(2) by (auto simp: st_def fits_def)
    then show ?thesis by (simp add: st_def)
  qed
  have small: "0 < l \<and> pos + l \<le> length a"
    if "length a \<ge> usize_add pos l" "l = 1 \<or> l = 9"
    using that pl assms(2) by (auto simp: fits_def)
  show ?thesis
    using assms(1) pl g body small
    by (auto simp: parse_value_def serial_len_def Let_def bind_outcome_eq_Ok index_at_def split: if_splits)
qed

lemma parse_record_loop_within:
  "parse_record_loop a p n = Ok (vs, q) \<Longrightarrow> fits a \<Longrightarrow> p \<le> length a \<Longrightarrow> p \<le> q \<and> q \<le> length a"
proof (induction n arbitrary: p vs)
  case (Suc n)
  then obtain v l vs' where v: "parse_value a p = Ok (v, l)"
      and r: "parse_record_loop a (usize_add p l) n = Ok (vs', q)"
    by (auto simp: bind_outcome_eq_Ok)
  note w = parse_value_within [OF v Suc.prems(2)]
  then have "usize_add p l = p + l" using Suc.prems(2) by (simp add: fits_def)
  with Suc.IH [OF _ Suc.prems(2)] r w show ?case by fastforce
qed simp

lemma parse_record_within:
  "parse_record a p n = Ok (vs, k) \<Longrightarrow> fits a \<Longrightarrow> p \<le> length a \<Longrightarrow> p + k \<le> length a \<and> usize_add p k = p + k"
  by (auto simp: parse_record_def bind_outcome_eq_Ok fits_def dest!: parse_record_loop_within)

lemma invert_update_advances:
  assumes "invert_update cs pos n_col ab_pk = Ok (b, pos')" "fits cs"
  shows "pos < pos' \<and> pos' \<le> length cs"
proof -
  obtain ofs k nfs m where i: "pos + 1 < length cs"
    and o: "parse_record cs (pos + 2) n_col = Ok (ofs, k)"
    and n: "parse_record cs (usize_add (pos + 2) k) n_col = Ok (nfs, m)"
    and e: "pos' = usize_add (usize_add (pos + 2) k) m"
    using assms(1)
    by (auto simp: invert_update_def Let_def bind_outcome_eq_Ok index_at_eq_Ok)
  have ok: "pos + 2 + k \<le> length cs \<and> usize_add (pos + 2) k = pos + 2 + k"
    using parse_record_within [OF o assms(2)] i by simp
  with parse_record_within [OF n assms(2)] e show ?thesis by simp
qed

lemma invert_row_advances:
  "invert_row cs pos n_col e = Ok (b, pos') \<Longrightarrow> pos < pos' \<and> pos' \<le> length cs"
  by (auto simp: invert_row_def bind_outcome_eq_Ok slice_eq_Ok)

lemma invert_header_advances:
  "invert_header cs pos = Ok (ab_pk, b, pos') \<Longrightarrow> pos < pos' \<and> pos' \<le> length cs"
  by (auto simp: invert_header_def Let_def bind_outcome_eq_Ok slice_eq_Ok split: if_splits prod.splits)

function invert_loop :: "bytes \<Rightarrow> nat \<Rightarrow> nat \<Rightarrow> bool list \<Rightarrow> bytes \<Rightarrow> bytes outcome" where
  "invert_loop cs pos n_col ab_pk out =
     (if pos < length cs \<and> fits cs
      then let e = cs ! pos in
        if e = ch_T \<or> e = ch_P
        then if e = ch_P then Err corrupt
             else bind_outcome (invert_header cs pos) (\<lambda>(pks, hdr, pos').
                    invert_loop cs pos' (length pks) pks (out @ hdr))
        else if e = OP_INSERT \<or> e = OP_DELETE
        then bind_outcome (invert_row cs pos n_col e) (\<lambda>(b, pos'). invert_loop cs pos' n_col ab_pk (out @ b))
        else if e = OP_UPDATE
        then bind_outcome (invert_update cs pos n_col ab_pk) (\<lambda>(b, pos'). invert_loop cs pos' n_col ab_pk (out @ b))
        else Err corrupt
      else Ok out)"
  by pat_completeness auto
termination
  by (relation "measure (\<lambda>(cs, pos, n_col, ab_pk, out). length cs - pos)")
    (auto dest: invert_update_advances invert_row_advances invert_header_advances)

declare invert_loop.simps [simp del]

definition invert :: "bytes \<Rightarrow> bytes outcome" where
  "invert cs = invert_loop cs 0 0 [] []"

subsection \<open>The inverse of a change\<close>

definition inverse_old :: "bytes \<Rightarrow> sess_val list \<Rightarrow> sess_val list \<Rightarrow> sess_val list" where
  "inverse_old pk ov nv = map (\<lambda>(p, o', n). if p \<noteq> 0 then o' else n) (zip pk (zip ov nv))"

definition inverse_new :: "bytes \<Rightarrow> sess_val list \<Rightarrow> sess_val list" where
  "inverse_new pk ov = map2 (\<lambda>p o'. if p \<noteq> 0 then Undef else o') pk ov"

fun inverse_change :: "bytes \<Rightarrow> change \<Rightarrow> change" where
  "inverse_change pk (Ins i vs) = Del i vs"
| "inverse_change pk (Del i vs) = Ins i vs"
| "inverse_change pk (Upd i ov nv) = Upd i (inverse_old pk ov nv) (inverse_new pk ov)"

definition inverse_table :: "cs_table \<Rightarrow> cs_table" where
  "inverse_table t = t\<lparr>tb_changes := map (inverse_change (tb_pk t)) (tb_changes t)\<rparr>"

lemma inverse_nth:
  "i < length pk \<Longrightarrow> length ov = length pk \<Longrightarrow> length nv = length pk \<Longrightarrow>
     inverse_old pk ov nv ! i = (if pk ! i \<noteq> 0 then ov ! i else nv ! i)"
  "i < length pk \<Longrightarrow> length ov = length pk \<Longrightarrow> inverse_new pk ov ! i = (if pk ! i \<noteq> 0 then Undef else ov ! i)"
  "length ov = length pk \<Longrightarrow> length nv = length pk \<Longrightarrow> length (inverse_old pk ov nv) = length pk"
  "length ov = length pk \<Longrightarrow> length (inverse_new pk ov) = length pk"
  by (simp_all add: inverse_old_def inverse_new_def)

lemma inverse_change_shape: "change_shape pk c \<Longrightarrow> change_shape pk (inverse_change pk c)"
  by (cases c) (auto simp: upd_shape_nth inverse_nth)

lemma inverse_change_involutive:
  "change_shape pk c \<Longrightarrow> inverse_change pk (inverse_change pk c) = c"
  by (cases c) (auto simp: upd_shape_nth inverse_nth intro!: nth_equalityI split: if_splits)

lemma inverse_change_undoes:
  assumes "change_shape pk c" "act c s = Some s'"
  shows "act (inverse_change pk c) s' = Some s"
proof (cases c)
  case (Upd i ov nv)
  with assms(2) obtain r where r: "s = Some r" "matches ov r" "s' = Some (overlay nv r)"
    by (cases s) (auto split: if_splits)
  then have len: "length ov = length pk" "length nv = length pk" "length r = length pk"
    and sh: "\<And>i. i < length pk \<Longrightarrow> if pk ! i \<noteq> 0 then ov ! i \<noteq> Undef \<and> nv ! i = Undef
        else (ov ! i = Undef) = (nv ! i = Undef)"
    and m: "\<And>i. i < length pk \<Longrightarrow> ov ! i = Undef \<or> ov ! i = r ! i"
    using assms(1) Upd by (auto simp: upd_shape_nth matches_nth)
  have "matches (inverse_old pk ov nv) (overlay nv r)"
    using len sh m by (fastforce simp: matches_nth inverse_nth split: if_splits)
  moreover have "overlay (inverse_new pk ov) (overlay nv r) = r"
    using len sh m by (intro nth_equalityI) (fastforce simp: inverse_nth split: if_splits)+
  ultimately show ?thesis using Upd r by simp
next
  case (Ins i vs)
  then show ?thesis using assms(2) by (cases s) auto
next
  case (Del i vs)
  then show ?thesis using assms(2) by (cases s) (auto split: if_splits)
qed

subsection \<open>The code computes it\<close>

lemma skip_checked_fields:
  "fits a \<Longrightarrow> list_all sess_val_ok vs \<Longrightarrow> drop pos a = field_bytes vs @ rest \<Longrightarrow>
   skip_checked a pos (length vs) = Ok (pos + length (field_bytes vs))"
proof (induction vs arbitrary: pos)
  case (Cons v vs)
  have d: "drop pos a = append_field v @ field_bytes vs @ rest" using Cons.prems(3) by simp
  note p = drop_append_field_pos [OF d]
  have "drop (pos + length (append_field v)) a = field_bytes vs @ rest" by (rule drop_add_append [OF d])
  moreover have "serial_len a pos = Ok (length (append_field v))"
    using serial_len_field [OF Cons.prems(1) _ d] Cons.prems(2) by simp
  moreover have "usize_add pos (length (append_field v)) = pos + length (append_field v)"
    using p Cons.prems(1) by (simp add: fits_def)
  ultimately show ?case using Cons p by simp
qed simp

lemma invert_new_fields:
  "k + length ov = length pk \<Longrightarrow>
   invert_new (map (\<lambda>p. p \<noteq> 0) pk) k ov = field_bytes (inverse_new (drop k pk) ov)"
proof (induction ov arbitrary: k)
  case (Cons v ov)
  then have "drop k pk = pk ! k # drop (Suc k) pk" by (simp add: Cons_nth_drop_Suc)
  with Cons show ?case by (simp add: inverse_new_def pk_at_def)
qed (simp add: inverse_new_def)

lemma invert_old_fields:
  assumes "\<exists>l. serial_len cs st = Ok l" and "length nv = length pk"
  shows "k + length ov = length pk \<Longrightarrow>
   invert_old cs st (map (\<lambda>p. p \<noteq> 0) pk) nv k ov = Ok (field_bytes (inverse_old (drop k pk) ov (drop k nv)))"
proof (induction ov arbitrary: k)
  case (Cons v ov)
  then have "drop k pk = pk ! k # drop (Suc k) pk" "drop k nv = nv ! k # drop (Suc k) nv"
    using assms(2) by (simp_all add: Cons_nth_drop_Suc)
  with Cons show ?case
    using assms by (auto simp: inverse_old_def pk_at_def index_at_def)
qed (simp add: inverse_old_def)

lemma invert_row_render:
  assumes "fits cs" "list_all sess_val_ok vs" "drop pos cs = e # ib # field_bytes vs @ rest"
  shows "invert_row cs pos (length vs) e =
    Ok ((if e = OP_INSERT then OP_DELETE else OP_INSERT) # ib # field_bytes vs, pos + 2 + length (field_bytes vs))"
proof -
  note d1 = drop_eq_Cons_nth [OF assms(3)]
  note d2 = drop_eq_Cons_nth [OF d1 [THEN conjunct2, THEN conjunct2]]
  have d3: "drop (pos + 2) cs = field_bytes vs @ rest" using d2 by simp
  have "skip_checked cs (pos + 2) (length vs) = Ok (pos + 2 + length (field_bytes vs))"
    by (rule skip_checked_fields [OF assms(1,2) d3])
  moreover have "pos + 2 + length (field_bytes vs) \<le> length cs"
    using drop_eq_append_length [OF d3] d2 by (cases "field_bytes vs = []") auto
  ultimately show ?thesis
    using d2 d3 by (simp add: invert_row_def index_at_def slice_def)
qed

lemma invert_update_render:
  assumes "fits cs" "list_all sess_val_ok ov" "list_all sess_val_ok nv" "pk \<noteq> []"
    and len: "length ov = length pk" "length nv = length pk"
    and d: "drop pos cs = e # ib # field_bytes ov @ field_bytes nv @ rest"
  shows "invert_update cs pos (length pk) (map (\<lambda>p. p \<noteq> 0) pk) =
    Ok (OP_UPDATE # ib # field_bytes (inverse_old pk ov nv) @ field_bytes (inverse_new pk ov),
        pos + 2 + length (field_bytes ov) + length (field_bytes nv))"
proof -
  note d1 = drop_eq_Cons_nth [OF d]
  note d2 = drop_eq_Cons_nth [OF d1 [THEN conjunct2, THEN conjunct2]]
  have d3: "drop (pos + 2) cs = field_bytes ov @ field_bytes nv @ rest" using d2 by simp
  have d4: "drop (pos + 2 + length (field_bytes ov)) cs = field_bytes nv @ rest"
    by (rule drop_add_append [OF d3])
  have p3: "pos + 2 + length (field_bytes ov) \<le> length cs"
    using drop_eq_append_length [OF d3] d2 by (cases "field_bytes ov = []") auto
  have p4: "pos + 2 + length (field_bytes ov) + length (field_bytes nv) \<le> length cs"
    using drop_eq_append_length [OF d4] p3 by (cases "field_bytes nv = []") auto
  have r: "parse_record cs (pos + 2) (length pk) = Ok (ov, length (field_bytes ov))"
    using parse_record_fields [OF assms(1,2) d3] p3 len by simp
  have s: "parse_record cs (pos + 2 + length (field_bytes ov)) (length pk) = Ok (nv, length (field_bytes nv))"
    using parse_record_fields [OF assms(1,3) d4] p3 len by simp
  have u: "usize_add (pos + 2) (length (field_bytes ov)) = pos + 2 + length (field_bytes ov)"
    "usize_add (pos + 2 + length (field_bytes ov)) (length (field_bytes nv))
      = pos + 2 + length (field_bytes ov) + length (field_bytes nv)"
    using p4 assms(1) by (simp_all add: fits_def)
  obtain v ov' where ov: "ov = v # ov'" using assms(4) len by (cases ov) auto
  have "serial_len cs (pos + 2) = Ok (length (append_field v))"
    using serial_len_field [OF assms(1), of v "pos + 2"] d3 assms(2) ov by simp
  then have "invert_old cs (pos + 2) (map (\<lambda>p. p \<noteq> 0) pk) nv 0 ov = Ok (field_bytes (inverse_old pk ov nv))"
    using invert_old_fields [of cs "pos + 2" nv pk 0 ov] len by simp
  moreover have "invert_new (map (\<lambda>p. p \<noteq> 0) pk) 0 ov = field_bytes (inverse_new pk ov)"
    using invert_new_fields [of 0 ov pk] len by simp
  moreover have "index_at cs (pos + 1) = Ok ib" using d2 by (simp add: index_at_def)
  ultimately show ?thesis
    using r s u by (simp only: invert_update_def bind_outcome.simps Let_def prod.case append.simps)
qed

lemma invert_loop_change:
  assumes "fits cs" "change_ok (length pk) c" "pk \<noteq> []" "drop pos cs = render_change c @ rest"
  shows "invert_loop cs pos (length pk) (map (\<lambda>p. p \<noteq> 0) pk) out =
    invert_loop cs (pos + length (render_change c)) (length pk) (map (\<lambda>p. p \<noteq> 0) pk)
      (out @ render_change (inverse_change pk c))"
proof -
  have d: "drop pos cs = change_op c # ind_byte (change_ind c) # change_raw c @ rest"
    using assms(4) by (simp add: render_change_def)
  note p = drop_eq_Cons_nth [OF d]
  have row: "invert_loop cs pos (length pk) (map (\<lambda>p. p \<noteq> 0) pk) out =
      invert_loop cs pos' (length pk) (map (\<lambda>p. p \<noteq> 0) pk) (out @ b)"
    if "change_op c = OP_INSERT \<or> change_op c = OP_DELETE"
      "invert_row cs pos (length pk) (change_op c) = Ok (b, pos')" for b pos'
    using p that assms(1) by (subst invert_loop.simps) (auto simp: op_defs)
  have upd: "invert_loop cs pos (length pk) (map (\<lambda>p. p \<noteq> 0) pk) out =
      invert_loop cs pos' (length pk) (map (\<lambda>p. p \<noteq> 0) pk) (out @ b)"
    if "change_op c = OP_UPDATE"
      "invert_update cs pos (length pk) (map (\<lambda>p. p \<noteq> 0) pk) = Ok (b, pos')" for b pos'
    using p that assms(1) by (subst invert_loop.simps) (auto simp: op_defs)
  show ?thesis
  proof (cases c)
    case (Ins i vs)
    with row invert_row_render [OF assms(1) _ d [unfolded Ins, simplified]] assms(2) show ?thesis
      by (simp add: render_change_def)
  next
    case (Del i vs)
    with row invert_row_render [OF assms(1) _ d [unfolded Del, simplified]] assms(2) show ?thesis
      by (simp add: render_change_def op_defs)
  next
    case (Upd i ov nv)
    with upd invert_update_render [OF assms(1) _ _ assms(3) _ _ d [unfolded Upd, simplified]] assms(2) show ?thesis
      by (simp add: render_change_def add.assoc)
  qed
qed

lemma invert_loop_changes:
  assumes "fits cs" "pk \<noteq> []"
  shows "list_all (change_ok (length pk)) chs \<Longrightarrow> drop pos cs = concat (map render_change chs) @ rest \<Longrightarrow>
    invert_loop cs pos (length pk) (map (\<lambda>p. p \<noteq> 0) pk) out =
    invert_loop cs (pos + length (concat (map render_change chs))) (length pk) (map (\<lambda>p. p \<noteq> 0) pk)
      (out @ concat (map (\<lambda>c. render_change (inverse_change pk c)) chs))"
proof (induction chs arbitrary: pos out)
  case (Cons c chs)
  have d: "drop pos cs = render_change c @ concat (map render_change chs) @ rest" using Cons.prems(2) by simp
  show ?case
    using invert_loop_change [OF assms(1) _ assms(2) d] Cons.IH [of "pos + length (render_change c)"]
      drop_add_append [OF d] Cons.prems(1) by (simp add: add.assoc)
qed simp

lemma invert_header_render:
  assumes "fits cs" "0 \<notin> set nm" "pk \<noteq> []" "drop pos cs = render_header ch_T pk nm @ rest"
  shows "invert_header cs pos =
    Ok (map (\<lambda>p. p \<noteq> 0) pk, render_header ch_T pk nm, pos + length (render_header ch_T pk nm))"
proof -
  let ?vi = "put_varint (word_of_nat (length pk))"
  have d0: "drop pos cs = ch_T # ?vi @ pk @ nm @ 0 # rest" using assms(4) by (simp add: render_header_def)
  note p = drop_eq_Cons_nth [OF d0]
  have d1: "drop (pos + 1) cs = ?vi @ pk @ nm @ 0 # rest" using p by simp
  have d2: "drop (pos + 1 + length ?vi) cs = pk @ nm @ 0 # rest" by (rule drop_add_append [OF d1])
  have d3: "drop (pos + 1 + length ?vi + length pk) cs = nm @ 0 # rest" by (rule drop_add_append [OF d2])
  have all: "pos + length (render_header ch_T pk nm) \<le> length cs"
    using drop_eq_append_length [OF assms(4)] by (simp add: render_header_def)
  then have le: "pos + 1 + length ?vi + length pk + length nm + 1 \<le> length cs" by (simp add: render_header_def)
  have n: "unat (word_of_nat (length pk) :: u64) = length pk"
    using le assms(1) by (simp add: fits_def unat_of_nat)
  have v: "get_varint cs (pos + 1) = (word_of_nat (length pk), length ?vi)"
    by (rule get_varint_put_varint [OF assms(1) d1])
  have u: "usize_add (pos + 1 + length ?vi) (length pk) = pos + 1 + length ?vi + length pk"
    using le assms(1) by (simp add: fits_def)
  have q: "position (\<lambda>b. b = 0) (nm @ 0 # rest) = Some (length nm)"
    using assms(2) by (auto simp: list_ex_iff)
  have e: "pos + 1 + length ?vi + length pk + length nm + 1 = pos + length (render_header ch_T pk nm)"
    by (simp add: render_header_def)
  have "slice cs (pos + 1 - 1) (pos + 1 + length ?vi + length pk + length nm + 1) = Ok (render_header ch_T pk nm)"
    unfolding e using all assms(4) by (simp add: slice_def)
  moreover have "slice cs (pos + 1 + length ?vi) (pos + 1 + length ?vi + length pk) = Ok pk"
    using le d2 by (simp add: slice_def)
  ultimately show ?thesis
    using le assms(3) d3 q unfolding invert_header_def Let_def v prod.case n u
    by (simp add: ok_or_def e [simplified])
qed

lemma invert_loop_tables:
  assumes "fits cs"
  shows "list_all table_ok ts \<Longrightarrow> drop pos cs = render ts \<Longrightarrow>
    invert_loop cs pos n ab out = Ok (out @ render (map inverse_table ts))"
proof (induction ts arbitrary: pos n ab out)
  case Nil
  then show ?case by (simp add: invert_loop.simps render_def)
next
  case (Cons t ts)
  have ok: "name_ok (tb_name t)" "tb_pk t \<noteq> []" "list_all (change_ok (length (tb_pk t))) (tb_changes t)"
    using Cons.prems(1) by (simp_all add: table_ok_def)
  let ?h = "render_header ch_T (tb_pk t) (tb_name t)"
  have d: "drop pos cs = ?h @ concat (map render_change (tb_changes t)) @ render ts"
    using Cons.prems(2) by (simp add: render_def render_table_def)
  have h: "invert_header cs pos = Ok (map (\<lambda>p. p \<noteq> 0) (tb_pk t), ?h, pos + length ?h)"
    using invert_header_render [OF assms _ ok(2) d] ok(1) by (simp add: name_ok_def)
  have "pos < length cs" "cs ! pos = ch_T"
    using drop_eq_Cons_nth [of pos cs ch_T] d by (simp_all add: render_header_def)
  with h assms have "invert_loop cs pos n ab out
      = invert_loop cs (pos + length ?h) (length (tb_pk t)) (map (\<lambda>p. p \<noteq> 0) (tb_pk t)) (out @ ?h)"
    by (subst invert_loop.simps) simp
  also have "\<dots> = Ok (out @ render (map inverse_table (t # ts)))"
    using invert_loop_changes [OF assms ok(2,3) drop_add_append [OF d]] Cons.IH
      drop_add_append [OF drop_add_append [OF d]] Cons.prems(1)
    by (simp add: render_def render_table_def inverse_table_def o_def)
  finally show ?case .
qed

lemma invert_render:
  "wf_changeset ts \<Longrightarrow> invert (render ts) = Ok (render (map inverse_table ts))"
  using invert_loop_tables [of "render ts" ts 0] by (simp add: invert_def wf_changeset_def)

subsection \<open>Inversion undoes a changeset\<close>

definition captured :: "cs_table list \<Rightarrow> bool" where
  "captured ts \<longleftrightarrow> list_all (\<lambda>t. list_all (change_shape (tb_pk t)) (tb_changes t)) ts
     \<and> distinct (map fst (located ts))"

lemma key_of_inverse:
  assumes "change_shape pk c"
  shows "key_of pk (change_rec (inverse_change pk c)) = key_of pk (change_rec c)"
proof (cases c)
  case (Upd i ov nv)
  with assms have "length pk = length ov" "length ov = length nv" by (simp_all add: upd_shape_def)
  then have "map snd (filter (\<lambda>(p, v). p \<noteq> 0) (zip pk (inverse_old pk ov nv)))
      = map snd (filter (\<lambda>(p, v). p \<noteq> 0) (zip pk ov))"
    unfolding inverse_old_def by (induction pk ov nv rule: list_induct3) simp_all
  then show ?thesis using Upd by (simp add: key_of_def)
qed simp_all

lemma located_inverse:
  "list_all (\<lambda>t. list_all (change_shape (tb_pk t)) (tb_changes t)) ts \<Longrightarrow>
   located (map inverse_table ts) =
     concat (map (\<lambda>t. map (\<lambda>c. ((map ascii_lower (tb_name t), key_of (tb_pk t) (change_rec c)), inverse_change (tb_pk t) c)) (tb_changes t)) ts)"
  by (induction ts) (auto simp: located_def inverse_table_def key_of_inverse list_all_iff)

lemma inverse_undoes:
  assumes "captured ts" "apply_changes (located ts) d = Some d'"
  shows "apply_changes (located (map inverse_table ts)) d' = Some d"
proof -
  have sh: "list_all (\<lambda>t. list_all (change_shape (tb_pk t)) (tb_changes t)) ts"
    and dist: "distinct (map fst (located ts))" using assms(1) by (simp_all add: captured_def)
  have fsts: "map fst (located (map inverse_table ts)) = map fst (located ts)"
    unfolding located_inverse [OF sh] by (simp add: located_def map_concat o_def)
  have here: "\<And>l c. (l, c) \<in> set (located ts) \<Longrightarrow> act c (d l) = Some (d' l)"
    and out: "\<forall>l. l \<notin> fst ` set (located ts) \<longrightarrow> d' l = d l"
    using assms(2) unfolding apply_changes_distinct [OF dist] by blast+
  have "act c (d' l) = Some (d l)" if "(l, c) \<in> set (located (map inverse_table ts))" for l c
  proof -
    from that obtain t c0 where t: "t \<in> set ts" "c0 \<in> set (tb_changes t)" "c = inverse_change (tb_pk t) c0"
        "l = (map ascii_lower (tb_name t), key_of (tb_pk t) (change_rec c0))"
      unfolding located_inverse [OF sh] by auto
    then have "(l, c0) \<in> set (located ts)" by (auto simp: located_def)
    with t sh here show ?thesis by (auto simp: list_all_iff intro: inverse_change_undoes)
  qed
  then have "\<forall>(l, c) \<in> set (located (map inverse_table ts)). act c (d' l) = Some (d l)" by blast
  moreover have "fst ` set (located (map inverse_table ts)) = fst ` set (located ts)"
    using arg_cong [OF fsts, of set] by simp
  ultimately show ?thesis
    using out dist by (subst apply_changes_distinct) (simp_all add: fsts)
qed

lemma inverse_table_involutive: "captured ts \<Longrightarrow> map inverse_table (map inverse_table ts) = ts"
proof -
  assume c: "captured ts"
  have "map (inverse_change (tb_pk t)) (map (inverse_change (tb_pk t)) (tb_changes t)) = tb_changes t"
    if "t \<in> set ts" for t
    using c that by (auto simp: captured_def list_all_iff inverse_change_involutive intro!: map_idI)
  then have "inverse_table (inverse_table t) = t" if "t \<in> set ts" for t
    using that by (simp add: inverse_table_def del: map_map)
  then show ?thesis by (simp add: map_idI)
qed

lemma inverse_change_size:
  assumes "change_shape pk c"
  shows "length (render_change (inverse_change pk c)) = length (render_change c)"
proof (cases c)
  case (Upd i ov nv)
  then have "length pk = length ov" "length ov = length nv"
    and "list_all (\<lambda>(p, o', n). if p \<noteq> 0 then o' \<noteq> Undef \<and> n = Undef else (o' = Undef) = (n = Undef)) (zip pk (zip ov nv))"
    using assms by (simp_all add: upd_shape_def)
  then have "length (field_bytes (inverse_old pk ov nv)) + length (field_bytes (inverse_new pk ov))
      = length (field_bytes ov) + length (field_bytes nv)"
    by (induction pk ov nv rule: list_induct3) (auto simp: inverse_old_def inverse_new_def)
  then show ?thesis using Upd by (simp add: render_change_def)
qed (simp_all add: render_change_def)

lemma inverse_change_ok: "change_ok (length pk) c \<Longrightarrow> change_ok (length pk) (inverse_change pk c)"
  by (cases c) (auto simp: inverse_nth list_all_length inverse_old_def inverse_new_def)

lemma inverse_wf:
  assumes "wf_changeset ts" "captured ts"
  shows "wf_changeset (map inverse_table ts)"
proof -
  have "length (render_table (inverse_table t)) = length (render_table t)" if "t \<in> set ts" for t
    using assms(2) that
    by (auto simp: captured_def list_all_iff render_table_def inverse_table_def length_concat o_def inverse_change_size
        intro!: arg_cong [of _ _ sum_list] map_cong)
  then have "length (render (map inverse_table ts)) = length (render ts)"
    by (auto simp: render_def length_concat o_def intro!: arg_cong [of _ _ sum_list] map_cong)
  moreover have "list_all table_ok (map inverse_table ts)"
    using assms(1)
    by (auto simp: wf_changeset_def table_ok_def inverse_table_def list_all_iff inverse_change_ok)
  ultimately show ?thesis using assms(1) by (simp add: wf_changeset_def fits_def)
qed

subsection \<open>Properties\<close>

text \<open>
  C24: inverting a well-formed changeset succeeds and yields exactly the rendering of its
  inverse: inserts and deletes exchanged with their records and headers byte for byte,
  updates with the key taken from the old record and the new one's key undefined.
\<close>

theorem invert_computes_inverse:
  "wf_changeset ts \<Longrightarrow> invert (render ts) = Ok (render (map inverse_table ts))"
  by (rule invert_render)

theorem invert_computes_inverse_witness:
  "invert (render [sample_table]) = Ok (render [\<lparr>tb_name = [0x74], tb_pk = [1, 0],
     tb_changes = [Del False [SInt 1, SNull], Upd True [SInt 2, SInt 3] [Undef, SNull]]\<rparr>])"
  using invert_computes_inverse [OF sample_table_wf]
  by (simp add: sample_table_def inverse_table_def inverse_old_def inverse_new_def)

text \<open>
  C4: applying the inverted changeset to the database that a captured changeset produced
  restores the original database, without a conflict.
\<close>

theorem invert_undoes:
  assumes "wf_changeset ts" "captured ts" "apply_changes (located ts) d = Some d'"
  shows "\<exists>ts'. invert (render ts) = Ok (render ts') \<and> apply_changes (located ts') d' = Some d"
  using invert_render [OF assms(1)] inverse_undoes [OF assms(2,3)] by blast

theorem invert_undoes_witness:
  "\<exists>ts'. invert (render [sample_table]) = Ok (render ts') \<and>
     apply_changes (located ts') (\<lambda>l. if l = ([0x74], [SInt 1]) then Some [SInt 1, SNull]
        else if l = ([0x74], [SInt 2]) then Some [SInt 2, SInt 3] else None)
     = Some (\<lambda>l. if l = ([0x74], [SInt 2]) then Some [SInt 2, SNull] else None)"
proof (rule invert_undoes [OF sample_table_wf])
  show "captured [sample_table]"
    by (simp add: captured_def sample_table_def located_def key_of_def upd_shape_def)
  show "apply_changes (located [sample_table]) (\<lambda>l. if l = ([0x74], [SInt 2]) then Some [SInt 2, SNull] else None)
      = Some (\<lambda>l. if l = ([0x74], [SInt 1]) then Some [SInt 1, SNull]
        else if l = ([0x74], [SInt 2]) then Some [SInt 2, SInt 3] else None)"
    by (simp add: sample_table_def located_def key_of_def matches_def overlay_def fun_eq_iff ascii_lower_def)
qed

text \<open>inverting a captured changeset twice gives back the original bytes.\<close>

theorem invert_involution:
  assumes "wf_changeset ts" "captured ts"
  shows "bind_outcome (invert (render ts)) invert = Ok (render ts)"
  using invert_render [OF assms(1)] invert_render [OF inverse_wf [OF assms]] inverse_table_involutive [OF assms(2)]
  by simp

theorem invert_involution_witness:
  "bind_outcome (invert (render [sample_table])) invert = Ok (render [sample_table])"
  by (rule invert_involution [OF sample_table_wf])
    (simp add: captured_def sample_table_def located_def key_of_def upd_shape_def)

end
