(* ===== verification/Chained_Index.thy ===== *)
theory Chained_Index
  imports Prelude
begin

text \<open>
  The chained hash that \<^verbatim>\<open>session/group.rs\<close> and \<^verbatim>\<open>session/state.rs\<close> both keep beside their
  entries: a vector of buckets, each a list of entry numbers with the newest first, over a
  vector of slots. The locale states what the client's hash must satisfy; growing, finding,
  inserting, replacing and removing are proved once against the partial map from keys to
  entries that the structure represents.
\<close>

definition get_entry :: "'e option list \<Rightarrow> nat \<Rightarrow> 'e outcome" where
  "get_entry es i = bind_outcome (index_at es i) (\<lambda>x. case x of Some e \<Rightarrow> Ok e | None \<Rightarrow> Panic)"

fun rehash_ids :: "(nat \<Rightarrow> nat outcome) \<Rightarrow> nat list \<Rightarrow> nat list list \<Rightarrow> nat list list outcome" where
  "rehash_ids hf [] nb = Ok nb"
| "rehash_ids hf (i # is) nb =
     bind_outcome (hf i) (\<lambda>h. bind_outcome (index_at nb h) (\<lambda>ch. rehash_ids hf is (nb[h := i # ch])))"

fun find_in_chain :: "(nat \<Rightarrow> bool outcome) \<Rightarrow> nat list \<Rightarrow> nat option outcome" where
  "find_in_chain same [] = Ok None"
| "find_in_chain same (i # is) = bind_outcome (same i) (\<lambda>b. if b then Ok (Some i) else find_in_chain same is)"

definition slot :: "'e option list \<Rightarrow> nat \<Rightarrow> 'e \<Rightarrow> bool" where
  "slot es i e \<longleftrightarrow> i < length es \<and> es ! i = Some e"

definition live :: "'e option list \<Rightarrow> nat set" where
  "live es = {i. i < length es \<and> es ! i \<noteq> None}"

definition amap :: "('e \<Rightarrow> 'k) \<Rightarrow> 'e option list \<Rightarrow> 'k \<Rightarrow> 'e option" where
  "amap key es k =
     (case find (\<lambda>x. case x of Some e \<Rightarrow> key e = k | None \<Rightarrow> False) es of Some (Some e) \<Rightarrow> Some e | _ \<Rightarrow> None)"

definition keys_inj :: "('e \<Rightarrow> 'k) \<Rightarrow> 'e option list \<Rightarrow> bool" where
  "keys_inj key es \<longleftrightarrow> (\<forall>i j e e'. slot es i e \<longrightarrow> slot es j e' \<longrightarrow> key e = key e' \<longrightarrow> i = j)"

definition placed :: "(nat \<Rightarrow> 'e \<Rightarrow> nat outcome) \<Rightarrow> 'e option list \<Rightarrow> nat list list \<Rightarrow> bool" where
  "placed hsh es bs \<longleftrightarrow> (\<forall>h < length bs. \<forall>i \<in> set (bs ! h). \<forall>e. slot es i e \<longrightarrow> hsh (length bs) e = Ok h)"

definition bucket_inv ::
    "(nat \<Rightarrow> 'e \<Rightarrow> nat outcome) \<Rightarrow> ('e \<Rightarrow> 'k) \<Rightarrow> ('e \<Rightarrow> bool) \<Rightarrow> 'e option list \<Rightarrow> nat list list \<Rightarrow> bool" where
  "bucket_inv hsh key ok es bs \<longleftrightarrow> distinct (concat bs) \<and> set (concat bs) = live es
     \<and> placed hsh es bs \<and> (\<forall>i e. slot es i e \<longrightarrow> ok e) \<and> keys_inj key es"

lemma live_slot: "i \<in> live es \<longleftrightarrow> (\<exists>e. slot es i e)"
  by (auto simp: live_def slot_def)

lemma get_entry_slot [simp]: "slot es i e \<Longrightarrow> get_entry es i = Ok e"
  by (simp add: slot_def get_entry_def index_at_def)

lemma slot_unique: "slot es i e \<Longrightarrow> slot es i e' \<Longrightarrow> e = e'"
  by (simp add: slot_def)

lemma slot_append: "slot (es @ [Some e']) i e \<longleftrightarrow> slot es i e \<or> (i = length es \<and> e = e')"
  by (auto simp: slot_def nth_append)

lemma slot_update: "slot (es[k := Some e']) i e \<longleftrightarrow> (if i = k then k < length es \<and> e = e' else slot es i e)"
  by (auto simp: slot_def nth_list_update)

lemma slot_remove: "slot (es[k := None]) i e \<longleftrightarrow> i \<noteq> k \<and> slot es i e"
  by (cases "i = k") (auto simp: slot_def nth_list_update)

lemma slot_bound: "slot es i e \<Longrightarrow> i < length es"
  by (simp add: slot_def)

lemma live_append: "live (es @ [Some e]) = insert (length es) (live es)"
  by (auto simp: live_slot slot_append)

lemma live_update: "k < length es \<Longrightarrow> live (es[k := Some e]) = insert k (live es)"
  by (rule set_eqI) (auto simp: live_def nth_list_update)

lemma live_remove: "live (es[k := None]) = live es - {k}"
  by (auto simp: live_slot slot_remove)

lemma live_Nil [simp]: "live [] = {}"
  by (simp add: live_def)

lemma finite_live [simp]: "finite (live es)"
  by (rule finite_subset [of _ "{..< length es}"]) (auto simp: live_def)

lemma card_live: "card (live es) \<le> length es"
  using card_mono [of "{..< length es}" "live es"] by (auto simp: live_def)

lemma amap_iff:
  assumes "keys_inj key es"
  shows "amap key es k = Some e \<longleftrightarrow> (\<exists>i. slot es i e \<and> key e = k)"
proof
  assume "amap key es k = Some e"
  then have "find (\<lambda>x. case x of Some e \<Rightarrow> key e = k | None \<Rightarrow> False) es = Some (Some e)"
    by (auto simp: amap_def split: option.splits)
  then show "\<exists>i. slot es i e \<and> key e = k"
    by (force simp: find_Some_iff slot_def split: option.splits)
next
  assume "\<exists>i. slot es i e \<and> key e = k"
  then obtain i where i: "slot es i e" "key e = k" by blast
  then have "find (\<lambda>x. case x of Some e \<Rightarrow> key e = k | None \<Rightarrow> False) es \<noteq> None"
    unfolding find_None_iff by (auto simp: slot_def dest: nth_mem)
  then obtain x where x: "find (\<lambda>x. case x of Some e \<Rightarrow> key e = k | None \<Rightarrow> False) es = Some x" by blast
  then obtain j e' where j: "slot es j e'" "x = Some e'" "key e' = k"
    by (auto simp: find_Some_iff slot_def split: option.splits)
  then have "j = i" using i assms unfolding keys_inj_def by blast
  with i j have "e' = e" by (blast dest: slot_unique)
  with j x show "amap key es k = Some e" by (simp add: amap_def)
qed

lemma map_eqI: "(\<And>k v. m k = Some v \<longleftrightarrow> m' k = Some v) \<Longrightarrow> m = m'"
  by (rule ext) (metis not_None_eq)

lemma amap_None_iff:
  "keys_inj key es \<Longrightarrow> amap key es k = None \<longleftrightarrow> (\<forall>i e. slot es i e \<longrightarrow> key e \<noteq> k)"
  using amap_iff [of key es k] by (metis not_None_eq)

lemma amap_append:
  assumes "keys_inj key es" "amap key es (key e) = None"
  shows "keys_inj key (es @ [Some e])" "amap key (es @ [Some e]) = (amap key es)(key e \<mapsto> e)"
proof -
  have fresh: "\<And>i e'. slot es i e' \<Longrightarrow> key e' \<noteq> key e" using assms by (simp add: amap_None_iff)
  show inj: "keys_inj key (es @ [Some e])"
    using assms(1) fresh unfolding keys_inj_def slot_append by metis
  show "amap key (es @ [Some e]) = (amap key es)(key e \<mapsto> e)"
    by (rule map_eqI) (use fresh in \<open>auto simp: amap_iff [OF inj] amap_iff [OF assms(1)] slot_append\<close>)
qed

lemma amap_replace:
  assumes "keys_inj key es" "slot es i e0" "key e = key e0"
  shows "keys_inj key (es[i := Some e])" "amap key (es[i := Some e]) = (amap key es)(key e \<mapsto> e)"
proof -
  have i: "i < length es" using assms(2) by (rule slot_bound)
  have uniq: "\<And>j e'. slot es j e' \<Longrightarrow> key e' = key e \<Longrightarrow> j = i"
    using assms unfolding keys_inj_def by metis
  show inj: "keys_inj key (es[i := Some e])"
    using assms(1) uniq unfolding keys_inj_def slot_update by metis
  have iff: "amap key (es[i := Some e]) k = Some v \<longleftrightarrow> ((amap key es)(key e \<mapsto> e)) k = Some v" for k v
  proof -
    have "amap key (es[i := Some e]) k = Some v \<longleftrightarrow> (k = key e \<and> v = e) \<or> (\<exists>j. j \<noteq> i \<and> slot es j v \<and> key v = k)"
      using i by (auto simp: amap_iff [OF inj] slot_update split: if_splits)
    also have "\<dots> \<longleftrightarrow> (if k = key e then v = e else \<exists>j. slot es j v \<and> key v = k)"
      using uniq assms(2,3) slot_unique [of es i] by (metis (no_types))
    finally show ?thesis using amap_iff [OF assms(1)] by auto
  qed
  show "amap key (es[i := Some e]) = (amap key es)(key e \<mapsto> e)"
    by (rule map_eqI) (rule iff)
qed

lemma amap_remove:
  assumes "keys_inj key es" "slot es i e0"
  shows "keys_inj key (es[i := None])" "amap key (es[i := None]) = (amap key es)(key e0 := None)"
proof -
  show inj: "keys_inj key (es[i := None])"
    using assms(1) unfolding keys_inj_def slot_remove by blast
  have uniq: "\<And>j e'. slot es j e' \<Longrightarrow> key e' = key e0 \<longleftrightarrow> j = i"
    using assms slot_unique unfolding keys_inj_def by metis
  show "amap key (es[i := None]) = (amap key es)(key e0 := None)"
    by (rule map_eqI) (use uniq in \<open>auto simp: amap_iff [OF inj] amap_iff [OF assms(1)] slot_remove\<close>)
qed


lemma set_concat_update:
  assumes "h < length bs" "distinct (concat bs)"
  shows "set (concat (bs[h := c])) = set (concat bs) - set (bs ! h) \<union> set c"
    and "distinct c \<Longrightarrow> set c \<inter> (set (concat bs) - set (bs ! h)) = {} \<Longrightarrow> distinct (concat (bs[h := c]))"
proof -
  define xs ys where "xs = take h bs" and "ys = drop (Suc h) bs"
  have b: "bs = xs @ bs ! h # ys" unfolding xs_def ys_def by (rule id_take_nth_drop [OF assms(1)])
  have u: "bs[h := c] = xs @ c # ys" unfolding xs_def ys_def by (rule upd_conv_take_nth_drop [OF assms(1)])
  have c: "concat bs = concat xs @ bs ! h @ concat ys" using arg_cong [OF b, of concat] by simp
  have d: "distinct (concat xs @ bs ! h @ concat ys)" using assms(2) unfolding c .
  show "set (concat (bs[h := c])) = set (concat bs) - set (bs ! h) \<union> set c"
    unfolding c u using d by (auto simp del: set_concat)
  show "distinct c \<Longrightarrow> set c \<inter> (set (concat bs) - set (bs ! h)) = {} \<Longrightarrow> distinct (concat (bs[h := c]))"
    unfolding c u using d by (auto simp del: set_concat)
qed

lemma placed_update:
  assumes "placed hsh es bs" "\<And>i e. i \<in> set c \<Longrightarrow> slot es i e \<Longrightarrow> hsh (length bs) e = Ok h"
  shows "placed hsh es (bs[h := c])"
  unfolding placed_def
proof (intro allI impI ballI)
  fix k i e assume k: "k < length (bs[h := c])" "i \<in> set (bs[h := c] ! k)" "slot es i e"
  show "hsh (length (bs[h := c])) e = Ok k"
  proof (cases "k = h")
    case True
    with k assms(2) show ?thesis by simp
  next
    case False
    with k assms(1) show ?thesis by (simp add: placed_def)
  qed
qed

lemma in_concat_nth: "i \<in> set (concat bs) \<longleftrightarrow> (\<exists>h < length bs. i \<in> set (bs ! h))"
  by (metis (mono_tags, lifting) UN_iff in_set_conv_nth set_concat)

lemma set_nth_concat: "h < length bs \<Longrightarrow> set (bs ! h) \<subseteq> set (concat bs)"
  by (auto simp: in_concat_nth simp del: set_concat)

lemma concat_replicate_Nil [simp]: "concat (replicate n []) = []"
  by (induction n) auto

lemma find_in_chain_eq:
  "(\<And>i. i \<in> set ch \<Longrightarrow> same i = Ok (P i)) \<Longrightarrow> find_in_chain same ch = Ok (find P ch)"
  by (induction ch) auto

text \<open>The size discipline: 256 buckets first, doubled when the entries reach half of them.\<close>

definition sized :: "'e option list \<Rightarrow> nat list list \<Rightarrow> bool" where
  "sized es bs \<longleftrightarrow> even (length bs) \<and> (length bs \<le> 256 \<or> length bs \<le> 4 * length es)"

lemma sized_bound: "sized es bs \<Longrightarrow> length es < 2 ^ 30 \<Longrightarrow> length bs < 2 ^ 32"
  by (auto simp: sized_def)

locale chained_index =
  fixes hsh :: "nat \<Rightarrow> 'e \<Rightarrow> nat outcome"
    and key :: "'e \<Rightarrow> 'k"
    and ok :: "'e \<Rightarrow> bool"
  assumes hash_in_range: "ok e \<Longrightarrow> 0 < n \<Longrightarrow> n < 2 ^ 32 \<Longrightarrow> \<exists>h < n. hsh n e = Ok h"
    and hash_of_key: "ok e \<Longrightarrow> ok e' \<Longrightarrow> key e = key e' \<Longrightarrow> hsh n e = hsh n e'"
begin

abbreviation inv_ok :: "'e option list \<Rightarrow> nat list list \<Rightarrow> bool" where
  "inv_ok \<equiv> bucket_inv hsh key ok"

lemma rehash_ids_ok:
  assumes "0 < n" "n < 2 ^ 32" "\<And>i e. slot es i e \<Longrightarrow> ok e"
  shows "length nb = n \<Longrightarrow> distinct (concat nb) \<Longrightarrow> placed hsh es nb \<Longrightarrow> distinct ids \<Longrightarrow>
    set ids \<inter> set (concat nb) = {} \<Longrightarrow> set ids \<subseteq> live es \<Longrightarrow>
    \<exists>nb'. rehash_ids (\<lambda>i. bind_outcome (get_entry es i) (hsh n)) ids nb = Ok nb' \<and> length nb' = n
      \<and> distinct (concat nb') \<and> placed hsh es nb' \<and> set (concat nb') = set (concat nb) \<union> set ids"
proof (induction ids arbitrary: nb)
  case (Cons i ids)
  obtain e where e: "slot es i e" using Cons.prems(6) by (auto simp: live_slot)
  obtain h where h: "h < n" "hsh n e = Ok h" using hash_in_range [OF assms(3) [OF e] assms(1,2)] by blast
  define nb1 where "nb1 = nb[h := i # nb ! h]"
  have hl: "h < length nb" using h Cons.prems(1) by simp
  have sub: "set (nb ! h) \<subseteq> set (concat nb)" by (rule set_nth_concat [OF hl])
  have s1: "set (concat nb1) = insert i (set (concat nb))"
    unfolding nb1_def set_concat_update(1) [OF hl Cons.prems(2)] using sub by auto
  have ni: "i \<notin> set (concat nb)" using Cons.prems(5) by auto
  have dh: "distinct (nb ! h)" using Cons.prems(2) hl by (simp add: distinct_concat_iff)
  have d1: "distinct (concat nb1)"
    unfolding nb1_def using ni sub dh by (intro set_concat_update(2) [OF hl Cons.prems(2)]) auto
  have "hsh (length nb) e' = Ok h" if "j \<in> set (i # nb ! h)" "slot es j e'" for j e'
    using that e h Cons.prems(1,3) hl slot_unique [of es i] unfolding placed_def by auto
  then have p1: "placed hsh es nb1" unfolding nb1_def by (rule placed_update [OF Cons.prems(3)])
  have "\<exists>nb'. rehash_ids (\<lambda>i. bind_outcome (get_entry es i) (hsh n)) ids nb1 = Ok nb' \<and> length nb' = n
      \<and> distinct (concat nb') \<and> placed hsh es nb' \<and> set (concat nb') = set (concat nb1) \<union> set ids"
    using Cons.prems s1 by (intro Cons.IH d1 p1) (auto simp: nb1_def)
  then show ?case using e h hl s1 by (auto simp: index_at_def nb1_def)
qed simp

lemma rehash_inv:
  assumes "inv_ok es bs" "0 < n" "n < 2 ^ 32"
  shows "\<exists>nb. rehash_ids (\<lambda>i. bind_outcome (get_entry es i) (hsh n)) (concat bs) (replicate n []) = Ok nb
    \<and> length nb = n \<and> inv_ok es nb"
proof -
  have okl: "\<And>i e. slot es i e \<Longrightarrow> ok e" using assms(1) by (auto simp: bucket_inv_def)
  have "placed hsh es (replicate n [])" by (simp add: placed_def)
  then have "\<exists>nb. rehash_ids (\<lambda>i. bind_outcome (get_entry es i) (hsh n)) (concat bs) (replicate n []) = Ok nb
      \<and> length nb = n \<and> distinct (concat nb) \<and> placed hsh es nb
      \<and> set (concat nb) = set (concat (replicate n [])) \<union> set (concat bs)"
    using assms(1) by (intro rehash_ids_ok [OF assms(2,3)] okl) (auto simp: bucket_inv_def)
  with assms(1) show ?thesis by (auto simp: bucket_inv_def)
qed

lemma grow_inv:
  assumes "inv_ok es bs" "sized es bs" "length es < 2 ^ 30" "bs = [] \<or> length bs div 2 \<le> card (live es)"
    and n: "n = (if bs = [] then 256 else length bs * 2)"
  shows "\<exists>nb. rehash_ids (\<lambda>i. bind_outcome (get_entry es i) (hsh n)) (concat bs) (replicate n []) = Ok nb
    \<and> inv_ok es nb \<and> sized es nb \<and> nb \<noteq> [] \<and> length nb < 2 ^ 32"
proof -
  have n': "n \<le> 256 \<or> n \<le> 4 * length es" "even n" "0 < n"
    using assms(2,4) card_live [of es] n by (auto simp: sized_def elim!: evenE)
  then have lt: "n < 2 ^ 32" using assms(3) by auto
  from rehash_inv [OF assms(1) n'(3) lt] obtain nb where
    "rehash_ids (\<lambda>i. bind_outcome (get_entry es i) (hsh n)) (concat bs) (replicate n []) = Ok nb"
    "length nb = n" "inv_ok es nb" by blast
  with n' lt show ?thesis by (auto simp: sized_def)
qed

lemma find_key:
  assumes "inv_ok es bs" "ok e" "hsh (length bs) e = Ok h" "h < length bs"
    and "\<And>i e'. slot es i e' \<Longrightarrow> same i = Ok (key e' = key e)"
  shows "find_in_chain same (bs ! h) = Ok None \<and> amap key es (key e) = None
    \<or> (\<exists>i e'. find_in_chain same (bs ! h) = Ok (Some i) \<and> slot es i e' \<and> key e' = key e \<and> amap key es (key e) = Some e')"
proof -
  have inj: "keys_inj key es" and lv: "set (concat bs) = live es" and pl: "placed hsh es bs"
    and okl: "\<And>i e. slot es i e \<Longrightarrow> ok e"
    using assms(1) by (auto simp: bucket_inv_def)
  define P where "P i = (key (the (es ! i)) = key e)" for i
  have sameP: "same i = Ok (P i)" if "i \<in> set (bs ! h)" for i
  proof -
    have "i \<in> live es" using that set_nth_concat [OF assms(4)] lv by auto
    then obtain e' where "slot es i e'" by (auto simp: live_slot)
    with assms(5) show ?thesis by (auto simp: P_def slot_def)
  qed
  have f: "find_in_chain same (bs ! h) = Ok (find P (bs ! h))" by (rule find_in_chain_eq) (rule sameP)
  have home: "i \<in> set (bs ! h)" if s: "slot es i e'" and k: "key e' = key e" for i e'
  proof -
    have "i \<in> set (concat bs)" using s lv by (auto simp: live_slot)
    then obtain h' where h': "h' < length bs" "i \<in> set (bs ! h')" by (auto simp: in_concat_nth simp del: set_concat)
    then have "hsh (length bs) e' = Ok h'" using pl s by (auto simp: placed_def)
    then have "h' = h" using hash_of_key [OF okl [OF s] assms(2) k] assms(3) by simp
    with h' show ?thesis by simp
  qed
  show ?thesis
  proof (cases "find P (bs ! h)")
    case None
    then have "\<not> (\<exists>i e'. slot es i e' \<and> key e' = key e)"
      using home by (metis P_def find_None_iff option.sel slot_def)
    then show ?thesis using f None by (auto simp: amap_None_iff [OF inj])
  next
    case (Some i)
    then have "i \<in> set (bs ! h)" "P i" by (auto simp: find_Some_iff)
    then obtain e' where "slot es i e'" "key e' = key e"
      using lv set_nth_concat [OF assms(4)] by (force simp: P_def live_slot slot_def)
    then show ?thesis using f Some amap_iff [OF inj, of "key e" e'] by auto
  qed
qed

lemma insert_inv:
  assumes "inv_ok es bs" "ok e" "hsh (length bs) e = Ok h" "h < length bs" "amap key es (key e) = None"
  shows "inv_ok (es @ [Some e]) (bs[h := length es # bs ! h])"
proof -
  have inj: "keys_inj key es" and lv: "set (concat bs) = live es" and pl: "placed hsh es bs"
    and d: "distinct (concat bs)" and okl: "\<And>i e. slot es i e \<Longrightarrow> ok e"
    using assms(1) by (auto simp: bucket_inv_def)
  note sub = set_nth_concat [OF assms(4)]
  have fresh: "length es \<notin> set (concat bs)" using lv by (auto simp: live_def)
  have dh: "distinct (bs ! h)" using d assms(4) by (simp add: distinct_concat_iff)
  have "placed hsh (es @ [Some e]) bs"
    using pl fresh unfolding placed_def slot_append by (metis in_concat_nth)
  then have "placed hsh (es @ [Some e]) (bs[h := length es # bs ! h])"
    using assms(3,4) pl by (intro placed_update) (auto simp: slot_append placed_def slot_def)
  moreover have "set (concat (bs[h := length es # bs ! h])) = live (es @ [Some e])"
    unfolding set_concat_update(1) [OF assms(4) d] live_append using lv sub by auto
  moreover have "distinct (concat (bs[h := length es # bs ! h]))"
    using fresh sub dh by (intro set_concat_update(2) [OF assms(4) d]) auto
  ultimately show ?thesis
    using amap_append(1) [OF inj assms(5)] okl assms(2) by (auto simp: bucket_inv_def slot_append)
qed

lemma replace_inv:
  assumes "inv_ok es bs" "slot es i e0" "ok e" "key e = key e0"
  shows "inv_ok (es[i := Some e]) bs"
proof -
  have inj: "keys_inj key es" and pl: "placed hsh es bs" and okl: "\<And>i e. slot es i e \<Longrightarrow> ok e"
    using assms(1) by (auto simp: bucket_inv_def)
  have "hsh n e = hsh n e0" for n using hash_of_key [OF assms(3) okl [OF assms(2)] assms(4)] .
  then have "placed hsh (es[i := Some e]) bs"
    using pl assms(2) unfolding placed_def slot_update by metis
  moreover have "live (es[i := Some e]) = live es"
    using live_update [OF slot_bound [OF assms(2)]] assms(2) by (auto simp: live_slot)
  ultimately show ?thesis
    using assms(1,3) okl amap_replace(1) [OF inj assms(2,4)] by (auto simp: bucket_inv_def slot_update split: if_splits)
qed

lemma remove_inv:
  assumes "inv_ok es bs" "slot es i e" "hsh (length bs) e = Ok h" "h < length bs"
  shows "inv_ok (es[i := None]) (bs[h := filter (\<lambda>x. x \<noteq> i) (bs ! h)])"
proof -
  have inj: "keys_inj key es" and lv: "set (concat bs) = live es" and pl: "placed hsh es bs"
    and d: "distinct (concat bs)" and okl: "\<And>i e. slot es i e \<Longrightarrow> ok e"
    using assms(1) by (auto simp: bucket_inv_def)
  note sub = set_nth_concat [OF assms(4)]
  have "i \<in> set (concat bs)" using assms(2) lv by (auto simp: live_slot)
  then obtain h' where h': "h' < length bs" "i \<in> set (bs ! h')" by (auto simp: in_concat_nth simp del: set_concat)
  then have ih: "i \<in> set (bs ! h)" using pl assms(2,3) by (auto simp: placed_def)
  have dh: "distinct (bs ! h)" using d assms(4) by (simp add: distinct_concat_iff)
  have "placed hsh (es[i := None]) bs" using pl by (auto simp: placed_def slot_remove)
  then have "placed hsh (es[i := None]) (bs[h := filter (\<lambda>x. x \<noteq> i) (bs ! h)])"
    using assms(4) by (intro placed_update) (auto simp: placed_def)
  moreover have "set (concat (bs[h := filter (\<lambda>x. x \<noteq> i) (bs ! h)])) = live (es[i := None])"
    unfolding set_concat_update(1) [OF assms(4) d] live_remove using lv sub ih by auto
  moreover have "distinct (concat (bs[h := filter (\<lambda>x. x \<noteq> i) (bs ! h)]))"
    using dh by (intro set_concat_update(2) [OF assms(4) d]) auto
  ultimately show ?thesis
    using amap_remove(1) [OF inj assms(2)] okl by (auto simp: bucket_inv_def slot_remove)
qed

end

end
