(* ===== verification/Session_Hash.thy ===== *)
theory Session_Hash
  imports Change_Spec Chained_Index
begin

text \<open>
  \<^verbatim>\<open>record_pk_hash\<close> of \<^verbatim>\<open>src/session/state.rs\<close>, the hash of the key fields of a serialized
  record that the capture, the change group and the rebaser share, and what it computes: a
  function of the key alone.
\<close>

fun pk_hash_loop :: "bytes \<Rightarrow> bytes \<Rightarrow> bool \<Rightarrow> u32 \<Rightarrow> nat \<Rightarrow> u32 outcome" where
  "pk_hash_loop [] rec pk_only h pos = Ok h"
| "pk_hash_loop (p # ps) rec pk_only h pos =
     (if pk_only \<and> p = 0 then pk_hash_loop ps rec pk_only h pos
      else if p \<noteq> 0
      then bind_outcome (index_at rec pos) (\<lambda>e.
        let h1 = hash_type h e in
        if e = TYPE_INT \<or> e = TYPE_REAL
        then bind_outcome (get_i64 rec (pos + 1)) (\<lambda>v. pk_hash_loop ps rec pk_only (hash_i64 h1 v) (pos + 9))
        else let (n, hdr) = get_varint rec (pos + 1); start = pos + 1 + hdr; fin = usize_add start (unat n)
             in bind_outcome (slice rec start fin) (\<lambda>z. pk_hash_loop ps rec pk_only (hash_blob h1 z) fin))
      else bind_outcome (serial_len rec pos) (\<lambda>l. pk_hash_loop ps rec pk_only h (usize_add pos l)))"

definition record_pk_hash :: "bytes \<Rightarrow> bytes \<Rightarrow> bool \<Rightarrow> u32 \<Rightarrow> nat outcome" where
  "record_pk_hash ab_pk rec pk_only n_bucket =
     bind_outcome (pk_hash_loop ab_pk rec pk_only 0 0) (\<lambda>h.
       if n_bucket = 0 then Panic else Ok (unat (h mod n_bucket)))"

fun is_key_val :: "sess_val \<Rightarrow> bool" where
  "is_key_val (SInt _) = True"
| "is_key_val (SReal _) = True"
| "is_key_val (SText _) = True"
| "is_key_val (SBlob _) = True"
| "is_key_val _ = False"

fun field_hash :: "u32 \<Rightarrow> sess_val \<Rightarrow> u32" where
  "field_hash h (SInt i) = hash_i64 (hash_type h TYPE_INT) i"
| "field_hash h (SReal r) = hash_i64 (hash_type h TYPE_REAL) r"
| "field_hash h (SText t) = hash_blob (hash_type h TYPE_TEXT) t"
| "field_hash h (SBlob b) = hash_blob (hash_type h TYPE_BLOB) b"
| "field_hash h _ = h"

definition key_hash :: "sess_val list \<Rightarrow> u32" where
  "key_hash k = foldl field_hash 0 k"

lemma key_of_Nil [simp]: "key_of [] vs = []" "key_of pk [] = []"
  by (simp_all add: key_of_def)

lemma key_of_Cons [simp]: "key_of (p # pk) (v # vs) = (if p \<noteq> 0 then v # key_of pk vs else key_of pk vs)"
  by (simp add: key_of_def)

text \<open>One key field, hashed in place.\<close>

lemma pk_hash_field:
  assumes "fits a" "sess_val_ok v" "is_key_val v" "p \<noteq> 0" and d: "drop pos a = append_field v @ rest"
  shows "pk_hash_loop (p # ps) a pk_only h pos = pk_hash_loop ps a pk_only (field_hash h v) (pos + length (append_field v))"
proof -
  note q = drop_append_field_pos [OF d]
  have i64: "get_i64 a (pos + 1) = Ok w" if "append_field v = e # put_i64 w" for e w
  proof -
    have "drop (pos + 1) a = put_i64 w @ rest" using d that drop_Suc_eq [of pos a] by simp
    then have "take 8 (drop (pos + 1) a) = put_i64 w" by (simp add: put_i64_def)
    moreover have "pos + 9 \<le> length a" using q that by (simp add: put_i64_def)
    ultimately show ?thesis by (simp add: get_i64_def slice_def put_i64_def)
  qed
  have body: "pk_hash_loop (p # ps) a pk_only h pos
      = pk_hash_loop ps a pk_only (hash_blob (hash_type h e) t) (pos + length (append_field v))"
    if "append_field v = e # put_varint (word_of_nat (length t)) @ t" "fits t" "e \<noteq> TYPE_INT" "e \<noteq> TYPE_REAL" for e t
  proof -
    have d': "drop pos a = e # put_varint (word_of_nat (length t)) @ t @ rest" using d that(1) by simp
    note b = body_field [OF assms(1) that(2) d']
    have "usize_add (pos + 1 + length (put_varint (word_of_nat (length t)))) (length t)
        = pos + 1 + length (put_varint (word_of_nat (length t))) + length t"
      using b(3) assms(1) by (simp add: fits_def)
    then show ?thesis using b q that assms(4) by (simp add: index_at_def slice_def Let_def add.assoc)
  qed
  show ?thesis
    using assms(2-4) q body i64 [of TYPE_INT] i64 [of TYPE_REAL]
    by (cases v) (simp_all add: index_at_def type_defs put_i64_def Let_def del: One_nat_def)
qed

lemma pk_hash_loop_fields:
  "fits a \<Longrightarrow> list_all sess_val_ok vs \<Longrightarrow> list_all is_key_val (key_of pk vs) \<Longrightarrow> length vs = length pk \<Longrightarrow>
   drop pos a = field_bytes vs @ rest \<Longrightarrow> pos \<le> length a \<Longrightarrow>
   pk_hash_loop pk a False h pos = Ok (foldl field_hash h (key_of pk vs))"
proof (induction pk arbitrary: vs pos h)
  case (Cons p pk)
  obtain v vs' where vs: "vs = v # vs'" using Cons.prems(4) by (cases vs) auto
  have d: "drop pos a = append_field v @ field_bytes vs' @ rest" using Cons.prems(5) vs by simp
  note q = drop_append_field_pos [OF d]
  have d': "drop (pos + length (append_field v)) a = field_bytes vs' @ rest" by (rule drop_add_append [OF d])
  have IH: "pk_hash_loop pk a False h' (pos + length (append_field v)) = Ok (foldl field_hash h' (key_of pk vs'))" for h'
    using Cons.prems vs q by (intro Cons.IH d') (auto split: if_splits)
  show ?case
  proof (cases "p = 0")
    case True
    moreover have "serial_len a pos = Ok (length (append_field v))"
      using serial_len_field [OF Cons.prems(1) _ d] Cons.prems(2) vs by simp
    moreover have "usize_add pos (length (append_field v)) = pos + length (append_field v)"
      using q Cons.prems(1) by (simp add: fits_def)
    ultimately show ?thesis using IH vs by simp
  next
    case False
    then show ?thesis
      using pk_hash_field [OF Cons.prems(1) _ _ False d] Cons.prems(2,3) vs IH by (simp del: pk_hash_loop.simps)
  qed
qed simp

lemma record_pk_hash_fields:
  assumes "fits (field_bytes vs @ rest)" "list_all sess_val_ok vs" "list_all is_key_val (key_of pk vs)"
    "length vs = length pk" "n \<noteq> 0"
  shows "record_pk_hash pk (field_bytes vs @ rest) False n = Ok (unat (key_hash (key_of pk vs) mod n))"
  using assms pk_hash_loop_fields [of "field_bytes vs @ rest" vs pk 0 rest 0]
  by (simp add: record_pk_hash_def key_hash_def)

end
