(* ===== verification/Merge_Spec.thy ===== *)
theory Merge_Spec
  imports Change_Spec
begin

text \<open>
  The abstract coalescing of two changes to one row, and its correctness: whenever the first
  change and then the second apply without a conflict, the merged change takes the first
  state to the last one.
\<close>

definition squash_old :: "bytes \<Rightarrow> sess_val list \<Rightarrow> sess_val list \<Rightarrow> sess_val list" where
  "squash_old pk ov nv = map (\<lambda>(p, o', n). if p \<noteq> 0 \<or> o' \<noteq> n then o' else Undef) (zip pk (zip ov nv))"

definition squash_new :: "bytes \<Rightarrow> sess_val list \<Rightarrow> sess_val list \<Rightarrow> sess_val list" where
  "squash_new pk ov nv = map (\<lambda>(p, o', n). if p \<noteq> 0 \<or> o' = n then Undef else n) (zip pk (zip ov nv))"

definition differs :: "bytes \<Rightarrow> sess_val list \<Rightarrow> sess_val list \<Rightarrow> bool" where
  "differs pk ov nv \<longleftrightarrow> list_ex (\<lambda>(p, o', n). p = 0 \<and> o' \<noteq> n) (zip pk (zip ov nv))"

definition squash :: "bool \<Rightarrow> bytes \<Rightarrow> sess_val list \<Rightarrow> sess_val list \<Rightarrow> change option" where
  "squash i pk ov nv = (if differs pk ov nv then Some (Upd i (squash_old pk ov nv) (squash_new pk ov nv)) else None)"

text \<open>\<open>None\<close>: the combination cannot arise and the later change is discarded; \<open>Some None\<close>: the two cancel out.\<close>

fun merge_changes :: "bytes \<Rightarrow> change \<Rightarrow> change \<Rightarrow> change option option" where
  "merge_changes pk (Ins i v) (Upd j ov nv) = Some (Some (Ins (j \<and> i) (overlay nv v)))"
| "merge_changes pk (Ins i v) (Del j w) = Some None"
| "merge_changes pk (Del i v) (Ins j w) = Some (squash (j \<and> i) pk v w)"
| "merge_changes pk (Upd i o1 n1) (Upd j o2 n2) = Some (squash (j \<and> i) pk (overlay o1 o2) (overlay n2 n1))"
| "merge_changes pk (Upd i o1 n1) (Del j w) = Some (Some (Del (j \<and> i) (overlay o1 w)))"
| "merge_changes pk _ _ = None"

lemma squash_nth:
  assumes "length ov = length pk" "length nv = length pk"
  shows "length (squash_old pk ov nv) = length pk" "length (squash_new pk ov nv) = length pk"
    "i < length pk \<Longrightarrow> squash_old pk ov nv ! i = (if pk ! i \<noteq> 0 \<or> ov ! i \<noteq> nv ! i then ov ! i else Undef)"
    "i < length pk \<Longrightarrow> squash_new pk ov nv ! i = (if pk ! i \<noteq> 0 \<or> ov ! i = nv ! i then Undef else nv ! i)"
    "differs pk ov nv \<longleftrightarrow> (\<exists>i < length pk. pk ! i = 0 \<and> ov ! i \<noteq> nv ! i)"
  using assms by (auto simp: squash_old_def squash_new_def differs_def list_ex_length)

lemma key_of_eq_iff:
  "length vs = length pk \<Longrightarrow> length ws = length pk \<Longrightarrow>
   key_of pk vs = key_of pk ws \<longleftrightarrow> (\<forall>i < length pk. pk ! i \<noteq> 0 \<longrightarrow> vs ! i = ws ! i)"
proof (induction pk arbitrary: vs ws)
  case Nil
  then show ?case by (simp add: key_of_def)
next
  case (Cons p pk)
  obtain v vs' w ws' where "vs = v # vs'" "ws = w # ws'" using Cons.prems by (cases vs; cases ws) auto
  with Cons show ?case by (auto simp: key_of_def less_Suc_eq_0_disj all_conj_distrib)
qed

lemma no_Undef_nth: "Undef \<notin> set vs \<longleftrightarrow> (\<forall>i < length vs. vs ! i \<noteq> Undef)"
  by (auto simp: in_set_conv_nth)

lemma change_rec_length: "change_shape pk c \<Longrightarrow> length (change_rec c) = length pk"
  by (cases c) (simp_all add: upd_shape_def)

lemma squash_shape:
  assumes "length ov = length pk" "length nv = length pk"
    and "\<And>i. i < length pk \<Longrightarrow> pk ! i \<noteq> 0 \<Longrightarrow> ov ! i \<noteq> Undef"
    and "\<And>i. i < length pk \<Longrightarrow> pk ! i = 0 \<Longrightarrow> ov ! i \<noteq> nv ! i \<Longrightarrow> ov ! i \<noteq> Undef \<and> nv ! i \<noteq> Undef"
    and "squash b pk ov nv = Some c"
  shows "change_shape pk c" "key_of pk (change_rec c) = key_of pk ov"
  using assms
  by (auto simp: squash_def squash_nth upd_shape_nth key_of_eq_iff split: if_splits)

lemma merge_changes_shape:
  assumes "change_shape pk c1" "change_shape pk c2" "key_of pk (change_rec c1) = key_of pk (change_rec c2)"
    and "merge_changes pk c1 c2 = Some (Some c)"
  shows "change_shape pk c \<and> key_of pk (change_rec c) = key_of pk (change_rec c1)"
  using assms
proof (cases "(pk, c1, c2)" rule: merge_changes.cases)
  case (1 _ i v j ov nv)
  then show ?thesis
    using assms by (auto simp: upd_shape_nth no_Undef_nth key_of_eq_iff)
next
  case (3 _ i v j w)
  then show ?thesis
    using assms squash_shape [of v pk w "j \<and> i" c] by (auto simp: no_Undef_nth)
next
  case (4 _ i o1 n1 j o2 n2)
  have len: "length o1 = length pk" "length n1 = length pk" "length o2 = length pk" "length n2 = length pk"
    using assms 4 by (auto simp: upd_shape_nth)
  have "change_shape pk c \<and> key_of pk (change_rec c) = key_of pk (overlay o1 o2)"
    using assms 4 len squash_shape [of "overlay o1 o2" pk "overlay n2 n1" "j \<and> i" c]
    by (fastforce simp: upd_shape_nth split: if_splits)
  moreover have "key_of pk (overlay o1 o2) = key_of pk o1"
    using assms(1) 4 len by (auto simp: key_of_eq_iff upd_shape_nth)
  ultimately show ?thesis using 4 by simp
next
  case (5 _ i o1 n1 j w)
  then show ?thesis
    using assms by (auto simp: upd_shape_nth no_Undef_nth key_of_eq_iff)
qed auto

lemma squash_act:
  assumes len: "length ov = length pk" "length nv = length pk" "length r = length pk" "length r2 = length pk"
    and old: "\<And>i. i < length pk \<Longrightarrow> ov ! i = Undef \<or> ov ! i = r ! i"
    and key: "\<And>i. i < length pk \<Longrightarrow> pk ! i \<noteq> 0 \<Longrightarrow> r2 ! i = r ! i"
    and new: "\<And>i. i < length pk \<Longrightarrow> pk ! i = 0 \<Longrightarrow> r2 ! i = (if nv ! i = Undef then r ! i else nv ! i)"
    and both: "\<And>i. i < length pk \<Longrightarrow> pk ! i = 0 \<Longrightarrow> (ov ! i = Undef) = (nv ! i = Undef)"
  shows "case squash b pk ov nv of None \<Rightarrow> r2 = r | Some c \<Rightarrow> act c (Some r) = Some (Some r2)"
proof (cases "differs pk ov nv")
  case False
  have "r2 ! i = r ! i" if "i < length pk" for i
    using False that key [OF that] new [OF that] old [OF that] both [OF that]
    by (cases "pk ! i = 0") (auto simp: squash_nth len split: if_splits)
  then have "r2 = r" using len by (intro nth_equalityI) auto
  with False show ?thesis by (simp add: squash_def)
next
  case True
  have "matches (squash_old pk ov nv) r"
    using len old by (auto simp: matches_nth squash_nth)
  moreover have "overlay (squash_new pk ov nv) r ! i = r2 ! i" if "i < length pk" for i
    using that len old [OF that] key [OF that] new [OF that] both [OF that]
    by (cases "pk ! i = 0") (auto simp: squash_nth split: if_splits)
  then have "overlay (squash_new pk ov nv) r = r2"
    using len by (intro nth_equalityI) (auto simp: squash_nth)
  ultimately show ?thesis using True by (simp add: squash_def)
qed

lemma merge_changes_act:
  assumes sh: "change_shape pk c1" "change_shape pk c2" and keys: "key_of pk (change_rec c1) = key_of pk (change_rec c2)"
    and a1: "act c1 s = Some s1" and a2: "act c2 s1 = Some s2"
  shows "case merge_changes pk c1 c2 of None \<Rightarrow> False | Some None \<Rightarrow> s2 = s | Some (Some c) \<Rightarrow> act c s = Some s2"
proof (cases "(pk, c1, c2)" rule: merge_changes.cases)
  case (1 _ i v j ov nv)
  then show ?thesis using a1 a2 by (cases s) (auto split: if_splits)
next
  case (2 _ i v j w)
  then show ?thesis using a1 a2 by (cases s) (auto split: if_splits)
next
  case (3 _ i v j w)
  then have s: "s = Some v" "s1 = None" "s2 = Some w" using a1 a2 by (cases s; auto split: if_splits)+
  have len: "length v = length pk" "length w = length pk" using sh 3 by auto
  have "case squash (j \<and> i) pk v w of None \<Rightarrow> w = v | Some c \<Rightarrow> act c (Some v) = Some (Some w)"
    using sh keys 3 len by (intro squash_act) (auto simp: no_Undef_nth key_of_eq_iff)
  then show ?thesis using 3 s by (auto split: option.splits)
next
  case (4 _ i o1 n1 j o2 n2)
  then obtain r where s: "s = Some r" "s1 = Some (overlay n1 r)" "s2 = Some (overlay n2 (overlay n1 r))"
      and m: "matches o1 r" "matches o2 (overlay n1 r)"
    using a1 a2 by (cases s; auto split: if_splits)
  have len: "length o1 = length pk" "length n1 = length pk" "length o2 = length pk" "length n2 = length pk"
      "length r = length pk"
    using sh 4 m by (auto simp: upd_shape_nth matches_nth)
  have p: "if pk ! k \<noteq> 0 then o1 ! k \<noteq> Undef \<and> n1 ! k = Undef \<and> n2 ! k = Undef
           else (o1 ! k = Undef) = (n1 ! k = Undef) \<and> (o2 ! k = Undef) = (n2 ! k = Undef)"
      "o1 ! k = Undef \<or> o1 ! k = r ! k" "o2 ! k = Undef \<or> o2 ! k = (if n1 ! k = Undef then r ! k else n1 ! k)"
    if "k < length pk" for k
    using sh 4 m len that by (auto simp: upd_shape_nth matches_nth split: if_splits)
  have q: "overlay o1 o2 ! k = Undef \<or> overlay o1 o2 ! k = r ! k"
      "pk ! k \<noteq> 0 \<Longrightarrow> overlay n2 (overlay n1 r) ! k = r ! k"
      "overlay n2 (overlay n1 r) ! k = (if overlay n2 n1 ! k = Undef then r ! k else overlay n2 n1 ! k)"
      "pk ! k = 0 \<Longrightarrow> (overlay o1 o2 ! k = Undef) = (overlay n2 n1 ! k = Undef)"
    if "k < length pk" for k
    using that len p [OF that] by (auto split: if_splits)
  have "case squash (j \<and> i) pk (overlay o1 o2) (overlay n2 n1) of
          None \<Rightarrow> overlay n2 (overlay n1 r) = r
        | Some c \<Rightarrow> act c (Some r) = Some (Some (overlay n2 (overlay n1 r)))"
    by (rule squash_act) (use len q in simp_all)
  then show ?thesis using 4 s by (auto split: option.splits)
next
  case (5 _ i o1 n1 j w)
  then obtain r where s: "s = Some r" "s1 = Some (overlay n1 r)" "s2 = None" "w = overlay n1 r" and m: "matches o1 r"
    using a1 a2 by (cases s; auto split: if_splits)
  have len: "length o1 = length pk" "length n1 = length pk" "length r = length pk"
    using sh 5 m by (auto simp: upd_shape_nth matches_nth)
  have "overlay o1 (overlay n1 r) ! k = r ! k" if "k < length pk" for k
    using sh(1) 5 m len that by (auto simp: upd_shape_nth matches_nth split: if_splits)
  then have "overlay o1 (overlay n1 r) = r" using len by (intro nth_equalityI) auto
  then show ?thesis using 5 s by simp
qed (use a1 a2 in \<open>cases s; auto split: if_splits\<close>)+

text \<open>
  A group of changes, at most one per row, and the database transition it stands for. A change
  to a row that has one already is folded in by \<open>mrg\<close>; with the coalescing above that extends
  the transition by the change.
\<close>

type_synonym delta = "loc \<Rightarrow> change option"

definition add_delta :: "(change \<Rightarrow> change \<Rightarrow> change option option) \<Rightarrow> delta \<Rightarrow> loc \<Rightarrow> change \<Rightarrow> delta" where
  "add_delta mrg G l c =
     (case G l of None \<Rightarrow> G(l \<mapsto> c)
      | Some c1 \<Rightarrow> (case mrg c1 c of None \<Rightarrow> G | Some m \<Rightarrow> G(l := m)))"

definition takes :: "delta \<Rightarrow> db \<Rightarrow> db \<Rightarrow> bool" where
  "takes G d d' \<longleftrightarrow> (\<forall>l. case G l of None \<Rightarrow> d' l = d l | Some c \<Rightarrow> act c (d l) = Some (d' l))"

lemma takes_empty: "takes (\<lambda>_. None) d d"
  by (simp add: takes_def)

lemma takes_update:
  assumes "takes G d d'" "case m of None \<Rightarrow> s = d l | Some c \<Rightarrow> act c (d l) = Some s"
  shows "takes (G(l := m)) d (d'(l := s))"
  unfolding takes_def
proof
  fix k
  show "case (G(l := m)) k of None \<Rightarrow> (d'(l := s)) k = d k | Some c \<Rightarrow> act c (d k) = Some ((d'(l := s)) k)"
    using assms(1) [unfolded takes_def, rule_format, of k] assms(2) by (cases "k = l") (simp_all split: option.splits)
qed

lemma add_delta_takes:
  assumes "takes G d d'" "act c (d' l) = Some s"
    and "change_shape pk c" "\<And>c1. G l = Some c1 \<Longrightarrow> change_shape pk c1 \<and> key_of pk (change_rec c1) = key_of pk (change_rec c)"
  shows "takes (add_delta (merge_changes pk) G l c) d (d'(l := s))"
proof (cases "G l")
  case None
  then have "d' l = d l" using assms(1) [unfolded takes_def, rule_format, of l] by simp
  then show ?thesis
    using None takes_update [OF assms(1), where m = "Some c"] assms(2) by (simp add: add_delta_def)
next
  case (Some c1)
  then have a: "act c1 (d l) = Some (d' l)" using assms(1) [unfolded takes_def, rule_format, of l] by simp
  note m = merge_changes_act [OF _ assms(3) _ a assms(2)] assms(4) [OF Some]
  from m obtain r where r: "merge_changes pk c1 c = Some r" by (auto split: option.splits)
  with m have "case r of None \<Rightarrow> s = d l | Some c' \<Rightarrow> act c' (d l) = Some s" by (auto split: option.splits)
  then show ?thesis
    using Some r takes_update [OF assms(1), where m = r] by (simp add: add_delta_def)
qed

lemma apply_takes:
  assumes "distinct (map fst cs)" "\<And>l c. (l, c) \<in> set cs \<longleftrightarrow> G l = Some c" "takes G d d'"
  shows "apply_changes cs d = Some d'"
  unfolding apply_changes_distinct [OF assms(1)]
proof (intro conjI ballI allI impI)
  fix x assume x: "x \<in> set cs"
  obtain l c where lc: "x = (l, c)" by fastforce
  have "G l = Some c" using x assms(2) [of l c] lc by blast
  with lc show "case x of (l, c) \<Rightarrow> act c (d l) = Some (d' l)"
    using assms(3) [unfolded takes_def, rule_format, of l] by simp
next
  fix l assume "l \<notin> fst ` set cs"
  then have "G l = None" using assms(2) [of l] by (cases "G l") force+
  then show "d' l = d l" using assms(3) [unfolded takes_def, rule_format, of l] by simp
qed

end
