(* ===== verification/Session_Group.thy ===== *)
theory Session_Group
  imports Session_Hash Merge_Spec
begin

text \<open>
  \<^verbatim>\<open>src/session/group.rs\<close>: the change group, which folds changesets together row by row. A
  table keeps its entries in a vector of slots and finds them through the chained hash; two
  changes to one row are merged on their serialized records. After an \<^verbatim>\<open>Err\<close> or a panic only
  the message is returned.
\<close>

subsection \<open>The code\<close>

record group_entry =
  ge_op :: byte
  ge_indirect :: bool
  ge_record :: bytes

record group_table =
  gt_name :: bytes
  gt_n_col :: nat
  gt_ab_pk :: bytes
  gt_b_patch :: bool
  gt_buckets :: "nat list list"
  gt_entries :: "group_entry option list"
  gt_n_entry :: nat

record change_group =
  cg_tables :: "group_table list"
  cg_b_patch :: "bool option"
  cg_b_rebase :: bool

definition group_table_new :: "bytes \<Rightarrow> nat \<Rightarrow> bytes \<Rightarrow> bool \<Rightarrow> group_table" where
  "group_table_new name n_col ab_pk b_patch =
     \<lparr>gt_name = name, gt_n_col = n_col, gt_ab_pk = ab_pk, gt_b_patch = b_patch,
      gt_buckets = [], gt_entries = [], gt_n_entry = 0\<rparr>"

definition group_new :: change_group where
  "group_new = \<lparr>cg_tables = [], cg_b_patch = None, cg_b_rebase = False\<rparr>"

definition group_new_rebase :: change_group where
  "group_new_rebase = \<lparr>cg_tables = [], cg_b_patch = None, cg_b_rebase = True\<rparr>"

definition group_is_empty :: "change_group \<Rightarrow> bool" where
  "group_is_empty g = list_all (\<lambda>t. gt_n_entry t = 0) (cg_tables g)"

definition b_pk_only_entry :: "byte \<Rightarrow> bool \<Rightarrow> bool" where
  "b_pk_only_entry opb b_patch = (opb = OP_DELETE \<and> b_patch)"

definition tail_from :: "bytes \<Rightarrow> nat \<Rightarrow> bytes outcome" where
  "tail_from a n = slice a n (length a)"

fun change_equal :: "bytes \<Rightarrow> bytes \<Rightarrow> bool \<Rightarrow> bytes \<Rightarrow> bool \<Rightarrow> bool outcome" where
  "change_equal [] a1 left_pk_only a2 right_pk_only = Ok True"
| "change_equal (pk # pks) a1 left_pk_only a2 right_pk_only =
     (if pk \<noteq> 0
      then bind_outcome (serial_len a1 0) (\<lambda>n1. bind_outcome (serial_len a2 0) (\<lambda>n2.
        if n1 \<noteq> n2 then Ok False
        else bind_outcome (slice a1 0 n1) (\<lambda>f1. bind_outcome (slice a2 0 n2) (\<lambda>f2.
          if f1 \<noteq> f2 then Ok False
          else bind_outcome (tail_from a1 n1) (\<lambda>r1. bind_outcome (tail_from a2 n2) (\<lambda>r2.
            change_equal pks r1 left_pk_only r2 right_pk_only))))))
      else bind_outcome (if left_pk_only then Ok a1 else bind_outcome (serial_len a1 0) (tail_from a1)) (\<lambda>r1.
        bind_outcome (if right_pk_only then Ok a2 else bind_outcome (serial_len a2 0) (tail_from a2)) (\<lambda>r2.
          change_equal pks r1 left_pk_only r2 right_pk_only)))"

fun merge_record :: "nat \<Rightarrow> bytes \<Rightarrow> bytes \<Rightarrow> bytes outcome" where
  "merge_record 0 a1 a2 = Ok []"
| "merge_record (Suc n) a1 a2 =
     bind_outcome (serial_len a1 0) (\<lambda>n1. bind_outcome (serial_len a2 0) (\<lambda>n2.
       bind_outcome (index_at a2 0) (\<lambda>b.
         bind_outcome (if b \<noteq> 0 then slice a2 0 n2 else slice a1 0 n1) (\<lambda>f.
           bind_outcome (tail_from a1 n1) (\<lambda>r1. bind_outcome (tail_from a2 n2) (\<lambda>r2.
             bind_outcome (merge_record n r1 r2) (\<lambda>fs. Ok (f @ fs))))))))"

definition merge_value :: "bytes \<Rightarrow> bytes option \<Rightarrow> (bytes \<times> bytes \<times> bytes option) outcome" where
  "merge_value a1 a2 =
     bind_outcome (serial_len a1 0) (\<lambda>n1.
       case a2 of
         Some two \<Rightarrow>
           bind_outcome (serial_len two 0) (\<lambda>n2.
             bind_outcome (index_at two 0) (\<lambda>b.
               if b \<noteq> 0
               then bind_outcome (slice two 0 n2) (\<lambda>r. bind_outcome (tail_from a1 n1) (\<lambda>a1'.
                      bind_outcome (tail_from two n2) (\<lambda>two'. Ok (r, a1', Some two'))))
               else bind_outcome (tail_from two n2) (\<lambda>two'. bind_outcome (slice a1 0 n1) (\<lambda>r.
                      bind_outcome (tail_from a1 n1) (\<lambda>a1'. Ok (r, a1', Some two'))))))
       | None \<Rightarrow> bind_outcome (slice a1 0 n1) (\<lambda>r. bind_outcome (tail_from a1 n1) (\<lambda>a1'. Ok (r, a1', None))))"

fun merge_old :: "bytes \<Rightarrow> bytes \<Rightarrow> bytes option \<Rightarrow> bytes \<Rightarrow> bytes option \<Rightarrow> (bool \<times> bytes) outcome" where
  "merge_old [] o1 o2 n1 n2 = Ok (False, [])"
| "merge_old (pk # pks) o1 o2 n1 n2 =
     bind_outcome (merge_value o1 o2) (\<lambda>(a_old, o1', o2'). bind_outcome (merge_value n1 n2) (\<lambda>(a_new, n1', n2').
       bind_outcome (merge_old pks o1' o2' n1' n2') (\<lambda>(req, out).
         Ok (if pk \<noteq> 0 \<or> a_old \<noteq> a_new then (pk = 0 \<or> req, a_old @ out) else (req, 0 # out)))))"

fun merge_new :: "bool \<Rightarrow> bytes \<Rightarrow> bytes \<Rightarrow> bytes option \<Rightarrow> bytes \<Rightarrow> bytes option \<Rightarrow> bytes outcome" where
  "merge_new patch [] o1 o2 n1 n2 = Ok []"
| "merge_new patch (pk # pks) o1 o2 n1 n2 =
     bind_outcome (merge_value o1 o2) (\<lambda>(a_old, o1', o2'). bind_outcome (merge_value n1 n2) (\<lambda>(a_new, n1', n2').
       bind_outcome (merge_new patch pks o1' o2' n1' n2') (\<lambda>out.
         Ok ((if \<not> patch \<and> (pk \<noteq> 0 \<or> a_old = a_new) then [0] else a_new) @ out))))"

text \<open>\<open>None\<close> when the merged update changes nothing (the code returns \<^verbatim>\<open>false\<close>).\<close>

definition merge_update ::
    "bytes \<Rightarrow> nat \<Rightarrow> bool \<Rightarrow> bytes \<Rightarrow> bytes option \<Rightarrow> bytes \<Rightarrow> bytes option \<Rightarrow> bytes option outcome" where
  "merge_update ab_pk n_col patch a_old1 a_old2 a_new1 a_new2 =
     (let pks = take n_col ab_pk in
      bind_outcome (if patch then Ok (True, []) else merge_old pks a_old1 a_old2 a_new1 a_new2) (\<lambda>(req, old_out).
        if \<not> req then Ok None
        else bind_outcome (merge_new patch pks a_old1 a_old2 a_new1 a_new2) (\<lambda>new_out.
          Ok (Some (old_out @ new_out)))))"

fun rebase_merge :: "bytes \<Rightarrow> bool \<Rightarrow> bytes \<Rightarrow> bytes \<Rightarrow> bytes outcome" where
  "rebase_merge [] b_indirect a1 a2 = Ok []"
| "rebase_merge (pk # pks) b_indirect a1 a2 =
     bind_outcome (serial_len a1 0) (\<lambda>n1. bind_outcome (serial_len a2 0) (\<lambda>n2.
       bind_outcome (index_at a1 0) (\<lambda>b1. bind_outcome (index_at a2 0) (\<lambda>b2.
         bind_outcome
           (if b1 = TYPE_REPLACED \<or> (pk = 0 \<and> b_indirect) then Ok [TYPE_REPLACED]
            else if b2 = TYPE_UNDEF then slice a1 0 n1 else slice a2 0 n2) (\<lambda>f.
           bind_outcome (tail_from a1 n1) (\<lambda>r1. bind_outcome (tail_from a2 n2) (\<lambda>r2.
             bind_outcome (rebase_merge pks b_indirect r1 r2) (\<lambda>fs. Ok (f @ fs)))))))))"

definition change_merge ::
    "bytes \<Rightarrow> nat \<Rightarrow> bool \<Rightarrow> bool \<Rightarrow> group_entry \<Rightarrow> byte \<Rightarrow> bool \<Rightarrow> bytes \<Rightarrow>
     (byte \<times> bool \<times> bytes option) option outcome" where
  "change_merge ab_pk n_col b_rebase patch exist op2 b_indirect a_rec =
     (let op1 = ge_op exist; rec1 = ge_record exist in
      if b_rebase
      then if op1 = OP_DELETE \<and> ge_indirect exist then Ok (Some (op1, ge_indirect exist, Some rec1))
           else bind_outcome (rebase_merge (take n_col ab_pk) b_indirect rec1 a_rec) (\<lambda>out.
                  Ok (Some (op2, b_indirect \<or> ge_indirect exist, Some out)))
      else if (op1 = OP_INSERT \<and> op2 = OP_INSERT) \<or> (op1 = OP_UPDATE \<and> op2 = OP_INSERT)
           \<or> (op1 = OP_DELETE \<and> op2 = OP_UPDATE) \<or> (op1 = OP_DELETE \<and> op2 = OP_DELETE)
      then Ok None
      else if op1 = OP_INSERT \<and> op2 = OP_DELETE then Ok (Some (op1, False, None))
      else let ind = (b_indirect \<and> ge_indirect exist) in
        if op1 = OP_INSERT
        then bind_outcome (if patch then Ok a_rec else bind_outcome (skip_record a_rec 0 n_col) (tail_from a_rec)) (\<lambda>a1.
               bind_outcome (merge_record n_col rec1 a1) (\<lambda>out. Ok (Some (OP_INSERT, ind, Some out))))
        else if op1 = OP_DELETE
        then if patch then Ok (Some (OP_UPDATE, ind, Some a_rec))
             else bind_outcome (merge_update ab_pk n_col patch rec1 None a_rec None) (\<lambda>out. Ok (Some (OP_UPDATE, ind, out)))
        else if op2 = OP_UPDATE
        then bind_outcome (if patch then Ok rec1 else bind_outcome (skip_record rec1 0 n_col) (tail_from rec1)) (\<lambda>a1.
               bind_outcome (if patch then Ok a_rec else bind_outcome (skip_record a_rec 0 n_col) (tail_from a_rec)) (\<lambda>a2.
                 bind_outcome (merge_update ab_pk n_col patch a_rec (Some rec1) a1 (Some a2)) (\<lambda>out.
                   Ok (Some (OP_UPDATE, ind, out)))))
        else if patch then Ok (Some (OP_DELETE, ind, Some a_rec))
        else bind_outcome (merge_record n_col a_rec rec1) (\<lambda>out. Ok (Some (OP_DELETE, ind, Some out))))"

definition entry_hash :: "bytes \<Rightarrow> bool \<Rightarrow> nat \<Rightarrow> group_entry \<Rightarrow> nat outcome" where
  "entry_hash ab_pk b_patch n e =
     record_pk_hash ab_pk (ge_record e) (b_pk_only_entry (ge_op e) b_patch) (word_of_nat n)"

definition grow_table :: "group_table \<Rightarrow> group_table outcome" where
  "grow_table t =
     (let bs = gt_buckets t in
      if bs = [] \<or> length bs div 2 \<le> gt_n_entry t
      then let n_new = (if bs = [] then 256 else length bs * 2) in
        bind_outcome
          (rehash_ids (\<lambda>i. bind_outcome (get_entry (gt_entries t) i) (entry_hash (gt_ab_pk t) (gt_b_patch t) n_new))
             (concat bs) (replicate n_new []))
          (\<lambda>nb. Ok (t\<lparr>gt_buckets := nb\<rparr>))
      else Ok t)"

definition compat_table :: "group_table \<Rightarrow> nat \<Rightarrow> bytes \<Rightarrow> bool" where
  "compat_table t n_col ab_pk_cs \<longleftrightarrow> n_col \<le> length (gt_ab_pk t)
     \<and> list_all (\<lambda>(p, q). (p \<noteq> 0) = (q \<noteq> 0)) (take n_col (zip (gt_ab_pk t) ab_pk_cs))"

definition fold_change :: "bool \<Rightarrow> group_table \<Rightarrow> nat \<Rightarrow> bool \<Rightarrow> byte \<Rightarrow> bool \<Rightarrow> bytes \<Rightarrow> group_table outcome" where
  "fold_change b_rebase t n_col patch opb indirect raw =
     (let pk_only = (opb = OP_DELETE \<and> patch) in
      bind_outcome (record_pk_hash (gt_ab_pk t) raw pk_only (word_of_nat (length (gt_buckets t)))) (\<lambda>h.
      bind_outcome (index_at (gt_buckets t) h) (\<lambda>chain.
      bind_outcome (find_in_chain (\<lambda>i. bind_outcome (get_entry (gt_entries t) i) (\<lambda>e.
          change_equal (take n_col (gt_ab_pk t)) (ge_record e) (b_pk_only_entry (ge_op e) (gt_b_patch t)) raw pk_only)) chain) (\<lambda>existing.
      case existing of
        None \<Rightarrow> Ok (t\<lparr>gt_entries := gt_entries t @ [Some \<lparr>ge_op = opb, ge_indirect = indirect, ge_record = raw\<rparr>],
                     gt_buckets := (gt_buckets t)[h := length (gt_entries t) # chain],
                     gt_n_entry := gt_n_entry t + 1\<rparr>)
      | Some i \<Rightarrow>
          bind_outcome (get_entry (gt_entries t) i) (\<lambda>e.
          bind_outcome (change_merge (gt_ab_pk t) n_col b_rebase (gt_b_patch t) e opb indirect raw) (\<lambda>merged.
            case merged of
              None \<Rightarrow> Ok t
            | Some (mop, mind, Some m) \<Rightarrow>
                Ok (t\<lparr>gt_entries := (gt_entries t)[i := Some \<lparr>ge_op = mop, ge_indirect = mind, ge_record = m\<rparr>]\<rparr>)
            | Some (mop, mind, None) \<Rightarrow>
                Ok (t\<lparr>gt_entries := (gt_entries t)[i := None], gt_n_entry := gt_n_entry t - 1,
                      gt_buckets := (gt_buckets t)[h := filter (\<lambda>x. x \<noteq> i) chain]\<rparr>)))))))"

definition add_one :: "change_group \<Rightarrow> bytes \<Rightarrow> nat \<Rightarrow> bytes \<Rightarrow> bool \<Rightarrow> byte \<Rightarrow> bool \<Rightarrow> bytes \<Rightarrow> change_group outcome" where
  "add_one g table n_col ab_pk_cs patch opb indirect raw =
     (if cg_b_patch g \<noteq> None \<and> cg_b_patch g \<noteq> Some patch then Err ''cannot mix changesets and patchsets''
      else let (ts, ti) =
          (case position (\<lambda>t. eq_ignore_ascii_case (gt_name t) table) (cg_tables g) of
             Some i \<Rightarrow> (cg_tables g, i)
           | None \<Rightarrow> (cg_tables g @ [group_table_new table n_col ab_pk_cs patch], length (cg_tables g)));
          t = ts ! ti
        in if \<not> compat_table t n_col ab_pk_cs then Err ''primary key mismatch''
           else bind_outcome (grow_table t) (\<lambda>t1.
             bind_outcome (fold_change (cg_b_rebase g) t1 n_col patch opb indirect raw) (\<lambda>t2.
               Ok (g\<lparr>cg_b_patch := Some patch, cg_tables := ts[ti := t2]\<rparr>))))"

definition add_event :: "change_group \<Rightarrow> event \<Rightarrow> change_group outcome" where
  "add_event g e = add_one g (ev_table e) (ev_n_col e) (ev_pk e) (ev_patchset e) (ev_op e) (ev_indirect e) (ev_raw e)"

definition group_add :: "change_group \<Rightarrow> bytes \<Rightarrow> change_group outcome" where
  "group_add g cs = iter_while add_event g (start_data cs 0)"

definition entry_bytes :: "group_entry \<Rightarrow> bytes" where
  "entry_bytes e = ge_op e # (if ge_indirect e then 1 else 0) # ge_record e"

definition table_output :: "group_table \<Rightarrow> bytes" where
  "table_output t =
     (if gt_n_entry t = 0 then []
      else (if gt_b_patch t then ch_P else ch_T) # put_varint (word_of_nat (gt_n_col t)) @ gt_ab_pk t @ gt_name t @ [0]
        @ concat (map (\<lambda>i. if i < length (gt_entries t) then (case gt_entries t ! i of Some e \<Rightarrow> entry_bytes e | None \<Rightarrow> []) else [])
            (concat (gt_buckets t))))"

definition group_output :: "change_group \<Rightarrow> bytes" where
  "group_output g = concat (map table_output (cg_tables g))"

definition group_concat :: "bytes \<Rightarrow> bytes \<Rightarrow> bytes outcome" where
  "group_concat a b =
     bind_outcome (group_add group_new a) (\<lambda>g1. bind_outcome (group_add g1 b) (\<lambda>g2. Ok (group_output g2)))"

subsection \<open>Records, field by field\<close>

lemma field_at_0:
  assumes "fits (append_field v @ r)" "sess_val_ok v"
  shows "serial_len (append_field v @ r) 0 = Ok (length (append_field v))"
    "slice (append_field v @ r) 0 (length (append_field v)) = Ok (append_field v)"
    "tail_from (append_field v @ r) (length (append_field v)) = Ok r"
    "index_at (append_field v @ r) 0 = Ok (hd (append_field v))"
  using serial_len_field [OF assms, of 0 r]
  by (simp_all add: slice_def tail_from_def index_at_def hd_conv_nth nth_append)

lemma hd_field: "hd (append_field v) = 0 \<longleftrightarrow> v = Undef" "hd (append_field v) = TYPE_REPLACED \<longleftrightarrow> v = Replaced"
  "hd (append_field v) = TYPE_UNDEF \<longleftrightarrow> v = Undef"
  by (cases v; simp add: type_defs)+

lemma field_eq_iff:
  "sess_val_ok v \<Longrightarrow> sess_val_ok w \<Longrightarrow> fits (append_field v) \<Longrightarrow> append_field v = append_field w \<longleftrightarrow> v = w"
  using sess_field.enc_inj by blast

lemma change_equal_fields:
  "length vs = length pk \<Longrightarrow> length ws = length pk \<Longrightarrow> list_all sess_val_ok vs \<Longrightarrow> list_all sess_val_ok ws \<Longrightarrow>
   fits (field_bytes vs @ r) \<Longrightarrow> fits (field_bytes ws @ s) \<Longrightarrow>
   change_equal pk (field_bytes vs @ r) False (field_bytes ws @ s) False = Ok (key_of pk vs = key_of pk ws)"
proof (induction pk arbitrary: vs ws)
  case (Cons p pk)
  obtain v vs' w ws' where e: "vs = v # vs'" "ws = w # ws'" using Cons.prems by (cases vs; cases ws) auto
  have f: "fits (append_field v @ field_bytes vs' @ r)" "fits (append_field w @ field_bytes ws' @ s)"
    using Cons.prems e by simp_all
  have ok: "sess_val_ok v" "sess_val_ok w" using Cons.prems e by simp_all
  note st = field_at_0 [OF f(1) ok(1)] field_at_0 [OF f(2) ok(2)]
  have eq: "append_field v = append_field w \<longleftrightarrow> v = w" by (rule field_eq_iff [OF ok fits_appendD(1) [OF f(1)]])
  have IH: "change_equal pk (field_bytes vs' @ r) False (field_bytes ws' @ s) False = Ok (key_of pk vs' = key_of pk ws')"
    using Cons.prems e fits_appendD(2) [OF f(1)] fits_appendD(2) [OF f(2)] by (intro Cons.IH) simp_all
  show ?case
  proof (cases "p = 0")
    case True
    with st IH e show ?thesis by simp
  next
    case False
    then show ?thesis
      using st IH e eq by (cases "length (append_field v) = length (append_field w)") auto
  qed
qed simp

lemma merge_record_fields:
  "length ws = length vs \<Longrightarrow> list_all sess_val_ok vs \<Longrightarrow> list_all sess_val_ok ws \<Longrightarrow>
   fits (field_bytes vs @ r) \<Longrightarrow> fits (field_bytes ws @ s) \<Longrightarrow>
   merge_record (length vs) (field_bytes vs @ r) (field_bytes ws @ s) = Ok (field_bytes (overlay ws vs))"
proof (induction vs arbitrary: ws)
  case Nil
  then show ?case by (simp add: overlay_def)
next
  case (Cons v vs)
  obtain w ws' where e: "ws = w # ws'" using Cons.prems by (cases ws) auto
  have f: "fits (append_field v @ field_bytes vs @ r)" "fits (append_field w @ field_bytes ws' @ s)"
    using Cons.prems e by simp_all
  have ok: "sess_val_ok v" "sess_val_ok w" using Cons.prems e by simp_all
  have "merge_record (length vs) (field_bytes vs @ r) (field_bytes ws' @ s) = Ok (field_bytes (overlay ws' vs))"
    using Cons.prems e fits_appendD(2) [OF f(1)] fits_appendD(2) [OF f(2)] by (intro Cons.IH) simp_all
  then show ?case
    using field_at_0 [OF f(1) ok(1)] field_at_0 [OF f(2) ok(2)] e hd_field(1) [of w] by (simp add: overlay_def)
qed

text \<open>A pair of streams that \<open>merge_value\<close> reads as the fields \<open>vs\<close>.\<close>

fun yields :: "bytes \<Rightarrow> bytes option \<Rightarrow> sess_val list \<Rightarrow> bool" where
  "yields o1 None vs \<longleftrightarrow> (\<exists>r. o1 = field_bytes vs @ r) \<and> fits o1 \<and> list_all sess_val_ok vs"
| "yields o1 (Some o2) vs \<longleftrightarrow> (\<exists>us ws r s. o1 = field_bytes us @ r \<and> o2 = field_bytes ws @ s \<and> length us = length ws
     \<and> list_all sess_val_ok us \<and> list_all sess_val_ok ws \<and> vs = overlay ws us) \<and> fits o1 \<and> fits o2"

lemma yields_Cons:
  assumes "yields o1 o2 (v # vs)"
  shows "\<exists>o1' o2'. merge_value o1 o2 = Ok (append_field v, o1', o2') \<and> yields o1' o2' vs
    \<and> sess_val_ok v \<and> fits (append_field v)"
proof (cases o2)
  case None
  with assms obtain r where o1: "o1 = append_field v @ field_bytes vs @ r" and f: "fits o1"
    and ok: "sess_val_ok v" "list_all sess_val_ok vs" by auto
  have f': "fits (append_field v @ field_bytes vs @ r)" using f o1 by simp
  show ?thesis
    using field_at_0 [OF f' ok(1)] None o1 ok fits_appendD [OF f'] by (auto simp: merge_value_def)
next
  case (Some o2')
  with assms obtain us ws r s where e: "o1 = field_bytes us @ r" "o2' = field_bytes ws @ s" "length us = length ws"
      "list_all sess_val_ok us" "list_all sess_val_ok ws" "v # vs = overlay ws us" "fits o1" "fits o2'" by auto
  obtain u us' w ws' where c: "us = u # us'" "ws = w # ws'"
    using e(3,6) by (cases us; cases ws) (auto simp: overlay_def)
  have v: "v = (if w = Undef then u else w)" "vs = overlay ws' us'" using e(6) c by (simp_all add: overlay_def)
  have f: "fits (append_field u @ field_bytes us' @ r)" "fits (append_field w @ field_bytes ws' @ s)"
    using e c by simp_all
  have ok: "sess_val_ok u" "sess_val_ok w" using e c by simp_all
  have fr: "fits (field_bytes us' @ r)" "fits (field_bytes ws' @ s)" "fits (append_field u)" "fits (append_field w)"
    using fits_appendD [OF f(1)] fits_appendD [OF f(2)] by simp_all
  have "merge_value o1 o2 = Ok (append_field v, field_bytes us' @ r, Some (field_bytes ws' @ s))"
    using field_at_0 [OF f(1) ok(1)] field_at_0 [OF f(2) ok(2)] e(1,2) c Some hd_field(1) [of w] v(1)
    by (cases "w = Undef") (simp_all add: merge_value_def tail_from_def slice_def)
  moreover have "yields (field_bytes us' @ r) (Some (field_bytes ws' @ s)) vs"
    using e(3-5) c fr v(2) by auto
  ultimately show ?thesis using v(1) ok fr by auto
qed

lemma merge_old_fields:
  "length ov = length pk \<Longrightarrow> length nv = length pk \<Longrightarrow> yields o1 o2 ov \<Longrightarrow> yields n1 n2 nv \<Longrightarrow>
   merge_old pk o1 o2 n1 n2 = Ok (differs pk ov nv, field_bytes (squash_old pk ov nv))"
proof (induction pk arbitrary: ov nv o1 o2 n1 n2)
  case Nil
  then show ?case by (simp add: differs_def squash_old_def)
next
  case (Cons p pk)
  obtain v ov' w nv' where e: "ov = v # ov'" "nv = w # nv'" using Cons.prems by (cases ov; cases nv) auto
  obtain o1' o2' where o: "merge_value o1 o2 = Ok (append_field v, o1', o2')" "yields o1' o2' ov'"
      "sess_val_ok v" "fits (append_field v)" using yields_Cons Cons.prems(3) e by blast
  obtain n1' n2' where n: "merge_value n1 n2 = Ok (append_field w, n1', n2')" "yields n1' n2' nv'"
      "sess_val_ok w" using yields_Cons Cons.prems(4) e by blast
  have "append_field v = append_field w \<longleftrightarrow> v = w" by (rule field_eq_iff [OF o(3) n(3) o(4)])
  then show ?case
    using Cons.IH [of ov' nv' o1' o2' n1' n2'] Cons.prems(1,2) e o n
    by (auto simp: differs_def squash_old_def type_defs)
qed

lemma merge_new_fields:
  "length ov = length pk \<Longrightarrow> length nv = length pk \<Longrightarrow> yields o1 o2 ov \<Longrightarrow> yields n1 n2 nv \<Longrightarrow>
   merge_new False pk o1 o2 n1 n2 = Ok (field_bytes (squash_new pk ov nv))"
proof (induction pk arbitrary: ov nv o1 o2 n1 n2)
  case Nil
  then show ?case by (simp add: squash_new_def)
next
  case (Cons p pk)
  obtain v ov' w nv' where e: "ov = v # ov'" "nv = w # nv'" using Cons.prems by (cases ov; cases nv) auto
  obtain o1' o2' where o: "merge_value o1 o2 = Ok (append_field v, o1', o2')" "yields o1' o2' ov'"
      "sess_val_ok v" "fits (append_field v)" using yields_Cons Cons.prems(3) e by blast
  obtain n1' n2' where n: "merge_value n1 n2 = Ok (append_field w, n1', n2')" "yields n1' n2' nv'"
      "sess_val_ok w" using yields_Cons Cons.prems(4) e by blast
  have "append_field v = append_field w \<longleftrightarrow> v = w" by (rule field_eq_iff [OF o(3) n(3) o(4)])
  then show ?case
    using Cons.IH [of ov' nv' o1' o2' n1' n2'] Cons.prems(1,2) e o n
    by (auto simp: squash_new_def type_defs)
qed

lemma merge_update_fields:
  assumes "length ov = length pk" "length nv = length pk" "yields o1 o2 ov" "yields n1 n2 nv"
  shows "merge_update pk (length pk) False o1 o2 n1 n2 =
    Ok (if differs pk ov nv then Some (field_bytes (squash_old pk ov nv) @ field_bytes (squash_new pk ov nv)) else None)"
  using merge_old_fields [OF assms] merge_new_fields [OF assms] by (simp add: merge_update_def)

end
