(* ===== verification/Session_Concat.thy ===== *)
theory Session_Concat
  imports Session_Group
begin

text \<open>
  The change group refines the abstract folding of changes: \<open>change_merge\<close> computes
  \<open>merge_changes\<close> on serialized records, a group table represents a partial map from keys to
  changes, and the concatenation of two changesets has the effect of applying one after the
  other.
\<close>

subsection \<open>Merging serialized changes\<close>

definition entry_of :: "change \<Rightarrow> group_entry" where
  "entry_of c = \<lparr>ge_op = change_op c, ge_indirect = change_ind c, ge_record = change_raw c\<rparr>"

lemma tail_after_fields:
  assumes "fits (field_bytes vs @ r)" "list_all sess_val_ok vs"
  shows "bind_outcome (skip_record (field_bytes vs @ r) 0 (length vs)) (tail_from (field_bytes vs @ r)) = Ok r"
  using skip_record_fields [OF assms, of 0 r] by (simp add: tail_from_def slice_def)

lemma yieldsI:
  "length us = length ws \<Longrightarrow> list_all sess_val_ok us \<Longrightarrow> list_all sess_val_ok ws \<Longrightarrow>
   fits (field_bytes us @ r) \<Longrightarrow> fits (field_bytes ws @ s) \<Longrightarrow>
   yields (field_bytes us @ r) (Some (field_bytes ws @ s)) (overlay ws us)"
  unfolding yields.simps by blast

lemma change_merge_spec:
  assumes ok: "change_ok (length pk) c1" "change_ok (length pk) c2"
    and f: "fits (change_raw c1)" "fits (change_raw c2)"
  shows "\<exists>r. change_merge pk (length pk) False False (entry_of c1) (change_op c2) (change_ind c2) (change_raw c2) = Ok r
    \<and> (case merge_changes pk c1 c2 of None \<Rightarrow> r = None
       | Some None \<Rightarrow> (\<exists>mop mi. r = Some (mop, mi, None))
       | Some (Some c) \<Rightarrow> r = Some (change_op c, change_ind c, Some (change_raw c)))"
proof (cases "(pk, c1, c2)" rule: merge_changes.cases)
  case (1 _ i v j ov nv)
  have "merge_record (length v) (field_bytes v @ []) (field_bytes nv @ []) = Ok (field_bytes (overlay nv v))"
    using ok f 1 by (intro merge_record_fields) (auto dest: fits_appendD)
  moreover have "bind_outcome (skip_record (field_bytes ov @ field_bytes nv) 0 (length ov))
      (tail_from (field_bytes ov @ field_bytes nv)) = Ok (field_bytes nv)"
    using ok f 1 by (intro tail_after_fields) auto
  ultimately show ?thesis using 1 ok by (auto simp: change_merge_def entry_of_def op_defs)
next
  case (3 _ i v j w)
  have "yields (field_bytes v) None v" "yields (field_bytes w) None w"
    using ok f 3 by (auto intro: exI [of _ "[]"])
  then show ?thesis
    using merge_update_fields [of v pk w "field_bytes v" None "field_bytes w" None] ok 3
    by (auto simp: change_merge_def entry_of_def op_defs squash_def)
next
  case (4 _ i o1 n1 j o2 n2)
  have t: "bind_outcome (skip_record (field_bytes o1 @ field_bytes n1) 0 (length pk))
      (tail_from (field_bytes o1 @ field_bytes n1)) = Ok (field_bytes n1)"
    "bind_outcome (skip_record (field_bytes o2 @ field_bytes n2) 0 (length pk))
      (tail_from (field_bytes o2 @ field_bytes n2)) = Ok (field_bytes n2)"
    using tail_after_fields [of o1 "field_bytes n1"] tail_after_fields [of o2 "field_bytes n2"] ok f 4 by auto
  have fn: "fits (field_bytes n1)" "fits (field_bytes n2)" using f 4 by (auto dest: fits_appendD)
  have "yields (field_bytes o2 @ field_bytes n2) (Some (field_bytes o1 @ field_bytes n1)) (overlay o1 o2)"
    using ok f 4 by (intro yieldsI) auto
  moreover have "yields (field_bytes n1 @ []) (Some (field_bytes n2 @ [])) (overlay n2 n1)"
    using ok 4 fn by (intro yieldsI) auto
  ultimately show ?thesis
    using merge_update_fields [of "overlay o1 o2" pk "overlay n2 n1"] ok 4 t
    by (auto simp: change_merge_def entry_of_def op_defs squash_def)
next
  case (5 _ i o1 n1 j w)
  have "merge_record (length w) (field_bytes w @ []) (field_bytes o1 @ field_bytes n1) = Ok (field_bytes (overlay o1 w))"
    using ok f 5 by (intro merge_record_fields) auto
  then show ?thesis using 5 ok by (auto simp: change_merge_def entry_of_def op_defs)
qed (auto simp: change_merge_def entry_of_def op_defs)

lemma field_bytes_nth_length: "length (field_bytes vs) = (\<Sum>i<length vs. length (append_field (vs ! i)))"
  by (simp add: field_bytes_def length_concat sum_list_sum_nth atLeast0LessThan)

lemma length_field_overlay:
  "length ws = length vs \<Longrightarrow> length (field_bytes (overlay ws vs)) \<le> length (field_bytes ws) + length (field_bytes vs)"
  unfolding field_bytes_nth_length by (auto simp: sum.distrib [symmetric] intro!: sum_mono)

lemma length_field_squash:
  "length ov = length pk \<Longrightarrow> length nv = length pk \<Longrightarrow>
   length (field_bytes (squash_old pk ov nv)) \<le> length (field_bytes ov)
   \<and> length (field_bytes (squash_new pk ov nv)) \<le> length (field_bytes nv)"
  unfolding field_bytes_nth_length by (auto simp: squash_nth Suc_leI intro!: sum_mono)

lemma list_all_overlay: "list_all P ws \<Longrightarrow> list_all P vs \<Longrightarrow> list_all P (overlay ws vs)"
  by (auto simp: list_all_length)

lemma list_all_squash:
  "length ov = length pk \<Longrightarrow> length nv = length pk \<Longrightarrow> list_all sess_val_ok ov \<Longrightarrow> list_all sess_val_ok nv \<Longrightarrow>
   list_all sess_val_ok (squash_old pk ov nv) \<and> list_all sess_val_ok (squash_new pk ov nv)"
  by (auto simp: list_all_length squash_nth)

lemma merge_changes_ok:
  assumes "change_ok (length pk) c1" "change_ok (length pk) c2" "merge_changes pk c1 c2 = Some (Some c)"
  shows "change_ok (length pk) c \<and> length (change_raw c) \<le> length (change_raw c1) + length (change_raw c2)"
proof (cases "(pk, c1, c2)" rule: merge_changes.cases)
  case (1 _ i v j ov nv)
  then show ?thesis
    using assms length_field_overlay [of nv v] by (auto simp: list_all_overlay)
next
  case (3 _ i v j w)
  then show ?thesis
    using assms length_field_squash [of v pk w] list_all_squash [of v pk w]
    by (auto simp: squash_def squash_nth split: if_splits)
next
  case (4 _ i o1 n1 j o2 n2)
  have len: "length o1 = length pk" "length o2 = length pk" "length n1 = length pk" "length n2 = length pk"
    using assms 4 by auto
  have c: "c = Upd (j \<and> i) (squash_old pk (overlay o1 o2) (overlay n2 n1)) (squash_new pk (overlay o1 o2) (overlay n2 n1))"
    using assms(3) 4 by (auto simp: squash_def split: if_splits)
  have "list_all sess_val_ok (overlay o1 o2)" "list_all sess_val_ok (overlay n2 n1)"
    using assms 4 by (auto intro!: list_all_overlay)
  then have "change_ok (length pk) c"
    using list_all_squash [of "overlay o1 o2" pk "overlay n2 n1"] len by (simp add: c squash_nth)
  moreover have "length (change_raw c) \<le> length (change_raw c1) + length (change_raw c2)"
    using length_field_squash [of "overlay o1 o2" pk "overlay n2 n1"] length_field_overlay [of o1 o2]
      length_field_overlay [of n2 n1] len 4 by (simp add: c)
  ultimately show ?thesis ..
next
  case (5 _ i o1 n1 j w)
  then show ?thesis
    using assms length_field_overlay [of o1 w] by (auto simp: list_all_overlay)
qed (use assms in auto)

subsection \<open>The group of a rebaser\<close>

text \<open>
  A rebaser's group holds single records, insertions and deletions in which a field may be
  undefined. Two of them for one row merge field by field: a field that was replaced stays so,
  and a resolution by REPLACE (the indirect flag) replaces every column outside the key. An
  entry of a deletion that was replaced is final.
\<close>

definition replace_fields :: "bytes \<Rightarrow> bool \<Rightarrow> sess_val list \<Rightarrow> sess_val list \<Rightarrow> sess_val list" where
  "replace_fields pk j v w = map (\<lambda>(p, a, b). if a = Replaced \<or> (p = 0 \<and> j) then Replaced else if b = Undef then a else b)
     (zip pk (zip v w))"

fun rebase_changes :: "bytes \<Rightarrow> change \<Rightarrow> change \<Rightarrow> change" where
  "rebase_changes pk (Del True v) c = Del True v"
| "rebase_changes pk c1 (Ins j w) = Ins (j \<or> change_ind c1) (replace_fields pk j (change_rec c1) w)"
| "rebase_changes pk c1 (Del j w) = Del (j \<or> change_ind c1) (replace_fields pk j (change_rec c1) w)"
| "rebase_changes pk c1 (Upd j ov nv) = c1"

definition coalesce :: "bool \<Rightarrow> bytes \<Rightarrow> change \<Rightarrow> change \<Rightarrow> change option option" where
  "coalesce rb pk c1 c2 = (if rb then Some (Some (rebase_changes pk c1 c2)) else merge_changes pk c1 c2)"

fun single :: "change \<Rightarrow> bool" where
  "single (Upd _ _ _) = False"
| "single _ = True"

definition shaped :: "bool \<Rightarrow> bytes \<Rightarrow> change \<Rightarrow> bool" where
  "shaped rb pk c = (if rb then single c \<and> length (change_rec c) = length pk else change_shape pk c)"

lemma replace_fields_nth:
  assumes "length v = length pk" "length w = length pk"
  shows "length (replace_fields pk j v w) = length pk"
    "i < length pk \<Longrightarrow> replace_fields pk j v w ! i
       = (if v ! i = Replaced \<or> (pk ! i = 0 \<and> j) then Replaced else if w ! i = Undef then v ! i else w ! i)"
  using assms by (simp_all add: replace_fields_def)

lemma rebase_merge_fields:
  "length v = length pk \<Longrightarrow> length w = length pk \<Longrightarrow> list_all sess_val_ok v \<Longrightarrow> list_all sess_val_ok w \<Longrightarrow>
   fits (field_bytes v @ r) \<Longrightarrow> fits (field_bytes w @ s) \<Longrightarrow>
   rebase_merge pk j (field_bytes v @ r) (field_bytes w @ s) = Ok (field_bytes (replace_fields pk j v w))"
proof (induction pk arbitrary: v w)
  case Nil
  then show ?case by (simp add: replace_fields_def)
next
  case (Cons p pk)
  obtain x v' y w' where e: "v = x # v'" "w = y # w'" using Cons.prems by (cases v; cases w) auto
  have f: "fits (append_field x @ field_bytes v' @ r)" "fits (append_field y @ field_bytes w' @ s)"
    using Cons.prems e by simp_all
  have ok: "sess_val_ok x" "sess_val_ok y" using Cons.prems e by simp_all
  have "rebase_merge pk j (field_bytes v' @ r) (field_bytes w' @ s) = Ok (field_bytes (replace_fields pk j v' w'))"
    using Cons.prems e fits_appendD(2) [OF f(1)] fits_appendD(2) [OF f(2)] by (intro Cons.IH) simp_all
  then show ?case
    using field_at_0 [OF f(1) ok(1)] field_at_0 [OF f(2) ok(2)] e hd_field(2) [of x] hd_field(3) [of y]
    by (simp add: replace_fields_def)
qed

lemma rebase_changes_merge:
  assumes "change_ok (length pk) c1" "change_ok (length pk) c2" "fits (change_raw c1)" "fits (change_raw c2)"
    and "single c1" "single c2"
  shows "change_merge pk (length pk) True False (entry_of c1) (change_op c2) (change_ind c2) (change_raw c2)
    = (let c = rebase_changes pk c1 c2 in Ok (Some (change_op c, change_ind c, Some (change_raw c))))"
proof -
  have m: "rebase_merge pk (change_ind c2) (field_bytes (change_rec c1) @ []) (field_bytes (change_rec c2) @ [])
      = Ok (field_bytes (replace_fields pk (change_ind c2) (change_rec c1) (change_rec c2)))"
    using assms by (intro rebase_merge_fields) (cases c1; cases c2; simp)+
  with assms show ?thesis
    by (cases "(pk, c1, c2)" rule: rebase_changes.cases) (auto simp: change_merge_def entry_of_def op_defs)
qed

lemma key_of_nth_all:
  "length vs = length pk \<Longrightarrow> list_all P (key_of pk vs) \<longleftrightarrow> (\<forall>i < length pk. pk ! i \<noteq> 0 \<longrightarrow> P (vs ! i))"
proof (induction pk arbitrary: vs)
  case (Cons p pk)
  obtain v vs' where "vs = v # vs'" using Cons.prems by (cases vs) auto
  with Cons show ?case by (auto simp: less_Suc_eq_0_disj all_conj_distrib)
qed simp

lemma change_ok_rec: "change_ok n c \<Longrightarrow> length (change_rec c) = n"
  by (cases c) simp_all

lemma rebase_changes_ok:
  assumes "change_ok (length pk) c1" "change_ok (length pk) c2" "single c1" "single c2"
    and "key_of pk (change_rec c1) = key_of pk (change_rec c2)" "list_all is_key_val (key_of pk (change_rec c2))"
  defines "c \<equiv> rebase_changes pk c1 c2"
  shows "change_ok (length pk) c \<and> single c \<and> key_of pk (change_rec c) = key_of pk (change_rec c2)
    \<and> length (change_raw c) \<le> length (change_raw c1) + length (change_raw c2)"
proof -
  define v w j where "v = change_rec c1" and "w = change_rec c2" and "j = change_ind c2"
  have l: "length v = length pk" "length w = length pk" "list_all sess_val_ok v" "list_all sess_val_ok w"
    using assms(1-4) unfolding v_def w_def by (cases c1; cases c2; simp)+
  have k: "is_key_val (w ! i) \<and> v ! i = w ! i" if "i < length pk" "pk ! i \<noteq> 0" for i
    using that assms(5,6) l key_of_nth_all [of w pk is_key_val] by (auto simp: v_def w_def key_of_eq_iff)
  have "key_of pk (replace_fields pk j v w) = key_of pk w"
    using l k by (fastforce simp: key_of_eq_iff replace_fields_nth)
  moreover have "list_all sess_val_ok (replace_fields pk j v w)"
    using l by (auto simp: list_all_length replace_fields_nth)
  moreover have "length (field_bytes (replace_fields pk j v w)) \<le> length (field_bytes v) + length (field_bytes w)"
    unfolding field_bytes_nth_length using l
    by (auto simp: replace_fields_nth sum.distrib [symmetric] Suc_leI intro!: sum_mono)
  ultimately show ?thesis
    using assms(1-6) l unfolding c_def v_def w_def j_def
    by (cases "(pk, c1, c2)" rule: rebase_changes.cases) (auto simp: replace_fields_nth)
qed

lemma coalesce_merge:
  assumes ok: "change_ok (length pk) c1" "change_ok (length pk) c2" "fits (change_raw c1)" "fits (change_raw c2)"
    and sh: "shaped rb pk c1" "shaped rb pk c2"
  shows "\<exists>r. change_merge pk (length pk) rb False (entry_of c1) (change_op c2) (change_ind c2) (change_raw c2) = Ok r
    \<and> (case coalesce rb pk c1 c2 of None \<Rightarrow> r = None
       | Some None \<Rightarrow> (\<exists>mop mi. r = Some (mop, mi, None))
       | Some (Some c) \<Rightarrow> r = Some (change_op c, change_ind c, Some (change_raw c)))"
  using rebase_changes_merge [OF ok] change_merge_spec [OF ok] sh
  by (cases rb) (auto simp: coalesce_def shaped_def Let_def)

lemma coalesce_ok:
  assumes "change_ok (length pk) c1" "change_ok (length pk) c2" "shaped rb pk c1" "shaped rb pk c2"
    and "key_of pk (change_rec c1) = key_of pk (change_rec c2)" "list_all is_key_val (key_of pk (change_rec c2))"
    and "coalesce rb pk c1 c2 = Some (Some c)"
  shows "change_ok (length pk) c" "shaped rb pk c" "key_of pk (change_rec c) = key_of pk (change_rec c2)"
    "length (change_raw c) \<le> length (change_raw c1) + length (change_raw c2)"
proof -
  have "change_ok (length pk) c \<and> shaped rb pk c \<and> key_of pk (change_rec c) = key_of pk (change_rec c2)
      \<and> length (change_raw c) \<le> length (change_raw c1) + length (change_raw c2)"
  proof (cases rb)
    case True
    with assms rebase_changes_ok [OF assms(1,2) _ _ assms(5,6)] show ?thesis
      by (auto simp: coalesce_def shaped_def key_of_eq_iff change_ok_rec)
  next
    case False
    with assms merge_changes_ok [of pk c1 c2 c] merge_changes_shape [of pk c1 c2 c] show ?thesis
      by (auto simp: coalesce_def shaped_def)
  qed
  then show "change_ok (length pk) c" "shaped rb pk c" "key_of pk (change_rec c) = key_of pk (change_rec c2)"
    "length (change_raw c) \<le> length (change_raw c1) + length (change_raw c2)" by simp_all
qed

subsection \<open>Entries and their keys\<close>

definition good_change :: "bool \<Rightarrow> bytes \<Rightarrow> change \<Rightarrow> bool" where
  "good_change rb pk c \<longleftrightarrow> change_ok (length pk) c \<and> shaped rb pk c
     \<and> list_all is_key_val (key_of pk (change_rec c)) \<and> fits (change_raw c)"

definition entry_ok :: "bool \<Rightarrow> bytes \<Rightarrow> group_entry \<Rightarrow> bool" where
  "entry_ok rb pk e \<longleftrightarrow> (\<exists>c. e = entry_of c \<and> good_change rb pk c)"

definition entry_key :: "bytes \<Rightarrow> group_entry \<Rightarrow> sess_val list" where
  "entry_key pk e = (case parse_record (ge_record e) 0 (length pk) of Ok (vs, _) \<Rightarrow> key_of pk vs | _ \<Rightarrow> [])"

lemma change_raw_rec:
  assumes "good_change rb pk c"
  shows "\<exists>r. change_raw c = field_bytes (change_rec c) @ r \<and> fits (field_bytes (change_rec c) @ r)
    \<and> list_all sess_val_ok (change_rec c) \<and> length (change_rec c) = length pk"
  using assms by (cases c) (auto simp: good_change_def)

lemma entry_key_of: "good_change rb pk c \<Longrightarrow> entry_key pk (entry_of c) = key_of pk (change_rec c)"
proof -
  assume "good_change rb pk c"
  then obtain r where r: "change_raw c = field_bytes (change_rec c) @ r" "fits (field_bytes (change_rec c) @ r)"
      "list_all sess_val_ok (change_rec c)" "length (change_rec c) = length pk" using change_raw_rec by blast
  then show ?thesis
    using parse_record_fields [OF r(2,3), of 0 r] by (simp add: entry_key_def entry_of_def)
qed

lemma record_hash_of:
  assumes "good_change rb pk c" "0 < n" "n < 2 ^ 32"
  shows "\<exists>h < n. record_pk_hash pk (change_raw c) False (word_of_nat n) = Ok h
    \<and> h = unat (key_hash (key_of pk (change_rec c)) mod word_of_nat n)"
proof -
  obtain r where r: "change_raw c = field_bytes (change_rec c) @ r" "fits (field_bytes (change_rec c) @ r)"
      "list_all sess_val_ok (change_rec c)" "length (change_rec c) = length pk"
    using change_raw_rec [OF assms(1)] by blast
  have n: "unat (word_of_nat n :: u32) = n" using assms(3) by (simp add: unat_of_nat)
  then have ne: "(word_of_nat n :: u32) \<noteq> 0" using assms(2) by force
  have "unat (key_hash (key_of pk (change_rec c)) mod word_of_nat n) < n"
    using n assms(2) by (simp add: unat_mod)
  then show ?thesis
    using record_pk_hash_fields [OF r(2,3) _ r(4) ne] assms(1) r(1) by (simp add: good_change_def)
qed

lemma entry_hash_of:
  "entry_hash pk False n (entry_of c) = record_pk_hash pk (change_raw c) False (word_of_nat n)"
  by (simp add: entry_hash_def entry_of_def b_pk_only_entry_def)

lemma entry_hash_key:
  assumes "good_change rb pk c" "good_change rb pk c'" "key_of pk (change_rec c) = key_of pk (change_rec c')"
  shows "entry_hash pk False n (entry_of c) = entry_hash pk False n (entry_of c')"
proof -
  obtain r where r: "change_raw c = field_bytes (change_rec c) @ r" "fits (field_bytes (change_rec c) @ r)"
      "list_all sess_val_ok (change_rec c)" "length (change_rec c) = length pk"
    using change_raw_rec [OF assms(1)] by blast
  obtain s where s: "change_raw c' = field_bytes (change_rec c') @ s" "fits (field_bytes (change_rec c') @ s)"
      "list_all sess_val_ok (change_rec c')" "length (change_rec c') = length pk"
    using change_raw_rec [OF assms(2)] by blast
  have "pk_hash_loop pk (change_raw c) False 0 0 = pk_hash_loop pk (change_raw c') False 0 0"
    using pk_hash_loop_fields [OF r(2,3) _ r(4), of 0 r 0] pk_hash_loop_fields [OF s(2,3) _ s(4), of 0 s 0] assms r(1) s(1)
    by (simp add: good_change_def)
  then show ?thesis by (simp add: entry_hash_of record_pk_hash_def)
qed

interpretation group_index: chained_index "entry_hash pk False" "entry_key pk" "entry_ok rb pk" for rb pk
proof unfold_locales
  fix e and n :: nat
  assume "entry_ok rb pk e" "0 < n" "n < 2 ^ 32"
  then show "\<exists>h < n. entry_hash pk False n e = Ok h"
    using record_hash_of [of rb pk _ n] by (auto simp: entry_ok_def entry_hash_of)
next
  fix e e' n
  assume "entry_ok rb pk e" "entry_ok rb pk e'" "entry_key pk e = entry_key pk e'"
  then show "entry_hash pk False n e = entry_hash pk False n e'"
    by (auto simp: entry_ok_def entry_key_of intro: entry_hash_key)
qed

lemma change_equal_changes:
  assumes "good_change rb pk c" "good_change rb pk c'"
  shows "change_equal pk (change_raw c) False (change_raw c') False = Ok (key_of pk (change_rec c) = key_of pk (change_rec c'))"
proof -
  obtain r where r: "change_raw c = field_bytes (change_rec c) @ r" "fits (field_bytes (change_rec c) @ r)"
      "list_all sess_val_ok (change_rec c)" "length (change_rec c) = length pk"
    using change_raw_rec [OF assms(1)] by blast
  obtain s where s: "change_raw c' = field_bytes (change_rec c') @ s" "fits (field_bytes (change_rec c') @ s)"
      "list_all sess_val_ok (change_rec c')" "length (change_rec c') = length pk"
    using change_raw_rec [OF assms(2)] by blast
  show ?thesis
    using change_equal_fields [OF r(4) s(4) r(3) s(3) r(2) s(2)] r(1) s(1) by simp
qed

subsection \<open>A group table\<close>

definition add_key :: "(change \<Rightarrow> change \<Rightarrow> change option option) \<Rightarrow> (sess_val list \<Rightarrow> change option) \<Rightarrow> sess_val list \<Rightarrow> change \<Rightarrow> sess_val list \<Rightarrow> change option" where
  "add_key mrg G k c =
     (case G k of None \<Rightarrow> G(k \<mapsto> c)
      | Some c1 \<Rightarrow> (case mrg c1 c of None \<Rightarrow> G | Some m \<Rightarrow> G(k := m)))"

definition keyed :: "bool \<Rightarrow> bytes \<Rightarrow> nat \<Rightarrow> (sess_val list \<Rightarrow> change option) \<Rightarrow> bool" where
  "keyed rb pk B G \<longleftrightarrow> (\<forall>k c. G k = Some c \<longrightarrow> good_change rb pk c \<and> key_of pk (change_rec c) = k \<and> length (change_raw c) \<le> B)"

definition table_inv :: "bool \<Rightarrow> nat \<Rightarrow> group_table \<Rightarrow> (sess_val list \<Rightarrow> change option) \<Rightarrow> bool" where
  "table_inv rb B t G \<longleftrightarrow>
     (let pk = gt_ab_pk t; es = gt_entries t; bs = gt_buckets t in
      \<not> gt_b_patch t \<and> gt_n_col t = length pk \<and> pk \<noteq> [] \<and> name_ok (gt_name t)
      \<and> bucket_inv (entry_hash pk False) (entry_key pk) (entry_ok rb pk) es bs
      \<and> gt_n_entry t = card (live es) \<and> sized es bs
      \<and> amap (entry_key pk) es = map_option entry_of \<circ> G \<and> keyed rb pk B G)"

lemma grow_table_inv:
  assumes "table_inv rb B t G" "length (gt_entries t) < 2 ^ 30"
  shows "\<exists>nb. grow_table t = Ok (t\<lparr>gt_buckets := nb\<rparr>) \<and> table_inv rb B (t\<lparr>gt_buckets := nb\<rparr>) G \<and> nb \<noteq> [] \<and> length nb < 2 ^ 32"
proof (cases "gt_buckets t = [] \<or> length (gt_buckets t) div 2 \<le> gt_n_entry t")
  case False
  have "sized (gt_entries t) (gt_buckets t)" using assms(1) by (simp add: table_inv_def Let_def)
  from sized_bound [OF this assms(2)] show ?thesis
    using False assms(1) by (intro exI [of _ "gt_buckets t"]) (simp add: grow_table_def Let_def)
next
  case True
  define n where "n = (if gt_buckets t = [] then 256 else length (gt_buckets t) * 2)"
  have inv: "bucket_inv (entry_hash (gt_ab_pk t) False) (entry_key (gt_ab_pk t)) (entry_ok rb (gt_ab_pk t)) (gt_entries t) (gt_buckets t)"
    "sized (gt_entries t) (gt_buckets t)" and np: "\<not> gt_b_patch t"
    and load: "gt_buckets t = [] \<or> length (gt_buckets t) div 2 \<le> card (live (gt_entries t))"
    using assms(1) True by (auto simp: table_inv_def Let_def)
  from group_index.grow_inv [OF inv assms(2) load n_def] obtain nb where
    r: "rehash_ids (\<lambda>i. bind_outcome (get_entry (gt_entries t) i) (entry_hash (gt_ab_pk t) False n))
         (concat (gt_buckets t)) (replicate n []) = Ok nb" "sized (gt_entries t) nb" "nb \<noteq> []" "length nb < 2 ^ 32"
    and inv': "bucket_inv (entry_hash (gt_ab_pk t) False) (entry_key (gt_ab_pk t)) (entry_ok rb (gt_ab_pk t)) (gt_entries t) nb"
    by blast
  have "grow_table t = Ok (t\<lparr>gt_buckets := nb\<rparr>)"
    using True r(1) np unfolding grow_table_def Let_def n_def [symmetric] by simp
  moreover have "table_inv rb B (t\<lparr>gt_buckets := nb\<rparr>) G"
    using assms(1) inv' r(2) by (simp add: table_inv_def Let_def)
  ultimately show ?thesis using r(3,4) by blast
qed

lemma keyed_mono: "keyed rb pk B G \<Longrightarrow> B \<le> B' \<Longrightarrow> keyed rb pk B' G"
  by (meson keyed_def order_trans)

lemma keyed_update:
  "keyed rb pk B G \<Longrightarrow> (\<And>c. m = Some c \<Longrightarrow> good_change rb pk c \<and> key_of pk (change_rec c) = k \<and> length (change_raw c) \<le> B) \<Longrightarrow>
   keyed rb pk B (G(k := m))"
  by (auto simp: keyed_def)

lemma map_option_comp_upd: "map_option f \<circ> G(k := m) = (map_option f \<circ> G)(k := map_option f m)"
  by (auto simp: fun_eq_iff)

lemma table_invD:
  assumes "table_inv rb B t G"
  shows "bucket_inv (entry_hash (gt_ab_pk t) False) (entry_key (gt_ab_pk t)) (entry_ok rb (gt_ab_pk t)) (gt_entries t) (gt_buckets t)"
    and "keys_inj (entry_key (gt_ab_pk t)) (gt_entries t)"
    and "amap (entry_key (gt_ab_pk t)) (gt_entries t) = map_option entry_of \<circ> G" and "keyed rb (gt_ab_pk t) B G"
    and "gt_n_entry t = card (live (gt_entries t))" and "\<not> gt_b_patch t" and "gt_n_col t = length (gt_ab_pk t)"
  using assms by (auto simp: table_inv_def Let_def bucket_inv_def)

lemma table_inv_insert:
  assumes "table_inv rb B t G" "good_change rb (gt_ab_pk t) c" "k = key_of (gt_ab_pk t) (change_rec c)" "G k = None"
    and "entry_hash (gt_ab_pk t) False (length (gt_buckets t)) (entry_of c) = Ok h" "h < length (gt_buckets t)"
    and "length (change_raw c) \<le> B"
  shows "table_inv rb B (t\<lparr>gt_entries := gt_entries t @ [Some (entry_of c)],
     gt_buckets := (gt_buckets t)[h := length (gt_entries t) # gt_buckets t ! h], gt_n_entry := gt_n_entry t + 1\<rparr>) (G(k \<mapsto> c))"
proof -
  note d = table_invD [OF assms(1)]
  have k: "entry_key (gt_ab_pk t) (entry_of c) = k" using assms(2,3) by (simp add: entry_key_of)
  have ok: "entry_ok rb (gt_ab_pk t) (entry_of c)" using assms(2) by (auto simp: entry_ok_def)
  have n: "amap (entry_key (gt_ab_pk t)) (gt_entries t) (entry_key (gt_ab_pk t) (entry_of c)) = None"
    using d(3) k assms(4) by (simp add: fun_eq_iff)
  have "live (gt_entries t @ [Some (entry_of c)]) = insert (length (gt_entries t)) (live (gt_entries t))" by (rule live_append)
  moreover have "length (gt_entries t) \<notin> live (gt_entries t)" by (simp add: live_def)
  ultimately have card: "card (live (gt_entries t @ [Some (entry_of c)])) = Suc (card (live (gt_entries t)))" by simp
  show ?thesis
    using assms(1) group_index.insert_inv [OF d(1) ok assms(5,6) n] amap_append(2) [OF d(2) n] card k assms(2,3,7)
    by (auto simp: table_inv_def Let_def map_option_comp_upd sized_def intro!: keyed_update)
qed

lemma table_inv_replace:
  assumes "table_inv rb B t G" "slot (gt_entries t) i e" "entry_key (gt_ab_pk t) e = k"
    and "good_change rb (gt_ab_pk t) c" "key_of (gt_ab_pk t) (change_rec c) = k" "length (change_raw c) \<le> B"
  shows "table_inv rb B (t\<lparr>gt_entries := (gt_entries t)[i := Some (entry_of c)]\<rparr>) (G(k \<mapsto> c))"
proof -
  note d = table_invD [OF assms(1)]
  have k: "entry_key (gt_ab_pk t) (entry_of c) = k" using assms(4,5) by (simp add: entry_key_of)
  have ok: "entry_ok rb (gt_ab_pk t) (entry_of c)" using assms(4) by (auto simp: entry_ok_def)
  have ke: "entry_key (gt_ab_pk t) (entry_of c) = entry_key (gt_ab_pk t) e" using k assms(3) by simp
  have "live ((gt_entries t)[i := Some (entry_of c)]) = live (gt_entries t)"
    using live_update [OF slot_bound [OF assms(2)]] assms(2) by (auto simp: live_slot)
  then show ?thesis
    using assms(1) group_index.replace_inv [OF d(1) assms(2) ok ke] amap_replace(2) [OF d(2) assms(2) ke] k assms(4-6)
    by (auto simp: table_inv_def Let_def map_option_comp_upd sized_def intro!: keyed_update)
qed

lemma table_inv_remove:
  assumes "table_inv rb B t G" "slot (gt_entries t) i e" "entry_key (gt_ab_pk t) e = k"
    and "entry_hash (gt_ab_pk t) False (length (gt_buckets t)) e = Ok h" "h < length (gt_buckets t)"
  shows "table_inv rb B (t\<lparr>gt_entries := (gt_entries t)[i := None], gt_n_entry := gt_n_entry t - 1,
     gt_buckets := (gt_buckets t)[h := filter (\<lambda>x. x \<noteq> i) (gt_buckets t ! h)]\<rparr>) (G(k := None))"
proof -
  note d = table_invD [OF assms(1)]
  have "i \<in> live (gt_entries t)" using assms(2) by (auto simp: live_slot)
  then have "card (live ((gt_entries t)[i := None])) = card (live (gt_entries t)) - 1"
    by (simp add: live_remove)
  then show ?thesis
    using assms(1) group_index.remove_inv [OF d(1) assms(2,4,5)] amap_remove(2) [OF d(2) assms(2)] assms(3)
    by (auto simp: table_inv_def Let_def map_option_comp_upd sized_def intro!: keyed_update)
qed

lemma table_inv_mono: "table_inv rb B t G \<Longrightarrow> B \<le> B' \<Longrightarrow> table_inv rb B' t G"
  by (auto simp: table_inv_def Let_def intro: keyed_mono)

lemma fold_change_inv:
  assumes inv: "table_inv rb B t G" and pk: "pk = gt_ab_pk t" and bs: "gt_buckets t \<noteq> []" "length (gt_buckets t) < 2 ^ 32"
    and good: "good_change rb pk c" and sz: "B + length (change_raw c) < 2 ^ 63"
  shows "\<exists>t'. fold_change rb t (length pk) False (change_op c) (change_ind c) (change_raw c) = Ok t'
    \<and> table_inv rb (B + length (change_raw c)) t' (add_key (coalesce rb pk) G (key_of pk (change_rec c)) c)
    \<and> gt_name t' = gt_name t \<and> gt_ab_pk t' = pk \<and> length (gt_entries t') \<le> Suc (length (gt_entries t))"
proof -
  define k where "k = key_of pk (change_rec c)"
  define B' where "B' = B + length (change_raw c)"
  have inv': "table_inv rb B' t G" using inv by (rule table_inv_mono) (simp add: B'_def)
  note d = table_invD [OF inv', folded pk]
  obtain h where h: "h < length (gt_buckets t)" "record_pk_hash pk (change_raw c) False (word_of_nat (length (gt_buckets t))) = Ok h"
    using record_hash_of [OF good _ bs(2)] bs(1) by auto
  have eh: "entry_hash pk False (length (gt_buckets t)) (entry_of c) = Ok h" using h by (simp add: entry_hash_of)
  have ek: "entry_key pk (entry_of c) = k" using good by (simp add: entry_key_of k_def)
  have eok: "entry_ok rb pk (entry_of c)" using good by (auto simp: entry_ok_def)
  define same where "same = (\<lambda>i. bind_outcome (get_entry (gt_entries t) i) (\<lambda>e.
          change_equal (take (length pk) pk) (ge_record e) (b_pk_only_entry (ge_op e) (gt_b_patch t)) (change_raw c) False))"
  have same: "same i = Ok (entry_key pk e' = entry_key pk (entry_of c))" if s: "slot (gt_entries t) i e'" for i e'
  proof -
    obtain c' where c': "e' = entry_of c'" "good_change rb pk c'" using d(1) s unfolding bucket_inv_def entry_ok_def by blast
    then have "change_equal pk (change_raw c') False (change_raw c) False = Ok (entry_key pk e' = entry_key pk (entry_of c))"
      using change_equal_changes [OF c'(2) good] good by (simp add: entry_key_of)
    then show ?thesis using s c' d(6) by (simp add: same_def entry_of_def b_pk_only_entry_def)
  qed
  define post where "post = (\<lambda>existing. case existing of
        None \<Rightarrow> Ok (t\<lparr>gt_entries := gt_entries t @ [Some (entry_of c)],
                     gt_buckets := (gt_buckets t)[h := length (gt_entries t) # gt_buckets t ! h],
                     gt_n_entry := gt_n_entry t + 1\<rparr>)
      | Some i \<Rightarrow>
          bind_outcome (get_entry (gt_entries t) i) (\<lambda>e.
          bind_outcome (change_merge pk (length pk) rb False e (change_op c) (change_ind c) (change_raw c)) (\<lambda>merged.
            case merged of
              None \<Rightarrow> Ok t
            | Some (mop, mind, Some m) \<Rightarrow>
                Ok (t\<lparr>gt_entries := (gt_entries t)[i := Some \<lparr>ge_op = mop, ge_indirect = mind, ge_record = m\<rparr>]\<rparr>)
            | Some (mop, mind, None) \<Rightarrow>
                Ok (t\<lparr>gt_entries := (gt_entries t)[i := None], gt_n_entry := gt_n_entry t - 1,
                      gt_buckets := (gt_buckets t)[h := filter (\<lambda>x. x \<noteq> i) (gt_buckets t ! h)]\<rparr>))))"
  have fc: "fold_change rb t (length pk) False (change_op c) (change_ind c) (change_raw c)
      = bind_outcome (find_in_chain same (gt_buckets t ! h)) post"
    using h d(6) unfolding fold_change_def Let_def same_def post_def entry_of_def
    by (simp add: pk [symmetric] index_at_def)
  have "find_in_chain same (gt_buckets t ! h) = Ok None \<and> amap (entry_key pk) (gt_entries t) (entry_key pk (entry_of c)) = None
      \<or> (\<exists>i e'. find_in_chain same (gt_buckets t ! h) = Ok (Some i) \<and> slot (gt_entries t) i e'
           \<and> entry_key pk e' = entry_key pk (entry_of c) \<and> amap (entry_key pk) (gt_entries t) (entry_key pk (entry_of c)) = Some e')"
    by (rule group_index.find_key [OF d(1) eok eh h(1)]) (rule same)
  then consider "find_in_chain same (gt_buckets t ! h) = Ok None" "amap (entry_key pk) (gt_entries t) k = None"
    | i e' where "find_in_chain same (gt_buckets t ! h) = Ok (Some i)" "slot (gt_entries t) i e'"
      "entry_key pk e' = k" "amap (entry_key pk) (gt_entries t) k = Some e'"
    unfolding ek by (elim disjE exE conjE) auto
  then show ?thesis
  proof cases
    case 1
    then have "G k = None" using d(3) by (simp add: fun_eq_iff)
    with 1 table_inv_insert [OF inv' good [unfolded pk] _ _ eh [unfolded pk] h(1)] fc show ?thesis
      by (simp add: post_def add_key_def k_def [symmetric] pk [symmetric] B'_def)
  next
    case (2 i e')
    then obtain c1 where c1: "G k = Some c1" "e' = entry_of c1" using d(3) by (auto simp: fun_eq_iff)
    then have g1: "good_change rb pk c1" "key_of pk (change_rec c1) = k" and l1: "length (change_raw c1) \<le> B"
      using d(4) table_invD(4) [OF inv] pk by (auto simp: keyed_def)
    obtain r where r: "change_merge pk (length pk) rb False e' (change_op c) (change_ind c) (change_raw c) = Ok r"
      and rs: "case coalesce rb pk c1 c of None \<Rightarrow> r = None
       | Some None \<Rightarrow> (\<exists>mop mi. r = Some (mop, mi, None))
       | Some (Some c) \<Rightarrow> r = Some (change_op c, change_ind c, Some (change_raw c))"
      using coalesce_merge [of pk c1 c rb] g1 good c1 by (auto simp: good_change_def)
    have eh': "entry_hash pk False (length (gt_buckets t)) e' = Ok h"
      using entry_hash_key [OF g1(1) good, of "length (gt_buckets t)"] g1(2) eh c1 by (simp add: k_def)
    show ?thesis
    proof (cases "coalesce rb pk c1 c")
      case None
      then show ?thesis
        using rs r fc 2 c1 inv' by (simp add: post_def add_key_def k_def [symmetric] pk [symmetric] B'_def)
    next
      case (Some m)
      show ?thesis
      proof (cases m)
        case None
        with Some rs obtain mop mi where "r = Some (mop, mi, None)" by auto
        then show ?thesis
          using Some None r fc 2 c1 table_inv_remove [OF inv' 2(2) _ eh' [unfolded pk] h(1)]
          by (simp add: post_def add_key_def k_def [symmetric] pk [symmetric] B'_def)
      next
        case (Some c')
        with \<open>coalesce rb pk c1 c = Some m\<close> have m: "coalesce rb pk c1 c = Some (Some c')" by simp
        note co = coalesce_ok [OF _ _ _ _ _ _ m]
        have sh: "shaped rb pk c'" "key_of pk (change_rec c') = k"
          using co(2,3) g1 good by (auto simp: good_change_def k_def)
        have ok: "change_ok (length pk) c'" "length (change_raw c') \<le> B'"
          using co(1,4) g1 good l1 by (auto simp: good_change_def B'_def k_def)
        have "good_change rb pk c'"
          using sh ok sz good by (auto simp: good_change_def fits_def B'_def k_def)
        then show ?thesis
          using m rs r fc 2 c1 sh ok table_inv_replace [OF inv' 2(2), of k c']
          by (simp add: post_def add_key_def k_def [symmetric] pk [symmetric] B'_def entry_of_def)
      qed
    qed
  qed
qed

subsection \<open>The group\<close>

abbreviation lname :: "group_table \<Rightarrow> bytes" where
  "lname t \<equiv> map ascii_lower (gt_name t)"

definition group_inv :: "bool \<Rightarrow> (bytes \<Rightarrow> bytes) \<Rightarrow> nat \<Rightarrow> nat \<Rightarrow> group_table list \<Rightarrow> delta \<Rightarrow> bool" where
  "group_inv rb pkf B N ts G \<longleftrightarrow> distinct (map lname ts)
     \<and> (\<forall>t \<in> set ts. table_inv rb B t (\<lambda>k. G (lname t, k)) \<and> length (gt_entries t) \<le> N \<and> gt_ab_pk t = pkf (lname t))
     \<and> (\<forall>nm k. nm \<notin> lname ` set ts \<longrightarrow> G (nm, k) = None)"

lemma add_delta_slice:
  "(\<lambda>k'. add_delta mrg G (nm, k) c (nm', k')) = (if nm' = nm then add_key mrg (\<lambda>k. G (nm, k)) k c else (\<lambda>k'. G (nm', k')))"
  by (auto simp: add_delta_def add_key_def fun_eq_iff split: option.splits)

lemma table_inv_new:
  "name_ok nm \<Longrightarrow> pk \<noteq> [] \<Longrightarrow> G = (\<lambda>k. None) \<Longrightarrow> table_inv rb B (group_table_new nm (length pk) pk False) G"
  by (auto simp: table_inv_def Let_def group_table_new_def sized_def bucket_inv_def placed_def keys_inj_def slot_def keyed_def
      amap_def fun_eq_iff)

lemma group_inv_extend:
  assumes "group_inv rb pkf B N ts G" "name_ok nm" "pk \<noteq> []" "pk = pkf (map ascii_lower nm)"
    and "map ascii_lower nm \<notin> lname ` set ts"
  shows "group_inv rb pkf B N (ts @ [group_table_new nm (length pk) pk False]) G"
proof -
  define t where "t = group_table_new nm (length pk) pk False"
  have t: "lname t = map ascii_lower nm" "gt_entries t = []" "gt_ab_pk t = pk" by (simp_all add: t_def group_table_new_def)
  have "G (lname t, k) = None" for k using assms(1,5) unfolding group_inv_def t(1) by blast
  then have "table_inv rb B t (\<lambda>k. G (lname t, k))"
    unfolding t_def by (intro table_inv_new [OF assms(2,3)]) simp
  then show ?thesis
    unfolding t_def [symmetric] using assms(1,5) assms(4) [symmetric] t by (simp add: group_inv_def)
qed

lemma group_inv_step:
  assumes inv: "group_inv rb pkf B N ts G" and i: "i < length ts" and pk: "pk = gt_ab_pk (ts ! i)"
    and good: "good_change rb pk c" and sz: "B + length (change_raw c) < 2 ^ 63" "N < 2 ^ 30"
  shows "\<exists>t1 t2. grow_table (ts ! i) = Ok t1
    \<and> fold_change rb t1 (length pk) False (change_op c) (change_ind c) (change_raw c) = Ok t2
    \<and> group_inv rb pkf (B + length (change_raw c)) (Suc N) (ts[i := t2])
        (add_delta (coalesce rb pk) G (lname (ts ! i), key_of pk (change_rec c)) c)"
proof -
  define t where "t = ts ! i"
  define B' where "B' = B + length (change_raw c)"
  define G' where "G' = add_delta (coalesce rb pk) G (lname t, key_of pk (change_rec c)) c"
  have ti: "table_inv rb B t (\<lambda>k. G (lname t, k))" "length (gt_entries t) \<le> N" "gt_ab_pk t = pkf (lname t)"
    using inv i by (auto simp: group_inv_def t_def)
  from grow_table_inv [OF ti(1)] ti(2) sz(2) obtain nb where
    g: "grow_table t = Ok (t\<lparr>gt_buckets := nb\<rparr>)" "table_inv rb B (t\<lparr>gt_buckets := nb\<rparr>) (\<lambda>k. G (lname t, k))"
      "nb \<noteq> []" "length nb < 2 ^ 32" by auto
  from fold_change_inv [OF g(2) _ _ _ good sz(1)] g(3,4) pk obtain t2 where
    f: "fold_change rb (t\<lparr>gt_buckets := nb\<rparr>) (length pk) False (change_op c) (change_ind c) (change_raw c) = Ok t2"
      "table_inv rb B' t2 (add_key (coalesce rb pk) (\<lambda>k. G (lname t, k)) (key_of pk (change_rec c)) c)"
      "gt_name t2 = gt_name t" "gt_ab_pk t2 = pk" "length (gt_entries t2) \<le> Suc (length (gt_entries t))"
    by (auto simp: t_def B'_def)
  have names: "map lname (ts[i := t2]) = map lname ts"
    using i f(3) by (simp add: map_update t_def) (metis list_update_id nth_map)
  have mem: "table_inv rb B' t' (\<lambda>k. G' (lname t', k)) \<and> length (gt_entries t') \<le> Suc N \<and> gt_ab_pk t' = pkf (lname t')"
    if t': "t' \<in> set (ts[i := t2])" for t'
  proof (cases "t' = t2")
    case True
    then show ?thesis using f ti pk by (simp add: G'_def add_delta_slice t_def)
  next
    case False
    with t' obtain j where j: "j < length ts" "j \<noteq> i" "t' = ts ! j"
      by (metis in_set_conv_nth length_list_update nth_list_update_eq nth_list_update_neq)
    have "lname t' \<noteq> lname t"
      using inv i j by (auto simp: group_inv_def t_def distinct_conv_nth)
    then have "(\<lambda>k. G' (lname t', k)) = (\<lambda>k. G (lname t', k))" by (simp add: G'_def add_delta_slice)
    moreover have "table_inv rb B t' (\<lambda>k. G (lname t', k))" "length (gt_entries t') \<le> N" "gt_ab_pk t' = pkf (lname t')"
      using inv j by (auto simp: group_inv_def)
    ultimately show ?thesis using table_inv_mono [of rb B t' _ B'] by (simp add: B'_def)
  qed
  have "lname ` set (ts[i := t2]) = lname ` set ts" using arg_cong [OF names, of set] by simp
  moreover have "lname t \<in> lname ` set ts" using i by (simp add: t_def)
  moreover have "G' (nm, k) = G (nm, k)" if "nm \<noteq> lname t" for nm k
    using that fun_cong [OF add_delta_slice [of "coalesce rb pk" G "lname t" "key_of pk (change_rec c)" c nm], of k] by (simp add: G'_def)
  ultimately have "group_inv rb pkf B' (Suc N) (ts[i := t2]) G'"
    using inv mem names unfolding group_inv_def by metis
  then show ?thesis using g(1) f(1) by (auto simp: t_def B'_def G'_def)
qed

lemma group_inv_keyed:
  assumes "group_inv rb pkf B N ts G" "G (nm, k) = Some c"
  shows "good_change rb (pkf nm) c \<and> key_of (pkf nm) (change_rec c) = k"
proof -
  have "nm \<notin> lname ` set ts \<Longrightarrow> G (nm, k) = None" using assms(1) unfolding group_inv_def by blast
  then obtain t where t: "t \<in> set ts" "nm = lname t" using assms(2) by auto
  then have "keyed rb (pkf nm) B (\<lambda>k. G (nm, k))"
    using assms(1) table_invD(4) [of rb B t "\<lambda>k. G (lname t, k)"] unfolding group_inv_def by metis
  then show ?thesis using assms(2) by (auto simp: keyed_def)
qed

definition grp_ok :: "bool \<Rightarrow> (bytes \<Rightarrow> bytes) \<Rightarrow> nat \<Rightarrow> nat \<Rightarrow> change_group \<Rightarrow> delta \<Rightarrow> bool" where
  "grp_ok rb pkf B N g G \<longleftrightarrow> group_inv rb pkf B N (cg_tables g) G \<and> cg_b_rebase g = rb \<and> cg_b_patch g \<in> {None, Some False}"

definition item_ok :: "bool \<Rightarrow> (bytes \<Rightarrow> bytes) \<Rightarrow> cs_table \<Rightarrow> change \<Rightarrow> bool" where
  "item_ok rb pkf T c \<longleftrightarrow> name_ok (tb_name T) \<and> tb_pk T \<noteq> [] \<and> tb_pk T = pkf (map ascii_lower (tb_name T)) \<and> good_change rb (tb_pk T) c"

definition item_loc :: "cs_table \<Rightarrow> change \<Rightarrow> loc" where
  "item_loc T c = (map ascii_lower (tb_name T), key_of (tb_pk T) (change_rec c))"

lemma add_event_step:
  assumes ok: "grp_ok rb pkf B N g G" and it: "item_ok rb pkf T c"
    and sz: "B + length (change_raw c) < 2 ^ 63" "N < 2 ^ 30"
  shows "\<exists>g'. add_event g (event_for False T c) = Ok g'
    \<and> grp_ok rb pkf (B + length (change_raw c)) (Suc N) g' (add_delta (coalesce rb (tb_pk T)) G (item_loc T c) c)"
proof -
  define pk nm where "pk = tb_pk T" and "nm = tb_name T"
  have it': "name_ok nm" "pk \<noteq> []" "pk = pkf (map ascii_lower nm)" "good_change rb pk c"
    using it unfolding item_ok_def pk_def nm_def by blast+
  define pos where "pos = position (\<lambda>t. eq_ignore_ascii_case (gt_name t) nm) (cg_tables g)"
  define ts ti where "ts = (case pos of Some i \<Rightarrow> cg_tables g | None \<Rightarrow> cg_tables g @ [group_table_new nm (length pk) pk False])"
    and "ti = (case pos of Some i \<Rightarrow> i | None \<Rightarrow> length (cg_tables g))"
  have gi: "group_inv rb pkf B N (cg_tables g) G" using ok by (simp add: grp_ok_def)
  have st: "group_inv rb pkf B N ts G \<and> ti < length ts \<and> lname (ts ! ti) = map ascii_lower nm"
  proof (cases pos)
    case None
    then have "map ascii_lower nm \<notin> lname ` set (cg_tables g)"
      unfolding pos_def position_None by (auto simp: list_ex_iff eq_ignore_ascii_case_def)
    with group_inv_extend [OF gi it'(1-3)] show ?thesis
      using None by (simp add: ts_def ti_def group_table_new_def)
  next
    case (Some i)
    then show ?thesis
      using gi position_Some [of _ "cg_tables g" i] by (auto simp: pos_def ts_def ti_def eq_ignore_ascii_case_def)
  qed
  have pk': "gt_ab_pk (ts ! ti) = pk" using st it'(3) by (simp add: group_inv_def)
  have cp: "compat_table (ts ! ti) (length pk) pk"
    by (auto simp: compat_table_def pk' list_all_length)
  obtain t1 t2 where t: "grow_table (ts ! ti) = Ok t1"
      "fold_change rb t1 (length pk) False (change_op c) (change_ind c) (change_raw c) = Ok t2"
    and inv: "group_inv rb pkf (B + length (change_raw c)) (Suc N) (ts[ti := t2]) (add_delta (coalesce rb pk) G (lname (ts ! ti), key_of pk (change_rec c)) c)"
    using group_inv_step [of rb pkf B N ts G ti pk c] st pk' it'(4) sz by auto
  have let_eq: "(case pos of Some i \<Rightarrow> (cg_tables g, i) | None \<Rightarrow> (cg_tables g @ [group_table_new nm (length pk) pk False], length (cg_tables g)))
      = (ts, ti)" by (cases pos) (simp_all add: ts_def ti_def)
  have "add_event g (event_for False T c)
      = add_one g nm (length pk) pk False (change_op c) (change_ind c) (change_raw c)"
    by (simp add: add_event_def event_for_def pk_def nm_def)
  also have "\<dots> = Ok (g\<lparr>cg_b_patch := Some False, cg_tables := ts[ti := t2]\<rparr>)"
    unfolding add_one_def pos_def [symmetric] let_eq Let_def prod.case using ok cp t by (auto simp: grp_ok_def)
  finally show ?thesis
    using inv ok st by (simp add: grp_ok_def item_loc_def pk_def nm_def)
qed

lemma fold_items:
  "grp_ok rb pkf B N g G \<Longrightarrow> list_all (\<lambda>(T, c). item_ok rb pkf T c) xs \<Longrightarrow>
   B + (\<Sum>(T, c)\<leftarrow>xs. length (change_raw c)) < 2 ^ 63 \<Longrightarrow> N + length xs \<le> 2 ^ 30 \<Longrightarrow>
   \<exists>g' G'. fold_outcome add_event g (map (\<lambda>(T, c). event_for False T c) xs) = Ok g'
     \<and> grp_ok rb pkf (B + (\<Sum>(T, c)\<leftarrow>xs. length (change_raw c))) (N + length xs) g' G'
     \<and> G' = fold (\<lambda>(T, c) G. add_delta (coalesce rb (tb_pk T)) G (item_loc T c) c) xs G
     \<and> (\<not> rb \<longrightarrow> (\<forall>d d' d''. takes G d d' \<longrightarrow> apply_changes (map (\<lambda>(T, c). (item_loc T c, c)) xs) d' = Some d'' \<longrightarrow> takes G' d d''))"
proof (induction xs arbitrary: B N g G)
  case Nil
  then show ?case by auto
next
  case (Cons x xs)
  obtain T c where x: "x = (T, c)" by fastforce
  have it: "item_ok rb pkf T c" using Cons.prems(2) x by simp
  define G1 where "G1 = add_delta (coalesce rb (tb_pk T)) G (item_loc T c) c"
  from add_event_step [OF Cons.prems(1) it] Cons.prems(3,4) x obtain g1 where
    g1: "add_event g (event_for False T c) = Ok g1" "grp_ok rb pkf (B + length (change_raw c)) (Suc N) g1 G1"
    by (auto simp: G1_def)
  from Cons.IH [OF g1(2)] Cons.prems(2-4) x obtain g' G' where
    r: "fold_outcome add_event g1 (map (\<lambda>(T, c). event_for False T c) xs) = Ok g'"
      "grp_ok rb pkf (B + length (change_raw c) + (\<Sum>(T, c)\<leftarrow>xs. length (change_raw c))) (Suc N + length xs) g' G'"
    and G': "G' = fold (\<lambda>(T, c) G. add_delta (coalesce rb (tb_pk T)) G (item_loc T c) c) xs G1"
    and t: "\<And>d d' d''. \<not> rb \<Longrightarrow> takes G1 d d' \<Longrightarrow> apply_changes (map (\<lambda>(T, c). (item_loc T c, c)) xs) d' = Some d'' \<Longrightarrow> takes G' d d''"
    by (auto simp: add.assoc)
  have step: "takes G1 d (d'(item_loc T c := s))" if "\<not> rb" "takes G d d'" "act c (d' (item_loc T c)) = Some s" for d d' s
    unfolding G1_def coalesce_def [abs_def] if_not_P [OF that(1)]
  proof (rule add_delta_takes [OF that(2,3)])
    show "change_shape (tb_pk T) c" using it that(1) unfolding item_ok_def good_change_def shaped_def by metis
    show "change_shape (tb_pk T) c1 \<and> key_of (tb_pk T) (change_rec c1) = key_of (tb_pk T) (change_rec c)"
      if "G (item_loc T c) = Some c1" for c1
      using group_inv_keyed [of rb pkf B N "cg_tables g" G] that \<open>\<not> rb\<close> Cons.prems(1) it
      by (auto simp: grp_ok_def item_ok_def item_loc_def good_change_def shaped_def)
  qed
  have "takes G' d d''"
    if "\<not> rb" "takes G d d'" "apply_changes (map (\<lambda>(T, c). (item_loc T c, c)) (x # xs)) d' = Some d''" for d d' d''
  proof -
    note a = that
    obtain s where s: "act c (d' (item_loc T c)) = Some s"
        "apply_changes (map (\<lambda>(T, c). (item_loc T c, c)) xs) (d'(item_loc T c := s)) = Some d''"
      using a(3) x by (auto split: option.splits)
    from t [OF a(1) step [OF a(1,2) s(1)] s(2)] show ?thesis .
  qed
  then show ?case using g1 r x G' G1_def by (intro exI [of _ g'] exI [of _ G']) (auto simp: add.assoc)
qed

subsection \<open>The output\<close>

definition table_changes :: "group_table \<Rightarrow> (sess_val list \<Rightarrow> change option) \<Rightarrow> change list" where
  "table_changes t H = map (\<lambda>i. the (H (entry_key (gt_ab_pk t) (the (gt_entries t ! i))))) (concat (gt_buckets t))"

definition table_cs :: "group_table \<Rightarrow> (sess_val list \<Rightarrow> change option) \<Rightarrow> cs_table" where
  "table_cs t H = \<lparr>tb_name = gt_name t, tb_pk = gt_ab_pk t, tb_changes = table_changes t H\<rparr>"

lemma slot_change:
  assumes "table_inv rb B t H" "slot (gt_entries t) i e"
  shows "\<exists>c. H (entry_key (gt_ab_pk t) e) = Some c \<and> e = entry_of c"
proof -
  note d = table_invD [OF assms(1)]
  have "amap (entry_key (gt_ab_pk t)) (gt_entries t) (entry_key (gt_ab_pk t) e) = Some e"
    using assms(2) by (auto simp: amap_iff [OF d(2)])
  then show ?thesis by (auto simp: d(3))
qed

lemma in_table_changes:
  assumes "table_inv rb B t H"
  shows "c \<in> set (table_changes t H) \<longleftrightarrow> H (key_of (gt_ab_pk t) (change_rec c)) = Some c"
proof
  note d = table_invD [OF assms]
  have ids: "set (concat (gt_buckets t)) = live (gt_entries t)" using d(1) by (simp add: bucket_inv_def)
  assume "c \<in> set (table_changes t H)"
  then obtain i e where "slot (gt_entries t) i e" "c = the (H (entry_key (gt_ab_pk t) e))"
    unfolding table_changes_def set_map ids by (auto simp: live_slot slot_def)
  then obtain c' where c: "H (entry_key (gt_ab_pk t) e) = Some c'" "c = c'" using slot_change [OF assms] by fastforce
  then have "key_of (gt_ab_pk t) (change_rec c) = entry_key (gt_ab_pk t) e" using d(4) by (auto simp: keyed_def)
  with c show "H (key_of (gt_ab_pk t) (change_rec c)) = Some c" by simp
next
  note d = table_invD [OF assms]
  have ids: "set (concat (gt_buckets t)) = live (gt_entries t)" using d(1) by (simp add: bucket_inv_def)
  assume h: "H (key_of (gt_ab_pk t) (change_rec c)) = Some c"
  then have "amap (entry_key (gt_ab_pk t)) (gt_entries t) (key_of (gt_ab_pk t) (change_rec c)) = Some (entry_of c)"
    by (simp add: d(3))
  then obtain i where "slot (gt_entries t) i (entry_of c)" "entry_key (gt_ab_pk t) (entry_of c) = key_of (gt_ab_pk t) (change_rec c)"
    by (auto simp: amap_iff [OF d(2)])
  with h have "i \<in> live (gt_entries t)" "c = the (H (entry_key (gt_ab_pk t) (the (gt_entries t ! i))))"
    by (auto simp: live_slot slot_def)
  then show "c \<in> set (table_changes t H)" unfolding table_changes_def set_map ids by blast
qed

lemma distinct_table_changes:
  assumes "table_inv rb B t H"
  shows "distinct (map (\<lambda>c. key_of (gt_ab_pk t) (change_rec c)) (table_changes t H))"
proof -
  note d = table_invD [OF assms]
  have ids: "set (concat (gt_buckets t)) = live (gt_entries t)" and di: "distinct (concat (gt_buckets t))"
    using d(1) by (simp_all add: bucket_inv_def)
  let ?k = "\<lambda>i. entry_key (gt_ab_pk t) (the (gt_entries t ! i))"
  have "key_of (gt_ab_pk t) (change_rec (the (H (?k i)))) = ?k i" if "i \<in> live (gt_entries t)" for i
  proof -
    from that obtain e where e: "slot (gt_entries t) i e" by (auto simp: live_slot)
    with slot_change [OF assms e] d(4) show ?thesis by (auto simp: keyed_def slot_def)
  qed
  then have "map (\<lambda>c. key_of (gt_ab_pk t) (change_rec c)) (table_changes t H) = map ?k (concat (gt_buckets t))"
    using ids by (auto simp: table_changes_def)
  moreover have "inj_on ?k (live (gt_entries t))"
    using d(2) by (auto simp: inj_on_def keys_inj_def live_slot slot_def)
  ultimately show ?thesis using di ids by (simp add: distinct_map del: map_concat)
qed

lemma table_output_render:
  assumes "table_inv rb B t H"
  shows "table_output t = (if gt_n_entry t = 0 then [] else render_table (table_cs t H))"
proof -
  note d = table_invD [OF assms]
  have ids: "set (concat (gt_buckets t)) = live (gt_entries t)" using d(1) by (simp add: bucket_inv_def)
  have "(if i < length (gt_entries t) then (case gt_entries t ! i of Some e \<Rightarrow> entry_bytes e | None \<Rightarrow> []) else [])
      = render_change (the (H (entry_key (gt_ab_pk t) (the (gt_entries t ! i)))))" if "i \<in> set (concat (gt_buckets t))" for i
  proof -
    from that obtain e where e: "slot (gt_entries t) i e" unfolding ids by (auto simp: live_slot)
    then obtain c where "H (entry_key (gt_ab_pk t) e) = Some c" "e = entry_of c" using slot_change [OF assms] by blast
    with e show ?thesis by (auto simp: slot_def entry_bytes_def entry_of_def render_change_def ind_byte_def)
  qed
  then have "concat (map (\<lambda>i. if i < length (gt_entries t) then (case gt_entries t ! i of Some e \<Rightarrow> entry_bytes e | None \<Rightarrow> []) else [])
        (concat (gt_buckets t))) = concat (map render_change (table_changes t H))"
    unfolding table_changes_def map_map by (intro arg_cong [of _ _ concat] map_cong) (simp_all del: set_concat)
  then show ?thesis
    using d(6,7) by (simp add: table_output_def render_table_def render_header_def table_cs_def del: map_concat)
qed

definition group_cs :: "group_table list \<Rightarrow> delta \<Rightarrow> cs_table list" where
  "group_cs ts G = map (\<lambda>t. table_cs t (\<lambda>k. G (lname t, k))) (filter (\<lambda>t. gt_n_entry t \<noteq> 0) ts)"

lemma group_output_render:
  assumes "\<forall>t \<in> set ts. table_inv rb B t (\<lambda>k. G (lname t, k))"
  shows "concat (map table_output ts) = render (group_cs ts G)"
  using assms by (induction ts) (auto simp: group_cs_def render_def table_output_render)

lemma table_cs_ok:
  assumes "table_inv rb B t H"
  shows "table_ok (table_cs t H)"
proof -
  have "change_ok (length (gt_ab_pk t)) c" if "c \<in> set (table_changes t H)" for c
    using that in_table_changes [OF assms] table_invD(4) [OF assms] by (auto simp: keyed_def good_change_def)
  then show ?thesis using assms by (auto simp: table_ok_def table_cs_def list_all_iff table_inv_def Let_def)
qed

lemma distinct_located:
  "distinct (map lname ts) \<Longrightarrow> \<forall>t \<in> set ts. table_inv rb B t (\<lambda>k. G (lname t, k)) \<Longrightarrow> distinct (map fst (located (group_cs ts G)))"
proof (induction ts)
  case Nil
  then show ?case by (simp add: group_cs_def located_def)
next
  case (Cons t ts)
  have d: "distinct (map (\<lambda>c. key_of (gt_ab_pk t) (change_rec c)) (table_changes t (\<lambda>k. G (lname t, k))))"
    using Cons.prems(2) distinct_table_changes by auto
  then have "distinct (map (\<lambda>c. (lname t, key_of (gt_ab_pk t) (change_rec c))) (table_changes t (\<lambda>k. G (lname t, k))))"
    by (simp add: distinct_map inj_on_def)
  moreover have "lname t \<notin> lname ` set ts" using Cons.prems(1) by simp
  ultimately show ?case
    using Cons by (fastforce simp: group_cs_def located_def table_cs_def o_def)
qed

lemma in_located_group:
  "(l, c) \<in> set (located (group_cs ts G)) \<longleftrightarrow>
   (\<exists>t \<in> set ts. gt_n_entry t \<noteq> 0 \<and> c \<in> set (table_changes t (\<lambda>k. G (lname t, k)))
      \<and> l = (lname t, key_of (gt_ab_pk t) (change_rec c)))"
  by (auto simp: located_def group_cs_def table_cs_def)

lemma in_located:
  assumes "group_inv rb pkf B N ts G"
  shows "(l, c) \<in> set (located (group_cs ts G)) \<longleftrightarrow> G l = Some c"
proof
  assume "(l, c) \<in> set (located (group_cs ts G))"
  then obtain t where "t \<in> set ts" "c \<in> set (table_changes t (\<lambda>k. G (lname t, k)))"
      "l = (lname t, key_of (gt_ab_pk t) (change_rec c))" unfolding in_located_group by blast
  with assms in_table_changes [of rb B t "\<lambda>k. G (lname t, k)" c] show "G l = Some c" by (auto simp: group_inv_def)
next
  obtain nm k where l: "l = (nm, k)" by fastforce
  assume g: "G l = Some c"
  have "nm \<notin> lname ` set ts \<Longrightarrow> G (nm, k) = None" using assms unfolding group_inv_def by blast
  then obtain t where t: "t \<in> set ts" "nm = lname t" using g l by auto
  then have inv: "table_inv rb B t (\<lambda>k. G (lname t, k))" and pk: "gt_ab_pk t = pkf (lname t)"
    using assms by (auto simp: group_inv_def)
  have k: "k = key_of (gt_ab_pk t) (change_rec c)" using group_inv_keyed [OF assms] g l t pk by auto
  have c: "c \<in> set (table_changes t (\<lambda>k. G (lname t, k)))" using in_table_changes [OF inv] g l t k by auto
  then have "concat (gt_buckets t) \<noteq> []" by (metis empty_iff list.set(1) list.simps(8) table_changes_def)
  then have "live (gt_entries t) \<noteq> {}" using table_invD(1) [OF inv] by (auto simp: bucket_inv_def)
  then have "gt_n_entry t \<noteq> 0" using table_invD(5) [OF inv] by simp
  with t c k l show "(l, c) \<in> set (located (group_cs ts G))" unfolding in_located_group by blast
qed

lemma group_cs_applies:
  assumes "group_inv rb pkf B N ts G" "takes G d d'"
  shows "apply_changes (located (group_cs ts G)) d = Some d'"
proof (rule apply_takes [OF _ _ assms(2)])
  show "distinct (map fst (located (group_cs ts G)))"
    using assms(1) by (intro distinct_located) (auto simp: group_inv_def)
qed (rule in_located [OF assms(1)])

subsection \<open>Concatenation\<close>

definition items :: "cs_table list \<Rightarrow> (cs_table \<times> change) list" where
  "items ts = concat (map (\<lambda>T. map (Pair T) (tb_changes T)) ts)"

lemma events_items: "events False ts = map (\<lambda>(T, c). event_for False T c) (items ts)"
  by (simp add: events_def items_def map_concat o_def)

lemma located_items: "located ts = map (\<lambda>(T, c). (item_loc T c, c)) (items ts)"
  by (simp add: located_def items_def map_concat o_def item_loc_def)

lemma raw_le_render: "(\<Sum>(T, c)\<leftarrow>items ts. length (change_raw c)) \<le> length (render ts)"
proof (induction ts)
  case (Cons t ts)
  have "(\<Sum>(T, c)\<leftarrow>map (Pair t) cs. length (change_raw c)) \<le> length (concat (map render_change cs))" for cs
    by (induction cs) (auto simp: render_change_def)
  from this [of "tb_changes t"] Cons show ?case by (simp add: items_def render_def render_table_def)
qed (simp add: items_def)

definition group_input :: "bool \<Rightarrow> cs_table list \<Rightarrow> bool" where
  "group_input rb ts \<longleftrightarrow>
     list_all (\<lambda>t. list_all (\<lambda>c. shaped rb (tb_pk t) c \<and> list_all is_key_val (key_of (tb_pk t) (change_rec c))) (tb_changes t)) ts
     \<and> (\<forall>t \<in> set ts. \<forall>t' \<in> set ts. eq_ignore_ascii_case (tb_name t) (tb_name t') \<longrightarrow> tb_pk t = tb_pk t')
     \<and> length (items ts) \<le> 2 ^ 30"

text \<open>
  The inputs of a concatenation: captured changes with non-null key values, one key layout per
  table name, and a number of changes whose hash index stays below \<open>2 ^ 32\<close> buckets.
\<close>

definition concat_input :: "cs_table list \<Rightarrow> bool" where
  "concat_input ts \<longleftrightarrow>
     list_all (\<lambda>t. list_all (\<lambda>c. change_shape (tb_pk t) c \<and> list_all is_key_val (key_of (tb_pk t) (change_rec c))) (tb_changes t)) ts
     \<and> (\<forall>t \<in> set ts. \<forall>t' \<in> set ts. eq_ignore_ascii_case (tb_name t) (tb_name t') \<longrightarrow> tb_pk t = tb_pk t')
     \<and> length (items ts) \<le> 2 ^ 30"

lemma concat_group_input: "concat_input ts = group_input False ts"
  by (simp add: concat_input_def group_input_def shaped_def)

lemma group_input_pkf:
  assumes "group_input rb ts"
  shows "\<exists>pkf. \<forall>t \<in> set ts. tb_pk t = pkf (map ascii_lower (tb_name t))"
proof (intro exI ballI)
  fix t assume t: "t \<in> set ts"
  let ?P = "\<lambda>t'. t' \<in> set ts \<and> map ascii_lower (tb_name t') = map ascii_lower (tb_name t)"
  have s: "?P (SOME t'. ?P t')" using t by (intro someI [of ?P t]) simp
  have "tb_pk x = tb_pk y" if "x \<in> set ts" "y \<in> set ts" "map ascii_lower (tb_name x) = map ascii_lower (tb_name y)" for x y
    using assms that unfolding group_input_def eq_ignore_ascii_case_def by blast
  from this [OF t, of "SOME t'. ?P t'"] s show "tb_pk t = (\<lambda>nm. tb_pk (SOME t'. t' \<in> set ts \<and> map ascii_lower (tb_name t') = nm)) (map ascii_lower (tb_name t))"
    by simp
qed

lemma items_append: "items (xs @ ys) = items xs @ items ys"
  by (simp add: items_def)

lemma raw_in_items: "(T, c) \<in> set xs \<Longrightarrow> length (change_raw c) \<le> (\<Sum>(T, c)\<leftarrow>xs. length (change_raw c))"
  by (induction xs) auto

lemma items_ok:
  assumes "list_all table_ok ts" "group_input rb ts" "length (render ts) < 2 ^ 63"
    and "\<forall>t \<in> set ts. tb_pk t = pkf (map ascii_lower (tb_name t))"
  shows "list_all (\<lambda>(T, c). item_ok rb pkf T c) (items ts)"
proof -
  have "item_ok rb pkf T c" if i: "(T, c) \<in> set (items ts)" for T c
  proof -
    have T: "T \<in> set ts" "c \<in> set (tb_changes T)" using i by (auto simp: items_def)
    have "length (change_raw c) < 2 ^ 63"
      using raw_in_items [OF i] raw_le_render [of ts] assms(3) by linarith
    moreover have "name_ok (tb_name T)" "tb_pk T \<noteq> []" "change_ok (length (tb_pk T)) c"
      using assms(1) T by (auto simp: list_all_iff table_ok_def)
    moreover have "shaped rb (tb_pk T) c" "list_all is_key_val (key_of (tb_pk T) (change_rec c))"
      using assms(2) T by (auto simp: group_input_def list_all_iff)
    ultimately show ?thesis using assms(4) T unfolding item_ok_def good_change_def fits_def by blast
  qed
  then show ?thesis by (auto simp: list_all_iff)
qed

lemma fold_group:
  assumes "list_all table_ok ts" "group_input rb ts" "length (render ts) < 2 ^ 63"
    and "\<forall>t \<in> set ts. tb_pk t = pkf (map ascii_lower (tb_name t))"
    and "cg_tables g0 = []" "cg_b_patch g0 = None" "cg_b_rebase g0 = rb"
  shows "\<exists>g G. fold_outcome add_event g0 (events False ts) = Ok g
    \<and> group_inv rb pkf (\<Sum>(T, c)\<leftarrow>items ts. length (change_raw c)) (length (items ts)) (cg_tables g) G
    \<and> G = fold (\<lambda>(T, c) G. add_delta (coalesce rb (tb_pk T)) G (item_loc T c) c) (items ts) (\<lambda>_. None)
    \<and> (\<not> rb \<longrightarrow> (\<forall>d d''. apply_changes (located ts) d = Some d'' \<longrightarrow> takes G d d''))"
proof -
  have ok: "grp_ok rb pkf 0 0 g0 (\<lambda>_. None)" using assms(5-7) by (simp add: grp_ok_def group_inv_def)
  have "0 + (\<Sum>(T, c)\<leftarrow>items ts. length (change_raw c)) < 2 ^ 63" "0 + length (items ts) \<le> 2 ^ 30"
    using assms(2,3) raw_le_render [of ts] by (simp_all add: group_input_def)
  from fold_items [OF ok items_ok [OF assms(1-4)] this] obtain g G where
    "fold_outcome add_event g0 (events False ts) = Ok g"
    "grp_ok rb pkf (0 + (\<Sum>(T, c)\<leftarrow>items ts. length (change_raw c))) (0 + length (items ts)) g G"
    "G = fold (\<lambda>(T, c) G. add_delta (coalesce rb (tb_pk T)) G (item_loc T c) c) (items ts) (\<lambda>_. None)"
    "\<not> rb \<longrightarrow> (\<forall>d d' d''. takes (\<lambda>_. None) d d' \<longrightarrow> apply_changes (located ts) d' = Some d'' \<longrightarrow> takes G d d'')"
    unfolding events_items located_items by blast
  then show ?thesis unfolding grp_ok_def using takes_empty by auto
qed

lemma fold_tables:
  assumes "list_all table_ok ts" "concat_input ts" "length (render ts) < 2 ^ 63"
  shows "\<exists>g C. fold_outcome add_event group_new (events False ts) = Ok g \<and> group_output g = render C
    \<and> list_all table_ok C
    \<and> (\<forall>d d'. apply_changes (located ts) d = Some d' \<longrightarrow> apply_changes (located C) d = Some d')"
proof -
  have gi: "group_input False ts" using assms(2) by (simp add: concat_group_input)
  obtain pkf where pkf: "\<forall>t \<in> set ts. tb_pk t = pkf (map ascii_lower (tb_name t))"
    using group_input_pkf [OF gi] by blast
  obtain g G where g: "fold_outcome add_event group_new (events False ts) = Ok g"
      and inv: "group_inv False pkf (\<Sum>(T, c)\<leftarrow>items ts. length (change_raw c)) (length (items ts)) (cg_tables g) G"
      and t: "\<And>d d''. apply_changes (located ts) d = Some d'' \<Longrightarrow> takes G d d''"
    using fold_group [OF assms(1) gi assms(3) pkf, of group_new] by (auto simp: group_new_def)
  have "group_output g = render (group_cs (cg_tables g) G)"
    unfolding group_output_def using inv by (intro group_output_render) (auto simp: group_inv_def)
  moreover have "list_all table_ok (group_cs (cg_tables g) G)"
    using inv by (auto simp: group_cs_def list_all_iff group_inv_def intro!: table_cs_ok)
  ultimately show ?thesis using g group_cs_applies [OF inv t] by blast
qed

lemma group_concat_spec:
  assumes "wf_changeset A" "wf_changeset B" "concat_input (A @ B)" "length (render (A @ B)) < 2 ^ 63"
  shows "\<exists>C. group_concat (render A) (render B) = Ok (render C) \<and> list_all table_ok C
    \<and> (\<forall>d d1 d2. apply_changes (located A) d = Some d1 \<longrightarrow> apply_changes (located B) d1 = Some d2
          \<longrightarrow> apply_changes (located C) d = Some d2)"
proof -
  have "list_all table_ok (A @ B)" using assms(1,2) by (simp add: wf_changeset_def)
  from fold_tables [OF this assms(3,4)] obtain g C where
    f: "fold_outcome add_event group_new (events False (A @ B)) = Ok g" "group_output g = render C" "list_all table_ok C"
    and a: "\<And>d d'. apply_changes (located (A @ B)) d = Some d' \<Longrightarrow> apply_changes (located C) d = Some d'"
    by blast
  have "bind_outcome (group_add group_new (render A)) (\<lambda>g1. group_add g1 (render B)) = Ok g"
    using f(1) by (simp add: group_add_def iter_while_render [OF assms(1)] iter_while_render [OF assms(2)]
        events_def fold_outcome_append)
  then have "group_concat (render A) (render B) = Ok (render C)"
    using f(2) by (auto simp: group_concat_def bind_outcome_eq_Ok)
  moreover have "apply_changes (located (A @ B)) d = Some d2"
    if "apply_changes (located A) d = Some d1" "apply_changes (located B) d1 = Some d2" for d d1 d2
    using that by (simp add: located_items items_append apply_changes_append)
  ultimately show ?thesis using f(3) a by blast
qed

subsection \<open>Properties\<close>

text \<open>
  C2: concatenating two captured changesets succeeds, and the result, applied to a database,
  has the effect of applying the first and then the second: the hash index with its growth,
  the row lookup by serialized key, the coalescing of the serialized records and the output
  pass lose, duplicate or misplace no change.
\<close>

theorem concat_composes:
  assumes "wf_changeset A" "wf_changeset B" "concat_input (A @ B)" "length (render (A @ B)) < 2 ^ 63"
  shows "\<exists>C. group_concat (render A) (render B) = Ok (render C) \<and> list_all table_ok C
    \<and> (\<forall>d d1 d2. apply_changes (located A) d = Some d1 \<longrightarrow> apply_changes (located B) d1 = Some d2
          \<longrightarrow> apply_changes (located C) d = Some d2)"
  using assms by (rule group_concat_spec)

definition sample_next :: cs_table where
  "sample_next = \<lparr>tb_name = [0x54], tb_pk = [1, 0], tb_changes = [Upd False [SInt 1, SNull] [Undef, SInt 7], Del False [SInt 2, SInt 3]]\<rparr>"

lemma sample_next_wf: "wf_changeset [sample_next]"
proof -
  have "utf8_valid [0x54]" by (simp add: from_utf8_def utf8_scan.simps)
  moreover have "length (render [sample_next]) < 2 ^ 63"
    by (simp add: render_def render_table_def render_header_def sample_next_def render_change_def put_varint_def put_i64_def)
  ultimately show ?thesis
    by (simp add: wf_changeset_def fits_def table_ok_def name_ok_def sample_next_def)
qed

theorem concat_composes_witness:
  "\<exists>C. group_concat (render [sample_table]) (render [sample_next]) = Ok (render C) \<and>
     apply_changes (located C) (\<lambda>l. if l = ([0x74], [SInt 2]) then Some [SInt 2, SNull] else None)
     = Some (\<lambda>l. if l = ([0x74], [SInt 1]) then Some [SInt 1, SInt 7] else None)"
proof -
  have ci: "concat_input ([sample_table] @ [sample_next])"
    by (simp add: concat_input_def sample_table_def sample_next_def upd_shape_def key_of_def items_def)
  have sz: "length (render ([sample_table] @ [sample_next])) < 2 ^ 63"
    by (simp add: render_def render_table_def render_header_def sample_next_def sample_table_def render_change_def
        put_varint_def put_i64_def)
  have "apply_changes (located [sample_table]) (\<lambda>l. if l = ([0x74], [SInt 2]) then Some [SInt 2, SNull] else None)
      = Some (\<lambda>l. if l = ([0x74], [SInt 1]) then Some [SInt 1, SNull]
        else if l = ([0x74], [SInt 2]) then Some [SInt 2, SInt 3] else None)"
    by (simp add: sample_table_def located_def key_of_def matches_def overlay_def fun_eq_iff ascii_lower_def)
  moreover have "apply_changes (located [sample_next]) (\<lambda>l. if l = ([0x74], [SInt 1]) then Some [SInt 1, SNull]
        else if l = ([0x74], [SInt 2]) then Some [SInt 2, SInt 3] else None)
      = Some (\<lambda>l. if l = ([0x74], [SInt 1]) then Some [SInt 1, SInt 7] else None)"
    by (simp add: sample_next_def located_def key_of_def matches_def overlay_def fun_eq_iff ascii_lower_def)
  ultimately show ?thesis
    using concat_composes [OF sample_table_wf sample_next_wf ci sz] by blast
qed

text \<open>
  C23: the coalescing matrix on serialized records: for every pair of operations
  \<^verbatim>\<open>change_merge\<close> keeps the first change, drops both, or produces exactly the operation, the
  indirect flag and the record bytes of the abstract merge.
\<close>

theorem change_merge_refines:
  assumes "change_ok (length pk) c1" "change_ok (length pk) c2" "fits (change_raw c1)" "fits (change_raw c2)"
  shows "\<exists>r. change_merge pk (length pk) False False (entry_of c1) (change_op c2) (change_ind c2) (change_raw c2) = Ok r
    \<and> (case merge_changes pk c1 c2 of None \<Rightarrow> r = None
       | Some None \<Rightarrow> (\<exists>mop mi. r = Some (mop, mi, None))
       | Some (Some c) \<Rightarrow> r = Some (change_op c, change_ind c, Some (change_raw c)))"
  using assms by (rule change_merge_spec)

theorem change_merge_refines_witness:
  "change_merge [1, 0] (Suc (Suc 0)) False False (entry_of (Del False [SInt 1, SNull])) OP_INSERT False (field_bytes [SInt 1, SInt 5])
   = Ok (Some (OP_UPDATE, False, Some (field_bytes [SInt 1, SNull, Undef, SInt 5])))"
  using change_merge_refines [of "[1, 0]" "Del False [SInt 1, SNull]" "Ins False [SInt 1, SInt 5]"]
  by (simp add: fits_def put_i64_def squash_def differs_def squash_old_def squash_new_def)

end
