(* ===== verification/Session_Rebase.thy ===== *)
theory Session_Rebase
  imports Session_Concat
begin

text \<open>
  \<^verbatim>\<open>src/session/rebase.rs\<close>: the rebaser. It rewrites a local changeset against the entries of
  a rebase blob, which is loaded into a change group in rebase mode; an entry is a single
  record in which \<open>Replaced\<close> marks the columns the remote side overwrote.
\<close>

subsection \<open>The code\<close>

definition rebaser_configure :: "change_group \<Rightarrow> bytes \<Rightarrow> change_group outcome" where
  "rebaser_configure grp blob = group_add grp blob"

definition table_entries :: "change_group \<Rightarrow> bytes \<Rightarrow> group_entry list" where
  "table_entries g name =
     (case find (\<lambda>t. eq_ignore_ascii_case (gt_name t) name) (cg_tables g) of
        None \<Rightarrow> []
      | Some t \<Rightarrow> List.map_filter (\<lambda>i. if i < length (gt_entries t) then gt_entries t ! i else None) (concat (gt_buckets t)))"

fun pk_records_equal :: "bytes \<Rightarrow> bytes \<Rightarrow> bytes \<Rightarrow> bool outcome" where
  "pk_records_equal [] a1 a2 = Ok True"
| "pk_records_equal (pk # pks) a1 a2 =
     bind_outcome (serial_len a1 0) (\<lambda>n1. bind_outcome (serial_len a2 0) (\<lambda>n2.
       if pk \<noteq> 0
       then if n1 \<noteq> n2 then Ok False
            else bind_outcome (slice a1 0 n1) (\<lambda>f1. bind_outcome (slice a2 0 n2) (\<lambda>f2.
              if f1 \<noteq> f2 then Ok False
              else bind_outcome (tail_from a1 n1) (\<lambda>r1. bind_outcome (tail_from a2 n2) (\<lambda>r2. pk_records_equal pks r1 r2))))
       else bind_outcome (tail_from a1 n1) (\<lambda>r1. bind_outcome (tail_from a2 n2) (\<lambda>r2. pk_records_equal pks r1 r2))))"

fun find_rebase_entry :: "bytes \<Rightarrow> group_entry list \<Rightarrow> bytes \<Rightarrow> group_entry option outcome" where
  "find_rebase_entry pks [] raw = Ok None"
| "find_rebase_entry pks (e # es) raw =
     bind_outcome (pk_records_equal pks (ge_record e) raw) (\<lambda>b. if b then Ok (Some e) else find_rebase_entry pks es raw)"

fun append_record_merge :: "nat \<Rightarrow> bytes \<Rightarrow> bytes \<Rightarrow> bytes outcome" where
  "append_record_merge 0 x1 x2 = Ok []"
| "append_record_merge (Suc n) x1 x2 =
     bind_outcome (serial_len x1 0) (\<lambda>n1. bind_outcome (serial_len x2 0) (\<lambda>n2.
       bind_outcome (index_at x1 0) (\<lambda>b.
         bind_outcome (if b = TYPE_UNDEF \<or> b = TYPE_REPLACED then slice x2 0 n2 else slice x1 0 n1) (\<lambda>f.
           bind_outcome (tail_from x1 n1) (\<lambda>r1. bind_outcome (tail_from x2 n2) (\<lambda>r2.
             bind_outcome (append_record_merge n r1 r2) (\<lambda>fs. Ok (f @ fs))))))))"

text \<open>The \<open>old.*\<close> pass returns whether a modification survives, the bytes, and where \<open>new.*\<close> starts.\<close>

fun partial_old :: "bytes \<Rightarrow> bytes \<Rightarrow> bytes \<Rightarrow> (bool \<times> bytes \<times> bytes) outcome" where
  "partial_old [] a1 a2 = Ok (False, [], a1)"
| "partial_old (pk # pks) a1 a2 =
     bind_outcome (serial_len a1 0) (\<lambda>n1. bind_outcome (serial_len a2 0) (\<lambda>n2.
       bind_outcome (index_at a1 0) (\<lambda>b1. bind_outcome (index_at a2 0) (\<lambda>b2.
         bind_outcome
           (if pk \<noteq> 0 \<or> b2 = TYPE_UNDEF
            then bind_outcome (slice a1 0 n1) (\<lambda>f. Ok (pk = 0 \<and> b1 \<noteq> TYPE_UNDEF \<and> b1 \<noteq> TYPE_REPLACED, f))
            else if b2 \<noteq> TYPE_REPLACED \<and> b1 \<noteq> TYPE_UNDEF \<and> b1 \<noteq> TYPE_REPLACED
            then bind_outcome (slice a2 0 n2) (\<lambda>f. Ok (True, f))
            else Ok (False, [TYPE_UNDEF]))
           (\<lambda>(data, f). bind_outcome (tail_from a1 n1) (\<lambda>r1. bind_outcome (tail_from a2 n2) (\<lambda>r2.
              bind_outcome (partial_old pks r1 r2) (\<lambda>(b, fs, rest). Ok (data \<or> b, f @ fs, rest)))))))))"

fun partial_new :: "bytes \<Rightarrow> bytes \<Rightarrow> bytes \<Rightarrow> bytes outcome" where
  "partial_new [] a1 a2 = Ok []"
| "partial_new (pk # pks) a1 a2 =
     bind_outcome (serial_len a1 0) (\<lambda>n1. bind_outcome (serial_len a2 0) (\<lambda>n2.
       bind_outcome (index_at a2 0) (\<lambda>b2.
         bind_outcome (if pk \<noteq> 0 \<or> b2 \<noteq> TYPE_REPLACED then slice a1 0 n1 else Ok [TYPE_UNDEF]) (\<lambda>f.
           bind_outcome (tail_from a1 n1) (\<lambda>r1. bind_outcome (tail_from a2 n2) (\<lambda>r2.
             bind_outcome (partial_new pks r1 r2) (\<lambda>fs. Ok (f @ fs))))))))"

definition append_partial_update :: "nat \<Rightarrow> bytes \<Rightarrow> bool \<Rightarrow> bytes \<Rightarrow> bytes \<Rightarrow> bytes outcome" where
  "append_partial_update n_col ab_pk indirect a_rec a_change =
     bind_outcome (partial_old (take n_col ab_pk) a_rec a_change) (\<lambda>(data, ob, a1).
       if \<not> data then Ok []
       else bind_outcome (partial_new (take n_col ab_pk) a1 a_change) (\<lambda>nb.
         Ok (OP_UPDATE # ind_byte indirect # ob @ nb)))"

definition rebase_change :: "nat \<Rightarrow> bytes \<Rightarrow> group_entry option \<Rightarrow> byte \<Rightarrow> bool \<Rightarrow> bytes \<Rightarrow> bytes outcome" where
  "rebase_change n_col ab_pk hit opb indirect raw =
     (let same = Ok (opb # ind_byte indirect # raw) in
      case hit of
        None \<Rightarrow> same
      | Some entry \<Rightarrow>
          if opb = OP_INSERT
          then if ge_op entry = OP_INSERT
               then if ge_indirect entry then Ok []
                    else Ok (OP_UPDATE # ind_byte indirect # ge_record entry @ raw)
               else same
          else if opb = OP_UPDATE
          then if ge_op entry = OP_DELETE
               then if ge_indirect entry then Ok []
                    else bind_outcome (skip_record raw 0 n_col) (\<lambda>new_off.
                      bind_outcome (tail_from raw new_off) (\<lambda>nr.
                        bind_outcome (append_record_merge n_col nr (ge_record entry)) (\<lambda>m.
                          Ok (OP_INSERT # ind_byte indirect # m))))
               else append_partial_update n_col ab_pk indirect raw (ge_record entry)
          else if ge_op entry = OP_INSERT
          then bind_outcome (append_record_merge n_col (ge_record entry) raw) (\<lambda>m. Ok (OP_DELETE # ind_byte indirect # m))
          else Ok [])"

type_synonym cur_table = "(bytes \<times> nat \<times> bytes \<times> group_entry list) option"

definition rebase_step :: "change_group \<Rightarrow> bytes \<times> cur_table \<Rightarrow> event \<Rightarrow> (bytes \<times> cur_table) outcome" where
  "rebase_step grp st e =
     (let (out, cur) = st;
          changed = (case cur of None \<Rightarrow> True | Some (n, _, _, _) \<Rightarrow> n \<noteq> ev_table e);
          out1 = (if changed then out @ (if ev_patchset e then ch_P else ch_T) # put_varint (word_of_nat (ev_n_col e)) @ ev_pk e @ ev_table e @ [0] else out);
          (n_col, ab_pk, entries) =
            (if changed then (ev_n_col e, ev_pk e, table_entries grp (ev_table e))
             else (case cur of Some (_, n, pk, es) \<Rightarrow> (n, pk, es) | None \<Rightarrow> (0, [], [])))
      in if changed \<and> ev_patchset e then Err ''patchset may not be rebased''
         else bind_outcome (find_rebase_entry (take n_col ab_pk) entries (ev_raw e)) (\<lambda>hit.
           bind_outcome (rebase_change n_col ab_pk hit (ev_op e) (ev_indirect e) (ev_raw e)) (\<lambda>b.
             Ok (out1 @ b, if changed then Some (ev_table e, n_col, ab_pk, entries) else cur))))"

definition rebase :: "change_group \<Rightarrow> bytes \<Rightarrow> bytes outcome" where
  "rebase grp changeset =
     bind_outcome (iter_while (rebase_step grp) ([], None) (start_data changeset 0)) (\<lambda>(out, cur). Ok out)"

subsection \<open>The rebased change\<close>

definition real_val :: "sess_val \<Rightarrow> bool" where
  "real_val v \<longleftrightarrow> v \<noteq> Undef \<and> v \<noteq> Replaced"

definition rmerge :: "sess_val list \<Rightarrow> sess_val list \<Rightarrow> sess_val list" where
  "rmerge a b = map2 (\<lambda>x y. if real_val x then x else y) a b"

definition pu_old :: "bytes \<Rightarrow> sess_val list \<Rightarrow> sess_val list \<Rightarrow> sess_val list" where
  "pu_old pk ov rv = map (\<lambda>(p, o', r). if p \<noteq> 0 \<or> r = Undef then o' else if r \<noteq> Replaced \<and> real_val o' then r else Undef)
     (zip pk (zip ov rv))"

definition pu_new :: "bytes \<Rightarrow> sess_val list \<Rightarrow> sess_val list \<Rightarrow> sess_val list" where
  "pu_new pk nv rv = map (\<lambda>(p, n, r). if p \<noteq> 0 \<or> r \<noteq> Replaced then n else Undef) (zip pk (zip nv rv))"

definition survives :: "bytes \<Rightarrow> sess_val list \<Rightarrow> sess_val list \<Rightarrow> bool" where
  "survives pk ov rv \<longleftrightarrow> list_ex (\<lambda>(p, o', r). p = 0 \<and> r \<noteq> Replaced \<and> real_val o') (zip pk (zip ov rv))"

fun rebased :: "bytes \<Rightarrow> byte \<Rightarrow> bool \<Rightarrow> sess_val list \<Rightarrow> change \<Rightarrow> change list" where
  "rebased pk eop ei rv (Ins i v) = (if eop = OP_INSERT then if ei then [] else [Upd i rv v] else [Ins i v])"
| "rebased pk eop ei rv (Upd i ov nv) =
     (if eop = OP_DELETE then if ei then [] else [Ins i (rmerge nv rv)]
      else if survives pk ov rv then [Upd i (pu_old pk ov rv) (pu_new pk nv rv)] else [])"
| "rebased pk eop ei rv (Del i v) = (if eop = OP_INSERT then [Del i (rmerge rv v)] else [])"

lemma serial_len_no_Err: "serial_len a p \<noteq> Err m"
  by (auto simp: serial_len_def index_at_def Let_def split: prod.splits)

lemma pk_records_equal_change_equal: "pk_records_equal pks a b = change_equal pks a False b False"
proof (induction pks arbitrary: a b)
  case (Cons p pks)
  show ?case
    by (cases "serial_len a 0"; cases "serial_len b 0"; cases "p = 0")
      (auto simp: Cons.IH tail_from_def slice_def serial_len_no_Err split: if_splits)
qed simp

lemma append_record_merge_fields:
  "length ws = length vs \<Longrightarrow> list_all sess_val_ok vs \<Longrightarrow> list_all sess_val_ok ws \<Longrightarrow>
   fits (field_bytes vs @ r) \<Longrightarrow> fits (field_bytes ws @ s) \<Longrightarrow>
   append_record_merge (length vs) (field_bytes vs @ r) (field_bytes ws @ s) = Ok (field_bytes (rmerge vs ws))"
proof (induction vs arbitrary: ws)
  case Nil
  then show ?case by (simp add: rmerge_def)
next
  case (Cons v vs)
  obtain w ws' where e: "ws = w # ws'" using Cons.prems by (cases ws) auto
  have f: "fits (append_field v @ field_bytes vs @ r)" "fits (append_field w @ field_bytes ws' @ s)"
    using Cons.prems e by simp_all
  have ok: "sess_val_ok v" "sess_val_ok w" using Cons.prems e by simp_all
  have "append_record_merge (length vs) (field_bytes vs @ r) (field_bytes ws' @ s) = Ok (field_bytes (rmerge vs ws'))"
    using Cons.prems e fits_appendD(2) [OF f(1)] fits_appendD(2) [OF f(2)] by (intro Cons.IH) simp_all
  then show ?case
    using field_at_0 [OF f(1) ok(1)] field_at_0 [OF f(2) ok(2)] e hd_field(2,3) [of v] by (simp add: rmerge_def real_val_def)
qed

lemma partial_old_fields:
  "length ov = length pk \<Longrightarrow> length rv = length pk \<Longrightarrow> list_all sess_val_ok ov \<Longrightarrow> list_all sess_val_ok rv \<Longrightarrow>
   fits (field_bytes ov @ r) \<Longrightarrow> fits (field_bytes rv @ s) \<Longrightarrow>
   partial_old pk (field_bytes ov @ r) (field_bytes rv @ s) = Ok (survives pk ov rv, field_bytes (pu_old pk ov rv), r)"
proof (induction pk arbitrary: ov rv)
  case Nil
  then show ?case by (simp add: survives_def pu_old_def)
next
  case (Cons p pk)
  obtain v ov' w rv' where e: "ov = v # ov'" "rv = w # rv'" using Cons.prems by (cases ov; cases rv) auto
  have f: "fits (append_field v @ field_bytes ov' @ r)" "fits (append_field w @ field_bytes rv' @ s)"
    using Cons.prems e by simp_all
  have ok: "sess_val_ok v" "sess_val_ok w" using Cons.prems e by simp_all
  have "partial_old pk (field_bytes ov' @ r) (field_bytes rv' @ s) = Ok (survives pk ov' rv', field_bytes (pu_old pk ov' rv'), r)"
    using Cons.prems e fits_appendD(2) [OF f(1)] fits_appendD(2) [OF f(2)] by (intro Cons.IH) simp_all
  then show ?case
    using field_at_0 [OF f(1) ok(1)] field_at_0 [OF f(2) ok(2)] e hd_field(2,3) [of v] hd_field(2,3) [of w]
    by (auto simp: survives_def pu_old_def real_val_def)
qed

lemma partial_new_fields:
  "length nv = length pk \<Longrightarrow> length rv = length pk \<Longrightarrow> list_all sess_val_ok nv \<Longrightarrow> list_all sess_val_ok rv \<Longrightarrow>
   fits (field_bytes nv @ r) \<Longrightarrow> fits (field_bytes rv @ s) \<Longrightarrow>
   partial_new pk (field_bytes nv @ r) (field_bytes rv @ s) = Ok (field_bytes (pu_new pk nv rv))"
proof (induction pk arbitrary: nv rv)
  case Nil
  then show ?case by (simp add: pu_new_def)
next
  case (Cons p pk)
  obtain v nv' w rv' where e: "nv = v # nv'" "rv = w # rv'" using Cons.prems by (cases nv; cases rv) auto
  have f: "fits (append_field v @ field_bytes nv' @ r)" "fits (append_field w @ field_bytes rv' @ s)"
    using Cons.prems e by simp_all
  have ok: "sess_val_ok v" "sess_val_ok w" using Cons.prems e by simp_all
  have "partial_new pk (field_bytes nv' @ r) (field_bytes rv' @ s) = Ok (field_bytes (pu_new pk nv' rv'))"
    using Cons.prems e fits_appendD(2) [OF f(1)] fits_appendD(2) [OF f(2)] by (intro Cons.IH) simp_all
  then show ?case
    using field_at_0 [OF f(1) ok(1)] field_at_0 [OF f(2) ok(2)] e hd_field(2,3) [of w]
    by (auto simp: pu_new_def)
qed

definition rec_ok :: "bytes \<Rightarrow> group_entry \<Rightarrow> sess_val list \<Rightarrow> bool" where
  "rec_ok pk e rv \<longleftrightarrow> ge_record e = field_bytes rv \<and> length rv = length pk \<and> list_all sess_val_ok rv \<and> fits (field_bytes rv)"

lemma rebase_change_rebased:
  assumes ok: "change_ok (length pk) c" "fits (change_raw c)" and e: "rec_ok pk e rv"
  shows "rebase_change (length pk) pk (Some e) (change_op c) (change_ind c) (change_raw c)
    = Ok (concat (map render_change (rebased pk (ge_op e) (ge_indirect e) rv c)))"
proof (cases c)
  case (Ins i v)
  then show ?thesis using e by (simp add: rebase_change_def render_change_def op_defs rec_ok_def)
next
  case (Del i v)
  have "append_record_merge (length rv) (field_bytes rv @ []) (field_bytes v @ []) = Ok (field_bytes (rmerge rv v))"
    using ok Del e by (intro append_record_merge_fields) (auto simp: rec_ok_def)
  then show ?thesis using Del e by (simp add: rebase_change_def render_change_def op_defs rec_ok_def)
next
  case (Upd i ov nv)
  have f: "fits (field_bytes ov @ field_bytes nv)" using ok Upd by simp
  have fn: "fits (field_bytes nv)" using fits_appendD(2) [OF f] .
  have "bind_outcome (skip_record (field_bytes ov @ field_bytes nv) 0 (length ov))
      (tail_from (field_bytes ov @ field_bytes nv)) = Ok (field_bytes nv)"
    using ok Upd f by (intro tail_after_fields) auto
  then have sk: "bind_outcome (skip_record (field_bytes ov @ field_bytes nv) 0 (length pk))
      (\<lambda>k. bind_outcome (tail_from (field_bytes ov @ field_bytes nv) k) g) = g (field_bytes nv)" for g :: "bytes \<Rightarrow> bytes outcome"
    using ok Upd by (simp add: bind_outcome_assoc [symmetric])
  have m: "append_record_merge (length nv) (field_bytes nv @ []) (field_bytes rv @ []) = Ok (field_bytes (rmerge nv rv))"
    using ok Upd e fn by (intro append_record_merge_fields) (auto simp: rec_ok_def)
  have po: "partial_old pk (field_bytes ov @ field_bytes nv) (field_bytes rv @ [])
      = Ok (survives pk ov rv, field_bytes (pu_old pk ov rv), field_bytes nv)"
    using ok Upd e f by (intro partial_old_fields) (auto simp: rec_ok_def)
  have pn: "partial_new pk (field_bytes nv @ []) (field_bytes rv @ []) = Ok (field_bytes (pu_new pk nv rv))"
    using ok Upd e fn by (intro partial_new_fields) (auto simp: rec_ok_def)
  show ?thesis
    using Upd e sk m po pn ok
    by (simp add: rebase_change_def append_partial_update_def render_change_def op_defs rec_ok_def)
qed

subsection \<open>The rebased changeset\<close>

definition rec_fields :: "bytes \<Rightarrow> group_entry \<Rightarrow> sess_val list" where
  "rec_fields pk e = (case parse_record (ge_record e) 0 (length pk) of Ok (vs, _) \<Rightarrow> vs | _ \<Rightarrow> [])"

definition entries_wf :: "bytes \<Rightarrow> group_entry list \<Rightarrow> bool" where
  "entries_wf pk es \<longleftrightarrow> list_all (\<lambda>e. rec_ok pk e (rec_fields pk e)) es"

text \<open>
  What a rebase buffer says of each row: its entries, those of one row merged in order. A local
  change to a row with an entry is rewritten by the matrix, any other is kept.
\<close>

definition rebase_map :: "cs_table list \<Rightarrow> delta" where
  "rebase_map R = fold (\<lambda>(T, c) G. add_delta (coalesce True (tb_pk T)) G (item_loc T c) c) (items R) (\<lambda>_. None)"

definition rebase_row :: "delta \<Rightarrow> bytes \<Rightarrow> bytes \<Rightarrow> change \<Rightarrow> change list" where
  "rebase_row G name pk c =
     (case G (map ascii_lower name, key_of pk (change_rec c)) of
        None \<Rightarrow> [c] | Some e \<Rightarrow> rebased pk (change_op e) (change_ind e) (change_rec e) c)"

definition rebase_table :: "delta \<Rightarrow> cs_table \<Rightarrow> cs_table" where
  "rebase_table G t = t\<lparr>tb_changes := concat (map (rebase_row G (tb_name t) (tb_pk t)) (tb_changes t))\<rparr>"

text \<open>The entries of one table stand for the map, in any order.\<close>

definition entries_for :: "delta \<Rightarrow> bytes \<Rightarrow> bytes \<Rightarrow> group_entry list \<Rightarrow> bool" where
  "entries_for G name pk es \<longleftrightarrow> entries_wf pk es
     \<and> (\<forall>k. map_option (\<lambda>e. (ge_op e, ge_indirect e, rec_fields pk e)) (find (\<lambda>e. key_of pk (rec_fields pk e) = k) es)
          = map_option (\<lambda>c. (change_op c, change_ind c, change_rec c)) (G (map ascii_lower name, k)))"

definition rebase_ready :: "change_group \<Rightarrow> delta \<Rightarrow> cs_table list \<Rightarrow> bool" where
  "rebase_ready grp G ts \<longleftrightarrow> distinct_adj (map tb_name ts)
     \<and> list_all (\<lambda>t. tb_changes t \<noteq> [] \<and> entries_for G (tb_name t) (tb_pk t) (table_entries grp (tb_name t))) ts"

lemma raw_rec:
  assumes "change_ok (length pk) c" "fits (change_raw c)"
  shows "\<exists>r. change_raw c = field_bytes (change_rec c) @ r \<and> list_all sess_val_ok (change_rec c) \<and> length (change_rec c) = length pk"
  using assms by (cases c) auto

lemma find_rebase_entry_find:
  assumes "change_ok (length pk) c" "fits (change_raw c)"
  shows "entries_wf pk es \<Longrightarrow> find_rebase_entry pk es (change_raw c)
    = Ok (find (\<lambda>e. key_of pk (rec_fields pk e) = key_of pk (change_rec c)) es)"
proof (induction es)
  case (Cons e es)
  obtain r where r: "change_raw c = field_bytes (change_rec c) @ r" "list_all sess_val_ok (change_rec c)"
      "length (change_rec c) = length pk" using raw_rec [OF assms] by blast
  have "rec_ok pk e (rec_fields pk e)" using Cons.prems by (simp add: entries_wf_def)
  then have "pk_records_equal pk (ge_record e) (change_raw c)
      = Ok (key_of pk (rec_fields pk e) = key_of pk (change_rec c))"
    using change_equal_fields [of "rec_fields pk e" pk "change_rec c" "[]" r] r assms(2)
    by (simp add: rec_ok_def pk_records_equal_change_equal)
  with Cons show ?case by (simp add: entries_wf_def)
qed simp

lemma rebase_change_one:
  assumes "change_ok (length pk) c" "fits (change_raw c)" "entries_for G name pk es"
  shows "bind_outcome (find_rebase_entry pk es (change_raw c)) (\<lambda>hit.
      rebase_change (length pk) pk hit (change_op c) (change_ind c) (change_raw c))
    = Ok (concat (map render_change (rebase_row G name pk c)))"
proof -
  define k where "k = key_of pk (change_rec c)"
  have wf: "entries_wf pk es"
    and m: "map_option (\<lambda>e. (ge_op e, ge_indirect e, rec_fields pk e)) (find (\<lambda>e. key_of pk (rec_fields pk e) = k) es)
      = map_option (\<lambda>c. (change_op c, change_ind c, change_rec c)) (G (map ascii_lower name, k))"
    using assms(3) unfolding entries_for_def by blast+
  note f = find_rebase_entry_find [OF assms(1,2) wf, folded k_def]
  show ?thesis
  proof (cases "find (\<lambda>e. key_of pk (rec_fields pk e) = k) es")
    case None
    with m f show ?thesis by (simp add: rebase_change_def rebase_row_def render_change_def k_def [symmetric])
  next
    case (Some e)
    then have "rec_ok pk e (rec_fields pk e)" using wf by (auto simp: entries_wf_def list_all_iff find_Some_iff)
    moreover obtain x where "G (map ascii_lower name, k) = Some x"
        "ge_op e = change_op x" "ge_indirect e = change_ind x" "rec_fields pk e = change_rec x"
      using m Some by (cases "G (map ascii_lower name, k)") auto
    ultimately show ?thesis
      using Some f rebase_change_rebased [OF assms(1,2)] by (simp add: rebase_row_def k_def [symmetric])
  qed
qed

lemma rebase_step_same:
  assumes "change_ok (length (tb_pk t)) c" "fits (change_raw c)" "entries_for G (tb_name t) (tb_pk t) es"
  shows "rebase_step grp (out, Some (tb_name t, length (tb_pk t), tb_pk t, es)) (event_for False t c)
    = Ok (out @ concat (map render_change (rebase_row G (tb_name t) (tb_pk t) c)), Some (tb_name t, length (tb_pk t), tb_pk t, es))"
  using rebase_change_one [OF assms] by (auto simp: rebase_step_def event_for_def bind_outcome_eq_Ok)

lemma rebase_step_new:
  assumes "change_ok (length (tb_pk t)) c" "fits (change_raw c)"
    and "entries_for G (tb_name t) (tb_pk t) (table_entries grp (tb_name t))"
    and "\<And>n r. cur = Some (n, r) \<Longrightarrow> n \<noteq> tb_name t"
  shows "rebase_step grp (out, cur) (event_for False t c)
    = Ok (out @ render_header ch_T (tb_pk t) (tb_name t)
           @ concat (map render_change (rebase_row G (tb_name t) (tb_pk t) c)),
          Some (tb_name t, length (tb_pk t), tb_pk t, table_entries grp (tb_name t)))"
  using rebase_change_one [OF assms(1-3)] assms(4)
  by (cases cur) (auto simp: rebase_step_def event_for_def bind_outcome_eq_Ok render_header_def Let_def)

lemma rebase_fold_changes:
  assumes "entries_for G (tb_name t) (tb_pk t) es"
  shows "list_all (\<lambda>c. change_ok (length (tb_pk t)) c \<and> fits (change_raw c)) cs \<Longrightarrow>
   fold_outcome (rebase_step grp) (out, Some (tb_name t, length (tb_pk t), tb_pk t, es)) (map (event_for False t) cs)
    = Ok (out @ concat (map render_change (concat (map (rebase_row G (tb_name t) (tb_pk t)) cs))), Some (tb_name t, length (tb_pk t), tb_pk t, es))"
  by (induction cs arbitrary: out) (simp_all add: rebase_step_same [OF _ _ assms])

lemma rebase_fold_tables:
  "list_all (\<lambda>t. list_all (\<lambda>c. change_ok (length (tb_pk t)) c \<and> fits (change_raw c)) (tb_changes t)) ts \<Longrightarrow>
   rebase_ready grp G ts \<Longrightarrow> (\<And>n r t ts'. cur = Some (n, r) \<Longrightarrow> ts = t # ts' \<Longrightarrow> n \<noteq> tb_name t) \<Longrightarrow>
   \<exists>cur'. fold_outcome (rebase_step grp) (out, cur) (events False ts) = Ok (out @ render (map (rebase_table G) ts), cur')"
proof (induction ts arbitrary: out cur)
  case Nil
  then show ?case by (simp add: events_def render_def)
next
  case (Cons t ts)
  define es where "es = table_entries grp (tb_name t)"
  have es: "entries_for G (tb_name t) (tb_pk t) es" using Cons.prems(2) by (simp add: rebase_ready_def es_def)
  obtain c cs where cs: "tb_changes t = c # cs" using Cons.prems(2) by (cases "tb_changes t") (auto simp: rebase_ready_def)
  have ok: "change_ok (length (tb_pk t)) c" "fits (change_raw c)"
    and oks: "list_all (\<lambda>c. change_ok (length (tb_pk t)) c \<and> fits (change_raw c)) cs"
    using Cons.prems(1) cs by simp_all
  let ?cur = "Some (tb_name t, length (tb_pk t), tb_pk t, es)"
  have first: "rebase_step grp (out, cur) (event_for False t c)
      = Ok (out @ render_header ch_T (tb_pk t) (tb_name t) @ concat (map render_change (rebase_row G (tb_name t) (tb_pk t) c)), ?cur)"
    unfolding es_def using Cons.prems(3) es by (intro rebase_step_new ok) (auto simp: es_def)
  have "\<exists>cur'. fold_outcome (rebase_step grp) (out @ render_table (rebase_table G t), ?cur) (events False ts)
      = Ok ((out @ render_table (rebase_table G t)) @ render (map (rebase_table G) ts), cur')"
    using Cons.prems(1,2) by (intro Cons.IH) (auto simp: rebase_ready_def dest: distinct_adj_ConsD)
  moreover have rt: "render_table (rebase_table G t) = render_header ch_T (tb_pk t) (tb_name t)
      @ concat (map render_change (rebase_row G (tb_name t) (tb_pk t) c)) @ concat (map render_change (concat (map (rebase_row G (tb_name t) (tb_pk t)) cs)))"
    using cs by (simp add: render_table_def rebase_table_def es_def)
  moreover have "events False (t # ts) = event_for False t c # map (event_for False t) cs @ events False ts"
    using cs by (simp add: events_def)
  moreover have "render (map (rebase_table G) (t # ts)) = render_table (rebase_table G t) @ render (map (rebase_table G) ts)"
    by (simp add: render_def)
  ultimately show ?case
    using first rebase_fold_changes [OF es oks, of grp] by (simp add: fold_outcome_append)
qed

lemma rebase_render:
  assumes "wf_changeset ts" "rebase_ready grp G ts"
  shows "rebase grp (render ts) = Ok (render (map (rebase_table G) ts))"
proof -
  have "change_ok (length (tb_pk t)) c \<and> fits (change_raw c)" if "t \<in> set ts" "c \<in> set (tb_changes t)" for t c
  proof -
    have "(t, c) \<in> set (items ts)" using that by (auto simp: items_def)
    from raw_in_items [OF this] raw_le_render [of ts] have "fits (change_raw c)"
      using assms(1) by (simp add: wf_changeset_def fits_def)
    then show ?thesis using assms(1) that by (auto simp: wf_changeset_def table_ok_def list_all_iff)
  qed
  then have "list_all (\<lambda>t. list_all (\<lambda>c. change_ok (length (tb_pk t)) c \<and> fits (change_raw c)) (tb_changes t)) ts"
    by (simp add: list_all_iff)
  from rebase_fold_tables [OF this assms(2), where cur = None and out = "[]"] show ?thesis
    by (auto simp: rebase_def iter_while_render [OF assms(1)])
qed

subsection \<open>The configured rebaser\<close>

lemma table_entries_changes:
  assumes "table_inv rb B t H"
  shows "List.map_filter (\<lambda>i. if i < length (gt_entries t) then gt_entries t ! i else None) (concat (gt_buckets t))
    = map entry_of (table_changes t H)"
proof -
  have ids: "set (concat (gt_buckets t)) = live (gt_entries t)" using table_invD(1) [OF assms] by (simp add: bucket_inv_def)
  have e: "\<exists>e. i < length (gt_entries t) \<and> gt_entries t ! i = Some e \<and> entry_of (the (H (entry_key (gt_ab_pk t) e))) = e"
    if "i \<in> set (concat (gt_buckets t))" for i
  proof -
    from that obtain e where "slot (gt_entries t) i e" unfolding ids by (auto simp: live_slot)
    with slot_change [OF assms this] show ?thesis by (auto simp: slot_def)
  qed
  have "List.map_filter (\<lambda>i. if i < length (gt_entries t) then gt_entries t ! i else None) xs
      = map (\<lambda>i. entry_of (the (H (entry_key (gt_ab_pk t) (the (gt_entries t ! i)))))) xs"
    if "set xs \<subseteq> set (concat (gt_buckets t))" for xs
    using that by (induction xs) (auto simp del: set_concat dest!: e)
  from this [OF order_refl] show ?thesis unfolding table_changes_def by (simp del: map_concat)
qed

lemma single_record: "single c \<Longrightarrow> change_raw c = field_bytes (change_rec c)"
  by (cases c) simp_all

lemma single_entry:
  assumes "good_change True pk c"
  shows "rec_ok pk (entry_of c) (change_rec c)" "rec_fields pk (entry_of c) = change_rec c"
proof -
  have s: "change_raw c = field_bytes (change_rec c)" and l: "length (change_rec c) = length pk"
    using assms by (auto simp: good_change_def shaped_def intro: single_record)
  obtain r where r: "change_raw c = field_bytes (change_rec c) @ r" "fits (field_bytes (change_rec c) @ r)" "list_all sess_val_ok (change_rec c)"
    using change_raw_rec [OF assms] by blast
  show "rec_fields pk (entry_of c) = change_rec c"
    using parse_record_fields [OF r(2,3), of 0] r(1) l by (simp add: rec_fields_def entry_of_def)
  show "rec_ok pk (entry_of c) (change_rec c)"
    using r s l by (simp add: rec_ok_def entry_of_def)
qed

lemma find_table_changes:
  assumes "table_inv rb B t H"
  shows "find (\<lambda>c. key_of (gt_ab_pk t) (change_rec c) = k) (table_changes t H) = H k"
proof (cases "find (\<lambda>c. key_of (gt_ab_pk t) (change_rec c) = k) (table_changes t H)")
  case None
  have "H k \<noteq> Some c" for c
  proof
    assume h: "H k = Some c"
    then have "key_of (gt_ab_pk t) (change_rec c) = k" using table_invD(4) [OF assms] by (auto simp: keyed_def)
    with h None in_table_changes [OF assms, of c] show False by (auto simp: find_None_iff)
  qed
  with None show ?thesis by (cases "H k") auto
next
  case (Some c)
  then have "c \<in> set (table_changes t H)" "key_of (gt_ab_pk t) (change_rec c) = k" by (auto simp: find_Some_iff)
  with Some in_table_changes [OF assms, of c] show ?thesis by simp
qed

lemma find_entries:
  "list_all (good_change True pk) cs \<Longrightarrow> entries_wf pk (map entry_of cs)
   \<and> map_option (\<lambda>e. (ge_op e, ge_indirect e, rec_fields pk e)) (find (\<lambda>e. key_of pk (rec_fields pk e) = k) (map entry_of cs))
     = map_option (\<lambda>c. (change_op c, change_ind c, change_rec c)) (find (\<lambda>c. key_of pk (change_rec c) = k) cs)"
  by (induction cs) (auto simp: entries_wf_def single_entry, simp_all add: entry_of_def)

lemma configured_entries:
  assumes "group_inv True pkf B N (cg_tables g) G" "pk = pkf (map ascii_lower name) \<or> (\<forall>k. G (map ascii_lower name, k) = None)"
  shows "entries_for G name pk (table_entries g name)"
proof (cases "find (\<lambda>t. eq_ignore_ascii_case (gt_name t) name) (cg_tables g)")
  case None
  then have "map ascii_lower name \<notin> lname ` set (cg_tables g)"
    by (auto simp: find_None_iff eq_ignore_ascii_case_def)
  then have "G (map ascii_lower name, k) = None" for k using assms(1) unfolding group_inv_def by blast
  with None show ?thesis by (simp add: entries_for_def table_entries_def entries_wf_def)
next
  case (Some t)
  then have t: "t \<in> set (cg_tables g)" "lname t = map ascii_lower name"
    by (auto simp: find_Some_iff eq_ignore_ascii_case_def)
  define H where "H = (\<lambda>k. G (map ascii_lower name, k))"
  have inv: "table_inv True B t H" and p: "gt_ab_pk t = pkf (map ascii_lower name)"
    using assms(1) t by (auto simp: group_inv_def H_def)
  have es: "table_entries g name = map entry_of (table_changes t H)"
    using Some table_entries_changes [OF inv] by (simp add: table_entries_def del: map_concat)
  show ?thesis
  proof (cases "table_changes t H = []")
    case True
    then have "H k = None" for k using find_table_changes [OF inv, of k] by simp
    then show ?thesis using True es by (simp add: entries_for_def entries_wf_def H_def)
  next
    case False
    then obtain c where "c \<in> set (table_changes t H)" by (cases "table_changes t H") auto
    then have "H (key_of (gt_ab_pk t) (change_rec c)) = Some c" using in_table_changes [OF inv] by blast
    then have pk: "pk = gt_ab_pk t" using assms(2) p by (auto simp: H_def)
    have "good_change True pk c" if "c \<in> set (table_changes t H)" for c
      using that in_table_changes [OF inv, of c] table_invD(4) [OF inv] pk by (auto simp: keyed_def)
    then have "list_all (good_change True pk) (table_changes t H)" by (simp add: list_all_iff)
    from find_entries [OF this] show ?thesis
      unfolding entries_for_def es using find_table_changes [OF inv] pk by (simp add: H_def)
  qed
qed

subsection \<open>Rebased changes apply\<close>

text \<open>
  The row as the remote side left it: its values where it set one, the old row where it did
  not, and anything in the columns it replaced.
\<close>

definition remote_row :: "sess_val list \<Rightarrow> row \<Rightarrow> row \<Rightarrow> bool" where
  "remote_row rv r r' \<longleftrightarrow> length rv = length r \<and> length r' = length r
     \<and> (\<forall>i < length r. if rv ! i = Replaced then True else if rv ! i = Undef then r' ! i = r ! i else r' ! i = rv ! i)"

lemma pu_nth:
  assumes "length ov = length pk" "length rv = length pk"
  shows "length (pu_old pk ov rv) = length pk" "length (pu_new pk ov rv) = length pk"
    "i < length pk \<Longrightarrow> pu_old pk ov rv ! i = (if pk ! i \<noteq> 0 \<or> rv ! i = Undef then ov ! i
       else if rv ! i \<noteq> Replaced \<and> real_val (ov ! i) then rv ! i else Undef)"
    "i < length pk \<Longrightarrow> pu_new pk ov rv ! i = (if pk ! i \<noteq> 0 \<or> rv ! i \<noteq> Replaced then ov ! i else Undef)"
    "survives pk ov rv \<longleftrightarrow> (\<exists>i < length pk. pk ! i = 0 \<and> rv ! i \<noteq> Replaced \<and> real_val (ov ! i))"
  using assms by (auto simp: pu_old_def pu_new_def survives_def list_ex_length)

lemma rebased_update_act:
  assumes sh: "upd_shape pk ov nv" and m: "matches ov r" and rem: "remote_row rv r r'"
    and key: "\<forall>i < length pk. pk ! i \<noteq> 0 \<longrightarrow> r' ! i = r ! i"
    and vals: "Replaced \<notin> set ov"
  defines "kept \<equiv> map2 (\<lambda>n x. if x = Replaced then Undef else n) nv rv"
  shows "case rebased pk OP_INSERT ei rv (Upd i ov nv) of
      [c] \<Rightarrow> act c (Some r') = Some (Some (overlay kept r'))
    | _ \<Rightarrow> overlay kept r' = r'"
proof -
  have len: "length ov = length pk" "length nv = length pk" "length r = length pk" "length rv = length pk" "length r' = length pk"
    using sh m rem by (auto simp: upd_shape_nth matches_nth remote_row_def)
  have p: "if pk ! k \<noteq> 0 then ov ! k \<noteq> Undef \<and> nv ! k = Undef else (ov ! k = Undef) = (nv ! k = Undef)"
      "ov ! k = Undef \<or> ov ! k = r ! k" "rv ! k = Undef \<longrightarrow> r' ! k = r ! k"
      "rv ! k \<noteq> Undef \<longrightarrow> rv ! k \<noteq> Replaced \<longrightarrow> r' ! k = rv ! k" "ov ! k \<noteq> Replaced" "pk ! k \<noteq> 0 \<longrightarrow> r' ! k = r ! k"
      "kept ! k = (if rv ! k = Replaced then Undef else nv ! k)"
    if "k < length pk" for k
    using that sh m rem key vals len
    by (auto simp: upd_shape_nth matches_nth remote_row_def kept_def in_set_conv_nth)
  have lk: "length kept = length pk" using len by (simp add: kept_def)
  have old: "matches (pu_old pk ov rv) r'"
    unfolding matches_nth
  proof (intro conjI allI impI)
    fix k assume "k < length r'"
    then have k: "k < length pk" using len by simp
    show "pu_old pk ov rv ! k = Undef \<or> pu_old pk ov rv ! k = r' ! k"
      using p [OF k] k len by (auto simp: pu_nth)
  qed (use len in \<open>simp add: pu_nth\<close>)
  have new: "overlay (pu_new pk nv rv) r' = overlay kept r'"
  proof (rule nth_equalityI)
    show "length (overlay (pu_new pk nv rv) r') = length (overlay kept r')" using len lk by (simp add: pu_nth)
    fix k assume "k < length (overlay (pu_new pk nv rv) r')"
    then have k: "k < length pk" using len by (simp add: pu_nth)
    show "overlay (pu_new pk nv rv) r' ! k = overlay kept r' ! k"
      using p(1,7) [OF k] k len lk by (auto simp: pu_nth)
  qed
  have none: "overlay kept r' = r'" if ns: "\<not> survives pk ov rv"
  proof (rule nth_equalityI)
    show "length (overlay kept r') = length r'" using len lk by simp
    fix k assume "k < length (overlay kept r')"
    then have k: "k < length pk" using len lk by simp
    have "pk ! k = 0 \<Longrightarrow> rv ! k \<noteq> Replaced \<Longrightarrow> \<not> real_val (ov ! k)" using ns k len by (auto simp: pu_nth)
    then show "overlay kept r' ! k = r' ! k"
      using p(1,5,7) [OF k] k len lk by (cases "pk ! k = 0") (auto simp: real_val_def)
  qed
  show ?thesis using old new none by (simp add: op_defs)
qed

subsection \<open>Properties\<close>

text \<open>
  The buffers loaded into a rebaser: single records with non-null keys and one key layout per
  table name. The local changeset has its tables one after the other, none of them empty, and the
  layout of the rebase entries for a table that has some.
\<close>

definition rebase_input :: "cs_table list \<Rightarrow> cs_table list \<Rightarrow> bool" where
  "rebase_input R ts \<longleftrightarrow> group_input True R \<and> distinct_adj (map tb_name ts) \<and> list_all (\<lambda>t. tb_changes t \<noteq> []) ts
     \<and> (\<forall>t \<in> set ts. \<forall>r \<in> set R. eq_ignore_ascii_case (tb_name r) (tb_name t) \<longrightarrow> tb_pk r = tb_pk t)"

lemma rebase_map_None:
  assumes "\<And>r. r \<in> set R \<Longrightarrow> map ascii_lower (tb_name r) \<noteq> nm"
  shows "rebase_map R (nm, k) = None"
proof -
  have "fold (\<lambda>(T, c) G. add_delta (coalesce True (tb_pk T)) G (item_loc T c) c) xs G (nm, k) = G (nm, k)"
    if "\<forall>(T, c) \<in> set xs. map ascii_lower (tb_name T) \<noteq> nm" for xs and G :: delta
    using that by (induction xs arbitrary: G) (auto simp: add_delta_def item_loc_def split: option.splits)
  then show ?thesis using assms by (force simp: rebase_map_def items_def)
qed

lemma configure_render:
  assumes "list_all wf_changeset Rs"
  shows "fold_outcome rebaser_configure grp (map render Rs) = fold_outcome add_event grp (events False (concat Rs))"
  using assms by (induction Rs arbitrary: grp)
    (simp_all add: rebaser_configure_def group_add_def iter_while_render events_def fold_outcome_append)

text \<open>
  C6: a rebaser is configured with any number of rebase buffers and then rebases a local
  changeset. Both succeed, and the result is, table by table and in order, the local changes
  rewritten by the matrix: a change is kept when no buffer has an entry for its row, and else
  rewritten or dropped by the entry, which is the merge of all entries of the row in the order in
  which they were loaded. Neither the hash buckets nor their growth show. The matrix is that of
  the code: an update of a row whose deletion was resolved by REPLACE is dropped, where the table
  at the head of \<^verbatim>\<open>rebase.rs\<close> reinserts it.
\<close>

theorem rebase_follows_matrix:
  assumes "list_all wf_changeset Rs" "wf_changeset ts" "rebase_input (concat Rs) ts" "length (render (concat Rs)) < 2 ^ 63"
  shows "\<exists>g. fold_outcome rebaser_configure group_new_rebase (map render Rs) = Ok g
    \<and> rebase g (render ts) = Ok (render (map (rebase_table (rebase_map (concat Rs))) ts))"
proof -
  define R where "R = concat Rs"
  have gi: "group_input True R" and agree: "\<And>t r. t \<in> set ts \<Longrightarrow> r \<in> set R \<Longrightarrow>
      map ascii_lower (tb_name r) = map ascii_lower (tb_name t) \<Longrightarrow> tb_pk r = tb_pk t"
    using assms(3) unfolding rebase_input_def R_def eq_ignore_ascii_case_def by blast+
  have ok: "list_all table_ok R" using assms(1) by (auto simp: R_def list_all_iff wf_changeset_def)
  obtain pkf where pkf: "\<forall>t \<in> set R. tb_pk t = pkf (map ascii_lower (tb_name t))" using group_input_pkf [OF gi] by blast
  obtain g G where g: "fold_outcome add_event group_new_rebase (events False R) = Ok g"
      and inv: "group_inv True pkf (\<Sum>(T, c)\<leftarrow>items R. length (change_raw c)) (length (items R)) (cg_tables g) G"
      and G: "G = rebase_map R"
    using fold_group [OF ok gi _ pkf, of group_new_rebase] assms(4) by (auto simp: R_def group_new_rebase_def rebase_map_def)
  have "entries_for G (tb_name t) (tb_pk t) (table_entries g (tb_name t))" if t: "t \<in> set ts" for t
    using agree [OF t] pkf unfolding G
    by (intro configured_entries [OF inv [unfolded G]]) (metis rebase_map_None)
  then have "rebase_ready g G ts" using assms(3) by (simp add: rebase_ready_def rebase_input_def list_all_iff)
  from rebase_render [OF assms(2) this] show ?thesis
    using g G by (auto simp: configure_render [OF assms(1)] R_def)
qed

definition rebase_buffers :: "cs_table list list" where
  "rebase_buffers =
     [[\<lparr>tb_name = [0x74], tb_pk = [1, 0, 0],
        tb_changes = [Ins False [SInt 1, SInt 5, Undef], Del True [SInt 2, SNull, SNull]]\<rparr>],
      [\<lparr>tb_name = [0x54], tb_pk = [1, 0, 0],
        tb_changes = [Ins False [SInt 1, Undef, SInt 6], Ins False [SInt 3, SInt 7, SInt 8]]\<rparr>]]"

definition local_changes :: cs_table where
  "local_changes = \<lparr>tb_name = [0x74], tb_pk = [1, 0, 0],
     tb_changes = [Upd False [SInt 1, SInt 0, Undef] [Undef, SInt 9, Undef], Upd False [SInt 2, SInt 0, Undef] [Undef, SInt 9, Undef],
       Ins False [SInt 3, SInt 1, SInt 1], Del False [SInt 4, SNull, SNull]]\<rparr>"

lemma rebase_sample_wf: "list_all wf_changeset rebase_buffers" "wf_changeset [local_changes]"
  "length (render (concat rebase_buffers)) < 2 ^ 63"
proof -
  have n: "utf8_valid [0x54]" "utf8_valid [0x74]" by (simp_all add: from_utf8_def utf8_scan.simps)
  show "list_all wf_changeset rebase_buffers" "wf_changeset [local_changes]" "length (render (concat rebase_buffers)) < 2 ^ 63"
    using n by (simp_all add: wf_changeset_def fits_def table_ok_def name_ok_def rebase_buffers_def local_changes_def
        render_def render_table_def render_header_def render_change_def put_varint_def put_i64_def)
qed

theorem rebase_follows_matrix_witness:
  "\<exists>g. fold_outcome rebaser_configure group_new_rebase (map render rebase_buffers) = Ok g
    \<and> rebase g (render [local_changes]) = Ok (render [local_changes\<lparr>tb_changes :=
        [Upd False [SInt 1, SInt 5, Undef] [Undef, SInt 9, Undef], Upd False [SInt 3, SInt 7, SInt 8] [SInt 3, SInt 1, SInt 1],
         Del False [SInt 4, SNull, SNull]]\<rparr>])"
proof -
  have i: "rebase_input (concat rebase_buffers) [local_changes]"
    by (simp add: rebase_input_def group_input_def rebase_buffers_def local_changes_def shaped_def key_of_def items_def)
  have m: "rebase_map (concat rebase_buffers) = [([0x74], [SInt 1]) \<mapsto> Ins False [SInt 1, SInt 5, SInt 6],
      ([0x74], [SInt 2]) \<mapsto> Del True [SInt 2, SNull, SNull], ([0x74], [SInt 3]) \<mapsto> Ins False [SInt 3, SInt 7, SInt 8]]"
    by (simp add: rebase_map_def rebase_buffers_def items_def add_delta_def coalesce_def item_loc_def key_of_def ascii_lower_def
        replace_fields_def fun_eq_iff)
  have "rebase_table (rebase_map (concat rebase_buffers)) local_changes = local_changes\<lparr>tb_changes :=
        [Upd False [SInt 1, SInt 5, Undef] [Undef, SInt 9, Undef], Upd False [SInt 3, SInt 7, SInt 8] [SInt 3, SInt 1, SInt 1],
         Del False [SInt 4, SNull, SNull]]\<rparr>"
    unfolding m by (simp add: rebase_table_def rebase_row_def local_changes_def key_of_def ascii_lower_def op_defs survives_def
        real_val_def pu_old_def pu_new_def)
  then show ?thesis using rebase_follows_matrix [OF rebase_sample_wf(1,2) i rebase_sample_wf(3)] by simp
qed

text \<open>
  C7: a local update that is rebased against a remote update still applies: its old record matches
  the row the remote side left, and the row afterwards has the local new values except in the
  columns the remote side replaced. When nothing is emitted, no local value was to be kept.
\<close>

theorem rebased_update_applies:
  assumes "upd_shape pk ov nv" "matches ov r" "remote_row rv r r'"
    and "\<forall>i < length pk. pk ! i \<noteq> 0 \<longrightarrow> r' ! i = r ! i" "Replaced \<notin> set ov"
    and "rec_ok pk e rv" "ge_op e = OP_INSERT" "change_ok (length pk) (Upd i ov nv)" "fits (field_bytes ov @ field_bytes nv)"
  shows "\<exists>cs. rebase_change (length pk) pk (Some e) OP_UPDATE i (field_bytes ov @ field_bytes nv) = Ok (concat (map render_change cs))
    \<and> (case cs of
        [c] \<Rightarrow> act c (Some r') = Some (Some (overlay (map2 (\<lambda>n x. if x = Replaced then Undef else n) nv rv) r'))
      | _ \<Rightarrow> overlay (map2 (\<lambda>n x. if x = Replaced then Undef else n) nv rv) r' = r')"
  using rebase_change_rebased [of pk "Upd i ov nv" e rv] rebased_update_act [OF assms(1-5), of "ge_indirect e" i] assms(6-9)
  by (intro exI [of _ "rebased pk OP_INSERT (ge_indirect e) rv (Upd i ov nv)"]) (simp add: change_raw.simps)

theorem rebased_update_applies_witness:
  "\<exists>cs. rebase_change (length [1, 0, 0 :: byte]) [1, 0, 0]
       (Some \<lparr>ge_op = OP_INSERT, ge_indirect = False, ge_record = field_bytes [SInt 1, Replaced, SInt 9]\<rparr>)
       OP_UPDATE False (field_bytes [SInt 1, SInt 2, SInt 3] @ field_bytes [Undef, SInt 20, SInt 30]) = Ok (concat (map render_change cs))
    \<and> (case cs of [c] \<Rightarrow> act c (Some [SInt 1, SInt 8, SInt 9]) = Some (Some [SInt 1, SInt 8, SInt 30])
        | _ \<Rightarrow> [SInt 1, SInt 8, SInt 30] = [SInt 1, SInt 8, SInt 9])"
proof -
  have ov: "[SInt 1, SInt 8, SInt 30]
      = overlay (map2 (\<lambda>n x. if x = Replaced then Undef else n) [Undef, SInt 20, SInt 30] [SInt 1, Replaced, SInt 9]) [SInt 1, SInt 8, SInt 9]"
    by (simp add: overlay_def)
  show ?thesis
    unfolding ov
    by (rule rebased_update_applies [where r = "[SInt 1, SInt 2, SInt 3]"])
      (simp_all add: upd_shape_def matches_def remote_row_def rec_ok_def fits_def put_i64_def nth_Cons split: nat.splits)
qed

end
