(* ===== verification/Session_State.thy ===== *)
theory Session_State
  imports Session_Hash
begin

text \<open>
  \<^verbatim>\<open>src/session/state.rs\<close>: the capture side of a session. A tracked table keeps the first
  change per row key in slots, found through the chained hash. The schema of the engine's
  table is the part of \<^verbatim>\<open>schema::Table\<close> the session reads; the evaluator of a column's
  DEFAULT expression is the parameter \<open>eval\<close> (\<open>None\<close> for an error).
\<close>

subsection \<open>The code\<close>

record 'x column =
  col_name :: bytes
  col_primary_key :: bool
  col_pk_seq :: byte
  col_default :: "'x option"

record 'x schema_table =
  tab_name :: bytes
  tab_columns :: "'x column list"
  tab_without_rowid :: bool

datatype preupdate_op = Pre_Insert | Pre_Delete | Pre_Update

record session_change =
  sc_op :: byte
  sc_indirect :: bool
  sc_record :: bytes

record session_table =
  st_name :: bytes
  st_b_rowid :: bool
  st_n_col :: nat
  st_ab_pk :: bytes
  st_az_col :: "bytes list"
  st_b_stat1 :: bool
  st_initialized :: bool
  st_untrackable :: bool
  st_buckets :: "nat list list"
  st_entries :: "session_change option list"
  st_free_ids :: "nat list"
  st_n_entry :: nat

record session_core =
  s_enable :: bool
  s_indirect :: bool
  s_z_db :: bytes
  s_auto_attach :: bool
  s_implicit_pk :: bool
  s_enable_size :: bool
  s_tables :: "session_table list"
  s_rc :: "string option"
  s_filter :: "(bytes \<Rightarrow> bool) option"

definition session_table_new :: "bytes \<Rightarrow> session_table" where
  "session_table_new name = \<lparr>st_name = name, st_b_rowid = False, st_n_col = 0, st_ab_pk = [], st_az_col = [],
     st_b_stat1 = False, st_initialized = False, st_untrackable = False, st_buckets = [], st_entries = [],
     st_free_ids = [], st_n_entry = 0\<rparr>"

definition session_core_new :: session_core where
  "session_core_new = \<lparr>s_enable = True, s_indirect = False, s_z_db = lit ''main'', s_auto_attach = False,
     s_implicit_pk = False, s_enable_size = False, s_tables = [], s_rc = None, s_filter = None\<rparr>"

definition set_table_filter :: "session_core \<Rightarrow> (bytes \<Rightarrow> bool) option \<Rightarrow> session_core" where
  "set_table_filter c f = c\<lparr>s_auto_attach := True, s_filter := f\<rparr>"

text \<open>\<^verbatim>\<open>object_config\<close> returns the state, the value written back to \<open>arg\<close>, and success.\<close>

definition object_config :: "session_core \<Rightarrow> int \<Rightarrow> int \<Rightarrow> session_core \<times> int \<times> bool" where
  "object_config c opn arg =
     (if opn = 1
      then if 0 \<le> arg \<and> s_tables c \<noteq> [] then (c, arg, False)
           else let c' = (if 0 \<le> arg then c\<lparr>s_enable_size := (arg \<noteq> 0)\<rparr> else c)
                in (c', if s_enable_size c' then 1 else 0, True)
      else if opn = 2
      then if 0 \<le> arg \<and> s_tables c \<noteq> [] then (c, arg, False)
           else let c' = (if 0 \<le> arg then c\<lparr>s_implicit_pk := (arg \<noteq> 0)\<rparr> else c)
                in (c', if s_implicit_pk c' then 1 else 0, True)
      else (c, arg, False))"

definition changeset_size :: "session_core \<Rightarrow> nat" where
  "changeset_size c =
     (if \<not> s_enable_size c then 0
      else (\<Sum>t\<leftarrow>s_tables c.
        if 0 < st_n_entry t
        then 6 + st_n_col t + length (st_name t) + 1
             + (\<Sum>e\<leftarrow>List.map_filter id (st_entries t). 2 + length (sc_record e))
        else 0))"

definition attach :: "session_core \<Rightarrow> bytes option \<Rightarrow> session_core" where
  "attach c name =
     (case name of
        None \<Rightarrow> c\<lparr>s_auto_attach := True\<rparr>
      | Some n \<Rightarrow> if list_ex (\<lambda>t. eq_ignore_ascii_case (st_name t) n) (s_tables c) then c
                  else c\<lparr>s_tables := s_tables c @ [session_table_new n]\<rparr>)"

definition session_is_empty :: "session_core \<Rightarrow> bool" where
  "session_is_empty c = list_all (\<lambda>t. st_n_entry t = 0) (s_tables c)"

definition change_count :: "session_core \<Rightarrow> nat" where
  "change_count c = sum_list (map st_n_entry (s_tables c))"

definition find_table_idx :: "session_core \<Rightarrow> bytes \<Rightarrow> nat option" where
  "find_table_idx c name = position (\<lambda>t. eq_ignore_ascii_case (st_name t) name) (s_tables c)"

definition find_or_auto_attach :: "session_core \<Rightarrow> bytes \<Rightarrow> session_core \<times> nat option" where
  "find_or_auto_attach c name =
     (case find_table_idx c name of
        Some i \<Rightarrow> (c, Some i)
      | None \<Rightarrow>
          if \<not> s_auto_attach c then (c, None)
          else if (case s_filter c of Some f \<Rightarrow> \<not> f name | None \<Rightarrow> False) then (c, None)
          else (c\<lparr>s_tables := s_tables c @ [session_table_new name]\<rparr>, Some (length (s_tables c))))"

definition pad3 :: "bytes \<Rightarrow> bytes" where
  "pad3 xs = take 3 xs @ replicate (3 - length xs) 0"

definition init_table_model :: "session_table \<Rightarrow> 'x schema_table \<Rightarrow> bool \<Rightarrow> session_table" where
  "init_table_model t tbl implicit_pk =
     (let b_stat1 = eq_ignore_ascii_case (st_name t) (lit ''sqlite_stat1'');
          has_decl_pk = list_ex col_primary_key (tab_columns tbl);
          b_rowid = (implicit_pk \<and> \<not> tab_without_rowid tbl \<and> \<not> has_decl_pk \<and> \<not> b_stat1);
          untrackable = (\<not> b_rowid \<and> \<not> has_decl_pk \<and> \<not> b_stat1);
          ab_pk = (if b_rowid then [1] else []) @ map col_pk_seq (tab_columns tbl);
          az_col = (if b_rowid then [lit ''_rowid_''] else []) @ map col_name (tab_columns tbl)
      in t\<lparr>st_b_rowid := b_rowid, st_n_col := length az_col, st_az_col := az_col,
           st_ab_pk := (if b_stat1 then (pad3 ab_pk)[0 := 1, 1 := 2, 2 := 0] else ab_pk),
           st_b_stat1 := b_stat1, st_untrackable := untrackable, st_initialized := True\<rparr>)"

definition stat1_view :: "bool \<Rightarrow> nat \<Rightarrow> val \<Rightarrow> val" where
  "stat1_view b_stat1 col v = (if b_stat1 \<and> col = 1 \<and> v = Null then Blob [] else v)"

definition stat1_row :: "bool \<Rightarrow> val list \<Rightarrow> val list" where
  "stat1_row b_stat1 vs = map (\<lambda>(i, x). stat1_view b_stat1 i x) (List.enumerate 0 vs)"

text \<open>The hash of the key side of an event; \<open>None\<close> when a key value is NULL.\<close>

fun side_hash :: "bytes \<Rightarrow> nat \<Rightarrow> val list \<Rightarrow> u32 \<Rightarrow> u32 option" where
  "side_hash ab_pk i [] h = Some h"
| "side_hash ab_pk i (v # vs) h =
     (if (if i < length ab_pk then ab_pk ! i else 0) = 0 then side_hash ab_pk (i + 1) vs h
      else case v of
          Integer x \<Rightarrow> side_hash ab_pk (i + 1) vs (hash_i64 (hash_type h TYPE_INT) x)
        | Real x \<Rightarrow> side_hash ab_pk (i + 1) vs (hash_i64 (hash_type h TYPE_REAL) x)
        | Txt x \<Rightarrow> side_hash ab_pk (i + 1) vs (hash_blob (hash_type h TYPE_TEXT) (as_str x))
        | Blob x \<Rightarrow> side_hash ab_pk (i + 1) vs (hash_blob (hash_type h TYPE_BLOB) x)
        | Null \<Rightarrow> None)"

fun match_pk_loop :: "bool \<Rightarrow> bytes \<Rightarrow> nat \<Rightarrow> bytes \<Rightarrow> nat \<Rightarrow> val list \<Rightarrow> bool outcome" where
  "match_pk_loop b_rowid [] i rec pos side = Ok True"
| "match_pk_loop b_rowid (flag # flags) i rec pos side =
     (if flag \<noteq> 0
      then bind_outcome (index_at side (usize_sub i (if b_rowid then 1 else 0))) (\<lambda>v.
        bind_outcome (serial_len rec pos) (\<lambda>l.
          bind_outcome (slice rec pos (usize_add pos l)) (\<lambda>f.
            if f \<noteq> append_value (Some v) then Ok False
            else match_pk_loop b_rowid flags (i + 1) rec (usize_add pos l) side)))
      else bind_outcome (serial_len rec pos) (\<lambda>l. match_pk_loop b_rowid flags (i + 1) rec (usize_add pos l) side))"

definition record_matches_pk :: "session_table \<Rightarrow> bytes \<Rightarrow> val list option \<Rightarrow> val list option \<Rightarrow> byte \<Rightarrow> bool \<Rightarrow> bool outcome" where
  "record_matches_pk t rec old_v new_v sop b_new_key =
     (case (if b_new_key \<or> sop = OP_INSERT then new_v else old_v) of
        None \<Rightarrow> Ok False
      | Some s \<Rightarrow> if length s + (if st_b_rowid t then 1 else 0) = st_n_col t
                  then match_pk_loop (st_b_rowid t) (st_ab_pk t) 0 rec 0 s else Ok False)"

definition change_hash :: "bytes \<Rightarrow> nat \<Rightarrow> session_change \<Rightarrow> nat outcome" where
  "change_hash ab_pk n e = record_pk_hash ab_pk (sc_record e) False (word_of_nat n)"

definition grow_hash :: "session_table \<Rightarrow> session_table outcome" where
  "grow_hash t =
     (let bs = st_buckets t in
      if bs = [] \<or> length bs div 2 \<le> st_n_entry t
      then let n_new = (if bs = [] then 256 else length bs * 2) in
        bind_outcome
          (rehash_ids (\<lambda>i. bind_outcome (get_entry (st_entries t) i) (change_hash (st_ab_pk t) n_new))
             (concat bs) (replicate n_new []))
          (\<lambda>nb. Ok (t\<lparr>st_buckets := nb\<rparr>))
      else Ok t)"

definition rowid_matches :: "session_change \<Rightarrow> i64 \<Rightarrow> bool outcome" where
  "rowid_matches e rowid =
     (if sc_record e \<noteq> [] \<and> hd (sc_record e) = TYPE_INT
      then bind_outcome (get_i64 (sc_record e) 1) (\<lambda>v. Ok (v = rowid)) else Ok False)"

text \<open>The serialized record of a new entry, column by column.\<close>

fun record_fields :: "session_table \<Rightarrow> byte \<Rightarrow> val list option \<Rightarrow> val list option \<Rightarrow> nat list \<Rightarrow> bytes outcome" where
  "record_fields t sop old_v new_v [] = Ok []"
| "record_fields t sop old_v new_v (i # is) =
     bind_outcome (index_at (st_ab_pk t) (i + (if st_b_rowid t then 1 else 0))) (\<lambda>p.
       bind_outcome
         (case (if sop = OP_INSERT then (if p \<noteq> 0 then new_v else None) else old_v) of
            None \<Rightarrow> Ok None | Some s \<Rightarrow> bind_outcome (index_at s i) (\<lambda>v. Ok (Some v)))
         (\<lambda>v. bind_outcome (record_fields t sop old_v new_v is) (\<lambda>bs. Ok (append_value v @ bs))))"

definition clear_indirect :: "session_table \<Rightarrow> nat \<Rightarrow> session_table outcome" where
  "clear_indirect t i =
     bind_outcome (index_at (st_entries t) i) (\<lambda>e.
       case e of None \<Rightarrow> Ok t | Some e' \<Rightarrow> Ok (t\<lparr>st_entries := (st_entries t)[i := Some (e'\<lparr>sc_indirect := False\<rparr>)]\<rparr>))"

definition push_entry :: "session_table \<Rightarrow> nat \<Rightarrow> session_change \<Rightarrow> session_table outcome" where
  "push_entry t bucket entry =
     bind_outcome (index_at (st_buckets t) bucket) (\<lambda>chain.
       if st_free_ids t \<noteq> []
       then let free = last (st_free_ids t) in
         bind_outcome (index_at (st_entries t) free) (\<lambda>_.
           Ok (t\<lparr>st_free_ids := butlast (st_free_ids t), st_entries := (st_entries t)[free := Some entry],
                 st_buckets := (st_buckets t)[bucket := free # chain], st_n_entry := st_n_entry t + 1\<rparr>))
       else Ok (t\<lparr>st_entries := st_entries t @ [Some entry],
                  st_buckets := (st_buckets t)[bucket := length (st_entries t) # chain],
                  st_n_entry := st_n_entry t + 1\<rparr>))"

text \<open>
  One capture step on a table; \<open>s_ind\<close> is the session's \<^verbatim>\<open>indirect\<close> flag. \<open>capture_at\<close> is the part of
  the step after the key's hash is known.
\<close>

definition capture_at ::
    "bool \<Rightarrow> session_table \<Rightarrow> byte \<Rightarrow> i64 \<Rightarrow> val list option \<Rightarrow> val list option \<Rightarrow> nat \<Rightarrow> bool \<Rightarrow> nat \<Rightarrow> u32 \<Rightarrow> session_table outcome" where
  "capture_at s_ind t sop rowid old_v new_v depth b_new_key n_db_col h =
     bind_outcome (grow_hash t) (\<lambda>t1.
       if (word_of_nat (length (st_buckets t1)) :: u32) = 0 then Panic
       else let bucket = unat (h mod word_of_nat (length (st_buckets t1))) in
         bind_outcome (index_at (st_buckets t1) bucket) (\<lambda>chain.
           bind_outcome (find_in_chain (\<lambda>i. bind_outcome (index_at (st_entries t1) i) (\<lambda>e.
               case e of None \<Rightarrow> Ok False
               | Some e' \<Rightarrow> if st_b_rowid t1 then rowid_matches e' rowid
                            else record_matches_pk t1 (sc_record e') old_v new_v sop b_new_key)) chain) (\<lambda>existing.
             case existing of
               Some i \<Rightarrow> if depth = 0 \<and> \<not> s_ind then clear_indirect t1 i else Ok t1
             | None \<Rightarrow>
                 bind_outcome (record_fields t1 sop old_v new_v [0 ..< n_db_col]) (\<lambda>fs.
                   push_entry t1 bucket \<lparr>sc_op = sop, sc_indirect = (s_ind \<or> 0 < depth),
                     sc_record = (if st_b_rowid t1 then TYPE_INT # put_i64 rowid else []) @ fs\<rparr>))))"

definition record_one_table ::
    "bool \<Rightarrow> session_table \<Rightarrow> byte \<Rightarrow> i64 \<Rightarrow> val list option \<Rightarrow> val list option \<Rightarrow> nat \<Rightarrow> bool \<Rightarrow> session_table outcome" where
  "record_one_table s_ind t sop rowid old new depth b_new_key =
     (let n_db_col = st_n_col t - (if st_b_rowid t then 1 else 0);
          old_v = (if sop \<noteq> OP_INSERT then map_option (stat1_row (st_b_stat1 t)) old else None);
          new_v = (if sop \<noteq> OP_DELETE then map_option (stat1_row (st_b_stat1 t)) new else None);
          side = (if b_new_key \<or> sop = OP_INSERT then new_v else old_v);
          hash = (if st_b_rowid t then Some (hash_i64 0 rowid)
                  else case side of None \<Rightarrow> None
                       | Some s \<Rightarrow> if length s = n_db_col then side_hash (st_ab_pk t) 0 s 0 else None)
      in case hash of
           None \<Rightarrow> Ok t
         | Some h \<Rightarrow> capture_at s_ind t sop rowid old_v new_v depth b_new_key n_db_col h)"

definition record_one ::
    "session_core \<Rightarrow> byte \<Rightarrow> 'x schema_table \<Rightarrow> i64 \<Rightarrow> val list option \<Rightarrow> val list option \<Rightarrow> nat \<Rightarrow> bool \<Rightarrow> session_core outcome" where
  "record_one c sop tbl rowid old new depth b_new_key =
     (case find_table_idx c (tab_name tbl) of
        None \<Rightarrow> Ok c
      | Some ti \<Rightarrow>
          bind_outcome (record_one_table (s_indirect c) (s_tables c ! ti) sop rowid old new depth b_new_key) (\<lambda>t'.
            Ok (c\<lparr>s_tables := (s_tables c)[ti := t']\<rparr>)))"

definition default_value_of :: "('x \<Rightarrow> val option) \<Rightarrow> 'x column \<Rightarrow> val option" where
  "default_value_of eval c =
     (case col_default c of
        Some ex \<Rightarrow> (case eval ex of Some v \<Rightarrow> Some v | None \<Rightarrow> Some Null)
      | None \<Rightarrow> Some Null)"

definition pk_shape_kept :: "bytes \<Rightarrow> nat \<Rightarrow> bytes \<Rightarrow> bool" where
  "pk_shape_kept old_pk old_n ab_pk \<longleftrightarrow>
     list_all (\<lambda>(i, pk). (i < old_n \<longrightarrow> (pk \<noteq> 0) = (i < length old_pk \<and> old_pk ! i \<noteq> 0)) \<and> (old_n \<le> i \<longrightarrow> pk = 0))
       (List.enumerate 0 ab_pk)"

text \<open>The model after the call and the error, if any: the code has already re-resolved the table then.\<close>

definition reinit_and_pad ::
    "('x \<Rightarrow> val option) \<Rightarrow> session_table \<Rightarrow> 'x schema_table \<Rightarrow> bool \<Rightarrow> session_table \<times> string option" where
  "reinit_and_pad eval t0 tbl implicit_pk =
     (let t = init_table_model t0 tbl implicit_pk; old_n = st_n_col t0 in
      if st_n_col t < old_n \<or> st_b_rowid t \<noteq> st_b_rowid t0 then (t, Some ''database schema has changed'')
      else if \<not> pk_shape_kept (st_ab_pk t0) old_n (st_ab_pk t) then (t, Some ''database schema has changed'')
      else if old_n < st_n_col t
      then let db_old_n = old_n - (if st_b_rowid t0 then 1 else 0);
               defaults = take (st_n_col t - old_n) (map (default_value_of eval) (drop db_old_n (tab_columns tbl)))
           in (t\<lparr>st_entries := map (map_option (\<lambda>e. e\<lparr>sc_record := sc_record e @ concat (map append_value defaults)\<rparr>)) (st_entries t)\<rparr>, None)
      else (t, None))"

definition refresh_model ::
    "('x \<Rightarrow> val option) \<Rightarrow> bool \<Rightarrow> session_table \<Rightarrow> 'x schema_table \<Rightarrow> nat \<Rightarrow> session_table \<times> string option" where
  "refresh_model eval implicit t tbl got =
     (if \<not> st_initialized t then (init_table_model t tbl implicit, None)
      else if st_untrackable t then (t, None)
      else if st_n_col t - (if st_b_rowid t then 1 else 0) \<noteq> got then reinit_and_pad eval t tbl implicit
      else (t, None))"

definition session_record ::
    "('x \<Rightarrow> val option) \<Rightarrow> session_core \<Rightarrow> preupdate_op \<Rightarrow> 'x schema_table \<Rightarrow> i64 \<Rightarrow>
     val list option \<Rightarrow> val list option \<Rightarrow> nat \<Rightarrow> session_core outcome" where
  "session_record eval c opn tbl rowid old new depth =
     (if \<not> s_enable c \<or> s_rc c \<noteq> None then Ok c
      else if \<not> eq_ignore_ascii_case (s_z_db c) (lit ''main'') then Ok c
      else case find_or_auto_attach c (tab_name tbl) of
          (c1, None) \<Rightarrow> Ok c1
        | (c1, Some idx) \<Rightarrow>
            let got = length (case (if opn = Pre_Insert then new else old) of Some v \<Rightarrow> v | None \<Rightarrow> []);
                (t1, err) = refresh_model eval (s_implicit_pk c1) (s_tables c1 ! idx) tbl got;
                c2 = c1\<lparr>s_tables := (s_tables c1)[idx := t1]\<rparr>
            in case err of
                 Some e \<Rightarrow> Ok (c2\<lparr>s_rc := Some e\<rparr>)
               | None \<Rightarrow>
                   if st_untrackable t1 then Ok c2
                   else case opn of
                       Pre_Update \<Rightarrow>
                         bind_outcome (record_one c2 OP_UPDATE tbl rowid old new depth False) (\<lambda>c3.
                           record_one c3 OP_INSERT tbl rowid old new depth True)
                     | Pre_Insert \<Rightarrow> record_one c2 OP_INSERT tbl rowid old new depth False
                     | Pre_Delete \<Rightarrow> record_one c2 OP_DELETE tbl rowid old new depth False)"

end
