(* ===== verification/Session_Capture.thy ===== *)
theory Session_Capture
  imports Session_State Merge_Spec
begin

text \<open>
  The capture refines a map from row keys to first changes: the hash computed from an event's
  values is the hash of the record stored for it, so a later change to the same key finds the
  entry across every growth of the table, and only the indirect flag of the entry changes.
\<close>

subsection \<open>Values and fields\<close>

definition fields_of :: "val list \<Rightarrow> sess_val list" where
  "fields_of vs = map (\<lambda>v. field_of_value (Some v)) vs"

definition key_only :: "bytes \<Rightarrow> sess_val list \<Rightarrow> sess_val list" where
  "key_only pk fs = map2 (\<lambda>p f. if p \<noteq> 0 then f else Undef) pk fs"

definition row_ok :: "val list \<Rightarrow> bool" where
  "row_ok vs \<longleftrightarrow> fits (field_bytes (fields_of vs))"

lemma length_fields_of [simp]: "length (fields_of vs) = length vs"
  by (simp add: fields_of_def)

lemma fields_of_Cons [simp]: "fields_of (v # vs) = field_of_value (Some v) # fields_of vs" "fields_of [] = []"
  by (simp_all add: fields_of_def)

lemma sess_val_ok_fits: "fits (append_field f) \<Longrightarrow> sess_val_ok f"
  by (cases f) (auto simp: fits_def)

lemma fits_fields: "fits (field_bytes fs @ r) \<Longrightarrow> list_all sess_val_ok fs"
proof (induction fs)
  case (Cons f fs)
  then show ?case
    using fits_appendD [of "append_field f" "field_bytes fs @ r"] by (auto intro: sess_val_ok_fits)
qed simp

lemma length_key_only [simp]: "length fs = length pk \<Longrightarrow> length (key_only pk fs) = length pk"
  by (simp add: key_only_def)

lemma key_of_key_only: "length fs = length pk \<Longrightarrow> key_of pk (key_only pk fs) = key_of pk fs"
  unfolding key_only_def by (induction pk fs rule: list_induct2') auto

lemma is_key_val_field: "is_key_val (field_of_value (Some v)) \<longleftrightarrow> v \<noteq> Null"
  by (cases v) simp_all

lemma side_hash_key:
  "k + length vs = length pk \<Longrightarrow>
   side_hash pk k vs h =
     (if list_all is_key_val (key_of (drop k pk) (fields_of vs)) then Some (foldl field_hash h (key_of (drop k pk) (fields_of vs))) else None)"
proof (induction vs arbitrary: k h)
  case (Cons v vs)
  then have d: "drop k pk = pk ! k # drop (Suc k) pk" by (simp add: Cons_nth_drop_Suc)
  show ?case
  proof (cases "pk ! k = 0")
    case True
    with Cons d show ?thesis by simp
  next
    case False
    with Cons d show ?thesis by (cases v) simp_all
  qed
qed simp

lemma match_pk_loop_fields:
  "fits a \<Longrightarrow> drop pos a = field_bytes us @ rest \<Longrightarrow> pos \<le> length a \<Longrightarrow> list_all sess_val_ok us \<Longrightarrow> length us = length flags \<Longrightarrow>
   k + length flags = length s \<Longrightarrow> fits (field_bytes (fields_of s)) \<Longrightarrow> length s < 2 ^ 64 \<Longrightarrow>
   match_pk_loop False flags k a pos s = Ok (key_of flags us = key_of flags (drop k (fields_of s)))"
proof (induction flags arbitrary: us pos k)
  case (Cons p flags)
  obtain u us' where us: "us = u # us'" using Cons.prems by (cases us) auto
  have k: "k < length s" using Cons.prems by simp
  have ds: "drop k (fields_of s) = field_of_value (Some (s ! k)) # drop (Suc k) (fields_of s)"
    using k by (simp add: fields_of_def drop_map Cons_nth_drop_Suc [symmetric])
  have d: "drop pos a = append_field u @ field_bytes us' @ rest" using Cons.prems us by simp
  note q = drop_append_field_pos [OF d]
  have ok: "sess_val_ok u" using Cons.prems us by simp
  have sl: "serial_len a pos = Ok (length (append_field u))" by (rule serial_len_field [OF Cons.prems(1) ok d])
  have ad: "usize_add pos (length (append_field u)) = pos + length (append_field u)"
    using q Cons.prems(1) by (simp add: fits_def)
  have ks: "usize_sub k 0 = k" using k Cons.prems(8) by simp
  have IH: "match_pk_loop False flags (k + 1) a (pos + length (append_field u)) s
      = Ok (key_of flags us' = key_of flags (drop (k + 1) (fields_of s)))"
    using Cons.prems us q by (intro Cons.IH drop_add_append [OF d]) simp_all
  have sv: "sess_val_ok (field_of_value (Some (s ! k)))"
    using fits_fields [of "fields_of s" "[]"] Cons.prems(7) k by (simp add: fields_of_def list_all_length)
  have fu: "fits (append_field u)" using q Cons.prems(1) by (simp add: fits_def)
  have eq: "append_field u = append_value (Some (s ! k)) \<longleftrightarrow> u = field_of_value (Some (s ! k))"
    unfolding append_value_field using sess_field.enc_inj ok sv fu by blast
  have tk: "slice a pos (pos + length (append_field u)) = Ok (append_field u)"
    using q d by (simp add: slice_def)
  show ?case
    using us ds sl ad IH tk ks k eq by (cases "p = 0") (auto simp: index_at_def)
qed simp

lemma record_fields_old:
  assumes "st_b_rowid t = False" "sop \<noteq> OP_INSERT" "length (st_ab_pk t) = length s"
  shows "k \<le> length s \<Longrightarrow> record_fields t sop (Some s) nw [k ..< length s] = Ok (field_bytes (drop k (fields_of s)))"
proof (induction "length s - k" arbitrary: k)
  case (Suc m)
  then have k: "k < length s" by simp
  then have "[k ..< length s] = k # [Suc k ..< length s]" by (simp add: upt_conv_Cons)
  moreover have "drop k (fields_of s) = field_of_value (Some (s ! k)) # drop (Suc k) (fields_of s)"
    using k by (simp add: fields_of_def drop_map Cons_nth_drop_Suc [symmetric])
  ultimately show ?case
    using Suc.hyps(1) [of "Suc k"] Suc.hyps(2) k assms by (simp add: index_at_def append_value_field)
qed simp

lemma record_fields_new:
  assumes "st_b_rowid t = False" "length (st_ab_pk t) = length s"
  shows "k \<le> length s \<Longrightarrow>
    record_fields t OP_INSERT ol (Some s) [k ..< length s] = Ok (field_bytes (drop k (key_only (st_ab_pk t) (fields_of s))))"
proof (induction "length s - k" arbitrary: k)
  case (Suc m)
  then have k: "k < length s" by simp
  then have "[k ..< length s] = k # [Suc k ..< length s]" by (simp add: upt_conv_Cons)
  moreover have "drop k (key_only (st_ab_pk t) (fields_of s))
      = (if st_ab_pk t ! k \<noteq> 0 then field_of_value (Some (s ! k)) else Undef) # drop (Suc k) (key_only (st_ab_pk t) (fields_of s))"
    using k assms by (simp add: key_only_def fields_of_def Cons_nth_drop_Suc [symmetric])
  ultimately show ?case
    using Suc.hyps(1) [of "Suc k"] Suc.hyps(2) k assms by (simp add: index_at_def append_value_field)
qed (use assms in simp)

subsection \<open>Entries\<close>

definition cap_rec :: "bytes \<Rightarrow> session_change \<Rightarrow> sess_val list" where
  "cap_rec pk e = (case parse_record (sc_record e) 0 (length pk) of Ok (vs, _) \<Rightarrow> vs | _ \<Rightarrow> [])"

definition cap_key :: "bytes \<Rightarrow> session_change \<Rightarrow> sess_val list" where
  "cap_key pk e = key_of pk (cap_rec pk e)"

definition cap_ok :: "bytes \<Rightarrow> session_change \<Rightarrow> bool" where
  "cap_ok pk e \<longleftrightarrow> (\<exists>us. sc_record e = field_bytes us \<and> length us = length pk \<and> fits (field_bytes us) \<and> list_all is_key_val (key_of pk us))"

lemma cap_rec_fields: "length us = length pk \<Longrightarrow> fits (field_bytes us) \<Longrightarrow> sc_record e = field_bytes us \<Longrightarrow> cap_rec pk e = us"
  using parse_record_fields [of "field_bytes us" us 0 "[]"] fits_fields [of us "[]"] by (simp add: cap_rec_def)

lemma cap_okD:
  assumes "cap_ok pk e"
  shows "sc_record e = field_bytes (cap_rec pk e)" "length (cap_rec pk e) = length pk" "fits (field_bytes (cap_rec pk e))"
    "list_all sess_val_ok (cap_rec pk e)" "list_all is_key_val (cap_key pk e)"
  using assms cap_rec_fields [of _ pk e] fits_fields [of "cap_rec pk e" "[]"] by (auto simp: cap_ok_def cap_key_def)

lemma change_hash_key:
  assumes "cap_ok pk e"
  shows "change_hash pk n e = (if (word_of_nat n :: u32) = 0 then Panic else Ok (unat (key_hash (cap_key pk e) mod word_of_nat n)))"
proof -
  note d = cap_okD [OF assms]
  have "pk_hash_loop pk (sc_record e) False 0 0 = Ok (key_hash (cap_key pk e))"
    using pk_hash_loop_fields [of "field_bytes (cap_rec pk e)" "cap_rec pk e" pk 0 "[]" 0] d
    by (simp add: key_hash_def cap_key_def)
  then show ?thesis by (simp add: change_hash_def record_pk_hash_def)
qed

lemma u32_mod_less: "0 < n \<Longrightarrow> n < 2 ^ 32 \<Longrightarrow> (word_of_nat n :: u32) \<noteq> 0 \<and> unat (h mod (word_of_nat n :: u32)) < n"
proof -
  assume a: "0 < n" "n < 2 ^ 32"
  then have n: "unat (word_of_nat n :: u32) = n" by (simp add: unat_of_nat)
  then have "(word_of_nat n :: u32) \<noteq> 0" using a by force
  with n a show ?thesis by (simp add: unat_mod)
qed

interpretation session_index: chained_index "change_hash pk" "cap_key pk" "cap_ok pk" for pk
  by unfold_locales (use u32_mod_less in \<open>auto simp: change_hash_key\<close>)

subsection \<open>A tracked table\<close>

definition cap_inv :: "session_table \<Rightarrow> (sess_val list \<Rightarrow> session_change option) \<Rightarrow> bool" where
  "cap_inv t H \<longleftrightarrow>
     (let pk = st_ab_pk t; es = st_entries t; bs = st_buckets t in
      \<not> st_b_rowid t \<and> \<not> st_b_stat1 t \<and> st_n_col t = length pk \<and> st_free_ids t = []
      \<and> bucket_inv (change_hash pk) (cap_key pk) (cap_ok pk) es bs
      \<and> st_n_entry t = card (live es) \<and> sized es bs \<and> amap (cap_key pk) es = H)"

definition same_model :: "session_table \<Rightarrow> session_table \<Rightarrow> bool" where
  "same_model t t' \<longleftrightarrow> st_name t' = st_name t \<and> st_ab_pk t' = st_ab_pk t \<and> st_n_col t' = st_n_col t \<and> st_az_col t' = st_az_col t
     \<and> st_initialized t' = st_initialized t \<and> st_untrackable t' = st_untrackable t"

definition cap_add :: "(sess_val list \<Rightarrow> session_change option) \<Rightarrow> sess_val list \<Rightarrow> session_change \<Rightarrow> bool \<Rightarrow>
    sess_val list \<Rightarrow> session_change option" where
  "cap_add H k e direct =
     (case H k of None \<Rightarrow> H(k \<mapsto> e) | Some e' \<Rightarrow> if direct then H(k \<mapsto> e'\<lparr>sc_indirect := False\<rparr>) else H)"

lemma stat1_row_False [simp]: "stat1_row False vs = vs"
proof -
  have "stat1_row False vs = map snd (List.enumerate 0 vs)"
    unfolding stat1_row_def stat1_view_def by (rule map_cong) auto
  then show ?thesis by (simp only: map_snd_enumerate)
qed

lemma cap_invD:
  assumes "cap_inv t H"
  shows "bucket_inv (change_hash (st_ab_pk t)) (cap_key (st_ab_pk t)) (cap_ok (st_ab_pk t)) (st_entries t) (st_buckets t)"
    "keys_inj (cap_key (st_ab_pk t)) (st_entries t)" "amap (cap_key (st_ab_pk t)) (st_entries t) = H"
    "sized (st_entries t) (st_buckets t)" "st_n_entry t = card (live (st_entries t))"
    "\<not> st_b_rowid t" "\<not> st_b_stat1 t" "st_n_col t = length (st_ab_pk t)" "st_free_ids t = []"
  using assms by (auto simp: cap_inv_def Let_def bucket_inv_def)

lemma grow_hash_inv:
  assumes "cap_inv t H" "length (st_entries t) < 2 ^ 30"
  shows "\<exists>nb. grow_hash t = Ok (t\<lparr>st_buckets := nb\<rparr>) \<and> cap_inv (t\<lparr>st_buckets := nb\<rparr>) H \<and> nb \<noteq> [] \<and> length nb < 2 ^ 32"
proof (cases "st_buckets t = [] \<or> length (st_buckets t) div 2 \<le> st_n_entry t")
  case False
  from sized_bound [OF cap_invD(4) [OF assms(1)] assms(2)] show ?thesis
    using False assms(1) by (intro exI [of _ "st_buckets t"]) (simp add: grow_hash_def Let_def)
next
  case True
  define n where "n = (if st_buckets t = [] then 256 else length (st_buckets t) * 2)"
  note d = cap_invD [OF assms(1)]
  have load: "st_buckets t = [] \<or> length (st_buckets t) div 2 \<le> card (live (st_entries t))" using True d(5) by simp
  from session_index.grow_inv [OF d(1,4) assms(2) load n_def] obtain nb where
    r: "rehash_ids (\<lambda>i. bind_outcome (get_entry (st_entries t) i) (change_hash (st_ab_pk t) n))
         (concat (st_buckets t)) (replicate n []) = Ok nb" "sized (st_entries t) nb" "nb \<noteq> []" "length nb < 2 ^ 32"
    and inv': "bucket_inv (change_hash (st_ab_pk t)) (cap_key (st_ab_pk t)) (cap_ok (st_ab_pk t)) (st_entries t) nb"
    by blast
  have "grow_hash t = Ok (t\<lparr>st_buckets := nb\<rparr>)"
    using True r(1) unfolding grow_hash_def Let_def n_def [symmetric] by simp
  moreover have "cap_inv (t\<lparr>st_buckets := nb\<rparr>) H"
    using assms(1) inv' r(2) by (simp add: cap_inv_def Let_def)
  ultimately show ?thesis using r(3,4) by blast
qed

lemma push_entry_inv:
  assumes "cap_inv t H" "cap_ok (st_ab_pk t) e" "H (cap_key (st_ab_pk t) e) = None"
    and h: "change_hash (st_ab_pk t) (length (st_buckets t)) e = Ok h" "h < length (st_buckets t)"
  shows "\<exists>t'. push_entry t h e = Ok t' \<and> cap_inv t' (H(cap_key (st_ab_pk t) e \<mapsto> e)) \<and> same_model t t'
    \<and> length (st_entries t') = Suc (length (st_entries t))"
proof -
  note d = cap_invD [OF assms(1)]
  have n: "amap (cap_key (st_ab_pk t)) (st_entries t) (cap_key (st_ab_pk t) e) = None" using d(3) assms(3) by simp
  have "length (st_entries t) \<notin> live (st_entries t)" by (simp add: live_def)
  then have card: "card (live (st_entries t @ [Some e])) = Suc (card (live (st_entries t)))" by (simp add: live_append)
  show ?thesis
    using assms(1) d(9) h(2) session_index.insert_inv [OF d(1) assms(2) h n] amap_append(2) [OF d(2) n] card d(3)
    by (auto simp: push_entry_def index_at_def cap_inv_def Let_def same_model_def sized_def)
qed

lemma clear_indirect_inv:
  assumes "cap_inv t H" "slot (st_entries t) i e"
  shows "\<exists>t'. clear_indirect t i = Ok t' \<and> cap_inv t' (H(cap_key (st_ab_pk t) e \<mapsto> e\<lparr>sc_indirect := False\<rparr>)) \<and> same_model t t'
    \<and> length (st_entries t') = length (st_entries t)"
proof -
  note d = cap_invD [OF assms(1)]
  let ?e = "e\<lparr>sc_indirect := False\<rparr>"
  have k: "cap_key (st_ab_pk t) ?e = cap_key (st_ab_pk t) e" by (simp add: cap_key_def cap_rec_def)
  have ok: "cap_ok (st_ab_pk t) ?e" using d(1) assms(2) unfolding bucket_inv_def cap_ok_def by simp
  have "live ((st_entries t)[i := Some ?e]) = live (st_entries t)"
    using live_update [OF slot_bound [OF assms(2)]] assms(2) by (auto simp: live_slot)
  then show ?thesis
    using assms d session_index.replace_inv [OF d(1) assms(2) ok k] amap_replace(2) [OF d(2) assms(2) k] k
    by (auto simp: clear_indirect_def index_at_def slot_def cap_inv_def Let_def same_model_def sized_def)
qed

text \<open>The record and key of a captured event; \<open>s\<close> is the row on the side that keys it.\<close>

definition event_side :: "byte \<Rightarrow> bool \<Rightarrow> val list option \<Rightarrow> val list option \<Rightarrow> val list \<Rightarrow> bool" where
  "event_side sop b_new_key old new s \<longleftrightarrow>
     (if sop = OP_INSERT then new = Some s else \<not> b_new_key \<and> old = Some s)"

definition event_fields :: "bytes \<Rightarrow> byte \<Rightarrow> val list \<Rightarrow> sess_val list" where
  "event_fields pk sop s = (if sop = OP_INSERT then key_only pk (fields_of s) else fields_of s)"

definition event_entry :: "bytes \<Rightarrow> byte \<Rightarrow> bool \<Rightarrow> val list \<Rightarrow> session_change" where
  "event_entry pk sop ind s = \<lparr>sc_op = sop, sc_indirect = ind, sc_record = field_bytes (event_fields pk sop s)\<rparr>"

lemma length_le_field_bytes: "length fs \<le> length (field_bytes fs)"
proof (induction fs)
  case (Cons f fs)
  have "1 \<le> length (append_field f)" by (cases f) simp_all
  with Cons show ?case by simp
qed simp

lemma length_key_only_bytes: "length fs = length pk \<Longrightarrow> length (field_bytes (key_only pk fs)) \<le> length (field_bytes fs)"
proof (induction pk fs rule: list_induct2')
  case (4 p pk f fs)
  have "1 \<le> length (append_field f)" by (cases f) simp_all
  with 4 show ?case by (auto simp: key_only_def)
qed (simp_all add: key_only_def)

lemma event_entry_key:
  assumes "length s = length pk" "row_ok s" "list_all is_key_val (key_of pk (fields_of s))"
  shows "cap_ok pk (event_entry pk sop ind s)" "cap_key pk (event_entry pk sop ind s) = key_of pk (fields_of s)"
    "cap_rec pk (event_entry pk sop ind s) = event_fields pk sop s"
proof -
  have l: "length (event_fields pk sop s) = length pk" using assms(1) by (simp add: event_fields_def)
  have f: "fits (field_bytes (event_fields pk sop s))"
    using assms(1,2) length_key_only_bytes [of "fields_of s" pk] by (auto simp: event_fields_def row_ok_def fits_def)
  have k: "key_of pk (event_fields pk sop s) = key_of pk (fields_of s)"
    using assms(1) by (simp add: event_fields_def key_of_key_only)
  show r: "cap_rec pk (event_entry pk sop ind s) = event_fields pk sop s"
    using cap_rec_fields [OF l f] by (simp add: event_entry_def)
  show "cap_ok pk (event_entry pk sop ind s)" using l f k assms(3) by (auto simp: cap_ok_def event_entry_def)
  show "cap_key pk (event_entry pk sop ind s) = key_of pk (fields_of s)" using r k by (simp add: cap_key_def)
qed

lemma record_one_table_spec:
  assumes inv: "cap_inv t H" and sz: "length (st_entries t) < 2 ^ 30"
    and side: "event_side sop b_new_key old new s" and len: "length s = length (st_ab_pk t)" and row: "row_ok s"
    and key: "list_all is_key_val (key_of (st_ab_pk t) (fields_of s))"
  shows "\<exists>t'. record_one_table s_ind t sop rowid old new depth b_new_key = Ok t'
    \<and> cap_inv t' (cap_add H (key_of (st_ab_pk t) (fields_of s)) (event_entry (st_ab_pk t) sop (s_ind \<or> 0 < depth) s) (depth = 0 \<and> \<not> s_ind))
    \<and> same_model t t' \<and> length (st_entries t') \<le> Suc (length (st_entries t))"
proof -
  define pk where "pk = st_ab_pk t"
  define k where "k = key_of pk (fields_of s)"
  define e where "e = event_entry pk sop (s_ind \<or> 0 < depth) s"
  note d = cap_invD [OF inv, folded pk_def]
  have ee: "cap_ok pk e" "cap_key pk e = k"
    unfolding e_def k_def using event_entry_key [of s pk] len row key by (simp_all add: pk_def)
  have hash: "side_hash pk 0 s 0 = Some (key_hash k)"
    using side_hash_key [of 0 s pk 0] len key by (simp add: pk_def k_def key_hash_def)
  obtain nb where g: "grow_hash t = Ok (t\<lparr>st_buckets := nb\<rparr>)" "cap_inv (t\<lparr>st_buckets := nb\<rparr>) H" "nb \<noteq> []" "length nb < 2 ^ 32"
    using grow_hash_inv [OF inv sz] by blast
  define t1 where "t1 = t\<lparr>st_buckets := nb\<rparr>"
  have t1: "st_ab_pk t1 = pk" "st_entries t1 = st_entries t" "st_buckets t1 = nb" "\<not> st_b_rowid t1" "st_n_col t1 = length pk"
    using d by (simp_all add: t1_def pk_def)
  have inv1: "cap_inv t1 H" using g(2) by (simp add: t1_def)
  define h where "h = unat (key_hash k mod (word_of_nat (length nb) :: u32))"
  have nz: "(word_of_nat (length nb) :: u32) \<noteq> 0" "h < length nb"
    using u32_mod_less [of "length nb" "key_hash k"] g(3,4) by (auto simp: h_def)
  have eh: "change_hash pk (length nb) e = Ok h" using change_hash_key [OF ee(1)] nz ee(2) by (simp add: h_def)
  define old_v where "old_v = (if sop \<noteq> OP_INSERT then old else None)"
  define new_v where "new_v = (if sop \<noteq> OP_DELETE then new else None)"
  have sv: "(if b_new_key \<or> sop = OP_INSERT then new_v else old_v) = Some s"
    using side by (auto simp: event_side_def old_v_def new_v_def op_defs split: if_splits)
  define same where "same = (\<lambda>i. bind_outcome (index_at (st_entries t1) i) (\<lambda>e.
      case e of None \<Rightarrow> Ok False | Some e' \<Rightarrow> if st_b_rowid t1 then rowid_matches e' rowid
        else record_matches_pk t1 (sc_record e') old_v new_v sop b_new_key))"
  have same: "same i = Ok (cap_key pk e' = cap_key pk e)" if s': "slot (st_entries t) i e'" for i e'
  proof -
    have ok: "cap_ok pk e'" using d(1) s' unfolding bucket_inv_def by blast
    note c = cap_okD [OF ok]
    have "length s < 2 ^ 64"
      using length_le_field_bytes [of "fields_of s"] row by (simp add: row_ok_def fits_def)
    then have "match_pk_loop False pk 0 (sc_record e') 0 s = Ok (key_of pk (cap_rec pk e') = key_of pk (fields_of s))"
      using match_pk_loop_fields [of "sc_record e'" 0 "cap_rec pk e'" "[]" pk 0 s] c len row by (simp add: pk_def row_ok_def)
    then have "record_matches_pk t1 (sc_record e') old_v new_v sop b_new_key = Ok (cap_key pk e' = k)"
      using sv t1 len by (simp add: record_matches_pk_def cap_key_def k_def pk_def)
    then show ?thesis using s' t1 ee(2) by (simp add: same_def slot_def index_at_def)
  qed
  have rec: "record_fields t1 sop old_v new_v [0 ..< length pk] = Ok (field_bytes (event_fields pk sop s))"
    using record_fields_old [of t1 sop s 0 new_v] record_fields_new [of t1 s 0 old_v] sv side t1 len
    by (auto simp: event_fields_def event_side_def pk_def old_v_def new_v_def op_defs split: if_splits)
  have mo: "map_option (stat1_row False) x = x" for x by (cases x) simp_all
  have "record_one_table s_ind t sop rowid old new depth b_new_key
      = capture_at s_ind t sop rowid old_v new_v depth b_new_key (length pk) (key_hash k)"
    unfolding record_one_table_def Let_def
    using d(6-8) sv len hash
    by (simp only: mo old_v_def [symmetric] new_v_def [symmetric] pk_def [symmetric]) (simp add: mo pk_def)
  also have "\<dots> = bind_outcome (find_in_chain same (nb ! h)) (\<lambda>existing. case existing of
         Some i \<Rightarrow> if depth = 0 \<and> \<not> s_ind then clear_indirect t1 i else Ok t1
       | None \<Rightarrow> push_entry t1 h e)"
    unfolding capture_at_def g(1) bind_outcome.simps t1_def [symmetric] t1(3) Let_def h_def [symmetric] same_def [symmetric] e_def event_entry_def
    using nz rec t1(4) by (simp add: index_at_def cong: option.case_cong)
  finally have run: "record_one_table s_ind t sop rowid old new depth b_new_key =
      bind_outcome (find_in_chain same (nb ! h)) (\<lambda>existing. case existing of
         Some i \<Rightarrow> if depth = 0 \<and> \<not> s_ind then clear_indirect t1 i else Ok t1
       | None \<Rightarrow> push_entry t1 h e)" .
  have "find_in_chain same (st_buckets t1 ! h) = Ok None \<and> amap (cap_key pk) (st_entries t1) (cap_key pk e) = None
      \<or> (\<exists>i e'. find_in_chain same (st_buckets t1 ! h) = Ok (Some i) \<and> slot (st_entries t1) i e'
           \<and> cap_key pk e' = cap_key pk e \<and> amap (cap_key pk) (st_entries t1) (cap_key pk e) = Some e')"
    using cap_invD(1) [OF inv1] t1 ee eh nz same by (intro session_index.find_key) simp_all
  then consider (new) "find_in_chain same (nb ! h) = Ok None" "H k = None"
    | (old) i e' where "find_in_chain same (nb ! h) = Ok (Some i)" "slot (st_entries t1) i e'" "cap_key pk e' = k" "H k = Some e'"
    using cap_invD(3) [OF inv1] t1 ee(2) by (elim disjE exE conjE) auto
  then show ?thesis
  proof cases
    case new
    then show ?thesis
      using push_entry_inv [OF inv1, of e h] t1 ee eh nz run
      by (auto simp: cap_add_def k_def [symmetric] pk_def [symmetric] e_def [symmetric] same_model_def t1_def)
  next
    case old
    have "same_model t t1" by (simp add: same_model_def t1_def)
    then show ?thesis
      using old clear_indirect_inv [OF inv1 old(2)] inv1 t1 run
      by (cases "depth = 0 \<and> \<not> s_ind") (auto simp: cap_add_def k_def [symmetric] pk_def [symmetric] same_model_def)
  qed
qed

lemma cap_inv_empty:
  "\<not> st_b_rowid t \<Longrightarrow> \<not> st_b_stat1 t \<Longrightarrow> st_n_col t = length (st_ab_pk t) \<Longrightarrow> st_entries t = [] \<Longrightarrow> st_buckets t = [] \<Longrightarrow>
   st_free_ids t = [] \<Longrightarrow> st_n_entry t = 0 \<Longrightarrow> cap_inv t (\<lambda>_. None)"
  by (auto simp: cap_inv_def Let_def bucket_inv_def placed_def keys_inj_def slot_def sized_def amap_def)

subsection \<open>Properties\<close>

text \<open>
  C5: a session keeps the first change of a row of a table with a declared key, one that is neither
  a rowid table nor \<^verbatim>\<open>sqlite_stat1\<close>. When a key has an entry, a later event on that key, of any kind,
  finds it (whether or not the hash grew in between, below \<open>2\<^sup>3\<^sup>0\<close> entries) and leaves the captured
  operation and record as they are; only a direct change clears the indirect flag.
\<close>

theorem first_change_kept:
  assumes "cap_inv t H" "length (st_entries t) < 2 ^ 30" "event_side sop b_new_key old new s"
    "length s = length (st_ab_pk t)" "row_ok s" "list_all is_key_val (key_of (st_ab_pk t) (fields_of s))"
    "\<not> st_b_rowid t" "\<not> st_b_stat1 t" "H (key_of (st_ab_pk t) (fields_of s)) = Some e"
  shows "\<exists>t'. record_one_table s_ind t sop rowid old new depth b_new_key = Ok t'
    \<and> cap_inv t' (if depth = 0 \<and> \<not> s_ind then H(key_of (st_ab_pk t) (fields_of s) \<mapsto> e\<lparr>sc_indirect := False\<rparr>) else H)"
  using record_one_table_spec [OF assms(1-6), where s_ind = s_ind and depth = depth and rowid = rowid] assms(9)
  by (auto simp: cap_add_def split: if_splits)

definition one_column :: session_table where
  "one_column = (session_table_new [0x74])\<lparr>st_n_col := 1, st_ab_pk := [1], st_az_col := [[0x61]], st_initialized := True\<rparr>"

theorem first_change_kept_witness:
  "\<exists>t1 t2. record_one_table True one_column OP_INSERT 1 None (Some [Integer 1]) 0 False = Ok t1
     \<and> record_one_table True t1 OP_DELETE 1 (Some [Integer 1]) None 0 False = Ok t2
     \<and> amap (cap_key [1]) (st_entries t2) [SInt 1] = Some (event_entry [1] OP_INSERT True [Integer 1])"
proof -
  have pk: "st_ab_pk one_column = [1]" "st_entries one_column = []" by (simp_all add: one_column_def session_table_new_def)
  have inv: "cap_inv one_column (\<lambda>_. None)" by (rule cap_inv_empty) (simp_all add: one_column_def session_table_new_def)
  have side: "event_side OP_INSERT False None (Some [Integer 1]) [Integer 1]" "event_side OP_DELETE False (Some [Integer 1]) None [Integer 1]"
    by (simp_all add: event_side_def op_defs)
  have row: "row_ok [Integer 1]" by (simp add: row_ok_def fits_def put_i64_def)
  have k: "key_of [1] (fields_of [Integer 1]) = [SInt 1]" by (simp add: key_of_def)
  let ?e = "event_entry [1] OP_INSERT True [Integer 1]"
  from record_one_table_spec [OF inv _ side(1) _ row, where s_ind = True and depth = 0 and rowid = 1] obtain t1 where
    t1: "record_one_table True one_column OP_INSERT 1 None (Some [Integer 1]) 0 False = Ok t1"
      "cap_inv t1 ((\<lambda>_. None)([SInt 1] \<mapsto> ?e))" "st_ab_pk t1 = [1]" "length (st_entries t1) \<le> 1"
    by (auto simp: pk k cap_add_def same_model_def)
  have "\<exists>t'. record_one_table True t1 OP_DELETE 1 (Some [Integer 1]) None 0 False = Ok t' \<and> cap_inv t' ((\<lambda>_. None)([SInt 1] \<mapsto> ?e))
      \<and> same_model t1 t'"
    using first_change_kept [OF t1(2) _ side(2) _ row, of ?e True 1 0]
      record_one_table_spec [OF t1(2) _ side(2) _ row, where s_ind = True and depth = 0 and rowid = 1] t1(3,4) k cap_invD(6,7) [OF t1(2)]
    by auto
  then obtain t2 where "record_one_table True t1 OP_DELETE 1 (Some [Integer 1]) None 0 False = Ok t2"
      "cap_inv t2 ((\<lambda>_. None)([SInt 1] \<mapsto> ?e))" "st_ab_pk t2 = [1]" using t1(3) by (auto simp: same_model_def)
  with cap_invD(3) [of t2] t1(1) show ?thesis by auto
qed

lemma null_key_table:
  assumes "\<not> st_b_rowid t" "\<not> st_b_stat1 t" "st_n_col t = length (st_ab_pk t)" "(if b_new_key \<or> sop = OP_INSERT then new else old) = Some s"
    "b_new_key \<or> sop = OP_INSERT \<longrightarrow> sop \<noteq> OP_DELETE" "length s = length (st_ab_pk t)" "\<not> list_all is_key_val (key_of (st_ab_pk t) (fields_of s))"
  shows "record_one_table s_ind t sop rowid old new depth b_new_key = Ok t"
  using assms side_hash_key [of 0 s "st_ab_pk t" 0] by (auto simp: record_one_table_def op_defs split: if_splits)

text \<open>The rows whose keys an event is captured under.\<close>

fun event_rows :: "preupdate_op \<Rightarrow> val list option \<Rightarrow> val list option \<Rightarrow> val list option list" where
  "event_rows Pre_Insert old new = [new]"
| "event_rows Pre_Delete old new = [old]"
| "event_rows Pre_Update old new = [old, new]"

text \<open>
  C25: a row with a NULL in its key is not tracked. On a table that the session has attached and
  resolved with its present columns, and that is neither a rowid table nor \<^verbatim>\<open>sqlite_stat1\<close>, an insertion or a
  deletion of such a row, and an update from such a row to such a row, leaves the session as it is.
\<close>

theorem null_key_ignored:
  assumes "find_table_idx c (tab_name tbl) = Some idx" "st_initialized (s_tables c ! idx)" "\<not> st_b_rowid (s_tables c ! idx)" "\<not> st_b_stat1 (s_tables c ! idx)"
    "st_n_col (s_tables c ! idx) = length (st_ab_pk (s_tables c ! idx))"
    "list_all (\<lambda>r. case r of None \<Rightarrow> False | Some s \<Rightarrow> length s = length (st_ab_pk (s_tables c ! idx))
       \<and> \<not> list_all is_key_val (key_of (st_ab_pk (s_tables c ! idx)) (fields_of s))) (event_rows opn old new)"
  shows "session_record eval c opn tbl rowid old new depth = Ok c"
proof -
  let ?t = "s_tables c ! idx"
  have refresh: "refresh_model eval (s_implicit_pk c) ?t tbl (length (case (if opn = Pre_Insert then new else old) of Some v \<Rightarrow> v | None \<Rightarrow> [])) = (?t, None)"
    using assms(2,3,5,6) by (cases opn) (auto simp: refresh_model_def split: option.splits)
  have same: "c\<lparr>s_tables := (s_tables c)[idx := ?t]\<rparr> = c" by simp
  have one: "record_one c sop tbl rowid old new depth b = Ok c"
    if "(if b \<or> sop = OP_INSERT then new else old) = Some s" "b \<or> sop = OP_INSERT \<longrightarrow> sop \<noteq> OP_DELETE"
      "length s = length (st_ab_pk ?t)" "\<not> list_all is_key_val (key_of (st_ab_pk ?t) (fields_of s))" for sop b s
    using null_key_table [OF assms(3-5) that, of "s_indirect c" rowid depth] assms(1) same by (simp add: record_one_def)
  show ?thesis
  proof (cases opn)
    case Pre_Insert
    then show ?thesis using refresh same assms(1,6) one [of False OP_INSERT] by (auto simp: session_record_def find_or_auto_attach_def op_defs split: option.splits)
  next
    case Pre_Delete
    then show ?thesis using refresh same assms(1,6) one [of False OP_DELETE] by (auto simp: session_record_def find_or_auto_attach_def op_defs split: option.splits)
  next
    case Pre_Update
    then show ?thesis using refresh same assms(1,6) one [of False OP_UPDATE] one [of True OP_INSERT]
      by (auto simp: session_record_def find_or_auto_attach_def op_defs split: option.splits)
  qed
qed

theorem null_key_ignored_witness:
  "session_record (\<lambda>_. None) (session_core_new\<lparr>s_tables := [one_column]\<rparr>) Pre_Delete
     \<lparr>tab_name = [0x74], tab_columns = [], tab_without_rowid = False\<rparr> 1 (Some [Null]) None 0 = Ok (session_core_new\<lparr>s_tables := [one_column]\<rparr>)"
  by (rule null_key_ignored [where idx = 0])
    (simp_all add: find_table_idx_def one_column_def session_table_new_def key_of_def eq_ignore_ascii_case_def position_def)

end
