(* ===== verification/Session_Gen.thy ===== *)
theory Session_Gen
  imports Session_State Session_Iter
begin

text \<open>
  \<^verbatim>\<open>src/session/gen.rs\<close>: a changeset or patchset is generated by resolving every captured entry
  against the current database. The SQL engine is the parameter \<open>query\<close> (statement text and
  bound values to rows, or an error) and the catalog the parameter \<open>tables\<close>, indexed by the
  lower-cased name as \<^verbatim>\<open>Catalog::get_table\<close> does.
\<close>

subsection \<open>The code\<close>

definition expected_model_n :: "'x schema_table \<Rightarrow> bytes \<Rightarrow> nat" where
  "expected_model_n tbl name =
     (let b_stat1 = eq_ignore_ascii_case name (lit ''sqlite_stat1'');
          b_rowid = (\<not> tab_without_rowid tbl \<and> \<not> list_ex col_primary_key (tab_columns tbl) \<and> \<not> b_stat1)
      in length (tab_columns tbl) + (if b_rowid then 1 else 0))"

definition append_table_hdr :: "bool \<Rightarrow> session_table \<Rightarrow> bytes" where
  "append_table_hdr patchset t =
     (if patchset then ch_P else ch_T) # put_varint (word_of_nat (st_n_col t)) @ st_ab_pk t @ st_name t @ [0]"

definition quote_ident :: "bytes \<Rightarrow> bytes" where
  "quote_ident name = 0x22 # concat (map (\<lambda>b. if b = 0x22 then [0x22, 0x22] else [b]) name) @ [0x22]"

text \<open>\<^verbatim>\<open>usize::to_string\<close>.\<close>

fun decimal :: "nat \<Rightarrow> bytes" where
  "decimal n = (if n < 10 then [word_of_nat (48 + n)] else decimal (n div 10) @ [word_of_nat (48 + n mod 10)])"

declare decimal.simps [simp del]

fun where_terms :: "bytes list \<Rightarrow> nat \<Rightarrow> bytes \<Rightarrow> bool \<Rightarrow> bytes outcome" where
  "where_terms az_col i [] first = Ok []"
| "where_terms az_col i (pk # pks) first =
     (if pk \<noteq> 0
      then bind_outcome (index_at az_col i) (\<lambda>name.
        bind_outcome (where_terms az_col (i + 1) pks False) (\<lambda>rest.
          Ok ((if first then [] else lit '' AND '') @ 0x22 # name @ 0x22 # lit '' = ?'' @ decimal (i + 1) @ rest)))
      else where_terms az_col (i + 1) pks first)"

definition build_select :: "session_table \<Rightarrow> bytes outcome" where
  \<open>build_select t =
     (if st_b_stat1 t
      then Ok (lit ''SELECT "tbl", CASE WHEN "idx" IS NULL THEN X'' @ [0x27, 0x27]
             @ lit '' ELSE "idx" END, "stat" FROM "sqlite_stat1" WHERE "tbl" = ?1 AND "idx" IS ''
             @ lit ''(CASE WHEN length(?2)=0 AND typeof(?2)='blob' THEN NULL ELSE ?2 END)'')
      else if st_b_rowid t
      then Ok (lit ''SELECT "_rowid_", * FROM '' @ quote_ident (st_name t) @ lit '' WHERE "_rowid_" = ?1'')
      else bind_outcome (where_terms (st_az_col t) 0 (st_ab_pk t) True) (\<lambda>terms.
        Ok (lit ''SELECT * FROM '' @ quote_ident (st_name t) @ lit '' WHERE '' @ terms)))\<close>

fun pk_values_loop :: "bytes \<Rightarrow> bytes \<Rightarrow> nat \<Rightarrow> val list option outcome" where
  "pk_values_loop [] rec pos = Ok (Some [])"
| "pk_values_loop (pk # pks) rec pos =
     (case parse_value rec pos of
        Panic \<Rightarrow> Panic
      | Err _ \<Rightarrow> Ok None
      | Ok (v, l) \<Rightarrow>
          if pk \<noteq> 0 then
            (case to_value v of
               None \<Rightarrow> Ok None
             | Some x \<Rightarrow> bind_outcome (pk_values_loop pks rec (usize_add pos l)) (\<lambda>r. Ok (map_option ((#) x) r)))
          else pk_values_loop pks rec (usize_add pos l))"

definition pk_values_of :: "session_table \<Rightarrow> bytes \<Rightarrow> val list option outcome" where
  "pk_values_of t rec = pk_values_loop (st_ab_pk t) rec 0"

fun values_equal :: "val \<Rightarrow> val \<Rightarrow> bool" where
  "values_equal Null Null = True"
| "values_equal (Integer x) (Integer y) = (x = y)"
| "values_equal (Real x) (Real y) = f64_eq x y"
| "values_equal (Txt x) (Txt y) = (as_str x = as_str y)"
| "values_equal (Blob x) (Blob y) = (x = y)"
| "values_equal _ _ = False"

fun field_starts :: "nat \<Rightarrow> bytes \<Rightarrow> nat \<Rightarrow> (nat \<times> nat) list outcome" where
  "field_starts 0 rec pos = Ok []"
| "field_starts (Suc n) rec pos =
     bind_outcome (serial_len rec pos) (\<lambda>l.
       bind_outcome (field_starts n rec (usize_add pos l)) (\<lambda>ss. Ok ((pos, l) # ss)))"

fun changed_flags :: "bytes \<Rightarrow> (nat \<times> nat) list \<Rightarrow> nat \<Rightarrow> val list \<Rightarrow> bool list outcome" where
  "changed_flags rec [] i current = Ok []"
| "changed_flags rec ((s, l) # ss) i current =
     bind_outcome
       (case parse_value rec s of
          Panic \<Rightarrow> Panic
        | Err _ \<Rightarrow> Ok True
        | Ok (v, _) \<Rightarrow>
            if v = Undef \<or> v = Replaced then Ok True
            else (case to_value v of
                    Some old \<Rightarrow> bind_outcome (index_at current i) (\<lambda>c. Ok (\<not> values_equal old c))
                  | None \<Rightarrow> Ok True))
       (\<lambda>d. bind_outcome (changed_flags rec ss (i + 1) current) (\<lambda>ds. Ok (d # ds)))"

fun old_half :: "bytes \<Rightarrow> bytes \<Rightarrow> nat \<Rightarrow> ((nat \<times> nat) \<times> bool) list \<Rightarrow> bytes outcome" where
  "old_half ab_pk rec i [] = Ok []"
| "old_half ab_pk rec i (((s, l), ch) # xs) =
     bind_outcome (index_at ab_pk i) (\<lambda>pk.
       bind_outcome (if pk \<noteq> 0 \<or> ch then slice rec s (usize_add s l) else Ok [TYPE_UNDEF]) (\<lambda>f.
         bind_outcome (old_half ab_pk rec (i + 1) xs) (\<lambda>r. Ok (f @ r))))"

fun new_half :: "bool \<Rightarrow> bytes \<Rightarrow> val list \<Rightarrow> nat \<Rightarrow> bool list \<Rightarrow> bytes outcome" where
  "new_half patchset ab_pk current i [] = Ok []"
| "new_half patchset ab_pk current i (ch # chs) =
     bind_outcome (if ch then Ok True else if patchset then bind_outcome (index_at ab_pk i) (\<lambda>pk. Ok (pk \<noteq> 0)) else Ok False) (\<lambda>w.
       bind_outcome (if w then bind_outcome (index_at current i) (\<lambda>v. Ok (append_value (Some v))) else Ok [TYPE_UNDEF]) (\<lambda>f.
         bind_outcome (new_half patchset ab_pk current (i + 1) chs) (\<lambda>r. Ok (f @ r))))"

text \<open>\<^verbatim>\<open>append_update\<close> returns the appended bytes, or \<open>None\<close> when the change is a no-op.\<close>

definition append_update :: "session_table \<Rightarrow> bool \<Rightarrow> session_change \<Rightarrow> val list \<Rightarrow> bytes option outcome" where
  "append_update t patchset entry current =
     bind_outcome (field_starts (st_n_col t) (sc_record entry) 0) (\<lambda>starts.
       bind_outcome (changed_flags (sc_record entry) starts 0 current) (\<lambda>changed.
         if \<not> list_ex id changed then Ok None
         else bind_outcome (if patchset then Ok [] else old_half (st_ab_pk t) (sc_record entry) 0 (zip starts changed)) (\<lambda>ov.
           bind_outcome (new_half patchset (st_ab_pk t) current 0 changed) (\<lambda>nv.
             Ok (Some (OP_UPDATE # (if sc_indirect entry then 1 else 0) # ov @ nv))))))"

fun pk_fields :: "bytes \<Rightarrow> bytes \<Rightarrow> nat \<Rightarrow> bytes outcome" where
  "pk_fields [] rec pos = Ok []"
| "pk_fields (pk # pks) rec pos =
     bind_outcome (serial_len rec pos) (\<lambda>l.
       bind_outcome (if pk \<noteq> 0 then slice rec pos (usize_add pos l) else Ok []) (\<lambda>f.
         bind_outcome (pk_fields pks rec (usize_add pos l)) (\<lambda>r. Ok (f @ r))))"

definition append_delete :: "session_table \<Rightarrow> bool \<Rightarrow> session_change \<Rightarrow> bytes outcome" where
  "append_delete t patchset entry =
     bind_outcome (if patchset then pk_fields (st_ab_pk t) (sc_record entry) 0 else Ok (sc_record entry)) (\<lambda>r.
       Ok (OP_DELETE # (if sc_indirect entry then 1 else 0) # r))"

text \<open>What one entry emits given the current row; \<open>None\<close> is nothing.\<close>

definition emit_entry :: "session_table \<Rightarrow> bool \<Rightarrow> session_change \<Rightarrow> val list option \<Rightarrow> bytes option outcome" where
  "emit_entry t patchset entry current =
     (case current of
        Some row \<Rightarrow>
          if length row \<noteq> st_n_col t then Err ''session resolution width''
          else if sc_op entry = OP_INSERT
          then Ok (Some (OP_INSERT # (if sc_indirect entry then 1 else 0) # concat (map (\<lambda>v. append_value (Some v)) row)))
          else append_update t patchset entry row
      | None \<Rightarrow>
          if sc_op entry = OP_INSERT then Ok None
          else bind_outcome (append_delete t patchset entry) (\<lambda>b. Ok (Some b)))"

text \<open>The loop over the entry numbers, in bucket order.\<close>

fun emit_ids :: "(bytes \<Rightarrow> val list \<Rightarrow> val list list outcome) \<Rightarrow> session_table \<Rightarrow> bool \<Rightarrow> bytes \<Rightarrow> nat list \<Rightarrow> (bytes \<times> bool) outcome" where
  "emit_ids query t patchset sql [] = Ok ([], False)"
| "emit_ids query t patchset sql (i # is) =
     bind_outcome
       (case (if i < length (st_entries t) then st_entries t ! i else None) of
          None \<Rightarrow> Ok None
        | Some entry \<Rightarrow>
            bind_outcome (pk_values_of t (sc_record entry)) (\<lambda>vals.
              case vals of
                None \<Rightarrow> Ok None
              | Some pk_vals \<Rightarrow>
                  bind_outcome (query sql pk_vals) (\<lambda>rows.
                    emit_entry t patchset entry (case rows of [] \<Rightarrow> None | row # _ \<Rightarrow> Some row))))
       (\<lambda>b. bind_outcome (emit_ids query t patchset sql is) (\<lambda>(r, any).
          Ok (case b of None \<Rightarrow> (r, any) | Some x \<Rightarrow> (x @ r, True))))"

text \<open>The model of a table brought up to date with the live schema; the second part is an error.\<close>

definition revalidate ::
    "('x \<Rightarrow> val option) \<Rightarrow> bool \<Rightarrow> session_table \<Rightarrow> 'x schema_table \<Rightarrow> session_table \<times> string option" where
  "revalidate eval implicit t tbl =
     (if \<not> st_initialized t then reinit_and_pad eval t tbl implicit
      else if st_untrackable t then (t, None)
      else if st_n_col t \<noteq> expected_model_n tbl (st_name t) then reinit_and_pad eval t tbl implicit
      else (t, None))"

definition table_body ::
    "(bytes \<Rightarrow> val list \<Rightarrow> val list list outcome) \<Rightarrow> bool \<Rightarrow> session_table \<Rightarrow> bytes outcome" where
  "table_body query patchset t =
     bind_outcome (build_select t) (\<lambda>sql.
       bind_outcome (emit_ids query t patchset sql (concat (st_buckets t))) (\<lambda>(out, any).
         Ok (if any then append_table_hdr patchset t @ out else [])))"

definition gen_table ::
    "(bytes \<Rightarrow> val list \<Rightarrow> val list list outcome) \<Rightarrow> (bytes \<Rightarrow> 'x schema_table option) \<Rightarrow> ('x \<Rightarrow> val option) \<Rightarrow> bool \<Rightarrow> bool \<Rightarrow>
     session_table \<Rightarrow> session_table \<times> bytes outcome" where
  "gen_table query tables eval implicit patchset t0 =
     (if st_n_entry t0 = 0 then (t0, Ok [])
      else case tables (map ascii_lower (st_name t0)) of
          None \<Rightarrow> (t0, Err ''no such table'')
        | Some tbl \<Rightarrow>
            if st_initialized t0 \<and> st_untrackable t0 then (t0, Ok [])
            else case revalidate eval implicit t0 tbl of
                (t, Some e) \<Rightarrow> (t, Err e)
              | (t, None) \<Rightarrow> (t, table_body query patchset t))"

fun gen_tables ::
    "(bytes \<Rightarrow> val list \<Rightarrow> val list list outcome) \<Rightarrow> (bytes \<Rightarrow> 'x schema_table option) \<Rightarrow> ('x \<Rightarrow> val option) \<Rightarrow> bool \<Rightarrow> bool \<Rightarrow>
     session_table list \<Rightarrow> session_table list \<times> bytes outcome" where
  "gen_tables query tables eval implicit patchset [] = ([], Ok [])"
| "gen_tables query tables eval implicit patchset (t # ts) =
     (case gen_table query tables eval implicit patchset t of
        (t', Ok b) \<Rightarrow>
          (case gen_tables query tables eval implicit patchset ts of
             (ts', r) \<Rightarrow> (t' # ts', bind_outcome r (\<lambda>bs. Ok (b @ bs))))
      | (t', r) \<Rightarrow> (t' # ts, r))"

definition generate ::
    "(bytes \<Rightarrow> val list \<Rightarrow> val list list outcome) \<Rightarrow> (bytes \<Rightarrow> 'x schema_table option) \<Rightarrow> ('x \<Rightarrow> val option) \<Rightarrow>
     session_core \<Rightarrow> bool \<Rightarrow> session_core \<times> bytes outcome" where
  "generate query tables eval core patchset =
     (case s_rc core of
        Some e \<Rightarrow> (core, Err e)
      | None \<Rightarrow>
          (case gen_tables query tables eval (s_implicit_pk core) patchset (s_tables core) of
             (ts, r) \<Rightarrow> (core\<lparr>s_tables := ts\<rparr>, r)))"

end
