(* ===== verification/Session_Resolve.thy ===== *)
theory Session_Resolve
  imports Session_Capture Session_Gen
begin

text \<open>
  Resolution of one captured entry: the serialized comparison of the stored record with the
  current row emits exactly the abstract change that leads from the captured row to the
  current one.
\<close>

subsection \<open>Plain rows\<close>

text \<open>
  A plain value is a value whose serialized field determines it and that the comparison of
  \<^verbatim>\<open>values_equal\<close> tells apart: valid text, no NaN (the engine stores NULL instead) and no
  negative zero.
\<close>

fun plain_val :: "val \<Rightarrow> bool" where
  "plain_val (Real r) = (\<not> f64_is_nan r \<and> (f64_is_zero r \<longrightarrow> r = 0))"
| "plain_val (Txt t) = (case t of Plain b \<Rightarrow> utf8_valid b | Raw _ \<Rightarrow> False)"
| "plain_val _ = True"

definition row_in :: "bytes \<Rightarrow> val list \<Rightarrow> bool" where
  "row_in pk s \<longleftrightarrow> length s = length pk \<and> row_ok s \<and> list_all plain_val s \<and> list_all is_key_val (key_of pk (fields_of s))"

definition row_key :: "bytes \<Rightarrow> val list \<Rightarrow> sess_val list" where
  "row_key pk s = key_of pk (fields_of s)"

definition key_vals :: "bytes \<Rightarrow> val list \<Rightarrow> val list" where
  "key_vals pk s = map snd (filter (\<lambda>(p, v). p \<noteq> 0) (zip pk s))"

lemma to_value_field: "plain_val v \<Longrightarrow> to_value (field_of_value (Some v)) = Some v"
  by (cases v) (auto split: rtext.splits)

lemma values_equal_field:
  "plain_val v \<Longrightarrow> plain_val w \<Longrightarrow> values_equal v w \<longleftrightarrow> field_of_value (Some v) = field_of_value (Some w)"
  by (cases v; cases w) (auto simp: f64_eq_def)

lemma field_of_value_defined [simp]: "field_of_value (Some v) \<noteq> Undef" "field_of_value (Some v) \<noteq> Replaced"
  by (cases v; simp)+

lemma fields_of_nth [simp]: "i < length s \<Longrightarrow> fields_of s ! i = field_of_value (Some (s ! i))"
  by (simp add: fields_of_def)

lemma Undef_fields_of [simp]: "Undef \<notin> set (fields_of s)"
  by (induction s) (simp_all add: not_sym [OF field_of_value_defined(1)])

lemma concat_append_values: "concat (map (\<lambda>v. append_value (Some v)) s) = field_bytes (fields_of s)"
  by (induction s) (simp_all add: append_value_field)

subsection \<open>The loops on a serialized record\<close>

text \<open>A field at a position: its length, its slice, and where the next one starts.\<close>

lemma field_at:
  assumes "fits a" "drop pos a = field_bytes (u # us) @ rest" "pos \<le> length a" "sess_val_ok u"
  shows "serial_len a pos = Ok (length (append_field u))" "parse_value a pos = Ok (u, length (append_field u))"
    "usize_add pos (length (append_field u)) = pos + length (append_field u)"
    "slice a pos (pos + length (append_field u)) = Ok (append_field u)"
    "drop (pos + length (append_field u)) a = field_bytes us @ rest" "pos + length (append_field u) \<le> length a"
proof -
  have d: "drop pos a = append_field u @ field_bytes us @ rest" using assms(2) by simp
  note q = drop_append_field_pos [OF d]
  show "serial_len a pos = Ok (length (append_field u))" by (rule serial_len_field [OF assms(1,4) d])
  show "parse_value a pos = Ok (u, length (append_field u))" by (rule parse_value_field [OF assms(1,4) d])
  show "usize_add pos (length (append_field u)) = pos + length (append_field u)"
    using q assms(1) by (simp add: fits_def)
  show "slice a pos (pos + length (append_field u)) = Ok (append_field u)" using q d by (simp add: slice_def)
  show "drop (pos + length (append_field u)) a = field_bytes us @ rest" by (rule drop_add_append [OF d])
  show "pos + length (append_field u) \<le> length a" using q by simp
qed

lemma pk_values_loop_fields:
  "fits a \<Longrightarrow> drop pos a = field_bytes us @ rest \<Longrightarrow> pos \<le> length a \<Longrightarrow> list_all sess_val_ok us \<Longrightarrow>
   length us = length pk \<Longrightarrow> length s = length pk \<Longrightarrow> list_all plain_val s \<Longrightarrow>
   (\<forall>i < length pk. pk ! i \<noteq> 0 \<longrightarrow> us ! i = field_of_value (Some (s ! i))) \<Longrightarrow>
   pk_values_loop pk a pos = Ok (Some (key_vals pk s))"
proof (induction pk arbitrary: pos us s)
  case (Cons p pk)
  obtain u us' v s' where us: "us = u # us'" and s: "s = v # s'" using Cons.prems by (cases us; cases s) auto
  have ok: "sess_val_ok u" using Cons.prems us by simp
  note f = field_at [OF Cons.prems(1) Cons.prems(2) [unfolded us] Cons.prems(3) ok]
  have IH: "pk_values_loop pk a (pos + length (append_field u)) = Ok (Some (key_vals pk s'))"
    using Cons.prems us s f(5,6) by (intro Cons.IH [where us = us']) auto
  have "p \<noteq> 0 \<Longrightarrow> to_value u = Some v"
    using Cons.prems(7) Cons.prems(8) [rule_format, of 0] us s by (simp add: to_value_field)
  then show ?case using f IH s by (auto simp: key_vals_def)
qed (simp add: key_vals_def)

text \<open>The offsets and lengths of the fields of a record that starts at \<open>pos\<close>.\<close>

fun offsets :: "nat \<Rightarrow> sess_val list \<Rightarrow> (nat \<times> nat) list" where
  "offsets pos [] = []"
| "offsets pos (u # us) = (pos, length (append_field u)) # offsets (pos + length (append_field u)) us"

lemma length_offsets [simp]: "length (offsets pos us) = length us"
  by (induction us arbitrary: pos) simp_all

lemma field_starts_fields:
  "fits a \<Longrightarrow> drop pos a = field_bytes us @ rest \<Longrightarrow> pos \<le> length a \<Longrightarrow> list_all sess_val_ok us \<Longrightarrow>
   field_starts (length us) a pos = Ok (offsets pos us)"
proof (induction us arbitrary: pos)
  case (Cons u us)
  have ok: "sess_val_ok u" using Cons.prems by simp
  note f = field_at [OF Cons.prems(1-3) ok]
  show ?case using f Cons.IH [OF Cons.prems(1) f(5,6)] Cons.prems(4) by simp
qed simp

lemma changed_flags_fields:
  "fits a \<Longrightarrow> drop pos a = field_bytes (fields_of s) @ rest \<Longrightarrow> pos \<le> length a \<Longrightarrow> list_all sess_val_ok (fields_of s) \<Longrightarrow>
   list_all plain_val s \<Longrightarrow> list_all plain_val r \<Longrightarrow> k + length s = length r \<Longrightarrow>
   changed_flags a (offsets pos (fields_of s)) k r = Ok (map2 (\<lambda>v w. v \<noteq> w) (fields_of s) (drop k (fields_of r)))"
proof (induction s arbitrary: pos k)
  case (Cons v s)
  have ok: "sess_val_ok (field_of_value (Some v))" using Cons.prems by simp
  note f = field_at [OF Cons.prems(1) Cons.prems(2) [unfolded fields_of_Cons] Cons.prems(3) ok]
  have k: "k < length r" using Cons.prems by simp
  have d: "drop k (fields_of r) = field_of_value (Some (r ! k)) # drop (Suc k) (fields_of r)"
    using k by (simp add: fields_of_def drop_map Cons_nth_drop_Suc [symmetric])
  have pr: "plain_val (r ! k)" "plain_val v" using Cons.prems(5,6) k by (simp add: list_all_length, simp)
  have IH: "changed_flags a (offsets (pos + length (append_field (field_of_value (Some v)))) (fields_of s)) (k + 1) r
      = Ok (map2 (\<lambda>v w. v \<noteq> w) (fields_of s) (drop (k + 1) (fields_of r)))"
    using Cons.prems by (intro Cons.IH [OF _ f(5,6)]) simp_all
  show ?case
    using f IH d k pr by (simp add: index_at_def to_value_field values_equal_field)
qed simp

lemma old_half_fields:
  "fits a \<Longrightarrow> drop pos a = field_bytes us @ rest \<Longrightarrow> pos \<le> length a \<Longrightarrow> list_all sess_val_ok us \<Longrightarrow>
   k + length us = length pk \<Longrightarrow> length ws = length us \<Longrightarrow>
   old_half pk a k (zip (offsets pos us) (map2 (\<lambda>v w. v \<noteq> w) us ws)) = Ok (field_bytes (squash_old (drop k pk) us ws))"
proof (induction us arbitrary: pos k ws)
  case (Cons u us)
  obtain w ws' where ws: "ws = w # ws'" using Cons.prems by (cases ws) auto
  have ok: "sess_val_ok u" using Cons.prems by simp
  note f = field_at [OF Cons.prems(1-3) ok]
  have k: "k < length pk" using Cons.prems by simp
  have d: "drop k pk = pk ! k # drop (Suc k) pk" using k by (simp add: Cons_nth_drop_Suc)
  have IH: "old_half pk a (k + 1) (zip (offsets (pos + length (append_field u)) us) (map2 (\<lambda>v w. v \<noteq> w) us ws'))
      = Ok (field_bytes (squash_old (drop (k + 1) pk) us ws'))"
    using Cons.prems ws by (intro Cons.IH [OF _ f(5,6)]) simp_all
  show ?case using f IH d k ws by (simp add: index_at_def squash_old_def)
qed (simp add: squash_old_def)

lemma new_half_fields:
  "k + length us = length pk \<Longrightarrow> length r = length pk \<Longrightarrow>
   (\<forall>i < length us. pk ! (k + i) \<noteq> 0 \<longrightarrow> us ! i = fields_of r ! (k + i)) \<Longrightarrow>
   new_half False pk r k (map2 (\<lambda>v w. v \<noteq> w) us (drop k (fields_of r)))
     = Ok (field_bytes (squash_new (drop k pk) us (drop k (fields_of r))))"
proof (induction us arbitrary: k)
  case (Cons u us)
  have k: "k < length pk" using Cons.prems by simp
  have d: "drop k pk = pk ! k # drop (Suc k) pk" using k by (simp add: Cons_nth_drop_Suc)
  have e: "drop k (fields_of r) = field_of_value (Some (r ! k)) # drop (Suc k) (fields_of r)"
    using k Cons.prems(2) by (simp add: fields_of_def drop_map Cons_nth_drop_Suc [symmetric])
  have z: "pk ! k \<noteq> 0 \<Longrightarrow> u = field_of_value (Some (r ! k))"
    using Cons.prems(3) [rule_format, of 0] k Cons.prems(2) by simp
  have IH: "new_half False pk r (k + 1) (map2 (\<lambda>v w. v \<noteq> w) us (drop (k + 1) (fields_of r)))
      = Ok (field_bytes (squash_new (drop (k + 1) pk) us (drop (k + 1) (fields_of r))))"
    using Cons.prems(1,2) Cons.prems(3) [rule_format, of "Suc i" for i] by (intro Cons.IH) auto
  show ?case using IH d e z k Cons.prems(2) by (auto simp: index_at_def squash_new_def append_value_field)
qed (simp add: squash_new_def)

subsection \<open>One entry\<close>

definition gen_change :: "bytes \<Rightarrow> session_change \<Rightarrow> val list option \<Rightarrow> change option" where
  "gen_change pk e current =
     (case current of
        Some r \<Rightarrow> if sc_op e = OP_INSERT then Some (Ins (sc_indirect e) (fields_of r))
                  else squash (sc_indirect e) pk (cap_rec pk e) (fields_of r)
      | None \<Rightarrow> if sc_op e = OP_INSERT then None else Some (Del (sc_indirect e) (cap_rec pk e)))"

text \<open>What an entry says about the row at its key when the session started.\<close>

definition entry_start :: "bytes \<Rightarrow> session_change \<Rightarrow> val list option \<Rightarrow> bool" where
  "entry_start pk e start \<longleftrightarrow>
     (\<exists>s. row_in pk s \<and> (if sc_op e = OP_INSERT then start = None \<and> cap_rec pk e = key_only pk (fields_of s)
                          else start = Some s \<and> cap_rec pk e = fields_of s))"

lemma row_inD:
  assumes "row_in pk s"
  shows "length s = length pk" "row_ok s" "list_all plain_val s" "list_all is_key_val (row_key pk s)"
    "list_all sess_val_ok (fields_of s)" "fits (field_bytes (fields_of s))"
  using assms fits_fields [of "fields_of s" "[]"] by (auto simp: row_in_def row_key_def row_ok_def)

lemma pk_values_of_entry:
  assumes "cap_ok pk e" "row_in pk s" "st_ab_pk t = pk"
    and "cap_rec pk e = fields_of s \<or> cap_rec pk e = key_only pk (fields_of s)"
  shows "pk_values_of t (sc_record e) = Ok (Some (key_vals pk s))"
proof -
  note c = cap_okD [OF assms(1)] note r = row_inD [OF assms(2)]
  have "\<forall>i < length pk. pk ! i \<noteq> 0 \<longrightarrow> cap_rec pk e ! i = field_of_value (Some (s ! i))"
    using assms(4) r(1) by (auto simp: key_only_def)
  then show ?thesis
    unfolding pk_values_of_def assms(3) c(1) using c r
    by (intro pk_values_loop_fields [where us = "cap_rec pk e" and rest = "[]"]) simp_all
qed

lemma append_update_squash:
  assumes "cap_ok pk e" "row_in pk s" "cap_rec pk e = fields_of s" "row_in pk r" "row_key pk r = row_key pk s"
    and t: "st_ab_pk t = pk" "st_n_col t = length pk"
  shows "append_update t False e r = Ok (map_option render_change (squash (sc_indirect e) pk (fields_of s) (fields_of r)))"
proof -
  note c = cap_okD [OF assms(1)] note rs = row_inD [OF assms(2)] note rr = row_inD [OF assms(4)]
  define ch where "ch = map2 (\<lambda>v w. v \<noteq> w) (fields_of s) (fields_of r)"
  have rec: "sc_record e = field_bytes (fields_of s)" using c(1) assms(3) by simp
  have keys: "\<forall>i < length pk. pk ! i \<noteq> 0 \<longrightarrow> fields_of s ! i = fields_of r ! i"
    using assms(5) rs rr key_of_eq_iff [of "fields_of s" pk "fields_of r"] by (auto simp: row_key_def)
  have st: "field_starts (length pk) (sc_record e) 0 = Ok (offsets 0 (fields_of s))"
    using field_starts_fields [of "sc_record e" 0 "fields_of s" "[]"] rec rs by simp
  have cf: "changed_flags (sc_record e) (offsets 0 (fields_of s)) 0 r = Ok ch"
    using changed_flags_fields [of "sc_record e" 0 s "[]" r 0] rec rs rr by (simp add: ch_def)
  have oh: "old_half pk (sc_record e) 0 (zip (offsets 0 (fields_of s)) ch) = Ok (field_bytes (squash_old pk (fields_of s) (fields_of r)))"
    using old_half_fields [of "sc_record e" 0 "fields_of s" "[]" 0 pk "fields_of r"] rec rs rr by (simp add: ch_def)
  have nh: "new_half False pk r 0 ch = Ok (field_bytes (squash_new pk (fields_of s) (fields_of r)))"
    using new_half_fields [of 0 "fields_of s" pk r] rs rr keys by (simp add: ch_def)
  have any: "list_ex id ch \<longleftrightarrow> differs pk (fields_of s) (fields_of r)"
    using keys rs(1) rr(1) by (auto simp: ch_def list_ex_length squash_nth)
  show ?thesis
    using st cf oh nh any t by (simp add: append_update_def squash_def render_change_def ind_byte_def field_bytes_def)
qed

lemma emit_entry_change:
  assumes ok: "cap_ok pk e" and start: "entry_start pk e start" and t: "st_ab_pk t = pk" "st_n_col t = length pk"
    and cur: "\<And>r. current = Some r \<Longrightarrow> row_in pk r \<and> row_key pk r = cap_key pk e"
  shows "emit_entry t False e current = Ok (map_option render_change (gen_change pk e current))"
proof -
  from start obtain s where s: "row_in pk s" "sc_op e \<noteq> OP_INSERT \<Longrightarrow> cap_rec pk e = fields_of s"
    unfolding entry_start_def by (auto split: if_splits)
  note c = cap_okD [OF ok]
  show ?thesis
  proof (cases current)
    case None
    then show ?thesis
      using c by (simp add: emit_entry_def gen_change_def append_delete_def render_change_def ind_byte_def)
  next
    case (Some r)
    then have r: "row_in pk r" "row_key pk r = cap_key pk e" using cur by blast+
    have up: "append_update t False e r = Ok (map_option render_change (gen_change pk e current))" if n: "sc_op e \<noteq> OP_INSERT"
    proof -
      have "row_key pk r = row_key pk s" using r s(2) [OF n] by (simp add: cap_key_def row_key_def)
      then show ?thesis
        using append_update_squash [OF ok s(1) s(2) [OF n] r(1) _ t] Some n s(2) [OF n] by (simp add: gen_change_def)
    qed
    have "length r = length pk" using row_inD(1) [OF r(1)] .
    with up show ?thesis
      using Some t by (simp add: emit_entry_def gen_change_def render_change_def ind_byte_def concat_append_values)
  qed
qed

text \<open>The abstract effect: from the row at the start to the current row.\<close>

lemma gen_change_act:
  assumes "entry_start pk e start" and cur: "\<And>r. current = Some r \<Longrightarrow> row_in pk r \<and> row_key pk r = cap_key pk e"
  shows "case gen_change pk e current of
      None \<Rightarrow> map_option fields_of current = map_option fields_of start
    | Some c \<Rightarrow> act c (map_option fields_of start) = Some (map_option fields_of current)"
proof -
  from assms(1) obtain s where s: "row_in pk s"
      "if sc_op e = OP_INSERT then start = None \<and> cap_rec pk e = key_only pk (fields_of s) else start = Some s \<and> cap_rec pk e = fields_of s"
    unfolding entry_start_def by blast
  show ?thesis
  proof (cases "sc_op e = OP_INSERT \<or> current = None")
    case True
    with s show ?thesis by (auto simp: gen_change_def split: option.splits if_splits)
  next
    case False
    then obtain r where r: "current = Some r" "row_in pk r" "row_key pk r = cap_key pk e" using cur by blast
    have st: "start = Some s" "cap_rec pk e = fields_of s" using s False by auto
    have l: "length s = length pk" "length r = length pk" using row_inD(1) s(1) r(2) by blast+
    have "\<forall>i < length pk. pk ! i \<noteq> 0 \<longrightarrow> fields_of r ! i = fields_of s ! i"
      using r(3) st l key_of_eq_iff [of "fields_of r" pk "fields_of s"] by (auto simp: row_key_def cap_key_def)
    then have "case squash (sc_indirect e) pk (fields_of s) (fields_of r) of None \<Rightarrow> fields_of r = fields_of s
        | Some c \<Rightarrow> act c (Some (fields_of s)) = Some (Some (fields_of r))"
      using l by (intro squash_act) simp_all
    then show ?thesis using r(1) st False by (simp add: gen_change_def split: option.splits)
  qed
qed

end
