(* ===== verification/Session_Faithful.thy ===== *)
theory Session_Faithful
  imports Session_Resolve
begin

text \<open>
  The capture and the generation together: a session that watched a database change from one
  state to another produces a changeset that leads from the first state to the second.
\<close>

subsection \<open>Row events and what they do to the database\<close>

text \<open>
  The pre-update hook reports a row event with the table's schema, the rowid, the rows and the
  trigger depth. A database maps a table (its name in lower case) and a key to a row.
\<close>

datatype 'x row_event =
    Row_Insert "'x schema_table" i64 "val list" nat
  | Row_Delete "'x schema_table" i64 "val list" nat
  | Row_Update "'x schema_table" i64 "val list" "val list" nat

type_synonym vdb = "bytes \<times> sess_val list \<Rightarrow> val list option"

fun capture_event :: "('x \<Rightarrow> val option) \<Rightarrow> session_core \<Rightarrow> 'x row_event \<Rightarrow> session_core outcome" where
  "capture_event eval c (Row_Insert tbl rowid new depth) = session_record eval c Pre_Insert tbl rowid None (Some new) depth"
| "capture_event eval c (Row_Delete tbl rowid old depth) = session_record eval c Pre_Delete tbl rowid (Some old) None depth"
| "capture_event eval c (Row_Update tbl rowid old new depth) =
     session_record eval c Pre_Update tbl rowid (Some old) (Some new) depth"

definition tab_lname :: "'x schema_table \<Rightarrow> bytes" where
  "tab_lname tbl = map ascii_lower (tab_name tbl)"

definition tab_pk :: "'x schema_table \<Rightarrow> bytes" where
  "tab_pk tbl = map col_pk_seq (tab_columns tbl)"

definition tab_loc :: "'x schema_table \<Rightarrow> val list \<Rightarrow> bytes \<times> sess_val list" where
  "tab_loc tbl s = (tab_lname tbl, row_key (tab_pk tbl) s)"

definition enter :: "'x schema_table \<Rightarrow> val list \<Rightarrow> vdb \<Rightarrow> vdb option" where
  "enter tbl s D = (if D (tab_loc tbl s) = None then Some (D(tab_loc tbl s \<mapsto> s)) else None)"

definition leave :: "'x schema_table \<Rightarrow> val list \<Rightarrow> vdb \<Rightarrow> vdb option" where
  "leave tbl s D = (if D (tab_loc tbl s) = Some s then Some (D(tab_loc tbl s := None)) else None)"

fun db_event :: "'x row_event \<Rightarrow> vdb \<Rightarrow> vdb option" where
  "db_event (Row_Insert tbl _ new _) D = enter tbl new D"
| "db_event (Row_Delete tbl _ old _) D = leave tbl old D"
| "db_event (Row_Update tbl _ old new _) D = Option.bind (leave tbl old D) (enter tbl new)"

text \<open>The rows an event touches, by table and key.\<close>

fun touched :: "'x row_event \<Rightarrow> (bytes \<times> sess_val list) set" where
  "touched (Row_Insert tbl _ new _) = {tab_loc tbl new}"
| "touched (Row_Delete tbl _ old _) = {tab_loc tbl old}"
| "touched (Row_Update tbl _ old new _) = {tab_loc tbl old, tab_loc tbl new}"

fun db_events :: "'x row_event list \<Rightarrow> vdb \<Rightarrow> vdb option" where
  "db_events [] D = Some D"
| "db_events (e # es) D = Option.bind (db_event e D) (db_events es)"

text \<open>
  The tables a session tracks by default: a declared primary key, and not \<^verbatim>\<open>sqlite_stat1\<close>, whose
  NULL index names are captured specially. The name is that of a legal changeset header and
  the key columns come first: the resolution SELECT numbers its parameters by column while
  the key values are bound without gaps.
\<close>

definition leading :: "bytes \<Rightarrow> bool" where
  "leading pk \<longleftrightarrow> list_all (\<lambda>p. p = 0) (dropWhile (\<lambda>p. p \<noteq> 0) pk)"

definition trackable :: "'x schema_table \<Rightarrow> bool" where
  "trackable tbl \<longleftrightarrow> list_ex col_primary_key (tab_columns tbl) \<and> name_ok (tab_name tbl) \<and> leading (tab_pk tbl)
     \<and> \<not> eq_ignore_ascii_case (tab_name tbl) (lit ''sqlite_stat1'')"

fun event_ok :: "(bytes \<Rightarrow> 'x schema_table option) \<Rightarrow> 'x row_event \<Rightarrow> bool" where
  "event_ok cat (Row_Insert tbl _ new _) = (cat (tab_lname tbl) = Some tbl \<and> trackable tbl \<and> row_in (tab_pk tbl) new)"
| "event_ok cat (Row_Delete tbl _ old _) = (cat (tab_lname tbl) = Some tbl \<and> trackable tbl \<and> row_in (tab_pk tbl) old)"
| "event_ok cat (Row_Update tbl _ old new _) =
     (cat (tab_lname tbl) = Some tbl \<and> trackable tbl \<and> row_in (tab_pk tbl) old \<and> row_in (tab_pk tbl) new)"

subsection \<open>One table\<close>

definition keyed_rows :: "bytes \<Rightarrow> (sess_val list \<Rightarrow> val list option) \<Rightarrow> bool" where
  "keyed_rows pk D \<longleftrightarrow> (\<forall>k s. D k = Some s \<longrightarrow> row_in pk s \<and> row_key pk s = k)"

definition since ::
    "bytes \<Rightarrow> (sess_val list \<Rightarrow> session_change option) \<Rightarrow> (sess_val list \<Rightarrow> val list option) \<Rightarrow> (sess_val list \<Rightarrow> val list option) \<Rightarrow> bool" where
  "since pk H D0 D \<longleftrightarrow> keyed_rows pk D
     \<and> (\<forall>k. case H k of None \<Rightarrow> D k = D0 k | Some e \<Rightarrow> entry_start pk e (D0 k))"

lemma entry_start_indirect: "entry_start pk (e\<lparr>sc_indirect := b\<rparr>) = entry_start pk e"
  by (rule ext) (simp add: entry_start_def cap_rec_def)

lemma since_add:
  assumes "since pk H D0 D" "row_in pk s" "H (row_key pk s) = None \<Longrightarrow> entry_start pk e (D (row_key pk s))"
    and new: "new = None \<or> new = Some s"
  shows "since pk (cap_add H (row_key pk s) e direct) D0 (D(row_key pk s := new))"
proof -
  have "keyed_rows pk (D(row_key pk s := new))"
    using assms(1,2) new by (auto simp: since_def keyed_rows_def)
  moreover have "case cap_add H (row_key pk s) e direct k of None \<Rightarrow> (D(row_key pk s := new)) k = D0 k
      | Some e \<Rightarrow> entry_start pk e (D0 k)" for k
    using assms(1) [unfolded since_def, THEN conjunct2, rule_format, of k] assms(3)
    by (cases "k = row_key pk s") (auto simp: cap_add_def entry_start_indirect split: option.splits)
  ultimately show ?thesis by (simp add: since_def)
qed

lemma entry_start_event:
  assumes "row_in pk s"
  shows "sop \<noteq> OP_INSERT \<Longrightarrow> entry_start pk (event_entry pk sop ind s) (Some s)"
    "entry_start pk (event_entry pk OP_INSERT ind s) None"
proof -
  have c: "cap_rec pk (event_entry pk sp ind s) = event_fields pk sp s" for sp
    using row_inD [OF assms] by (intro event_entry_key(3)) (simp_all add: row_key_def)
  have o: "sc_op (event_entry pk sp ind s) = sp" for sp by (simp add: event_entry_def)
  show "sop \<noteq> OP_INSERT \<Longrightarrow> entry_start pk (event_entry pk sop ind s) (Some s)"
    "entry_start pk (event_entry pk OP_INSERT ind s) None"
    using assms by (auto simp: entry_start_def c o event_fields_def)
qed

text \<open>
  Both halves of an event on an initialized table: \<open>st_tracks\<close> is kept. Every captured key is among
  those of the events, \<open>K\<close>.
\<close>

definition st_lname :: "session_table \<Rightarrow> bytes" where
  "st_lname t = map ascii_lower (st_name t)"

definition st_tracks ::
    "'x schema_table \<Rightarrow> nat \<Rightarrow> (bytes \<times> sess_val list) set \<Rightarrow> session_table \<Rightarrow> (sess_val list \<Rightarrow> val list option) \<Rightarrow> (sess_val list \<Rightarrow> val list option) \<Rightarrow> bool" where
  "st_tracks tbl n K t D0 D \<longleftrightarrow> st_initialized t \<and> \<not> st_untrackable t \<and> st_ab_pk t = tab_pk tbl \<and> name_ok (st_name t)
     \<and> st_az_col t = map col_name (tab_columns tbl) \<and> length (st_entries t) \<le> n
     \<and> (\<exists>H. cap_inv t H \<and> since (tab_pk tbl) H D0 D \<and> (\<forall>k \<in> dom H. (st_lname t, k) \<in> K))"

lemma record_half:
  assumes tr: "st_tracks tbl n K t D0 D" and n: "n < 2 ^ 30" and s: "row_in (tab_pk tbl) s"
    and side: "event_side sop b_new_key old new s"
    and start: "entry_start (tab_pk tbl) (event_entry (tab_pk tbl) sop (s_ind \<or> 0 < depth) s) (D (row_key (tab_pk tbl) s))"
    and v: "v = None \<or> v = Some s" and K: "(st_lname t, row_key (tab_pk tbl) s) \<in> K"
  shows "\<exists>t'. record_one_table s_ind t sop rowid old new depth b_new_key = Ok t' \<and> st_name t' = st_name t
    \<and> st_tracks tbl (Suc n) K t' D0 (D(row_key (tab_pk tbl) s := v))"
proof -
  obtain H where H: "cap_inv t H" "since (tab_pk tbl) H D0 D" "\<forall>k \<in> dom H. (st_lname t, k) \<in> K"
    using tr by (auto simp: st_tracks_def)
  have pk: "st_ab_pk t = tab_pk tbl" using tr by (simp add: st_tracks_def)
  note r = row_inD [OF s]
  have sz: "length (st_entries t) < 2 ^ 30" using tr n by (simp add: st_tracks_def)
  obtain t' where t': "record_one_table s_ind t sop rowid old new depth b_new_key = Ok t'"
      "cap_inv t' (cap_add H (row_key (tab_pk tbl) s) (event_entry (tab_pk tbl) sop (s_ind \<or> 0 < depth) s) (depth = 0 \<and> \<not> s_ind))"
      "same_model t t'" "length (st_entries t') \<le> Suc (length (st_entries t))" "st_az_col t' = st_az_col t"
    using record_one_table_spec [OF H(1) sz side, where s_ind = s_ind and depth = depth and rowid = rowid] pk r
    unfolding row_key_def same_model_def by auto
  have "since (tab_pk tbl) (cap_add H (row_key (tab_pk tbl) s) (event_entry (tab_pk tbl) sop (s_ind \<or> 0 < depth) s) (depth = 0 \<and> \<not> s_ind))
      D0 (D(row_key (tab_pk tbl) s := v))"
    using since_add [OF H(2) s _ v] start by blast
  moreover have "st_lname t' = st_lname t" using t'(3) by (simp add: st_lname_def same_model_def)
  moreover have "\<forall>k \<in> dom (cap_add H (row_key (tab_pk tbl) s) (event_entry (tab_pk tbl) sop (s_ind \<or> 0 < depth) s) (depth = 0 \<and> \<not> s_ind)).
      (st_lname t, k) \<in> K"
    using H(3) K by (auto simp: cap_add_def split: option.splits if_splits)
  ultimately show ?thesis using t' tr by (auto simp: st_tracks_def same_model_def)
qed


subsection \<open>The whole session\<close>

definition core_tracks ::
    "(bytes \<Rightarrow> 'x schema_table option) \<Rightarrow> nat \<Rightarrow> (bytes \<times> sess_val list) set \<Rightarrow> session_core \<Rightarrow> vdb \<Rightarrow> vdb \<Rightarrow> bool" where
  "core_tracks cat n K c D0 D \<longleftrightarrow>
     s_enable c \<and> s_rc c = None \<and> eq_ignore_ascii_case (s_z_db c) (lit ''main'') \<and> s_auto_attach c \<and> s_filter c = None
     \<and> \<not> s_implicit_pk c \<and> distinct (map st_lname (s_tables c))
     \<and> (\<forall>t \<in> set (s_tables c). \<exists>tbl. cat (st_lname t) = Some tbl \<and> trackable tbl
          \<and> st_tracks tbl n K t (\<lambda>k. D0 (st_lname t, k)) (\<lambda>k. D (st_lname t, k)))
     \<and> (\<forall>nm k. nm \<notin> st_lname ` set (s_tables c) \<longrightarrow> D (nm, k) = D0 (nm, k))"

definition rows_in_catalog :: "(bytes \<Rightarrow> 'x schema_table option) \<Rightarrow> vdb \<Rightarrow> bool" where
  "rows_in_catalog cat D \<longleftrightarrow> (\<forall>nm tbl. cat nm = Some tbl \<longrightarrow> trackable tbl \<longrightarrow> keyed_rows (tab_pk tbl) (\<lambda>k. D (nm, k)))"

lemma st_tracks_mono: "st_tracks tbl n K t D0 D \<Longrightarrow> n \<le> m \<Longrightarrow> st_tracks tbl m K t D0 D"
  by (auto simp: st_tracks_def)

lemma position_map: "position (\<lambda>x. P (f x)) xs = position P (map f xs)"
  by (simp add: position_def takeWhile_map o_def)

lemma find_table_idx_lname: "find_table_idx c name = position (\<lambda>t. st_lname t = map ascii_lower name) (s_tables c)"
  by (simp add: find_table_idx_def eq_ignore_ascii_case_def st_lname_def)

lemma find_table_idx_cong: "map st_lname (s_tables c') = map st_lname (s_tables c) \<Longrightarrow> find_table_idx c' name = find_table_idx c name"
  by (simp add: find_table_idx_lname position_map [where f = st_lname and P = "\<lambda>y. y = map ascii_lower name"])

lemma init_tracks:
  assumes "trackable tbl" "keyed_rows (tab_pk tbl) D"
  shows "st_tracks tbl n K (init_table_model (session_table_new (tab_name tbl)) tbl False) D D"
proof -
  have a: "\<not> eq_ignore_ascii_case (tab_name tbl) (lit ''sqlite_stat1'')" "list_ex col_primary_key (tab_columns tbl)" "name_ok (tab_name tbl)"
    using assms(1) by (simp_all add: trackable_def)
  define t where "t = init_table_model (session_table_new (tab_name tbl)) tbl False"
  have t: "st_initialized t" "\<not> st_untrackable t" "st_ab_pk t = tab_pk tbl" "st_az_col t = map col_name (tab_columns tbl)"
      "st_name t = tab_name tbl" "st_entries t = []" "st_buckets t = []" "st_free_ids t = []" "st_n_entry t = 0"
      "\<not> st_b_rowid t" "\<not> st_b_stat1 t" "st_n_col t = length (tab_columns tbl)"
    using a by (simp_all add: t_def init_table_model_def session_table_new_def Let_def tab_pk_def)
  have "cap_inv t (\<lambda>_. None)"
    using t by (intro cap_inv_empty) (simp_all add: tab_pk_def)
  moreover have "since (tab_pk tbl) (\<lambda>_. None) D D" using assms(2) by (simp add: since_def)
  ultimately show ?thesis using t a unfolding t_def [symmetric] by (auto simp: st_tracks_def)
qed

text \<open>One half-event on the session: the state after it tracks the database after it.\<close>

lemma record_one_half:
  assumes tr: "core_tracks cat n K c D0 D" and n: "n < 2 ^ 30" and tbl: "cat (tab_lname tbl) = Some tbl"
    and idx: "find_table_idx c (tab_name tbl) = Some i" and s: "row_in (tab_pk tbl) s"
    and side: "event_side sop b_new_key old new s"
    and start: "\<And>ind. entry_start (tab_pk tbl) (event_entry (tab_pk tbl) sop ind s) (D (tab_loc tbl s))"
    and v: "v = None \<or> v = Some s" and K: "tab_loc tbl s \<in> K"
  shows "\<exists>c'. record_one c sop tbl rowid old new depth b_new_key = Ok c' \<and> core_tracks cat (Suc n) K c' D0 (D(tab_loc tbl s := v))
    \<and> find_table_idx c' (tab_name tbl) = Some i"
proof -
  define t where "t = s_tables c ! i"
  have i: "i < length (s_tables c)" and nm: "st_lname t = tab_lname tbl"
    using position_Some [OF idx [unfolded find_table_idx_lname]] by (simp_all add: t_def tab_lname_def)
  then have t_in: "t \<in> set (s_tables c)" by (simp add: t_def)
  then have tt: "st_tracks tbl n K t (\<lambda>k. D0 (st_lname t, k)) (\<lambda>k. D (st_lname t, k))"
    using tr tbl nm by (auto simp: core_tracks_def)
  have lk: "D (tab_loc tbl s) = D (st_lname t, row_key (tab_pk tbl) s)" using nm by (simp add: tab_loc_def)
  obtain t' where t': "record_one_table (s_indirect c) t sop rowid old new depth b_new_key = Ok t'" "st_name t' = st_name t"
      "st_tracks tbl (Suc n) K t' (\<lambda>k. D0 (st_lname t, k)) ((\<lambda>k. D (st_lname t, k))(row_key (tab_pk tbl) s := v))"
    using record_half [OF tt n s side start [unfolded lk] v K [unfolded tab_loc_def nm [symmetric]]] by blast
  define c' where "c' = c\<lparr>s_tables := (s_tables c)[i := t']\<rparr>"
  have ln: "st_lname t' = st_lname t" using t'(2) by (simp add: st_lname_def)
  have names: "map st_lname (s_tables c') = map st_lname (s_tables c)"
    using ln i by (simp add: c'_def map_update t_def list_update_same_conv)
  have setn: "st_lname ` set (s_tables c') = st_lname ` set (s_tables c)" using names by (metis set_map)
  have one: "\<exists>tb. cat (st_lname x) = Some tb \<and> trackable tb \<and> st_tracks tb (Suc n) K x (\<lambda>k. D0 (st_lname x, k))
      (\<lambda>k. (D(tab_loc tbl s := v)) (st_lname x, k))" if "x \<in> set (s_tables c')" for x
  proof -
    from that obtain j where j: "j < length (s_tables c)" "x = (s_tables c)[i := t'] ! j"
      unfolding c'_def by (auto simp: in_set_conv_nth)
    show ?thesis
    proof (cases "j = i")
      case True
      then have "(\<lambda>k. (D(tab_loc tbl s := v)) (st_lname x, k)) = (\<lambda>k. D (st_lname t, k))(row_key (tab_pk tbl) s := v)"
        using j ln nm by (auto simp: tab_loc_def)
      moreover have "trackable tbl" using tr t_in tbl nm by (auto simp: core_tracks_def)
      ultimately show ?thesis using t'(3) True j ln nm tbl by auto
    next
      case False
      then have x: "x = s_tables c ! j" "x \<in> set (s_tables c)" using j by auto
      have "st_lname x \<noteq> st_lname t"
        using tr False j i x(1) unfolding core_tracks_def t_def by (metis length_map nth_eq_iff_index_eq nth_map)
      then have "(\<lambda>k. (D(tab_loc tbl s := v)) (st_lname x, k)) = (\<lambda>k. D (st_lname x, k))"
        using nm by (auto simp: tab_loc_def)
      moreover obtain tb where "cat (st_lname x) = Some tb" "trackable tb" "st_tracks tb n K x (\<lambda>k. D0 (st_lname x, k)) (\<lambda>k. D (st_lname x, k))"
        using tr x(2) by (auto simp: core_tracks_def)
      ultimately show ?thesis by (auto intro!: exI [of _ tb] st_tracks_mono [of tb n K x])
    qed
  qed
  have "core_tracks cat (Suc n) K c' D0 (D(tab_loc tbl s := v))"
    using tr one names setn imageI [OF t_in, of st_lname] nm unfolding core_tracks_def by (auto simp: c'_def tab_loc_def)
  moreover have "record_one c sop tbl rowid old new depth b_new_key = Ok c'"
    using idx t'(1) by (simp add: record_one_def c'_def t_def)
  ultimately show ?thesis using find_table_idx_cong [OF names] idx by auto
qed

lemma refresh_tracked:
  assumes "st_tracks tbl n K t D0 D" "length (tab_columns tbl) = got"
  shows "refresh_model eval b t tbl got = (t, None)" "\<not> st_untrackable t"
proof -
  obtain H where "cap_inv t H" using assms(1) by (auto simp: st_tracks_def)
  then have "st_n_col t = got" "\<not> st_b_rowid t" using cap_invD(6,8) assms by (auto simp: st_tracks_def tab_pk_def)
  then show "refresh_model eval b t tbl got = (t, None)" "\<not> st_untrackable t"
    using assms(1) by (simp_all add: refresh_model_def st_tracks_def)
qed

text \<open>The part of \<^verbatim>\<open>record\<close> before the capture finds the table or attaches it.\<close>

lemma session_record_attached:
  assumes tr: "core_tracks cat n K c D0 D" and tbl: "cat (tab_lname tbl) = Some tbl" "trackable tbl" and rows: "rows_in_catalog cat D0"
    and got: "length (case (if opn = Pre_Insert then new else old) of Some v \<Rightarrow> v | None \<Rightarrow> []) = length (tab_columns tbl)"
  shows "\<exists>c2 i. core_tracks cat n K c2 D0 D \<and> find_table_idx c2 (tab_name tbl) = Some i
    \<and> session_record eval c opn tbl rowid old new depth = (case opn of
          Pre_Update \<Rightarrow> bind_outcome (record_one c2 OP_UPDATE tbl rowid old new depth False) (\<lambda>c3.
            record_one c3 OP_INSERT tbl rowid old new depth True)
        | Pre_Insert \<Rightarrow> record_one c2 OP_INSERT tbl rowid old new depth False
        | Pre_Delete \<Rightarrow> record_one c2 OP_DELETE tbl rowid old new depth False)"
proof (cases "find_table_idx c (tab_name tbl)")
  case (Some i)
  define t where "t = s_tables c ! i"
  have i: "i < length (s_tables c)" and nm: "st_lname t = tab_lname tbl"
    using position_Some [OF Some [unfolded find_table_idx_lname]] by (simp_all add: t_def tab_lname_def)
  then have "t \<in> set (s_tables c)" by (simp add: t_def)
  then have tt: "st_tracks tbl n K t (\<lambda>k. D0 (st_lname t, k)) (\<lambda>k. D (st_lname t, k))"
    using tr tbl nm by (auto simp: core_tracks_def)
  note r = refresh_tracked [OF tt got [symmetric]]
  have "c\<lparr>s_tables := (s_tables c)[i := t]\<rparr> = c" by (simp add: t_def)
  then show ?thesis
    using tr Some r unfolding session_record_def t_def
    by (intro exI [of _ c] exI [of _ i]) (simp add: core_tracks_def find_or_auto_attach_def split: preupdate_op.splits)
next
  case None
  define t where "t = init_table_model (session_table_new (tab_name tbl)) tbl False"
  define c2 where "c2 = c\<lparr>s_tables := s_tables c @ [t]\<rparr>"
  have nm: "st_name t = tab_name tbl" by (simp add: t_def init_table_model_def session_table_new_def Let_def)
  then have ln: "st_lname t = tab_lname tbl" by (simp add: st_lname_def tab_lname_def)
  have fresh: "tab_lname tbl \<notin> st_lname ` set (s_tables c)"
    using None by (auto simp: find_table_idx_lname position_None list_ex_iff tab_lname_def)
  have same: "D (tab_lname tbl, k) = D0 (tab_lname tbl, k)" for k using tr fresh by (simp add: core_tracks_def)
  have tt: "st_tracks tbl n K t (\<lambda>k. D0 (tab_lname tbl, k)) (\<lambda>k. D (tab_lname tbl, k))"
    unfolding same t_def using rows tbl by (intro init_tracks) (auto simp: rows_in_catalog_def)
  have tr2: "core_tracks cat n K c2 D0 D"
    using tr tt ln fresh tbl by (auto simp: core_tracks_def c2_def)
  have f: "find_table_idx c2 (tab_name tbl) = Some (length (s_tables c))"
    using None ln unfolding find_table_idx_lname position_None
    by (simp add: c2_def tab_lname_def)
  have "st_initialized (session_table_new (tab_name tbl)) = False" by (simp add: session_table_new_def)
  then have "refresh_model eval (s_implicit_pk c) (session_table_new (tab_name tbl)) tbl got' = (t, None)" for got'
    using tr by (simp add: refresh_model_def t_def core_tracks_def)
  moreover have "\<not> st_untrackable t" using tt by (simp add: st_tracks_def)
  ultimately have "session_record eval c opn tbl rowid old new depth = (case opn of
          Pre_Update \<Rightarrow> bind_outcome (record_one c2 OP_UPDATE tbl rowid old new depth False) (\<lambda>c3.
            record_one c3 OP_INSERT tbl rowid old new depth True)
        | Pre_Insert \<Rightarrow> record_one c2 OP_INSERT tbl rowid old new depth False
        | Pre_Delete \<Rightarrow> record_one c2 OP_DELETE tbl rowid old new depth False)"
    using tr None unfolding session_record_def
    by (simp add: core_tracks_def find_or_auto_attach_def c2_def split: preupdate_op.splits)
  with tr2 f show ?thesis by blast
qed

lemma record_enter:
  assumes "core_tracks cat n K c D0 D" "n < 2 ^ 30" "cat (tab_lname tbl) = Some tbl" "find_table_idx c (tab_name tbl) = Some i"
    "row_in (tab_pk tbl) s" "enter tbl s D = Some D'" "tab_loc tbl s \<in> K"
  shows "\<exists>c'. record_one c OP_INSERT tbl rowid old (Some s) depth b_new_key = Ok c' \<and> core_tracks cat (Suc n) K c' D0 D'
    \<and> find_table_idx c' (tab_name tbl) = Some i"
proof -
  have D': "D (tab_loc tbl s) = None" "D' = D(tab_loc tbl s \<mapsto> s)" using assms(6) by (auto simp: enter_def split: if_splits)
  have "event_side OP_INSERT b_new_key old (Some s) s" by (simp add: event_side_def)
  from record_one_half [OF assms(1-5) this] D' entry_start_event(2) [OF assms(5)] assms(7) show ?thesis by auto
qed

lemma record_leave:
  assumes "core_tracks cat n K c D0 D" "n < 2 ^ 30" "cat (tab_lname tbl) = Some tbl" "find_table_idx c (tab_name tbl) = Some i"
    "row_in (tab_pk tbl) s" "leave tbl s D = Some D'" "sop \<noteq> OP_INSERT" "tab_loc tbl s \<in> K"
  shows "\<exists>c'. record_one c sop tbl rowid (Some s) new depth False = Ok c' \<and> core_tracks cat (Suc n) K c' D0 D'
    \<and> find_table_idx c' (tab_name tbl) = Some i"
proof -
  have D': "D (tab_loc tbl s) = Some s" "D' = D(tab_loc tbl s := None)" using assms(6) by (auto simp: leave_def split: if_splits)
  have "event_side sop False (Some s) new s" using assms(7) by (simp add: event_side_def)
  from record_one_half [OF assms(1-5) this] D' entry_start_event(1) [OF assms(5,7)] assms(8) show ?thesis by auto
qed

lemma core_tracks_Suc: "core_tracks cat n K c D0 D \<Longrightarrow> core_tracks cat (Suc n) K c D0 D"
  unfolding core_tracks_def using st_tracks_mono [OF _ le_SucI [OF order_refl]] by blast

lemma capture_event_tracks:
  assumes tr: "core_tracks cat n K c D0 D" and n: "n + 2 \<le> 2 ^ 30" and ev: "event_ok cat e" and D': "db_event e D = Some D'"
    and rows: "rows_in_catalog cat D0" and K: "touched e \<subseteq> K"
  shows "\<exists>c'. capture_event eval c e = Ok c' \<and> core_tracks cat (n + 2) K c' D0 D'"
proof (cases e)
  case (Row_Insert tbl rowid new depth)
  then have e: "cat (tab_lname tbl) = Some tbl" "trackable tbl" "row_in (tab_pk tbl) new" "enter tbl new D = Some D'"
    using ev D' by simp_all
  from session_record_attached [OF tr e(1,2) rows, of Pre_Insert "Some new" None eval rowid depth] row_inD(1) [OF e(3)]
  obtain c2 i where c2: "core_tracks cat n K c2 D0 D" "find_table_idx c2 (tab_name tbl) = Some i"
      "capture_event eval c e = record_one c2 OP_INSERT tbl rowid None (Some new) depth False"
    using Row_Insert by (auto simp: tab_pk_def)
  from record_enter [OF c2(1) _ e(1) c2(2) e(3,4), of rowid None depth False] n c2(3) K Row_Insert
  show ?thesis by (auto intro: core_tracks_Suc)
next
  case (Row_Delete tbl rowid old depth)
  then have e: "cat (tab_lname tbl) = Some tbl" "trackable tbl" "row_in (tab_pk tbl) old" "leave tbl old D = Some D'"
    using ev D' by simp_all
  from session_record_attached [OF tr e(1,2) rows, of Pre_Delete None "Some old" eval rowid depth] row_inD(1) [OF e(3)]
  obtain c2 i where c2: "core_tracks cat n K c2 D0 D" "find_table_idx c2 (tab_name tbl) = Some i"
      "capture_event eval c e = record_one c2 OP_DELETE tbl rowid (Some old) None depth False"
    using Row_Delete by (auto simp: tab_pk_def)
  from record_leave [OF c2(1) _ e(1) c2(2) e(3,4), of OP_DELETE rowid None depth] n c2(3) K Row_Delete
  show ?thesis by (auto simp: op_defs intro: core_tracks_Suc)
next
  case (Row_Update tbl rowid old new depth)
  then obtain D1 where e: "cat (tab_lname tbl) = Some tbl" "trackable tbl" "row_in (tab_pk tbl) old" "row_in (tab_pk tbl) new"
      "leave tbl old D = Some D1" "enter tbl new D1 = Some D'"
    using ev D' by (auto simp: bind_eq_Some_conv)
  from session_record_attached [OF tr e(1,2) rows, of Pre_Update "Some new" "Some old" eval rowid depth] row_inD(1) [OF e(3)]
  obtain c2 i where c2: "core_tracks cat n K c2 D0 D" "find_table_idx c2 (tab_name tbl) = Some i"
      "capture_event eval c e = bind_outcome (record_one c2 OP_UPDATE tbl rowid (Some old) (Some new) depth False) (\<lambda>c3.
         record_one c3 OP_INSERT tbl rowid (Some old) (Some new) depth True)"
    using Row_Update by (auto simp: tab_pk_def)
  from record_leave [OF c2(1) _ e(1) c2(2) e(3,5), of OP_UPDATE rowid "Some new" depth] n K Row_Update
  obtain c3 where c3: "record_one c2 OP_UPDATE tbl rowid (Some old) (Some new) depth False = Ok c3"
      "core_tracks cat (Suc n) K c3 D0 D1" "find_table_idx c3 (tab_name tbl) = Some i" by (auto simp: op_defs)
  from record_enter [OF c3(2) _ e(1) c3(3) e(4,6), of rowid "Some old" depth True] n c3(1) c2(3) K Row_Update
  show ?thesis by auto
qed

lemma capture_events_track:
  "core_tracks cat n K c D0 D \<Longrightarrow> n + 2 * length es \<le> 2 ^ 30 \<Longrightarrow> list_all (event_ok cat) es \<Longrightarrow> db_events es D = Some D' \<Longrightarrow>
   rows_in_catalog cat D0 \<Longrightarrow> (\<And>e. e \<in> set es \<Longrightarrow> touched e \<subseteq> K) \<Longrightarrow>
   \<exists>c'. fold_outcome (capture_event eval) c es = Ok c' \<and> core_tracks cat (n + 2 * length es) K c' D0 D'"
proof (induction es arbitrary: n c D)
  case (Cons e es)
  from Cons.prems(4) obtain D1 where D1: "db_event e D = Some D1" "db_events es D1 = Some D'" by (auto simp: bind_eq_Some_conv)
  have ok: "event_ok cat e" "list_all (event_ok cat) es" and n: "n + 2 \<le> 2 ^ 30" using Cons.prems(2,3) by simp_all
  from capture_event_tracks [OF Cons.prems(1) n ok(1) D1(1) Cons.prems(5) Cons.prems(6) [of e]] obtain c1 where
    c1: "capture_event eval c e = Ok c1" "core_tracks cat (n + 2) K c1 D0 D1" by auto
  from Cons.IH [OF c1(2) _ ok(2) D1(2) Cons.prems(5,6)] Cons.prems(2) obtain c' where
    "fold_outcome (capture_event eval) c1 es = Ok c'" "core_tracks cat (n + 2 + 2 * length es) K c' D0 D'" by auto
  with c1(1) show ?case by (auto simp: add.assoc)
qed auto

end
