(* ===== verification/Value_Order.thy ===== *)
theory Value_Order
  imports Values
begin

text \<open>
  \<^verbatim>\<open>src/types/value.rs\<close>: the SQL order of values (\<^verbatim>\<open>impl Ord for Value\<close>), SQL equality and the
  hash that GROUP BY, DISTINCT and hash joins use. The order is total on all values, NaN
  included, and equality and hash agree with it.
\<close>

subsection \<open>The code\<close>

text \<open>The literals \<^verbatim>\<open>-9223372036854775808.0\<close> and \<^verbatim>\<open>9223372036854775808.0\<close>.\<close>

definition f64_min_i64 :: f64 where
  "f64_min_i64 = 0xC3E0000000000000"

definition f64_two_63 :: f64 where
  "f64_two_63 = 0x43E0000000000000"

definition int_float_compare :: "i64 \<Rightarrow> f64 \<Rightarrow> ordering" where
  "int_float_compare i r =
     (if f64_less r f64_min_i64 then Greater
      else if f64_less f64_two_63 r \<or> f64_eq r f64_two_63 then Less
      else let c = cmp_of (sint i) (sint (f64_to_i64 r)) in
        if c = Equal
        then let s = i64_to_f64 i in if f64_less s r then Less else if f64_less r s then Greater else Equal
        else c)"

fun num_class :: "val \<Rightarrow> nat" where
  "num_class (Integer _) = 1"
| "num_class (Real f) = (if f64_is_nan f then 2 else 1)"
| "num_class _ = 0"

fun value_cmp :: "val \<Rightarrow> val \<Rightarrow> ordering" where
  "value_cmp Null Null = Equal"
| "value_cmp Null _ = Less"
| "value_cmp _ Null = Greater"
| "value_cmp (Integer a) (Integer b) = cmp_of (sint a) (sint b)"
| "value_cmp (Integer a) (Real b) =
     and_then (cmp_of (num_class (Integer a)) (num_class (Real b))) (int_float_compare a b)"
| "value_cmp (Real a) (Integer b) =
     and_then (cmp_of (num_class (Real a)) (num_class (Integer b))) (reverse (int_float_compare b a))"
| "value_cmp (Real a) (Real b) =
     and_then (cmp_of (num_class (Real a)) (num_class (Real b)))
       (case f64_partial_cmp a b of None \<Rightarrow> Equal | Some c \<Rightarrow> c)"
| "value_cmp (Integer _) _ = Less"
| "value_cmp (Real _) _ = Less"
| "value_cmp (Txt a) (Txt b) = cmp_list (as_bytes a) (as_bytes b)"
| "value_cmp (Txt _) (Blob _) = Less"
| "value_cmp (Txt _) _ = Greater"
| "value_cmp (Blob a) (Blob b) = cmp_list a b"
| "value_cmp (Blob _) _ = Greater"

fun values_sql_equal :: "val \<Rightarrow> val \<Rightarrow> bool" where
  "values_sql_equal Null Null = True"
| "values_sql_equal (Integer x) (Integer y) = (x = y)"
| "values_sql_equal (Integer x) (Real y) = (\<not> f64_is_nan y \<and> int_float_compare x y = Equal)"
| "values_sql_equal (Real y) (Integer x) = (\<not> f64_is_nan y \<and> int_float_compare x y = Equal)"
| "values_sql_equal (Real x) (Real y) = f64_eq x y"
| "values_sql_equal (Txt x) (Txt y) = (as_bytes x = as_bytes y)"
| "values_sql_equal (Blob x) (Blob y) = (x = y)"
| "values_sql_equal _ _ = False"

text \<open>The hash of a value is the sequence of writes it makes to the hasher.\<close>

datatype hash_write = WriteU8 byte | WriteI64 i64 | WriteU64 u64 | WriteUsize nat | WriteBytes bytes

fun hash_value_sql :: "val \<Rightarrow> hash_write list" where
  "hash_value_sql Null = [WriteU8 0]"
| "hash_value_sql (Integer i) = [WriteU8 1, WriteI64 i]"
| "hash_value_sql (Real f) =
     (if f64_is_finite f \<and> f64_is_integral f \<and> \<not> f64_less f f64_min_i64 \<and> f64_less f f64_two_63
      then [WriteU8 1, WriteI64 (f64_to_i64 f)]
      else [WriteU8 2, WriteU64 f])"
| "hash_value_sql (Txt s) = [WriteU8 3, WriteBytes (as_str s), WriteU8 0xff]"
| "hash_value_sql (Blob b) = [WriteU8 4, WriteUsize (length b), WriteBytes b]"

fun group_key_loop :: "val list \<Rightarrow> val list \<Rightarrow> bool" where
  "group_key_loop (x # xs) (y # ys) = (if \<not> values_sql_equal x y then False else group_key_loop xs ys)"
| "group_key_loop _ _ = True"

definition group_key_eq :: "val list \<Rightarrow> val list \<Rightarrow> bool" where
  "group_key_eq a b = (if length a \<noteq> length b then False else group_key_loop a b)"

definition group_key_hash :: "val list \<Rightarrow> hash_write list" where
  "group_key_hash vs = concat (map hash_value_sql vs)"

subsection \<open>Comparing an integer with a number\<close>

abbreviation int_scaled :: "i64 \<Rightarrow> int" where
  "int_scaled i \<equiv> sint i * int one_scaled"

lemma f64_eq_scaled:
  assumes "\<not> f64_is_nan a" "\<not> f64_is_nan b"
  shows "f64_eq a b \<longleftrightarrow> f64_scaled a = f64_scaled b"
proof
  assume "f64_eq a b"
  then show "f64_scaled a = f64_scaled b" by (auto simp: f64_eq_def f64_scaled_mag f64_is_zero_bits)
next
  assume s: "f64_scaled a = f64_scaled b"
  show "f64_eq a b"
  proof (cases "f64_negative a = f64_negative b")
    case True
    then have "f64_bits a = f64_bits b" using s by (auto simp: f64_scaled_mag mag_eq_iff split: if_splits)
    then show ?thesis using assms True f64_eqI by (simp add: f64_eq_def)
  next
    case False
    then have "mag (f64_bits a) = mag 0" "mag (f64_bits b) = mag 0" using s by (auto simp: f64_scaled_mag split: if_splits)
    then show ?thesis using assms by (simp only: mag_eq_iff f64_eq_def f64_is_zero_bits) simp
  qed
qed

lemma two_63_mag: "mag (1085 * 2 ^ 52 + 2 ^ 52) = 2 ^ 63 * one_scaled"
  using mag_grid [of "2 ^ 52" 1085] power_split [of 52 1085 1137] power_split [of 63 1074 1137] by (simp add: one_scaled_def)

lemma f64_two_63: "f64_scaled f64_two_63 = 2 ^ 63 * int one_scaled" "\<not> f64_is_nan f64_two_63"
proof -
  have "f64_bits f64_two_63 = 1085 * 2 ^ 52 + 2 ^ 52" "\<not> f64_negative f64_two_63"
    by (simp_all add: f64_bits_def f64_two_63_def f64_negative_def)
  then show "f64_scaled f64_two_63 = 2 ^ 63 * int one_scaled" "\<not> f64_is_nan f64_two_63"
    by (simp_all only: f64_scaled_mag two_63_mag if_False f64_is_nan_bits) simp_all
qed

lemma f64_min_i64: "f64_scaled f64_min_i64 = - (2 ^ 63) * int one_scaled" "\<not> f64_is_nan f64_min_i64"
proof -
  have "f64_bits f64_min_i64 = 1085 * 2 ^ 52 + 2 ^ 52" "f64_negative f64_min_i64"
    by (simp_all add: f64_bits_def f64_min_i64_def f64_negative_def)
  then show "f64_scaled f64_min_i64 = - (2 ^ 63) * int one_scaled" "\<not> f64_is_nan f64_min_i64"
    by (simp_all only: f64_scaled_mag two_63_mag if_True f64_is_nan_bits) simp_all
qed

text \<open>Inside the range of \<open>i64\<close> the cast truncates.\<close>

lemma f64_to_i64_trunc:
  assumes "\<not> f64_is_nan r" "- (2 ^ 63) * int one_scaled \<le> f64_scaled r" "f64_scaled r < 2 ^ 63 * int one_scaled"
  obtains t \<rho> where "mag (f64_bits r) = t * one_scaled + \<rho>" "\<rho> < one_scaled"
    "sint (f64_to_i64 r) = (if f64_negative r then - int t else int t)" "f64_is_finite r"
proof -
  define t where "t = f64_abs_trunc r"
  define \<rho> where "\<rho> = mag (f64_bits r) mod one_scaled"
  have m: "mag (f64_bits r) = t * one_scaled + \<rho>" "\<rho> < one_scaled" by (simp_all add: t_def \<rho>_def abs_trunc_mag)
  have le: "mag (f64_bits r) \<le> 2 ^ 63 * one_scaled"
  proof -
    have "int (mag (f64_bits r)) \<le> int (2 ^ 63 * one_scaled)" using assms(2,3) by (simp add: f64_scaled_mag split: if_splits)
    then show ?thesis by (simp only: of_nat_le_iff)
  qed
  then have "f64_bits r \<le> 1085 * 2 ^ 52 + 2 ^ 52" by (simp only: two_63_mag [symmetric] mag_le_iff)
  then have "f64_exponent r \<le> 1086" unfolding f64_exponent_bits using div_le_mono [of "f64_bits r" "1085 * 2 ^ 52 + 2 ^ 52" "2 ^ 52"] by simp
  then have fin: "f64_is_finite r" by (simp add: f64_is_finite_def)
  have "t * one_scaled \<le> 2 ^ 63 * one_scaled" using le m(1) by linarith
  then have t: "t \<le> 2 ^ 63" by (simp only: mult_le_cancel2) simp
  have pos: "t < 2 ^ 63" if "\<not> f64_negative r"
  proof -
    have "int (t * one_scaled + \<rho>) < int (2 ^ 63 * one_scaled)" using assms(3) that m(1) by (simp add: f64_scaled_mag)
    then have "t * one_scaled < 2 ^ 63 * one_scaled" by (simp only: of_nat_less_iff add_lessD1)
    then show ?thesis by simp
  qed
  have "f64_to_i64 r = word_of_int (if f64_negative r then - int t else int t)"
  proof -
    have "max (- int t) (- (2 ^ 63)) = - int t" "\<not> f64_negative r \<Longrightarrow> min (int t) (2 ^ 63 - 1) = int t" using t pos by simp_all
    then show ?thesis using fin finite_not_nan [OF fin] by (cases "f64_negative r") (simp_all only: f64_to_i64_def t_def [symmetric] simp_thms if_True if_False)
  qed
  then have "sint (f64_to_i64 r) = (if f64_negative r then - int t else int t)" using t pos by (simp add: sint_of_int64)
  with m fin show ?thesis by (intro that)
qed

text \<open>When the truncation of \<open>r\<close> is \<open>i\<close>, converting \<open>i\<close> back is exact.\<close>

lemma truncated_exact:
  assumes "mag (f64_bits r) = t * one_scaled + \<rho>" "\<rho> < one_scaled" "nat \<bar>sint i\<bar> = t"
  shows "f64_scaled (i64_to_f64 i) = int_scaled i"
proof -
  have "mag (nat_magnitude (nat \<bar>sint i\<bar>)) = nat \<bar>sint i\<bar> * one_scaled"
  proof (cases "nat \<bar>sint i\<bar> \<le> 2 ^ 53")
    case True
    then show ?thesis by (rule i64_to_f64_small)
  next
    case False
    then have "2 ^ 53 * one_scaled \<le> mag (f64_bits r)" using assms(1,3) by (simp add: trans_le_add1)
    then have "one_scaled dvd mag (f64_bits r)" by (rule large_is_integral)
    then have "\<rho> = 0" using assms(1,2) nat_dvd_not_less [of \<rho> one_scaled] by (auto simp: dvd_add_right_iff)
    then have "mag (f64_bits r) = nat \<bar>sint i\<bar> * one_scaled" using assms(1,3) by simp
    with i64_to_f64_exact [OF this] show ?thesis by simp
  qed
  then show ?thesis by (simp only: f64_scaled_mag i64_to_f64_parts) simp
qed

lemma not_nan_i64 [simp]: "\<not> f64_is_nan (i64_to_f64 i)"
  using nat_magnitude_less [OF i64_abs_le [of i]] by (simp add: f64_is_nan_bits i64_to_f64_parts)

lemma int_float_compare_exact:
  assumes r: "\<not> f64_is_nan r"
  shows "int_float_compare i r = cmp_of (int_scaled i) (f64_scaled r)"
proof -
  define S where "S = int one_scaled"
  have S: "0 < S" by (simp add: S_def)
  have i: "- (2 ^ 63) \<le> sint i" "sint i < 2 ^ 63" using sint_ge [of i] sint_lt [of i] by simp_all
  have iS: "- (2 ^ 63) * S \<le> sint i * S" "sint i * S < 2 ^ 63 * S"
    using i S by (intro mult_right_mono mult_strict_right_mono; simp)+
  have lo: "f64_less r f64_min_i64 \<longleftrightarrow> f64_scaled r < - (2 ^ 63) * S" using r f64_min_i64 by (simp add: f64_less_def S_def)
  have hi: "f64_less f64_two_63 r \<or> f64_eq r f64_two_63 \<longleftrightarrow> 2 ^ 63 * S \<le> f64_scaled r"
    using r f64_two_63 by (auto simp: f64_less_def f64_eq_scaled S_def)
  consider "f64_scaled r < - (2 ^ 63) * S" | "2 ^ 63 * S \<le> f64_scaled r" | "- (2 ^ 63) * S \<le> f64_scaled r" "f64_scaled r < 2 ^ 63 * S"
    by linarith
  then show ?thesis
  proof cases
    case 1
    then have "f64_scaled r < sint i * S" using iS by linarith
    with 1 show ?thesis unfolding int_float_compare_def lo hi by (simp add: S_def [symmetric] cmp_of_def)
  next
    case 2
    then have "sint i * S < f64_scaled r" "\<not> f64_scaled r < - (2 ^ 63) * S" using iS S by linarith+
    with 2 show ?thesis unfolding int_float_compare_def lo hi by (simp add: S_def [symmetric] cmp_of_def)
  next
    case 3
    then obtain t \<rho> where t: "mag (f64_bits r) = t * one_scaled + \<rho>" "\<rho> < one_scaled"
        "sint (f64_to_i64 r) = (if f64_negative r then - int t else int t)"
      using r unfolding S_def by (elim f64_to_i64_trunc)
    have sr: "f64_scaled r = (if f64_negative r then - (int t * S + int \<rho>) else int t * S + int \<rho>)" "int \<rho> < S"
      using t(1,2) by (simp_all add: f64_scaled_mag S_def)
    have "int_float_compare i r = (if sint i = sint (f64_to_i64 r)
        then cmp_of (f64_scaled (i64_to_f64 i)) (f64_scaled r) else cmp_of (sint i) (sint (f64_to_i64 r)))"
      using 3 r unfolding int_float_compare_def lo hi by (simp add: f64_less_def cmp_of_def)
    also have "\<dots> = cmp_of (sint i * S) (f64_scaled r)"
    proof (cases "sint i = sint (f64_to_i64 r)")
      case True
      then have "nat \<bar>sint i\<bar> = t" using t(3) by simp
      with truncated_exact [OF t(1,2)] True show ?thesis by (simp add: S_def)
    next
      case False
      define y where "y = sint (f64_to_i64 r)"
      have yS: "y * S - S < f64_scaled r" "f64_scaled r < y * S + S" using sr S t(3) by (auto simp: y_def algebra_simps)
      have "sint i * S \<le> y * S - S" if "sint i < y"
        using mult_right_mono [of "sint i" "y - 1" S] that S by (simp add: algebra_simps)
      moreover have "y * S + S \<le> sint i * S" if "y < sint i"
        using mult_right_mono [of "y + 1" "sint i" S] that S by (simp add: algebra_simps)
      ultimately show ?thesis using False yS unfolding y_def [symmetric] by (auto simp: cmp_of_def)
    qed
    finally show ?thesis by (simp add: S_def)
  qed
qed


subsection \<open>The order is total\<close>

text \<open>Every value has a rank: its class, its number and its bytes.\<close>

fun rank_class :: "val \<Rightarrow> nat" where
  "rank_class Null = 0"
| "rank_class (Integer _) = 1"
| "rank_class (Real f) = (if f64_is_nan f then 2 else 1)"
| "rank_class (Txt _) = 3"
| "rank_class (Blob _) = 4"

fun rank_number :: "val \<Rightarrow> int" where
  "rank_number (Integer i) = int_scaled i"
| "rank_number (Real f) = (if f64_is_nan f then 0 else f64_scaled f)"
| "rank_number _ = 0"

fun rank_bytes :: "val \<Rightarrow> bytes" where
  "rank_bytes (Txt t) = as_bytes t"
| "rank_bytes (Blob b) = b"
| "rank_bytes _ = []"

definition rank_cmp :: "val \<Rightarrow> val \<Rightarrow> ordering" where
  "rank_cmp a b = and_then (cmp_of (rank_class a) (rank_class b))
     (and_then (cmp_of (rank_number a) (rank_number b)) (cmp_list (rank_bytes a) (rank_bytes b)))"

lemma cmp_of_scaled: "cmp_of (int_scaled a) (int_scaled b) = cmp_of (sint a) (sint b)"
  by (simp add: cmp_of_def)

lemma value_cmp_rank: "value_cmp a b = rank_cmp a b"
  by (cases a; cases b)
    (auto simp: rank_cmp_def int_float_compare_exact reverse_cmp_of f64_partial_cmp_def cmp_of_scaled cmp_of_def [of "_ :: nat"])

interpretation value_order: total_preorder value_cmp
  unfolding value_cmp_rank [abs_def] rank_cmp_def
  by (intro preorder_and_then preorder_cmp_of preorder_cmp_list)


subsection \<open>Equality and hash\<close>

fun is_nan_val :: "val \<Rightarrow> bool" where
  "is_nan_val (Real f) = f64_is_nan f"
| "is_nan_val _ = False"

lemma f64_eq_iff: "f64_eq a b \<longleftrightarrow> \<not> f64_is_nan a \<and> \<not> f64_is_nan b \<and> f64_scaled a = f64_scaled b"
  using f64_eq_scaled by (auto simp: f64_eq_def)

lemma values_sql_equal_cmp: "values_sql_equal a b \<longleftrightarrow> value_cmp a b = Equal \<and> \<not> is_nan_val a \<and> \<not> is_nan_val b"
  by (cases a; cases b)
    (auto simp: f64_eq_iff f64_partial_cmp_def cmp_list_Equal and_then_def cmp_of_def [of "_ :: nat"] signed_word_eqI)

text \<open>A number that equals an integer is hashed as that integer.\<close>

lemma whole_to_i64:
  assumes f: "\<not> f64_is_nan f" "f64_scaled f = int_scaled i"
  shows "f64_is_finite f" "f64_is_integral f" "\<not> f64_less f f64_min_i64" "f64_less f f64_two_63" "f64_to_i64 f = i"
proof -
  have S: "0 < int one_scaled" by simp
  have r: "- (2 ^ 63) * int one_scaled \<le> f64_scaled f" "f64_scaled f < 2 ^ 63 * int one_scaled"
    unfolding f(2) using sint_ge [of i] sint_lt [of i] by (intro mult_right_mono mult_strict_right_mono; simp)+
  from f64_to_i64_trunc [OF f(1) r] obtain t \<rho> where t: "mag (f64_bits f) = t * one_scaled + \<rho>" "\<rho> < one_scaled"
      "sint (f64_to_i64 f) = (if f64_negative f then - int t else int t)" "f64_is_finite f" by blast
  have "int (mag (f64_bits f)) = \<bar>int_scaled i\<bar>" unfolding f(2) [symmetric] by (simp add: f64_scaled_mag)
  then have "int (mag (f64_bits f)) = int (nat \<bar>sint i\<bar> * one_scaled)" by (simp add: abs_mult)
  then have m: "mag (f64_bits f) = nat \<bar>sint i\<bar> * one_scaled" by (simp only: of_nat_eq_iff)
  then have int: "f64_is_integral f" by (simp add: is_integral_mag)
  have "t = mag (f64_bits f) div one_scaled" using t(1,2) by simp
  then have "int t = \<bar>sint i\<bar>" unfolding m by simp
  moreover have "sint i \<le> 0" if "f64_negative f"
  proof -
    have "int_scaled i \<le> 0" unfolding f(2) [symmetric] using that by (simp add: f64_scaled_mag)
    then show ?thesis by (simp add: mult_le_0_iff)
  qed
  moreover have "0 \<le> sint i" if "\<not> f64_negative f"
  proof -
    have "0 \<le> int_scaled i" unfolding f(2) [symmetric] using that by (simp add: f64_scaled_mag)
    then show ?thesis by (simp add: zero_le_mult_iff)
  qed
  ultimately have "sint (f64_to_i64 f) = sint i" using t(3) by auto
  then show "f64_to_i64 f = i" by (rule signed_word_eqI)
  show "\<not> f64_less f f64_min_i64" "f64_less f f64_two_63"
    using r f(1) f64_min_i64 f64_two_63 by (simp_all add: f64_less_def)
  show "f64_is_finite f" "f64_is_integral f" using t(4) int by simp_all
qed

lemma hash_whole:
  assumes "\<not> f64_is_nan f" "f64_scaled f = int_scaled i"
  shows "hash_value_sql (Real f) = hash_value_sql (Integer i)"
  using whole_to_i64 [OF assms] by simp

fun val_wf :: "val \<Rightarrow> bool" where
  "val_wf (Txt t) = text_wf t"
| "val_wf _ = True"

lemma text_eqI: "text_wf s \<Longrightarrow> text_wf t \<Longrightarrow> as_bytes s = as_bytes t \<Longrightarrow> s = t"
  by (cases s; cases t) (auto simp: text_wf_def)

lemma hash_equal:
  assumes "val_wf a" "val_wf b" "values_sql_equal a b"
  shows "hash_value_sql a = hash_value_sql b"
proof (cases a)
  case (Integer i)
  then show ?thesis using assms(3) by (cases b) (auto simp: int_float_compare_exact intro: hash_whole [symmetric] simp del: hash_value_sql.simps)
next
  case (Real f)
  show ?thesis
  proof (cases b)
    case (Integer i)
    then show ?thesis using assms(3) Real by (auto simp: int_float_compare_exact intro!: hash_whole simp del: hash_value_sql.simps)
  next
    case (Real g)
    with \<open>a = Real f\<close> assms(3) have e: "f64_eq f g" by simp
    then have n: "\<not> f64_is_nan f" "\<not> f64_is_nan g" and "f = g \<or> f64_is_zero f \<and> f64_is_zero g" by (auto simp: f64_eq_def)
    then show ?thesis
    proof (elim disjE conjE)
      assume "f64_is_zero f" "f64_is_zero g"
      then have "f64_scaled f = int_scaled 0" "f64_scaled g = int_scaled 0" by (simp_all add: f64_scaled_mag f64_is_zero_bits)
      then show ?thesis using hash_whole [OF n(1), of 0] hash_whole [OF n(2), of 0] Real \<open>a = Real f\<close> by simp
    qed (simp add: Real \<open>a = Real f\<close>)
  qed (use assms(3) Real in simp_all)
next
  case (Txt s)
  then show ?thesis using assms by (cases b) (auto dest: text_eqI)
qed (use assms(3) in \<open>cases b; simp\<close>)+

lemma group_key_loop_all2: "length a = length b \<Longrightarrow> group_key_loop a b \<longleftrightarrow> list_all2 values_sql_equal a b"
  by (induction a b rule: list_induct2) simp_all

subsection \<open>Properties\<close>

text \<open>
  C29: the comparison of values keeps the contract of \<^verbatim>\<open>Ord\<close>: it is antisymmetric and transitive
  and equal values compare alike with every other value; NaN and integers beyond the precision
  of a double are included.
\<close>

theorem value_cmp_total_order:
  "reverse (value_cmp a b) = value_cmp b a
   \<and> (value_cmp a b \<noteq> Greater \<longrightarrow> value_cmp b c \<noteq> Greater \<longrightarrow> value_cmp a c \<noteq> Greater)
   \<and> (value_cmp a b = Equal \<longrightarrow> value_cmp a c = value_cmp b c)"
  using value_order.cmp_reverse value_order.cmp_trans value_order.cmp_cong by blast

theorem value_cmp_total_order_witness:
  "value_cmp (Integer 1) (Real 0x7FF8000000000000) \<noteq> Greater \<and> value_cmp (Real 0x7FF8000000000000) (Txt (Plain [])) \<noteq> Greater
   \<and> value_cmp (Integer 1) (Txt (Plain [])) \<noteq> Greater"
  using value_cmp_total_order [of "Integer 1" "Real 0x7FF8000000000000" "Txt (Plain [])"]
  by (simp add: f64_is_nan_def cmp_of_def)

text \<open>
  C30: two grouping keys that are equal make the same writes to the hasher, so equal rows meet in
  one group; equality of keys is column-wise equality in the SQL order, and no NaN is equal to
  anything.
\<close>

theorem group_key_contract:
  assumes "list_all val_wf a" "list_all val_wf b" "group_key_eq a b"
  shows "group_key_hash a = group_key_hash b
    \<and> list_all2 (\<lambda>x y. value_cmp x y = Equal \<and> \<not> is_nan_val x \<and> \<not> is_nan_val y) a b"
proof -
  have "list_all2 values_sql_equal a b" using assms(3) by (auto simp: group_key_eq_def group_key_loop_all2 split: if_splits)
  then show ?thesis using assms(1,2)
    by (induction rule: list_all2_induct) (auto simp: group_key_hash_def hash_equal values_sql_equal_cmp)
qed

lemma five_scaled: "f64_scaled 0x4014000000000000 = int_scaled 5" "\<not> f64_is_nan 0x4014000000000000"
proof -
  have b: "f64_bits 0x4014000000000000 = 1024 * 2 ^ 52 + 5 * 2 ^ 50" "\<not> f64_negative 0x4014000000000000"
    by (simp_all add: f64_bits_def f64_negative_def)
  have "mag (1024 * 2 ^ 52 + 5 * 2 ^ 50) = 5 * one_scaled"
    using mag_grid [of "5 * 2 ^ 50" 1024] power_one_scaled [of 50 1024] by simp
  with b show "f64_scaled 0x4014000000000000 = int_scaled 5" by (simp only: f64_scaled_mag if_False) simp
  show "\<not> f64_is_nan 0x4014000000000000" by (simp add: f64_is_nan_def)
qed

theorem group_key_contract_witness:
  "group_key_hash [Integer 5, Null] = group_key_hash [Real 0x4014000000000000, Null]"
proof -
  have "group_key_eq [Integer 5, Null] [Real 0x4014000000000000, Null]"
    by (simp add: group_key_eq_def int_float_compare_exact five_scaled)
  then show ?thesis using group_key_contract [of "[Integer 5, Null]" "[Real 0x4014000000000000, Null]"]
    by (simp del: hash_value_sql.simps)
qed

end
