(* ===== verification/Session_Changeset.thy ===== *)
theory Session_Changeset
  imports Session_Faithful Value_Order
begin

text \<open>
  Generation for a tracked session: the output is the rendering of one abstract change per
  captured row whose current state differs, and it leads from the start to the current state.
\<close>

subsection \<open>One table\<close>

definition changes_of :: "session_table \<Rightarrow> (sess_val list \<Rightarrow> val list option) \<Rightarrow> nat list \<Rightarrow> change list" where
  "changes_of t D is = List.map_filter (\<lambda>i. case st_entries t ! i of None \<Rightarrow> None
     | Some e \<Rightarrow> gen_change (st_ab_pk t) e (D (cap_key (st_ab_pk t) e))) is"

text \<open>
  What the engine's SELECT promises. \<open>ceq tbl i v w\<close> is its comparison \<^verbatim>\<open>column = parameter\<close> for column
  \<open>i\<close> of a table, with the column's affinity and collation; the WHERE clause that \<^verbatim>\<open>build_select\<close>
  writes compares every key column with the parameter of the column's number. The statement
  returns the rows of the table that satisfy it. The keys that the session saw are told apart
  when the comparison of a current row with one of them holds for the same key only, which
  excludes for example a key 1 that is deleted and a key 1.0 that is inserted.
\<close>

definition sql_where :: "(nat \<Rightarrow> val \<Rightarrow> val \<Rightarrow> bool) \<Rightarrow> bytes \<Rightarrow> val list \<Rightarrow> val list \<Rightarrow> bool" where
  "sql_where ceq pk vals r \<longleftrightarrow> (\<forall>i < length pk. pk ! i \<noteq> 0 \<longrightarrow> i < length vals \<and> ceq i (r ! i) (vals ! i))"

definition select_answers ::
    "(bytes \<Rightarrow> val list \<Rightarrow> val list list outcome) \<Rightarrow> (bytes \<Rightarrow> 'x schema_table option) \<Rightarrow> ('x schema_table \<Rightarrow> nat \<Rightarrow> val \<Rightarrow> val \<Rightarrow> bool) \<Rightarrow>
     vdb \<Rightarrow> bool" where
  "select_answers query cat ceq D \<longleftrightarrow> (\<forall>t tbl sql vals. cat (st_lname t) = Some tbl \<longrightarrow> trackable tbl \<longrightarrow> \<not> st_b_rowid t \<longrightarrow> \<not> st_b_stat1 t \<longrightarrow> st_ab_pk t = tab_pk tbl \<longrightarrow>
     st_az_col t = map col_name (tab_columns tbl) \<longrightarrow> build_select t = Ok sql \<longrightarrow> length vals = length (filter (\<lambda>p. p \<noteq> 0) (tab_pk tbl)) \<longrightarrow>
     (\<exists>rows. query sql vals = Ok rows \<and>
        set rows = {r. \<exists>k. D (st_lname t, k) = Some r \<and> sql_where (ceq tbl) (tab_pk tbl) vals r}))"

definition key_equal :: "(nat \<Rightarrow> val \<Rightarrow> val \<Rightarrow> bool) \<Rightarrow> bytes \<Rightarrow> val list \<Rightarrow> val list \<Rightarrow> bool" where
  "key_equal ceq pk r s \<longleftrightarrow> (\<forall>i < length pk. pk ! i \<noteq> 0 \<longrightarrow> ceq i (r ! i) (s ! i))"

definition keys_told_apart ::
    "('x schema_table \<Rightarrow> nat \<Rightarrow> val \<Rightarrow> val \<Rightarrow> bool) \<Rightarrow> (bytes \<Rightarrow> 'x schema_table option) \<Rightarrow> (bytes \<times> sess_val list) set \<Rightarrow> vdb \<Rightarrow> bool" where
  "keys_told_apart ceq cat K D \<longleftrightarrow> (\<forall>nm tbl s k r. cat nm = Some tbl \<longrightarrow> trackable tbl \<longrightarrow> row_in (tab_pk tbl) s \<longrightarrow>
     (nm, row_key (tab_pk tbl) s) \<in> K \<longrightarrow> D (nm, k) = Some r \<longrightarrow>
     key_equal (ceq tbl) (tab_pk tbl) r s = (k = row_key (tab_pk tbl) s))"

text \<open>Leading key columns: the bound values have the numbers of their columns.\<close>

lemma length_key_vals: "length s = length pk \<Longrightarrow> length (key_vals pk s) = length (filter (\<lambda>p. p \<noteq> 0) pk)"
proof (induction pk arbitrary: s)
  case (Cons p pk)
  then show ?case by (cases s) (auto simp: key_vals_def)
qed (simp add: key_vals_def)

lemma key_vals_zeros: "list_all (\<lambda>p. p = 0) pk \<Longrightarrow> key_vals pk s = []"
proof (induction pk arbitrary: s)
  case (Cons p pk)
  then show ?case by (cases s) (auto simp: key_vals_def)
qed (simp add: key_vals_def)

lemma key_vals_leading:
  "leading pk \<Longrightarrow> length s = length pk \<Longrightarrow> i < length pk \<Longrightarrow> pk ! i \<noteq> 0 \<Longrightarrow>
   i < length (key_vals pk s) \<and> key_vals pk s ! i = s ! i"
proof (induction pk arbitrary: s i)
  case (Cons p pk)
  obtain v s' where s: "s = v # s'" using Cons.prems by (cases s) auto
  show ?case
  proof (cases "p = 0")
    case True
    then show ?thesis using Cons.prems by (cases i) (auto simp: leading_def list_all_length)
  next
    case False
    then have "leading pk" "key_vals (p # pk) s = v # key_vals pk s'" using Cons.prems(1) s by (simp_all add: leading_def key_vals_def)
    then show ?thesis using Cons.IH [of s'] Cons.prems s by (cases i) auto
  qed
qed simp

lemma sql_where_key_equal:
  assumes "leading pk" "length s = length pk"
  shows "sql_where ceq pk (key_vals pk s) r = key_equal ceq pk r s"
  using key_vals_leading [OF assms] by (auto simp: sql_where_def key_equal_def)

definition first_row :: "'r list \<Rightarrow> 'r option" where
  "first_row rows = (case rows of [] \<Rightarrow> None | r # _ \<Rightarrow> Some r)"

definition resolves :: "(bytes \<Rightarrow> val list \<Rightarrow> val list list outcome) \<Rightarrow> bytes \<Rightarrow> bytes \<Rightarrow> sess_val list set \<Rightarrow>
    (sess_val list \<Rightarrow> val list option) \<Rightarrow> bool" where
  "resolves query sql pk ks D \<longleftrightarrow> (\<forall>s. row_in pk s \<longrightarrow> row_key pk s \<in> ks \<longrightarrow>
     (\<exists>rows. query sql (key_vals pk s) = Ok rows \<and> first_row rows = D (row_key pk s)))"

lemma select_resolves:
  assumes sel: "select_answers query cat ceq D" and apart: "keys_told_apart ceq cat K D"
    and t: "cat (st_lname t) = Some tbl" "trackable tbl" "\<not> st_b_rowid t" "\<not> st_b_stat1 t" "st_ab_pk t = tab_pk tbl" "st_az_col t = map col_name (tab_columns tbl)"
      "build_select t = Ok sql"
  shows "resolves query sql (tab_pk tbl) {k. (st_lname t, k) \<in> K} (\<lambda>k. D (st_lname t, k))"
  unfolding resolves_def
proof (intro allI impI)
  fix s assume s: "row_in (tab_pk tbl) s" "row_key (tab_pk tbl) s \<in> {k. (st_lname t, k) \<in> K}"
  have l: "length s = length (tab_pk tbl)" using row_inD(1) [OF s(1)] .
  have ld: "leading (tab_pk tbl)" using t(2) by (simp add: trackable_def)
  obtain rows where q: "query sql (key_vals (tab_pk tbl) s) = Ok rows"
      and rows: "set rows = {r. \<exists>k. D (st_lname t, k) = Some r \<and> sql_where (ceq tbl) (tab_pk tbl) (key_vals (tab_pk tbl) s) r}"
    using sel t length_key_vals [OF l] unfolding select_answers_def by blast
  have "sql_where (ceq tbl) (tab_pk tbl) (key_vals (tab_pk tbl) s) r = (k = row_key (tab_pk tbl) s)" if "D (st_lname t, k) = Some r" for k r
    using apart t(1,2) s that unfolding keys_told_apart_def sql_where_key_equal [OF ld l] by blast
  then have "set rows = {r. D (st_lname t, row_key (tab_pk tbl) s) = Some r}" unfolding rows by blast
  then have "first_row rows = D (st_lname t, row_key (tab_pk tbl) s)"
    by (cases rows; cases "D (st_lname t, row_key (tab_pk tbl) s)") (auto simp: first_row_def)
  with q show "\<exists>rows. query sql (key_vals (tab_pk tbl) s) = Ok rows \<and> first_row rows = D (st_lname t, row_key (tab_pk tbl) s)" by blast
qed

lemma where_terms_ok: "i + length pks \<le> length az \<Longrightarrow> \<exists>r. where_terms az i pks b = Ok r"
  by (induction az i pks b rule: where_terms.induct) (fastforce simp: index_at_def)+

lemma st_tracksD:
  assumes "st_tracks tbl n K t D0 D"
  shows "cap_inv t (amap (cap_key (st_ab_pk t)) (st_entries t))" "since (st_ab_pk t) (amap (cap_key (st_ab_pk t)) (st_entries t)) D0 D"
    "st_ab_pk t = tab_pk tbl" "st_n_col t = length (st_ab_pk t)" "\<not> st_b_rowid t" "\<not> st_b_stat1 t"
    "keys_inj (cap_key (st_ab_pk t)) (st_entries t)" "set (concat (st_buckets t)) = live (st_entries t)" "distinct (concat (st_buckets t))"
    "st_n_entry t = card (live (st_entries t))" "name_ok (st_name t)" "st_initialized t" "\<not> st_untrackable t"
    "amap (cap_key (st_ab_pk t)) (st_entries t) k = Some e \<Longrightarrow> (st_lname t, k) \<in> K"
proof -
  obtain H where H: "cap_inv t H" "since (tab_pk tbl) H D0 D" "\<forall>k \<in> dom H. (st_lname t, k) \<in> K"
    using assms by (auto simp: st_tracks_def)
  note d = cap_invD [OF H(1)]
  show pk: "st_ab_pk t = tab_pk tbl" and "name_ok (st_name t)" "st_initialized t" "\<not> st_untrackable t"
    using assms by (simp_all add: st_tracks_def)
  show "cap_inv t (amap (cap_key (st_ab_pk t)) (st_entries t))" "since (st_ab_pk t) (amap (cap_key (st_ab_pk t)) (st_entries t)) D0 D"
    using H pk unfolding d(3) by simp_all
  show "amap (cap_key (st_ab_pk t)) (st_entries t) k = Some e \<Longrightarrow> (st_lname t, k) \<in> K" using H(3) unfolding d(3) by blast
  show "st_n_col t = length (st_ab_pk t)" "\<not> st_b_rowid t" "\<not> st_b_stat1 t"
    "keys_inj (cap_key (st_ab_pk t)) (st_entries t)" "set (concat (st_buckets t)) = live (st_entries t)" "distinct (concat (st_buckets t))"
    "st_n_entry t = card (live (st_entries t))"
    using d by (simp_all add: bucket_inv_def)
qed

text \<open>Every live slot: its entry tells the start row, and the current row has its key.\<close>

lemma slot_tracked:
  assumes "st_tracks tbl n K t D0 D" "slot (st_entries t) i e"
  shows "cap_ok (st_ab_pk t) e" "entry_start (st_ab_pk t) e (D0 (cap_key (st_ab_pk t) e))"
    "D k = Some r \<Longrightarrow> row_in (st_ab_pk t) r \<and> row_key (st_ab_pk t) r = k"
    "(st_lname t, cap_key (st_ab_pk t) e) \<in> K"
proof -
  note d = st_tracksD [OF assms(1)]
  show "cap_ok (st_ab_pk t) e" using cap_invD(1) [OF d(1)] assms(2) by (auto simp: bucket_inv_def)
  have "amap (cap_key (st_ab_pk t)) (st_entries t) (cap_key (st_ab_pk t) e) = Some e"
    using assms(2) by (auto simp: amap_iff [OF d(7)])
  then show "(st_lname t, cap_key (st_ab_pk t) e) \<in> K" "entry_start (st_ab_pk t) e (D0 (cap_key (st_ab_pk t) e))"
    using d(14) d(2) [unfolded since_def, THEN conjunct2, rule_format, of "cap_key (st_ab_pk t) e"] by simp_all
  show "D k = Some r \<Longrightarrow> row_in (st_ab_pk t) r \<and> row_key (st_ab_pk t) r = k"
    using d(2) by (simp add: since_def keyed_rows_def)
qed

lemma emit_ids_changes:
  assumes tr: "st_tracks tbl n K t D0 D" and q: "resolves query sql (st_ab_pk t) {k. (st_lname t, k) \<in> K} D"
  shows "set is \<subseteq> live (st_entries t) \<Longrightarrow>
    emit_ids query t False sql is = Ok (concat (map render_change (changes_of t D is)), changes_of t D is \<noteq> [])"
proof (induction "is")
  case Nil
  then show ?case by (simp add: changes_of_def map_filter_simps)
next
  case (Cons i "is")
  note d = st_tracksD [OF tr]
  define pk where "pk = st_ab_pk t"
  from Cons.prems obtain e where e: "slot (st_entries t) i e" by (auto simp: live_slot)
  note sl = slot_tracked [OF tr e, folded pk_def]
  obtain s where s: "row_in pk s" "cap_rec pk e = fields_of s \<or> cap_rec pk e = key_only pk (fields_of s)"
    using sl(2) by (auto simp: entry_start_def split: if_splits)
  have k: "cap_key pk e = row_key pk s"
    using s(2) row_inD(1) [OF s(1)] by (auto simp: cap_key_def row_key_def key_of_key_only)
  have pv: "pk_values_of t (sc_record e) = Ok (Some (key_vals pk s))"
    by (rule pk_values_of_entry [OF sl(1) s(1) _ s(2)]) (simp add: pk_def)
  obtain rows where qq: "query sql (key_vals pk s) = Ok rows" "first_row rows = D (cap_key pk e)"
    using q s(1) k sl(4) by (auto simp: resolves_def pk_def)
  have em: "emit_entry t False e (D (cap_key pk e)) = Ok (map_option render_change (gen_change pk e (D (cap_key pk e))))"
    by (rule emit_entry_change [OF sl(1,2)]) (use d(4) sl(3) in \<open>simp_all add: pk_def\<close>)
  have row: "(case rows of [] \<Rightarrow> None | row # _ \<Rightarrow> Some row) = D (cap_key pk e)"
    using qq(2) by (simp add: first_row_def)
  have ie: "i < length (st_entries t)" "st_entries t ! i = Some e" using e by (simp_all add: slot_def)
  show ?case
    using Cons pv qq em row ie
    by (cases "gen_change pk e (D (cap_key pk e))") (simp_all add: changes_of_def map_filter_simps pk_def [symmetric])
qed

definition table_cset :: "session_table \<Rightarrow> (sess_val list \<Rightarrow> val list option) \<Rightarrow> cs_table" where
  "table_cset t D = \<lparr>tb_name = st_name t, tb_pk = st_ab_pk t, tb_changes = changes_of t D (concat (st_buckets t))\<rparr>"

definition nonempty_cset :: "cs_table \<Rightarrow> bytes" where
  "nonempty_cset T = (if tb_changes T = [] then [] else render_table T)"

lemma gen_table_tracked:
  assumes tr: "st_tracks tbl n K t (\<lambda>k. D0 (st_lname t, k)) (\<lambda>k. D (st_lname t, k))"
    and tbl: "cat (st_lname t) = Some tbl" "trackable tbl" and q: "select_answers query cat ceq D" "keys_told_apart ceq cat K D"
  shows "gen_table query cat eval b False t = (t, Ok (nonempty_cset (table_cset t (\<lambda>k. D (st_lname t, k)))))"
proof (cases "st_n_entry t = 0")
  case True
  then have "concat (st_buckets t) = []"
    using st_tracksD(8,10) [OF tr] by (metis card_0_eq finite_live set_empty)
  then have "changes_of t (\<lambda>k. D (st_lname t, k)) (concat (st_buckets t)) = []"
    by (simp only: changes_of_def map_filter_simps)
  then show ?thesis
    using True by (simp add: gen_table_def nonempty_cset_def table_cset_def)
next
  case False
  note d = st_tracksD [OF tr]
  have az: "st_az_col t = map col_name (tab_columns tbl)" using tr by (simp add: st_tracks_def)
  obtain terms where "where_terms (st_az_col t) 0 (st_ab_pk t) True = Ok terms"
    using where_terms_ok [of 0 "st_ab_pk t" "st_az_col t" True] az d(3) by (auto simp: tab_pk_def)
  then obtain sql where sql: "build_select t = Ok sql" using d(5,6) by (simp add: build_select_def)
  have rs: "resolves query sql (st_ab_pk t) {k. (st_lname t, k) \<in> K} (\<lambda>k. D (st_lname t, k))"
    using select_resolves [OF q tbl d(5,6,3) az sql] d(3) by simp
  have "table_body query False t = Ok (nonempty_cset (table_cset t (\<lambda>k. D (st_lname t, k))))"
    using emit_ids_changes [OF tr rs, of "concat (st_buckets t)"] sql d(4,8)
    by (auto simp: table_body_def nonempty_cset_def table_cset_def append_table_hdr_def render_table_def render_header_def
        simp del: set_concat)
  moreover have "expected_model_n tbl (st_name t) = st_n_col t"
    using d(3,4) tbl(2) by (simp add: expected_model_n_def Let_def trackable_def tab_pk_def)
  then have "revalidate eval b t tbl = (t, None)" using d(12,13) by (simp add: revalidate_def)
  ultimately show ?thesis
    using False tbl(1) d(13) by (simp add: gen_table_def st_lname_def)
qed

subsection \<open>The changes of a table\<close>

lemma gen_change_rec:
  assumes "entry_start pk e start" "gen_change pk e current = Some c"
    and cur: "\<And>r. current = Some r \<Longrightarrow> row_in pk r \<and> row_key pk r = cap_key pk e"
  shows "key_of pk (change_rec c) = cap_key pk e" "change_ok (length pk) c"
proof -
  from assms(1) obtain s where s: "row_in pk s" "sc_op e \<noteq> OP_INSERT \<Longrightarrow> cap_rec pk e = fields_of s"
    unfolding entry_start_def by (auto split: if_splits)
  note rs = row_inD [OF s(1)]
  have r: "length r = length pk" "list_all sess_val_ok (fields_of r)" "row_key pk r = cap_key pk e" if "current = Some r" for r
    using cur [OF that] row_inD(1,5) by blast+
  consider (row) r where "c = Ins (sc_indirect e) (fields_of r)" "current = Some r"
    | (del) "c = Del (sc_indirect e) (cap_rec pk e)" "sc_op e \<noteq> OP_INSERT"
    | (upd) r where "current = Some r" "squash (sc_indirect e) pk (cap_rec pk e) (fields_of r) = Some c" "sc_op e \<noteq> OP_INSERT"
    using assms(2) by (auto simp: gen_change_def split: option.splits if_splits)
  then have "key_of pk (change_rec c) = cap_key pk e \<and> change_ok (length pk) c"
  proof cases
    case row
    then show ?thesis using r [OF row(2)] by (simp add: row_key_def)
  next
    case del
    then show ?thesis using s(2) rs by (simp add: cap_key_def)
  next
    case upd
    have ne: "cap_rec pk e ! i \<noteq> Undef" "fields_of r ! i \<noteq> Undef" if "i < length pk" for i
      using s(2) [OF upd(3)] rs(1) r(1) [OF upd(1)] that by simp_all
    have l: "length (cap_rec pk e) = length pk" "length (fields_of r) = length pk"
      using s(2) [OF upd(3)] rs(1) r(1) [OF upd(1)] by simp_all
    have "key_of pk (change_rec c) = key_of pk (cap_rec pk e)" using squash_shape(2) [OF l _ _ upd(2)] ne by blast
    moreover have "c = Upd (sc_indirect e) (squash_old pk (cap_rec pk e) (fields_of r)) (squash_new pk (cap_rec pk e) (fields_of r))"
      using upd(2) by (simp add: squash_def split: if_splits)
    then have "change_ok (length pk) c"
      using l rs(5) r(2) [OF upd(1)] s(2) [OF upd(3)] by (simp add: squash_nth list_all_length)
    ultimately show ?thesis by (simp add: cap_key_def)
  qed
  then show "key_of pk (change_rec c) = cap_key pk e" "change_ok (length pk) c" by blast+
qed

lemma in_changes_of:
  "c \<in> set (changes_of t D is) \<longleftrightarrow>
   (\<exists>i \<in> set is. \<exists>e. st_entries t ! i = Some e \<and> gen_change (st_ab_pk t) e (D (cap_key (st_ab_pk t) e)) = Some c)"
  by (force simp: changes_of_def List.map_filter_def split: option.splits)

lemma slot_gen:
  assumes tr: "st_tracks tbl n K t D0 D" and "slot (st_entries t) i e" "gen_change (st_ab_pk t) e (D (cap_key (st_ab_pk t) e)) = Some c"
  shows "key_of (st_ab_pk t) (change_rec c) = cap_key (st_ab_pk t) e" "change_ok (length (st_ab_pk t)) c"
  using gen_change_rec [OF slot_tracked(2) [OF tr assms(2)] assms(3)] slot_tracked(3) [OF tr assms(2)] by blast+

lemma in_table_cset:
  assumes tr: "st_tracks tbl n K t D0 D"
  shows "c \<in> set (changes_of t D (concat (st_buckets t))) \<longleftrightarrow>
    (\<exists>e. amap (cap_key (st_ab_pk t)) (st_entries t) (key_of (st_ab_pk t) (change_rec c)) = Some e
       \<and> gen_change (st_ab_pk t) e (D (key_of (st_ab_pk t) (change_rec c))) = Some c)"
    (is "?L \<longleftrightarrow> ?R")
proof
  note d = st_tracksD [OF tr]
  assume ?L
  then obtain i e where i: "slot (st_entries t) i e" "gen_change (st_ab_pk t) e (D (cap_key (st_ab_pk t) e)) = Some c"
    unfolding in_changes_of d(8) by (auto simp: live_slot slot_def)
  then show ?R using slot_gen(1) [OF tr i] by (auto simp: amap_iff [OF d(7)])
next
  note d = st_tracksD [OF tr]
  assume ?R
  then obtain e i where "slot (st_entries t) i e" "cap_key (st_ab_pk t) e = key_of (st_ab_pk t) (change_rec c)"
      "gen_change (st_ab_pk t) e (D (key_of (st_ab_pk t) (change_rec c))) = Some c"
    by (auto simp: amap_iff [OF d(7)])
  then have "i \<in> live (st_entries t)" "st_entries t ! i = Some e" "gen_change (st_ab_pk t) e (D (cap_key (st_ab_pk t) e)) = Some c"
    by (auto simp: live_slot slot_def)
  then show ?L unfolding in_changes_of d(8) by blast
qed

lemma distinct_changes_of:
  assumes tr: "st_tracks tbl n K t D0 D"
  shows "distinct is \<Longrightarrow> set is \<subseteq> live (st_entries t) \<Longrightarrow> distinct (map (\<lambda>c. key_of (st_ab_pk t) (change_rec c)) (changes_of t D is))"
proof (induction "is")
  case (Cons i "is")
  note d = st_tracksD [OF tr]
  from Cons.prems obtain e where e: "slot (st_entries t) i e" by (auto simp: live_slot)
  have new: "cap_key (st_ab_pk t) e \<notin> (\<lambda>c. key_of (st_ab_pk t) (change_rec c)) ` set (changes_of t D is)"
  proof
    assume "cap_key (st_ab_pk t) e \<in> (\<lambda>c. key_of (st_ab_pk t) (change_rec c)) ` set (changes_of t D is)"
    then obtain c j e' where j: "j \<in> set is" "st_entries t ! j = Some e'" "gen_change (st_ab_pk t) e' (D (cap_key (st_ab_pk t) e')) = Some c"
        "cap_key (st_ab_pk t) e = key_of (st_ab_pk t) (change_rec c)" by (auto simp: in_changes_of)
    then have sj: "slot (st_entries t) j e'" using Cons.prems(2) by (auto simp: slot_def live_def)
    from slot_gen(1) [OF tr sj j(3)] j(4) have "j = i" using d(7) e sj unfolding keys_inj_def by auto
    with j(1) Cons.prems(1) show False by simp
  qed
  have ie: "st_entries t ! i = Some e" using e by (simp add: slot_def)
  show ?case
    using Cons new slot_gen(1) [OF tr e] ie
    by (cases "gen_change (st_ab_pk t) e (D (cap_key (st_ab_pk t) e))") (auto simp: changes_of_def map_filter_simps)
qed (simp add: changes_of_def map_filter_simps)

subsection \<open>The whole changeset\<close>

definition session_cset :: "session_core \<Rightarrow> vdb \<Rightarrow> cs_table list" where
  "session_cset c D = filter (\<lambda>T. tb_changes T \<noteq> []) (map (\<lambda>t. table_cset t (\<lambda>k. D (st_lname t, k))) (s_tables c))"

definition vfields :: "vdb \<Rightarrow> db" where
  "vfields D l = map_option fields_of (D l)"

lemma render_nonempty: "render (filter (\<lambda>T. tb_changes T \<noteq> []) Ts) = concat (map nonempty_cset Ts)"
  by (induction Ts) (auto simp: render_def nonempty_cset_def)

lemma gen_tables_tracked:
  assumes "select_answers query cat ceq D" "keys_told_apart ceq cat K D"
  shows "\<forall>t \<in> set ts. \<exists>tbl. cat (st_lname t) = Some tbl \<and> trackable tbl \<and>
       st_tracks tbl n K t (\<lambda>k. D0 (st_lname t, k)) (\<lambda>k. D (st_lname t, k)) \<Longrightarrow>
    gen_tables query cat eval b False ts
      = (ts, Ok (concat (map nonempty_cset (map (\<lambda>t. table_cset t (\<lambda>k. D (st_lname t, k))) ts))))"
proof (induction ts)
  case (Cons t ts)
  then obtain tbl where "cat (st_lname t) = Some tbl" "trackable tbl" "st_tracks tbl n K t (\<lambda>k. D0 (st_lname t, k)) (\<lambda>k. D (st_lname t, k))"
    by auto
  from gen_table_tracked [OF this(3,1,2) assms] Cons show ?case by simp
qed simp

lemma generate_tracked:
  assumes "core_tracks cat n K c D0 D" "select_answers query cat ceq D" "keys_told_apart ceq cat K D"
  shows "generate query cat eval c False = (c, Ok (render (session_cset c D)))"
proof -
  have "\<forall>t \<in> set (s_tables c). \<exists>tbl. cat (st_lname t) = Some tbl \<and> trackable tbl \<and>
      st_tracks tbl n K t (\<lambda>k. D0 (st_lname t, k)) (\<lambda>k. D (st_lname t, k))"
    using assms(1) by (simp add: core_tracks_def)
  from gen_tables_tracked [OF assms(2,3) this, of eval "s_implicit_pk c"] show ?thesis
    using assms(1) by (simp add: generate_def session_cset_def render_nonempty core_tracks_def)
qed

text \<open>The changeset as a map from rows to changes.\<close>

definition session_delta :: "session_core \<Rightarrow> vdb \<Rightarrow> delta" where
  "session_delta c D l =
     (case find (\<lambda>t. st_lname t = fst l) (s_tables c) of None \<Rightarrow> None
      | Some t \<Rightarrow> Option.bind (amap (cap_key (st_ab_pk t)) (st_entries t) (snd l)) (\<lambda>e. gen_change (st_ab_pk t) e (D l)))"

lemma find_distinct:
  "distinct (map f xs) \<Longrightarrow> find (\<lambda>x. f x = y) xs = Some x \<longleftrightarrow> x \<in> set xs \<and> f x = y"
  by (induction xs) auto

lemma case_find_distinct:
  assumes "distinct (map f xs)"
  shows "(case find (\<lambda>x. f x = y) xs of None \<Rightarrow> None | Some x \<Rightarrow> F x) = Some z \<longleftrightarrow> (\<exists>x \<in> set xs. f x = y \<and> F x = Some z)"
proof (cases "find (\<lambda>x. f x = y) xs")
  case None
  then have "\<forall>x \<in> set xs. f x \<noteq> y" by (auto simp: find_None_iff)
  with None show ?thesis by auto
next
  case (Some a)
  then have a: "a \<in> set xs" "f a = y" using find_distinct [OF assms] by auto
  have inj: "inj_on f (set xs)" using assms by (simp add: distinct_map)
  have u: "x = a" if "x \<in> set xs" "f x = y" for x
    by (rule inj_onD [OF inj _ that(1) a(1)]) (simp only: that(2) a(2))
  have e: "(case find (\<lambda>x. f x = y) xs of None \<Rightarrow> None | Some x \<Rightarrow> F x) = F a" using Some by simp
  show ?thesis
    unfolding e
  proof
    assume "F a = Some z"
    with a show "\<exists>x \<in> set xs. f x = y \<and> F x = Some z" by blast
  next
    assume "\<exists>x \<in> set xs. f x = y \<and> F x = Some z"
    then obtain x where "x \<in> set xs" "f x = y" "F x = Some z" by blast
    with u [of x] show "F a = Some z" by simp
  qed
qed

lemma in_session_cset:
  fixes cat :: "bytes \<Rightarrow> 'x schema_table option"
  assumes tr: "core_tracks cat n K c D0 D"
  shows "(l, ch) \<in> set (located (session_cset c D)) \<longleftrightarrow> session_delta c D l = Some ch"
proof -
  have dist: "distinct (map st_lname (s_tables c))" using tr by (simp add: core_tracks_def)
  have tb: "\<exists>tbl :: 'x schema_table. st_tracks tbl n K t (\<lambda>k. D0 (st_lname t, k)) (\<lambda>k. D (st_lname t, k))" if "t \<in> set (s_tables c)" for t
    using tr that by (auto simp: core_tracks_def)
  have "(l, ch) \<in> set (located (session_cset c D)) \<longleftrightarrow>
      (\<exists>t \<in> set (s_tables c). ch \<in> set (changes_of t (\<lambda>k. D (st_lname t, k)) (concat (st_buckets t)))
         \<and> l = (st_lname t, key_of (st_ab_pk t) (change_rec ch)))"
  proof -
    have "x \<in> set (located (filter (\<lambda>T. tb_changes T \<noteq> []) (map F ts))) \<longleftrightarrow> (\<exists>t \<in> set ts. x \<in> set (located [F t]))" for x F and ts :: "session_table list"
      by (induction ts) (auto simp: located_def)
    then have "(l, ch) \<in> set (located (session_cset c D)) \<longleftrightarrow>
        (\<exists>t \<in> set (s_tables c). (l, ch) \<in> set (located [table_cset t (\<lambda>k. D (st_lname t, k))]))"
      unfolding session_cset_def .
    then show ?thesis by (auto simp: located_def table_cset_def st_lname_def)
  qed
  also have "\<dots> \<longleftrightarrow> (\<exists>t \<in> set (s_tables c). st_lname t = fst l
      \<and> Option.bind (amap (cap_key (st_ab_pk t)) (st_entries t) (snd l)) (\<lambda>e. gen_change (st_ab_pk t) e (D l)) = Some ch)"
    (is "?A \<longleftrightarrow> ?B")
  proof
    assume ?A
    then show ?B using in_table_cset tb by (fastforce simp: bind_eq_Some_conv)
  next
    assume ?B
    then obtain t e where t: "t \<in> set (s_tables c)" "st_lname t = fst l" "amap (cap_key (st_ab_pk t)) (st_entries t) (snd l) = Some e"
        "gen_change (st_ab_pk t) e (D l) = Some ch" by (auto simp: bind_eq_Some_conv)
    obtain tbl :: "'x schema_table" where tt: "st_tracks tbl n K t (\<lambda>k. D0 (st_lname t, k)) (\<lambda>k. D (st_lname t, k))" using tb [OF t(1)] by blast
    obtain i where i: "slot (st_entries t) i e" "cap_key (st_ab_pk t) e = snd l"
      using t(3) by (auto simp: amap_iff [OF st_tracksD(7) [OF tt]])
    have l: "l = (st_lname t, snd l)" using t(2) by (simp add: prod_eq_iff)
    have "gen_change (st_ab_pk t) e (D (st_lname t, cap_key (st_ab_pk t) e)) = Some ch" using t(4) i(2) l by simp
    from slot_gen(1) [OF tt i(1) this] have k: "key_of (st_ab_pk t) (change_rec ch) = snd l" using i(2) by simp
    then have "ch \<in> set (changes_of t (\<lambda>k. D (st_lname t, k)) (concat (st_buckets t)))"
      using in_table_cset [OF tt] t(3,4) l by auto
    with t(1) l k show ?A by auto
  qed
  also have "\<dots> \<longleftrightarrow> session_delta c D l = Some ch"
    unfolding session_delta_def case_find_distinct [OF dist] ..
  finally show ?thesis .
qed

lemma distinct_session_cset:
  fixes cat :: "bytes \<Rightarrow> 'x schema_table option"
  assumes tr: "core_tracks cat n K c D0 D"
  shows "distinct (map fst (located (session_cset c D)))"
proof -
  let ?P = "\<lambda>t. \<exists>tbl :: 'x schema_table. st_tracks tbl n K t (\<lambda>k. D0 (st_lname t, k)) (\<lambda>k. D (st_lname t, k))"
  have "distinct (map st_lname ts) \<Longrightarrow> list_all ?P ts \<Longrightarrow>
      distinct (map fst (located (filter (\<lambda>T. tb_changes T \<noteq> []) (map (\<lambda>t. table_cset t (\<lambda>k. D (st_lname t, k))) ts))))" for ts
  proof (induction ts)
    case (Cons t ts)
    then obtain tbl :: "'x schema_table" where tt: "st_tracks tbl n K t (\<lambda>k. D0 (st_lname t, k)) (\<lambda>k. D (st_lname t, k))" by auto
    let ?cs = "changes_of t (\<lambda>k. D (st_lname t, k)) (concat (st_buckets t))"
    have "distinct (map (\<lambda>c. key_of (st_ab_pk t) (change_rec c)) ?cs)"
      using distinct_changes_of [OF tt] st_tracksD(8,9) [OF tt] by simp
    then have "distinct (map (\<lambda>c. (st_lname t, key_of (st_ab_pk t) (change_rec c))) ?cs)"
      by (simp add: distinct_map inj_on_def)
    moreover have "st_lname t \<notin> st_lname ` set ts" using Cons.prems(1) by simp
    then have "(st_lname t, k) \<notin> fst ` set (located (filter (\<lambda>T. tb_changes T \<noteq> []) (map (\<lambda>t. table_cset t (\<lambda>k. D (st_lname t, k))) ts)))" for k
      by (auto simp: located_def table_cset_def st_lname_def)
    moreover have "map fst (located (filter (\<lambda>T. tb_changes T \<noteq> []) (map (\<lambda>t. table_cset t (\<lambda>k. D (st_lname t, k))) (t # ts))))
        = map (\<lambda>c. (st_lname t, key_of (st_ab_pk t) (change_rec c))) ?cs
          @ map fst (located (filter (\<lambda>T. tb_changes T \<noteq> []) (map (\<lambda>t. table_cset t (\<lambda>k. D (st_lname t, k))) ts)))"
      by (simp add: located_def table_cset_def st_lname_def o_def)
    ultimately show ?case using Cons by auto
  qed (simp add: located_def)
  from this [of "s_tables c"] show ?thesis
    using tr unfolding session_cset_def core_tracks_def list_all_iff by blast
qed

lemma session_delta_takes:
  fixes cat :: "bytes \<Rightarrow> 'x schema_table option"
  assumes tr: "core_tracks cat n K c D0 D"
  shows "takes (session_delta c D) (vfields D0) (vfields D)"
  unfolding takes_def
proof
  fix l :: loc
  obtain nm k where l: "l = (nm, k)" by fastforce
  have dist: "distinct (map st_lname (s_tables c))" using tr by (simp add: core_tracks_def)
  show "case session_delta c D l of None \<Rightarrow> vfields D l = vfields D0 l | Some ch \<Rightarrow> act ch (vfields D0 l) = Some (vfields D l)"
  proof (cases "find (\<lambda>t. st_lname t = nm) (s_tables c)")
    case None
    then have "nm \<notin> st_lname ` set (s_tables c)" by (auto simp: find_None_iff)
    then have "D l = D0 l" using tr l by (simp add: core_tracks_def)
    then show ?thesis using None l by (simp add: session_delta_def vfields_def)
  next
    case (Some t)
    then have t: "t \<in> set (s_tables c)" "st_lname t = nm" using find_distinct [OF dist] by auto
    then obtain tbl :: "'x schema_table" where tt: "st_tracks tbl n K t (\<lambda>k. D0 (nm, k)) (\<lambda>k. D (nm, k))" using tr by (auto simp: core_tracks_def)
    note d = st_tracksD [OF tt]
    show ?thesis
    proof (cases "amap (cap_key (st_ab_pk t)) (st_entries t) k")
      case None
      then have "D l = D0 l"
        using d(2) [unfolded since_def, THEN conjunct2, rule_format, of k] l by simp
      then show ?thesis using None Some l by (simp add: session_delta_def vfields_def)
    next
      case (Some e)
      then obtain i where i: "slot (st_entries t) i e" "cap_key (st_ab_pk t) e = k" by (auto simp: amap_iff [OF d(7)])
      have "session_delta c D l = gen_change (st_ab_pk t) e (D l)"
        using Some \<open>find _ _ = Some t\<close> l by (simp add: session_delta_def)
      moreover have "entry_start (st_ab_pk t) e (D0 l)" using slot_tracked(2) [OF tt i(1)] i(2) l by simp
      moreover have "\<And>r. D l = Some r \<Longrightarrow> row_in (st_ab_pk t) r \<and> row_key (st_ab_pk t) r = cap_key (st_ab_pk t) e"
        using slot_tracked(3) [OF tt i(1)] i(2) l by auto
      ultimately show ?thesis using gen_change_act [of "st_ab_pk t" e "D0 l" "D l"] unfolding vfields_def by simp
    qed
  qed
qed

lemma session_cset_ok:
  fixes cat :: "bytes \<Rightarrow> 'x schema_table option"
  assumes tr: "core_tracks cat n K c D0 D"
  shows "list_all table_ok (session_cset c D)"
proof -
  have "table_ok (table_cset t (\<lambda>k. D (st_lname t, k)))" if t: "t \<in> set (s_tables c)" for t
  proof -
    from tr t obtain tbl :: "'x schema_table" where tt: "st_tracks tbl n K t (\<lambda>k. D0 (st_lname t, k)) (\<lambda>k. D (st_lname t, k))" "trackable tbl"
      by (auto simp: core_tracks_def)
    note d = st_tracksD [OF tt(1)]
    have "st_ab_pk t \<noteq> []" using d(3) tt(2) by (auto simp: trackable_def tab_pk_def)
    moreover have "change_ok (length (st_ab_pk t)) ch"
      if "ch \<in> set (changes_of t (\<lambda>k. D (st_lname t, k)) (concat (st_buckets t)))" for ch
      using that slot_gen(2) [OF tt(1)] unfolding in_changes_of d(8) live_def slot_def by auto
    ultimately show ?thesis using d(11) by (simp add: table_ok_def table_cset_def list_all_iff)
  qed
  then show ?thesis by (auto simp: session_cset_def list_all_iff)
qed

lemma session_new_tracks: "core_tracks cat 0 K (attach session_core_new None) D D"
  by (simp add: core_tracks_def attach_def session_core_new_def eq_ignore_ascii_case_def)

subsection \<open>Properties\<close>

text \<open>
  C1: the promise of a session. A session attached to every table records any sequence of row
  events (with key updates, deletes and re-inserts of one key, and any trigger depth) without
  failing; \<^verbatim>\<open>generate\<close> then leaves the session as it is and returns a well-formed changeset which,
  applied to the database as it was when the session started, gives the current database.
  The events are on tables of a fixed schema with a declared primary key whose columns come
  first, other than \<^verbatim>\<open>sqlite_stat1\<close>, and their rows have non-null keys, valid text, no NaN and no
  negative zero. The engine's SELECT is assumed to return the rows that satisfy its WHERE clause
  under the engine's equality, and that equality to tell apart the keys of the events.
\<close>

theorem session_changeset_faithful:
  fixes cat :: "bytes \<Rightarrow> 'x schema_table option"
  assumes "rows_in_catalog cat D0" "list_all (event_ok cat) es" "2 * length es \<le> 2 ^ 30" "db_events es D0 = Some D"
    and "select_answers query cat ceq D" "keys_told_apart ceq cat (\<Union>e \<in> set es. touched e) D"
  shows "\<exists>c CS. fold_outcome (capture_event eval) (attach session_core_new None) es = Ok c
    \<and> generate query cat eval c False = (c, Ok (render CS)) \<and> list_all table_ok CS
    \<and> apply_changes (located CS) (vfields D0) = Some (vfields D)"
proof -
  let ?K = "\<Union>e \<in> set es. touched e"
  have "touched e \<subseteq> ?K" if "e \<in> set es" for e using that by blast
  from capture_events_track [OF session_new_tracks _ assms(2,4,1) this, of eval] assms(3) obtain c where
    c: "fold_outcome (capture_event eval) (attach session_core_new None) es = Ok c" "core_tracks cat (2 * length es) ?K c D0 D"
    by auto
  have "apply_changes (located (session_cset c D)) (vfields D0) = Some (vfields D)"
    by (rule apply_takes [OF distinct_session_cset [OF c(2)] in_session_cset [OF c(2)] session_delta_takes [OF c(2)]])
  then show ?thesis using c(1) generate_tracked [OF c(2) assms(5,6)] session_cset_ok [OF c(2)] by blast
qed

text \<open>A table \<open>t(a PRIMARY KEY, b)\<close> whose row 1 is updated and whose row 2 is deleted.\<close>

definition demo_table :: "unit schema_table" where
  "demo_table = \<lparr>tab_name = [0x74], tab_columns =
     [\<lparr>col_name = [0x61], col_primary_key = True, col_pk_seq = 1, col_default = None\<rparr>,
      \<lparr>col_name = [0x62], col_primary_key = False, col_pk_seq = 0, col_default = None\<rparr>], tab_without_rowid = False\<rparr>"

definition demo_catalog :: "bytes \<Rightarrow> unit schema_table option" where
  "demo_catalog nm = (if nm = [0x74] then Some demo_table else None)"

definition demo_start :: vdb where
  "demo_start = (\<lambda>_. None)(([0x74], [SInt 1]) \<mapsto> [Integer 1, Null], ([0x74], [SInt 2]) \<mapsto> [Integer 2, Null])"

definition demo_end :: vdb where
  "demo_end = (\<lambda>_. None)(([0x74], [SInt 1]) \<mapsto> [Integer 1, Integer 7])"

text \<open>Columns without affinity and with the default collation; \<^verbatim>\<open>NULL = NULL\<close> does not hold.\<close>

definition plain_eq :: "unit schema_table \<Rightarrow> nat \<Rightarrow> val \<Rightarrow> val \<Rightarrow> bool" where
  "plain_eq tbl i v w \<longleftrightarrow> v \<noteq> Null \<and> values_sql_equal v w"

definition demo_query :: "bytes \<Rightarrow> val list \<Rightarrow> val list list outcome" where
  "demo_query sql vals = Ok (filter (sql_where (plain_eq demo_table) [1, 0] vals) [[Integer 1, Integer 7]])"

definition demo_events :: "unit row_event list" where
  "demo_events = [Row_Update demo_table 1 [Integer 1, Null] [Integer 1, Integer 7] 0, Row_Delete demo_table 2 [Integer 2, Null] 1]"

lemma demo_pk: "tab_pk demo_table = [1, 0]" "tab_lname demo_table = [0x74]" "trackable demo_table"
proof -
  have "utf8_valid [0x74]" by (simp add: from_utf8_def utf8_scan.simps)
  moreover have "length (lit ''sqlite_stat1'') = 12" by (simp add: lit_def)
  then have "\<not> eq_ignore_ascii_case [0x74] (lit ''sqlite_stat1'')"
    unfolding eq_ignore_ascii_case_def by (metis length_map length_Cons list.size(3) One_nat_def numeral_eq_one_iff num.distinct(1,3))
  ultimately show "trackable demo_table" by (simp add: trackable_def demo_table_def name_ok_def tab_pk_def leading_def)
qed (simp_all add: demo_table_def tab_pk_def tab_lname_def ascii_lower_def)

lemma demo_rows: "row_in [1, 0] [Integer i, w]" if "w = Null \<or> w = Integer j"
  using that by (auto simp: row_in_def row_ok_def fits_def put_i64_def key_of_def)

theorem session_changeset_faithful_witness:
  "\<exists>c CS. fold_outcome (capture_event (\<lambda>_. None)) (attach session_core_new None) demo_events = Ok c
    \<and> generate demo_query demo_catalog (\<lambda>_. None) c False = (c, Ok (render CS))
    \<and> apply_changes (located CS) (vfields demo_start) = Some (vfields demo_end)"
proof -
  have ev: "list_all (event_ok demo_catalog) demo_events" "2 * length demo_events \<le> 2 ^ 30"
    using demo_pk demo_rows [of Null 0 1] demo_rows [of "Integer 7" 7 1] demo_rows [of Null 0 2]
    by (simp_all add: demo_events_def demo_catalog_def)
  have loc: "tab_loc demo_table [Integer i, w] = ([0x74], [SInt i])" for i w
    using demo_pk by (simp add: tab_loc_def row_key_def key_of_def)
  have en: "db_events demo_events demo_start = Some demo_end"
    by (auto simp: demo_events_def demo_start_def demo_end_def leave_def enter_def loc)
  have rows: "rows_in_catalog demo_catalog demo_start"
    using demo_pk demo_rows [of Null 0]
    by (auto simp: rows_in_catalog_def demo_catalog_def keyed_rows_def demo_start_def row_key_def key_of_def split: if_splits)
  have fin: "demo_end ([0x74], k) = Some r \<longleftrightarrow> k = [SInt 1] \<and> r = [Integer 1, Integer 7]" for k r
    by (auto simp: demo_end_def)
  have "set [r\<leftarrow>[[Integer 1, Integer 7]]. P r] = {r. \<exists>k. demo_end ([0x74], k) = Some r \<and> P r}" for P
    by (auto simp: fin)
  then have sel: "select_answers demo_query demo_catalog plain_eq demo_end"
    using demo_pk(1) by (auto simp: select_answers_def demo_query_def demo_catalog_def split: if_splits)
  have "key_equal (plain_eq demo_table) [1, 0] [Integer 1, Integer 7] s \<longleftrightarrow> [SInt 1] = row_key [1, 0] s"
    if "row_in [1, 0] s" "row_key [1, 0] s \<in> {[SInt 1], [SInt 2]}" for s
  proof -
    from row_inD(1) [OF that(1)] obtain v w where "s = [v, w]" by (auto simp: length_Suc_conv)
    with that(2) show ?thesis
      by (cases v) (auto simp: key_equal_def plain_eq_def row_key_def key_of_def less_Suc_eq_0_disj split: rtext.splits)
  qed
  then have "keys_told_apart plain_eq demo_catalog (\<Union>e \<in> set demo_events. touched e) demo_end"
    using demo_pk(1) by (auto simp: keys_told_apart_def demo_catalog_def demo_events_def loc fin split: if_splits)
  from session_changeset_faithful [OF rows ev en sel this, of "\<lambda>_. None"] show ?thesis by blast
qed

end
