(* ===== verification/Session_Findings.thy ===== *)
theory Session_Findings
  imports Session_Gen Session_Group Session_Capture
begin

text \<open>
  Behaviours of the session code that differ from its comments, each shown on the model.
\<close>

text \<open>An UPDATE read from a patchset stops the program: the old side is empty when its key columns are assigned.\<close>

lemma shift_pk_panics:
  "list_all (\<lambda>i. i < length ab_pk) is \<Longrightarrow> \<exists>i \<in> set is. ab_pk ! i \<noteq> 0 \<Longrightarrow> shift_pk ab_pk is [] nv = Panic"
proof (induction "is")
  case (Cons i "is")
  have "index_at nv i = Panic \<or> (\<exists>v. index_at nv i = Ok v)" by (simp add: index_at_def)
  with Cons show ?case by (auto simp: index_at_def)
qed simp

text \<open>
  C39: reading an UPDATE from a patchset of a table with a key column stops the program: its
  record parses, and the assignment of the key columns to the still empty old side is out of
  bounds.
\<close>

theorem patchset_update_panics:
  assumes "b_patchset it" "\<not> b_invert it" "z_tab it \<noteq> []" "it_pos it < length (it_data it)"
    and "length (it_ab_pk it) = it_n_col it" "list_ex (\<lambda>p. p \<noteq> 0) (it_ab_pk it)"
    and "parse_record (it_data it) (Suc (it_pos it)) (it_n_col it) = Ok (vals, used)"
  shows "read_change it OP_UPDATE = Panic"
proof -
  have "shift_pk (it_ab_pk it) [0 ..< it_n_col it] [] (map Some vals) = Panic"
    using assms(5,6) by (intro shift_pk_panics) (auto simp: list_all_iff list_ex_length)
  moreover have "slice xs a b = Panic \<or> (\<exists>ys. slice xs a b = Ok ys)" for xs :: bytes and a b by (simp add: slice_def)
  ultimately show ?thesis
    using assms by (auto simp: read_change_def parse_sides_def finish_change_def Let_def op_defs bind_outcome_eq_Panic)
qed

theorem patchset_update_panics_witness:
  "read_change ((start_data (0 # append_field (SInt 4)) 0)\<lparr>b_patchset := True, z_tab := [0x74], it_n_col := 1, it_ab_pk := [1]\<rparr>) OP_UPDATE = Panic"
proof -
  have "parse_record (0 # append_field (SInt 4)) (Suc 0) 1 = Ok ([SInt 4], 9)"
    using parse_record_fields [of "0 # append_field (SInt 4)" "[SInt 4]" "Suc 0" "[]"] by (simp add: fits_def put_i64_def)
  then show ?thesis
    using patchset_update_panics [of "(start_data (0 # append_field (SInt 4)) 0)\<lparr>b_patchset := True, z_tab := [0x74], it_n_col := 1, it_ab_pk := [1]\<rparr>" "[SInt 4]" 9]
    by (simp add: start_data_def)
qed

text \<open>A text field whose length field is the largest varint makes the parser slice out of order.\<close>

lemma parse_value_panics: "parse_value [3, 255, 255, 255, 255, 255, 255, 255, 255, 255] 0 = Panic"
proof -
  define a :: bytes where "a = [3, 255, 255, 255, 255, 255, 255, 255, 255, 255]"
  have "get_varint a 1 = gd 0 0 (drop 1 a)" by (rule get_varint_gd) (simp_all add: a_def)
  also have "drop 1 a = [255, 255, 255, 255, 255, 255, 255, 255, 255]" by (simp add: a_def)
  also have "gd 0 0 [255, 255, 255, 255, 255, 255, 255, 255, 255] = (- 1, 9)" by simp
  finally have v: "get_varint a 1 = (- 1, 9)" .
  have u: "usize_add 10 (unat (- 1 :: u64)) = 9" by (simp add: usize_add_def unsigned_minus_1_eq_mask mask_eq_exp_minus_1)
  have l: "length a = 10" "a ! 0 = 3" by (simp_all add: a_def)
  show ?thesis
    unfolding a_def [symmetric] parse_value_def serial_len_def parse_body_def
    using v u l by (simp add: index_at_def type_defs slice_def usize_add_def)
qed

definition late_key :: session_table where
  "late_key = (session_table_new [0x74])\<lparr>st_n_col := 2, st_ab_pk := [0, 1], st_az_col := [[0x61], [0x62]], st_initialized := True\<rparr>"

text \<open>
  with a key that is not the leading column the resolution SELECT names parameter 2 while
  a single value is bound to it.
\<close>

theorem select_parameter_gap:
  "build_select late_key = Ok (lit ''SELECT * FROM '' @ [0x22, 0x74, 0x22] @ lit '' WHERE '' @ [0x22, 0x62, 0x22] @ lit '' = ?2'')
   \<and> pk_values_of late_key (field_bytes [SNull, SInt 5]) = Ok (Some [Integer 5])"
proof
  show "build_select late_key = Ok (lit ''SELECT * FROM '' @ [0x22, 0x74, 0x22] @ lit '' WHERE '' @ [0x22, 0x62, 0x22] @ lit '' = ?2'')"
    by (simp add: build_select_def late_key_def session_table_new_def quote_ident_def index_at_def decimal.simps lit_def)
  have "parse_value (field_bytes [SNull, SInt 5]) 0 = Ok (SNull, 1)"
    using parse_value_field [of "field_bytes [SNull, SInt 5]" SNull 0 "field_bytes [SInt 5]"] by (simp add: fits_def put_i64_def)
  moreover have "parse_value (field_bytes [SNull, SInt 5]) 1 = Ok (SInt 5, 9)"
    using parse_value_field [of "field_bytes [SNull, SInt 5]" "SInt 5" 1 "[]"] by (simp add: fits_def put_i64_def)
  ultimately show "pk_values_of late_key (field_bytes [SNull, SInt 5]) = Ok (Some [Integer 5])"
    by (simp add: pk_values_of_def late_key_def session_table_new_def)
qed

subsection \<open>Rowid tables\<close>

text \<open>
  A rowid table: the rowid is its first column and its key, every entry is for a rowid, and the
  buckets hold entries.
\<close>

definition rowid_inv :: "session_table \<Rightarrow> bool" where
  "rowid_inv t \<longleftrightarrow> st_b_rowid t \<and> \<not> st_b_stat1 t \<and> st_free_ids t = [] \<and> (\<exists>m. st_ab_pk t = 1 # replicate m 0 \<and> st_n_col t = Suc m)
     \<and> distinct (concat (st_buckets t)) \<and> set (concat (st_buckets t)) \<subseteq> live (st_entries t)
     \<and> (\<forall>i e. slot (st_entries t) i e \<longrightarrow> cap_ok (st_ab_pk t) e)"

lemma key_of_zeros [simp]: "key_of (replicate m 0) us = []"
proof (induction m arbitrary: us)
  case (Suc m)
  then show ?case by (cases us) simp_all
qed simp

lemma rowid_entry:
  assumes "cap_ok (1 # replicate m 0) e" "cap_key (1 # replicate m 0) e = [SInt r']"
  shows "rowid_matches e r = Ok (r' = r)"
proof -
  note c = cap_okD [OF assms(1)]
  obtain us where us: "cap_rec (1 # replicate m 0) e = SInt r' # us"
    using c(2) assms(2) by (cases "cap_rec (1 # replicate m 0) e") (auto simp: cap_key_def)
  then have rec: "sc_record e = TYPE_INT # put_i64 r' @ field_bytes us" using c(1) by simp
  have "get_i64 (sc_record e) 1 = Ok r'" unfolding rec by (simp add: get_i64_def slice_def put_i64_def)
  then show ?thesis using rec by (simp add: rowid_matches_def)
qed

lemma rowid_not_int:
  assumes "cap_ok (1 # replicate m 0) e" "\<And>r'. cap_key (1 # replicate m 0) e \<noteq> [SInt r']"
  shows "rowid_matches e r = Ok False"
proof -
  note c = cap_okD [OF assms(1)]
  obtain v us where us: "cap_rec (1 # replicate m 0) e = v # us" using c(2) by (cases "cap_rec (1 # replicate m 0) e") auto
  then have v: "is_key_val v" "v \<noteq> SInt r'" for r' using c(5) assms(2) by (auto simp: cap_key_def)
  then show ?thesis using c(1) us v(2) by (cases v) (auto simp: rowid_matches_def type_defs)
qed

lemma record_fields_rowid:
  assumes "st_b_rowid t" "st_ab_pk t = 1 # replicate (length s) 0"
  shows "k \<le> length s \<Longrightarrow> record_fields t OP_DELETE (Some s) nw [k ..< length s] = Ok (field_bytes (drop k (fields_of s)))"
proof (induction "length s - k" arbitrary: k)
  case (Suc d)
  then have k: "k < length s" by simp
  then have "record_fields t OP_DELETE (Some s) nw [Suc k ..< length s] = Ok (field_bytes (drop (Suc k) (fields_of s)))" using Suc by simp
  moreover have "drop k (fields_of s) = field_of_value (Some (s ! k)) # drop (Suc k) (fields_of s)"
    using k by (simp add: fields_of_def Cons_nth_drop_Suc [symmetric])
  ultimately show ?case using k assms by (simp add: upt_conv_Cons index_at_def op_defs append_value_field)
qed simp

text \<open>
  C40: a row of a rowid table is captured twice. The capture looks a rowid up by one hash and the
  growth of the table files it under another: when a rowid has an entry, the table is due to grow
  and the two hashes differ in the grown table, the deletion of the row does not find the entry
  and appends a second one for the same rowid.
\<close>

theorem rowid_row_captured_twice:
  assumes inv: "rowid_inv t" and grow: "st_buckets t \<noteq> []" "length (st_buckets t) div 2 \<le> st_n_entry t" "length (st_buckets t) < 2 ^ 30"
    and e: "slot (st_entries t) i e" "cap_key (st_ab_pk t) e = [SInt r]"
    and hash: "hash_i64 (hash_type 0 TYPE_INT) r mod word_of_nat (length (st_buckets t) * 2) \<noteq> hash_i64 0 r mod word_of_nat (length (st_buckets t) * 2)"
    and s: "Suc (length s) = st_n_col t" "fits (field_bytes (SInt r # fields_of s))"
  shows "\<exists>t' e'. record_one_table s_ind t OP_DELETE r (Some s) None depth False = Ok t'
    \<and> st_entries t' = st_entries t @ [Some e'] \<and> sc_op e' = OP_DELETE \<and> cap_key (st_ab_pk t) e' = [SInt r]"
proof -
  let ?pk = "st_ab_pk t" and ?n = "length (st_buckets t) * 2"
  have t: "st_b_rowid t" "\<not> st_b_stat1 t" "st_free_ids t = []" "?pk = 1 # replicate (length s) 0" "\<And>i e. slot (st_entries t) i e \<Longrightarrow> cap_ok ?pk e"
    using inv s(1) by (auto simp: rowid_inv_def)
  have n: "0 < ?n" "?n < 2 ^ 32" using grow(1,3) by (auto simp: neq_Nil_conv)
  have "placed (change_hash ?pk) (st_entries t) (replicate ?n [])" "distinct (concat (st_buckets t))" "set (concat (st_buckets t)) \<subseteq> live (st_entries t)"
    using inv by (simp_all add: placed_def rowid_inv_def)
  then have "\<exists>nb. rehash_ids (\<lambda>i. bind_outcome (get_entry (st_entries t) i) (change_hash ?pk ?n)) (concat (st_buckets t)) (replicate ?n []) = Ok nb \<and> length nb = ?n
      \<and> distinct (concat nb) \<and> placed (change_hash ?pk) (st_entries t) nb \<and> set (concat nb) = set (concat (replicate ?n [])) \<union> set (concat (st_buckets t))"
    by (intro session_index.rehash_ids_ok [OF n]) (simp_all add: t(5))
  then obtain nb where nb: "rehash_ids (\<lambda>i. bind_outcome (get_entry (st_entries t) i) (change_hash ?pk ?n)) (concat (st_buckets t)) (replicate ?n []) = Ok nb"
    "length nb = ?n" "placed (change_hash ?pk) (st_entries t) nb" "set (concat nb) = set (concat (st_buckets t))" by auto
  let ?t = "t\<lparr>st_buckets := nb\<rparr>"
  have g: "grow_hash t = Ok ?t" using grow(1,2) nb(1) by (simp add: grow_hash_def Let_def)
  define h where "h = unat (hash_i64 0 r mod (word_of_nat (length nb) :: u32))"
  have h: "(word_of_nat (length nb) :: u32) \<noteq> 0" "h < length nb" using u32_mod_less [of "length nb" "hash_i64 0 r"] n nb(2) by (auto simp: h_def)
  define same where "same = (\<lambda>i. bind_outcome (index_at (st_entries t) i) (\<lambda>e. case e of None \<Rightarrow> Ok False | Some e' \<Rightarrow> rowid_matches e' r))"
  have miss: "same j = Ok False" if j: "j \<in> set (nb ! h)" for j
  proof -
    have "j \<in> live (st_entries t)" using set_nth_concat [OF h(2)] j nb(4) inv by (auto simp: rowid_inv_def simp del: set_concat)
    then obtain e' where e': "slot (st_entries t) j e'" by (auto simp: live_slot)
    have ok: "cap_ok ?pk e'" by (rule t(5) [OF e'])
    have "change_hash ?pk (length nb) e' = Ok h" using nb(3) h(2) j e' by (auto simp: placed_def)
    then have hk: "unat (key_hash (cap_key ?pk e') mod (word_of_nat (length nb) :: u32)) = h" using change_hash_key [OF ok, of "length nb"] h(1) by simp
    have "cap_key ?pk e' \<noteq> [SInt r]" using hk hash nb(2) unfolding h_def word_unat_eq_iff by (auto simp: key_hash_def)
    then have "rowid_matches e' r = Ok False"
      using rowid_entry [OF ok [unfolded t(4)], of _ r] rowid_not_int [OF ok [unfolded t(4)], of r] unfolding t(4) by metis
    then show ?thesis using e' by (simp add: same_def slot_def index_at_def)
  qed
  let ?e = "\<lparr>sc_op = OP_DELETE, sc_indirect = (s_ind \<or> 0 < depth), sc_record = TYPE_INT # put_i64 r @ field_bytes (fields_of s)\<rparr>"
  have "find_in_chain same (nb ! h) = Ok (find (\<lambda>_. False) (nb ! h))" by (rule find_in_chain_eq) (rule miss)
  moreover have "find (\<lambda>_. False) xs = None" for xs :: "nat list" by (induction xs) simp_all
  ultimately have none: "find_in_chain same (nb ! h) = Ok None" by simp
  have rec: "record_fields ?t OP_DELETE (Some s) None [0 ..< length s] = Ok (field_bytes (fields_of s))"
    using record_fields_rowid [of ?t s 0 None] t(1,4) by simp
  have "record_one_table s_ind t OP_DELETE r (Some s) None depth False = capture_at s_ind t OP_DELETE r (Some s) None depth False (length s) (hash_i64 0 r)"
    using t(1,2) s(1) by (simp add: record_one_table_def op_defs flip: s(1))
  also have "\<dots> = push_entry ?t h ?e"
    unfolding capture_at_def g bind_outcome.simps Let_def using t(1) h none rec
    by (simp add: h_def [symmetric] same_def [symmetric] index_at_def [of nb])
  also have "\<dots> = Ok (?t\<lparr>st_entries := st_entries t @ [Some ?e], st_buckets := nb[h := length (st_entries t) # nb ! h], st_n_entry := st_n_entry t + 1\<rparr>)"
    using t(3) h(2) by (simp add: push_entry_def index_at_def)
  finally have "record_one_table s_ind t OP_DELETE r (Some s) None depth False
      = Ok (?t\<lparr>st_entries := st_entries t @ [Some ?e], st_buckets := nb[h := length (st_entries t) # nb ! h], st_n_entry := st_n_entry t + 1\<rparr>)" .
  moreover have "cap_rec ?pk ?e = SInt r # fields_of s" using s(2) t(4) by (intro cap_rec_fields) simp_all
  then have "cap_key ?pk ?e = [SInt r]" using t(4) by (simp add: cap_key_def)
  ultimately show ?thesis by auto
qed

text \<open>A table in which the rowids 1 to 128 were captured, as many as 256 buckets take.\<close>

definition full_rowids :: session_table where
  "full_rowids = (session_table_new [0x74])\<lparr>st_b_rowid := True, st_n_col := 2, st_ab_pk := [1, 0], st_az_col := [lit ''_rowid_'', [0x61]],
     st_initialized := True, st_n_entry := 128,
     st_entries := map (\<lambda>i. Some \<lparr>sc_op = OP_INSERT, sc_indirect = False, sc_record = field_bytes [SInt (word_of_nat (Suc i)), Undef]\<rparr>) [0..<128],
     st_buckets := map (\<lambda>b. rev (filter (\<lambda>i. unat (hash_i64 0 (word_of_nat (Suc i)) mod 256) = b) [0..<128])) [0..<256]\<rparr>"

lemma distinct_by_bucket: "distinct (concat (map (\<lambda>b. rev (filter (\<lambda>i. f i = b) xs)) [0..<m]))" if "distinct xs"
proof (induction m)
  case (Suc m)
  then show ?case using that by auto
qed simp

lemma rowid_record:
  "cap_ok [1, 0] \<lparr>sc_op = opn, sc_indirect = ind, sc_record = field_bytes [SInt r, Undef]\<rparr>"
  "cap_key [1, 0] \<lparr>sc_op = opn, sc_indirect = ind, sc_record = field_bytes [SInt r, Undef]\<rparr> = [SInt r]"
proof -
  have f: "fits (field_bytes [SInt r, Undef])" by (simp add: fits_def put_i64_def)
  then show "cap_ok [1, 0] \<lparr>sc_op = opn, sc_indirect = ind, sc_record = field_bytes [SInt r, Undef]\<rparr>"
    by (auto simp: cap_ok_def intro!: exI [of _ "[SInt r, Undef]"])
  show "cap_key [1, 0] \<lparr>sc_op = opn, sc_indirect = ind, sc_record = field_bytes [SInt r, Undef]\<rparr> = [SInt r]"
    using cap_rec_fields [of "[SInt r, Undef]" "[1, 0]", OF _ f] by (simp add: cap_key_def)
qed

lemma full_rowids_inv: "rowid_inv full_rowids"
proof -
  have "cap_ok (st_ab_pk full_rowids) e" if "slot (st_entries full_rowids) i e" for i e
    using that rowid_record(1) by (auto simp: slot_def full_rowids_def)
  moreover have "distinct (concat (st_buckets full_rowids))" by (simp add: full_rowids_def distinct_by_bucket)
  moreover have "set (concat (st_buckets full_rowids)) \<subseteq> live (st_entries full_rowids)" by (auto simp: full_rowids_def live_def)
  ultimately show ?thesis by (auto simp: rowid_inv_def full_rowids_def session_table_new_def intro!: exI [of _ 1] simp del: set_concat)
qed

theorem rowid_row_captured_twice_witness:
  "\<exists>t' e'. record_one_table False full_rowids OP_DELETE 1 (Some [Integer 7]) None 0 False = Ok t'
    \<and> st_entries t' = st_entries full_rowids @ [Some e'] \<and> cap_key [1, 0] e' = [SInt 1]"
proof -
  have slot: "slot (st_entries full_rowids) 0 \<lparr>sc_op = OP_INSERT, sc_indirect = False, sc_record = field_bytes [SInt 1, Undef]\<rparr>"
    by (simp add: slot_def full_rowids_def)
  have "hash_i64 (hash_type 0 TYPE_INT) 1 mod (512 :: u32) \<noteq> hash_i64 0 1 mod (512 :: u32)"
    by (simp add: hash_i64_def hash_type_def hash_append_def type_defs)
  moreover have b: "length (st_buckets full_rowids) = 256" "st_n_entry full_rowids = 128" "st_n_col full_rowids = 2" "st_ab_pk full_rowids = [1, 0]"
    by (simp_all add: full_rowids_def session_table_new_def)
  moreover have "st_buckets full_rowids \<noteq> []" using b(1) by force
  moreover have "fits (field_bytes (SInt 1 # fields_of [Integer 7]))" by (simp add: fits_def put_i64_def)
  ultimately show ?thesis
    using rowid_row_captured_twice [OF full_rowids_inv _ _ _ slot, of 1 "[Integer 7]" False 0] rowid_record(2) [of OP_INSERT False 1] by auto
qed

text \<open>
  A later changeset with fewer columns than its table passes the compatibility check; hashing
  its record with the table's key layout then reads past the record's end.
\<close>

lemma narrower_changeset_panics: "pk_hash_loop (p # ps) rec False h (length rec) = Panic"
  by (simp add: index_at_def serial_len_def)

end
