(* ===== verification/Utf16.thy ===== *)
theory Utf16
  imports Text
begin

text \<open>
  The character-level view of a string that the standard library gives: \<^verbatim>\<open>str::chars\<close>,
  \<^verbatim>\<open>char::encode_utf8\<close>, \<^verbatim>\<open>str::encode_utf16\<close> and \<^verbatim>\<open>String::from_utf16_lossy\<close>. A character is its
  scalar value, a UTF-16 code unit a number below \<open>2 ^ 16\<close>.
\<close>

subsection \<open>Characters of a UTF-8 string\<close>

fun char_value :: "bytes \<Rightarrow> nat" where
  "char_value [a] = unat a"
| "char_value [a, b] = (unat a - 0xC0) * 64 + (unat b - 0x80)"
| "char_value [a, b, c] = (unat a - 0xE0) * 4096 + (unat b - 0x80) * 64 + (unat c - 0x80)"
| "char_value [a, b, c, d] = (unat a - 0xF0) * 262144 + (unat b - 0x80) * 4096 + (unat c - 0x80) * 64 + (unat d - 0x80)"
| "char_value _ = 0"

function str_chars :: "bytes \<Rightarrow> nat list" where
  "str_chars bs =
     (if bs = [] then []
      else case utf8_char bs of Good n \<Rightarrow> char_value (take n bs) # str_chars (drop n bs) | Bad _ \<Rightarrow> [])"
  by pat_completeness auto
termination
  by (relation "measure length") (auto dest: utf8_char_Good)

declare str_chars.simps [simp del]

definition encode_char :: "nat \<Rightarrow> bytes" where
  "encode_char c =
     (if c < 0x80 then [word_of_nat c]
      else if c < 0x800 then [word_of_nat (0xC0 + c div 64), word_of_nat (0x80 + c mod 64)]
      else if c < 0x10000
      then [word_of_nat (0xE0 + c div 4096), word_of_nat (0x80 + c div 64 mod 64), word_of_nat (0x80 + c mod 64)]
      else [word_of_nat (0xF0 + c div 262144), word_of_nat (0x80 + c div 4096 mod 64), word_of_nat (0x80 + c div 64 mod 64),
            word_of_nat (0x80 + c mod 64)])"

definition scalar :: "nat \<Rightarrow> bool" where
  "scalar c \<longleftrightarrow> c < 0x110000 \<and> \<not> (0xD800 \<le> c \<and> c < 0xE000)"

subsection \<open>UTF-16\<close>

definition char_units :: "nat \<Rightarrow> nat list" where
  "char_units c = (if c < 0x10000 then [c] else [0xD800 + (c - 0x10000) div 0x400, 0xDC00 + (c - 0x10000) mod 0x400])"

definition encode_utf16 :: "bytes \<Rightarrow> nat list" where
  "encode_utf16 s = concat (map char_units (str_chars s))"

fun utf16_chars :: "nat list \<Rightarrow> nat list" where
  "utf16_chars [] = []"
| "utf16_chars (u # us) =
     (if u < 0xD800 \<or> 0xE000 \<le> u then u # utf16_chars us
      else if 0xDC00 \<le> u then 0xFFFD # utf16_chars us
      else (case us of
              v # vs \<Rightarrow> if 0xDC00 \<le> v \<and> v < 0xE000
                        then (0x10000 + (u - 0xD800) * 0x400 + (v - 0xDC00)) # utf16_chars vs
                        else 0xFFFD # utf16_chars us
            | [] \<Rightarrow> [0xFFFD]))"

definition from_utf16_lossy :: "nat list \<Rightarrow> bytes" where
  "from_utf16_lossy us = concat (map encode_char (utf16_chars us))"

subsection \<open>Round trips\<close>

lemma byte_of_nat: "n = unat b \<Longrightarrow> word_of_nat n = (b :: byte)"
  by simp

lemma digit64: "w < 64 \<Longrightarrow> (q * 64 + w) div 64 = (q :: nat)" "w < 64 \<Longrightarrow> (q * 64 + w) mod 64 = w"
  by simp_all

lemma div_4096: "(n :: nat) div 4096 = n div 64 div 64" and div_262144: "n div 262144 = n div 64 div 64 div 64"
  by (simp_all add: div_mult2_eq [symmetric])

lemma encode_two:
  assumes "0xC2 \<le> unat a" "unat a \<le> 0xDF" "is_cont b"
  shows "encode_char (char_value [a, b]) = [a, b]" "scalar (char_value [a, b])"
proof -
  define x y where "x = unat a - 0xC0" and "y = unat b - 0x80"
  have xy: "unat a = 0xC0 + x" "unat b = 0x80 + y" "2 \<le> x" "x < 32" "y < 64"
    using assms by (auto simp: x_def y_def is_cont_def)
  have v: "char_value [a, b] = x * 64 + y" by (simp add: x_def y_def)
  have w: "word_of_nat (0xC0 + x) = a" "word_of_nat (0x80 + y) = b" by (rule byte_of_nat; simp only: xy)+
  have r: "128 \<le> x * 64 + y" "x * 64 + y < 2048" using xy(3-5) by linarith+
  show "encode_char (char_value [a, b]) = [a, b]"
    unfolding v encode_char_def digit64 [OF xy(5)] w using r by simp
  show "scalar (char_value [a, b])" unfolding v using r by (simp add: scalar_def)
qed

lemma encode_three:
  assumes "0xE0 \<le> unat a" "unat a \<le> 0xEF" "second3_ok (unat a) b" "is_cont c"
  shows "encode_char (char_value [a, b, c]) = [a, b, c]" "scalar (char_value [a, b, c])"
proof -
  define x y z where "x = unat a - 0xE0" and "y = unat b - 0x80" and "z = unat c - 0x80"
  have xy: "unat a = 0xE0 + x" "unat b = 0x80 + y" "unat c = 0x80 + z" "x < 16" "y < 64" "z < 64"
      "x = 0 \<longrightarrow> 32 \<le> y" "x = 13 \<longrightarrow> y < 32"
    using assms by (auto simp: x_def y_def z_def is_cont_def second3_ok_def split: if_splits)
  have v: "char_value [a, b, c] = (x * 64 + y) * 64 + z" by (simp add: x_def y_def z_def)
  have w: "word_of_nat (0xE0 + x) = a" "word_of_nat (0x80 + y) = b" "word_of_nat (0x80 + z) = c" by (rule byte_of_nat; simp only: xy)+
  have r: "2048 \<le> (x * 64 + y) * 64 + z" "(x * 64 + y) * 64 + z < 65536"
    by (cases "x = 0"; use xy(4-7) in simp; fail) (use xy(4-6) in simp)
  show "encode_char (char_value [a, b, c]) = [a, b, c]"
    unfolding v encode_char_def div_4096 digit64 [OF xy(6)] digit64 [OF xy(5)] w using r by simp
  have "x < 13 \<or> x = 13 \<or> 14 \<le> x" by linarith
  then show "scalar (char_value [a, b, c])"
    unfolding v scalar_def using xy(4-8) r by (elim disjE) auto
qed

lemma encode_four:
  assumes "0xF0 \<le> unat a" "unat a \<le> 0xF4" "second4_ok (unat a) b" "is_cont c" "is_cont d"
  shows "encode_char (char_value [a, b, c, d]) = [a, b, c, d]" "scalar (char_value [a, b, c, d])"
proof -
  define x y z w where "x = unat a - 0xF0" and "y = unat b - 0x80" and "z = unat c - 0x80" and "w = unat d - 0x80"
  have xy: "unat a = 0xF0 + x" "unat b = 0x80 + y" "unat c = 0x80 + z" "unat d = 0x80 + w" "x \<le> 4" "y < 64" "z < 64" "w < 64"
      "x = 0 \<longrightarrow> 16 \<le> y" "x = 4 \<longrightarrow> y < 16"
    using assms by (auto simp: x_def y_def z_def w_def is_cont_def second4_ok_def split: if_splits)
  have v: "char_value [a, b, c, d] = ((x * 64 + y) * 64 + z) * 64 + w" by (simp add: x_def y_def z_def w_def)
  have ws: "word_of_nat (0xF0 + x) = a" "word_of_nat (0x80 + y) = b" "word_of_nat (0x80 + z) = c" "word_of_nat (0x80 + w) = d"
    by (rule byte_of_nat; simp only: xy)+
  have r: "65536 \<le> ((x * 64 + y) * 64 + z) * 64 + w" "((x * 64 + y) * 64 + z) * 64 + w < 0x110000"
    by (cases "x = 0"; use xy(5-9) in simp; fail) (cases "x = 4"; use xy(5-10) in simp; fail)
  show "encode_char (char_value [a, b, c, d]) = [a, b, c, d]"
    unfolding v encode_char_def div_4096 div_262144 digit64 [OF xy(8)] digit64 [OF xy(7)] digit64 [OF xy(6)] ws using r by simp
  show "scalar (char_value [a, b, c, d])" unfolding v scalar_def using r by simp
qed

lemma utf8_char_value:
  assumes "utf8_char bs = Good n"
  shows "encode_char (char_value (take n bs)) = take n bs \<and> scalar (char_value (take n bs))"
proof -
  obtain a as where bs: "bs = a # as" using assms by (cases bs) auto
  consider (one) "n = 1" "unat a < 0x80"
    | (two) b r where "n = 2" "as = b # r" "0xC2 \<le> unat a" "unat a \<le> 0xDF" "is_cont b"
    | (three) b c r where "n = 3" "as = b # c # r" "0xE0 \<le> unat a" "unat a \<le> 0xEF" "second3_ok (unat a) b" "is_cont c"
    | (four) b c d r where "n = 4" "as = b # c # d # r" "0xF0 \<le> unat a" "unat a \<le> 0xF4" "second4_ok (unat a) b" "is_cont c" "is_cont d"
    using assms unfolding bs
    by (auto simp: Let_def split: if_splits list.splits elim!: third_cont.elims third_fourth_cont.elims)
  then show ?thesis
  proof cases
    case one
    then show ?thesis by (simp add: bs encode_char_def scalar_def)
  next
    case two
    then show ?thesis using encode_two by (simp add: bs numeral_2_eq_2)
  next
    case three
    then show ?thesis using encode_three by (simp add: bs numeral_3_eq_3)
  next
    case four
    then have "take n bs = [a, b, c, d]" by (simp add: bs eval_nat_numeral)
    then show ?thesis using encode_four four by simp
  qed
qed

lemma str_chars_valid:
  "utf8_scan pos bs = None \<Longrightarrow> concat (map encode_char (str_chars bs)) = bs \<and> list_all scalar (str_chars bs)"
proof (induction pos bs rule: utf8_scan.induct)
  case (1 pos bs)
  show ?case
  proof (cases "bs = []")
    case True
    then show ?thesis by (simp add: str_chars.simps)
  next
    case False
    with 1(2) obtain n where n: "utf8_char bs = Good n" "utf8_scan (pos + n) (drop n bs) = None"
      by (auto simp: utf8_scan.simps [of pos bs] split: utf8_step.splits)
    from 1(1) [OF False n] utf8_char_value [OF n(1)] n(1) False show ?thesis
      by (simp add: str_chars.simps [of bs])
  qed
qed

lemma utf16_chars_units: "scalar c \<Longrightarrow> utf16_chars (char_units c @ us) = c # utf16_chars us"
proof -
  assume s: "scalar c"
  show ?thesis
  proof (cases "c < 0x10000")
    case True
    with s show ?thesis by (auto simp: char_units_def scalar_def)
  next
    case False
    define h l where "h = (c - 0x10000) div 0x400" and "l = (c - 0x10000) mod 0x400"
    have c: "c = 0x10000 + h * 0x400 + l" using False by (simp add: h_def l_def)
    have b: "h < 0x400" "l < 0x400" using s False unfolding h_def l_def scalar_def by auto
    show ?thesis using False b c unfolding char_units_def h_def [symmetric] l_def [symmetric] by simp
  qed
qed

lemma utf16_roundtrip: "utf8_valid s \<Longrightarrow> from_utf16_lossy (encode_utf16 s) = s"
proof -
  assume v: "utf8_valid s"
  have "list_all scalar cs \<Longrightarrow> utf16_chars (concat (map char_units cs)) = cs" for cs
    by (induction cs) (simp_all add: utf16_chars_units)
  with v str_chars_valid [of 0 s] show ?thesis by (simp add: from_utf16_lossy_def encode_utf16_def from_utf8_def)
qed

lemma char_units_bound: "scalar c \<Longrightarrow> list_all (\<lambda>u. u < 65536) (char_units c)"
  by (auto simp: char_units_def scalar_def)

lemma encode_utf16_bound: "utf8_valid s \<Longrightarrow> list_all (\<lambda>u. u < 65536) (encode_utf16 s)"
  using str_chars_valid [of 0 s] char_units_bound by (auto simp: encode_utf16_def from_utf8_def list_all_iff)

end
