(* ===== verification/Sqlite_Record.thy ===== *)
theory Sqlite_Record
  imports Values Varint Utf16
begin

text \<open>
  \<^verbatim>\<open>src/storage/sqlitefmt/record.rs\<close>: the record format of SQLite files, a header of serial types
  followed by the value bodies, in the three text encodings.
\<close>

subsection \<open>The code\<close>

datatype text_enc = Utf8 | Utf16Le | Utf16Be

fun text_enc_as_u32 :: "text_enc \<Rightarrow> nat" where
  "text_enc_as_u32 Utf8 = 1"
| "text_enc_as_u32 Utf16Le = 2"
| "text_enc_as_u32 Utf16Be = 3"

definition text_enc_from_u32 :: "nat \<Rightarrow> text_enc outcome" where
  "text_enc_from_u32 v =
     (if v = 0 \<or> v = 1 then Ok Utf8 else if v = 2 then Ok Utf16Le else if v = 3 then Ok Utf16Be
      else Err ''invalid text encoding'')"

definition unit_bytes :: "text_enc \<Rightarrow> nat \<Rightarrow> bytes" where
  "unit_bytes enc u = (if enc = Utf16Be then be_bytes 2 u else le_bytes 2 u)"

fun cmp_units :: "text_enc \<Rightarrow> nat list \<Rightarrow> nat list \<Rightarrow> ordering" where
  "cmp_units enc (u # us) (v # vs) =
     (let c = cmp_list (unit_bytes enc u) (unit_bytes enc v) in if c \<noteq> Equal then c else cmp_units enc us vs)"
| "cmp_units enc _ _ = Equal"

definition text_order_cmp :: "bytes \<Rightarrow> bytes \<Rightarrow> text_enc \<Rightarrow> ordering" where
  "text_order_cmp a b enc =
     (if enc = Utf8 then cmp_list a b
      else let c = cmp_units enc (encode_utf16 a) (encode_utf16 b)
           in if c \<noteq> Equal then c else cmp_of (length (encode_utf16 a)) (length (encode_utf16 b)))"

definition text_encoded_bytes :: "bytes \<Rightarrow> text_enc \<Rightarrow> bytes" where
  "text_encoded_bytes s enc = (if enc = Utf8 then s else concat (map (unit_bytes enc) (encode_utf16 s)))"

definition encode_text_bytes :: "bytes \<Rightarrow> text_enc \<Rightarrow> bytes" where
  "encode_text_bytes s enc = (if enc = Utf8 then s else concat (map (unit_bytes enc) (encode_utf16 s)))"

text \<open>\<^verbatim>\<open>String::from_utf8_lossy\<close>: every invalid sequence becomes U+FFFD.\<close>

function from_utf8_lossy :: "bytes \<Rightarrow> bytes" where
  "from_utf8_lossy bs =
     (if bs = [] then []
      else case utf8_char bs of
             Good n \<Rightarrow> take n bs @ from_utf8_lossy (drop n bs)
           | Bad (Some k) \<Rightarrow> [0xEF, 0xBF, 0xBD] @ from_utf8_lossy (drop k bs)
           | Bad None \<Rightarrow> [0xEF, 0xBF, 0xBD])"
  by pat_completeness auto
termination
  by (relation "measure length") (auto dest: utf8_char_Good utf8_char_Bad)

declare from_utf8_lossy.simps [simp del]

fun text_units :: "text_enc \<Rightarrow> bytes \<Rightarrow> nat list" where
  "text_units enc (a # b # bs) = be_nat (if enc = Utf16Be then [a, b] else [b, a]) # text_units enc bs"
| "text_units enc _ = []"

definition decode_text_bytes :: "bytes \<Rightarrow> text_enc \<Rightarrow> bytes" where
  "decode_text_bytes bytes enc = (if enc = Utf8 then from_utf8_lossy bytes else from_utf16_lossy (text_units enc bytes))"

definition varint_len :: "u64 \<Rightarrow> nat" where
  "varint_len v = varint_count 1 (drop_bit 7 v)"

definition write_be_int :: "i64 \<Rightarrow> nat \<Rightarrow> bytes" where
  "write_be_int v n = drop (8 - n) (be64 v)"

definition real_is_storable_as_int :: "f64 \<Rightarrow> bool" where
  "real_is_storable_as_int f \<longleftrightarrow> f64_is_finite f \<and> f64_is_integral f \<and> f64_abs_trunc f \<le> 9007199254740992
     \<and> \<not> (f64_is_zero f \<and> f64_negative f)"

definition int_serial :: "i64 \<Rightarrow> u64 \<times> nat" where
  "int_serial i =
     (if i = 0 then (8, 0)
      else if i = 1 then (9, 0)
      else if -128 \<le> sint i \<and> sint i < 128 then (1, 1)
      else if -32768 \<le> sint i \<and> sint i < 32768 then (2, 2)
      else if -8388608 \<le> sint i \<and> sint i < 8388608 then (3, 3)
      else if -2147483648 \<le> sint i \<and> sint i < 2147483648 then (4, 4)
      else if -140737488355328 \<le> sint i \<and> sint i < 140737488355328 then (5, 6)
      else (6, 8))"

fun serial_type_and_size :: "val \<Rightarrow> text_enc \<Rightarrow> u64 \<times> nat" where
  "serial_type_and_size Null enc = (0, 0)"
| "serial_type_and_size (Integer i) enc = int_serial i"
| "serial_type_and_size (Real f) enc =
     (if f64_is_nan f then (7, 8)
      else if real_is_storable_as_int f then int_serial (f64_to_i64 f)
      else (7, 8))"
| "serial_type_and_size (Txt t) enc =
     (let n = (if enc = Utf8 then length (as_bytes t) else length (encode_utf16 (as_str t)) * 2)
      in (13 + 2 * word_of_nat n, n))"
| "serial_type_and_size (Blob b) enc = (12 + 2 * word_of_nat (length b), length b)"

fun value_body :: "val \<Rightarrow> text_enc \<Rightarrow> bytes" where
  "value_body Null enc = []"
| "value_body (Integer i) enc = (let n = snd (int_serial i) in if 0 < n then write_be_int i n else [])"
| "value_body (Real f) enc =
     (if real_is_storable_as_int f
      then let i = f64_to_i64 f; n = snd (int_serial i) in if 0 < n then write_be_int i n else []
      else be64 f)"
| "value_body (Txt t) enc = (if enc = Utf8 then as_bytes t else encode_text_bytes (as_str t) enc)"
| "value_body (Blob b) enc = b"

lemma varint_len_bound: "1 \<le> varint_len v \<and> varint_len v \<le> 10"
proof -
  have "unat v div 2 ^ 7 < 128 ^ 9" using u64_bound [of v] by (simp add: div_less_iff_less_mult)
  then have "groups (unat v div 2 ^ 7) \<le> 9" by (rule groups_le)
  then show ?thesis by (simp add: varint_len_def varint_count_groups unat_drop7)
qed

text \<open>The size of the header's own size field: the two encoders search it differently.\<close>

function size_prefix_loop :: "nat \<Rightarrow> nat \<Rightarrow> nat" where
  "size_prefix_loop size_prefix hlen =
     (let needed = varint_len (word_of_nat (size_prefix + hlen))
      in if needed \<le> size_prefix then size_prefix else size_prefix_loop needed hlen)"
  by pat_completeness auto
termination
proof (relation "measure (\<lambda>(sp, h). 10 - sp)", goal_cases)
  case (2 sp h needed)
  then show ?case using varint_len_bound [of "word_of_nat (sp + h)"] by auto
qed simp

function size_prefix_step :: "nat \<Rightarrow> nat \<Rightarrow> nat" where
  "size_prefix_step size_prefix hlen =
     (if size_prefix < varint_len (word_of_nat (size_prefix + hlen)) then size_prefix_step (size_prefix + 1) hlen else size_prefix)"
  by pat_completeness auto
termination
proof (relation "measure (\<lambda>(sp, h). 10 - sp)", goal_cases)
  case (2 sp h)
  then show ?case using varint_len_bound [of "word_of_nat (sp + h)"] by auto
qed simp

declare size_prefix_loop.simps [simp del] size_prefix_step.simps [simp del]

definition write_header_and_body :: "val list \<Rightarrow> text_enc \<Rightarrow> bytes" where
  "write_header_and_body values enc =
     (let header = concat (map (\<lambda>v. write_varint (fst (serial_type_and_size v enc))) values);
          size_prefix = size_prefix_loop 1 (length header)
      in write_varint (word_of_nat (size_prefix + length header)) @ header @ concat (map (\<lambda>v. value_body v enc) values))"

definition encode_record_enc :: "val list \<Rightarrow> text_enc \<Rightarrow> bytes" where
  "encode_record_enc values enc = write_header_and_body values enc"

definition encode_record :: "val list \<Rightarrow> bytes" where
  "encode_record values = encode_record_enc values Utf8"

definition encode_record_aliased_enc :: "val list \<Rightarrow> nat option \<Rightarrow> text_enc \<Rightarrow> bytes" where
  "encode_record_aliased_enc values alias enc =
     encode_record_enc (map (\<lambda>(i, v). if Some i = alias then Null else v) (List.enumerate 0 values)) enc"

definition encode_record_aliased :: "val list \<Rightarrow> nat option \<Rightarrow> bytes" where
  "encode_record_aliased values alias = encode_record_aliased_enc values alias Utf8"

definition index_serial :: "val \<Rightarrow> u64 \<times> nat" where
  "index_serial v = (case v of Real _ \<Rightarrow> (7, 8) | _ \<Rightarrow> serial_type_and_size v Utf8)"

definition index_body :: "val \<Rightarrow> bytes" where
  "index_body v = (case v of Real f \<Rightarrow> be64 f | _ \<Rightarrow> value_body v Utf8)"

definition encode_index_record :: "val list \<Rightarrow> bytes" where
  "encode_index_record values =
     (let header = concat (map (\<lambda>v. write_varint (fst (index_serial v))) values);
          size_prefix = size_prefix_step 1 (length header)
      in write_varint (word_of_nat (size_prefix + length header)) @ header @ concat (map index_body values))"

definition be_int :: "bytes \<Rightarrow> nat \<Rightarrow> nat \<Rightarrow> (val \<times> nat) outcome" where
  "be_int payload n body =
     (let fin = usize_add body n in
      if length payload < fin then Err ''truncated integer body''
      else bind_outcome (slice payload body fin) (\<lambda>bs.
        bind_outcome (index_at bs 0) (\<lambda>b0.
          Ok (Integer (of_be64 (replicate (8 - n) (if n < 8 \<and> b0 AND 0x80 \<noteq> 0 then 0xff else 0) @ bs)), fin))))"

definition body_slice :: "bytes \<Rightarrow> nat \<Rightarrow> nat \<Rightarrow> string \<Rightarrow> (bytes \<Rightarrow> val) \<Rightarrow> (val \<times> nat) outcome" where
  "body_slice payload body n msg mk =
     (let fin = usize_add body n in
      if length payload < fin then Err msg
      else bind_outcome (slice payload body fin) (\<lambda>bs. Ok (mk bs, fin)))"

definition decode_value :: "bytes \<Rightarrow> nat \<Rightarrow> u64 \<Rightarrow> text_enc \<Rightarrow> (val \<times> nat) outcome" where
  "decode_value payload body st enc =
     (if st = 0 then Ok (Null, body)
      else if st = 1 then be_int payload 1 body
      else if st = 2 then be_int payload 2 body
      else if st = 3 then be_int payload 3 body
      else if st = 4 then be_int payload 4 body
      else if st = 5 then be_int payload 6 body
      else if st = 6 then be_int payload 8 body
      else if st = 7 then body_slice payload body 8 ''truncated float body'' (\<lambda>bs. Real (of_be64 bs))
      else if st = 8 then Ok (Integer 0, body)
      else if st = 9 then Ok (Integer 1, body)
      else if 12 \<le> st \<and> st mod 2 = 0
      then body_slice payload body (unat ((st - 12) div 2)) ''truncated blob body'' Blob
      else if 13 \<le> st
      then body_slice payload body (unat ((st - 13) div 2)) ''truncated text body''
             (\<lambda>bs. Txt (if enc = Utf8 then from_bytes bs else Plain (decode_text_bytes bs enc)))
      else Err ''invalid serial type'')"

text \<open>A varint ends inside the payload, so advancing by its length cannot wrap.\<close>

function read_serials :: "bytes \<Rightarrow> nat \<Rightarrow> nat \<Rightarrow> (u64 list \<times> nat) outcome" where
  "read_serials payload header_size off =
     (if off < header_size
      then case read_varint payload off of
             None \<Rightarrow> Err ''truncated serial type''
           | Some (st, used) \<Rightarrow>
               bind_outcome (read_serials payload header_size (off + used)) (\<lambda>(sts, off'). Ok (st # sts, off'))
      else Ok ([], off))"
  by pat_completeness auto
termination
proof (relation "measure (\<lambda>(p, h, off). length p - off)", goal_cases)
  case (2 p h off x st used)
  then have "read_varint p off = Some (st, used)" by simp
  from read_varint_consumed [OF this] show ?case by auto
qed simp

declare read_serials.simps [simp del]

fun decode_all :: "bytes \<Rightarrow> nat \<Rightarrow> u64 list \<Rightarrow> text_enc \<Rightarrow> val list outcome" where
  "decode_all payload body [] enc = Ok []"
| "decode_all payload body (st # sts) enc =
     (if st = 10 \<or> st = 11 then Err ''reserved serial type''
      else bind_outcome (decode_value payload body st enc) (\<lambda>(v, body').
        bind_outcome (decode_all payload body' sts enc) (\<lambda>vs. Ok (v # vs))))"

text \<open>The column cap is tested after a value is pushed: \<open>done\<close> values precede the ones decoded here.\<close>

fun decode_cols :: "bytes \<Rightarrow> nat \<Rightarrow> nat \<Rightarrow> nat \<Rightarrow> u64 list \<Rightarrow> text_enc \<Rightarrow> val list outcome" where
  "decode_cols payload n_cols done body [] enc = Ok []"
| "decode_cols payload n_cols done body (st # sts) enc =
     (if st = 10 \<or> st = 11 then Err ''reserved serial type''
      else bind_outcome (decode_value payload body st enc) (\<lambda>(v, body').
        if done + 1 = n_cols then Ok [v]
        else bind_outcome (decode_cols payload n_cols (done + 1) body' sts enc) (\<lambda>vs. Ok (v # vs))))"

definition record_header :: "bytes \<Rightarrow> (u64 list \<times> nat) outcome" where
  "record_header payload =
     bind_outcome (ok_or (read_varint payload 0) ''truncated record header'') (\<lambda>(hs, off).
       let header_size = unat hs in
       if length payload < header_size \<or> header_size = 0 then Err ''bad record header size''
       else bind_outcome (read_serials payload header_size off) (\<lambda>(serials, off').
         if off' \<noteq> header_size then Err ''record header overrun'' else Ok (serials, header_size)))"

definition decode_record_all_enc :: "bytes \<Rightarrow> text_enc \<Rightarrow> val list outcome" where
  "decode_record_all_enc payload enc =
     bind_outcome (record_header payload) (\<lambda>(serials, header_size). decode_all payload header_size serials enc)"

text \<open>
  The vector of the values is allocated for \<^verbatim>\<open>n_cols\<close> of them, after the header is read:
  \<^verbatim>\<open>Vec::with_capacity\<close> panics when their bytes exceed \<^verbatim>\<open>isize::MAX\<close>. A \<^verbatim>\<open>Value\<close> takes 32 bytes, the 24
  of a \<^verbatim>\<open>Text\<close> and the discriminant, aligned to 8. Running out of memory below that is not modelled.
\<close>

definition VALUE_SIZE :: nat where
  "VALUE_SIZE = 32"

definition with_capacity :: "nat \<Rightarrow> unit outcome" where
  "with_capacity n = (if n * VALUE_SIZE < 2 ^ 63 then Ok () else Panic)"

definition decode_record_enc :: "bytes \<Rightarrow> nat \<Rightarrow> text_enc \<Rightarrow> val list outcome" where
  "decode_record_enc payload n_cols enc =
     bind_outcome (record_header payload) (\<lambda>(serials, header_size).
       bind_outcome (with_capacity n_cols) (\<lambda>_.
       bind_outcome (decode_cols payload n_cols 0 header_size serials enc) (\<lambda>vs.
         Ok (vs @ replicate (n_cols - length vs) Null))))"

definition decode_record :: "bytes \<Rightarrow> nat \<Rightarrow> val list outcome" where
  "decode_record payload n_cols = decode_record_enc payload n_cols Utf8"

end
