(* ===== verification/Record_Roundtrip.thy ===== *)
theory Record_Roundtrip
  imports Sqlite_Record
begin

text \<open>
  The record codec: what is encoded decodes to the stored form of the values, whatever the text
  encoding and the column cap; decoding arbitrary bytes never panics; the text order is the
  order of the encoded bytes.
\<close>

subsection \<open>Integers\<close>

lemma be_bytes_split: "be_bytes (m + n) v = be_bytes m (v div 256 ^ n) @ be_bytes n v"
proof (induction m)
  case (Suc m)
  have "v div 256 ^ (m + n) = v div 256 ^ n div 256 ^ m"
    by (simp add: add.commute [of m] power_add div_mult2_eq)
  with Suc show ?case by simp
qed simp

lemma write_be_int_bytes: "n \<le> 8 \<Longrightarrow> write_be_int v n = be_bytes n (unat v)"
  using be_bytes_split [of "8 - n" n "unat v"] by (simp add: write_be_int_def)

lemma be_nat_zeros: "be_nat (replicate m 0) = 0"
  by (induction m) (simp_all add: be_nat_Cons)

lemma be_nat_ones: "be_nat (replicate m 0xFF) = 256 ^ m - 1"
proof (induction m)
  case (Suc m)
  have "(1 :: nat) \<le> 256 ^ m" by simp
  then have "255 * 256 ^ m + (256 ^ m - 1) = 256 ^ Suc m - (1 :: nat)" by simp
  with Suc show ?case by (simp add: be_nat_Cons)
qed simp

lemma be_bytes_Nil [simp]: "be_bytes n v = [] \<longleftrightarrow> n = 0"
  by (cases n) simp_all

lemma first_byte: "0 < n \<Longrightarrow> be_bytes n v ! 0 = word_of_nat (v div 256 ^ (n - 1))"
  by (cases n) simp_all

text \<open>Sign extension restores a value that fits in \<open>n\<close> bytes.\<close>

lemma sign_extend:
  assumes n: "1 \<le> n" "n < 8" and r: "- (2 ^ (8 * n - 1)) \<le> sint i" "sint i < 2 ^ (8 * n - 1)"
  shows "of_be64 (replicate (8 - n) (if be_bytes n (unat i) ! 0 AND 0x80 \<noteq> 0 then 0xff else 0) @ be_bytes n (unat i)) = (i :: i64)"
proof -
  define u where "u = unat i"
  define h :: nat where "h = 128 * 256 ^ (n - 1)"
  have N: "(256 :: nat) ^ n = 2 * h" unfolding h_def using n(1) by (simp flip: power_Suc)
  have "(2 :: int) ^ (8 * n - 1) = int h"
  proof -
    have "8 * n - 1 = 7 + 8 * (n - 1)" using n(1) by simp
    then have "(2 :: int) ^ (8 * n - 1) = 2 ^ 7 * (2 ^ 8) ^ (n - 1)" by (simp add: power_add power_mult)
    then show ?thesis by (simp add: h_def)
  qed
  note r' = r [unfolded this]
  have hb: "0 < h" "2 * h \<le> 2 ^ 56"
    using power_increasing [of n 7 "256 :: nat"] n N by (simp_all add: h_def)
  have u64: "u < 2 ^ 64" unfolding u_def by (rule u64_bound)
  have si: "sint i = (if u < 2 ^ 63 then int u else int u - 2 ^ 64)" unfolding u_def by (rule i64_cases)
  have top: "unat (be_bytes n u ! 0) = u div 256 ^ (n - 1) mod 256" using n(1) by (simp add: first_byte unat_word_of_nat_byte)
  have "unat (be_bytes n u ! 0) < 128 \<longleftrightarrow> u mod (2 * h) < h"
  proof -
    define b :: nat where "b = 256 ^ (n - 1)"
    have "u mod (b * 256) = b * (u div b mod 256) + u mod b" by (rule mod_mult2_eq)
    then have "u mod (b * 256) div b = u div b mod 256" by (simp add: b_def)
    moreover have "b * 256 = 2 * h" by (simp add: h_def b_def)
    ultimately have "u div b mod 256 = u mod (2 * h) div b" by simp
    moreover have "h = 128 * b" "0 < b" by (simp_all add: h_def b_def)
    ultimately show ?thesis unfolding top b_def [symmetric] by (simp add: div_less_iff_less_mult)
  qed
  then have sgn: "be_bytes n u ! 0 AND 0x80 = 0 \<longleftrightarrow> u mod (2 * h) < h" by (simp add: and_80_iff)
  have low: "be_nat (be_bytes n u) = u mod (2 * h)" by (simp add: be_nat_be_bytes N)
  show ?thesis
  proof (cases "sint i < 0")
    case False
    then have "u < h" using r' si u64 by (simp split: if_splits)
    then show ?thesis
      using sgn low hb unfolding u_def [symmetric] by (simp add: be_nat_append be_nat_zeros) (simp add: u_def)
  next
    case True
    then have k: "2 ^ 64 \<le> u + h" using r' si u64 by (simp split: if_splits)
    define m :: nat where "m = 256 ^ (8 - n)"
    have M: "m * (2 * h) = 2 ^ 64"
    proof -
      have "m * (2 * h) = 256 ^ (8 - n + n)" unfolding m_def N [symmetric] by (rule power_add [symmetric])
      then show ?thesis using n by simp
    qed
    have m: "1 \<le> m" by (simp add: m_def)
    have eq: "(m - 1) * (2 * h) = 2 ^ 64 - 2 * h" by (simp only: diff_mult_distrib mult_1 M)
    have "u div (2 * h) = m - 1"
    proof (rule div_nat_eqI)
      show "2 * h * (m - 1) \<le> u" using k hb unfolding mult.commute [of "2 * h"] eq by linarith
      have "2 * h * Suc (m - 1) = 2 ^ 64" using M m unfolding mult.commute [of "2 * h"] by simp
      then show "u < 2 * h * Suc (m - 1)" using u64 by simp
    qed
    then have u: "u = (m - 1) * (2 * h) + u mod (2 * h)" using div_mult_mod_eq [of u "2 * h"] by simp
    have "u = 2 ^ 64 - 2 * h + u mod (2 * h)" using u unfolding eq .
    moreover have "2 * h \<le> 2 ^ 64" using hb(2) by simp
    ultimately have "h \<le> u mod (2 * h)" using k by linarith
    then have "be_bytes n u ! 0 AND 0x80 \<noteq> 0" using sgn by simp
    then have "be_nat (replicate (8 - n) (if be_bytes n u ! 0 AND 0x80 \<noteq> 0 then 0xff else 0) @ be_bytes n u) = u"
      using u low N by (simp add: be_nat_append be_nat_ones m_def)
    then show ?thesis unfolding u_def [symmetric] by (simp add: u_def)
  qed
qed

lemma be_int_body:
  assumes "n \<in> {1, 2, 3, 4, 6}" "- (2 ^ (8 * n - 1)) \<le> sint i" "sint i < 2 ^ (8 * n - 1)" "fits (pre @ write_be_int i n @ rest)"
  shows "be_int (pre @ write_be_int i n @ rest) n (length pre) = Ok (Integer i, length pre + n)"
proof -
  have n: "1 \<le> n" "n < 8" using assms(1) by auto
  have w: "write_be_int i n = be_bytes n (unat i)" using n by (simp add: write_be_int_bytes)
  have add: "usize_add (length pre) n = length pre + n" using assms(4) w by (simp add: fits_def)
  have s: "slice (pre @ be_bytes n (unat i) @ rest) (length pre) (length pre + n) = Ok (be_bytes n (unat i))"
    by (simp add: slice_def)
  show ?thesis
    unfolding be_int_def w Let_def add using s sign_extend [OF n assms(2,3)] n by (simp add: index_at_def)
qed

lemma be_int_body8:
  assumes "fits (pre @ write_be_int i 8 @ rest)"
  shows "be_int (pre @ write_be_int i 8 @ rest) 8 (length pre) = Ok (Integer i, length pre + 8)"
proof -
  have w: "write_be_int i 8 = be64 i" by (simp add: write_be_int_bytes)
  have "usize_add (length pre) 8 = length pre + 8" using assms w by (simp add: fits_def)
  then show ?thesis unfolding be_int_def w Let_def by (simp add: index_at_def slice_def)
qed

lemma int_serial_cases:
  obtains (zero) "i = 0" "int_serial i = (8, 0)" | (one) "i = 1" "int_serial i = (9, 0)"
  | (narrow) st n where "int_serial i = (st, n)" "(st, n) \<in> {(1, 1), (2, 2), (3, 3), (4, 4), (5, 6)}"
      "- (2 ^ (8 * n - 1)) \<le> sint i" "sint i < 2 ^ (8 * n - 1)"
  | (wide) "int_serial i = (6, 8)"
proof -
  have "i = 0 \<and> int_serial i = (8, 0) \<or> i = 1 \<and> int_serial i = (9, 0)
    \<or> int_serial i = (1, 1) \<and> - (2 ^ 7) \<le> sint i \<and> sint i < 2 ^ 7
    \<or> int_serial i = (2, 2) \<and> - (2 ^ 15) \<le> sint i \<and> sint i < 2 ^ 15
    \<or> int_serial i = (3, 3) \<and> - (2 ^ 23) \<le> sint i \<and> sint i < 2 ^ 23
    \<or> int_serial i = (4, 4) \<and> - (2 ^ 31) \<le> sint i \<and> sint i < 2 ^ 31
    \<or> int_serial i = (5, 6) \<and> - (2 ^ 47) \<le> sint i \<and> sint i < 2 ^ 47
    \<or> int_serial i = (6, 8)"
    by (simp add: int_serial_def)
  then show thesis
    using zero one narrow [of 1 1] narrow [of 2 2] narrow [of 3 3] narrow [of 4 4] narrow [of 5 6] wide
    by (elim disjE conjE) simp_all
qed

lemma decode_int:
  assumes "fits (pre @ value_body (Integer i) enc @ rest)"
  shows "decode_value (pre @ value_body (Integer i) enc @ rest) (length pre) (fst (int_serial i)) enc
    = Ok (Integer i, length pre + length (value_body (Integer i) enc))"
proof (cases i rule: int_serial_cases)
  case (narrow st n)
  then have n: "n \<in> {1, 2, 3, 4, 6}" "0 < n" "n \<le> 8" by auto
  have b: "value_body (Integer i) enc = write_be_int i n" using narrow(1) n by simp
  have "decode_value p k st enc = be_int p n k" for p k using narrow(2) by (auto simp: decode_value_def)
  with be_int_body [OF n(1) narrow(3,4)] assms narrow(1) n(3) show ?thesis
    unfolding b by (simp add: write_be_int_bytes)
next
  case wide
  then have b: "value_body (Integer i) enc = write_be_int i 8" by simp
  show ?thesis using be_int_body8 assms wide unfolding b by (simp add: decode_value_def write_be_int_bytes)
qed (simp_all add: decode_value_def)

subsection \<open>Values\<close>

text \<open>What a value becomes in a record: an integral real is stored as an integer.\<close>

fun stored :: "text_enc \<Rightarrow> val \<Rightarrow> val" where
  "stored enc (Real f) = (if real_is_storable_as_int f then Integer (f64_to_i64 f) else Real f)"
| "stored enc (Txt t) = (if enc = Utf8 then Txt t else Txt (Plain (as_str t)))"
| "stored enc v = v"

fun value_wf :: "val \<Rightarrow> bool" where
  "value_wf (Txt t) = text_wf t"
| "value_wf _ = True"

lemma u64_of_nat: "k < 2 ^ 64 \<Longrightarrow> unat (word_of_nat k :: u64) = k"
  by (simp add: unat_of_nat)

lemma decode_long:
  assumes "k < 2 ^ 64" "12 \<le> k"
  shows "decode_value p b (word_of_nat k) enc =
    (if even k then body_slice p b ((k - 12) div 2) ''truncated blob body'' Blob
     else body_slice p b ((k - 13) div 2) ''truncated text body'' (\<lambda>bs. Txt (if enc = Utf8 then from_bytes bs else Plain (decode_text_bytes bs enc))))"
proof -
  define st :: u64 where "st = word_of_nat k"
  have u: "unat st = k" using assms(1) by (simp add: st_def u64_of_nat)
  have ne: "st \<noteq> 0" "st \<noteq> 1" "st \<noteq> 2" "st \<noteq> 3" "st \<noteq> 4" "st \<noteq> 5" "st \<noteq> 6" "st \<noteq> 7" "st \<noteq> 8" "st \<noteq> 9"
    using u assms(2) by auto
  have ge: "12 \<le> st" "odd k \<Longrightarrow> 13 \<le> st" using u assms(2) by (auto simp: word_le_nat_alt elim: oddE)
  have ev: "st mod 2 = 0 \<longleftrightarrow> even k" using u by (simp add: word_unat_eq_iff unat_mod even_iff_mod_2_eq_zero)
  have d: "unat ((st - 12) div 2) = (k - 12) div 2" "odd k \<Longrightarrow> unat ((st - 13) div 2) = (k - 13) div 2"
    using ge u by (simp_all add: unat_div unat_sub)
  show ?thesis unfolding st_def [symmetric] decode_value_def using ne ge ev d by simp
qed

lemma body_slice_body:
  assumes "fits (pre @ bs @ rest)"
  shows "body_slice (pre @ bs @ rest) (length pre) (length bs) msg mk = Ok (mk bs, length pre + length bs)"
proof -
  have "usize_add (length pre) (length bs) = length pre + length bs" using assms by (simp add: fits_def)
  then show ?thesis by (simp add: body_slice_def slice_def)
qed

lemma nan_not_storable: "f64_is_nan f \<Longrightarrow> \<not> real_is_storable_as_int f"
proof -
  assume n: "f64_is_nan f"
  have m: "f AND 0x7FFFFFFFFFFFFFFF = take_bit 63 f" using take_bit_eq_mask [of 63 f] by (simp add: mask_eq_exp_minus_1)
  have e: "drop_bit 52 f AND 0x7FF = take_bit 11 (drop_bit 52 f)" using take_bit_eq_mask [of 11 "drop_bit 52 f"] by (simp add: mask_eq_exp_minus_1)
  define x where "x = unat f mod 2 ^ 63"
  have "2047 * 2 ^ 52 < x" using n by (simp add: f64_is_nan_def m word_less_nat_alt unat_take_bit x_def)
  moreover have "x < 2 ^ 63" by (simp add: x_def)
  ultimately have "x div 2 ^ 52 = 2047" by (intro div_nat_eqI) simp_all
  moreover have "unat f mod 2 ^ 63 div 2 ^ 52 = unat f div 2 ^ 52 mod 2 ^ 11"
  proof -
    have "unat f mod (2 ^ 52 * 2 ^ 11) = 2 ^ 52 * (unat f div 2 ^ 52 mod 2 ^ 11) + unat f mod 2 ^ 52" by (rule mod_mult2_eq)
    then show ?thesis by simp
  qed
  ultimately have "f64_exponent f = 2047" by (simp add: f64_exponent_def e unat_take_bit unat_drop7 x_def)
  then show ?thesis by (simp add: real_is_storable_as_int_def f64_is_finite_def)
qed

lemma text_units_bytes:
  assumes "enc \<noteq> Utf8"
  shows "list_all (\<lambda>u. u < 65536) us \<Longrightarrow> text_units enc (concat (map (unit_bytes enc) us)) = us"
proof (induction us)
  case (Cons u us)
  obtain a b where ab: "unit_bytes enc u = [a, b]"
    by (cases enc) (auto simp: unit_bytes_def le_bytes_def numeral_2_eq_2)
  have "be_nat (if enc = Utf16Be then [a, b] else [b, a]) = be_nat (be_bytes 2 u)"
    using ab assms by (auto simp: unit_bytes_def le_bytes_def numeral_2_eq_2 split: if_splits)
  also have "\<dots> = u" using Cons.prems by (simp add: be_nat_be_bytes)
  finally show ?case using Cons ab by simp
qed simp

lemma length_units: "length (concat (map (unit_bytes enc) us)) = 2 * length us"
  by (induction us) (simp_all add: unit_bytes_def)

lemma decode_text_encoded:
  assumes "utf8_valid s" "enc \<noteq> Utf8"
  shows "decode_text_bytes (encode_text_bytes s enc) enc = s"
  using assms utf16_roundtrip text_units_bytes [OF assms(2) encode_utf16_bound [OF assms(1)]]
  by (simp add: decode_text_bytes_def encode_text_bytes_def)

lemma text_from_as_bytes: "text_wf t \<Longrightarrow> from_bytes (as_bytes t) = t"
  by (cases t) (auto simp: from_bytes_def from_invalid_bytes_def text_wf_def split: option.splits)

lemma decode_value_body:
  assumes "value_wf v" "length (pre @ value_body v enc @ rest) < 2 ^ 62"
  shows "decode_value (pre @ value_body v enc @ rest) (length pre) (fst (serial_type_and_size v enc)) enc
    = Ok (stored enc v, length pre + length (value_body v enc))"
proof -
  have f: "fits (pre @ value_body v enc @ rest)" using assms(2) by (simp add: fits_def)
  show ?thesis
  proof (cases v)
    case Null
    then show ?thesis by (simp add: decode_value_def)
  next
    case (Integer i)
    then show ?thesis using decode_int [of pre i enc rest] f by simp
  next
    case (Real r)
    show ?thesis
    proof (cases "real_is_storable_as_int r")
      case True
      then have "\<not> f64_is_nan r" using nan_not_storable by blast
      moreover have "value_body v enc = value_body (Integer (f64_to_i64 r)) enc" using Real True by (simp add: Let_def)
      ultimately show ?thesis using decode_int [of pre "f64_to_i64 r" enc rest] f Real True by simp
    next
      case False
      have "body_slice (pre @ be64 r @ rest) (length pre) (length (be64 r)) ''truncated float body'' (\<lambda>bs. Real (of_be64 bs))
          = Ok (Real (of_be64 (be64 r)), length pre + length (be64 r))"
        using f Real False by (intro body_slice_body) simp
      then show ?thesis using Real False by (simp add: decode_value_def)
    qed
  next
    case (Txt t)
    define n where "n = length (value_body v enc)"
    have v: "utf8_valid (as_str t)" using assms(1) Txt as_str_valid by simp
    have st: "fst (serial_type_and_size v enc) = word_of_nat (13 + 2 * n)"
      using Txt by (simp add: n_def encode_text_bytes_def length_units Let_def)
    have k: "13 + 2 * n < 2 ^ 64" using assms(2) by (simp add: n_def)
    have "enc = Utf8 \<Longrightarrow> from_bytes (as_bytes t) = t" "enc \<noteq> Utf8 \<Longrightarrow> decode_text_bytes (encode_text_bytes (as_str t) enc) enc = as_str t"
      using Txt assms(1) v decode_text_encoded by (simp_all add: text_from_as_bytes)
    then show ?thesis
      unfolding st using decode_long [OF k, of "pre @ value_body v enc @ rest" "length pre" enc] body_slice_body [OF f] Txt
      by (simp add: n_def)
  next
    case (Blob b)
    have k: "12 + 2 * length b < 2 ^ 64" using assms(2) Blob by simp
    have "fst (serial_type_and_size v enc) = word_of_nat (12 + 2 * length b)" using Blob by simp
    then show ?thesis
      using decode_long [OF k, of "pre @ value_body v enc @ rest" "length pre" enc] body_slice_body [OF f] Blob by simp
  qed
qed

subsection \<open>The header\<close>

lemma groups_mono: "v \<le> w \<Longrightarrow> groups v \<le> groups w"
  using groups_bound [of w] by (intro groups_le) simp

lemma varint_len_mono: "v \<le> w \<Longrightarrow> w < 2 ^ 64 \<Longrightarrow> varint_len (word_of_nat v) \<le> varint_len (word_of_nat w)"
  by (simp add: varint_len_def varint_count_groups unat_drop7 u64_of_nat groups_mono div_le_mono)

lemma length_write_varint_len:
  assumes "unat v < 2 ^ 63"
  shows "length (write_varint v) = varint_len v"
proof (cases "unat v < 2 ^ 56")
  case True
  then show ?thesis by (simp add: write_varint_vspec vspec_def varint_len_def varint_count_groups unat_drop7)
next
  case False
  have "unat v div 128 < 128 ^ 8" using assms by (simp add: div_less_iff_less_mult)
  then have "groups (unat v div 128) \<le> 8" by (rule groups_le)
  moreover have "8 \<le> groups (unat v div 128)"
  proof (rule ccontr)
    assume "\<not> 8 \<le> groups (unat v div 128)"
    then have "(128 :: nat) ^ groups (unat v div 128) \<le> 128 ^ 7" by (intro power_increasing) simp_all
    then have "unat v div 128 < 128 ^ 7" using groups_bound [of "unat v div 128"] by simp
    then show False using False by (simp add: div_less_iff_less_mult)
  qed
  ultimately show ?thesis using False by (simp add: write_varint_vspec vspec_def varint_len_def varint_count_groups unat_drop7)
qed

text \<open>Both searches end at a size that counts itself.\<close>

lemma size_prefix_loop_fix:
  "sp \<le> varint_len (word_of_nat (sp + h)) \<Longrightarrow> sp \<le> 10 \<Longrightarrow> h + 10 < 2 ^ 63 \<Longrightarrow>
   size_prefix_loop sp h \<le> 10 \<and> varint_len (word_of_nat (size_prefix_loop sp h + h)) = size_prefix_loop sp h"
proof (induction sp h rule: size_prefix_loop.induct)
  case (1 sp h)
  define nd where "nd = varint_len (word_of_nat (sp + h))"
  show ?case
  proof (cases "nd \<le> sp")
    case True
    then have "nd = sp" using "1.prems" by (simp add: nd_def)
    then show ?thesis using True "1.prems" by (simp add: size_prefix_loop.simps [of sp h] Let_def nd_def)
  next
    case False
    have b: "nd \<le> 10" using varint_len_bound by (simp add: nd_def)
    have "nd \<le> varint_len (word_of_nat (nd + h))"
      unfolding nd_def using False "1.prems" b by (intro varint_len_mono) (simp_all add: nd_def)
    from "1.IH" [OF nd_def _ this b "1.prems"(3)] False show ?thesis
      by (simp add: size_prefix_loop.simps [of sp h] Let_def nd_def)
  qed
qed

lemma size_prefix_step_fix:
  "sp \<le> varint_len (word_of_nat (sp + h)) \<Longrightarrow> sp \<le> 10 \<Longrightarrow> h + 10 < 2 ^ 63 \<Longrightarrow>
   size_prefix_step sp h \<le> 10 \<and> varint_len (word_of_nat (size_prefix_step sp h + h)) = size_prefix_step sp h"
proof (induction sp h rule: size_prefix_step.induct)
  case (1 sp h)
  show ?case
  proof (cases "sp < varint_len (word_of_nat (sp + h))")
    case True
    have b: "sp + 1 \<le> 10" using True varint_len_bound [of "word_of_nat (sp + h)"] by simp
    have "varint_len (word_of_nat (sp + h)) \<le> varint_len (word_of_nat (sp + 1 + h))"
      using "1.prems" b by (intro varint_len_mono) simp_all
    then have "sp + 1 \<le> varint_len (word_of_nat (sp + 1 + h))" using True by simp
    from "1.IH" [OF True this b "1.prems"(3)] True show ?thesis by (simp add: size_prefix_step.simps [of sp h])
  next
    case False
    then show ?thesis using "1.prems" by (simp add: size_prefix_step.simps [of sp h])
  qed
qed

lemma read_serials_header:
  "payload = pre @ concat (map write_varint sts) @ rest \<Longrightarrow> off = length pre \<Longrightarrow> hs = off + length (concat (map write_varint sts)) \<Longrightarrow>
   read_serials payload hs off = Ok (sts, hs)"
proof (induction sts arbitrary: pre off)
  case Nil
  then show ?case by (simp add: read_serials.simps)
next
  case (Cons st sts)
  have l: "1 \<le> length (write_varint st)" using length_write_varint by blast
  have r: "read_varint payload off = Some (st, length (write_varint st))"
    using Cons.prems read_varint_at [of off pre st "concat (map write_varint sts) @ rest"] by simp
  have "read_serials payload hs (off + length (write_varint st)) = Ok (sts, hs)"
    using Cons.prems by (intro Cons.IH [where pre = "pre @ write_varint st"]) simp_all
  moreover have "off < hs" using l Cons.prems(3) by (auto simp del: length_greater_0_conv)
  ultimately show ?case using r by (subst read_serials.simps) simp
qed

lemma record_header_of:
  assumes "varint_len (word_of_nat (sp + length (concat (map write_varint sts)))) = sp" "sp \<le> 10"
    and "payload = write_varint (word_of_nat (sp + length (concat (map write_varint sts)))) @ concat (map write_varint sts) @ body"
    and "length payload < 2 ^ 62"
  shows "record_header payload = Ok (sts, sp + length (concat (map write_varint sts)))"
proof -
  define H where "H = concat (map write_varint sts)"
  have h: "sp + length H < 2 ^ 63" using assms(2-4) by (simp add: H_def)
  have u: "unat (word_of_nat (sp + length H) :: u64) = sp + length H" by (rule u64_of_nat) (use h in simp)
  have w: "length (write_varint (word_of_nat (sp + length H))) = sp"
    using length_write_varint_len [of "word_of_nat (sp + length H)"] u h assms(1) by (simp add: H_def)
  have p: "payload = write_varint (word_of_nat (sp + length H)) @ H @ body" using assms(3) by (simp add: H_def)
  have rv: "read_varint payload 0 = Some (word_of_nat (sp + length H), sp)"
    using read_varint_at [of 0 "[]" "word_of_nat (sp + length H)" "H @ body"] p w by simp
  have "read_serials payload (sp + length H) sp = Ok (sts, sp + length H)"
    using read_serials_header [of payload "write_varint (word_of_nat (sp + length H))" sts body sp "sp + length H"] p w
    by (simp add: H_def)
  moreover have "sp \<noteq> 0" using w length_write_varint [of "word_of_nat (sp + length H)"] by auto
  moreover have "sp + length H \<le> length payload" using p w by simp
  ultimately show ?thesis
    unfolding record_header_def H_def [symmetric] rv ok_or_def by (simp add: Let_def u del: of_nat_add)
qed

subsection \<open>The bodies\<close>

lemma serial_not_reserved: "fst (serial_type_and_size v enc) \<noteq> 10 \<and> fst (serial_type_and_size v enc) \<noteq> 11" if "length (value_body v enc) < 2 ^ 62"
proof -
  have i: "fst (int_serial i) \<noteq> 10 \<and> fst (int_serial i) \<noteq> 11" for i by (cases i rule: int_serial_cases) auto
  have w: "(word_of_nat (12 + m) :: u64) \<noteq> 10 \<and> (word_of_nat (12 + m) :: u64) \<noteq> 11" if "m < 2 ^ 63 + 1" for m
    using that u64_of_nat [of "12 + m"] by (auto simp del: of_nat_add)
  show ?thesis
  proof (cases v)
    case (Txt t)
    have "fst (serial_type_and_size v enc) = word_of_nat (12 + (1 + 2 * length (value_body v enc)))"
      using Txt by (simp add: encode_text_bytes_def length_units Let_def)
    with w [of "1 + 2 * length (value_body v enc)"] that show ?thesis by simp
  next
    case (Blob b)
    then have "fst (serial_type_and_size v enc) = word_of_nat (12 + 2 * length (value_body v enc))" by simp
    with w [of "2 * length (value_body v enc)"] that show ?thesis by simp
  qed (simp_all add: i)
qed

lemma decode_cols_bodies:
  "list_all value_wf vs \<Longrightarrow> payload = pre @ concat (map (\<lambda>v. value_body v enc) vs) @ rest \<Longrightarrow> length payload < 2 ^ 62 \<Longrightarrow> k < n \<Longrightarrow>
   decode_cols payload n k (length pre) (map (\<lambda>v. fst (serial_type_and_size v enc)) vs) enc = Ok (take (n - k) (map (stored enc) vs))"
proof (induction vs arbitrary: pre k)
  case (Cons v vs)
  have d: "decode_value payload (length pre) (fst (serial_type_and_size v enc)) enc = Ok (stored enc v, length pre + length (value_body v enc))"
    using Cons.prems decode_value_body [of v pre enc "concat (map (\<lambda>v. value_body v enc) vs) @ rest"] by simp
  have nr: "fst (serial_type_and_size v enc) \<noteq> 10 \<and> fst (serial_type_and_size v enc) \<noteq> 11"
    using Cons.prems(2,3) by (intro serial_not_reserved) simp
  show ?case
  proof (cases "Suc k = n")
    case True
    then have "n - k = Suc 0" by simp
    then show ?thesis using d nr True by simp
  next
    case False
    have "decode_cols payload n (Suc k) (length (pre @ value_body v enc)) (map (\<lambda>v. fst (serial_type_and_size v enc)) vs) enc
        = Ok (take (n - Suc k) (map (stored enc) vs))"
      using Cons.prems False by (intro Cons.IH) simp_all
    moreover have "n - k = Suc (n - Suc k)" using Cons.prems(4) by simp
    ultimately show ?thesis using d nr False by simp
  qed
qed simp

lemma encode_record_header:
  assumes "length (encode_record_enc vs enc) < 2 ^ 62"
  shows "\<exists>pre. encode_record_enc vs enc = pre @ concat (map (\<lambda>v. value_body v enc) vs)
    \<and> record_header (encode_record_enc vs enc) = Ok (map (\<lambda>v. fst (serial_type_and_size v enc)) vs, length pre)"
proof -
  define sts where "sts = map (\<lambda>v. fst (serial_type_and_size v enc)) vs"
  define H where "H = concat (map write_varint sts)"
  define sp where "sp = size_prefix_loop 1 (length H)"
  have p: "encode_record_enc vs enc = write_varint (word_of_nat (sp + length H)) @ H @ concat (map (\<lambda>v. value_body v enc) vs)"
    by (simp add: encode_record_enc_def write_header_and_body_def Let_def sp_def H_def sts_def o_def)
  have "length H + 10 < 2 ^ 63" using assms unfolding p by simp
  then have sp: "sp \<le> 10" "varint_len (word_of_nat (sp + length H)) = sp"
    unfolding sp_def using size_prefix_loop_fix [of 1 "length H"] varint_len_bound by auto
  have "record_header (encode_record_enc vs enc) = Ok (sts, sp + length H)"
    unfolding H_def using sp p assms by (intro record_header_of) (simp_all add: H_def)
  moreover have "unat (word_of_nat (sp + length H) :: u64) = sp + length H" using sp(1) assms unfolding p by (intro u64_of_nat) simp
  then have "length (write_varint (word_of_nat (sp + length H))) = sp"
    using length_write_varint_len [of "word_of_nat (sp + length H)"] sp assms unfolding p by (simp del: of_nat_add)
  ultimately show ?thesis
    using p by (intro exI [of _ "write_varint (word_of_nat (sp + length H)) @ H"]) (simp add: sts_def)
qed

subsection \<open>Index records\<close>

lemma decode_index_value:
  assumes "value_wf v" "length (pre @ index_body v @ rest) < 2 ^ 62"
  shows "decode_value (pre @ index_body v @ rest) (length pre) (fst (index_serial v)) Utf8 = Ok (v, length pre + length (index_body v))"
proof (cases v)
  case (Real f)
  have "body_slice (pre @ be64 f @ rest) (length pre) (length (be64 f)) ''truncated float body'' (\<lambda>bs. Real (of_be64 bs))
      = Ok (Real (of_be64 (be64 f)), length pre + length (be64 f))"
    using assms(2) Real by (intro body_slice_body) (simp add: fits_def index_body_def)
  then show ?thesis using Real by (simp add: decode_value_def index_body_def index_serial_def)
qed (use assms decode_value_body [of v pre Utf8 rest] in \<open>simp_all add: index_body_def index_serial_def\<close>)

lemma index_not_reserved: "length (index_body v) < 2 ^ 62 \<Longrightarrow> fst (index_serial v) \<noteq> 10 \<and> fst (index_serial v) \<noteq> 11"
  using serial_not_reserved [of v Utf8] by (cases v) (simp_all add: index_serial_def index_body_def)

lemma decode_all_bodies:
  "list_all value_wf vs \<Longrightarrow> payload = pre @ concat (map index_body vs) @ rest \<Longrightarrow> length payload < 2 ^ 62 \<Longrightarrow>
   decode_all payload (length pre) (map (\<lambda>v. fst (index_serial v)) vs) Utf8 = Ok vs"
proof (induction vs arbitrary: pre)
  case (Cons v vs)
  have d: "decode_value payload (length pre) (fst (index_serial v)) Utf8 = Ok (v, length pre + length (index_body v))"
    using Cons.prems decode_index_value [of v pre "concat (map index_body vs) @ rest"] by simp
  have nr: "fst (index_serial v) \<noteq> 10 \<and> fst (index_serial v) \<noteq> 11"
    using Cons.prems(2,3) by (intro index_not_reserved) simp
  have "decode_all payload (length (pre @ index_body v)) (map (\<lambda>v. fst (index_serial v)) vs) Utf8 = Ok vs"
    using Cons.prems by (intro Cons.IH) simp_all
  with d nr show ?case by simp
qed simp

lemma decode_index_record:
  assumes "list_all value_wf vs" "length (encode_index_record vs) < 2 ^ 62"
  shows "decode_record_all_enc (encode_index_record vs) Utf8 = Ok vs"
proof -
  define sts where "sts = map (\<lambda>v. fst (index_serial v)) vs"
  define H where "H = concat (map write_varint sts)"
  define sp where "sp = size_prefix_step 1 (length H)"
  have p: "encode_index_record vs = (write_varint (word_of_nat (sp + length H)) @ H) @ concat (map index_body vs)"
    by (simp add: encode_index_record_def Let_def sp_def H_def sts_def o_def)
  have "length H + 10 < 2 ^ 63" using assms(2) unfolding p by simp
  then have sp: "sp \<le> 10" "varint_len (word_of_nat (sp + length H)) = sp"
    unfolding sp_def using size_prefix_step_fix [of 1 "length H"] varint_len_bound by auto
  have hd: "record_header (encode_index_record vs) = Ok (sts, sp + length H)"
    unfolding H_def using sp p assms by (intro record_header_of) (simp_all add: H_def)
  have "unat (word_of_nat (sp + length H) :: u64) = sp + length H" using sp(1) assms unfolding p by (intro u64_of_nat) simp
  then have "length (write_varint (word_of_nat (sp + length H))) = sp"
    using length_write_varint_len [of "word_of_nat (sp + length H)"] sp assms unfolding p by (simp del: of_nat_add)
  then have "decode_all (encode_index_record vs) (sp + length H) sts Utf8 = Ok vs"
    using decode_all_bodies [of vs "encode_index_record vs" "write_varint (word_of_nat (sp + length H)) @ H" "[]"] assms p
    by (simp add: sts_def)
  with hd show ?thesis by (simp add: decode_record_all_enc_def)
qed

subsection \<open>Arbitrary bytes\<close>

definition decodes_in :: "bytes \<Rightarrow> (val \<times> nat) outcome \<Rightarrow> bool" where
  "decodes_in p r \<longleftrightarrow> (case r of Panic \<Rightarrow> False | Err _ \<Rightarrow> True | Ok (v, b) \<Rightarrow> b \<le> length p)"

lemma body_slice_safe: "fits p \<Longrightarrow> b \<le> length p \<Longrightarrow> n < 2 ^ 63 \<Longrightarrow> decodes_in p (body_slice p b n msg mk)"
  by (auto simp: body_slice_def slice_def fits_def decodes_in_def Let_def)

lemma be_int_safe: "fits p \<Longrightarrow> b \<le> length p \<Longrightarrow> 1 \<le> n \<Longrightarrow> n \<le> 8 \<Longrightarrow> decodes_in p (be_int p n b)"
  by (auto simp: be_int_def slice_def fits_def index_at_def decodes_in_def Let_def)

lemma decode_value_safe:
  assumes "fits p" "b \<le> length p"
  shows "decodes_in p (decode_value p b st enc)"
proof -
  have "unat (w div 2) < 2 ^ 63" for w :: u64 using u64_bound [of w] by (simp add: unat_div)
  then show ?thesis
    unfolding decode_value_def using assms body_slice_safe [OF assms] be_int_safe [OF assms]
    by (auto simp: decodes_in_def [of p "Ok _"] decodes_in_def [of p "Err _"])
qed

lemma read_serials_safe: "read_serials p h off \<noteq> Panic"
  by (induction p h off rule: read_serials.induct)
    (subst read_serials.simps, auto split: option.splits simp: bind_outcome_eq_Panic)

lemma decode_cols_safe:
  assumes "fits p"
  shows "b \<le> length p \<Longrightarrow> decode_cols p n k b sts enc \<noteq> Panic"
proof (induction sts arbitrary: k b)
  case (Cons st sts)
  then show ?case
    using decode_value_safe [OF assms Cons.prems, of st enc]
    by (cases "decode_value p b st enc") (auto simp: decodes_in_def bind_outcome_eq_Panic split: if_splits)
qed simp

lemma record_header_safe:
  shows "record_header p \<noteq> Panic" "record_header p = Ok (sts, h) \<Longrightarrow> h \<le> length p"
  using read_serials_safe
  by (auto simp: record_header_def Let_def ok_or_def bind_outcome_eq_Ok bind_outcome_eq_Panic split: option.splits if_splits prod.splits)

subsection \<open>Text order\<close>

lemma cmp_list_units:
  "cmp_list (concat (map (unit_bytes enc) us)) (concat (map (unit_bytes enc) vs))
   = (if cmp_units enc us vs \<noteq> Equal then cmp_units enc us vs else cmp_of (length us) (length vs))"
proof (induction us arbitrary: vs)
  case Nil
  then show ?case by (cases vs) (auto simp: cmp_of_def unit_bytes_def le_bytes_def numeral_2_eq_2)
next
  case (Cons u us)
  note ih = Cons.IH
  show ?case
  proof (cases vs)
    case Nil
    then show ?thesis by (auto simp: cmp_of_def unit_bytes_def le_bytes_def numeral_2_eq_2)
  next
    case (Cons v ws)
    have "length (unit_bytes enc u) = length (unit_bytes enc v)" by (simp add: unit_bytes_def)
    with ih [of ws] Cons show ?thesis by (simp add: cmp_list_append Let_def cmp_of_def and_then_def)
  qed
qed

subsection \<open>Properties\<close>

text \<open>
  C33: a table record in any of the three text encodings decodes to the stored form of its
  values: cut at the column cap, and padded with NULL when the record has fewer columns. The cap
  is positive and no larger than a vector of values can be; a cap of 0 is not honoured.
\<close>

theorem record_roundtrip:
  assumes "list_all value_wf vs" "length (encode_record_enc vs enc) < 2 ^ 62" "0 < n" "n * VALUE_SIZE < 2 ^ 63"
  shows "decode_record_enc (encode_record_enc vs enc) n enc
    = Ok (take n (map (stored enc) vs) @ replicate (n - length vs) Null)"
proof -
  obtain pre where p: "encode_record_enc vs enc = pre @ concat (map (\<lambda>v. value_body v enc) vs)"
      "record_header (encode_record_enc vs enc) = Ok (map (\<lambda>v. fst (serial_type_and_size v enc)) vs, length pre)"
    using encode_record_header [OF assms(2)] by blast
  have "decode_cols (encode_record_enc vs enc) n 0 (length pre) (map (\<lambda>v. fst (serial_type_and_size v enc)) vs) enc
      = Ok (take (n - 0) (map (stored enc) vs))"
    using assms p(1) by (intro decode_cols_bodies [where rest = "[]"]) simp_all
  then show ?thesis using assms(4) by (simp add: decode_record_enc_def with_capacity_def p(2) min_def)
qed

lemma length_record_le:
  "length (encode_record_enc vs enc) \<le> 9 + 9 * length vs + length (concat (map (\<lambda>v. value_body v enc) vs))"
proof -
  have "length (concat (map (\<lambda>v. write_varint (fst (serial_type_and_size v enc))) vs)) \<le> 9 * length vs"
  proof (induction vs)
    case (Cons v vs)
    then show ?case using length_write_varint [of "fst (serial_type_and_size v enc)"] by simp
  qed simp
  then show ?thesis
    using length_write_varint [of "word_of_nat (size_prefix_loop 1 (length (concat (map (\<lambda>v. write_varint (fst (serial_type_and_size v enc))) vs)))
      + length (concat (map (\<lambda>v. write_varint (fst (serial_type_and_size v enc))) vs)))"]
    by (simp add: encode_record_enc_def write_header_and_body_def Let_def del: of_nat_add)
qed

theorem record_roundtrip_witness:
  "decode_record_enc (encode_record_enc [Integer (- 5), Null, Txt (Plain [0x68, 0x69])] Utf8) 4 Utf8
   = Ok [Integer (- 5), Null, Txt (Plain [0x68, 0x69]), Null]"
proof -
  have v: "utf8_valid [0x68, 0x69]" by (simp add: from_utf8_def utf8_scan.simps)
  have "length (value_body (Integer (- 5)) Utf8) \<le> 8"
    by (cases "- 5 :: i64" rule: int_serial_cases) (auto simp: write_be_int_bytes)
  then have "length (encode_record_enc [Integer (- 5), Null, Txt (Plain [0x68, 0x69])] Utf8) < 2 ^ 62"
    using length_record_le [of "[Integer (- 5), Null, Txt (Plain [0x68, 0x69])]" Utf8] by (simp del: value_body.simps(2))
  with v show ?thesis
    using record_roundtrip [of "[Integer (- 5), Null, Txt (Plain [0x68, 0x69])]" Utf8 4] by (simp add: text_wf_def VALUE_SIZE_def)
qed

text \<open>
  an index record keeps every value exactly, integral reals included.
\<close>

theorem index_record_roundtrip:
  assumes "list_all value_wf vs" "length (encode_index_record vs) < 2 ^ 62"
  shows "decode_record_all_enc (encode_index_record vs) Utf8 = Ok vs"
  using assms by (rule decode_index_record)

theorem index_record_roundtrip_witness:
  "decode_record_all_enc (encode_index_record [Real 0x4000000000000000, Null]) Utf8 = Ok [Real 0x4000000000000000, Null]"
proof (rule index_record_roundtrip)
  have "length (write_varint w) \<le> 9" for w using length_write_varint by blast
  note l = this [of 7] this [of 0] this [of "word_of_nat (size_prefix_step 1 (length (write_varint 7 @ write_varint 0)) + length (write_varint 7 @ write_varint 0))"]
  show "length (encode_index_record [Real 0x4000000000000000, Null]) < 2 ^ 62"
    using l by (simp add: encode_index_record_def index_serial_def index_body_def Let_def)
qed simp

text \<open>
  C34: decoding panics for no bytes: a malformed record is an error value. The one panic is that of
  the allocation, for a column count whose values would exceed the address space, and then only
  after the header has been read.
\<close>

theorem decode_record_total:
  assumes "fits payload"
  shows "decode_record_enc payload n enc = Panic \<longleftrightarrow> 2 ^ 63 \<le> n * VALUE_SIZE \<and> (\<exists>serials header_size. record_header payload = Ok (serials, header_size))"
  using record_header_safe [of payload] decode_cols_safe [OF assms]
  by (auto simp: decode_record_enc_def bind_outcome_eq_Panic with_capacity_def)

theorem decode_record_total_witness: "decode_record_enc [0x81, 0x80] 3 Utf16Le \<noteq> Panic \<and> decode_record_enc [2, 8] (2 ^ 64 - 1) Utf8 = Panic"
proof -
  have "record_header [2, 8] = Ok ([8], 2)" by code_simp
  then show ?thesis using decode_record_total [of "[0x81, 0x80]" 3 Utf16Le] decode_record_total [of "[2, 8]" "2 ^ 64 - 1" Utf8]
    by (simp add: fits_def VALUE_SIZE_def)
qed

text \<open>
  C36: the order of two texts in a file is the byte order of their encodings, ties going to the
  shorter one, in all three encodings.
\<close>

theorem text_order_is_byte_order:
  "text_order_cmp a b enc = cmp_list (text_encoded_bytes a enc) (text_encoded_bytes b enc)"
  by (simp add: text_order_cmp_def text_encoded_bytes_def cmp_list_units Let_def)

end
