(* ===== verification/Sqlite_Header.thy ===== *)
theory Sqlite_Header
  imports Prelude
begin

text \<open>
  \<^verbatim>\<open>src/storage/sqlitefmt/header.rs\<close>: the 100-byte header of a SQLite database file.
\<close>

subsection \<open>The code\<close>

definition MAGIC :: bytes where
  "MAGIC = lit ''SQLite format 3'' @ [0]"

record file_header_info =
  fh_page_size :: u32
  fh_reserved :: byte
  fh_write_version :: byte
  fh_read_version :: byte
  fh_change_counter :: u32
  fh_db_size_pages :: u32
  fh_freelist_head :: u32
  fh_freelist_count :: u32
  fh_schema_cookie :: u32
  fh_schema_format :: u32
  fh_largest_root_btree :: u32
  fh_text_encoding :: u32
  fh_user_version :: u32
  fh_application_id :: u32
  fh_version_valid_for :: u32
  fh_sqlite_version :: u32

definition be16_at :: "bytes \<Rightarrow> nat \<Rightarrow> u32 outcome" where
  "be16_at p o' = bind_outcome (slice p o' (o' + 2)) (\<lambda>bs. Ok (word_of_nat (be_nat bs)))"

definition be32_at :: "bytes \<Rightarrow> nat \<Rightarrow> u32 outcome" where
  "be32_at p o' = bind_outcome (slice p o' (o' + 4)) (\<lambda>bs. Ok (word_of_nat (be_nat bs)))"

definition is_power_of_two :: "u32 \<Rightarrow> bool" where
  "is_power_of_two v \<longleftrightarrow> v \<noteq> 0 \<and> v AND (v - 1) = 0"

definition parse_header :: "bytes \<Rightarrow> file_header_info outcome" where
  "parse_header p =
     (if length p < 100 then Err ''file too small for SQLite header''
      else if take 16 p \<noteq> MAGIC then Err ''not a SQLite format 3 file''
      else bind_outcome (be16_at p 16) (\<lambda>ps0.
        let ps = (if ps0 = 1 then 65536 else ps0) in
        if \<not> is_power_of_two ps \<or> ps < 512 then Err ''invalid page size''
        else
          bind_outcome (index_at p 20) (\<lambda>reserved. bind_outcome (index_at p 18) (\<lambda>wv. bind_outcome (index_at p 19) (\<lambda>rv.
          bind_outcome (be32_at p 24) (\<lambda>cc. bind_outcome (be32_at p 28) (\<lambda>dsp. bind_outcome (be32_at p 32) (\<lambda>fh.
          bind_outcome (be32_at p 36) (\<lambda>fc. bind_outcome (be32_at p 40) (\<lambda>sc. bind_outcome (be32_at p 44) (\<lambda>sf.
          bind_outcome (be32_at p 52) (\<lambda>lr. bind_outcome (be32_at p 56) (\<lambda>te. bind_outcome (be32_at p 60) (\<lambda>uv.
          bind_outcome (be32_at p 68) (\<lambda>ai. bind_outcome (be32_at p 92) (\<lambda>vv. bind_outcome (be32_at p 96) (\<lambda>sv.
          Ok \<lparr>fh_page_size = ps, fh_reserved = reserved, fh_write_version = wv, fh_read_version = rv,
              fh_change_counter = cc, fh_db_size_pages = dsp, fh_freelist_head = fh, fh_freelist_count = fc,
              fh_schema_cookie = sc, fh_schema_format = sf, fh_largest_root_btree = lr, fh_text_encoding = te,
              fh_user_version = uv, fh_application_id = ai, fh_version_valid_for = vv, fh_sqlite_version = sv\<rparr>)))))))))))))))))"

definition usable :: "file_header_info \<Rightarrow> u32" where
  "usable h = fh_page_size h - ucast (fh_reserved h)"

text \<open>The fields in the order of their offsets, from 0 to 99.\<close>

definition build_header_enc ::
    "bool \<Rightarrow> u32 \<Rightarrow> u32 \<Rightarrow> u32 \<Rightarrow> u32 \<Rightarrow> u32 \<Rightarrow> u32 \<Rightarrow> u32 \<Rightarrow> u32 \<Rightarrow> u32 \<Rightarrow> u32 \<Rightarrow> u32 \<Rightarrow> bytes" where
  "build_header_enc journal_wal page_size db_size_pages change_counter schema_cookie user_version application_id
     text_encoding largest_root_btree incremental_vacuum freelist_head freelist_count =
     (let ps = (if page_size = 65536 then 1 else unat page_size mod 65536); version = (if journal_wal then 2 else 1) in
      MAGIC @ be_bytes 2 ps @ [version, version] @ [0] @ [64, 32, 32] @ be32 change_counter @ be32 db_size_pages
      @ be32 freelist_head @ be32 freelist_count @ be32 schema_cookie @ be32 4 @ be32 0 @ be32 largest_root_btree
      @ be32 text_encoding @ be32 user_version @ be32 incremental_vacuum @ be32 application_id @ replicate 20 0
      @ be32 change_counter @ be32 3053001)"

definition build_header :: "u32 \<Rightarrow> u32 \<Rightarrow> u32 \<Rightarrow> u32 \<Rightarrow> u32 \<Rightarrow> u32 \<Rightarrow> bytes" where
  "build_header page_size db_size_pages change_counter schema_cookie user_version application_id =
     build_header_enc False page_size db_size_pages change_counter schema_cookie user_version application_id 1 0 0 0 0"

definition has_magic :: "bytes \<Rightarrow> bool" where
  "has_magic buf \<longleftrightarrow> 16 \<le> length buf \<and> take 16 buf = MAGIC"

subsection \<open>Reading a field\<close>

lemma length_MAGIC [simp]: "length MAGIC = 16"
  by (simp add: MAGIC_def lit_def)

lemma be32_at_field: "length pre = k \<Longrightarrow> be32_at (pre @ be32 w @ rest) k = Ok w"
  by (simp add: be32_at_def slice_def be32_word)

lemma be32_at_skip: "length pre \<le> k \<Longrightarrow> be32_at (pre @ rest) k = be32_at rest (k - length pre)"
  by (auto simp: be32_at_def slice_def)

lemma be32_at_Cons: "0 < k \<Longrightarrow> be32_at (x # rest) k = be32_at rest (k - 1)"
  using be32_at_skip [of "[x]" k rest] by simp

lemma be32_at_here: "be32_at (be32 w @ rest) 0 = Ok w"
  using be32_at_field [of "[]" 0 w rest] by simp

text \<open>A valid page size is a power of two from 512 to 65536.\<close>

definition page_size_ok :: "u32 \<Rightarrow> bool" where
  "page_size_ok ps \<longleftrightarrow> is_power_of_two ps \<and> 512 \<le> ps \<and> ps \<le> 65536"

lemma page_size_field:
  assumes "page_size_ok ps"
  shows "(let r = word_of_nat (be_nat (be_bytes 2 (if ps = 65536 then 1 else unat ps mod 65536))) :: u32 in if r = 1 then 65536 else r) = ps"
proof (cases "ps = 65536")
  case True
  then show ?thesis by (simp add: be_nat_be_bytes)
next
  case False
  then have "unat ps < 65536" "512 \<le> unat ps" using assms by (auto simp: page_size_ok_def word_le_nat_alt word_unat_eq_iff order.order_iff_strict)
  then show ?thesis using False by (auto simp: be_nat_be_bytes word_unat_eq_iff)
qed

subsection \<open>Properties\<close>

text \<open>
  C35: the header written for a database parses back to the fields it was built from, whatever
  follows it in the first page.
\<close>

theorem header_roundtrip:
  assumes "page_size_ok ps"
  shows "parse_header (build_header_enc wal ps pages cc cookie uv app enc root incr fh fc @ rest)
    = Ok \<lparr>fh_page_size = ps, fh_reserved = 0, fh_write_version = (if wal then 2 else 1), fh_read_version = (if wal then 2 else 1),
          fh_change_counter = cc, fh_db_size_pages = pages, fh_freelist_head = fh, fh_freelist_count = fc,
          fh_schema_cookie = cookie, fh_schema_format = 4, fh_largest_root_btree = root, fh_text_encoding = enc,
          fh_user_version = uv, fh_application_id = app, fh_version_valid_for = cc, fh_sqlite_version = 3053001\<rparr>"
proof -
  define p where "p = build_header_enc wal ps pages cc cookie uv app enc root incr fh fc @ rest"
  define ver :: byte where "ver = (if wal then 2 else 1)"
  define b2 where "b2 = be_bytes 2 (if ps = 65536 then 1 else unat ps mod 65536)"
  have P: "p = MAGIC @ b2 @ [ver, ver] @ [0] @ [64, 32, 32] @ be32 cc @ be32 pages
      @ be32 fh @ be32 fc @ be32 cookie @ be32 4 @ be32 0 @ be32 root @ be32 enc @ be32 uv @ be32 incr @ be32 app
      @ replicate 20 0 @ be32 cc @ be32 3053001 @ rest"
    by (simp add: p_def build_header_enc_def Let_def ver_def b2_def)
  have l2: "length b2 = 2" by (simp add: b2_def)
  have len: "\<not> length p < 100" unfolding P using l2 by simp
  have mg: "take 16 p = MAGIC" unfolding P by simp
  have s: "slice p 16 18 = Ok b2" unfolding P using l2 by (simp add: slice_def)
  have bytes: "index_at p 20 = Ok 0" "index_at p 18 = Ok ver" "index_at p 19 = Ok ver"
    unfolding P using l2 by (simp_all add: index_at_def nth_append)
  have f: "be32_at p 24 = Ok cc" "be32_at p 28 = Ok pages" "be32_at p 32 = Ok fh" "be32_at p 36 = Ok fc"
    "be32_at p 40 = Ok cookie" "be32_at p 44 = Ok 4" "be32_at p 52 = Ok root" "be32_at p 56 = Ok enc" "be32_at p 60 = Ok uv"
    "be32_at p 68 = Ok app" "be32_at p 92 = Ok cc" "be32_at p 96 = Ok 3053001"
    unfolding P using l2 be32_at_here [of 4] be32_at_here [of 3053001]
    by (simp_all add: be32_at_skip be32_at_Cons be32_at_here)
  have pw: "is_power_of_two ps" "\<not> ps < 512" using assms by (auto simp: page_size_ok_def)
  have "be16_at p 16 = Ok (word_of_nat (be_nat b2))" using s by (simp add: be16_at_def)
  then show ?thesis
    unfolding p_def [symmetric] parse_header_def using len mg bytes f page_size_field [OF assms] pw
    by (simp add: b2_def ver_def Let_def)
qed

theorem header_roundtrip_witness:
  "\<exists>h. parse_header (build_header_enc True 4096 42 7 3 99 12345 1 0 0 17 5 @ [1, 2]) = Ok h \<and> fh_page_size h = 4096 \<and> fh_freelist_head h = 17"
proof -
  have "page_size_ok 4096" by (simp add: page_size_ok_def is_power_of_two_def)
  from header_roundtrip [OF this, of True 42 7 3 99 12345 1 0 0 17 5 "[1, 2]"] show ?thesis by auto
qed

text \<open>
  C37: parsing any first page is an error or gives a page size that is a power of two between
  512 and 65536, and the magic was present; there is no panic.
\<close>

theorem parse_header_safe:
  "case parse_header p of Panic \<Rightarrow> False | Err _ \<Rightarrow> True | Ok h \<Rightarrow> page_size_ok (fh_page_size h) \<and> has_magic p"
proof (cases "length p < 100 \<or> take 16 p \<noteq> MAGIC")
  case True
  then show ?thesis by (auto simp: parse_header_def)
next
  case False
  then have len: "100 \<le> length p" and mg: "take 16 p = MAGIC" by auto
  have r: "\<exists>w. be32_at p k = Ok w" if "k \<le> 96" for k using that len by (simp add: be32_at_def slice_def)
  have i: "index_at p k = Ok (p ! k)" if "k < 100" for k using that len by (simp add: index_at_def)
  define r2 where "r2 = be_nat (take 2 (drop 16 p))"
  have b: "be16_at p 16 = Ok (word_of_nat r2)" using len by (simp add: be16_at_def slice_def r2_def)
  have lt: "r2 < 65536" using be_nat_bound [of "take 2 (drop 16 p)"] len by (simp add: r2_def)
  have "(word_of_nat r2 :: u32) \<le> 65536" using lt by (simp add: word_le_nat_alt unat_of_nat)
  with r [of 24] r [of 28] r [of 32] r [of 36] r [of 40] r [of 44] r [of 52] r [of 56] r [of 60] r [of 68] r [of 92] r [of 96]
    i [of 20] i [of 18] i [of 19] b len mg
  show ?thesis
    by (auto simp: parse_header_def Let_def has_magic_def page_size_ok_def not_less)
qed

end
