(* ===== verification/Value_Codec.thy ===== *)
theory Value_Codec
  imports Value_Order Codec Varint
begin

text \<open>
  \<^verbatim>\<open>src/types/value.rs\<close>: the storage codec of values (a tag byte, size-classed integers, integral
  reals as zigzag varints, length-prefixed text and blobs) and the LEB128 varint it uses.
\<close>

subsection \<open>The code\<close>

definition leading_zeros :: "u64 \<Rightarrow> nat" where
  "leading_zeros n = 64 - bit_width (unat n)"

definition uvarint_len :: "u64 \<Rightarrow> nat" where
  "uvarint_len n = (64 - leading_zeros n + 6) div 7"

function encode_uvarint :: "u64 \<Rightarrow> bytes" where
  "encode_uvarint n =
     (let byte = ucast (n AND 0x7f); n' = drop_bit 7 n in
      if n' = 0 then [byte] else (byte OR 0x80) # encode_uvarint n')"
  by pat_completeness auto
termination
proof (relation "measure unat", goal_cases)
  case (2 n byte n')
  then have "unat n div 128 \<noteq> 0" using unat_drop7 [of 7 n] by (auto simp: word_unat_eq_iff)
  then have "unat n div 128 < unat n" by (intro div_less_dividend) auto
  then show ?case using 2 unat_drop7 [of 7 n] by simp
qed simp

declare encode_uvarint.simps [simp del]

fun decode_uvarint_loop :: "bytes \<Rightarrow> nat \<Rightarrow> u64 \<Rightarrow> nat \<Rightarrow> (u64 \<times> nat) outcome" where
  "decode_uvarint_loop [] i n shift = Err ''truncated varint''"
| "decode_uvarint_loop (b # bs) i n shift =
     (if 64 \<le> shift then Err ''varint too long''
      else let n' = n OR push_bit shift (ucast (b AND 0x7f)) in
        if b AND 0x80 = 0 then Ok (n', i + 1) else decode_uvarint_loop bs (i + 1) n' (shift + 7))"

definition decode_uvarint :: "bytes \<Rightarrow> (u64 \<times> nat) outcome" where
  "decode_uvarint buf = decode_uvarint_loop buf 0 0 0"

definition is_compact_real :: "f64 \<Rightarrow> bool" where
  "is_compact_real f \<longleftrightarrow> f64_is_finite f \<and> f64_is_integral f \<and> f64_abs_trunc f \<le> 9007199254740992
     \<and> \<not> (f64_is_zero f \<and> f64_negative f)"

definition zigzag :: "i64 \<Rightarrow> u64" where
  "zigzag i = push_bit 1 i XOR signed_drop_bit 63 i"

definition unzigzag :: "u64 \<Rightarrow> i64" where
  "unzigzag z = drop_bit 1 z XOR - (z AND 1)"

fun encoded_size :: "val \<Rightarrow> nat" where
  "encoded_size Null = 1"
| "encoded_size (Integer i) =
     (if i = 0 then 1
      else if -128 \<le> sint i \<and> sint i \<le> 127 then 2
      else if -32768 \<le> sint i \<and> sint i \<le> 32767 then 3
      else if -2147483648 \<le> sint i \<and> sint i \<le> 2147483647 then 5
      else 9)"
| "encoded_size (Real f) = (if is_compact_real f then 1 + uvarint_len (zigzag (f64_to_i64 f)) else 9)"
| "encoded_size (Txt s) = 1 + uvarint_len (word_of_nat (text_len s)) + text_len s"
| "encoded_size (Blob b) = 1 + uvarint_len (word_of_nat (length b)) + length b"

fun encode_value :: "val \<Rightarrow> bytes" where
  "encode_value Null = [0x00]"
| "encode_value (Integer i) =
     (if i = 0 then [0x01]
      else if -128 \<le> sint i \<and> sint i \<le> 127 then [0x02, ucast i]
      else if -32768 \<le> sint i \<and> sint i \<le> 32767 then 0x03 # le_bytes 2 (unat i)
      else if -2147483648 \<le> sint i \<and> sint i \<le> 2147483647 then 0x04 # le_bytes 4 (unat i)
      else 0x05 # le_bytes 8 (unat i))"
| "encode_value (Real f) =
     (if is_compact_real f then 0x0A # encode_uvarint (zigzag (f64_to_i64 f)) else 0x06 # le_bytes 8 (unat f))"
| "encode_value (Txt s) = (if is_raw s then 0x0B else 0x07) # encode_uvarint (word_of_nat (text_len s)) @ as_bytes s"
| "encode_value (Blob b) = 0x08 # encode_uvarint (word_of_nat (length b)) @ b"

text \<open>A length-prefixed body: the end of the range wraps as \<^verbatim>\<open>usize\<close> does.\<close>

definition length_prefixed :: "bytes \<Rightarrow> string \<Rightarrow> (bytes \<Rightarrow> val outcome) \<Rightarrow> (val \<times> nat) outcome" where
  "length_prefixed rest msg mk =
     bind_outcome (decode_uvarint rest) (\<lambda>(len, n).
       let fin = usize_add n (unat len) in
       if length rest < fin then Err msg
       else bind_outcome (slice rest n fin) (\<lambda>body. bind_outcome (mk body) (\<lambda>v. Ok (v, usize_add 1 fin))))"

text \<open>\<open>tls\<close> is the thread's trust flag, read when the caller does not decide.\<close>

definition decode_with_trust :: "bool \<Rightarrow> bytes \<Rightarrow> bool option \<Rightarrow> (val \<times> nat) outcome" where
  "decode_with_trust tls buf trusted =
     (case buf of [] \<Rightarrow> Err ''empty buffer''
      | tag # rest \<Rightarrow>
          if tag = 0x00 then Ok (Null, 1)
          else if tag = 0x01 then Ok (Integer 0, 1)
          else if tag = 0x02 then (case rest of [] \<Rightarrow> Err ''truncated i8'' | b # _ \<Rightarrow> Ok (Integer (scast b), 2))
          else if tag = 0x03 then (if length rest < 2 then Err ''truncated i16''
            else Ok (Integer (scast (word_of_nat (le_nat (take 2 rest)) :: 16 word)), 3))
          else if tag = 0x04 then (if length rest < 4 then Err ''truncated i32''
            else Ok (Integer (scast (word_of_nat (le_nat (take 4 rest)) :: 32 word)), 5))
          else if tag = 0x05 then (if length rest < 8 then Err ''truncated i64'' else Ok (Integer (word_of_nat (le_nat (take 8 rest))), 9))
          else if tag = 0x06 then (if length rest < 8 then Err ''truncated real'' else Ok (Real (word_of_nat (le_nat (take 8 rest))), 9))
          else if tag = 0x07 then length_prefixed rest ''truncated text body'' (\<lambda>body.
            if (case trusted of None \<Rightarrow> tls | Some t \<Rightarrow> t) then Ok (Txt (Plain body))
            else if \<not> utf8_valid body then Err ''invalid utf8 in text'' else Ok (Txt (Plain body)))
          else if tag = 0x08 then length_prefixed rest ''truncated blob body'' (\<lambda>body. Ok (Blob body))
          else if tag = 0x0B then length_prefixed rest ''truncated text body'' (\<lambda>body. Ok (Txt (from_invalid_bytes body)))
          else if tag = 0x09 then Ok (Null, 1)
          else if tag = 0x0A then bind_outcome (decode_uvarint rest) (\<lambda>(z, n). Ok (Real (i64_to_f64 (unzigzag z)), 1 + n))
          else Err ''unknown value tag'')"

definition decode_stored :: "bool \<Rightarrow> bytes \<Rightarrow> (val \<times> nat) outcome" where
  "decode_stored tls buf = decode_with_trust tls buf None"

subsection \<open>The varint\<close>

lemma encode_uvarint_ne [simp]: "encode_uvarint n \<noteq> []"
  by (subst encode_uvarint.simps) (simp add: Let_def)

lemma uvarint_or_step:
  assumes s: "shift < 64" and n: "unat n < 2 ^ shift" and k: "k * 2 ^ shift < 2 ^ 64"
  shows "n OR push_bit shift (word_of_nat k) = n + word_of_nat (k * 2 ^ shift)" (is ?or)
    and "unat (n + word_of_nat (k * 2 ^ shift) :: u64) = unat n + k * 2 ^ shift" (is ?unat)
proof -
  have "n = take_bit shift n" using n by (simp only: word_unat_eq_iff unat_take_bit mod_less)
  then have "bit n j \<Longrightarrow> j < shift" for j by (metis bit_take_bit_iff)
  then have "n + push_bit shift (word_of_nat k) = n OR push_bit shift (word_of_nat k)"
    by (intro disjunctive_add) (meson bit_push_bit_iff not_le)
  moreover have "push_bit shift (word_of_nat k :: u64) = word_of_nat (k * 2 ^ shift)" by (simp add: push_bit_eq_mult)
  ultimately show ?or by simp
  have e: "(2 :: nat) ^ 64 = 2 ^ (64 - shift) * 2 ^ shift" using s by (simp flip: power_add)
  then have "k * 2 ^ shift < 2 ^ (64 - shift) * 2 ^ shift" using k by (simp only:)
  then have "k < 2 ^ (64 - shift)" by (simp only: mult_less_cancel2)
  then have "(k + 1) * 2 ^ shift \<le> 2 ^ (64 - shift) * 2 ^ shift" by (intro mult_right_mono) simp_all
  then have "unat n + k * 2 ^ shift < 2 ^ 64" using n unfolding e by (simp add: distrib_right)
  then show ?unat using k by (subst unat_add_lem [THEN iffD1]) (simp_all add: unat_of_nat del: of_nat_mult)
qed

lemma seven_bits: "(ucast ((b :: byte) AND 0x7f) :: u64) = word_of_nat (unat b mod 128)"
  by (simp only: word_unat_eq_iff unsigned_ucast_eq) (simp add: and_7f unat_of_nat take_bit_eq_mod)

lemma decode_uvarint_loop_encode:
  assumes "shift < 64" "unat n < 2 ^ shift" "unat v * 2 ^ shift < 2 ^ 64"
  shows "decode_uvarint_loop (encode_uvarint v @ rest) i n shift = Ok (n + word_of_nat (unat v * 2 ^ shift), i + length (encode_uvarint v))"
  using assms
proof (induction v arbitrary: i n shift rule: encode_uvarint.induct)
  case (1 v)
  define k where "k = unat v mod 128"
  have k: "k < 128" by (simp add: k_def)
  have h: "unat (drop_bit 7 v) = unat v div 128" using unat_drop7 [of 7 v] by simp
  have vk: "unat v = unat v div 128 * 128 + k" by (simp only: k_def div_mult_mod_eq)
  have "k * 2 ^ shift \<le> unat v * 2 ^ shift" by (intro mult_right_mono) (simp_all add: k_def)
  then have kb: "k * 2 ^ shift < 2 ^ 64" using 1(4) by linarith
  note step = uvarint_or_step [OF 1(2,3) kb]
  have bk: "unat (word_of_nat k :: byte) = k" "unat (word_of_nat (128 + k) :: byte) = 128 + k" using k by (simp_all add: unat_of_nat del: of_nat_add)
  show ?case
  proof (cases "drop_bit 7 v = 0")
    case True
    then have "encode_uvarint v = [word_of_nat k]" by (subst encode_uvarint.simps) (simp add: Let_def last_byte k_def)
    moreover have "unat v = k" using True h vk by simp
    moreover have "(word_of_nat k :: byte) AND 0x80 = 0" using bk(1) k and_80_iff [of "word_of_nat k"] by auto
    ultimately show ?thesis using 1(2) step(1) bk k by (simp add: Let_def seven_bits del: of_nat_mult)
  next
    case False
    have nz: "0 < unat v div 128" using False h by (simp add: word_unat_eq_iff)
    have e: "encode_uvarint v = word_of_nat (128 + k) # encode_uvarint (drop_bit 7 v)"
      using False by (subst encode_uvarint.simps) (simp add: Let_def cont_byte k_def del: of_nat_add)
    have c: "(word_of_nat (128 + k) :: byte) AND 0x80 \<noteq> 0" using bk(2) and_80_iff [of "word_of_nat (128 + k)"] by auto
    have sh: "unat v * 2 ^ shift = (unat v div 128) * 2 ^ (shift + 7) + k * 2 ^ shift"
      by (subst vk) (simp add: power_add distrib_right)
    have b: "unat v div 128 * 2 ^ (shift + 7) < 2 ^ 64" using 1(4) sh by linarith
    have "2 ^ (shift + 7) \<le> unat v div 128 * 2 ^ (shift + 7)" using nz by simp
    with b have "(2 :: nat) ^ (shift + 7) < 2 ^ 64" by (rule order.strict_trans1 [rotated])
    then have s7: "shift + 7 < 64" by (rule power_less_imp_less_exp [rotated]) simp
    have "(k + 1) * 2 ^ shift \<le> 128 * 2 ^ shift" using k by (intro mult_right_mono) simp_all
    then have "k * 2 ^ shift + 2 ^ shift \<le> 2 ^ (shift + 7)" by (simp only: power_add distrib_right) (simp add: mult.commute)
    then have "unat (n + word_of_nat (k * 2 ^ shift)) < 2 ^ (shift + 7)" unfolding step(2) using 1(3) by linarith
    note ih = 1(1) [OF refl refl False s7 this, unfolded h, OF b, of "i + 1"]
    have "n + word_of_nat (k * 2 ^ shift) + word_of_nat (unat v div 128 * 2 ^ (shift + 7)) = n + word_of_nat (unat v * 2 ^ shift)"
      unfolding sh by (simp only: of_nat_add ac_simps)
    moreover have "decode_uvarint_loop (encode_uvarint v @ rest) i n shift
        = decode_uvarint_loop (encode_uvarint (drop_bit 7 v) @ rest) (i + 1) (n + word_of_nat (k * 2 ^ shift)) (shift + 7)"
      unfolding e using 1(2) c step(1) bk k by (simp add: Let_def seven_bits del: of_nat_add of_nat_mult)
    ultimately show ?thesis using ih by (simp add: e del: of_nat_mult of_nat_add)
  qed
qed

lemma decode_uvarint_encode: "decode_uvarint (encode_uvarint v @ rest) = Ok (v, length (encode_uvarint v))"
  using decode_uvarint_loop_encode [of 0 0 v rest 0] u64_bound [of v] by (simp add: decode_uvarint_def)

interpretation storage_varint: prefix_codec encode_uvarint
    "\<lambda>bs. case decode_uvarint bs of Ok r \<Rightarrow> Some r | _ \<Rightarrow> None" "\<lambda>_. True"
  by unfold_locales (simp add: decode_uvarint_encode)

lemma length_encode_uvarint: "length (encode_uvarint v) = (if v = 0 then 1 else (bit_width (unat v) + 6) div 7)"
proof (induction v rule: encode_uvarint.induct)
  case (1 v)
  have h: "unat (drop_bit 7 v) = unat v div 2 ^ 7" by (rule unat_drop7)
  show ?case
  proof (cases "drop_bit 7 v = 0")
    case True
    then have l: "unat v < 2 ^ 7" using h by (simp add: div_eq_0_iff)
    have "1 \<le> bit_width (unat v) \<and> bit_width (unat v) \<le> 7" if "v \<noteq> 0"
      using bit_width_bounds [of "unat v"] bit_width_le [OF _ l] that by (simp add: word_unat_eq_iff)
    then have "(bit_width (unat v) + 6) div 7 = 1" if "v \<noteq> 0" using that by (intro div_nat_eqI) auto
    with True show ?thesis by (subst encode_uvarint.simps) simp
  next
    case False
    then have p: "0 < unat v div 2 ^ 7" using h by (simp add: word_unat_eq_iff)
    then have "v \<noteq> 0" by auto
    moreover have "bit_width (unat v) = bit_width (unat v div 2 ^ 7) + 7"
      using p bit_width_div [of "unat v" 7] by simp
    ultimately show ?thesis using 1 False h by (subst encode_uvarint.simps) (simp add: Let_def)
  qed
qed

lemma bit_width_u64: "bit_width (unat (v :: u64)) \<le> 64"
  using bit_width_le [of "unat v" 64] u64_bound [of v] by (cases "unat v = 0") (simp_all add: bit_width.simps [of 0])

lemma length_uvarint: "length (encode_uvarint v) = (if v = 0 then 1 else uvarint_len v)"
  using bit_width_u64 [of v] by (simp add: length_encode_uvarint uvarint_len_def leading_zeros_def)

subsection \<open>Zigzag\<close>

lemma unzigzag_zigzag: "unzigzag (zigzag i) = i"
proof -
  define x where "x = push_bit 1 i"
  have bx: "bit x n \<longleftrightarrow> 1 \<le> n \<and> n < 64 \<and> bit i (n - 1)" for n
    unfolding x_def bit_push_bit_iff by (auto dest: bit_imp_le_length)
  show ?thesis
  proof (cases "bit i 63")
    case True
    then have "signed_drop_bit 63 i = - 1" by (intro bit_word_eqI) (auto simp: bit_signed_drop_bit_iff not_less_eq_eq)
    then have z: "zigzag i = NOT x" unfolding zigzag_def x_def [symmetric] by simp
    have "NOT x AND 1 = 1" by (intro bit_word_eqI) (auto simp: bit_simps bx)
    then have "unzigzag (zigzag i) = NOT (drop_bit 1 (NOT x))" unfolding unzigzag_def z by simp
    also have "\<dots> = i"
    proof (rule bit_word_eqI)
      show "bit (NOT (drop_bit 1 (NOT x))) n = bit i n" if "n < LENGTH(64)" for n
        using True that by (cases "n = 63") (auto simp: bit_not_iff bit_drop_bit_eq bx)
    qed
    finally show ?thesis .
  next
    case False
    then have "signed_drop_bit 63 i = 0"
      by (intro bit_word_eqI) (auto simp: bit_signed_drop_bit_iff not_less_eq_eq dest: bit_imp_le_length)
    then have z: "zigzag i = x" by (simp only: zigzag_def x_def [symmetric] xor.right_neutral)
    have "x AND 1 = 0" by (intro bit_word_eqI) (auto simp: bit_simps bx)
    then have "unzigzag (zigzag i) = drop_bit 1 x" unfolding unzigzag_def z by simp
    also have "\<dots> = i"
    proof (rule bit_word_eqI)
      show "bit (drop_bit 1 x) n = bit i n" if "n < LENGTH(64)" for n
        using False that by (cases "n = 63") (auto simp: bit_drop_bit_eq bx)
    qed
    finally show ?thesis .
  qed
qed

subsection \<open>The value codec\<close>

lemma compact_real_back: "is_compact_real f \<Longrightarrow> i64_to_f64 (unzigzag (zigzag (f64_to_i64 f))) = f"
  unfolding unzigzag_zigzag by (rule i64_to_f64_to_i64) (simp_all add: is_compact_real_def)

lemma scast_narrow:
  assumes "- (2 ^ (LENGTH('a) - 1)) \<le> sint i" "sint i < 2 ^ (LENGTH('a) - 1)"
  shows "(scast (word_of_int (sint i) :: 'a::len word) :: i64) = i"
proof -
  have "sint (word_of_int (sint i) :: 'a word) = sint i"
    using assms by (simp only: signed_of_int of_int_eq_id id_apply) (intro signed_take_bit_int_eq_self, simp_all)
  then show ?thesis by (simp only: scast_eq) simp
qed

lemma low_bytes_word:
  assumes "LENGTH('a::len) = 8 * n" "LENGTH('a) \<le> 64"
  shows "(word_of_nat (le_nat (le_bytes n (unat (i :: i64)))) :: 'a word) = word_of_int (sint i)"
proof -
  have "(256 :: nat) ^ n = 2 ^ LENGTH('a)" by (simp add: assms(1) power_mult)
  then have "(word_of_nat (le_nat (le_bytes n (unat i))) :: 'a word) = word_of_nat (unat i mod 2 ^ LENGTH('a))"
    by (simp only: le_nat_le_bytes)
  also have "\<dots> = word_of_nat (unat i)" by (simp only: word_of_nat_eq_iff) (simp add: take_bit_eq_mod)
  also have "\<dots> = word_of_int (uint i)" by simp
  also have "\<dots> = word_of_int (sint i)"
    using assms(2) uint_sint [of i] by (simp only: word_of_int_eq_iff take_bit_take_bit) (simp add: min_def)
  finally show ?thesis .
qed

lemma length_prefixed_body:
  assumes "fits (encode_uvarint (word_of_nat (length bs)) @ bs @ rest)"
  shows "length_prefixed (encode_uvarint (word_of_nat (length bs)) @ bs @ rest) msg mk
    = bind_outcome (mk bs) (\<lambda>v. Ok (v, 1 + length (encode_uvarint (word_of_nat (length bs))) + length bs))"
proof -
  let ?e = "encode_uvarint (word_of_nat (length bs))"
  have l: "unat (word_of_nat (length bs) :: u64) = length bs" "length ?e + length bs < 2 ^ 63" using assms by (simp_all add: fits_def unat_of_nat)
  have s: "slice (?e @ bs @ rest) (length ?e) (length ?e + length bs) = Ok bs" by (simp add: slice_middle)
  show ?thesis using l s by (simp add: length_prefixed_def decode_uvarint_encode Let_def usize_add_def)
qed

lemma decode_encode_integer: "decode_with_trust tls (encode_value (Integer i) @ rest) tr = Ok (Integer i, length (encode_value (Integer i)))"
proof -
  consider "i = 0" | "i \<noteq> 0" "-128 \<le> sint i \<and> sint i \<le> 127"
    | "i \<noteq> 0" "\<not> (-128 \<le> sint i \<and> sint i \<le> 127)" "-32768 \<le> sint i \<and> sint i \<le> 32767"
    | "i \<noteq> 0" "\<not> (-128 \<le> sint i \<and> sint i \<le> 127)" "\<not> (-32768 \<le> sint i \<and> sint i \<le> 32767)" "-2147483648 \<le> sint i \<and> sint i \<le> 2147483647"
    | "i \<noteq> 0" "\<not> (-128 \<le> sint i \<and> sint i \<le> 127)" "\<not> (-32768 \<le> sint i \<and> sint i \<le> 32767)" "\<not> (-2147483648 \<le> sint i \<and> sint i \<le> 2147483647)"
    by argo
  then show ?thesis
  proof cases
    case 1
    then show ?thesis by (simp add: decode_with_trust_def)
  next
    case 2
    have "(ucast i :: byte) = word_of_int (sint i)" using low_bytes_word [where ?'a = 8, of 1 i] by (simp add: le_bytes_def le_nat_def be_nat_Cons)
    then have "scast (ucast i :: byte) = i" using scast_narrow [where ?'a = 8, of i] 2 by simp
    then show ?thesis using 2 by (simp add: decode_with_trust_def)
  next
    case 3
    then have "scast (word_of_nat (le_nat (le_bytes 2 (unat i))) :: 16 word) = i"
      using scast_narrow [where ?'a = 16, of i] low_bytes_word [where ?'a = 16, of 2 i] by simp
    then show ?thesis using 3 by (simp only: encode_value.simps if_False if_True simp_thms) (simp add: decode_with_trust_def)
  next
    case 4
    then have "scast (word_of_nat (le_nat (le_bytes 4 (unat i))) :: 32 word) = i"
      using scast_narrow [where ?'a = 32, of i] low_bytes_word [where ?'a = 32, of 4 i] by simp
    then show ?thesis using 4 by (simp only: encode_value.simps if_False if_True simp_thms) (simp add: decode_with_trust_def)
  next
    case 5
    have "word_of_nat (le_nat (le_bytes 8 (unat i))) = i" using low_bytes_word [where ?'a = 64, of 8 i] by simp
    then show ?thesis using 5 by (simp only: encode_value.simps if_False if_True simp_thms) (simp add: decode_with_trust_def)
  qed
qed

lemma decode_encode_value:
  assumes "val_wf v" "fits (encode_value v @ rest)"
  shows "decode_with_trust tls (encode_value v @ rest) tr = Ok (v, length (encode_value v))"
proof (cases v)
  case Null
  then show ?thesis by (simp add: decode_with_trust_def)
next
  case (Integer i)
  then show ?thesis using decode_encode_integer by blast
next
  case (Real f)
  have "word_of_nat (le_nat (le_bytes 8 (unat f))) = f" using low_bytes_word [where ?'a = 64, of 8 f] by simp
  then show ?thesis using Real by (simp add: decode_with_trust_def decode_uvarint_encode compact_real_back)
next
  case (Txt t)
  have f: "fits (encode_uvarint (word_of_nat (length (as_bytes t))) @ as_bytes t @ rest)"
    using assms(2) Txt by (simp add: fits_def text_len_def)
  show ?thesis
  proof (cases t)
    case (Plain b)
    then have "utf8_valid b" using assms(1) Txt by (simp add: text_wf_def del: not_None_eq)
    then show ?thesis using length_prefixed_body [OF f] Txt Plain by (auto simp: decode_with_trust_def text_len_def)
  next
    case (Raw b)
    then have "from_invalid_bytes b = Raw b"
      using assms(1) Txt text_wf_from_invalid_bytes [of b] text_eqI [of "from_invalid_bytes b" "Raw b"] by simp
    then show ?thesis using length_prefixed_body [OF f] Txt Raw by (simp add: decode_with_trust_def text_len_def)
  qed
next
  case (Blob b)
  have "fits (encode_uvarint (word_of_nat (length b)) @ b @ rest)" using assms(2) Blob by (simp add: fits_def)
  then show ?thesis using length_prefixed_body Blob by (simp add: decode_with_trust_def)
qed

text \<open>The values whose size is underestimated: a varint of zero takes a byte, \<^verbatim>\<open>uvarint_len\<close> says none.\<close>

fun has_zero_varint :: "val \<Rightarrow> bool" where
  "has_zero_varint (Real f) = (is_compact_real f \<and> f64_to_i64 f = 0)"
| "has_zero_varint (Txt t) = (text_len t = 0)"
| "has_zero_varint (Blob b) = (b = [])"
| "has_zero_varint _ = False"

lemma uvarint_len_0: "uvarint_len 0 = 0"
  by (simp add: uvarint_len_def leading_zeros_def bit_width.simps [of 0])

lemma zigzag_0_iff: "zigzag i = 0 \<longleftrightarrow> i = 0"
proof
  assume "zigzag i = 0"
  then have "unzigzag 0 = i" using unzigzag_zigzag [of i] by simp
  then show "i = 0" by (simp add: unzigzag_def)
next
  assume "i = 0"
  moreover have "signed_drop_bit 63 (0 :: i64) = 0" by (intro bit_word_eqI) (simp add: bit_signed_drop_bit_iff)
  ultimately show "zigzag i = 0" by (simp add: zigzag_def)
qed

subsection \<open>Properties\<close>

text \<open>
  C31: every value is read back from its storage encoding, whatever follows it in the row and
  whatever the trust setting is: integers of every size class, integral reals kept as zigzag
  varints, text that is not UTF-8, blobs.
\<close>

theorem stored_value_roundtrip:
  assumes "val_wf v" "fits (encode_value v @ rest)"
  shows "decode_with_trust tls (encode_value v @ rest) tr = Ok (v, length (encode_value v))"
  using assms by (rule decode_encode_value)

theorem stored_value_roundtrip_witness:
  "decode_with_trust False (encode_value (Integer (- 300)) @ [7]) None = Ok (Integer (- 300), length (encode_value (Integer (- 300))))"
  by (rule stored_value_roundtrip) (simp_all add: fits_def)

text \<open>
  \<^verbatim>\<open>encoded_size\<close> is the length of the encoding, except that it is one byte short for empty
  text, empty blobs and the real zero, whose varint of zero it counts as no byte.
\<close>

theorem encoded_size_counts:
  assumes "fits (encode_value v)"
  shows "length (encode_value v) = encoded_size v + (if has_zero_varint v then 1 else 0)"
proof (cases v)
  case (Real f)
  moreover have "uvarint_len (zigzag 0) = 0" using zigzag_0_iff [of 0] uvarint_len_0 by simp
  ultimately show ?thesis by (simp add: length_uvarint zigzag_0_iff)
next
  case (Txt t)
  then have "text_len t < 2 ^ 63" using assms by (simp add: fits_def text_len_def)
  then have "(word_of_nat (text_len t) :: u64) = 0 \<longleftrightarrow> text_len t = 0" by (simp add: word_unat_eq_iff unat_of_nat)
  then show ?thesis using Txt by (auto simp: length_uvarint uvarint_len_0 text_len_def)
next
  case (Blob b)
  then have "length b < 2 ^ 63" using assms by (simp add: fits_def)
  then have "(word_of_nat (length b) :: u64) = 0 \<longleftrightarrow> length b = 0" by (simp add: word_unat_eq_iff unat_of_nat)
  then show ?thesis using Blob by (auto simp: length_uvarint uvarint_len_0)
qed simp_all

theorem encoded_size_counts_witness:
  "length (encode_value (Blob [])) = 2 \<and> encoded_size (Blob []) = 1"
proof -
  have "fits (encode_value (Blob []))" by (simp add: fits_def length_uvarint)
  then show ?thesis using encoded_size_counts [of "Blob []"] by (simp add: uvarint_len_0)
qed

text \<open>
  a blob whose length field is corrupt makes the reader panic instead of returning an error:
  the end of the range wraps below its start.
\<close>

theorem corrupt_length_panics:
  "decode_with_trust tls (0x08 # encode_uvarint (- 1) @ rest) tr = Panic"
proof -
  let ?n = "length (encode_uvarint (- 1))"
  have "bit_width (unat (- 1 :: u64)) \<le> 64" by (rule bit_width_u64)
  then have "(bit_width (unat (- 1 :: u64)) + 6) div 7 \<le> (64 + 6) div 7" by (intro div_le_mono) simp
  then have n: "1 \<le> ?n" "?n \<le> 10" using encode_uvarint_ne [of "- 1"] by (simp_all only: Suc_le_eq length_greater_0_conv One_nat_def) (simp_all add: length_encode_uvarint)
  have "unat (- 1 :: u64) = 2 ^ 64 - 1" by (simp add: unsigned_minus_1_eq_mask mask_eq_exp_minus_1)
  then have "usize_add ?n (unat (- 1 :: u64)) = ?n - 1" using n by (cases ?n) (simp_all add: usize_add_def)
  moreover have "slice xs ?n (?n - 1) = (Panic :: bytes outcome)" for xs using n by (simp add: slice_def)
  ultimately show ?thesis by (simp add: decode_with_trust_def length_prefixed_def decode_uvarint_encode Let_def)
qed

end
