(* ===== verification/Order_Key.thy ===== *)
theory Order_Key
  imports Value_Order
begin

text \<open>
  \<^verbatim>\<open>src/types/value.rs\<close>: the keys of secondary indexes. The B-tree compares keys as bytes, so the
  encoding of a value has to sort as the value does, also when the keys of several columns
  follow one another.
\<close>

subsection \<open>The code\<close>

definition double_order_key :: "f64 \<Rightarrow> u64" where
  "double_order_key f = (if drop_bit 63 f = 1 then NOT f else f OR 0x8000000000000000)"

text \<open>\<^verbatim>\<open>*f + 0.0\<close> changes only the negative zero.\<close>

definition f64_add_zero :: "f64 \<Rightarrow> f64" where
  "f64_add_zero f = (if f64_is_zero f then 0 else f)"

text \<open>The greatest double that is not above the integer, and what is left of it.\<close>

definition order_floor :: "i64 \<Rightarrow> f64" where
  "order_floor i =
     (let lo = i64_to_f64 i in
      if sint i < f64_to_i128 lo then (if f64_less 0 lo then lo - 1 else lo + 1) else lo)"

definition order_delta :: "i64 \<Rightarrow> u16" where
  "order_delta i = word_of_int (sint i - f64_to_i128 (order_floor i))"

fun escape_order_bytes_into :: "bytes \<Rightarrow> bytes" where
  "escape_order_bytes_into [] = []"
| "escape_order_bytes_into (b # bs) = (if b = 0 then [0, 1] else [b]) @ escape_order_bytes_into bs"

fun encode_order_key :: "val \<Rightarrow> bytes" where
  "encode_order_key Null = [0]"
| "encode_order_key (Integer i) = 1 # be64 (double_order_key (order_floor i)) @ be_bytes 2 (unat (order_delta i))"
| "encode_order_key (Real f) = 1 # be64 (double_order_key (f64_add_zero f)) @ be_bytes 2 0"
| "encode_order_key (Txt s) = 2 # escape_order_bytes_into (as_bytes s) @ [0, 0]"
| "encode_order_key (Blob b) = 3 # escape_order_bytes_into b @ [0, 0]"

fun order_key_len :: "val \<Rightarrow> nat" where
  "order_key_len Null = 1"
| "order_key_len (Integer _) = 11"
| "order_key_len (Real _) = 11"
| "order_key_len (Txt s) = 3 + text_len s + length (filter (\<lambda>b. b = 0) (as_bytes s))"
| "order_key_len (Blob b) = 3 + length b + length (filter (\<lambda>x. x = 0) b)"

text \<open>Writes into a caller's buffer: an index or a range outside of it panics.\<close>

definition put_at :: "bytes \<Rightarrow> nat \<Rightarrow> byte \<Rightarrow> bytes outcome" where
  "put_at out n b = (if n < length out then Ok (out[n := b]) else Panic)"

definition put_range :: "bytes \<Rightarrow> nat \<Rightarrow> nat \<Rightarrow> bytes \<Rightarrow> bytes outcome" where
  "put_range out s e bs =
     (if s \<le> e \<and> e \<le> length out \<and> length bs = e - s then Ok (take s out @ bs @ drop e out) else Panic)"

fun escape_into_slice_loop :: "bytes \<Rightarrow> bytes \<Rightarrow> nat \<Rightarrow> (bytes \<times> nat) outcome" where
  "escape_into_slice_loop [] out n = Ok (out, n)"
| "escape_into_slice_loop (b # bs) out n =
     (if b = 0
      then bind_outcome (put_at out n 0) (\<lambda>o1. bind_outcome (put_at o1 (n + 1) 1) (\<lambda>o2. escape_into_slice_loop bs o2 (n + 2)))
      else bind_outcome (put_at out n b) (\<lambda>o1. escape_into_slice_loop bs o1 (n + 1)))"

definition escape_order_bytes_into_slice :: "bytes \<Rightarrow> bytes \<Rightarrow> (bytes \<times> nat) outcome" where
  "escape_order_bytes_into_slice bs out = escape_into_slice_loop bs out 0"

definition escaped_body :: "bytes \<Rightarrow> nat \<Rightarrow> byte \<Rightarrow> bytes \<Rightarrow> bytes outcome" where
  "escaped_body bs need tag o' =
     bind_outcome (put_at o' 0 tag) (\<lambda>o1.
       bind_outcome (slice o1 1 (need - 2)) (\<lambda>mid.
         bind_outcome (escape_order_bytes_into_slice bs mid) (\<lambda>(mid', n).
           bind_outcome (put_range o1 1 (need - 2) mid') (\<lambda>o2.
             bind_outcome (put_at o2 (need - 2) 0) (\<lambda>o3. put_at o3 (need - 1) 0)))))"

fun fill_order_key :: "val \<Rightarrow> nat \<Rightarrow> bytes \<Rightarrow> bytes outcome" where
  "fill_order_key Null need o' = put_at o' 0 0"
| "fill_order_key (Integer i) need o' =
     bind_outcome (put_at o' 0 1) (\<lambda>o1.
       bind_outcome (put_range o1 1 9 (be64 (double_order_key (order_floor i)))) (\<lambda>o2.
         put_range o2 9 11 (be_bytes 2 (unat (order_delta i)))))"
| "fill_order_key (Real f) need o' =
     bind_outcome (put_at o' 0 1) (\<lambda>o1.
       bind_outcome (put_range o1 1 9 (be64 (double_order_key (f64_add_zero f)))) (\<lambda>o2. put_range o2 9 11 (be_bytes 2 0)))"
| "fill_order_key (Txt s) need o' = escaped_body (as_bytes s) need 2 o'"
| "fill_order_key (Blob b) need o' = escaped_body b need 3 o'"

text \<open>The buffer afterwards and the number of bytes written, \<open>None\<close> when it is too small.\<close>

definition encode_order_key_into_slice :: "val \<Rightarrow> bytes \<Rightarrow> (bytes \<times> nat option) outcome" where
  "encode_order_key_into_slice v out =
     (let need = order_key_len v in
      if length out < need then Ok (out, None)
      else bind_outcome (fill_order_key v need (take need out)) (\<lambda>o'. Ok (o' @ drop need out, Some need)))"

datatype affinity = AffInteger | AffReal | AffText | AffBlob | AffNumeric | AffNone

fun unescape_loop :: "bytes \<Rightarrow> bytes option" where
  "unescape_loop [] = Some []"
| "unescape_loop (b # bs) =
     (if b = 0
      then case bs of [] \<Rightarrow> None | c # cs \<Rightarrow> if c \<noteq> 1 then None else map_option (Cons 0) (unescape_loop cs)
      else map_option (Cons b) (unescape_loop bs))"

definition unescape :: "bytes \<Rightarrow> bytes option" where
  "unescape body =
     (if length body < 2 then None
      else let n = length body - 2 in if drop n body \<noteq> [0, 0] then None else unescape_loop (take n body))"

definition i64_try_from :: "int \<Rightarrow> i64 option" where
  "i64_try_from v = (if - (2 ^ 63) \<le> v \<and> v < 2 ^ 63 then Some (word_of_int v) else None)"

definition decode_number :: "f64 \<Rightarrow> u16 \<Rightarrow> affinity \<Rightarrow> val option" where
  "decode_number lo delta aff =
     (if aff = AffInteger \<or> aff = AffNumeric
      then if delta \<noteq> 0 then map_option Integer (i64_try_from (f64_to_i128 lo + int (unat delta)))
           else if f64_is_finite lo \<and> f64_is_integral lo \<and> (f64_less f64_min_i64 lo \<or> f64_eq lo f64_min_i64) \<and> f64_less lo f64_two_63
           then Some (Integer (f64_to_i64 lo))
           else Some (Real lo)
      else if aff = AffReal \<and> delta = 0 \<and> \<not> f64_is_zero lo \<and> \<not> f64_is_nan lo then Some (Real lo)
      else None)"

definition decode_order_key_value :: "bytes \<Rightarrow> affinity \<Rightarrow> val option" where
  "decode_order_key_value seg aff =
     (case seg of [] \<Rightarrow> None
      | tag # body \<Rightarrow>
          if tag = 0 \<and> length seg = 1 then Some Null
          else if tag = 2 then map_option (\<lambda>bs. Txt (from_bytes bs)) (unescape body)
          else if tag = 3 then map_option Blob (unescape body)
          else if tag = 1 \<and> length seg = 11
          then let k = of_be64 (take 8 body);
                   lo = (if drop_bit 63 k = 1 then k AND NOT 0x8000000000000000 else NOT k);
                   delta = word_of_nat (be_nat (drop 8 body))
               in decode_number lo delta aff
          else None)"

subsection \<open>The floor of an integer among the doubles\<close>

definition f64_make :: "bool \<Rightarrow> nat \<Rightarrow> f64" where
  "f64_make neg m = word_of_nat ((if neg then 2 ^ 63 else 0) + m)"

lemma f64_make_parts: "m < 2 ^ 63 \<Longrightarrow> f64_bits (f64_make neg m) = m" "m < 2 ^ 63 \<Longrightarrow> f64_negative (f64_make neg m) = neg"
  unfolding f64_make_def by (rule f64_of_parts; assumption)+

lemma f64_make_step: "f64_make neg m + 1 = f64_make neg (Suc m)" "f64_make neg (Suc m) - 1 = f64_make neg m"
  by (simp_all add: f64_make_def)

lemma i64_to_f64_make: "i64_to_f64 i = f64_make (sint i < 0) (nat_magnitude (nat \<bar>sint i\<bar>))"
  by (simp add: i64_to_f64_def f64_make_def)

lemma f64_to_i128_whole:
  assumes "m < 2047 * 2 ^ 52" "mag m = t * one_scaled" "t \<le> 2 ^ 64"
  shows "f64_to_i128 (f64_make neg m) = (if neg then - int t else int t)"
proof -
  have m: "f64_bits (f64_make neg m) = m" "f64_negative (f64_make neg m) = neg"
    using f64_make_parts [of m neg] assms(1) by simp_all
  have "m div 2 ^ 52 < 2047" using assms(1) by (simp only: less_mult_imp_div_less)
  then have fin: "f64_is_finite (f64_make neg m)" by (simp add: f64_is_finite_def f64_exponent_bits m)
  have t: "f64_abs_trunc (f64_make neg m) = t" by (simp add: abs_trunc_mag m assms(2))
  have "max (- int t) (- (2 ^ 127)) = - int t" "min (int t) (2 ^ 127 - 1) = int t" using assms(3) by simp_all
  then show ?thesis using fin finite_not_nan [OF fin] m(2) by (simp only: f64_to_i128_def t simp_thms if_False)
qed

lemma order_floor_pos:
  assumes "0 < sint i"
  obtains m where "order_floor i = f64_make False m" "m < 2047 * 2 ^ 52" "one_scaled dvd mag m"
    "mag m \<le> nat (sint i) * one_scaled" "nat (sint i) * one_scaled < mag (Suc m)" "nat (sint i) * one_scaled < mag m + 2048 * one_scaled"
proof -
  define u where "u = nat (sint i)"
  have u: "0 < u" "u \<le> 2 ^ 63" "nat \<bar>sint i\<bar> = u" "sint i = int u" using assms i64_abs_le [of i] by (simp_all add: u_def)
  from u(1,2) obtain m where m: "mag m \<le> u * one_scaled" "u * one_scaled < mag (Suc m)" "one_scaled dvd mag m" "Suc m < 2047 * 2 ^ 52"
      "nat_magnitude u = m \<or> nat_magnitude u = Suc m \<and> mag m < u * one_scaled"
      "mag m < u * one_scaled \<Longrightarrow> one_scaled dvd mag (Suc m) \<and> mag (Suc m) \<le> mag m + 2048 * one_scaled"
    by (rule nat_magnitude_brackets) blast
  obtain q where q: "mag m = q * one_scaled" using m(3) by (metis dvd_div_mult_self)
  with m(1) have qu: "q \<le> u" by simp
  have "order_floor i = f64_make False m"
  proof (cases "nat_magnitude u = m")
    case True
    have "f64_to_i128 (f64_make False m) = int q" using f64_to_i128_whole [OF _ q, of False] m(4) qu u(2) by simp
    then show ?thesis using True u qu by (simp add: order_floor_def i64_to_f64_make Let_def)
  next
    case False
    with m(5) have s: "nat_magnitude u = Suc m" "mag m < u * one_scaled" by auto
    from m(6) [OF s(2)] obtain q' where q': "mag (Suc m) = q' * one_scaled" "q' * one_scaled \<le> q * one_scaled + 2048 * one_scaled"
      using q by (metis dvd_div_mult_self)
    have "q' * one_scaled \<le> (q + 2048) * one_scaled" using q'(2) by (simp add: distrib_right)
    then have "q' \<le> q + 2048" by (simp only: mult_le_cancel2) simp
    then have "f64_to_i128 (f64_make False (Suc m)) = int q'" using f64_to_i128_whole [OF m(4) q'(1), of False] qu u(2) by simp
    moreover have "u < q'" using m(2) q'(1) by simp
    moreover have "f64_less 0 (f64_make False (Suc m))"
    proof -
      have b: "f64_bits (f64_make False (Suc m)) = Suc m" "\<not> f64_negative (f64_make False (Suc m))"
        using f64_make_parts [of "Suc m" False] m(4) by simp_all
      have z: "f64_bits 0 = 0" "\<not> f64_negative 0" by (simp_all add: f64_bits_def f64_negative_def)
      show ?thesis using b z m(4) mag_strict_mono [of 0 "Suc m"] by (simp add: f64_less_def f64_scaled_mag f64_is_nan_bits)
    qed
    ultimately show ?thesis using s(1) u by (simp add: order_floor_def i64_to_f64_make Let_def f64_make_step)
  qed
  moreover have "u * one_scaled < mag m + 2048 * one_scaled"
  proof (cases "mag m < u * one_scaled")
    case True
    with m(2) m(6) show ?thesis by (auto intro: order.strict_trans2)
  next
    case False
    have "0 < 2048 * one_scaled" by simp
    with False m(1) show ?thesis by linarith
  qed
  ultimately show ?thesis using m by (intro that) (simp_all add: u_def)
qed

lemma order_floor_neg:
  assumes "sint i < 0"
  obtains n where "order_floor i = f64_make True n" "0 < n" "n < 2047 * 2 ^ 52" "one_scaled dvd mag n"
    "nat (- sint i) * one_scaled \<le> mag n" "mag (n - 1) < nat (- sint i) * one_scaled" "mag n < nat (- sint i) * one_scaled + 2048 * one_scaled"
proof -
  define u where "u = nat (- sint i)"
  have u: "0 < u" "u \<le> 2 ^ 63" "nat \<bar>sint i\<bar> = u" "sint i = - int u" using assms i64_abs_le [of i] by (simp_all add: u_def)
  from u(1,2) obtain m where m: "mag m \<le> u * one_scaled" "u * one_scaled < mag (Suc m)" "one_scaled dvd mag m" "Suc m < 2047 * 2 ^ 52"
      "nat_magnitude u = m \<or> nat_magnitude u = Suc m \<and> mag m < u * one_scaled"
      "mag m < u * one_scaled \<Longrightarrow> one_scaled dvd mag (Suc m) \<and> mag (Suc m) \<le> mag m + 2048 * one_scaled"
    by (rule nat_magnitude_brackets) blast
  obtain q where q: "mag m = q * one_scaled" using m(3) by (metis dvd_div_mult_self)
  with m(1) have qu: "q \<le> u" by simp
  have tm: "f64_to_i128 (f64_make True m) = - int q" using f64_to_i128_whole [OF _ q, of True] m(4) qu u(2) by simp
  show ?thesis
  proof (cases "mag m = u * one_scaled")
    case True
    then have "nat_magnitude u = m" using m(5) by simp
    moreover have "q = u" using True q by simp
    ultimately have F: "order_floor i = f64_make True m" using u tm by (simp add: order_floor_def i64_to_f64_make Let_def)
    have m0: "0 < m" using True u(1) by (cases m) simp_all
    then have m1: "mag (m - 1) < u * one_scaled" using True mag_strict_mono [of "m - 1" m] by simp
    show ?thesis by (rule that [OF F m0 _ m(3)]) (use m1 m(4) True in \<open>simp_all add: u_def [symmetric]\<close>)
  next
    case False
    with m(1) have lt: "mag m < u * one_scaled" by simp
    from m(6) [OF this] obtain q' where q': "mag (Suc m) = q' * one_scaled" "q' * one_scaled \<le> q * one_scaled + 2048 * one_scaled"
      using q by (metis dvd_div_mult_self)
    have "q' * one_scaled \<le> (q + 2048) * one_scaled" using q'(2) by (simp add: distrib_right)
    then have "q' \<le> q + 2048" by (simp only: mult_le_cancel2) simp
    then have ts: "f64_to_i128 (f64_make True (Suc m)) = - int q'" using f64_to_i128_whole [OF m(4) q'(1), of True] qu u(2) by simp
    have "q < u" "u < q'" using lt m(2) q q'(1) by simp_all
    moreover have "\<not> f64_less 0 (f64_make True m)"
      using f64_make_parts [of m True] m(4) by (simp add: f64_less_def f64_scaled_mag f64_bits_def f64_negative_def)
    ultimately have F: "order_floor i = f64_make True (Suc m)"
      using m(5) u tm ts by (auto simp: order_floor_def i64_to_f64_make Let_def f64_make_step)
    have near: "one_scaled dvd mag (Suc m)" "mag (Suc m) < u * one_scaled + 2048 * one_scaled" using m(6) [OF lt] lt by linarith+
    show ?thesis
      by (rule that [OF F _ m(4) near(1)]) (use m(2) lt near(2) in \<open>simp_all only: u_def [symmetric] diff_Suc_1 less_imp_le zero_less_Suc\<close>)
  qed
qed

definition floor_of :: "i64 \<Rightarrow> f64 \<Rightarrow> bool" where
  "floor_of i lo \<longleftrightarrow> \<not> f64_is_nan lo \<and> \<not> (f64_is_zero lo \<and> f64_negative lo) \<and> f64_scaled lo \<le> int_scaled i
     \<and> int_scaled i < f64_scaled lo + 2048 * int one_scaled \<and> f64_to_i128 lo * int one_scaled = f64_scaled lo
     \<and> (\<forall>r. \<not> f64_is_nan r \<longrightarrow> f64_scaled r \<le> int_scaled i \<longrightarrow> f64_scaled r \<le> f64_scaled lo)"

lemma whole_i128:
  assumes "m < 2047 * 2 ^ 52" "one_scaled dvd mag m" "mag m \<le> 2 ^ 64 * one_scaled"
  shows "f64_to_i128 (f64_make neg m) * int one_scaled = (if neg then - int (mag m) else int (mag m))"
proof -
  obtain t where t: "mag m = t * one_scaled" using assms(2) by (metis dvd_div_mult_self)
  with assms(3) have "t \<le> 2 ^ 64" by simp
  then show ?thesis using f64_to_i128_whole [OF assms(1) t, of neg] by (simp add: t)
qed

lemma floor_of_pos:
  assumes i: "0 < sint i"
  shows "floor_of i (order_floor i)"
proof -
  define U where "U = nat (sint i) * one_scaled"
  have iU: "int_scaled i = int U" using i by (simp add: U_def)
  from i obtain m where m: "order_floor i = f64_make False m" "m < 2047 * 2 ^ 52" "one_scaled dvd mag m"
      "mag m \<le> U" "U < mag (Suc m)" "U < mag m + 2048 * one_scaled"
    unfolding U_def by (rule order_floor_pos) blast
  have p: "f64_bits (f64_make False m) = m" "\<not> f64_negative (f64_make False m)"
    using f64_make_parts [of m False] m(2) by simp_all
  have "U \<le> 2 ^ 64 * one_scaled" unfolding U_def using i64_abs_le [of i] i by simp
  then have t: "f64_to_i128 (f64_make False m) * int one_scaled = int (mag m)" using whole_i128 [OF m(2,3), of False] m(4) by simp
  have g: "f64_scaled r \<le> int (mag m)" if "f64_scaled r \<le> int U" for r
  proof (cases "f64_negative r")
    case False
    then have "mag (f64_bits r) < mag (Suc m)" using that m(5) by (simp add: f64_scaled_mag)
    then have "f64_bits r \<le> m" by (simp only: mag_less_iff less_Suc_eq_le)
    then show ?thesis using False by (simp add: f64_scaled_mag mag_le_iff)
  qed (simp add: f64_scaled_mag)
  have near: "int U < int (mag m) + 2048 * int one_scaled"
    using m(6) by (simp only: of_nat_less_iff [symmetric, where ?'a = int] of_nat_add of_nat_mult of_nat_numeral)
  show ?thesis unfolding floor_of_def iU m(1) using p m(2,4) t g near by (simp add: f64_scaled_mag f64_is_nan_bits)
qed

lemma floor_of_neg:
  assumes i: "sint i < 0"
  shows "floor_of i (order_floor i)"
proof -
  define U where "U = nat (- sint i) * one_scaled"
  have iU: "int_scaled i = - int U" using i by (simp add: U_def)
  from i obtain n where n: "order_floor i = f64_make True n" "0 < n" "n < 2047 * 2 ^ 52" "one_scaled dvd mag n"
      "U \<le> mag n" "mag (n - 1) < U" "mag n < U + 2048 * one_scaled"
    unfolding U_def by (rule order_floor_neg) blast
  have p: "f64_bits (f64_make True n) = n" "f64_negative (f64_make True n)"
    using f64_make_parts [of n True] n(3) by simp_all
  have "nat (- sint i) + 2048 \<le> 2 ^ 64" using i64_abs_le [of i] i by simp
  then have "(nat (- sint i) + 2048) * one_scaled \<le> 2 ^ 64 * one_scaled" by (rule mult_right_mono) simp
  then have "U + 2048 * one_scaled \<le> 2 ^ 64 * one_scaled" by (simp only: U_def distrib_right)
  with n(7) have "mag n \<le> 2 ^ 64 * one_scaled" by linarith
  then have t: "f64_to_i128 (f64_make True n) * int one_scaled = - int (mag n)" using whole_i128 [OF n(3,4), of True] by simp
  have g: "f64_scaled r \<le> - int (mag n)" if r: "f64_scaled r \<le> - int U" for r
  proof -
    have "0 < U" using i by (simp add: U_def)
    then have neg: "f64_negative r" and "U \<le> mag (f64_bits r)" using r by (auto simp: f64_scaled_mag split: if_splits)
    then have "mag (n - 1) < mag (f64_bits r)" using n(6) by simp
    then have "n \<le> f64_bits r" unfolding mag_less_iff by linarith
    then show ?thesis using neg by (simp add: f64_scaled_mag mag_le_iff)
  qed
  have near: "int (mag n) < int U + 2048 * int one_scaled"
    using n(7) by (simp only: of_nat_less_iff [symmetric, where ?'a = int] of_nat_add of_nat_mult of_nat_numeral)
  show ?thesis unfolding floor_of_def iU n(1) using p n(2,3,5) t g near by (simp add: f64_scaled_mag f64_is_nan_bits f64_is_zero_bits)
qed

lemma floor_of_order_floor: "floor_of i (order_floor i)"
proof -
  consider "sint i = 0" | "0 < sint i" | "sint i < 0" by linarith
  then show ?thesis
  proof cases
    case 1
    have z: "f64_bits (f64_make False 0) = 0" "\<not> f64_negative (f64_make False 0)" using f64_make_parts [of 0 False] by simp_all
    have t: "f64_to_i128 (f64_make False 0) = 0" using f64_to_i128_whole [of 0 0 False] by simp
    then have "order_floor i = f64_make False 0" using 1 by (simp add: order_floor_def i64_to_f64_make)
    then show ?thesis using 1 z t by (simp add: floor_of_def f64_scaled_mag f64_is_nan_bits)
  qed (fact floor_of_pos floor_of_neg)+
qed

lemma order_delta_value: "f64_scaled (order_floor i) + int (unat (order_delta i)) * int one_scaled = int_scaled i"
proof -
  define d where "d = sint i - f64_to_i128 (order_floor i)"
  have f: "f64_scaled (order_floor i) \<le> int_scaled i" "int_scaled i < f64_scaled (order_floor i) + 2048 * int one_scaled"
      "f64_to_i128 (order_floor i) * int one_scaled = f64_scaled (order_floor i)"
    using floor_of_order_floor [of i] by (simp_all add: floor_of_def)
  have dS: "d * int one_scaled = int_scaled i - f64_scaled (order_floor i)" by (simp add: d_def f(3) [symmetric] algebra_simps)
  have "0 * int one_scaled \<le> d * int one_scaled" "d * int one_scaled < 2048 * int one_scaled" using f(1,2) dS by simp_all
  then have "0 \<le> d" "d < 2048" by (simp_all only: mult_le_cancel_right mult_less_cancel_right) auto
  then have "int (unat (order_delta i)) = d" by (simp add: order_delta_def d_def [symmetric] uint_word_of_int take_bit_int_eq_self)
  then show ?thesis using dS by simp
qed


subsection \<open>The key order\<close>

lemma cmp_list_be_bytes: "v < 256 ^ n \<Longrightarrow> w < 256 ^ n \<Longrightarrow> cmp_list (be_bytes n v) (be_bytes n w) = cmp_of v w"
proof (induction n arbitrary: v w)
  case (Suc n)
  define x y where "x = v div 256 ^ n" and "y = w div 256 ^ n"
  have b: "x < 256" "y < 256" using Suc.prems by (simp_all add: x_def y_def less_mult_imp_div_less mult.commute)
  have c: "(word_of_nat x :: byte) < word_of_nat y \<longleftrightarrow> x < y" "(word_of_nat y :: byte) < word_of_nat x \<longleftrightarrow> y < x"
    using b by (simp_all add: word_less_nat_alt unat_of_nat)
  have low: "be_bytes n v = be_bytes n (v mod 256 ^ n)" "be_bytes n w = be_bytes n (w mod 256 ^ n)"
    by (simp_all only: be_bytes_mod)
  have v: "v = x * 256 ^ n + v mod 256 ^ n" "w = y * 256 ^ n + w mod 256 ^ n" by (simp_all only: x_def y_def div_mult_mod_eq)
  have lt: "x < y \<Longrightarrow> v < w" "y < x \<Longrightarrow> w < v" unfolding x_def y_def by (meson div_le_mono not_le)+
  have "cmp_of v w = (if x < y then Less else if y < x then Greater else cmp_of (v mod 256 ^ n) (w mod 256 ^ n))"
  proof (cases "x = y")
    case True
    then show ?thesis using v by (auto simp: cmp_of_def)
  next
    case False
    then show ?thesis using lt by (auto simp: cmp_of_def dest: order.asym)
  qed
  then show ?case using Suc.IH [of "v mod 256 ^ n" "w mod 256 ^ n"] c low by (simp add: x_def [symmetric] y_def [symmetric])
qed simp

lemma double_order_key_value:
  "unat (double_order_key f) = (if f64_negative f then 2 ^ 63 - 1 - f64_bits f else 2 ^ 63 + f64_bits f)"
proof (cases "f64_negative f")
  case True
  have "drop_bit 63 f = 1"
    using True u64_bound [of f] by (simp only: word_unat_eq_iff unat_drop7) (simp add: f64_negative_iff div_nat_eqI)
  moreover have "unat (NOT f) = 2 ^ 64 - 1 - unat f"
  proof -
    have "NOT f = word_of_nat (2 ^ 64 - 1 - unat f)"
      using u64_bound [of f] by (simp add: not_eq_complement of_nat_diff)
    then show ?thesis using u64_bound [of f] by (simp only: unat_of_nat) simp
  qed
  ultimately show ?thesis using True unat_split [of f] by (simp add: double_order_key_def)
next
  case False
  then have "drop_bit 63 f \<noteq> 1" by (simp only: word_unat_eq_iff unat_drop7) (simp add: f64_negative_iff)
  moreover have "f OR 0x8000000000000000 = f + 0x8000000000000000"
    using False by (simp add: f64_negative_def disjunctive_add_eq_or)
  moreover have "unat (f + 0x8000000000000000) = unat f + 2 ^ 63"
    using False by (subst unat_add_lem [THEN iffD1]) (simp_all add: f64_negative_iff)
  ultimately show ?thesis using False unat_split [of f] by (simp add: double_order_key_def)
qed

lemma double_order_key_cmp:
  assumes "\<not> (f64_is_zero a \<and> f64_negative a)" "\<not> (f64_is_zero b \<and> f64_negative b)"
  shows "cmp_of (unat (double_order_key a)) (unat (double_order_key b)) = cmp_of (f64_scaled a) (f64_scaled b)"
proof -
  have b: "f64_bits a < 2 ^ 63" "f64_bits b < 2 ^ 63" by (rule f64_bits_less)+
  have z: "f64_negative a \<Longrightarrow> 0 < mag (f64_bits a)" "f64_negative b \<Longrightarrow> 0 < mag (f64_bits b)"
    using assms mag_strict_mono [of 0] by (auto simp: f64_is_zero_bits)
  show ?thesis using b z
    by (cases "f64_negative a"; cases "f64_negative b")
      (auto simp: cmp_of_def double_order_key_value f64_scaled_mag mag_less_iff)
qed

text \<open>A number is a double and a rest below the next double; the pair sorts as the number.\<close>

fun key_double :: "val \<Rightarrow> f64" where
  "key_double (Integer i) = order_floor i"
| "key_double (Real f) = f64_add_zero f"
| "key_double _ = 0"

fun key_delta :: "val \<Rightarrow> nat" where
  "key_delta (Integer i) = unat (order_delta i)"
| "key_delta _ = 0"

fun is_num :: "val \<Rightarrow> bool" where
  "is_num (Integer i) = True"
| "is_num (Real f) = (\<not> f64_is_nan f)"
| "is_num _ = False"

lemma add_zero_scaled: "f64_scaled (f64_add_zero f) = f64_scaled f" "f64_is_nan (f64_add_zero f) = f64_is_nan f"
    "\<not> (f64_is_zero (f64_add_zero f) \<and> f64_negative (f64_add_zero f))"
proof -
  have "f64_bits 0 = 0" "\<not> f64_negative 0" by (simp_all add: f64_bits_def f64_negative_def)
  then show "f64_scaled (f64_add_zero f) = f64_scaled f" "f64_is_nan (f64_add_zero f) = f64_is_nan f"
    "\<not> (f64_is_zero (f64_add_zero f) \<and> f64_negative (f64_add_zero f))"
    by (simp_all add: f64_add_zero_def f64_scaled_mag f64_is_zero_bits f64_is_nan_bits)
qed

definition key_ok :: "val \<Rightarrow> bool" where
  "key_ok v \<longleftrightarrow> rank_number v = f64_scaled (key_double v) + int (key_delta v) * int one_scaled
     \<and> \<not> (f64_is_zero (key_double v) \<and> f64_negative (key_double v)) \<and> \<not> f64_is_nan (key_double v)
     \<and> (\<forall>r. \<not> f64_is_nan r \<longrightarrow> f64_scaled r \<le> rank_number v \<longrightarrow> f64_scaled r \<le> f64_scaled (key_double v))
     \<and> encode_order_key v = 1 # be64 (double_order_key (key_double v)) @ be_bytes 2 (key_delta v) \<and> key_delta v < 256 ^ 2"

lemma key_ok:
  assumes "is_num v"
  shows "key_ok v"
proof (cases v)
  case (Integer i)
  have "unat (order_delta i) < 256 ^ 2" using unsigned_less [of "order_delta i", where ?'a = nat] by simp
  moreover note floor_of_order_floor [of i, unfolded floor_of_def] order_delta_value [of i]
  ultimately show ?thesis
    unfolding Integer key_ok_def by (simp only: rank_number.simps key_double.simps key_delta.simps encode_order_key.simps) blast
next
  case (Real f)
  then show ?thesis using assms add_zero_scaled [of f] by (simp add: key_ok_def)
qed (use assms in simp_all)

lemmas key_parts = key_ok [unfolded key_ok_def, THEN conjunct1]
  key_ok [unfolded key_ok_def, THEN conjunct2, THEN conjunct1]
  key_ok [unfolded key_ok_def, THEN conjunct2, THEN conjunct2, THEN conjunct1]
  key_ok [unfolded key_ok_def, THEN conjunct2, THEN conjunct2, THEN conjunct2, THEN conjunct1, rule_format]
  key_ok [unfolded key_ok_def, THEN conjunct2, THEN conjunct2, THEN conjunct2, THEN conjunct2, THEN conjunct1]
  key_ok [unfolded key_ok_def, THEN conjunct2, THEN conjunct2, THEN conjunct2, THEN conjunct2, THEN conjunct2]

lemma number_key_cmp:
  assumes a: "is_num a" and b: "is_num b"
  shows "cmp_list (encode_order_key a) (encode_order_key b) = cmp_of (rank_number a) (rank_number b)"
proof -
  note A = key_parts [OF a] and B = key_parts [OF b]
  define x y where "x = f64_scaled (key_double a)" and "y = f64_scaled (key_double b)"
  define S where "S = int one_scaled"
  have S: "0 < S" by (simp add: S_def)
  have "unat (double_order_key (key_double v)) < 256 ^ 8" for v using u64_bound [of "double_order_key (key_double v)"] by simp
  then have "cmp_list (be64 (double_order_key (key_double a))) (be64 (double_order_key (key_double b))) = cmp_of x y"
    by (simp only: cmp_list_be_bytes double_order_key_cmp [OF A(2) B(2)] x_def y_def)
  moreover have "cmp_list (be_bytes 2 (key_delta a)) (be_bytes 2 (key_delta b)) = cmp_of (key_delta a) (key_delta b)"
    by (rule cmp_list_be_bytes [OF A(6) B(6)])
  ultimately have "cmp_list (encode_order_key a) (encode_order_key b) = and_then (cmp_of x y) (cmp_of (key_delta a) (key_delta b))"
    unfolding A(5) B(5) by (simp add: cmp_list_append)
  also have "\<dots> = cmp_of (x + int (key_delta a) * S) (y + int (key_delta b) * S)"
  proof (cases "x = y")
    case True
    then show ?thesis using S by (simp add: cmp_of_def)
  next
    case False
    have "0 \<le> int (key_delta a) * S" "0 \<le> int (key_delta b) * S" using S by simp_all
    moreover have "x + int (key_delta a) * S < y" if "x < y"
      using A(4) [OF B(3)] that unfolding A(1) x_def y_def S_def by linarith
    moreover have "y + int (key_delta b) * S < x" if "y < x"
      using B(4) [OF A(3)] that unfolding B(1) x_def y_def S_def by linarith
    ultimately show ?thesis using False by (auto simp: cmp_of_def)
  qed
  finally show ?thesis using A(1) B(1) by (simp add: x_def y_def S_def)
qed

lemma escape_order:
  "cmp_list (escape_order_bytes_into xs @ 0 # 0 # r) (escape_order_bytes_into ys @ 0 # 0 # s) = and_then (cmp_list xs ys) (cmp_list r s)"
proof (induction xs arbitrary: ys)
  case Nil
  then show ?case by (cases ys) (auto simp: word_neq_0_conv)
next
  case (Cons x xs)
  then show ?case by (cases ys) (auto simp: word_neq_0_conv)
qed

lemma encode_order_key_order:
  assumes "\<not> is_nan_val a" "\<not> is_nan_val b"
  shows "cmp_list (encode_order_key a @ r) (encode_order_key b @ s) = and_then (value_cmp a b) (cmp_list r s)"
proof (cases "is_num a \<and> is_num b")
  case True
  then have a: "is_num a" and b: "is_num b" by auto
  have "rank_class a = 1" "rank_class b = 1" "rank_bytes a = []" "rank_bytes b = []" using a b by (cases a; cases b; simp)+
  then have "value_cmp a b = cmp_of (rank_number a) (rank_number b)" by (simp add: value_cmp_rank rank_cmp_def)
  moreover have "length (encode_order_key a) = length (encode_order_key b)" using key_parts(5) [OF a] key_parts(5) [OF b] by simp
  ultimately show ?thesis using number_key_cmp [OF a b] by (simp add: cmp_list_append)
next
  case False
  then show ?thesis using assms by (cases a; cases b) (auto simp: escape_order)
qed

interpretation index_key: order_encoding encode_order_key value_cmp "\<lambda>v. \<not> is_nan_val v"
  by unfold_locales (rule encode_order_key_order)

subsection \<open>The slice encoder\<close>

lemma length_escape: "length (escape_order_bytes_into bs) = length bs + length (filter (\<lambda>b. b = 0) bs)"
  by (induction bs) simp_all

lemma length_order_key: "length (encode_order_key v) = order_key_len v"
  by (cases v) (simp_all add: length_escape text_len_def)

lemma put_at_append: "n = length pre \<Longrightarrow> put_at (pre @ x # rest) n b = Ok (pre @ b # rest)"
  by (simp add: put_at_def)

lemma put_range_append: "s = length pre \<Longrightarrow> e = length pre + length bs \<Longrightarrow> length mid = length bs \<Longrightarrow> put_range (pre @ mid @ rest) s e bs = Ok (pre @ bs @ rest)"
  by (simp add: put_range_def)

lemma escape_into_slice_loop_eq:
  "length mid = length (escape_order_bytes_into bs) \<Longrightarrow>
   escape_into_slice_loop bs (pre @ mid @ rest) (length pre) = Ok (pre @ escape_order_bytes_into bs @ rest, length pre + length mid)"
proof (induction bs arbitrary: pre mid)
  case (Cons b bs)
  show ?case
  proof (cases "b = 0")
    case True
    then obtain x y mid' where mid: "mid = x # y # mid'" "length mid' = length (escape_order_bytes_into bs)"
      using Cons.prems by (auto simp: length_Suc_conv)
    have "put_at (pre @ [0] @ y # mid' @ rest) (length pre + 1) 1 = Ok (pre @ [0, 1] @ mid' @ rest)"
      using put_at_append [of "length pre + 1" "pre @ [0]" y "mid' @ rest" 1] by simp
    then show ?thesis using Cons.IH [OF mid(2), of "pre @ [0, 1]"] True mid by (simp add: put_at_append)
  next
    case False
    then obtain x mid' where mid: "mid = x # mid'" "length mid' = length (escape_order_bytes_into bs)"
      using Cons.prems by (auto simp: length_Suc_conv)
    then show ?thesis using Cons.IH [OF mid(2), of "pre @ [b]"] False by (simp add: put_at_append)
  qed
qed simp

lemma escaped_body_eq:
  assumes "need = 3 + length (escape_order_bytes_into bs)" "length o' = need"
  shows "escaped_body bs need tag o' = Ok (tag # escape_order_bytes_into bs @ [0, 0])"
proof -
  obtain x mid y z where o: "o' = x # mid @ [y, z]" "length mid = length (escape_order_bytes_into bs)"
  proof -
    obtain x o1 where o1: "o' = x # o1" "length o1 = 2 + length (escape_order_bytes_into bs)" using assms by (cases o') auto
    obtain m e where m: "o1 = m @ e" "length e = 2" "length m = length (escape_order_bytes_into bs)"
      using o1(2) by (metis append_take_drop_id length_drop length_take diff_add_inverse2 le_add2 min.absorb2)
    then obtain y z where "e = [y, z]" by (auto simp: numeral_2_eq_2 length_Suc_conv)
    then show ?thesis using that o1 m by simp
  qed
  have n: "need - 2 = Suc (length mid)" "need - 1 = Suc (Suc (length mid))" using assms(1) o(2) by simp_all
  have e: "escape_order_bytes_into_slice bs mid = Ok (escape_order_bytes_into bs, length mid)"
    using escape_into_slice_loop_eq [OF o(2), of "[]" "[]"] by (simp add: escape_order_bytes_into_slice_def)
  have p: "put_range (tag # mid @ [y, z]) 1 (Suc (length mid)) (escape_order_bytes_into bs) = Ok ([tag] @ escape_order_bytes_into bs @ [y, z])"
    using put_range_append [of 1 "[tag]" "Suc (length mid)" "escape_order_bytes_into bs" mid "[y, z]"] o(2) by simp
  have l: "length mid = length (escape_order_bytes_into bs)" by (rule o(2))
  have q: "put_at (tag # escape_order_bytes_into bs @ [y, z]) (Suc (length mid)) 0 = Ok (tag # escape_order_bytes_into bs @ [0, z])"
    "put_at (tag # escape_order_bytes_into bs @ [0, z]) (Suc (Suc (length mid))) 0 = Ok (tag # escape_order_bytes_into bs @ [0, 0])"
    using put_at_append [of "Suc (length mid)" "tag # escape_order_bytes_into bs" y "[z]" 0]
      put_at_append [of "Suc (Suc (length mid))" "tag # escape_order_bytes_into bs @ [0]" z "[]" 0] l by simp_all
  have s: "slice (tag # mid @ [y, z]) 1 (Suc (length mid)) = Ok mid" using slice_middle [of 1 "[tag]" "Suc (length mid)" mid "[y, z]"] by simp
  have "put_at o' 0 tag = Ok (tag # mid @ [y, z])" by (simp add: put_at_def o)
  then show ?thesis using n e p q s by (simp add: escaped_body_def)
qed

lemma fill_order_key_eq:
  assumes "length o' = order_key_len v"
  shows "fill_order_key v (order_key_len v) o' = Ok (encode_order_key v)"
proof -
  have num: "bind_outcome (put_at o' 0 1) (\<lambda>o1. bind_outcome (put_range o1 1 9 (be64 k)) (\<lambda>o2. put_range o2 9 11 (be_bytes 2 d)))
      = Ok (1 # be64 k @ be_bytes 2 d)" if l: "length o' = 11" for k d
  proof -
    obtain x m e where o: "o' = x # m @ e" "length m = 8" "length e = 2"
    proof -
      obtain x o1 where o1: "o' = x # o1" "length o1 = 10" using l by (cases o') auto
      show ?thesis by (rule that [of x "take 8 o1" "drop 8 o1"]) (use o1 in simp_all)
    qed
    have "put_range (1 # m @ e) 1 9 (be64 k) = Ok (1 # be64 k @ e)"
      using put_range_append [of 1 "[1]" 9 "be64 k" m e] o by simp
    moreover have "put_range (1 # be64 k @ e) 9 11 (be_bytes 2 d) = Ok (1 # be64 k @ be_bytes 2 d)"
      using put_range_append [of 9 "1 # be64 k" 11 "be_bytes 2 d" e "[]"] o by simp
    ultimately show ?thesis by (simp add: o(1) put_at_def)
  qed
  have "length o' = order_key_len v" by (fact assms)
  then show ?thesis
  proof (cases v)
    case Null
    then show ?thesis using assms by (auto simp: put_at_def length_Suc_conv)
  next
    case (Txt t)
    then show ?thesis using assms by (simp add: escaped_body_eq length_escape text_len_def)
  next
    case (Blob b)
    then show ?thesis using assms by (simp add: escaped_body_eq length_escape)
  qed (use assms num in simp_all)
qed


subsection \<open>Decoding a key\<close>

lemma unescape_loop_escape: "unescape_loop (escape_order_bytes_into bs) = Some bs"
  by (induction bs) simp_all

lemma unescape_escape: "unescape (escape_order_bytes_into bs @ [0, 0]) = Some bs"
  by (simp add: unescape_def unescape_loop_escape)

lemma double_key_inverse:
  "(let k = double_order_key f in if drop_bit 63 k = 1 then k AND NOT 0x8000000000000000 else NOT k) = f"
proof (cases "f64_negative f")
  case True
  then have "unat (double_order_key f) < 2 ^ 63" by (simp add: double_order_key_value)
  then have "drop_bit 63 (double_order_key f) \<noteq> 1" by (simp only: word_unat_eq_iff unat_drop7) simp
  moreover have "drop_bit 63 f = 1"
    using True u64_bound [of f] by (simp only: word_unat_eq_iff unat_drop7) (simp add: f64_negative_iff div_nat_eqI)
  then have "double_order_key f = NOT f" by (simp add: double_order_key_def)
  ultimately show ?thesis by (simp add: Let_def)
next
  case False
  then have z: "f AND 0x8000000000000000 = 0" by (simp add: f64_negative_def)
  have "2 ^ 63 \<le> unat (double_order_key f)" "unat (double_order_key f) < 2 ^ 64" using False f64_bits_less [of f] by (simp_all add: double_order_key_value)
  then have "drop_bit 63 (double_order_key f) = 1" by (simp only: word_unat_eq_iff unat_drop7) (simp add: div_nat_eqI)
  moreover have "drop_bit 63 f \<noteq> 1" using False by (simp only: word_unat_eq_iff unat_drop7) (simp add: f64_negative_iff)
  then have "double_order_key f = f OR 0x8000000000000000" by (simp add: double_order_key_def)
  moreover have "(f OR 0x8000000000000000) AND NOT 0x8000000000000000 = f"
  proof -
    have "(f OR 0x8000000000000000) AND NOT 0x8000000000000000 = f AND NOT 0x8000000000000000" by (simp only: bit.conj_disj_distrib2 bit.conj_cancel_right or.right_neutral)
    also have "\<dots> = (f AND 0x8000000000000000) OR (f AND NOT 0x8000000000000000)" unfolding z by (simp only: or.left_neutral)
    also have "\<dots> = f" by (simp only: bit.conj_disj_distrib [symmetric] bit.disj_cancel_right and.right_neutral)
    finally show ?thesis .
  qed
  ultimately show ?thesis by (simp only: Let_def simp_thms if_True)
qed

lemma decode_number_key:
  "decode_order_key_value (1 # be64 (double_order_key lo) @ be_bytes 2 (unat (d :: u16))) aff = decode_number lo d aff"
proof -
  have "unat d < 256 ^ 2" using unsigned_less [of d, where ?'a = nat] by simp
  then have "(word_of_nat (be_nat (be_bytes 2 (unat d))) :: u16) = d" by (simp add: be_nat_be_bytes)
  moreover have "decode_order_key_value (1 # be64 (double_order_key lo) @ be_bytes 2 (unat d)) aff
      = decode_number (let k = double_order_key lo in if drop_bit 63 k = 1 then k AND NOT 0x8000000000000000 else NOT k)
          (word_of_nat (be_nat (be_bytes 2 (unat d)))) aff"
    by (simp add: decode_order_key_value_def Let_def del: bit.compl_one)
  ultimately show ?thesis by (simp only: double_key_inverse)
qed

lemma decode_integer_key:
  assumes "aff = AffInteger \<or> aff = AffNumeric"
  shows "decode_number (order_floor i) (order_delta i) aff = Some (Integer i)"
proof (cases "order_delta i = 0")
  case True
  then have "f64_scaled (order_floor i) = int_scaled i" using order_delta_value [of i] by simp
  moreover have n: "\<not> f64_is_nan (order_floor i)" using floor_of_order_floor [of i] by (simp add: floor_of_def)
  ultimately have w: "f64_is_finite (order_floor i)" "f64_is_integral (order_floor i)" "\<not> f64_less (order_floor i) f64_min_i64"
      "f64_less (order_floor i) f64_two_63" "f64_to_i64 (order_floor i) = i" using whole_to_i64 by blast+
  then have "f64_less f64_min_i64 (order_floor i) \<or> f64_eq (order_floor i) f64_min_i64"
    using n f64_min_i64(2) by (auto simp: f64_less_def f64_eq_iff)
  then show ?thesis using w True assms by (simp add: decode_number_def)
next
  case False
  have "f64_to_i128 (order_floor i) * int one_scaled = f64_scaled (order_floor i)"
    using floor_of_order_floor [of i] by (simp add: floor_of_def)
  then have "(f64_to_i128 (order_floor i) + int (unat (order_delta i))) * int one_scaled = int_scaled i"
    using order_delta_value [of i] by (simp add: distrib_right)
  then have "f64_to_i128 (order_floor i) + int (unat (order_delta i)) = sint i" by simp
  then show ?thesis using False assms sint_ge [of i] sint_lt [of i] by (simp add: decode_number_def i64_try_from_def)
qed

text \<open>
  The values a column can hold and its index keys give back: NULL, text and blobs; under INTEGER and
  NUMERIC affinity integers, and the reals but for the whole numbers that are not below \<open>-2\<^sup>6\<^sup>3\<close> and
  are below \<open>2\<^sup>6\<^sup>3\<close>; under REAL affinity the non-zero reals.
\<close>

fun key_recovers :: "affinity \<Rightarrow> val \<Rightarrow> bool" where
  "key_recovers aff (Txt t) = text_wf t"
| "key_recovers aff (Integer i) = (aff = AffInteger \<or> aff = AffNumeric)"
| "key_recovers aff (Real f) = (\<not> f64_is_nan f \<and> \<not> f64_is_zero f \<and> (aff = AffReal \<or>
     (aff = AffInteger \<or> aff = AffNumeric) \<and> \<not> (f64_is_finite f \<and> f64_is_integral f \<and> \<not> f64_less f f64_min_i64 \<and> f64_less f f64_two_63)))"
| "key_recovers aff _ = True"

lemma from_bytes_as_bytes: "text_wf t \<Longrightarrow> from_bytes (as_bytes t) = t"
  using text_wf_from_bytes [of "as_bytes t"] text_eqI by blast

subsection \<open>Properties\<close>

text \<open>
  C28: the keys of two rows of column values, with whatever follows them in the index entry,
  compare as the rows do, column by column in the SQL order: the index is sorted by its columns,
  equal keys are rows that are equal in SQL, and no key is a prefix of a different one.
\<close>

theorem index_keys_sort_as_rows:
  assumes "length xs = length ys" "list_all (\<lambda>v. \<not> is_nan_val v) xs" "list_all (\<lambda>v. \<not> is_nan_val v) ys"
  shows "cmp_list (concat (map encode_order_key xs) @ r) (concat (map encode_order_key ys) @ s)
    = and_then (lex_cmp value_cmp xs ys) (cmp_list r s)"
  using index_key.enc_list_order [OF assms(2,3,1)] .

theorem index_keys_sort_as_rows_witness:
  "cmp_list (encode_order_key (Txt (Plain [0x61])) @ encode_order_key Null) (encode_order_key (Txt (Plain [0x61, 0])) @ encode_order_key (Integer 7)) = Less"
  using index_keys_sort_as_rows [of "[Txt (Plain [0x61]), Null]" "[Txt (Plain [0x61, 0]), Integer 7]" "[]" "[]"]
  by (simp del: encode_order_key.simps)

text \<open>
  the encoder for a caller's buffer writes exactly the key at its front when the buffer is
  large enough, leaves the rest of it alone, and refuses a smaller one without touching it; it
  never panics.
\<close>

theorem slice_key_is_key:
  "encode_order_key_into_slice v out =
     (if length (encode_order_key v) \<le> length out
      then Ok (encode_order_key v @ drop (length (encode_order_key v)) out, Some (length (encode_order_key v)))
      else Ok (out, None))"
  by (simp add: encode_order_key_into_slice_def length_order_key fill_order_key_eq min_def Let_def)

lemma key_recovered:
  assumes "key_recovers aff v"
  shows "decode_order_key_value (encode_order_key v) aff = Some v"
proof (cases v)
  case (Integer i)
  then show ?thesis using assms decode_integer_key by (simp add: decode_number_key)
next
  case (Real f)
  then have "f64_add_zero f = f" and r: "\<not> f64_is_nan f" "\<not> f64_is_zero f" using assms by (auto simp: f64_add_zero_def)
  moreover have "\<not> (f64_less f64_min_i64 f \<or> f64_eq f f64_min_i64) \<longleftrightarrow> f64_less f f64_min_i64"
    using r f64_min_i64(2) by (auto simp: f64_less_def f64_eq_iff)
  ultimately have "decode_number f 0 aff = Some (Real f)" using assms Real by (auto simp: decode_number_def)
  then show ?thesis using Real \<open>f64_add_zero f = f\<close> decode_number_key [of f 0 aff] by simp
qed (use assms in \<open>simp_all add: decode_order_key_value_def unescape_escape from_bytes_as_bytes\<close>)

text \<open>The numbers whose key does not tell them.\<close>

fun key_untold :: "affinity \<Rightarrow> val \<Rightarrow> bool" where
  "key_untold aff (Integer i) = (aff = AffText \<or> aff = AffBlob \<or> aff = AffNone)"
| "key_untold aff (Real f) = (aff = AffText \<or> aff = AffBlob \<or> aff = AffNone \<or> aff = AffReal \<and> f64_is_zero f)"
| "key_untold aff _ = False"

lemma key_not_told:
  assumes "key_untold aff v"
  shows "decode_order_key_value (encode_order_key v) aff = None"
proof (cases v)
  case (Integer i)
  then show ?thesis using assms by (auto simp: decode_number_key decode_number_def)
next
  case (Real f)
  have "f64_is_zero f \<Longrightarrow> f64_is_zero (f64_add_zero f)" by (auto simp: f64_add_zero_def f64_is_zero_def)
  then show ?thesis using assms Real decode_number_key [of "f64_add_zero f" 0 aff] by (auto simp: decode_number_def)
qed (use assms in simp_all)

text \<open>
  C32: an index-only scan reads back from the key of a column the value it stored: NULL, text and
  blobs; under INTEGER and NUMERIC affinity integers and the reals that are not whole numbers of
  the integer range; under REAL affinity the reals but zero. A zero under REAL affinity and a number
  under TEXT or BLOB affinity are not read back at all: the key answers that it cannot tell.
\<close>

theorem order_key_roundtrip:
  "(key_recovers aff v \<longrightarrow> decode_order_key_value (encode_order_key v) aff = Some v)
   \<and> (key_untold aff v \<longrightarrow> decode_order_key_value (encode_order_key v) aff = None)"
  using key_recovered [of aff v] key_not_told [of aff v] by blast

theorem order_key_roundtrip_witness:
  "decode_order_key_value (encode_order_key (Integer 9007199254740993)) AffInteger = Some (Integer 9007199254740993)
   \<and> decode_order_key_value (encode_order_key (Integer 5)) AffText = None"
  using order_key_roundtrip [of AffInteger "Integer 9007199254740993"] order_key_roundtrip [of AffText "Integer 5"] by simp

text \<open>
  The squeeze of a real under INTEGER and NUMERIC affinity leaves the least integer REAL, while
  its key is read back as that INTEGER.
\<close>

definition numeric_real_affinity :: "f64 \<Rightarrow> val" where
  "numeric_real_affinity f =
     (let i = f64_to_i64 f in
      if f64_is_finite f \<and> i \<noteq> - (2 ^ 63) \<and> f64_eq f (i64_to_f64 i) \<and> f64_less (f AND NOT 0x8000000000000000) f64_two_63
      then Integer i else Real f)"

lemma least_integer_key_changes_type:
  "numeric_real_affinity f64_min_i64 = Real f64_min_i64"
  "decode_order_key_value (encode_order_key (Real f64_min_i64)) AffInteger = Some (Integer (- (2 ^ 63)))"
proof -
  have "f64_scaled f64_min_i64 = int_scaled (- (2 ^ 63))" using f64_min_i64(1) by simp
  from whole_to_i64 [OF f64_min_i64(2) this]
  have f: "f64_is_finite f64_min_i64" "f64_is_integral f64_min_i64" "f64_less f64_min_i64 f64_two_63" "f64_to_i64 f64_min_i64 = - (2 ^ 63)" by blast+
  show "numeric_real_affinity f64_min_i64 = Real f64_min_i64" using f(4) by (simp add: numeric_real_affinity_def)
  have "f64_add_zero f64_min_i64 = f64_min_i64" by (simp add: f64_add_zero_def f64_is_zero_def f64_min_i64_def)
  moreover have "decode_number f64_min_i64 0 AffInteger = Some (Integer (- (2 ^ 63)))" using f f64_min_i64(2) by (simp add: decode_number_def f64_eq_def)
  ultimately show "decode_order_key_value (encode_order_key (Real f64_min_i64)) AffInteger = Some (Integer (- (2 ^ 63)))"
    using decode_number_key [of f64_min_i64 0 AffInteger] by simp
qed

end
