(* ===== verification/Wal.thy ===== *)
theory Wal
  imports Prelude
begin

text \<open>
  \<^verbatim>\<open>src/storage/wal.rs\<close>: the write-ahead log. The log file is its list of bytes; a positioned
  write past the end fills the gap with zeros, as the file system does. Input and output errors
  are not modelled: a read fails only at the end of the file, a write never does. \<open>crc\<close> is the
  third-party CRC-32 with an initial value: the hasher's updates hash the concatenation of what
  they are given, so a frame fed in two pieces is \<open>crc\<close> of the pieces appended. The random salts
  of a new header are arguments.
\<close>

subsection \<open>Files\<close>

definition write_at :: "bytes \<Rightarrow> bytes \<Rightarrow> nat \<Rightarrow> bytes" where
  "write_at file data offset =
     take offset file @ replicate (offset - length file) 0 @ data @ drop (offset + length data) file"

definition read_full :: "bytes \<Rightarrow> nat \<Rightarrow> nat \<Rightarrow> bytes option" where
  "read_full file n offset = (let bs = take n (drop offset file) in if length bs < n then None else Some bs)"

definition read_exact_at :: "bytes \<Rightarrow> nat \<Rightarrow> nat \<Rightarrow> bytes outcome" where
  "read_exact_at file n offset = ok_or (read_full file n offset) ''failed to fill whole buffer''"

definition set_len :: "bytes \<Rightarrow> nat \<Rightarrow> bytes" where
  "set_len file n = take n file @ replicate (n - length file) 0"

subsection \<open>Headers\<close>

definition WAL_HEADER_SIZE :: nat where
  "WAL_HEADER_SIZE = 32"

definition FRAME_HEADER_SIZE :: nat where
  "FRAME_HEADER_SIZE = 24"

definition WAL_MAGIC :: u32 where
  "WAL_MAGIC = 0x5253514C"

record wal_header =
  wh_magic :: u32
  wh_format_version :: u32
  wh_page_size :: u32
  wh_checkpoint_seq :: u32
  wh_salt1 :: u32
  wh_salt2 :: u32
  wh_checksum1 :: u32
  wh_checksum2 :: u32

record frame_header =
  fr_page_id :: u32
  fr_commit :: u32
  fr_salt1 :: u32
  fr_salt2 :: u32
  fr_checksum1 :: u32
  fr_checksum2 :: u32

type_synonym crc_fun = "u32 \<Rightarrow> bytes \<Rightarrow> u32"
type_synonym chain = "u32 \<times> u32"

definition crc32 :: "crc_fun \<Rightarrow> u32 \<Rightarrow> u32 \<Rightarrow> bytes \<Rightarrow> chain" where
  "crc32 crc prev1 prev2 data = (crc prev1 data, crc (prev2 XOR 0xA5A5A5A5) data)"

definition wal_header_new :: "crc_fun \<Rightarrow> u32 \<Rightarrow> u32 \<Rightarrow> u32 \<Rightarrow> wal_header" where
  "wal_header_new crc salt1 salt2 page_size =
     (let (c1, c2) = crc32 crc 0 0 [] in
      \<lparr>wh_magic = WAL_MAGIC, wh_format_version = 1, wh_page_size = page_size, wh_checkpoint_seq = 0,
       wh_salt1 = salt1, wh_salt2 = salt2, wh_checksum1 = c1, wh_checksum2 = c2\<rparr>)"

definition wal_header_encode :: "wal_header \<Rightarrow> bytes" where
  "wal_header_encode h =
     be32 (wh_magic h) @ be32 (wh_format_version h) @ be32 (wh_page_size h) @ be32 (wh_checkpoint_seq h)
     @ be32 (wh_salt1 h) @ be32 (wh_salt2 h) @ be32 (wh_checksum1 h) @ be32 (wh_checksum2 h)"

definition u32_at :: "bytes \<Rightarrow> nat \<Rightarrow> u32" where
  "u32_at buf k = word_of_nat (be_nat (take 4 (drop k buf)))"

definition wal_header_decode :: "bytes \<Rightarrow> wal_header outcome" where
  "wal_header_decode buf =
     (if length buf < WAL_HEADER_SIZE then Err ''WAL header too small''
      else if u32_at buf 0 \<noteq> WAL_MAGIC then Err ''not a WAL header''
      else Ok \<lparr>wh_magic = u32_at buf 0, wh_format_version = u32_at buf 4, wh_page_size = u32_at buf 8,
               wh_checkpoint_seq = u32_at buf 12, wh_salt1 = u32_at buf 16, wh_salt2 = u32_at buf 20,
               wh_checksum1 = u32_at buf 24, wh_checksum2 = u32_at buf 28\<rparr>)"

definition frame_header_encode :: "frame_header \<Rightarrow> bytes" where
  "frame_header_encode f =
     be32 (fr_page_id f) @ be32 (fr_commit f) @ be32 (fr_salt1 f) @ be32 (fr_salt2 f)
     @ be32 (fr_checksum1 f) @ be32 (fr_checksum2 f)"

definition frame_header_decode :: "bytes \<Rightarrow> frame_header outcome" where
  "frame_header_decode buf =
     (if length buf < FRAME_HEADER_SIZE then Err ''frame header too small''
      else Ok \<lparr>fr_page_id = u32_at buf 0, fr_commit = u32_at buf 4, fr_salt1 = u32_at buf 8,
               fr_salt2 = u32_at buf 12, fr_checksum1 = u32_at buf 16, fr_checksum2 = u32_at buf 20\<rparr>)"

subsection \<open>The log\<close>

record wal =
  w_file :: bytes
  w_header :: wal_header
  w_page_size :: u32
  w_checksum :: chain
  w_n_frames :: nat
  w_header_dirty :: bool
  w_uncommitted :: "u32 \<rightharpoonup> nat"
  w_recksum_from :: "nat option"

text \<open>The sum of two \<^verbatim>\<open>u32\<close> is taken before it is widened.\<close>

definition frame_size :: "u32 \<Rightarrow> nat" where
  "frame_size page_size = unat (24 + page_size)"

definition frame_at :: "u32 \<Rightarrow> nat \<Rightarrow> nat" where
  "frame_at page_size i = WAL_HEADER_SIZE + i * frame_size page_size"

definition header_chain :: "wal_header \<Rightarrow> chain" where
  "header_chain h = (wh_checksum1 h, wh_checksum2 h)"

definition reset_synced :: "crc_fun \<Rightarrow> u32 \<Rightarrow> u32 \<Rightarrow> wal \<Rightarrow> wal" where
  "reset_synced crc salt1 salt2 w =
     (let h = wal_header_new crc salt1 salt2 (w_page_size w) in
      w\<lparr>w_uncommitted := Map.empty, w_recksum_from := None, w_header := h, w_checksum := header_chain h,
        w_n_frames := 0, w_file := write_at (set_len (w_file w) 0) (wal_header_encode h) 0, w_header_dirty := False\<rparr>)"

definition reset :: "crc_fun \<Rightarrow> u32 \<Rightarrow> u32 \<Rightarrow> wal \<Rightarrow> wal" where
  "reset crc salt1 salt2 w = reset_synced crc salt1 salt2 w"

definition reset_keep_size_synced :: "crc_fun \<Rightarrow> u32 \<Rightarrow> u32 \<Rightarrow> wal \<Rightarrow> wal" where
  "reset_keep_size_synced crc salt1 salt2 w =
     (let h = wal_header_new crc salt1 salt2 (w_page_size w) in
      w\<lparr>w_uncommitted := Map.empty, w_recksum_from := None, w_header := h, w_checksum := header_chain h,
        w_n_frames := 0, w_file := write_at (w_file w) (wal_header_encode h) 0, w_header_dirty := False\<rparr>)"

text \<open>One frame of the recovery scan; \<open>None\<close> is the \<^verbatim>\<open>break\<close>.\<close>

definition check_frame ::
    "crc_fun \<Rightarrow> bytes \<Rightarrow> wal_header \<Rightarrow> u32 \<Rightarrow> chain \<Rightarrow> nat \<Rightarrow> (frame_header \<times> bytes \<times> chain) option" where
  "check_frame crc file h page_size running offset =
     (case read_full file FRAME_HEADER_SIZE offset of None \<Rightarrow> None
      | Some fh_buf \<Rightarrow>
          (case frame_header_decode fh_buf of
             Ok fh \<Rightarrow>
               if fr_salt1 fh \<noteq> wh_salt1 h \<or> fr_salt2 fh \<noteq> wh_salt2 h then None
               else (case read_full file (unat page_size) (offset + FRAME_HEADER_SIZE) of None \<Rightarrow> None
                     | Some page_buf \<Rightarrow>
                         let (c1, c2) = crc32 crc (fst running) (snd running) (take 8 fh_buf @ page_buf) in
                         if c1 \<noteq> fr_checksum1 fh \<or> c2 \<noteq> fr_checksum2 fh then None
                         else Some (fh, page_buf, (c1, c2)))
           | _ \<Rightarrow> None))"

record scan =
  sc_running :: chain
  sc_last_valid :: nat
  sc_last_commit :: nat
  sc_last_chain :: chain

fun recover_loop :: "crc_fun \<Rightarrow> bytes \<Rightarrow> wal_header \<Rightarrow> u32 \<Rightarrow> nat list \<Rightarrow> scan \<Rightarrow> scan" where
  "recover_loop crc file h page_size [] s = s"
| "recover_loop crc file h page_size (i # is) s =
     (case check_frame crc file h page_size (sc_running s) (frame_at page_size i) of
        None \<Rightarrow> s
      | Some (fh, _, c) \<Rightarrow>
          let s1 = s\<lparr>sc_running := c\<rparr>;
              s2 = (if fr_commit fh \<noteq> 0 then s1\<lparr>sc_last_commit := (i + 1) mod 2 ^ 32, sc_last_chain := c\<rparr> else s1)
          in recover_loop crc file h page_size is (s2\<lparr>sc_last_valid := (i + 1) mod 2 ^ 32\<rparr>))"

definition recover :: "crc_fun \<Rightarrow> u32 \<Rightarrow> u32 \<Rightarrow> bool \<Rightarrow> wal \<Rightarrow> wal outcome" where
  "recover crc salt1 salt2 truncate_torn w0 =
     (let w = w0\<lparr>w_uncommitted := Map.empty, w_recksum_from := None\<rparr>; file = w_file w in
      if length file = 0
      then let h = wal_header_new crc salt1 salt2 (w_page_size w) in
           Ok (w\<lparr>w_header := h, w_checksum := header_chain h, w_n_frames := 0, w_header_dirty := True\<rparr>)
      else
        bind_outcome (read_exact_at file WAL_HEADER_SIZE 0) (\<lambda>header_buf.
        bind_outcome (wal_header_decode header_buf) (\<lambda>h.
          if wh_magic h \<noteq> WAL_MAGIC then Ok (reset crc salt1 salt2 w)
          else
            let ps = wh_page_size h; fs = frame_size ps in
            if fs = 0 then Panic
            else
              let n = (length file - WAL_HEADER_SIZE) div fs;
                  s = recover_loop crc file h ps [0..<n]
                        \<lparr>sc_running = header_chain h, sc_last_valid = 0, sc_last_commit = 0, sc_last_chain = header_chain h\<rparr>
              in Ok (w\<lparr>w_header := h, w_page_size := ps, w_n_frames := sc_last_commit s, w_checksum := sc_last_chain s,
                       w_file := (if truncate_torn \<and> sc_last_commit s < sc_last_valid s
                                  then set_len file (frame_at ps (sc_last_commit s)) else file)\<rparr>))))"

definition open_impl :: "crc_fun \<Rightarrow> u32 \<Rightarrow> u32 \<Rightarrow> u32 \<Rightarrow> u32 \<Rightarrow> bytes \<Rightarrow> u32 \<Rightarrow> bool \<Rightarrow> wal outcome" where
  "open_impl crc salt1 salt2 salt3 salt4 file page_size truncate_torn =
     recover crc salt3 salt4 truncate_torn
       \<lparr>w_file = file, w_header = wal_header_new crc salt1 salt2 page_size, w_page_size = page_size, w_checksum = (0, 0),
        w_n_frames = 0, w_header_dirty = False, w_uncommitted = Map.empty, w_recksum_from = None\<rparr>"

fun page_map_loop :: "bytes \<Rightarrow> u32 \<Rightarrow> nat list \<Rightarrow> (u32 \<rightharpoonup> nat) \<Rightarrow> (u32 \<rightharpoonup> nat) outcome" where
  "page_map_loop file page_size [] m = Ok m"
| "page_map_loop file page_size (i # is) m =
     (case read_full file FRAME_HEADER_SIZE (frame_at page_size i) of None \<Rightarrow> Ok m
      | Some fh_buf \<Rightarrow> bind_outcome (frame_header_decode fh_buf) (\<lambda>fh.
          page_map_loop file page_size is (m(fr_page_id fh \<mapsto> frame_at page_size i))))"

definition committed_page_map :: "wal \<Rightarrow> (u32 \<rightharpoonup> nat) outcome" where
  "committed_page_map w = page_map_loop (w_file w) (w_page_size w) [0..<w_n_frames w] Map.empty"

definition read_frame_at :: "wal \<Rightarrow> nat \<Rightarrow> nat \<Rightarrow> bytes outcome" where
  "read_frame_at w offset len =
     (if len \<noteq> unat (w_page_size w) then Err ''read_frame_at: wrong buffer size''
      else bind_outcome (read_exact_at (w_file w) FRAME_HEADER_SIZE offset) (\<lambda>fh_buf.
           bind_outcome (frame_header_decode fh_buf) (\<lambda>fh.
             if fr_salt1 fh \<noteq> wh_salt1 (w_header w) \<or> fr_salt2 fh \<noteq> wh_salt2 (w_header w) then Err ''WAL frame salt mismatch''
             else read_exact_at (w_file w) len (offset + FRAME_HEADER_SIZE))))"

definition read_frame_prefix_at :: "wal \<Rightarrow> nat \<Rightarrow> nat \<Rightarrow> bytes outcome" where
  "read_frame_prefix_at w offset len =
     (if unat (w_page_size w) < len then Err ''read_frame_prefix_at: buffer larger than a page''
      else bind_outcome (read_exact_at (w_file w) FRAME_HEADER_SIZE offset) (\<lambda>fh_buf.
           bind_outcome (frame_header_decode fh_buf) (\<lambda>fh.
             if fr_salt1 fh \<noteq> wh_salt1 (w_header w) \<or> fr_salt2 fh \<noteq> wh_salt2 (w_header w) then Err ''WAL frame salt mismatch''
             else read_exact_at (w_file w) len (offset + FRAME_HEADER_SIZE))))"

definition materialize_header :: "wal \<Rightarrow> wal" where
  "materialize_header w =
     (if w_header_dirty w
      then w\<lparr>w_file := write_at (w_file w) (wal_header_encode (w_header w)) 0, w_header_dirty := False\<rparr> else w)"

fun rechain_loop :: "crc_fun \<Rightarrow> u32 \<Rightarrow> nat list \<Rightarrow> bytes \<Rightarrow> chain \<Rightarrow> (bytes \<times> chain) outcome" where
  "rechain_loop crc page_size [] file ch = Ok (file, ch)"
| "rechain_loop crc page_size (i # is) file ch =
     bind_outcome (read_exact_at file (frame_size page_size) (frame_at page_size i)) (\<lambda>buf.
     bind_outcome (slice buf 0 8) (\<lambda>pre.
     bind_outcome (slice buf FRAME_HEADER_SIZE (length buf)) (\<lambda>body.
       let ch' = crc32 crc (fst ch) (snd ch) (pre @ body) in
       rechain_loop crc page_size is
         (write_at file (be32 (fst ch') @ be32 (snd ch')) (frame_at page_size i + 16)) ch')))"

definition rechain :: "crc_fun \<Rightarrow> wal \<Rightarrow> wal outcome" where
  "rechain crc w =
     (case w_recksum_from w of None \<Rightarrow> Ok w
      | Some from \<Rightarrow>
          bind_outcome
            (if from = 0 then Ok (header_chain (w_header w))
             else bind_outcome (read_exact_at (w_file w) FRAME_HEADER_SIZE (frame_at (w_page_size w) (from - 1))) (\<lambda>prev.
                  bind_outcome (frame_header_decode prev) (\<lambda>fh. Ok (fr_checksum1 fh, fr_checksum2 fh)))) (\<lambda>ch.
          bind_outcome (rechain_loop crc (w_page_size w) [from..<w_n_frames w] (w_file w) ch) (\<lambda>(file, ch').
            Ok (w\<lparr>w_recksum_from := None, w_file := file, w_checksum := ch'\<rparr>))))"

definition append :: "crc_fun \<Rightarrow> wal \<Rightarrow> u32 \<Rightarrow> bytes \<Rightarrow> bool \<Rightarrow> (wal \<times> nat) outcome" where
  "append crc w0 page_id data commit =
     (if length data \<noteq> unat (w_page_size w0) then Err ''WAL append: data length''
      else
        bind_outcome (if commit then rechain crc (materialize_header w0) else Ok (materialize_header w0)) (\<lambda>w.
          let offset = frame_at (w_page_size w) (w_n_frames w);
              c = (if commit then 1 else 0) :: u32;
              ch = crc32 crc (fst (w_checksum w)) (snd (w_checksum w)) (be32 page_id @ be32 c @ data);
              fh = \<lparr>fr_page_id = page_id, fr_commit = c, fr_salt1 = wh_salt1 (w_header w), fr_salt2 = wh_salt2 (w_header w),
                    fr_checksum1 = fst ch, fr_checksum2 = snd ch\<rparr>
          in Ok (w\<lparr>w_checksum := ch, w_file := write_at (w_file w) (frame_header_encode fh @ data) offset,
                   w_n_frames := (w_n_frames w + 1) mod 2 ^ 32,
                   w_uncommitted := (if commit then Map.empty else (w_uncommitted w)(page_id \<mapsto> offset))\<rparr>, offset)))"

definition spill :: "crc_fun \<Rightarrow> wal \<Rightarrow> u32 \<Rightarrow> bytes \<Rightarrow> (wal \<times> nat) outcome" where
  "spill crc w page_id data =
     (case w_uncommitted w page_id of
        None \<Rightarrow> append crc w page_id data False
      | Some offset \<Rightarrow>
          if length data \<noteq> unat (w_page_size w) then Err ''WAL spill: data length''
          else
            let fh = \<lparr>fr_page_id = page_id, fr_commit = 0, fr_salt1 = wh_salt1 (w_header w), fr_salt2 = wh_salt2 (w_header w),
                      fr_checksum1 = 0, fr_checksum2 = 0\<rparr>;
                fs = frame_size (w_page_size w) in
            if fs = 0 then Panic
            else
              let idx = (offset - WAL_HEADER_SIZE) div fs mod 2 ^ 32 in
              Ok (w\<lparr>w_file := write_at (w_file w) (frame_header_encode fh @ data) offset,
                     w_recksum_from := Some (case w_recksum_from w of None \<Rightarrow> idx | Some k \<Rightarrow> min k idx)\<rparr>, offset))"

text \<open>
  The commit of a batch: frames are assembled in a buffer of which all but the last frame are
  written out whenever it holds seventeen; the last frame written gets the commit mark.
\<close>

definition CHUNK_FRAMES :: nat where
  "CHUNK_FRAMES = 16"

record batch =
  b_file :: bytes
  b_cursor :: nat
  b_out :: bytes
  b_flushed :: nat
  b_chain :: chain
  b_before_last :: "chain option"
  b_last_at :: "nat option"
  b_last_id :: u32
  b_offsets :: "(u32 \<times> nat) list"

definition batch_flush :: "nat \<Rightarrow> nat \<Rightarrow> batch \<Rightarrow> batch" where
  "batch_flush fs start_offset b =
     (if (CHUNK_FRAMES + 1) * fs \<le> length (b_out b)
      then let keep_from = length (b_out b) - fs;
               cursor = (if b_flushed b = 0 then start_offset else b_cursor b)
           in b\<lparr>b_file := write_at (b_file b) (take keep_from (b_out b)) cursor, b_cursor := cursor + keep_from,
                b_flushed := b_flushed b + keep_from div fs, b_out := take fs (drop keep_from (b_out b)),
                b_last_at := (if b_last_at b \<noteq> None then Some 0 else None)\<rparr>
      else b)"

definition frame_bytes :: "wal_header \<Rightarrow> u32 \<Rightarrow> u32 \<Rightarrow> chain \<Rightarrow> bytes" where
  "frame_bytes h page_id commit ch =
     frame_header_encode \<lparr>fr_page_id = page_id, fr_commit = commit, fr_salt1 = wh_salt1 h, fr_salt2 = wh_salt2 h,
                          fr_checksum1 = fst ch, fr_checksum2 = snd ch\<rparr>"

text \<open>A page of the batch is its number, its dirty flag and its data; the flag is cleared when it is written.\<close>

definition batch_page :: "crc_fun \<Rightarrow> wal_header \<Rightarrow> u32 \<Rightarrow> nat \<Rightarrow> batch \<Rightarrow> u32 \<times> bool \<times> bytes \<Rightarrow> batch outcome" where
  "batch_page crc h page_size start_offset b0 = (\<lambda>(page_id, dirty, data).
     let fs = FRAME_HEADER_SIZE + unat page_size; b = batch_flush fs start_offset b0 in
     if \<not> dirty then Ok b
     else if length data \<noteq> unat page_size then Panic
     else
       let ch = crc32 crc (fst (b_chain b)) (snd (b_chain b)) (be32 page_id @ be32 0 @ data) in
       Ok (b\<lparr>b_chain := ch, b_before_last := Some (b_chain b), b_last_at := Some (length (b_out b)), b_last_id := page_id,
             b_offsets := b_offsets b @ [(page_id, start_offset + length (b_offsets b) * fs)],
             b_out := b_out b @ frame_bytes h page_id 0 ch @ data\<rparr>))"

definition batch_fixup :: "crc_fun \<Rightarrow> wal_header \<Rightarrow> u32 \<Rightarrow> batch \<Rightarrow> batch outcome" where
  "batch_fixup crc h page_size b =
     (case b_last_at b of None \<Rightarrow> Ok b
      | Some hdr_at \<Rightarrow>
          (case b_before_last b of None \<Rightarrow> Panic
           | Some p \<Rightarrow>
               bind_outcome (slice (b_out b) (hdr_at + FRAME_HEADER_SIZE) (hdr_at + FRAME_HEADER_SIZE + unat page_size)) (\<lambda>slot.
                 let ch = crc32 crc (fst p) (snd p) (be32 (b_last_id b) @ be32 1 @ slot) in
                 Ok (b\<lparr>b_chain := ch, b_out := write_at (b_out b) (frame_bytes h (b_last_id b) 1 ch) hdr_at\<rparr>))))"

definition append_batch ::
    "crc_fun \<Rightarrow> wal \<Rightarrow> (u32 \<times> bool \<times> bytes) list \<Rightarrow> (u32 \<times> nat) list
      \<Rightarrow> (wal \<times> (u32 \<times> nat) list \<times> (u32 \<times> bool \<times> bytes) list) outcome" where
  "append_batch crc w0 pages out_offsets =
     (if pages = [] then Ok (w0, out_offsets, pages)
      else if w_page_size w0 = 0 then Err ''WAL append_batch: zero page size''
      else
        bind_outcome (rechain crc (materialize_header w0)) (\<lambda>w.
          let ps = w_page_size w; fs = FRAME_HEADER_SIZE + unat ps;
              start_offset = WAL_HEADER_SIZE + w_n_frames w * fs in
          bind_outcome (fold_outcome (batch_page crc (w_header w) ps start_offset)
              \<lparr>b_file = w_file w, b_cursor = 0, b_out = [], b_flushed = 0, b_chain = w_checksum w, b_before_last = None,
               b_last_at = None, b_last_id = 0, b_offsets = out_offsets\<rparr> pages) (\<lambda>b.
            let clean = map (\<lambda>(page_id, dirty, data). (page_id, False, data)) pages in
            if b_out b = [] \<and> b_flushed b = 0 then Ok (w, b_offsets b, clean)
            else bind_outcome (batch_fixup crc (w_header w) ps b) (\<lambda>b'.
              let written = (b_flushed b' + length (b_out b') div fs) mod 2 ^ 32;
                  cursor = (if b_flushed b' = 0 then start_offset else b_cursor b')
              in Ok (w\<lparr>w_checksum := b_chain b', w_n_frames := (w_n_frames w + written) mod 2 ^ 32,
                       w_uncommitted := (if 0 < written then Map.empty else w_uncommitted w),
                       w_file := write_at (b_file b') (b_out b') cursor\<rparr>, b_offsets b', clean)))))"

text \<open>
  The foreign-growth walk of a reader. \<open>None\<close> is the answer that the log was reset. A page size
  whose frame size wraps to zero never gets past \<open>recover\<close>.
\<close>

definition header_changed :: "bytes \<Rightarrow> wal_header \<Rightarrow> bool" where
  "header_changed file h =
     (case read_full file WAL_HEADER_SIZE 0 of None \<Rightarrow> False
      | Some live_hdr \<Rightarrow>
          (case wal_header_decode live_hdr of
             Ok live \<Rightarrow> wh_salt1 live \<noteq> wh_salt1 h \<or> wh_salt2 live \<noteq> wh_salt2 h
           | _ \<Rightarrow> False))"

definition salts_differ :: "bytes \<Rightarrow> wal_header \<Rightarrow> nat \<Rightarrow> bool" where
  "salts_differ file h offset =
     (case read_full file FRAME_HEADER_SIZE offset of None \<Rightarrow> False
      | Some fh_buf \<Rightarrow> (case frame_header_decode fh_buf of
          Ok fh \<Rightarrow> fr_salt1 fh \<noteq> wh_salt1 h \<or> fr_salt2 fh \<noteq> wh_salt2 h | _ \<Rightarrow> False))"

fun absorb_loop :: "crc_fun \<Rightarrow> bytes \<Rightarrow> wal_header \<Rightarrow> u32 \<Rightarrow> nat list \<Rightarrow> scan \<Rightarrow> scan option" where
  "absorb_loop crc file h page_size [] s = Some s"
| "absorb_loop crc file h page_size (i # is) s =
     (if salts_differ file h (frame_at page_size i) then None
      else case check_frame crc file h page_size (sc_running s) (frame_at page_size i) of
             None \<Rightarrow> Some s
           | Some (fh, _, c) \<Rightarrow>
               let s1 = s\<lparr>sc_running := c\<rparr>
               in absorb_loop crc file h page_size is
                    (if fr_commit fh \<noteq> 0 then s1\<lparr>sc_last_commit := (i + 1) mod 2 ^ 32, sc_last_chain := c\<rparr> else s1))"

fun visible_loop :: "bytes \<Rightarrow> u32 \<Rightarrow> nat list \<Rightarrow> (u32 \<times> nat) list" where
  "visible_loop file page_size [] = []"
| "visible_loop file page_size (j # js) =
     (case read_full file FRAME_HEADER_SIZE (frame_at page_size j) of None \<Rightarrow> []
      | Some fh_buf \<Rightarrow>
          (case frame_header_decode fh_buf of
             Ok fh \<Rightarrow> (fr_page_id fh, frame_at page_size j) # visible_loop file page_size js
           | _ \<Rightarrow> visible_loop file page_size js))"

definition absorb_foreign_growth :: "crc_fun \<Rightarrow> wal \<Rightarrow> wal \<times> (u32 \<times> nat) list option" where
  "absorb_foreign_growth crc w0 =
     (let w = w0\<lparr>w_uncommitted := Map.empty, w_recksum_from := None\<rparr>; file = w_file w; ps = w_page_size w in
      if header_changed file (w_header w) then (w, None)
      else
        case absorb_loop crc file (w_header w) ps [w_n_frames w..<(length file - WAL_HEADER_SIZE) div frame_size ps]
               \<lparr>sc_running = w_checksum w, sc_last_valid = w_n_frames w, sc_last_commit = w_n_frames w, sc_last_chain = w_checksum w\<rparr> of
          None \<Rightarrow> (w, None)
        | Some s \<Rightarrow>
            if sc_last_commit s = w_n_frames w then (w, Some [])
            else (w\<lparr>w_n_frames := sc_last_commit s, w_checksum := sc_last_chain s\<rparr>,
                  Some (visible_loop file ps [w_n_frames w..<sc_last_commit s])))"

fun frames_loop :: "crc_fun \<Rightarrow> bytes \<Rightarrow> u32 \<Rightarrow> nat list \<Rightarrow> chain \<Rightarrow> (u32 \<times> bytes \<times> bool) list outcome" where
  "frames_loop crc file page_size [] running = Ok []"
| "frames_loop crc file page_size (i # is) running =
     bind_outcome (read_exact_at file FRAME_HEADER_SIZE (frame_at page_size i)) (\<lambda>fh_buf.
     bind_outcome (frame_header_decode fh_buf) (\<lambda>fh.
     bind_outcome (read_exact_at file (unat page_size) (frame_at page_size i + FRAME_HEADER_SIZE)) (\<lambda>page_buf.
       let ch = crc32 crc (fst running) (snd running) (take 8 fh_buf @ page_buf) in
       if fst ch \<noteq> fr_checksum1 fh \<or> snd ch \<noteq> fr_checksum2 fh then Ok []
       else bind_outcome (frames_loop crc file page_size is ch) (\<lambda>rest.
              Ok ((fr_page_id fh, page_buf, fr_commit fh \<noteq> 0) # rest)))))"

definition for_each_frame :: "crc_fun \<Rightarrow> wal \<Rightarrow> (u32 \<times> bytes \<times> bool) list outcome" where
  "for_each_frame crc w = frames_loop crc (w_file w) (w_page_size w) [0..<w_n_frames w] (header_chain (w_header w))"

end
