(* ===== verification/Wal_Log.thy ===== *)
theory Wal_Log
  imports Wal
begin

text \<open>
  The log as a list of frames: what the bytes of a log file mean, which frames are chained by
  their checksums, and what the recovery scan finds in them.
\<close>

type_synonym pframe = "frame_header \<times> bytes"

definition enc_frame :: "pframe \<Rightarrow> bytes" where
  "enc_frame f = frame_header_encode (fst f) @ snd f"

definition enc_frames :: "pframe list \<Rightarrow> bytes" where
  "enc_frames fs = concat (map enc_frame fs)"

text \<open>The checksum of a frame continues the one of the frame before it.\<close>

definition frame_sum :: "crc_fun \<Rightarrow> chain \<Rightarrow> pframe \<Rightarrow> chain" where
  "frame_sum crc c f = crc32 crc (fst c) (snd c) (be32 (fr_page_id (fst f)) @ be32 (fr_commit (fst f)) @ snd f)"

definition frame_ok :: "crc_fun \<Rightarrow> wal_header \<Rightarrow> chain \<Rightarrow> pframe \<Rightarrow> bool" where
  "frame_ok crc h c f \<longleftrightarrow> fr_salt1 (fst f) = wh_salt1 h \<and> fr_salt2 (fst f) = wh_salt2 h
     \<and> (fr_checksum1 (fst f), fr_checksum2 (fst f)) = frame_sum crc c f"

fun chained :: "crc_fun \<Rightarrow> wal_header \<Rightarrow> chain \<Rightarrow> pframe list \<Rightarrow> bool" where
  "chained crc h c [] = True"
| "chained crc h c (f # fs) = (frame_ok crc h c f \<and> chained crc h (frame_sum crc c f) fs)"

definition chain_end :: "crc_fun \<Rightarrow> chain \<Rightarrow> pframe list \<Rightarrow> chain" where
  "chain_end crc c fs = foldl (frame_sum crc) c fs"

definition sized :: "u32 \<Rightarrow> pframe list \<Rightarrow> bool" where
  "sized ps fs \<longleftrightarrow> (\<forall>f \<in> set fs. length (snd f) = unat ps)"

definition page_size_fits :: "u32 \<Rightarrow> bool" where
  "page_size_fits ps \<longleftrightarrow> unat ps + 24 < 2 ^ 32"

lemma length_frame_header [simp]: "length (frame_header_encode f) = 24"
  by (simp add: frame_header_encode_def)

lemma length_wal_header [simp]: "length (wal_header_encode h) = 32"
  by (simp add: wal_header_encode_def)

lemma wal_header_ne [simp]: "wal_header_encode h \<noteq> []"
  using length_wal_header [of h] by (metis list.size(3) zero_neq_numeral)

lemma u32_at_field: "length pre = k \<Longrightarrow> u32_at (pre @ be32 w @ rest) k = w"
  by (simp add: u32_at_def be32_word)

lemma u32_at_skip: "length pre \<le> k \<Longrightarrow> u32_at (pre @ rest) k = u32_at rest (k - length pre)"
  by (simp add: u32_at_def)

lemma u32_at_here: "u32_at (be32 w @ rest) 0 = w" "u32_at (be32 w) 0 = w"
  using u32_at_field [of "[]" 0 w rest] u32_at_field [of "[]" 0 w "[]"] by simp_all

lemma frame_header_decode_encode: "frame_header_decode (frame_header_encode f) = Ok f"
  by (simp add: frame_header_decode_def FRAME_HEADER_SIZE_def)
    (simp add: frame_header_encode_def u32_at_skip u32_at_here)

lemma wal_header_decode_encode: "wh_magic h = WAL_MAGIC \<Longrightarrow> wal_header_decode (wal_header_encode h) = Ok h"
  by (simp add: wal_header_decode_def WAL_HEADER_SIZE_def)
    (simp add: wal_header_encode_def u32_at_skip u32_at_here)

lemma frame_size_eq: "page_size_fits ps \<Longrightarrow> frame_size ps = 24 + unat ps"
  by (simp add: frame_size_def page_size_fits_def unat_add_lem [THEN iffD1])

lemma enc_frames_simps [simp]: "enc_frames [] = []" "enc_frames (f # fs) = enc_frame f @ enc_frames fs"
    "enc_frames (fs @ gs) = enc_frames fs @ enc_frames gs"
  by (simp_all add: enc_frames_def)

lemma length_enc_frames: "page_size_fits ps \<Longrightarrow> sized ps fs \<Longrightarrow> length (enc_frames fs) = length fs * frame_size ps"
  by (induction fs) (simp_all add: enc_frame_def sized_def frame_size_eq)

lemma chained_append: "chained crc h c (fs @ gs) \<longleftrightarrow> chained crc h c fs \<and> chained crc h (chain_end crc c fs) gs"
  by (induction fs arbitrary: c) (simp_all add: chain_end_def)

lemma chain_end_simps [simp]: "chain_end crc c [] = c" "chain_end crc c (f # fs) = chain_end crc (frame_sum crc c f) fs"
    "chain_end crc c (fs @ gs) = chain_end crc (chain_end crc c fs) gs"
  by (simp_all add: chain_end_def)

lemma sized_simps [simp]: "sized ps []" "sized ps (f # fs) \<longleftrightarrow> length (snd f) = unat ps \<and> sized ps fs"
    "sized ps (fs @ gs) \<longleftrightarrow> sized ps fs \<and> sized ps gs"
  by (auto simp: sized_def)

subsection \<open>Reading and writing at a position\<close>

lemma read_full_middle: "offset = length pre \<Longrightarrow> n = length mid \<Longrightarrow> read_full (pre @ mid @ rest) n offset = Some mid"
  by (simp add: read_full_def)

lemma read_full_short: "length file < offset + n \<Longrightarrow> 0 < n \<Longrightarrow> read_full file n offset = None"
  by (auto simp: read_full_def Let_def)

lemma write_at_middle: "offset = length pre \<Longrightarrow> length data = length mid \<Longrightarrow> write_at (pre @ mid @ rest) data offset = pre @ data @ rest"
  by (simp add: write_at_def)

lemma write_at_end: "offset = length file \<Longrightarrow> write_at file data offset = file @ data"
  by (simp add: write_at_def)

text \<open>The position of a frame in a file that starts with a header and frames.\<close>

lemma frame_at_length:
  assumes "page_size_fits ps" "sized ps fs" "length hdr = 32"
  shows "frame_at ps (length fs) = length (hdr @ enc_frames fs)"
  using assms by (simp add: frame_at_def WAL_HEADER_SIZE_def length_enc_frames)

lemma read_frame_header:
  assumes "page_size_fits ps" "sized ps fs" "length hdr = 32"
  shows "read_full (hdr @ enc_frames fs @ enc_frame f @ rest) FRAME_HEADER_SIZE (frame_at ps (length fs)) = Some (frame_header_encode (fst f))"
  using read_full_middle [of "frame_at ps (length fs)" "hdr @ enc_frames fs" FRAME_HEADER_SIZE "frame_header_encode (fst f)" "snd f @ rest"]
    frame_at_length [OF assms] by (simp add: enc_frame_def FRAME_HEADER_SIZE_def)

lemma read_frame_page:
  assumes "page_size_fits ps" "sized ps fs" "length hdr = 32" "length (snd f) = unat ps"
  shows "read_full (hdr @ enc_frames fs @ enc_frame f @ rest) (unat ps) (frame_at ps (length fs) + FRAME_HEADER_SIZE) = Some (snd f)"
  using read_full_middle [of "frame_at ps (length fs) + FRAME_HEADER_SIZE" "hdr @ enc_frames fs @ frame_header_encode (fst f)" "unat ps" "snd f" rest]
    frame_at_length [OF assms(1-3)] assms(4) by (simp add: enc_frame_def FRAME_HEADER_SIZE_def)

lemma take8_frame_header: "take 8 (frame_header_encode f) = be32 (fr_page_id f) @ be32 (fr_commit f)"
  by (simp add: frame_header_encode_def)

lemma check_frame_here:
  assumes "page_size_fits ps" "sized ps fs" "length hdr = 32" "length (snd f) = unat ps"
  shows "check_frame crc (hdr @ enc_frames fs @ enc_frame f @ rest) h ps c (frame_at ps (length fs))
    = (if frame_ok crc h c f then Some (fst f, snd f, frame_sum crc c f) else None)"
  using assms
  by (simp add: check_frame_def read_frame_header read_frame_page frame_header_decode_encode take8_frame_header frame_ok_def frame_sum_def
      split: prod.split)

subsection \<open>The scan\<close>

fun scan_frames :: "crc_fun \<Rightarrow> wal_header \<Rightarrow> nat \<Rightarrow> pframe list \<Rightarrow> scan \<Rightarrow> scan" where
  "scan_frames crc h i [] s = s"
| "scan_frames crc h i (f # fs) s =
     (if frame_ok crc h (sc_running s) f
      then let c = frame_sum crc (sc_running s) f; s1 = s\<lparr>sc_running := c\<rparr>;
               s2 = (if fr_commit (fst f) \<noteq> 0 then s1\<lparr>sc_last_commit := (i + 1) mod 2 ^ 32, sc_last_chain := c\<rparr> else s1)
           in scan_frames crc h (i + 1) fs (s2\<lparr>sc_last_valid := (i + 1) mod 2 ^ 32\<rparr>)
      else s)"

lemma recover_loop_frames:
  assumes "page_size_fits ps" "sized ps fs" "length hdr = 32" "sized ps gs"
  shows "recover_loop crc (hdr @ enc_frames fs @ enc_frames gs @ rest) h ps [length fs..<length fs + length gs] s = scan_frames crc h (length fs) gs s"
  using assms
proof (induction gs arbitrary: fs s)
  case (Cons g gs)
  have ck: "check_frame crc (hdr @ enc_frames fs @ enc_frame g @ enc_frames gs @ rest) h ps (sc_running s) (frame_at ps (length fs))
      = (if frame_ok crc h (sc_running s) g then Some (fst g, snd g, frame_sum crc (sc_running s) g) else None)"
    using Cons.prems by (intro check_frame_here) simp_all
  have up: "[length fs..<length fs + length (g # gs)] = length fs # [length (fs @ [g])..<length (fs @ [g]) + length gs]"
    by (subst upt_conv_Cons) simp_all
  have f: "hdr @ enc_frames fs @ enc_frames (g # gs) @ rest = hdr @ enc_frames (fs @ [g]) @ enc_frames gs @ rest" by simp
  have ih: "recover_loop crc (hdr @ enc_frames (fs @ [g]) @ enc_frames gs @ rest) h ps [length (fs @ [g])..<length (fs @ [g]) + length gs] s'
      = scan_frames crc h (length (fs @ [g])) gs s'" for s'
    using Cons.prems by (intro Cons.IH) simp_all
  show ?case unfolding up f recover_loop.simps using ck ih by (simp add: Let_def)
qed simp

text \<open>Frames that cannot be taken for the end of a transaction: not marked, or of another generation of the log.\<close>

definition idle :: "wal_header \<Rightarrow> pframe list \<Rightarrow> bool" where
  "idle h fs \<longleftrightarrow> (\<forall>f \<in> set fs. fr_commit (fst f) = 0 \<or> (fr_salt1 (fst f), fr_salt2 (fst f)) \<noteq> (wh_salt1 h, wh_salt2 h))"

lemma idle_simps [simp]: "idle h []"
    "idle h (f # fs) \<longleftrightarrow> (fr_commit (fst f) = 0 \<or> (fr_salt1 (fst f), fr_salt2 (fst f)) \<noteq> (wh_salt1 h, wh_salt2 h)) \<and> idle h fs"
    "idle h (fs @ gs) \<longleftrightarrow> idle h fs \<and> idle h gs"
  by (auto simp: idle_def)

lemma scan_pending: "idle h fs \<Longrightarrow>
    sc_last_commit (scan_frames crc h i fs s) = sc_last_commit s \<and> sc_last_chain (scan_frames crc h i fs s) = sc_last_chain s"
  by (induction fs arbitrary: i s) (auto simp: Let_def frame_ok_def)

lemma scan_append:
  "chained crc h (sc_running s) fs \<Longrightarrow> scan_frames crc h i (fs @ gs) s = scan_frames crc h (i + length fs) gs (scan_frames crc h i fs s)"
  by (induction fs arbitrary: i s) (simp_all add: Let_def)

lemma scan_committed:
  assumes "chained crc h (sc_running s) fs" "i + length fs < 2 ^ 32" "fs \<noteq> []" "fr_commit (fst (last fs)) \<noteq> 0"
  shows "sc_last_commit (scan_frames crc h i fs s) = i + length fs \<and> sc_last_chain (scan_frames crc h i fs s) = chain_end crc (sc_running s) fs"
  using assms
proof (induction fs arbitrary: i s)
  case (Cons f fs)
  then show ?case by (cases "fs = []") (simp_all add: Let_def)
qed simp

subsection \<open>The pages of a log\<close>

text \<open>The latest version of each page.\<close>

definition page_of :: "pframe \<Rightarrow> u32" where
  "page_of f = fr_page_id (fst f)"

definition view :: "pframe list \<Rightarrow> u32 \<rightharpoonup> bytes" where
  "view fs = foldl (\<lambda>m f. m(page_of f \<mapsto> snd f)) Map.empty fs"

fun last_index :: "u32 \<Rightarrow> pframe list \<Rightarrow> nat option" where
  "last_index p [] = None"
| "last_index p (f # fs) =
     (case last_index p fs of Some j \<Rightarrow> Some (Suc j) | None \<Rightarrow> if page_of f = p then Some 0 else None)"

lemma last_index_append:
  "last_index p (fs @ gs) = (case last_index p gs of Some j \<Rightarrow> Some (length fs + j) | None \<Rightarrow> last_index p fs)"
  by (induction fs) (auto split: option.split)

lemma last_index_SomeD: "last_index p fs = Some j \<Longrightarrow> j < length fs \<and> page_of (fs ! j) = p"
  by (induction fs arbitrary: j) (auto split: option.splits if_splits)

lemma view_snoc [simp]: "view (fs @ [f]) = (view fs)(page_of f \<mapsto> snd f)"
  by (simp add: view_def)

lemma view_Nil [simp]: "view [] = Map.empty"
  by (simp add: view_def)

lemma view_last_index: "view fs p = map_option (\<lambda>j. snd (fs ! j)) (last_index p fs)"
proof (induction fs rule: rev_induct)
  case (snoc f fs)
  show ?case
  proof (cases "page_of f = p")
    case True
    then show ?thesis by (simp add: last_index_append)
  next
    case False
    have "\<And>j. last_index p fs = Some j \<Longrightarrow> j < length fs" by (drule last_index_SomeD) simp
    with False snoc show ?thesis by (cases "last_index p fs") (simp_all add: last_index_append nth_append)
  qed
qed simp

lemma view_cong: "(\<And>p. last_index p fs = last_index p gs) \<Longrightarrow> (\<And>p j. last_index p fs = Some j \<Longrightarrow> snd (fs ! j) = snd (gs ! j)) \<Longrightarrow> view fs = view gs"
proof
  fix p
  assume "\<And>p. last_index p fs = last_index p gs" "\<And>p j. last_index p fs = Some j \<Longrightarrow> snd (fs ! j) = snd (gs ! j)"
  then show "view fs p = view gs p" by (cases "last_index p fs") (simp_all add: view_last_index)
qed

definition wal_lookup :: "wal \<Rightarrow> u32 \<Rightarrow> bytes option outcome" where
  "wal_lookup w p =
     bind_outcome (committed_page_map w) (\<lambda>m.
       case m p of None \<Rightarrow> Ok None
       | Some offset \<Rightarrow> bind_outcome (read_frame_at w offset (unat (w_page_size w))) (\<lambda>d. Ok (Some d)))"

lemma page_map_frames:
  assumes "page_size_fits ps" "sized ps fs" "length hdr = 32" "sized ps gs"
  shows "\<exists>m'. page_map_loop (hdr @ enc_frames fs @ enc_frames gs @ rest) ps [length fs..<length fs + length gs] m = Ok m'
    \<and> (\<forall>p. m' p = (case last_index p gs of Some j \<Rightarrow> Some (frame_at ps (length fs + j)) | None \<Rightarrow> m p))"
  using assms
proof (induction gs arbitrary: fs m)
  case (Cons g gs)
  have rd: "read_full (hdr @ enc_frames fs @ enc_frame g @ enc_frames gs @ rest) FRAME_HEADER_SIZE (frame_at ps (length fs)) = Some (frame_header_encode (fst g))"
    using Cons.prems by (intro read_frame_header) simp_all
  have up: "[length fs..<length fs + length (g # gs)] = length fs # [length (fs @ [g])..<length (fs @ [g]) + length gs]"
    by (subst upt_conv_Cons) simp_all
  have f: "hdr @ enc_frames fs @ enc_frames (g # gs) @ rest = hdr @ enc_frames (fs @ [g]) @ enc_frames gs @ rest" by simp
  obtain m' where m': "page_map_loop (hdr @ enc_frames (fs @ [g]) @ enc_frames gs @ rest) ps [length (fs @ [g])..<length (fs @ [g]) + length gs]
        (m(page_of g \<mapsto> frame_at ps (length fs))) = Ok m'"
      "\<forall>p. m' p = (case last_index p gs of Some j \<Rightarrow> Some (frame_at ps (length (fs @ [g]) + j)) | None \<Rightarrow> (m(page_of g \<mapsto> frame_at ps (length fs))) p)"
    using Cons.IH [of "fs @ [g]"] Cons.prems by fastforce
  show ?case
    unfolding up f page_map_loop.simps using rd m'
    by (auto simp: frame_header_decode_encode page_of_def split: option.splits)
qed simp

lemma split_at_frame:
  assumes "j < length fs"
  shows "enc_frames fs = enc_frames (take j fs) @ enc_frame (fs ! j) @ enc_frames (drop (Suc j) fs)"
  by (subst id_take_nth_drop [OF assms]) simp

lemma sized_take: "sized ps fs \<Longrightarrow> sized ps (take j fs)" and sized_nth: "sized ps fs \<Longrightarrow> j < length fs \<Longrightarrow> length (snd (fs ! j)) = unat ps"
  by (auto simp: sized_def dest: in_set_takeD)

lemma page_map_log:
  assumes "w_file w = hdr @ enc_frames fs @ rest" "w_n_frames w = length fs" "page_size_fits (w_page_size w)" "sized (w_page_size w) fs" "length hdr = 32"
  shows "committed_page_map w = Ok (\<lambda>p. map_option (frame_at (w_page_size w)) (last_index p fs))"
proof -
  let ?ps = "w_page_size w"
  obtain m where m: "page_map_loop (w_file w) ?ps [0..<w_n_frames w] Map.empty = Ok m"
      "\<forall>p. m p = (case last_index p fs of Some j \<Rightarrow> Some (frame_at ?ps j) | None \<Rightarrow> None)"
    using page_map_frames [OF assms(3) sized_simps(1) assms(5,4), of rest Map.empty] unfolding assms(1,2)
    by (simp only: list.size(3) add_0 enc_frames_simps append_Nil) blast
  then have "m p = map_option (frame_at ?ps) (last_index p fs)" for p by (cases "last_index p fs") simp_all
  then show ?thesis using m(1) unfolding committed_page_map_def by (simp add: fun_eq_iff)
qed

lemma wal_lookup_view:
  assumes "w_file w = hdr @ enc_frames fs @ rest" "w_n_frames w = length fs" "page_size_fits (w_page_size w)" "sized (w_page_size w) fs"
    "length hdr = 32" "\<forall>f \<in> set fs. fr_salt1 (fst f) = wh_salt1 (w_header w) \<and> fr_salt2 (fst f) = wh_salt2 (w_header w)"
  shows "wal_lookup w p = Ok (view fs p)"
proof -
  let ?ps = "w_page_size w"
  note m = page_map_log [OF assms(1-5)]
  show ?thesis
  proof (cases "last_index p fs")
    case None
    then show ?thesis by (simp add: wal_lookup_def m view_last_index)
  next
    case (Some j)
    then have j: "j < length fs" using last_index_SomeD by blast
    define f where "f = fs ! j"
    have fl: "w_file w = hdr @ enc_frames (take j fs) @ enc_frame f @ enc_frames (drop (Suc j) fs) @ rest"
      using split_at_frame [OF j] by (simp add: assms(1) f_def)
    have l: "length (take j fs) = j" using j by simp
    have sz: "sized ?ps (take j fs)" "length (snd f) = unat ?ps" using assms(4) j by (simp_all add: sized_take sized_nth f_def)
    have "f \<in> set fs" using j by (simp add: f_def)
    then have salts: "fr_salt1 (fst f) = wh_salt1 (w_header w)" "fr_salt2 (fst f) = wh_salt2 (w_header w)" using assms(6) by auto
    have "read_frame_at w (frame_at ?ps j) (unat ?ps) = Ok (snd f)"
      using read_frame_header [OF assms(3) sz(1) assms(5), of f] read_frame_page [OF assms(3) sz(1) assms(5) sz(2)] salts
      unfolding read_frame_at_def fl l by (simp add: read_exact_at_def ok_or_def frame_header_decode_encode)
    then show ?thesis using Some by (simp add: wal_lookup_def m view_last_index f_def)
  qed
qed

subsection \<open>Recovery\<close>

text \<open>A sequence of whole transactions: chained, and ended by a commit mark.\<close>

definition committed_log :: "crc_fun \<Rightarrow> wal_header \<Rightarrow> pframe list \<Rightarrow> bool" where
  "committed_log crc h com \<longleftrightarrow> chained crc h (header_chain h) com \<and> (com = [] \<or> fr_commit (fst (last com)) \<noteq> 0)"

lemma chained_salts: "chained crc h c fs \<Longrightarrow> f \<in> set fs \<Longrightarrow> fr_salt1 (fst f) = wh_salt1 h \<and> fr_salt2 (fst f) = wh_salt2 h"
proof (induction fs arbitrary: c)
  case (Cons g fs)
  then show ?case using Cons.IH [of "frame_sum crc c g"] by (auto simp: frame_ok_def)
qed simp

lemma scan_log:
  assumes "committed_log crc h com" "idle h cur" "length com < 2 ^ 32"
  defines "s \<equiv> scan_frames crc h 0 (com @ cur) \<lparr>sc_running = header_chain h, sc_last_valid = 0, sc_last_commit = 0, sc_last_chain = header_chain h\<rparr>"
  shows "sc_last_commit s = length com" "sc_last_chain s = chain_end crc (header_chain h) com"
proof -
  define s0 where "s0 = \<lparr>sc_running = header_chain h, sc_last_valid = 0, sc_last_commit = 0, sc_last_chain = header_chain h\<rparr>"
  have c: "chained crc h (sc_running s0) com" using assms(1) by (simp add: committed_log_def s0_def)
  have "s = scan_frames crc h (length com) cur (scan_frames crc h 0 com s0)"
    using scan_append [OF c, of 0 cur] by (simp add: s_def s0_def)
  then have p: "sc_last_commit s = sc_last_commit (scan_frames crc h 0 com s0)" "sc_last_chain s = sc_last_chain (scan_frames crc h 0 com s0)"
    using scan_pending [OF assms(2)] by simp_all
  show "sc_last_commit s = length com" "sc_last_chain s = chain_end crc (header_chain h) com"
  proof (atomize (full), cases "com = []")
    case True
    then show "sc_last_commit s = length com \<and> sc_last_chain s = chain_end crc (header_chain h) com" using p by (simp add: s0_def)
  next
    case False
    then show "sc_last_commit s = length com \<and> sc_last_chain s = chain_end crc (header_chain h) com"
      using scan_committed [OF c, of 0] p assms(1,3) by (simp add: committed_log_def s0_def)
  qed
qed

lemma recover_log:
  assumes fl: "w_file w = wal_header_encode h @ enc_frames (com @ cur) @ part"
    and h: "wh_magic h = WAL_MAGIC" "page_size_fits (wh_page_size h)"
    and log: "committed_log crc h com" "idle h cur" "sized (wh_page_size h) (com @ cur)"
    and part: "length part < frame_size (wh_page_size h)" and n: "length com < 2 ^ 32"
  shows "\<exists>rest \<in> {[], enc_frames cur @ part}. recover crc salt1 salt2 t w = Ok (w\<lparr>w_file := wal_header_encode h @ enc_frames com @ rest, w_header := h,
    w_page_size := wh_page_size h, w_checksum := chain_end crc (header_chain h) com, w_n_frames := length com,
    w_uncommitted := Map.empty, w_recksum_from := None\<rparr>)"
proof -
  let ?ps = "wh_page_size h" and ?f = "wal_header_encode h @ enc_frames (com @ cur) @ part"
  define s where "s = scan_frames crc h 0 (com @ cur) \<lparr>sc_running = header_chain h, sc_last_valid = 0, sc_last_commit = 0, sc_last_chain = header_chain h\<rparr>"
  have fs: "0 < frame_size ?ps" using part by simp
  have "length ?f - WAL_HEADER_SIZE = length (com @ cur) * frame_size ?ps + length part"
    using length_enc_frames [OF h(2) log(3)] by (simp add: WAL_HEADER_SIZE_def)
  then have nf: "(length ?f - WAL_HEADER_SIZE) div frame_size ?ps = length (com @ cur)" using part fs by (simp only: div_mult_self3) simp
  have loop: "recover_loop crc ?f h ?ps [0..<length (com @ cur)]
      \<lparr>sc_running = header_chain h, sc_last_valid = 0, sc_last_commit = 0, sc_last_chain = header_chain h\<rparr> = s"
    using recover_loop_frames [OF h(2), of "[]" "wal_header_encode h" "com @ cur" crc part h] log(3) unfolding s_def by simp
  have hd: "read_exact_at ?f WAL_HEADER_SIZE 0 = Ok (wal_header_encode h)"
    using read_full_middle [of 0 "[]" WAL_HEADER_SIZE "wal_header_encode h" "enc_frames (com @ cur) @ part"]
    by (simp add: read_exact_at_def ok_or_def WAL_HEADER_SIZE_def)
  have sc: "sc_last_commit s = length com" "sc_last_chain s = chain_end crc (header_chain h) com"
    using scan_log [OF log(1,2) n] by (simp_all add: s_def)
  have cut: "set_len ?f (frame_at ?ps (length com)) = wal_header_encode h @ enc_frames com @ []"
    using frame_at_length [OF h(2), of com "wal_header_encode h"] log(3) by (simp add: set_len_def)
  have "recover crc salt1 salt2 t w = Ok (w\<lparr>w_file := (if t \<and> sc_last_commit s < sc_last_valid s then set_len ?f (frame_at ?ps (length com)) else ?f),
      w_header := h, w_page_size := ?ps, w_checksum := chain_end crc (header_chain h) com, w_n_frames := length com,
      w_uncommitted := Map.empty, w_recksum_from := None\<rparr>)"
    using fs hd sc h(1) nf loop fl wal_header_ne
    by (simp add: recover_def Let_def wal_header_decode_encode)
  then show ?thesis using cut
    by (intro bexI [of _ "if t \<and> sc_last_commit s < sc_last_valid s then [] else enc_frames cur @ part"]) simp_all
qed

end
