(* ===== verification/Wal_Store.thy ===== *)
theory Wal_Store
  imports Wal_Log
begin

text \<open>
  The write-ahead log as a transactional store of pages: the invariant that ties a log handle to
  the frames of its file, and that every operation keeps it and does to the pages what the
  abstract store prescribes.
\<close>

subsection \<open>The invariant\<close>

definition unmarked :: "pframe list \<Rightarrow> bool" where
  "unmarked fs \<longleftrightarrow> list_all (\<lambda>f. fr_commit (fst f) = 0) fs"

definition salted :: "wal_header \<Rightarrow> pframe list \<Rightarrow> bool" where
  "salted h fs \<longleftrightarrow> (\<forall>f \<in> set fs. fr_salt1 (fst f) = wh_salt1 h \<and> fr_salt2 (fst f) = wh_salt2 h)"

definition chain_inv :: "crc_fun \<Rightarrow> wal \<Rightarrow> pframe list \<Rightarrow> pframe list \<Rightarrow> bool" where
  "chain_inv crc w com cur \<longleftrightarrow>
     (case w_recksum_from w of
        None \<Rightarrow> chained crc (w_header w) (header_chain (w_header w)) (com @ cur)
                \<and> w_checksum w = chain_end crc (header_chain (w_header w)) (com @ cur)
      | Some k \<Rightarrow> length com \<le> k \<and> k < length (com @ cur)
                \<and> chained crc (w_header w) (header_chain (w_header w)) (take k (com @ cur)))"

text \<open>
  What may follow the frames in the file: frames left behind by a crash or by a reset that kept
  the file's size, which no scan takes for committed, and at most a part of a frame. \<open>used\<close> are
  the salts of all generations of the log so far.
\<close>

definition tail_ok :: "(u32 \<times> u32) set \<Rightarrow> wal_header \<Rightarrow> u32 \<Rightarrow> bytes \<Rightarrow> bool" where
  "tail_ok used h ps tail \<longleftrightarrow> (\<exists>stale part. tail = enc_frames stale @ part \<and> length part < frame_size ps \<and> sized ps stale
     \<and> idle h stale \<and> (\<forall>f \<in> set stale. (fr_salt1 (fst f), fr_salt2 (fst f)) \<in> used))"

definition wal_inv :: "crc_fun \<Rightarrow> (u32 \<times> u32) set \<Rightarrow> wal \<Rightarrow> pframe list \<Rightarrow> pframe list \<Rightarrow> bytes \<Rightarrow> bool" where
  "wal_inv crc used w com cur tail \<longleftrightarrow>
     wh_magic (w_header w) = WAL_MAGIC \<and> wh_page_size (w_header w) = w_page_size w \<and> page_size_fits (w_page_size w)
     \<and> (wh_salt1 (w_header w), wh_salt2 (w_header w)) \<in> used
     \<and> w_file w = (if w_header_dirty w then [] else wal_header_encode (w_header w) @ enc_frames (com @ cur) @ tail)
     \<and> (w_header_dirty w \<longrightarrow> com @ cur = [] \<and> tail = []) \<and> tail_ok used (w_header w) (w_page_size w) tail
     \<and> w_n_frames w = length (com @ cur) \<and> length (com @ cur) < 2 ^ 32
     \<and> sized (w_page_size w) (com @ cur) \<and> committed_log crc (w_header w) com \<and> unmarked cur \<and> salted (w_header w) cur
     \<and> chain_inv crc w com cur
     \<and> w_uncommitted w = (\<lambda>p. map_option (\<lambda>j. frame_at (w_page_size w) (length com + j)) (last_index p cur))"

lemma unmarked_simps [simp]: "unmarked []" "unmarked (f # fs) \<longleftrightarrow> fr_commit (fst f) = 0 \<and> unmarked fs"
    "unmarked (fs @ gs) \<longleftrightarrow> unmarked fs \<and> unmarked gs"
  by (simp_all add: unmarked_def)

lemma chained_salted: "chained crc h c fs \<Longrightarrow> salted h fs"
  unfolding salted_def using chained_salts by blast

lemma salted_simps [simp]: "salted h []" "salted h (f # fs) \<longleftrightarrow> fr_salt1 (fst f) = wh_salt1 h \<and> fr_salt2 (fst f) = wh_salt2 h \<and> salted h fs"
    "salted h (fs @ gs) \<longleftrightarrow> salted h fs \<and> salted h gs"
  by (auto simp: salted_def)

subsection \<open>Recomputing the checksums\<close>

definition set_sums :: "chain \<Rightarrow> pframe \<Rightarrow> pframe" where
  "set_sums c f = ((fst f)\<lparr>fr_checksum1 := fst c, fr_checksum2 := snd c\<rparr>, snd f)"

fun resum :: "crc_fun \<Rightarrow> chain \<Rightarrow> pframe list \<Rightarrow> pframe list" where
  "resum crc c [] = []"
| "resum crc c (f # fs) = set_sums (frame_sum crc c f) f # resum crc (frame_sum crc c f) fs"

lemma set_sums_simps [simp]: "snd (set_sums c f) = snd f" "page_of (set_sums c f) = page_of f" "frame_sum crc d (set_sums c f) = frame_sum crc d f"
    "fr_commit (fst (set_sums c f)) = fr_commit (fst f)" "fr_salt1 (fst (set_sums c f)) = fr_salt1 (fst f)" "fr_salt2 (fst (set_sums c f)) = fr_salt2 (fst f)"
  by (simp_all add: set_sums_def page_of_def frame_sum_def)

lemma chained_resum: "salted h fs \<Longrightarrow> chained crc h c (resum crc c fs)"
  by (induction fs arbitrary: c) (simp_all add: frame_ok_def, simp add: set_sums_def)

lemma chain_end_resum [simp]: "chain_end crc c (resum crc c fs) = chain_end crc c fs"
  by (induction fs arbitrary: c) simp_all

lemma resum_simps [simp]: "length (resum crc c fs) = length fs" "sized ps (resum crc c fs) = sized ps fs"
    "unmarked (resum crc c fs) = unmarked fs" "salted h (resum crc c fs) = salted h fs" "last_index p (resum crc c fs) = last_index p fs"
  by (induction fs arbitrary: c) simp_all

definition pages_of :: "pframe list \<Rightarrow> (u32 \<times> bytes) list" where
  "pages_of fs = map (\<lambda>f. (page_of f, snd f)) fs"

lemma pages_of_simps [simp]: "pages_of [] = []" "pages_of (f # fs) = (page_of f, snd f) # pages_of fs" "pages_of (fs @ gs) = pages_of fs @ pages_of gs"
  by (simp_all add: pages_of_def)

lemma pages_of_resum [simp]: "pages_of (resum crc c fs) = pages_of fs"
  by (induction fs arbitrary: c) simp_all

lemma view_pages: "view fs = foldl (\<lambda>m (p, d). m(p \<mapsto> d)) Map.empty (pages_of fs)"
  by (simp add: view_def pages_of_def foldl_map)

lemma frame_header_split:
  "frame_header_encode f = (be32 (fr_page_id f) @ be32 (fr_commit f) @ be32 (fr_salt1 f) @ be32 (fr_salt2 f)) @ be32 (fr_checksum1 f) @ be32 (fr_checksum2 f)"
  by (simp add: frame_header_encode_def)

lemma rechain_loop_frames:
  assumes "page_size_fits ps" "sized ps fs" "length hdr = 32" "sized ps gs"
  shows "rechain_loop crc ps [length fs..<length fs + length gs] (hdr @ enc_frames fs @ enc_frames gs @ rest) c
    = Ok (hdr @ enc_frames fs @ enc_frames (resum crc c gs) @ rest, chain_end crc c gs)"
  using assms
proof (induction gs arbitrary: fs c)
  case (Cons g gs)
  let ?p = "be32 (fr_page_id (fst g)) @ be32 (fr_commit (fst g)) @ be32 (fr_salt1 (fst g)) @ be32 (fr_salt2 (fst g))"
  let ?file = "hdr @ enc_frames fs @ enc_frame g @ enc_frames gs @ rest"
  have at: "frame_at ps (length fs) = length (hdr @ enc_frames fs)" using Cons.prems by (simp only: frame_at_length)
  have len: "length (enc_frame g) = frame_size ps" using Cons.prems by (simp add: enc_frame_def frame_size_eq)
  have rd: "read_exact_at ?file (frame_size ps) (frame_at ps (length fs)) = Ok (enc_frame g)"
    using read_full_middle [OF at, of "frame_size ps" "enc_frame g" "enc_frames gs @ rest"] len by (simp add: read_exact_at_def ok_or_def)
  have s1: "slice (enc_frame g) 0 8 = Ok (be32 (fr_page_id (fst g)) @ be32 (fr_commit (fst g)))"
    by (simp add: slice_def enc_frame_def take8_frame_header)
  have s2: "slice (enc_frame g) FRAME_HEADER_SIZE (length (enc_frame g)) = Ok (snd g)"
    by (simp add: slice_def enc_frame_def FRAME_HEADER_SIZE_def)
  have wr: "write_at ?file (be32 (fst c') @ be32 (snd c')) (frame_at ps (length fs) + 16) = hdr @ enc_frames (fs @ [set_sums c' g]) @ enc_frames gs @ rest" for c'
    using write_at_middle [of "frame_at ps (length fs) + 16" "hdr @ enc_frames fs @ ?p" "be32 (fst c') @ be32 (snd c')"
        "be32 (fr_checksum1 (fst g)) @ be32 (fr_checksum2 (fst g))" "snd g @ enc_frames gs @ rest"] at
    by (simp add: enc_frame_def frame_header_encode_def set_sums_def)
  have up: "[length fs..<length fs + length (g # gs)] = length fs # [length (fs @ [set_sums c' g])..<length (fs @ [set_sums c' g]) + length gs]" for c'
    by (subst upt_conv_Cons) simp_all
  have ih: "rechain_loop crc ps [length (fs @ [set_sums c' g])..<length (fs @ [set_sums c' g]) + length gs] (hdr @ enc_frames (fs @ [set_sums c' g]) @ enc_frames gs @ rest) c'
      = Ok (hdr @ enc_frames (fs @ [set_sums c' g]) @ enc_frames (resum crc c' gs) @ rest, chain_end crc c' gs)" for c'
    using Cons.prems by (intro Cons.IH) simp_all
  have "crc32 crc (fst c) (snd c) ((be32 (fr_page_id (fst g)) @ be32 (fr_commit (fst g))) @ snd g) = frame_sum crc c g" by (simp add: frame_sum_def)
  then show ?case
    unfolding up [of "frame_sum crc c g"] rechain_loop.simps using rd s1 s2 wr [of "frame_sum crc c g"] ih [of "frame_sum crc c g"]
    by (simp add: Let_def)
qed simp

lemma chained_last_sums: "chained crc h c fs \<Longrightarrow> fs \<noteq> [] \<Longrightarrow> (fr_checksum1 (fst (last fs)), fr_checksum2 (fst (last fs))) = chain_end crc c fs"
proof (induction fs rule: rev_induct)
  case (snoc f fs)
  then show ?case by (simp add: chained_append frame_ok_def)
qed simp

lemma chained_take: "chained crc h c fs \<Longrightarrow> chained crc h c (take k fs)"
  by (induction fs arbitrary: c k) (simp_all add: take_Cons split: nat.split)

lemma rechain_inv:
  assumes inv: "wal_inv crc used w com cur tail" and nd: "\<not> w_header_dirty w"
  shows "\<exists>w' cur'. rechain crc w = Ok w' \<and> wal_inv crc used w' com cur' tail \<and> w_recksum_from w' = None \<and> pages_of cur' = pages_of cur
    \<and> w_header w' = w_header w \<and> \<not> w_header_dirty w'"
proof (cases "w_recksum_from w")
  case None
  then show ?thesis using inv nd by (auto simp: rechain_def)
next
  case (Some k)
  let ?h = "w_header w" and ?ps = "w_page_size w"
  let ?c0 = "header_chain ?h"
  have ps: "page_size_fits ?ps" and sz: "sized ?ps (com @ cur)" and n: "w_n_frames w = length (com @ cur)"
    and fl: "w_file w = wal_header_encode ?h @ enc_frames (com @ cur) @ tail"
    and k: "length com \<le> k" "k < length (com @ cur)" and ch: "chained crc ?h ?c0 (take k (com @ cur))"
    and com: "committed_log crc ?h com" and st: "salted ?h cur"
    using inv nd Some by (auto simp: wal_inv_def chain_inv_def)
  define pre post where "pre = take k (com @ cur)" and "post = drop k (com @ cur)"
  have split: "com @ cur = pre @ post" "length pre = k" using k by (simp_all add: pre_def post_def)
  have pc: "pre = com @ take (k - length com) cur" "post = drop (k - length com) cur" using k by (simp_all add: pre_def post_def)
  define post' where "post' = resum crc (chain_end crc ?c0 pre) post"
  define cur' where "cur' = take (k - length com) cur @ post'"
  have sp: "sized ?ps pre" "sized ?ps post" using sz unfolding split(1) by simp_all
  have salt: "salted ?h post" using st unfolding pc(2) by (auto simp: salted_def dest: in_set_dropD)
  have start: "(if k = 0 then Ok ?c0
      else bind_outcome (read_exact_at (w_file w) FRAME_HEADER_SIZE (frame_at ?ps (k - 1))) (\<lambda>prev.
           bind_outcome (frame_header_decode prev) (\<lambda>fh. Ok (fr_checksum1 fh, fr_checksum2 fh)))) = Ok (chain_end crc ?c0 pre)"
  proof (cases "k = 0")
    case True
    then show ?thesis using split(2) by simp
  next
    case False
    then have ne: "pre \<noteq> []" using split(2) by auto
    then have "enc_frames pre = enc_frames (butlast pre) @ enc_frame (last pre)"
      using enc_frames_simps(3) [of "butlast pre" "[last pre]"] by (simp del: enc_frames_simps(3))
    then have "w_file w = wal_header_encode ?h @ enc_frames (butlast pre) @ enc_frame (last pre) @ enc_frames post @ tail"
      unfolding fl split(1) by simp
    moreover have "length (butlast pre) = k - 1" "sized ?ps (butlast pre)" using split(2) sp(1) by (auto simp: sized_def dest: in_set_butlastD)
    ultimately have "read_full (w_file w) FRAME_HEADER_SIZE (frame_at ?ps (k - 1)) = Some (frame_header_encode (fst (last pre)))"
      using read_frame_header [OF ps, of "butlast pre" "wal_header_encode ?h" "last pre" "enc_frames post @ tail"] by simp
    then show ?thesis using False chained_last_sums [OF ch [folded pre_def] ne] by (simp add: read_exact_at_def ok_or_def frame_header_decode_encode)
  qed
  have loop: "rechain_loop crc ?ps [k..<w_n_frames w] (w_file w) (chain_end crc ?c0 pre)
      = Ok (wal_header_encode ?h @ enc_frames pre @ enc_frames post' @ tail, chain_end crc ?c0 (pre @ post))"
    using rechain_loop_frames [OF ps sp(1) _ sp(2), of "wal_header_encode ?h" crc tail "chain_end crc ?c0 pre"] split(2)
    unfolding n fl split(1) post'_def by simp
  let ?w' = "w\<lparr>w_recksum_from := None, w_file := wal_header_encode ?h @ enc_frames pre @ enc_frames post' @ tail, w_checksum := chain_end crc ?c0 (pre @ post)\<rparr>"
  have r: "rechain crc w = Ok ?w'" using start loop Some by (simp add: rechain_def)
  have cc: "com @ cur' = pre @ post'" by (simp add: cur'_def pc(1))
  have cur: "cur = take (k - length com) cur @ post" by (simp add: pc(2))
  have li: "last_index p cur' = last_index p cur" for p
    by (subst cur) (simp add: cur'_def last_index_append post'_def)
  have "wal_inv crc used ?w' com cur' tail"
  proof -
    have a: "length cur' = length cur" by (subst cur) (simp add: cur'_def post'_def)
    have b: "unmarked cur'" "salted ?h cur'" using inv cur by (metis wal_inv_def unmarked_simps(3) resum_simps(3) cur'_def post'_def, metis wal_inv_def salted_simps(3) resum_simps(4) cur'_def post'_def)
    have d: "chained crc ?h ?c0 (com @ cur')" "sized ?ps (com @ cur')" unfolding cc using ch [folded pre_def] chained_resum [OF salt] sp
      by (simp_all add: chained_append post'_def)
    have e: "chain_end crc ?c0 (com @ cur') = chain_end crc ?c0 (pre @ post)" unfolding cc by (simp add: post'_def)
    have f: "wal_header_encode ?h @ enc_frames pre @ enc_frames post' @ tail = wal_header_encode ?h @ enc_frames (com @ cur') @ tail" unfolding cc by simp
    have ci: "chain_inv crc ?w' com cur'" using d(1) e unfolding chain_inv_def by simp
    show ?thesis
      unfolding wal_inv_def using inv nd a b d(2) li ci ps by (simp add: wal_inv_def f [simplified])
  qed
  moreover have "pages_of cur' = pages_of cur" by (subst cur) (simp add: cur'_def post'_def)
  ultimately show ?thesis using r nd by (intro exI [of _ ?w'] exI [of _ cur']) simp
qed

subsection \<open>The operations\<close>

lemma write_over_tail: "offset = length pre \<Longrightarrow> write_at (pre @ tail) data offset = pre @ data @ drop (length data) tail"
  by (simp add: write_at_def)

lemma tail_drop:
  assumes ps: "page_size_fits ps" and tail: "tail_ok used h ps tail"
  shows "tail_ok used h ps (drop (n * frame_size ps) tail)"
proof -
  from tail obtain stale part where t: "tail = enc_frames stale @ part" "length part < frame_size ps" "sized ps stale" "idle h stale"
      "\<forall>f \<in> set stale. (fr_salt1 (fst f), fr_salt2 (fst f)) \<in> used" by (auto simp: tail_ok_def)
  show ?thesis
  proof (cases "n \<le> length stale")
    case True
    have "enc_frames stale = enc_frames (take n stale) @ enc_frames (drop n stale)" using enc_frames_simps(3) [of "take n stale" "drop n stale"] by simp
    moreover have "length (enc_frames (take n stale)) = n * frame_size ps" using length_enc_frames [OF ps sized_take [OF t(3), of n]] True by simp
    ultimately have "drop (n * frame_size ps) tail = enc_frames (drop n stale) @ part" by (simp add: t(1))
    then show ?thesis using t(2-5) unfolding tail_ok_def
      by (intro exI [of _ "drop n stale"] exI [of _ part]) (auto simp: sized_def idle_def dest: in_set_dropD)
  next
    case False
    then have "(length stale + 1) * frame_size ps \<le> n * frame_size ps" by (intro mult_right_mono) simp_all
    then have "length tail \<le> n * frame_size ps" using t(1,2) length_enc_frames [OF ps t(3)] by simp
    then have "drop (n * frame_size ps) tail = []" by simp
    then show ?thesis using t(2) unfolding tail_ok_def by (intro exI [of _ "[]"]) simp
  qed
qed

lemma materialize_inv:
  assumes "wal_inv crc used w com cur tail"
  shows "wal_inv crc used (materialize_header w) com cur tail" and "\<not> w_header_dirty (materialize_header w)"
    and "w_recksum_from (materialize_header w) = w_recksum_from w" and "w_header (materialize_header w) = w_header w"
    and "w_page_size (materialize_header w) = w_page_size w" and "w_n_frames (materialize_header w) = w_n_frames w"
    and "w_checksum (materialize_header w) = w_checksum w"
  using assms by (auto simp: materialize_header_def wal_inv_def write_at_def chain_inv_def split: option.splits)

definition new_frame :: "crc_fun \<Rightarrow> wal_header \<Rightarrow> chain \<Rightarrow> u32 \<Rightarrow> u32 \<Rightarrow> bytes \<Rightarrow> pframe" where
  "new_frame crc h c p m d =
     (let ch = crc32 crc (fst c) (snd c) (be32 p @ be32 m @ d) in
      (\<lparr>fr_page_id = p, fr_commit = m, fr_salt1 = wh_salt1 h, fr_salt2 = wh_salt2 h, fr_checksum1 = fst ch, fr_checksum2 = snd ch\<rparr>, d))"

lemma new_frame_simps [simp]: "snd (new_frame crc h c p m d) = d" "page_of (new_frame crc h c p m d) = p" "fr_commit (fst (new_frame crc h c p m d)) = m"
    "frame_ok crc h c (new_frame crc h c p m d)" "fr_salt1 (fst (new_frame crc h c p m d)) = wh_salt1 h" "fr_salt2 (fst (new_frame crc h c p m d)) = wh_salt2 h"
  by (simp_all add: new_frame_def Let_def page_of_def frame_ok_def frame_sum_def)

lemma frame_sum_new_frame: "frame_sum crc c (new_frame crc h c p m d) = crc32 crc (fst c) (snd c) (be32 p @ be32 m @ d)"
  by (simp add: new_frame_def frame_sum_def Let_def)

lemma append_pending_inv:
  assumes inv: "wal_inv crc used w com cur tail" and d: "length d = unat (w_page_size w)" and n: "length (com @ cur) + 1 < 2 ^ 32"
  shows "\<exists>w' off f. append crc w p d False = Ok (w', off) \<and> wal_inv crc used w' com (cur @ [f]) (drop (frame_size (w_page_size w)) tail)
    \<and> page_of f = p \<and> snd f = d \<and> w_page_size w' = w_page_size w \<and> w_header w' = w_header w"
proof -
  define v where "v = materialize_header w"
  have v: "wal_inv crc used v com cur tail" "\<not> w_header_dirty v" "w_page_size v = w_page_size w" "w_header v = w_header w" using materialize_inv [OF inv] by (simp_all add: v_def)
  define f where "f = new_frame crc (w_header v) (w_checksum v) p 0 d"
  have fl: "w_file v = wal_header_encode (w_header v) @ enc_frames (com @ cur) @ tail" and ps: "page_size_fits (w_page_size v)" and sz: "sized (w_page_size v) (com @ cur)"
    and nf: "w_n_frames v = length (com @ cur)" using v by (auto simp: wal_inv_def)
  have lf: "length (enc_frame f) = frame_size (w_page_size v)" using d v(3) ps by (simp add: f_def enc_frame_def frame_size_eq)
  have wr: "write_at (w_file v) (enc_frame f) (frame_at (w_page_size v) (length (com @ cur)))
      = wal_header_encode (w_header v) @ enc_frames (com @ cur @ [f]) @ drop (frame_size (w_page_size w)) tail"
    unfolding fl using write_over_tail [OF frame_at_length [OF ps sz length_wal_header]] lf v(3) by simp
  let ?w' = "v\<lparr>w_checksum := frame_sum crc (w_checksum v) f, w_file := write_at (w_file v) (enc_frame f) (frame_at (w_page_size v) (length (com @ cur))), w_n_frames := length (com @ cur) + 1,
     w_uncommitted := (w_uncommitted v)(p \<mapsto> frame_at (w_page_size v) (length (com @ cur)))\<rparr>"
  have r: "append crc w p d False = Ok (?w', frame_at (w_page_size v) (length (com @ cur)))"
    using d n nf unfolding append_def v_def [symmetric] f_def frame_sum_new_frame
    by (simp add: Let_def enc_frame_def new_frame_def)
  have u: "w_uncommitted ?w' = (\<lambda>q. map_option (\<lambda>j. frame_at (w_page_size v) (length com + j)) (last_index q (cur @ [f])))"
    using v(1) by (auto simp: wal_inv_def last_index_append f_def fun_eq_iff)
  have ci: "chain_inv crc ?w' com (cur @ [f])"
    using v(1) unfolding wal_inv_def chain_inv_def by (cases "w_recksum_from v") (auto simp: chained_append f_def)
  have ff: "fr_commit (fst f) = 0" "snd f = d" "page_of f = p" "fr_salt1 (fst f) = wh_salt1 (w_header v)" "fr_salt2 (fst f) = wh_salt2 (w_header v)"
    by (simp_all add: f_def)
  have "tail_ok used (w_header v) (w_page_size v) (drop (frame_size (w_page_size w)) tail)"
    using v(1,3) tail_drop [OF ps, of used "w_header v" tail 1] by (simp add: wal_inv_def)
  then have "wal_inv crc used ?w' com (cur @ [f]) (drop (frame_size (w_page_size w)) tail)"
    unfolding wal_inv_def using v(1,2) n d v(3) u ci ff ps sz wr by (simp add: wal_inv_def)
  moreover have "w_page_size ?w' = w_page_size w" "w_header ?w' = w_header w" using v(3,4) by simp_all
  ultimately show ?thesis using r ff(2,3) by blast
qed

text \<open>Frames that end with a commit mark turn everything before them into committed frames.\<close>

lemma commit_frame_inv:
  assumes inv: "wal_inv crc used w com cur tail" and nd: "\<not> w_header_dirty w" and nr: "w_recksum_from w = None"
    and g: "chained crc (w_header w) (w_checksum w) gs" "gs \<noteq> []" "fr_commit (fst (last gs)) \<noteq> 0" "sized (w_page_size w) gs"
    and n: "length (com @ cur @ gs) < 2 ^ 32"
  shows "wal_inv crc used (w\<lparr>w_checksum := chain_end crc (w_checksum w) gs,
      w_file := wal_header_encode (w_header w) @ enc_frames (com @ cur @ gs) @ drop (length gs * frame_size (w_page_size w)) tail,
      w_n_frames := length (com @ cur @ gs), w_uncommitted := Map.empty\<rparr>) (com @ cur @ gs) [] (drop (length gs * frame_size (w_page_size w)) tail)"
proof -
  have "page_size_fits (w_page_size w)" "tail_ok used (w_header w) (w_page_size w) tail" using inv by (simp_all add: wal_inv_def)
  then have "tail_ok used (w_header w) (w_page_size w) (drop (length gs * frame_size (w_page_size w)) tail)" by (rule tail_drop)
  then show ?thesis using assms by (auto simp: wal_inv_def chain_inv_def committed_log_def chained_append)
qed

lemma append_commit_inv:
  assumes inv: "wal_inv crc used w com cur tail" and d: "length d = unat (w_page_size w)" and n: "length (com @ cur) + 1 < 2 ^ 32"
  shows "\<exists>w' off f cur'. append crc w p d True = Ok (w', off) \<and> wal_inv crc used w' (com @ cur' @ [f]) [] (drop (frame_size (w_page_size w)) tail)
    \<and> page_of f = p \<and> snd f = d
    \<and> pages_of cur' = pages_of cur \<and> unmarked cur' \<and> w_page_size w' = w_page_size w \<and> w_header w' = w_header w"
proof -
  define v where "v = materialize_header w"
  have v: "wal_inv crc used v com cur tail" "\<not> w_header_dirty v" "w_page_size v = w_page_size w" "w_header v = w_header w" using materialize_inv [OF inv] by (simp_all add: v_def)
  from rechain_inv [OF v(1,2)] obtain u cur' where u: "rechain crc v = Ok u" "wal_inv crc used u com cur' tail" "w_recksum_from u = None"
      "pages_of cur' = pages_of cur" "w_header u = w_header v" "\<not> w_header_dirty u" by blast
  have l: "length cur' = length cur" using arg_cong [OF u(4), of length] by (simp add: pages_of_def)
  have pu: "w_page_size u = w_page_size w" using u(2,5) v(1,3) by (simp add: wal_inv_def)
  define f where "f = new_frame crc (w_header u) (w_checksum u) p 1 d"
  have fl: "w_file u = wal_header_encode (w_header u) @ enc_frames (com @ cur') @ tail" and ps: "page_size_fits (w_page_size u)" and sz: "sized (w_page_size u) (com @ cur')"
    and nf: "w_n_frames u = length (com @ cur')" and um: "unmarked cur'" using u(2,6) by (auto simp: wal_inv_def)
  have lf: "length (enc_frame f) = frame_size (w_page_size u)" using d pu ps by (simp add: f_def enc_frame_def frame_size_eq)
  have wr: "write_at (w_file u) (enc_frame f) (frame_at (w_page_size u) (length (com @ cur')))
      = wal_header_encode (w_header u) @ enc_frames (com @ cur' @ [f]) @ drop (frame_size (w_page_size u)) tail"
    unfolding fl using write_over_tail [OF frame_at_length [OF ps sz length_wal_header]] lf by simp
  let ?w' = "u\<lparr>w_checksum := chain_end crc (w_checksum u) [f], w_file := wal_header_encode (w_header u) @ enc_frames (com @ cur' @ [f]) @ drop (frame_size (w_page_size u)) tail,
    w_n_frames := length (com @ cur' @ [f]), w_uncommitted := Map.empty\<rparr>"
  have r: "append crc w p d True = Ok (?w', frame_at (w_page_size u) (length (com @ cur')))"
    using d n l wr nf u(1) pu unfolding append_def v_def [symmetric] f_def
    by (simp add: Let_def enc_frame_def new_frame_def frame_sum_def)
  have "wal_inv crc used ?w' (com @ cur' @ [f]) [] (drop (frame_size (w_page_size w)) tail)"
    using n l d pu commit_frame_inv [OF u(2,6,3), of "[f]"] by (simp add: f_def)
  moreover have "w_page_size ?w' = w_page_size w" "w_header ?w' = w_header w" "page_of f = p" "snd f = d" using pu u(5) v(4) by (simp_all add: f_def)
  ultimately show ?thesis using r u(4) um by blast
qed

lemma ball_update: "\<forall>x \<in> set xs. P x \<Longrightarrow> P y \<Longrightarrow> \<forall>x \<in> set (xs[i := y]). P x"
  using set_update_subset_insert [of xs i y] by blast

lemma sized_update: "sized ps fs \<Longrightarrow> length (snd f) = unat ps \<Longrightarrow> sized ps (fs[i := f])"
  unfolding sized_def by (rule ball_update)

lemma unmarked_update: "unmarked fs \<Longrightarrow> fr_commit (fst f) = 0 \<Longrightarrow> unmarked (fs[i := f])"
  unfolding unmarked_def list_all_iff by (rule ball_update)

lemma salted_update: "salted h fs \<Longrightarrow> fr_salt1 (fst f) = wh_salt1 h \<Longrightarrow> fr_salt2 (fst f) = wh_salt2 h \<Longrightarrow> salted h (fs[i := f])"
  unfolding salted_def by (rule ball_update) simp_all

lemma last_index_cong: "map page_of gs = map page_of hs \<Longrightarrow> last_index q gs = last_index q hs"
proof (induction gs arbitrary: hs)
  case (Cons g gs)
  then obtain h hs' where hs: "hs = h # hs'" "page_of g = page_of h" "map page_of gs = map page_of hs'" by (cases hs) simp_all
  show ?case unfolding hs(1) last_index.simps Cons.IH [OF hs(3)] hs(2) by (rule refl)
qed simp

lemma last_index_update:
  assumes "last_index p fs = Some j" "page_of f = p"
  shows "last_index q (fs[j := f]) = last_index q fs"
proof -
  have j: "j < length fs" "page_of (fs ! j) = p" using last_index_SomeD [OF assms(1)] by auto
  have "map page_of (fs[j := f]) = map page_of fs" using j assms(2) by (simp add: map_update list_update_same_conv)
  then show ?thesis by (rule last_index_cong)
qed

lemma view_update:
  assumes "last_index p cur = Some j" "page_of f = p"
  shows "view (com @ cur[j := f]) = (view (com @ cur))(p \<mapsto> snd f)"
proof
  fix q
  have j: "j < length cur" using last_index_SomeD [OF assms(1)] by simp
  have li: "last_index q (com @ cur[j := f]) = last_index q (com @ cur)" by (simp add: last_index_append last_index_update [OF assms])
  show "view (com @ cur[j := f]) q = ((view (com @ cur))(p \<mapsto> snd f)) q"
  proof (cases "q = p")
    case True
    then show ?thesis using assms(1) j by (simp add: view_last_index last_index_append last_index_update [OF assms] nth_append)
  next
    case False
    have "(com @ cur[j := f]) ! i = (com @ cur) ! i" if "last_index q (com @ cur) = Some i" for i
    proof -
      have "page_of ((com @ cur) ! i) = q" using last_index_SomeD [OF that] by simp
      moreover have "page_of (cur ! j) = p" using last_index_SomeD [OF assms(1)] by simp
      ultimately have "i \<noteq> length com + j" using False by (auto simp: nth_append)
      then show ?thesis by (auto simp: nth_append nth_list_update)
    qed
    then show ?thesis using False li by (cases "last_index q (com @ cur)") (simp_all add: view_last_index)
  qed
qed

lemma spill_inv:
  assumes inv: "wal_inv crc used w com cur tail" and d: "length d = unat (w_page_size w)" and n: "length (com @ cur) + 1 < 2 ^ 32"
  shows "\<exists>w' off cur' tail'. spill crc w p d = Ok (w', off) \<and> wal_inv crc used w' com cur' tail' \<and> view (com @ cur') = (view (com @ cur))(p \<mapsto> d)
    \<and> w_page_size w' = w_page_size w \<and> w_header w' = w_header w \<and> length cur' \<le> length cur + 1 \<and> length cur \<le> length cur' \<and> (tail = [] \<longrightarrow> tail' = [])"
proof (cases "last_index p cur")
  case None
  then have "spill crc w p d = append crc w p d False" using inv by (simp add: spill_def wal_inv_def)
  moreover from append_pending_inv [OF inv d n, of p] obtain w' off f where f: "append crc w p d False = Ok (w', off)" "wal_inv crc used w' com (cur @ [f]) (drop (frame_size (w_page_size w)) tail)"
      "page_of f = p" "snd f = d" "w_page_size w' = w_page_size w" "w_header w' = w_header w" by blast
  moreover have "view (com @ (cur @ [f])) = (view (com @ cur))(p \<mapsto> d)" using view_snoc [of "com @ cur" f] f(3,4) by simp
  moreover have "length (cur @ [f]) = length cur + 1" by simp
  moreover have "tail = [] \<longrightarrow> drop (frame_size (w_page_size w)) tail = []" by simp
  ultimately show ?thesis by (metis order_refl le_add1)
next
  case (Some j)
  let ?ps = "w_page_size w" and ?h = "w_header w"
  have j: "j < length cur" "page_of (cur ! j) = p" using last_index_SomeD [OF Some] by auto
  have nd: "\<not> w_header_dirty w" using inv j by (auto simp: wal_inv_def)
  have fl: "w_file w = wal_header_encode ?h @ enc_frames (com @ cur) @ tail" and ps: "page_size_fits ?ps" and sz: "sized ?ps (com @ cur)"
    using inv nd by (auto simp: wal_inv_def)
  define i where "i = length com + j"
  have i: "i < length (com @ cur)" "i < 2 ^ 32" "length com \<le> i" using j n by (simp_all add: i_def)
  define f :: pframe where "f = (\<lparr>fr_page_id = p, fr_commit = 0, fr_salt1 = wh_salt1 ?h, fr_salt2 = wh_salt2 ?h, fr_checksum1 = 0, fr_checksum2 = 0\<rparr>, d)"
  have ff: "page_of f = p" "snd f = d" "fr_commit (fst f) = 0" "fr_salt1 (fst f) = wh_salt1 ?h" "fr_salt2 (fst f) = wh_salt2 ?h"
    by (simp_all add: f_def page_of_def)
  have fs: "0 < frame_size ?ps" using ps by (simp add: frame_size_eq)
  have idx: "(frame_at ?ps i - WAL_HEADER_SIZE) div frame_size ?ps mod 2 ^ 32 = i" using fs i(2) by (simp add: frame_at_def)
  have up: "com @ cur[j := f] = (com @ cur)[i := f]" by (simp add: i_def list_update_append)
  have tk: "take i (com @ cur) @ [f] @ drop (Suc i) (com @ cur) = (com @ cur)[i := f]" using i(1) by (simp only: upd_conv_take_nth_drop) simp
  have wr: "write_at (w_file w) (enc_frame f) (frame_at ?ps i) = wal_header_encode ?h @ enc_frames (com @ cur[j := f]) @ tail"
  proof -
    have s: "sized ?ps (take i (com @ cur))" "length (snd ((com @ cur) ! i)) = unat ?ps" using sz i(1) by (simp_all only: sized_take sized_nth)
    have l: "length (take i (com @ cur)) = i" using i(1) by simp
    have at: "frame_at ?ps i = length (wal_header_encode ?h @ enc_frames (take i (com @ cur)))"
      using frame_at_length [OF ps s(1) length_wal_header, of ?h] by (simp only: l)
    have "w_file w = (wal_header_encode ?h @ enc_frames (take i (com @ cur))) @ enc_frame ((com @ cur) ! i) @ enc_frames (drop (Suc i) (com @ cur)) @ tail"
      unfolding fl using split_at_frame [OF i(1)] by simp
    then have "write_at (w_file w) (enc_frame f) (frame_at ?ps i)
        = (wal_header_encode ?h @ enc_frames (take i (com @ cur))) @ enc_frame f @ enc_frames (drop (Suc i) (com @ cur)) @ tail"
      using write_at_middle [OF at, of "enc_frame f" "enc_frame ((com @ cur) ! i)"] s(2) ff(2) d by (simp add: enc_frame_def)
    also have "\<dots> = wal_header_encode ?h @ enc_frames (take i (com @ cur) @ [f] @ drop (Suc i) (com @ cur)) @ tail" by simp
    finally show ?thesis unfolding tk up .
  qed
  define k where "k = (case w_recksum_from w of None \<Rightarrow> i | Some k \<Rightarrow> min k i)"
  let ?w' = "w\<lparr>w_file := wal_header_encode ?h @ enc_frames (com @ cur[j := f]) @ tail, w_recksum_from := Some k\<rparr>"
  have r: "spill crc w p d = Ok (?w', frame_at ?ps i)"
  proof -
    have "w_uncommitted w p = Some (frame_at ?ps i)" using inv Some by (simp add: wal_inv_def i_def)
    moreover have "enc_frame f = frame_header_encode \<lparr>fr_page_id = p, fr_commit = 0, fr_salt1 = wh_salt1 ?h, fr_salt2 = wh_salt2 ?h, fr_checksum1 = 0, fr_checksum2 = 0\<rparr> @ d"
      by (simp add: f_def enc_frame_def)
    ultimately show ?thesis using d fs idx wr unfolding spill_def by (simp add: Let_def k_def)
  qed
  have ki: "length com \<le> k" "k \<le> i" using inv i(3) by (auto simp: k_def wal_inv_def chain_inv_def split: option.splits)
  have "chained crc ?h (header_chain ?h) (take k (com @ cur))"
  proof (cases "w_recksum_from w")
    case None
    then have "chained crc ?h (header_chain ?h) (com @ cur)" using inv by (simp add: wal_inv_def chain_inv_def)
    then show ?thesis by (rule chained_take)
  next
    case (Some k0)
    then have "chained crc ?h (header_chain ?h) (take k0 (com @ cur))" using inv unfolding wal_inv_def chain_inv_def by (simp del: take_append)
    then have "chained crc ?h (header_chain ?h) (take k (take k0 (com @ cur)))" by (rule chained_take)
    moreover have "min k k0 = k" using Some by (simp add: k_def)
    ultimately show ?thesis by (simp only: take_take)
  qed
  moreover have "take k ((com @ cur)[i := f]) = take k (com @ cur)" using ki(2) by simp
  ultimately have ci: "chain_inv crc ?w' com (cur[j := f])" using ki i(1) unfolding chain_inv_def up by simp
  have "sized ?ps (com @ cur[j := f])" unfolding up using sz ff(2) d by (intro sized_update) simp_all
  moreover have "unmarked (cur[j := f])" "salted ?h (cur[j := f])"
    using inv ff by (simp_all add: wal_inv_def unmarked_update salted_update)
  ultimately have "wal_inv crc used ?w' com (cur[j := f]) tail"
    unfolding wal_inv_def using inv nd ci ps last_index_update [OF Some ff(1)] by (simp add: wal_inv_def)
  then show ?thesis using r view_update [OF Some ff(1)] ff(2)
    by (intro exI [of _ ?w'] exI [of _ "frame_at ?ps i"] exI [of _ "cur[j := f]"] exI [of _ tail]) simp
qed

end
