(* ===== verification/Wal_Batch.thy ===== *)
theory Wal_Batch
  imports Wal_Store
begin

text \<open>
  The commit of a batch of pages: the buffered and chunked writer of \<^verbatim>\<open>append_batch\<close> leaves in the
  file the frames of the dirty pages in their order, the last one with the commit mark.
\<close>

definition dirty_pages :: "(u32 \<times> bool \<times> bytes) list \<Rightarrow> (u32 \<times> bytes) list" where
  "dirty_pages pages = map (\<lambda>(p, _, d). (p, d)) (filter (\<lambda>(_, dirty, _). dirty) pages)"

lemma dirty_pages_simps [simp]: "dirty_pages [] = []" "dirty_pages ((p, True, d) # pages) = (p, d) # dirty_pages pages"
    "dirty_pages ((p, False, d) # pages) = dirty_pages pages"
  by (simp_all add: dirty_pages_def)

text \<open>
  Where the writer stands after the frames \<open>gs\<close>: all but some last ones are in the file, behind
  \<open>pre\<close> and over the start of \<open>tail\<close>, the others, at least the very last, are in the buffer.
\<close>

definition batch_last :: "crc_fun \<Rightarrow> u32 \<Rightarrow> chain \<Rightarrow> pframe list \<Rightarrow> batch \<Rightarrow> bool" where
  "batch_last crc ps c0 gs b \<longleftrightarrow>
     (if gs = [] then b_last_at b = None
      else b_before_last b = Some (chain_end crc c0 (butlast gs)) \<and> b_last_id b = page_of (last gs)
           \<and> b_last_at b = Some ((length gs - 1 - b_flushed b) * frame_size ps))"

definition batch_inv :: "crc_fun \<Rightarrow> wal_header \<Rightarrow> u32 \<Rightarrow> bytes \<Rightarrow> bytes \<Rightarrow> chain \<Rightarrow> pframe list \<Rightarrow> batch \<Rightarrow> bool" where
  "batch_inv crc h ps pre tail c0 gs b \<longleftrightarrow>
     chained crc h c0 gs \<and> unmarked gs \<and> sized ps gs \<and> b_chain b = chain_end crc c0 gs \<and> b_flushed b \<le> length gs - 1
     \<and> b_file b = pre @ enc_frames (take (b_flushed b) gs) @ drop (b_flushed b * frame_size ps) tail
     \<and> (b_flushed b \<noteq> 0 \<longrightarrow> b_cursor b = length pre + b_flushed b * frame_size ps)
     \<and> b_out b = enc_frames (drop (b_flushed b) gs) \<and> batch_last crc ps c0 gs b
     \<and> b_offsets b = map (\<lambda>i. (page_of (gs ! i), length pre + i * frame_size ps)) [0..<length gs]"

lemma sized_drop: "sized ps fs \<Longrightarrow> sized ps (drop j fs)"
  by (auto simp: sized_def dest: in_set_dropD)

lemma enc_frames_take: "page_size_fits ps \<Longrightarrow> sized ps fs \<Longrightarrow> n \<le> length fs \<Longrightarrow> take (n * frame_size ps) (enc_frames fs) = enc_frames (take n fs)"
  and enc_frames_drop: "page_size_fits ps \<Longrightarrow> sized ps fs \<Longrightarrow> n \<le> length fs \<Longrightarrow> drop (n * frame_size ps) (enc_frames fs) = enc_frames (drop n fs)"
proof -
  assume a: "page_size_fits ps" "sized ps fs" "n \<le> length fs"
  have "length (enc_frames (take n fs)) = n * frame_size ps" using length_enc_frames [OF a(1) sized_take [OF a(2), of n]] a(3) by simp
  then show "take (n * frame_size ps) (enc_frames fs) = enc_frames (take n fs)" "drop (n * frame_size ps) (enc_frames fs) = enc_frames (drop n fs)"
    using enc_frames_simps(3) [of "take n fs" "drop n fs"] by simp_all
qed

lemma batch_flush_inv:
  assumes inv: "batch_inv crc h ps pre tail c0 gs b" and ps: "page_size_fits ps"
  shows "batch_inv crc h ps pre tail c0 gs (batch_flush (frame_size ps) (length pre) b)"
proof (cases "(CHUNK_FRAMES + 1) * frame_size ps \<le> length (b_out b)")
  case True
  let ?fs = "frame_size ps" and ?k = "b_flushed b"
  define m where "m = length gs - ?k - 1"
  have fs: "0 < ?fs" using ps by (simp add: frame_size_eq)
  have sz: "sized ps gs" and out: "b_out b = enc_frames (drop ?k gs)" and k: "?k \<le> length gs - 1" using inv by (simp_all add: batch_inv_def)
  have lo: "length (b_out b) = (length gs - ?k) * ?fs" using length_enc_frames [OF ps sized_drop [OF sz]] by (simp add: out)
  have ne: "gs \<noteq> []" using True lo fs by (auto simp: CHUNK_FRAMES_def)
  have "?k < length gs" using k ne by (cases gs) simp_all
  then have m: "length gs - ?k = m + 1" "?k + m = length gs - 1" "m \<le> length (drop ?k gs)" by (simp_all add: m_def)
  have keep: "length (b_out b) - ?fs = m * ?fs" unfolding lo m(1) by simp
  have tk: "take (m * ?fs) (b_out b) = enc_frames (take m (drop ?k gs))" "drop (m * ?fs) (b_out b) = enc_frames (drop (?k + m) gs)"
    using enc_frames_take [OF ps sized_drop [OF sz] m(3)] enc_frames_drop [OF ps sized_drop [OF sz] m(3)] by (simp_all add: out add.commute)
  have cur: "(if ?k = 0 then length pre else b_cursor b) = length (pre @ enc_frames (take ?k gs))"
    using inv length_enc_frames [OF ps sized_take [OF sz, of ?k]] k by (auto simp: batch_inv_def)
  have len: "length (enc_frames (take m (drop ?k gs))) = m * ?fs" using length_enc_frames [OF ps sized_take [OF sized_drop [OF sz]]] m(3) by simp
  have wr: "write_at (b_file b) (take (m * ?fs) (b_out b)) (if ?k = 0 then length pre else b_cursor b)
      = pre @ enc_frames (take (?k + m) gs) @ drop ((?k + m) * ?fs) tail"
  proof -
    have "b_file b = (pre @ enc_frames (take ?k gs)) @ drop (?k * ?fs) tail" using inv by (simp add: batch_inv_def)
    then have "write_at (b_file b) (take (m * ?fs) (b_out b)) (if ?k = 0 then length pre else b_cursor b)
        = (pre @ enc_frames (take ?k gs)) @ enc_frames (take m (drop ?k gs)) @ drop (m * ?fs) (drop (?k * ?fs) tail)"
      using write_over_tail [OF cur] len unfolding tk by simp
    moreover have "take (?k + m) gs = take ?k gs @ take m (drop ?k gs)" by (rule take_add)
    ultimately show ?thesis by (simp add: add_mult_distrib add.commute)
  qed
  have "length (enc_frames (drop (?k + m) gs)) = ?fs" using length_enc_frames [OF ps sized_drop [OF sz]] m(2) ne by (simp add: Suc_leI)
  then have "batch_flush ?fs (length pre) b = b\<lparr>b_file := pre @ enc_frames (take (?k + m) gs) @ drop ((?k + m) * ?fs) tail,
      b_cursor := length pre + (?k + m) * ?fs, b_flushed := ?k + m, b_out := enc_frames (drop (?k + m) gs), b_last_at := Some 0\<rparr>"
    using True wr inv ne cur tk(2) fs length_enc_frames [OF ps sized_take [OF sz, of ?k]] k
    unfolding batch_flush_def keep Let_def by (simp add: batch_inv_def batch_last_def add_mult_distrib)
  then show ?thesis using inv m(2) ne by (simp add: batch_inv_def batch_last_def)
next
  case False
  then show ?thesis using inv by (simp add: batch_flush_def)
qed

lemma new_frame_bytes: "enc_frame (new_frame crc h c p m d) = frame_bytes h p m (crc32 crc (fst c) (snd c) (be32 p @ be32 m @ d)) @ d"
  by (simp add: enc_frame_def new_frame_def frame_bytes_def Let_def)

lemma batch_page_clean:
  assumes "batch_inv crc h ps pre tail c0 gs b" "page_size_fits ps"
  shows "\<exists>b'. batch_page crc h ps (length pre) b (p, False, d) = Ok b' \<and> batch_inv crc h ps pre tail c0 gs b'"
  using batch_flush_inv [OF assms] by (simp add: batch_page_def FRAME_HEADER_SIZE_def frame_size_eq [OF assms(2)] Let_def)

lemma batch_page_dirty:
  assumes inv: "batch_inv crc h ps pre tail c0 gs b" and ps: "page_size_fits ps" and d: "length d = unat ps"
  shows "\<exists>b'. batch_page crc h ps (length pre) b (p, True, d) = Ok b' \<and> batch_inv crc h ps pre tail c0 (gs @ [new_frame crc h (chain_end crc c0 gs) p 0 d]) b'"
proof -
  define g where "g = new_frame crc h (chain_end crc c0 gs) p 0 d"
  define b0 where "b0 = batch_flush (frame_size ps) (length pre) b"
  have i0: "batch_inv crc h ps pre tail c0 gs b0" unfolding b0_def by (rule batch_flush_inv [OF inv ps])
  let ?c = "crc32 crc (fst (b_chain b0)) (snd (b_chain b0)) (be32 p @ be32 0 @ d)"
  define b' where "b' = b0\<lparr>b_chain := ?c, b_before_last := Some (b_chain b0), b_last_at := Some (length (b_out b0)), b_last_id := p,
      b_offsets := b_offsets b0 @ [(p, length pre + length (b_offsets b0) * frame_size ps)], b_out := b_out b0 @ frame_bytes h p 0 ?c @ d\<rparr>"
  have c: "b_chain b0 = chain_end crc c0 gs" and k: "b_flushed b0 \<le> length gs" and lo: "length (b_offsets b0) = length gs"
    using i0 by (auto simp: batch_inv_def)
  have g: "fr_commit (fst g) = 0" "snd g = d" "page_of g = p" "frame_ok crc h (chain_end crc c0 gs) g"
      "frame_sum crc (chain_end crc c0 gs) g = ?c" "enc_frame g = frame_bytes h p 0 ?c @ d"
    by (simp_all add: g_def c frame_sum_new_frame new_frame_bytes)
  have lout: "length (b_out b0) = (length gs - b_flushed b0) * frame_size ps"
    using i0 length_enc_frames [OF ps sized_drop] by (simp add: batch_inv_def)
  have "map (\<lambda>i. (page_of ((gs @ [g]) ! i), length pre + i * frame_size ps)) [0..<length gs]
      = map (\<lambda>i. (page_of (gs ! i), length pre + i * frame_size ps)) [0..<length gs]"
    by (rule map_cong) (simp_all add: nth_append)
  then have "batch_inv crc h ps pre tail c0 (gs @ [g]) b'"
    using i0 k lout lo g d c by (simp add: batch_inv_def batch_last_def b'_def chained_append)
  moreover have "batch_page crc h ps (length pre) b (p, True, d) = Ok b'"
    using d by (simp add: batch_page_def FRAME_HEADER_SIZE_def frame_size_eq [OF ps, symmetric] b0_def [symmetric] Let_def b'_def)
  ultimately show ?thesis unfolding g_def by blast
qed

lemma batch_pages:
  assumes "batch_inv crc h ps pre tail c0 gs b" "page_size_fits ps" "\<forall>(p, dirty, d) \<in> set pages. dirty \<longrightarrow> length d = unat ps"
  shows "\<exists>b' hs. fold_outcome (batch_page crc h ps (length pre)) b pages = Ok b' \<and> batch_inv crc h ps pre tail c0 (gs @ hs) b'
    \<and> pages_of hs = dirty_pages pages"
  using assms(1,3)
proof (induction pages arbitrary: gs b)
  case Nil
  then show ?case by (intro exI [of _ b] exI [of _ "[]"]) simp
next
  case (Cons x pages)
  obtain p dirty d where x: "x = (p, dirty, d)" by (cases x)
  show ?case
  proof (cases dirty)
    case True
    define g where "g = new_frame crc h (chain_end crc c0 gs) p 0 d"
    from batch_page_dirty [OF Cons.prems(1) assms(2), of d p] Cons.prems(2) obtain b' where
        b': "batch_page crc h ps (length pre) b (p, True, d) = Ok b'" "batch_inv crc h ps pre tail c0 (gs @ [g]) b'" by (auto simp: x True g_def)
    from Cons.IH [OF b'(2)] Cons.prems(2) obtain b'' hs where "fold_outcome (batch_page crc h ps (length pre)) b' pages = Ok b''"
        "batch_inv crc h ps pre tail c0 ((gs @ [g]) @ hs) b''" "pages_of hs = dirty_pages pages" by fastforce
    then show ?thesis using b'(1) by (intro exI [of _ b''] exI [of _ "g # hs"]) (simp add: x True g_def)
  next
    case False
    from batch_page_clean [OF Cons.prems(1) assms(2), of p d] obtain b' where
        b': "batch_page crc h ps (length pre) b (p, False, d) = Ok b'" "batch_inv crc h ps pre tail c0 gs b'" by blast
    from Cons.IH [OF b'(2)] Cons.prems(2) obtain b'' hs where "fold_outcome (batch_page crc h ps (length pre)) b' pages = Ok b''"
        "batch_inv crc h ps pre tail c0 (gs @ hs) b''" "pages_of hs = dirty_pages pages" by fastforce
    then show ?thesis using b'(1) by (intro exI [of _ b''] exI [of _ hs]) (simp add: x False)
  qed
qed

text \<open>The last frame of a transaction gets the mark, and its checksum is taken again.\<close>

definition mark_last :: "crc_fun \<Rightarrow> wal_header \<Rightarrow> chain \<Rightarrow> pframe list \<Rightarrow> pframe list" where
  "mark_last crc h c0 gs = butlast gs @ [new_frame crc h (chain_end crc c0 (butlast gs)) (page_of (last gs)) 1 (snd (last gs))]"

lemma mark_last_simps: "gs \<noteq> [] \<Longrightarrow> length (mark_last crc h c0 gs) = length gs" "butlast (mark_last crc h c0 gs) = butlast gs"
    "fr_commit (fst (last (mark_last crc h c0 gs))) = 1" "mark_last crc h c0 gs \<noteq> []"
  by (auto simp: mark_last_def)

lemma pages_of_mark_last: "gs \<noteq> [] \<Longrightarrow> pages_of (mark_last crc h c0 gs) = pages_of gs"
  by (induction gs rule: rev_induct) (simp_all add: mark_last_def)

lemma sized_mark_last: "gs \<noteq> [] \<Longrightarrow> sized ps gs \<Longrightarrow> sized ps (mark_last crc h c0 gs)"
  by (induction gs rule: rev_induct) (simp_all add: mark_last_def)

lemma chained_mark_last: "gs \<noteq> [] \<Longrightarrow> chained crc h c0 gs \<Longrightarrow> chained crc h c0 (mark_last crc h c0 gs)"
  by (induction gs rule: rev_induct) (simp_all add: mark_last_def chained_append)

lemma take_drop_mark_last:
  assumes "k \<le> length gs - 1" "gs \<noteq> []"
  shows "take k (mark_last crc h c0 gs) = take k gs"
    and "drop k (mark_last crc h c0 gs) = butlast (drop k gs) @ [last (mark_last crc h c0 gs)]"
    and "drop k gs = butlast (drop k gs) @ [last gs]" "length (butlast (drop k gs)) = length gs - 1 - k"
proof -
  have "0 < length gs" using assms(2) by simp
  then have k: "k \<le> length (butlast gs)" "k < length gs" using assms(1) by (simp, linarith)
  show "take k (mark_last crc h c0 gs) = take k gs" using k assms(2) by (simp add: mark_last_def take_butlast)
  show "drop k (mark_last crc h c0 gs) = butlast (drop k gs) @ [last (mark_last crc h c0 gs)]" using k by (simp add: mark_last_def butlast_drop)
  show "drop k gs = butlast (drop k gs) @ [last gs]"
    using append_butlast_last_id [of "drop k gs"] last_drop [OF k(2)] k(2) by simp
  show "length (butlast (drop k gs)) = length gs - 1 - k" by simp
qed

lemma batch_fixup_inv:
  assumes inv: "batch_inv crc h ps pre tail c0 gs b" and ps: "page_size_fits ps" and ne: "gs \<noteq> []"
  shows "batch_fixup crc h ps b = Ok (b\<lparr>b_chain := chain_end crc c0 (mark_last crc h c0 gs), b_out := enc_frames (drop (b_flushed b) (mark_last crc h c0 gs))\<rparr>)"
proof -
  let ?k = "b_flushed b" and ?l = "last gs"
  let ?init = "butlast (drop ?k gs)" and ?c = "chain_end crc c0 (butlast gs)"
  have k: "?k \<le> length gs - 1" and sz: "sized ps gs" using inv by (simp_all add: batch_inv_def)
  note td = take_drop_mark_last [OF k ne]
  have sl: "sized ps ?init" "length (snd ?l) = unat ps" using sz ne sized_drop [OF sz, of ?k] by (auto simp: sized_def dest: in_set_butlastD)
  have out: "b_out b = enc_frames ?init @ frame_header_encode (fst ?l) @ snd ?l"
    using inv arg_cong [OF td(3), of enc_frames] by (simp add: batch_inv_def enc_frame_def)
  have at: "(length gs - 1 - ?k) * frame_size ps = length (enc_frames ?init)" using length_enc_frames [OF ps sl(1)] td(4) by simp
  have slot: "slice (b_out b) (length (enc_frames ?init) + FRAME_HEADER_SIZE) (length (enc_frames ?init) + FRAME_HEADER_SIZE + unat ps) = Ok (snd ?l)"
    using sl(2) by (simp add: out slice_def FRAME_HEADER_SIZE_def)
  have wr: "write_at (b_out b) (frame_bytes h (page_of ?l) 1 c) (length (enc_frames ?init)) = enc_frames ?init @ frame_bytes h (page_of ?l) 1 c @ snd ?l" for c
    unfolding out by (rule write_at_middle) (simp_all add: frame_bytes_def)
  have lst: "last (mark_last crc h c0 gs) = new_frame crc h ?c (page_of ?l) 1 (snd ?l)" by (simp add: mark_last_def)
  have "chain_end crc c0 (mark_last crc h c0 gs) = crc32 crc (fst ?c) (snd ?c) (be32 (page_of ?l) @ be32 1 @ snd ?l)"
    by (simp add: mark_last_def frame_sum_new_frame)
  then show ?thesis
    using inv ne slot wr at unfolding td(2) lst
    by (simp add: batch_fixup_def batch_inv_def batch_last_def new_frame_bytes Let_def)
qed

lemma append_batch_result:
  assumes "w_page_size u = ps" "FRAME_HEADER_SIZE + unat ps = fs" "WAL_HEADER_SIZE + w_n_frames u * fs = start"
    and "pages \<noteq> []" "w_page_size w \<noteq> 0" "rechain crc (materialize_header w) = Ok u"
    and "fold_outcome (batch_page crc (w_header u) ps start)
       \<lparr>b_file = w_file u, b_cursor = 0, b_out = [], b_flushed = 0, b_chain = w_checksum u, b_before_last = None,
        b_last_at = None, b_last_id = 0, b_offsets = []\<rparr> pages = Ok b"
    and "\<not> (b_out b = [] \<and> b_flushed b = 0)" "batch_fixup crc (w_header u) ps b = Ok (b\<lparr>b_chain := c, b_out := out\<rparr>)"
    and "(b_flushed b + length out div fs) mod 2 ^ 32 = k" "(w_n_frames u + k) mod 2 ^ 32 = n" "0 < k"
    and "write_at (b_file b) out (if b_flushed b = 0 then start else b_cursor b) = new"
  shows "append_batch crc w pages [] = Ok (u\<lparr>w_checksum := c, w_n_frames := n, w_uncommitted := Map.empty, w_file := new\<rparr>,
    b_offsets b, map (\<lambda>(p, dirty, d). (p, False, d)) pages)"
proof -
  let ?b = "b\<lparr>b_chain := c, b_out := out\<rparr>"
  have sel: "b_flushed ?b = b_flushed b" "b_out ?b = out" "b_chain ?b = c" "b_file ?b = b_file b" "b_cursor ?b = b_cursor b" "b_offsets ?b = b_offsets b" by simp_all
  show ?thesis
    unfolding append_batch_def Let_def assms(6) bind_outcome.simps assms(1-3,7) if_not_P [OF assms(4)] if_not_P [OF assms(5)] if_not_P [OF assms(8)] assms(9)
      sel assms(13) assms(10,11) if_P [OF assms(12)]
    by simp
qed

lemma append_batch_inv:
  assumes inv: "wal_inv crc used w com cur tail" and ps0: "w_page_size w \<noteq> 0" and pg: "pages \<noteq> []"
    and d: "\<forall>(p, dirty, d) \<in> set pages. dirty \<longrightarrow> length d = unat (w_page_size w)"
    and n: "length (com @ cur) + length (dirty_pages pages) < 2 ^ 32"
  shows "\<exists>w' cur' gs. append_batch crc w pages [] = Ok (w', map (\<lambda>i. (page_of (gs ! i), frame_at (w_page_size w) (length (com @ cur) + i))) [0..<length gs],
        map (\<lambda>(p, dirty, d). (p, False, d)) pages)
    \<and> pages_of gs = dirty_pages pages \<and> pages_of cur' = pages_of cur \<and> unmarked cur' \<and> unmarked (butlast gs) \<and> w_page_size w' = w_page_size w \<and> w_header w' = w_header w \<and> \<not> w_header_dirty w'
    \<and> (if gs = [] then wal_inv crc used w' com cur' tail
       else wal_inv crc used w' (com @ cur' @ gs) [] (drop (length gs * frame_size (w_page_size w)) tail))"
proof -
  define v where "v = materialize_header w"
  have v: "wal_inv crc used v com cur tail" "\<not> w_header_dirty v" "w_page_size v = w_page_size w" "w_header v = w_header w" using materialize_inv [OF inv] by (simp_all add: v_def)
  from rechain_inv [OF v(1,2)] obtain u cur' where u: "rechain crc v = Ok u" "wal_inv crc used u com cur' tail" "w_recksum_from u = None"
      "pages_of cur' = pages_of cur" "w_header u = w_header v" "\<not> w_header_dirty u" by blast
  have l: "length cur' = length cur" using arg_cong [OF u(4), of length] by (simp add: pages_of_def)
  have pu: "w_page_size u = w_page_size w" using u(2,5) v(1,3) by (simp add: wal_inv_def)
  let ?ps = "w_page_size w" and ?h = "w_header u"
  define pre where "pre = wal_header_encode ?h @ enc_frames (com @ cur')"
  have fl: "w_file u = pre @ tail" and ps: "page_size_fits ?ps" and sz: "sized ?ps (com @ cur')"
    and nf: "w_n_frames u = length (com @ cur)" and um: "unmarked cur'" using u(2,6) pu l by (auto simp: wal_inv_def pre_def)
  have fs: "FRAME_HEADER_SIZE + unat ?ps = frame_size ?ps" "0 < frame_size ?ps" using ps by (simp_all add: frame_size_eq FRAME_HEADER_SIZE_def)
  have start: "WAL_HEADER_SIZE + w_n_frames u * frame_size ?ps = length pre"
    using frame_at_length [OF ps sz length_wal_header, of ?h] l by (simp add: pre_def nf frame_at_def)
  let ?b0 = "\<lparr>b_file = w_file u, b_cursor = 0, b_out = [], b_flushed = 0, b_chain = w_checksum u, b_before_last = None,
               b_last_at = None, b_last_id = 0, b_offsets = []\<rparr>"
  have "batch_inv crc ?h ?ps pre tail (w_checksum u) [] ?b0" by (simp add: batch_inv_def batch_last_def fl)
  from batch_pages [OF this ps d] obtain b gs where b: "fold_outcome (batch_page crc ?h ?ps (length pre)) ?b0 pages = Ok b"
      "batch_inv crc ?h ?ps pre tail (w_checksum u) gs b" "pages_of gs = dirty_pages pages" by auto
  have k: "b_flushed b \<le> length gs - 1" and szg: "sized ?ps gs" and out: "b_out b = enc_frames (drop (b_flushed b) gs)"
    and chg: "chained crc ?h (w_checksum u) gs" and umg: "unmarked gs" using b(2) by (simp_all add: batch_inv_def)
  have lg: "length gs = length (dirty_pages pages)" using arg_cong [OF b(3), of length] by (simp add: pages_of_def)
  have offs: "b_offsets b = map (\<lambda>i. (page_of (gs ! i), frame_at ?ps (length (com @ cur) + i))) [0..<length gs]"
    using b(2) start by (auto simp: batch_inv_def frame_at_def nf add_mult_distrib)
  show ?thesis
  proof (cases "gs = []")
    case True
    then have "append_batch crc w pages [] = Ok (u, [], map (\<lambda>(p, dirty, d). (p, False, d)) pages)"
      using pg ps0 u(1) b(1) k out offs pu start fs(1) by (simp add: append_batch_def v_def Let_def)
    then show ?thesis using True u(2,4-6) v(4) um b(3) pu by (intro exI [of _ u] exI [of _ cur'] exI [of _ "[]"]) simp
  next
    case False
    define hs where "hs = mark_last crc ?h (w_checksum u) gs"
    have hs: "length hs = length gs" "hs \<noteq> []" "fr_commit (fst (last hs)) \<noteq> 0" "sized ?ps hs" "chained crc ?h (w_checksum u) hs" "pages_of hs = dirty_pages pages"
      using False szg chg b(3) by (simp_all add: hs_def mark_last_simps sized_mark_last chained_mark_last pages_of_mark_last)
    let ?k = "b_flushed b" and ?out = "enc_frames (drop (b_flushed b) hs)"
    define b' where "b' = b\<lparr>b_chain := chain_end crc (w_checksum u) hs, b_out := ?out\<rparr>"
    have fx: "batch_fixup crc ?h ?ps b = Ok b'" using batch_fixup_inv [OF b(2) ps False] by (simp add: hs_def b'_def)
    have tk: "take ?k hs = take ?k gs" using take_drop_mark_last(1) [OF k False] by (simp add: hs_def)
    have lo: "length ?out = (length gs - ?k) * frame_size ?ps" using length_enc_frames [OF ps sized_drop [OF hs(4)]] hs(1) by simp
    have lt: "length (enc_frames (take ?k gs)) = ?k * frame_size ?ps" using length_enc_frames [OF ps sized_take [OF szg]] k by simp
    have wn: "?k + length ?out div frame_size ?ps = length gs" using lo fs(2) k by simp
    have cu: "(if ?k = 0 then length pre else b_cursor b) = length (pre @ enc_frames (take ?k gs))" using b(2) lt by (auto simp: batch_inv_def)
    have "b_file b = (pre @ enc_frames (take ?k gs)) @ drop (?k * frame_size ?ps) tail" using b(2) by (simp add: batch_inv_def)
    then have "write_at (b_file b) ?out (if ?k = 0 then length pre else b_cursor b)
        = (pre @ enc_frames (take ?k hs)) @ ?out @ drop (length ?out) (drop (?k * frame_size ?ps) tail)"
      using write_over_tail [OF cu] by (simp add: tk)
    also have "\<dots> = pre @ enc_frames (take ?k hs @ drop ?k hs) @ drop (length ?out + ?k * frame_size ?ps) tail" by (simp del: append_take_drop_id)
    also have "length ?out + ?k * frame_size ?ps = length hs * frame_size ?ps" unfolding lo hs(1) add_mult_distrib [symmetric] using k by simp
    finally have wr: "write_at (b_file b) ?out (if ?k = 0 then length pre else b_cursor b)
        = wal_header_encode ?h @ enc_frames (com @ cur' @ hs) @ drop (length hs * frame_size ?ps) tail" by (simp add: pre_def)
    let ?w' = "u\<lparr>w_checksum := chain_end crc (w_checksum u) hs, w_file := wal_header_encode ?h @ enc_frames (com @ cur' @ hs) @ drop (length hs * frame_size ?ps) tail,
      w_n_frames := length (com @ cur' @ hs), w_uncommitted := Map.empty\<rparr>"
    have inv': "wal_inv crc used ?w' (com @ cur' @ hs) [] (drop (length hs * frame_size ?ps) tail)"
      using commit_frame_inv [OF u(2,6,3), of hs] hs n l lg pu by simp
    have po: "map (\<lambda>i. (page_of (hs ! i), frame_at ?ps (length (com @ cur) + i))) [0..<length hs] = b_offsets b"
    proof -
      have "page_of (hs ! i) = page_of (gs ! i)" if "i < length gs" for i
        using arg_cong [OF trans [OF hs(6) b(3) [symmetric]], of "\<lambda>x. fst (x ! i)"] that hs(1) by (simp add: pages_of_def)
      then show ?thesis unfolding offs hs(1) by (intro map_cong) simp_all
    qed
    have wm: "(?k + length ?out div frame_size ?ps) mod 2 ^ 32 = length hs" using wn n lg hs(1) by (simp add: b'_def)
    have nm: "(w_n_frames u + length hs) mod 2 ^ 32 = length (com @ cur' @ hs)" using nf n lg hs(1) l by simp
    have "enc_frames gs \<noteq> []" using False fs(2) length_enc_frames [OF ps szg] by (metis length_0_conv mult_eq_0_iff neq0_conv)
    then have "\<not> (b_out b = [] \<and> ?k = 0)" using out by (metis drop0)
    then have "append_batch crc w pages [] = Ok (?w', b_offsets b, map (\<lambda>(p, dirty, d). (p, False, d)) pages)"
      using append_batch_result [OF pu fs(1) start pg ps0 u(1) [unfolded v_def] b(1) _ fx [unfolded b'_def] wm nm _ wr] hs(2) by simp
    then show ?thesis using inv' hs(2,6) u(4-6) v(4) um umg pu po False
      by (intro exI [of _ ?w'] exI [of _ cur'] exI [of _ hs]) (auto simp: hs_def mark_last_simps unmarked_def list_all_iff dest: in_set_butlastD)
  qed
qed

end
