(* ===== verification/Wal_Spec.thy ===== *)
theory Wal_Spec
  imports Wal_Batch
begin

text \<open>
  The promise of the write-ahead log: a store of pages with a committed and a working version,
  which runs of the log's operations, of resets and of crashes followed by a reopening implement.
\<close>

subsection \<open>The abstract store\<close>

record page_store =
  st_committed :: "u32 \<rightharpoonup> bytes"
  st_working :: "u32 \<rightharpoonup> bytes"

datatype wal_event =
    Append u32 bytes bool
  | Spill u32 bytes
  | Batch "(u32 \<times> bool \<times> bytes) list"
  | Reset u32 u32
  | ResetKeep u32 u32
  | Reopen bool u32 u32 u32 u32

definition put_pages :: "(u32 \<rightharpoonup> bytes) \<Rightarrow> (u32 \<times> bytes) list \<Rightarrow> u32 \<rightharpoonup> bytes" where
  "put_pages m ps = foldl (\<lambda>m (p, d). m(p \<mapsto> d)) m ps"

text \<open>A batch with nothing dirty commits nothing, not even the frames that wait.\<close>

fun spec_step :: "page_store \<Rightarrow> wal_event \<Rightarrow> page_store" where
  "spec_step s (Append p d commit) =
     (let m = (st_working s)(p \<mapsto> d) in \<lparr>st_committed = (if commit then m else st_committed s), st_working = m\<rparr>)"
| "spec_step s (Spill p d) = s\<lparr>st_working := (st_working s)(p \<mapsto> d)\<rparr>"
| "spec_step s (Batch pages) =
     (if dirty_pages pages = [] then s
      else let m = put_pages (st_working s) (dirty_pages pages) in \<lparr>st_committed = m, st_working = m\<rparr>)"
| "spec_step s (Reset s1 s2) = \<lparr>st_committed = Map.empty, st_working = Map.empty\<rparr>"
| "spec_step s (ResetKeep s1 s2) = \<lparr>st_committed = Map.empty, st_working = Map.empty\<rparr>"
| "spec_step s (Reopen t s1 s2 s3 s4) = s\<lparr>st_working := st_committed s\<rparr>"

definition empty_store :: page_store where
  "empty_store = \<lparr>st_committed = Map.empty, st_working = Map.empty\<rparr>"

definition spec_run :: "wal_event list \<Rightarrow> page_store" where
  "spec_run evs = foldl spec_step empty_store evs"

fun wal_step :: "crc_fun \<Rightarrow> wal \<Rightarrow> wal_event \<Rightarrow> wal outcome" where
  "wal_step crc w (Append p d commit) = bind_outcome (append crc w p d commit) (\<lambda>(w', _). Ok w')"
| "wal_step crc w (Spill p d) = bind_outcome (spill crc w p d) (\<lambda>(w', _). Ok w')"
| "wal_step crc w (Batch pages) = bind_outcome (append_batch crc w pages []) (\<lambda>(w', _, _). Ok w')"
| "wal_step crc w (Reset s1 s2) = Ok (reset_synced crc s1 s2 w)"
| "wal_step crc w (ResetKeep s1 s2) = Ok (reset_keep_size_synced crc s1 s2 w)"
| "wal_step crc w (Reopen t s1 s2 s3 s4) = open_impl crc s1 s2 s3 s4 (w_file w) (w_page_size w) t"

text \<open>
  What a caller has to respect: pages of the page size, fewer than \<open>2^32\<close> frames, and salts that no
  earlier generation of the log had. The first component lists the salts drawn so far, the
  second bounds the number of frames.
\<close>

fun event_ok :: "u32 \<Rightarrow> wal_event \<Rightarrow> bool" where
  "event_ok ps (Append p d commit) = (length d = unat ps)"
| "event_ok ps (Spill p d) = (length d = unat ps)"
| "event_ok ps (Batch pages) = list_all (\<lambda>(p, dirty, d). dirty \<longrightarrow> length d = unat ps) pages"
| "event_ok ps _ = True"

fun event_frames :: "wal_event \<Rightarrow> nat" where
  "event_frames (Append p d commit) = 1"
| "event_frames (Spill p d) = 1"
| "event_frames (Batch pages) = length (dirty_pages pages)"
| "event_frames _ = 0"

fun event_salts :: "wal_event \<Rightarrow> (u32 \<times> u32) list" where
  "event_salts (Reset s1 s2) = [(s1, s2)]"
| "event_salts (ResetKeep s1 s2) = [(s1, s2)]"
| "event_salts (Reopen t s1 s2 s3 s4) = [(s3, s4)]"
| "event_salts _ = []"

fun admit :: "u32 \<Rightarrow> (u32 \<times> u32) list \<times> nat \<Rightarrow> wal_event \<Rightarrow> ((u32 \<times> u32) list \<times> nat) option" where
  "admit ps (used, n) e =
     (if event_ok ps e \<and> n + event_frames e < 2 ^ 32 \<and> list_all (\<lambda>s. s \<notin> set used) (event_salts e)
      then Some (event_salts e @ used, n + event_frames e) else None)"

fun admit_all :: "('r \<Rightarrow> 'e \<Rightarrow> 'r option) \<Rightarrow> 'r \<Rightarrow> 'e list \<Rightarrow> 'r option" where
  "admit_all f r [] = Some r"
| "admit_all f r (e # es) = (case f r e of None \<Rightarrow> None | Some r' \<Rightarrow> admit_all f r' es)"

subsection \<open>Simulations\<close>

text \<open>
  A fallible step function that follows a specification for as long as its callers respect a
  protocol never fails on a run that does, and ends where the specification ends.
\<close>

locale protocol_simulation =
  fixes step :: "'s \<Rightarrow> 'e \<Rightarrow> 's outcome"
    and spec :: "'a \<Rightarrow> 'e \<Rightarrow> 'a"
    and allow :: "'r \<Rightarrow> 'e \<Rightarrow> 'r option"
    and rel :: "'r \<Rightarrow> 's \<Rightarrow> 'a \<Rightarrow> bool"
  assumes simulates: "rel r s a \<Longrightarrow> allow r e = Some r' \<Longrightarrow> \<exists>s'. step s e = Ok s' \<and> rel r' s' (spec a e)"
begin

lemma run_simulates:
  "rel r s a \<Longrightarrow> admit_all allow r es = Some r' \<Longrightarrow> \<exists>s'. fold_outcome step s es = Ok s' \<and> rel r' s' (foldl spec a es)"
proof (induction es arbitrary: r s a)
  case (Cons e es)
  then obtain r1 where r1: "allow r e = Some r1" "admit_all allow r1 es = Some r'" by (auto split: option.splits)
  with simulates [OF Cons.prems(1)] obtain s1 where "step s e = Ok s1" "rel r1 s1 (spec a e)" by blast
  with Cons.IH [OF _ r1(2)] show ?case by auto
qed simp

lemma run_never_fails: "rel r s a \<Longrightarrow> admit_all allow r es = Some r' \<Longrightarrow> fold_outcome step s es \<noteq> Panic"
  using run_simulates by fastforce

end

subsection \<open>The log implements the store\<close>

lemma view_append: "view (fs @ gs) = put_pages (view fs) (pages_of gs)"
  by (simp add: view_pages put_pages_def)

lemma put_pages_simps [simp]: "put_pages m [] = m" "put_pages m ((p, d) # ps) = put_pages (m(p \<mapsto> d)) ps"
  by (simp_all add: put_pages_def)

lemma tail_ok_mono: "tail_ok used h ps tail \<Longrightarrow> used \<subseteq> used' \<Longrightarrow> tail_ok used' h ps tail"
  unfolding tail_ok_def by blast

lemma wal_inv_mono: "wal_inv crc used w com cur tail \<Longrightarrow> used \<subseteq> used' \<Longrightarrow> wal_inv crc used' w com cur tail"
  unfolding wal_inv_def using tail_ok_mono by blast

text \<open>The writing operations extend the committed frames and keep the header.\<close>

fun is_write :: "wal_event \<Rightarrow> bool" where
  "is_write (Append p d commit) = True"
| "is_write (Spill p d) = True"
| "is_write (Batch pages) = True"
| "is_write _ = False"

definition wrote :: "crc_fun \<Rightarrow> (u32 \<times> u32) set \<Rightarrow> wal \<Rightarrow> pframe list \<Rightarrow> pframe list \<Rightarrow> bytes \<Rightarrow> wal_event \<Rightarrow> wal
    \<Rightarrow> pframe list \<Rightarrow> pframe list \<Rightarrow> bytes \<Rightarrow> bool" where
  "wrote crc used w com cur tail e w' new cur' tail' \<longleftrightarrow>
     wal_inv crc used w' (com @ new) cur' tail' \<and> w_page_size w' = w_page_size w \<and> w_header w' = w_header w
     \<and> length (com @ new @ cur') \<le> length (com @ cur) + event_frames e \<and> length cur \<le> length (new @ cur')
     \<and> unmarked (butlast (new @ cur')) \<and> (tail = [] \<longrightarrow> tail' = []) \<and> (w_header_dirty w' \<longrightarrow> w_header_dirty w)
     \<and> spec_step \<lparr>st_committed = view com, st_working = view (com @ cur)\<rparr> e = \<lparr>st_committed = view (com @ new), st_working = view (com @ new @ cur')\<rparr>"

lemma unmarked_butlast: "unmarked fs \<Longrightarrow> unmarked (butlast fs)"
  by (auto simp: unmarked_def list_all_iff dest: in_set_butlastD)

lemma wal_inv_unmarked: "wal_inv crc used w com cur tail \<Longrightarrow> unmarked (butlast cur)"
  unfolding wal_inv_def by (blast intro: unmarked_butlast)

lemma wal_inv_dirty: "wal_inv crc used w com cur tail \<Longrightarrow> com @ cur \<noteq> [] \<Longrightarrow> \<not> w_header_dirty w"
  unfolding wal_inv_def by blast

lemma append_wrote:
  assumes inv: "wal_inv crc used w com cur tail" and d: "length d = unat (w_page_size w)" and n: "length (com @ cur) + 1 < 2 ^ 32"
  shows "\<exists>w' new cur' tail'. wal_step crc w (Append p d commit) = Ok w' \<and> wrote crc used w com cur tail (Append p d commit) w' new cur' tail'"
proof (cases commit)
  case True
  from append_commit_inv [OF inv d n, of p] obtain w' off f cur' where f: "append crc w p d True = Ok (w', off)"
      "wal_inv crc used w' (com @ cur' @ [f]) [] (drop (frame_size (w_page_size w)) tail)" "page_of f = p" "snd f = d"
      "pages_of cur' = pages_of cur" "w_page_size w' = w_page_size w" "w_header w' = w_header w" "unmarked cur'" by blast
  have l: "length cur' = length cur" using arg_cong [OF f(5), of length] by (simp add: pages_of_def)
  have "view (com @ cur' @ [f]) = (view (com @ cur))(p \<mapsto> d)" unfolding view_append using f(3-5) by (simp add: put_pages_def)
  then have "wrote crc used w com cur tail (Append p d True) w' (cur' @ [f]) [] (drop (frame_size (w_page_size w)) tail)"
    using f(2,6-8) l wal_inv_dirty [OF f(2)] by (simp add: wrote_def Let_def)
  moreover have "wal_step crc w (Append p d True) = Ok w'" using f(1) by simp
  moreover have "commit = True" using True by simp
  ultimately show ?thesis by blast
next
  case False
  from append_pending_inv [OF inv d n, of p] obtain w' off f where f: "append crc w p d False = Ok (w', off)"
      "wal_inv crc used w' com (cur @ [f]) (drop (frame_size (w_page_size w)) tail)" "page_of f = p" "snd f = d"
      "w_page_size w' = w_page_size w" "w_header w' = w_header w" by blast
  have "view (com @ cur @ [f]) = (view (com @ cur))(p \<mapsto> d)" unfolding view_append using f(3,4) by (simp add: put_pages_def)
  then have "wrote crc used w com cur tail (Append p d False) w' [] (cur @ [f]) (drop (frame_size (w_page_size w)) tail)"
    using f(2,5,6) wal_inv_unmarked [OF f(2)] wal_inv_dirty [OF f(2)] by (simp add: wrote_def)
  moreover have "wal_step crc w (Append p d False) = Ok w'" using f(1) by simp
  moreover have "commit = False" using False by simp
  ultimately show ?thesis by blast
qed

lemma batch_wrote:
  assumes inv: "wal_inv crc used w com cur tail" and ps0: "w_page_size w \<noteq> 0" and d: "event_ok (w_page_size w) (Batch pages)"
    and n: "length (com @ cur) + length (dirty_pages pages) < 2 ^ 32"
  shows "\<exists>w' new cur' tail'. wal_step crc w (Batch pages) = Ok w' \<and> wrote crc used w com cur tail (Batch pages) w' new cur' tail'"
proof (cases "pages = []")
  case True
  then have "wal_step crc w (Batch pages) = Ok w" "wrote crc used w com cur tail (Batch pages) w [] cur tail"
    using inv by (simp_all add: append_batch_def wrote_def wal_inv_unmarked)
  then show ?thesis by blast
next
  case False
  have "\<forall>(p, dirty, d) \<in> set pages. dirty \<longrightarrow> length d = unat (w_page_size w)" using d by (auto simp: list_all_iff)
  from append_batch_inv [OF inv ps0 False this n] obtain w' cur' gs offs cl where g: "append_batch crc w pages [] = Ok (w', offs, cl)"
      "pages_of gs = dirty_pages pages" "pages_of cur' = pages_of cur" "w_page_size w' = w_page_size w" "w_header w' = w_header w"
      "if gs = [] then wal_inv crc used w' com cur' tail
       else wal_inv crc used w' (com @ cur' @ gs) [] (drop (length gs * frame_size (w_page_size w)) tail)" "unmarked cur'" "unmarked (butlast gs)" "\<not> w_header_dirty w'" by blast
  have l: "length cur' = length cur" "length gs = length (dirty_pages pages)"
    using arg_cong [OF g(3), of length] arg_cong [OF g(2), of length] by (simp_all add: pages_of_def)
  have st: "wal_step crc w (Batch pages) = Ok w'" using g(1) by simp
  have vw: "view (com @ cur') = view (com @ cur)" unfolding view_append g(3) ..
  show ?thesis
  proof (cases "gs = []")
    case True
    then have "wrote crc used w com cur tail (Batch pages) w' [] cur' tail" using g(4-6,9) l vw by (simp add: wrote_def wal_inv_unmarked)
    then show ?thesis using st by blast
  next
    case False
    then have "view (com @ cur' @ gs) = put_pages (view (com @ cur)) (dirty_pages pages)"
      using view_append [of "com @ cur'" gs] vw g(2) by simp
    then have "wrote crc used w com cur tail (Batch pages) w' (cur' @ gs) [] (drop (length gs * frame_size (w_page_size w)) tail)"
      using False g(4-9) l by (auto simp: wrote_def Let_def butlast_append)
    then show ?thesis using st by blast
  qed
qed

lemma write_step:
  assumes inv: "wal_inv crc used w com cur tail" and ps0: "w_page_size w \<noteq> 0" and e: "is_write e" "event_ok (w_page_size w) e"
    and n: "length (com @ cur) + event_frames e < 2 ^ 32"
  shows "\<exists>w' new cur' tail'. wal_step crc w e = Ok w' \<and> wrote crc used w com cur tail e w' new cur' tail'"
proof (cases e)
  case (Append p d commit)
  then show ?thesis using append_wrote [OF inv] e n by simp
next
  case (Spill p d)
  then have "length d = unat (w_page_size w)" "length (com @ cur) + 1 < 2 ^ 32" using e n by simp_all
  from spill_inv [OF inv this, of p] obtain w' off cur' tail' where s: "spill crc w p d = Ok (w', off)" "wal_inv crc used w' com cur' tail'"
      "view (com @ cur') = (view (com @ cur))(p \<mapsto> d)" "w_page_size w' = w_page_size w" "w_header w' = w_header w" "length cur' \<le> length cur + 1" "length cur \<le> length cur'" "tail = [] \<longrightarrow> tail' = []" by blast
  have "com @ cur' \<noteq> []"
  proof
    assume "com @ cur' = []"
    then show False using fun_cong [OF s(3), of p] by simp
  qed
  then have "wrote crc used w com cur tail e w' [] cur' tail'" using s(2-) wal_inv_dirty [OF s(2)] by (simp add: wrote_def Spill wal_inv_unmarked)
  then show ?thesis using s(1) Spill by (intro exI [of _ w'] exI [of _ "[]"] exI [of _ cur'] exI [of _ tail']) simp
next
  case (Batch pages)
  then show ?thesis using batch_wrote [OF inv ps0] e n by simp
qed (use e in simp_all)

lemma header_new_simps [simp]: "wh_magic (wal_header_new crc s1 s2 ps) = WAL_MAGIC" "wh_page_size (wal_header_new crc s1 s2 ps) = ps"
    "wh_salt1 (wal_header_new crc s1 s2 ps) = s1" "wh_salt2 (wal_header_new crc s1 s2 ps) = s2"
  by (simp_all add: wal_header_new_def crc32_def)

lemma tail_ok_Nil: "page_size_fits ps \<Longrightarrow> tail_ok used h ps []"
  unfolding tail_ok_def by (intro exI [of _ "[]"]) (simp add: frame_size_eq)

lemma fresh_log_inv:
  assumes "page_size_fits ps" "w_page_size w = ps" "(s1, s2) \<in> used" "tail_ok used (wal_header_new crc s1 s2 ps) ps tail"
    and "w_header w = wal_header_new crc s1 s2 ps" "w_file w = (if w_header_dirty w then [] else wal_header_encode (w_header w) @ tail)"
    and "w_header_dirty w \<longrightarrow> tail = []" "w_n_frames w = 0" "w_checksum w = header_chain (w_header w)" "w_uncommitted w = Map.empty" "w_recksum_from w = None"
  shows "wal_inv crc used w [] [] tail"
  using assms by (auto simp: wal_inv_def chain_inv_def committed_log_def)

lemma reset_inv:
  assumes "wal_inv crc used w com cur tail"
  shows "wal_inv crc (insert (s1, s2) used) (reset_synced crc s1 s2 w) [] [] []"
  using assms by (intro fresh_log_inv) (auto simp: wal_inv_def reset_synced_def Let_def tail_ok_Nil set_len_def write_at_def)

lemma keep_size_tail:
  assumes inv: "wal_inv crc used w com cur tail" and fresh: "(s1, s2) \<notin> used" and nd: "\<not> w_header_dirty w"
  shows "tail_ok (insert (s1, s2) used) (wal_header_new crc s1 s2 (w_page_size w)) (w_page_size w) (enc_frames (com @ cur) @ tail)"
proof -
  let ?h = "w_header w"
  obtain stale part where t: "tail = enc_frames stale @ part" "length part < frame_size (w_page_size w)" "sized (w_page_size w) stale"
      "\<forall>f \<in> set stale. (fr_salt1 (fst f), fr_salt2 (fst f)) \<in> used" using inv by (auto simp: wal_inv_def tail_ok_def)
  have "\<forall>f \<in> set (com @ cur). (fr_salt1 (fst f), fr_salt2 (fst f)) = (wh_salt1 ?h, wh_salt2 ?h)"
    using inv chained_salts [of crc ?h "header_chain ?h" com] by (auto simp: wal_inv_def salted_def committed_log_def)
  moreover have "(wh_salt1 ?h, wh_salt2 ?h) \<in> used" using inv by (simp add: wal_inv_def)
  ultimately have salts: "\<forall>f \<in> set (com @ cur @ stale). (fr_salt1 (fst f), fr_salt2 (fst f)) \<in> used"
    using t(4) unfolding set_append by (metis UnE UnCI)
  then have "idle (wal_header_new crc s1 s2 (w_page_size w)) (com @ cur @ stale)" using fresh unfolding idle_def by fastforce
  then show ?thesis unfolding tail_ok_def using t(1-3) salts inv
    by (intro exI [of _ "com @ cur @ stale"] exI [of _ part]) (auto simp: wal_inv_def)
qed

lemma reset_keep_inv:
  assumes inv: "wal_inv crc used w com cur tail" and fresh: "(s1, s2) \<notin> used"
  shows "\<exists>tail'. wal_inv crc (insert (s1, s2) used) (reset_keep_size_synced crc s1 s2 w) [] [] tail'"
proof (cases "w_header_dirty w")
  case True
  then have "wal_inv crc (insert (s1, s2) used) (reset_keep_size_synced crc s1 s2 w) [] [] []"
    using inv by (intro fresh_log_inv) (auto simp: wal_inv_def reset_keep_size_synced_def Let_def tail_ok_Nil write_at_def)
  then show ?thesis ..
next
  case False
  have "wal_inv crc (insert (s1, s2) used) (reset_keep_size_synced crc s1 s2 w) [] [] (enc_frames (com @ cur) @ tail)"
    using inv False keep_size_tail [OF inv fresh False]
    by (intro fresh_log_inv) (auto simp: wal_inv_def reset_keep_size_synced_def Let_def write_at_def)
  then show ?thesis ..
qed

lemma open_empty:
  assumes "page_size_fits ps"
  shows "\<exists>w. open_impl crc s1 s2 s3 s4 [] ps t = Ok w \<and> wal_inv crc {(s3, s4)} w [] [] [] \<and> w_page_size w = ps"
proof -
  define w where "w = \<lparr>w_file = [], w_header = wal_header_new crc s3 s4 ps, w_page_size = ps, w_checksum = header_chain (wal_header_new crc s3 s4 ps),
      w_n_frames = 0, w_header_dirty = True, w_uncommitted = Map.empty, w_recksum_from = None\<rparr>"
  have "open_impl crc s1 s2 s3 s4 [] ps t = Ok w" by (simp add: open_impl_def recover_def Let_def w_def)
  moreover have "wal_inv crc {(s3, s4)} w [] [] []" by (rule fresh_log_inv) (simp_all add: w_def assms tail_ok_Nil)
  ultimately show ?thesis by (intro exI [of _ w]) (simp add: w_def)
qed

lemma open_log:
  assumes h: "wh_magic h = WAL_MAGIC" "page_size_fits (wh_page_size h)" "(wh_salt1 h, wh_salt2 h) \<in> used"
    and log: "committed_log crc h com" "sized (wh_page_size h) com" "length com < 2 ^ 32"
    and rest: "idle h fs" "sized (wh_page_size h) fs" "\<forall>f \<in> set fs. (fr_salt1 (fst f), fr_salt2 (fst f)) \<in> used" "length part < frame_size (wh_page_size h)"
  shows "\<exists>v tail. open_impl crc s1 s2 s3 s4 (wal_header_encode h @ enc_frames (com @ fs) @ part) ps t = Ok v \<and> wal_inv crc used v com [] tail
    \<and> w_page_size v = wh_page_size h \<and> w_header v = h \<and> \<not> w_header_dirty v"
proof -
  let ?file = "wal_header_encode h @ enc_frames (com @ fs) @ part"
  let ?w = "\<lparr>w_file = ?file, w_header = wal_header_new crc s1 s2 ps, w_page_size = ps, w_checksum = (0, 0),
        w_n_frames = 0, w_header_dirty = False, w_uncommitted = Map.empty, w_recksum_from = None\<rparr>"
  have fl: "w_file ?w = ?file" and sz: "sized (wh_page_size h) (com @ fs)" using log(2) rest(2) by simp_all
  from recover_log [OF fl h(1,2) log(1) rest(1) sz rest(4) log(3), of s3 s4 t] obtain tail where
      tail: "tail \<in> {[], enc_frames fs @ part}" and r: "recover crc s3 s4 t ?w = Ok (?w\<lparr>w_file := wal_header_encode h @ enc_frames com @ tail, w_header := h,
        w_page_size := wh_page_size h, w_checksum := chain_end crc (header_chain h) com, w_n_frames := length com,
        w_uncommitted := Map.empty, w_recksum_from := None\<rparr>)" (is "_ = Ok ?v") by blast
  have "tail_ok used h (wh_page_size h) tail" using tail
  proof (elim insertE emptyE)
    assume "tail = enc_frames fs @ part"
    then show ?thesis using rest unfolding tail_ok_def by blast
  qed (simp add: tail_ok_Nil h(2))
  then have "wal_inv crc used ?v com [] tail" using h log by (auto simp: wal_inv_def chain_inv_def committed_log_def)
  moreover have "open_impl crc s1 s2 s3 s4 ?file ps t = Ok ?v" unfolding open_impl_def by (rule r)
  ultimately show ?thesis by (intro exI [of _ ?v] exI [of _ tail]) simp
qed

lemma reopen_inv:
  assumes inv: "wal_inv crc used w com cur tail"
  shows "\<exists>v tail'. open_impl crc s1 s2 s3 s4 (w_file w) (w_page_size w) t = Ok v \<and> wal_inv crc (insert (s3, s4) used) v com [] tail'
    \<and> w_page_size v = w_page_size w \<and> (w_header_dirty w \<or> w_header v = w_header w \<and> \<not> w_header_dirty v)"
proof (cases "w_header_dirty w")
  case True
  then have "w_file w = []" "com = []" "page_size_fits (w_page_size w)" using inv by (auto simp: wal_inv_def)
  moreover from open_empty [OF this(3), of crc s1 s2 s3 s4 t] obtain v where "open_impl crc s1 s2 s3 s4 [] (w_page_size w) t = Ok v"
      "wal_inv crc {(s3, s4)} v [] [] []" "w_page_size v = w_page_size w" by blast
  ultimately show ?thesis using True wal_inv_mono [of crc "{(s3, s4)}" v "[]" "[]" "[]" "insert (s3, s4) used"] by auto
next
  case False
  let ?h = "w_header w"
  obtain stale part where t: "tail = enc_frames stale @ part" "length part < frame_size (w_page_size w)" "sized (w_page_size w) stale" "idle ?h stale"
      "\<forall>f \<in> set stale. (fr_salt1 (fst f), fr_salt2 (fst f)) \<in> used" using inv by (auto simp: wal_inv_def tail_ok_def)
  have fl: "w_file w = wal_header_encode ?h @ enc_frames (com @ cur @ stale) @ part" using inv False t(1) by (simp add: wal_inv_def)
  have i: "idle ?h (cur @ stale)" "\<forall>f \<in> set (cur @ stale). (fr_salt1 (fst f), fr_salt2 (fst f)) \<in> used"
    using inv t(4,5) by (auto simp: wal_inv_def unmarked_def list_all_iff idle_def salted_def)
  have "\<exists>v tail'. open_impl crc s1 s2 s3 s4 (wal_header_encode ?h @ enc_frames (com @ cur @ stale) @ part) (w_page_size w) t = Ok v \<and> wal_inv crc used v com [] tail'
    \<and> w_page_size v = wh_page_size ?h \<and> w_header v = ?h \<and> \<not> w_header_dirty v"
    using inv i t(2,3) by (intro open_log) (auto simp: wal_inv_def)
  then obtain v tail' where "open_impl crc s1 s2 s3 s4 (w_file w) (w_page_size w) t = Ok v" "wal_inv crc used v com [] tail'"
    "w_page_size v = wh_page_size ?h" "w_header v = ?h" "\<not> w_header_dirty v" unfolding fl [symmetric] by blast
  moreover from this(2) have "wal_inv crc (insert (s3, s4) used) v com [] tail'" by (rule wal_inv_mono) blast
  moreover have "wh_page_size ?h = w_page_size w" using inv by (simp add: wal_inv_def)
  ultimately show ?thesis by metis
qed

definition wal_rel :: "crc_fun \<Rightarrow> u32 \<Rightarrow> (u32 \<times> u32) list \<times> nat \<Rightarrow> wal \<Rightarrow> page_store \<Rightarrow> bool" where
  "wal_rel crc ps r w st \<longleftrightarrow> (\<exists>com cur tail. wal_inv crc (set (fst r)) w com cur tail \<and> w_page_size w = ps \<and> ps \<noteq> 0
     \<and> length (com @ cur) \<le> snd r \<and> st = \<lparr>st_committed = view com, st_working = view (com @ cur)\<rparr>)"

lemma wal_relI: "wal_inv crc (set used) w com cur tail \<Longrightarrow> w_page_size w = ps \<Longrightarrow> ps \<noteq> 0 \<Longrightarrow> length (com @ cur) \<le> n
    \<Longrightarrow> st = \<lparr>st_committed = view com, st_working = view (com @ cur)\<rparr> \<Longrightarrow> wal_rel crc ps (used, n) w st"
  unfolding wal_rel_def by auto

lemma wal_step_rel:
  assumes rel: "wal_rel crc ps r w st" and ok: "admit ps r e = Some r'"
  shows "\<exists>w'. wal_step crc w e = Ok w' \<and> wal_rel crc ps r' w' (spec_step st e)"
proof -
  obtain used n where r: "r = (used, n)" by (cases r)
  from rel obtain com cur tail where inv: "wal_inv crc (set used) w com cur tail" and ps: "w_page_size w = ps" "ps \<noteq> 0"
      and n: "length (com @ cur) \<le> n" and st: "st = \<lparr>st_committed = view com, st_working = view (com @ cur)\<rparr>" by (auto simp: wal_rel_def r)
  have e: "event_ok ps e" "n + event_frames e < 2 ^ 32" "\<forall>x \<in> set (event_salts e). x \<notin> set used" "r' = (event_salts e @ used, n + event_frames e)"
    using ok by (auto simp: r list_all_iff split: if_splits)
  show ?thesis
  proof (cases "is_write e")
    case True
    then have "event_salts e = []" by (cases e) simp_all
    moreover from write_step [OF inv _ True] ps e(1,2) n obtain w' new cur' tail' where "wal_step crc w e = Ok w'"
        "wrote crc (set used) w com cur tail e w' new cur' tail'" by (metis add_le_mono1 le_less_trans)
    ultimately show ?thesis using e(4) ps n st unfolding wrote_def
      by (intro exI [of _ w']) (auto intro!: wal_relI [of crc used w' "com @ new" cur' tail'])
  next
    case False
    then consider (reset) s1 s2 where "e = Reset s1 s2" | (keep) s1 s2 where "e = ResetKeep s1 s2" | (crash) t s1 s2 s3 s4 where "e = Reopen t s1 s2 s3 s4"
      by (cases e) auto
    then show ?thesis
    proof cases
      case reset
      then show ?thesis using reset_inv [OF inv, of s1 s2] e(4) ps n
        by (auto intro!: wal_relI [of crc _ _ "[]" "[]" "[]"] simp: reset_synced_def Let_def)
    next
      case keep
      then have "(s1, s2) \<notin> set used" using e(3) by simp
      from reset_keep_inv [OF inv this] obtain tail' where "wal_inv crc (insert (s1, s2) (set used)) (reset_keep_size_synced crc s1 s2 w) [] [] tail'" ..
      then show ?thesis using keep e(4) ps n by (auto intro!: wal_relI [of crc _ _ "[]" "[]" tail'] simp: reset_keep_size_synced_def Let_def)
    next
      case crash
      from reopen_inv [OF inv, of s1 s2 s3 s4 t] obtain v tail' where "open_impl crc s1 s2 s3 s4 (w_file w) (w_page_size w) t = Ok v"
          "wal_inv crc (insert (s3, s4) (set used)) v com [] tail'" "w_page_size v = w_page_size w" by blast
      then show ?thesis using crash e(4) ps n st by (auto intro!: wal_relI [of crc _ _ com "[]" tail'])
    qed
  qed
qed

interpretation wal_log: protocol_simulation "wal_step crc" spec_step "admit ps" "wal_rel crc ps" for crc ps
  by unfold_locales (rule wal_step_rel)

lemma lookup_committed:
  assumes inv: "wal_inv crc used w com [] tail"
  shows "wal_lookup w p = Ok (view com p)"
proof (cases "w_header_dirty w")
  case True
  then have "com = []" "w_n_frames w = 0" using inv by (auto simp: wal_inv_def)
  then show ?thesis by (simp add: wal_lookup_def committed_page_map_def)
next
  case False
  have "chained crc (w_header w) (header_chain (w_header w)) com" using inv by (simp add: wal_inv_def committed_log_def)
  then have "\<forall>f \<in> set com. fr_salt1 (fst f) = wh_salt1 (w_header w) \<and> fr_salt2 (fst f) = wh_salt2 (w_header w)" using chained_salts by blast
  then show ?thesis using inv False by (intro wal_lookup_view [where hdr = "wal_header_encode (w_header w)"]) (auto simp: wal_inv_def)
qed

lemma empty_rel:
  assumes "page_size_fits ps" "ps \<noteq> 0"
  shows "\<exists>w0. open_impl crc s1 s2 s3 s4 [] ps t = Ok w0 \<and> wal_rel crc ps ([(s3, s4)], 0) w0 empty_store"
  using open_empty [OF assms(1), of crc s1 s2 s3 s4 t] assms(2)
  by (auto simp: empty_store_def intro!: wal_relI [of crc "[(s3, s4)]" _ "[]" "[]" "[]"])

lemma run_rel:
  assumes "page_size_fits ps" "ps \<noteq> 0" "admit_all (admit ps) ([(s3, s4)], 0) evs = Some r"
  shows "\<exists>w0 w. open_impl crc s1 s2 s3 s4 [] ps t = Ok w0 \<and> fold_outcome (wal_step crc) w0 evs = Ok w \<and> wal_rel crc ps r w (spec_run evs)"
  using empty_rel [OF assms(1,2), of crc s1 s2 s3 s4 t] wal_log.run_simulates [OF _ assms(3)] unfolding spec_run_def by blast

definition wal_run :: "crc_fun \<Rightarrow> u32 \<Rightarrow> u32 \<Rightarrow> u32 \<Rightarrow> wal_event list \<Rightarrow> wal outcome" where
  "wal_run crc salt1 salt2 ps evs = bind_outcome (open_impl crc 0 0 salt1 salt2 [] ps True) (\<lambda>w. fold_outcome (wal_step crc) w evs)"

lemma wal_run_rel:
  assumes "page_size_fits ps" "ps \<noteq> 0" "admit_all (admit ps) ([(salt1, salt2)], 0) evs = Some r"
  shows "\<exists>w. wal_run crc salt1 salt2 ps evs = Ok w \<and> wal_rel crc ps r w (spec_run evs)"
  using run_rel [OF assms, of crc 0 0 True] unfolding wal_run_def by auto

text \<open>
  C8: A log that starts as an empty file and goes through any sequence of appends, spills, batch
  commits, resets of both kinds and crashes followed by a reopening, with pages of the right size
  and fresh salts, never fails; and whatever the file then holds, opening it again finds exactly
  the pages of the committed transactions, with or without truncation of what is torn. No
  property of the checksum function is used.
\<close>

theorem wal_recovers_committed:
  assumes "page_size_fits ps" "ps \<noteq> 0" "admit_all (admit ps) ([(salt1, salt2)], 0) evs = Some r"
  shows "\<exists>w. wal_run crc salt1 salt2 ps evs = Ok w \<and>
    (\<forall>t a b c d. \<exists>v. open_impl crc a b c d (w_file w) ps t = Ok v \<and> (\<forall>p. wal_lookup v p = Ok (st_committed (spec_run evs) p)))"
proof -
  from wal_run_rel [OF assms, of crc] obtain w com cur tail where w: "wal_run crc salt1 salt2 ps evs = Ok w" "wal_inv crc (set (fst r)) w com cur tail"
      "w_page_size w = ps" "spec_run evs = \<lparr>st_committed = view com, st_working = view (com @ cur)\<rparr>" by (auto simp: wal_rel_def)
  have "\<exists>v. open_impl crc a b c d (w_file w) ps t = Ok v \<and> (\<forall>p. wal_lookup v p = Ok (st_committed (spec_run evs) p))" for t a b c d
    using reopen_inv [OF w(2), of a b c d t] lookup_committed w(3,4) by (metis page_store.select_convs(1))
  then show ?thesis using w(1) by blast
qed

theorem wal_recovers_committed_witness:
  "\<exists>w. wal_run (\<lambda>i bs. i + of_nat (length bs)) 1 2 2 [Append 5 [1, 2] False, Spill 5 [3, 4], Append 6 [5, 6] True, Spill 6 [7, 7],
      Reopen True 0 0 3 4, Batch [(7, True, [8, 8]), (5, False, [])]] = Ok w
    \<and> (\<exists>v. open_impl (\<lambda>i bs. i + of_nat (length bs)) 0 0 0 0 (w_file w) 2 False = Ok v
         \<and> wal_lookup v 5 = Ok (Some [3, 4]) \<and> wal_lookup v 6 = Ok (Some [5, 6]) \<and> wal_lookup v 7 = Ok (Some [8, 8]))"
proof -
  let ?crc = "(\<lambda>i bs. i + of_nat (length bs)) :: crc_fun"
  let ?evs = "[Append 5 [1, 2] False, Spill 5 [3, 4], Append 6 [5, 6] True, Spill 6 [7, 7], Reopen True 0 0 3 4, Batch [(7, True, [8, 8]), (5, False, [])]]"
  have ps: "page_size_fits 2" "(2 :: u32) \<noteq> 0" by (simp_all add: page_size_fits_def)
  have ok: "admit_all (admit 2) ([(1, 2)], 0) ?evs = Some ([(3, 4), (1, 2)], 5)" by simp
  have st: "st_committed (spec_run ?evs) = [5 \<mapsto> [3, 4], 6 \<mapsto> [5, 6], 7 \<mapsto> [8, 8]]"
    by (simp add: spec_run_def empty_store_def Let_def)
  from wal_recovers_committed [OF ps ok, of ?crc] obtain w where w: "wal_run ?crc 1 2 2 ?evs = Ok w"
      "\<exists>v. open_impl ?crc 0 0 0 0 (w_file w) 2 False = Ok v \<and> (\<forall>p. wal_lookup v p = Ok (st_committed (spec_run ?evs) p))" by blast
  from w(2) obtain v where v: "open_impl ?crc 0 0 0 0 (w_file w) 2 False = Ok v" "\<forall>p. wal_lookup v p = Ok (st_committed (spec_run ?evs) p)" by blast
  have "wal_lookup v 5 = Ok (Some [3, 4])" "wal_lookup v 6 = Ok (Some [5, 6])" "wal_lookup v 7 = Ok (Some [8, 8])" unfolding v(2) [rule_format] st by simp_all
  then show ?thesis using w(1) v(1) by blast
qed

end
