(* ===== verification/Wal_Crash.thy ===== *)
theory Wal_Crash
  imports Wal_Spec
begin

text \<open>
  What is left of the log's file when a crash interrupts a write, and what the walk over
  the frames of a reopened log hands out.
\<close>

subsection \<open>Interrupted writes\<close>

lemma cut_frames:
  assumes ps: "page_size_fits ps" and sz: "sized ps gs" and m: "m < length (enc_frames gs)"
  shows "\<exists>part. take m (enc_frames gs) = enc_frames (take (m div frame_size ps) gs) @ part \<and> length part < frame_size ps \<and> m div frame_size ps < length gs"
proof -
  let ?fs = "frame_size ps"
  let ?j = "m div ?fs"
  have fs: "0 < ?fs" using ps by (simp add: frame_size_eq)
  have j: "?j < length gs" using m fs length_enc_frames [OF ps sz] by (simp add: less_mult_imp_div_less)
  have "m = ?j * ?fs + m mod ?fs" by simp
  then have "take m (enc_frames gs) = take (?j * ?fs) (enc_frames gs) @ take (m mod ?fs) (drop (?j * ?fs) (enc_frames gs))" by (metis take_add)
  moreover have "take (?j * ?fs) (enc_frames gs) = enc_frames (take ?j gs)" using j by (intro enc_frames_take [OF ps sz]) simp
  moreover have "length (take (m mod ?fs) (drop (?j * ?fs) (enc_frames gs))) < ?fs" using fs by (simp add: min.strict_coboundedI2)
  ultimately show ?thesis using j by auto
qed

lemma unmarked_take: "unmarked (butlast fs) \<Longrightarrow> i < length fs \<Longrightarrow> unmarked (take i fs)"
  by (auto simp: unmarked_def list_all_iff take_butlast [symmetric] dest: in_set_takeD)

lemma unmarked_idle: "unmarked fs \<Longrightarrow> idle h fs"
  by (auto simp: unmarked_def list_all_iff idle_def)

lemma torn_file:
  assumes inv: "wal_inv crc used w com cur []" and wr: "wrote crc used w com cur [] e w' new cur' []" and ps: "w_page_size w = ps"
    and m: "length (w_file w) \<le> m" "m < length (w_file w')" "m = 0 \<or> WAL_HEADER_SIZE \<le> m"
  shows "\<exists>v. open_impl crc a b c d (take m (w_file w')) ps t = Ok v \<and> (\<forall>p. wal_lookup v p = Ok (view com p))"
proof -
  let ?fs = "new @ cur'" and ?h = "w_header w"
  have w': "wal_inv crc used w' (com @ new) cur' []" "w_page_size w' = ps" "w_header w' = ?h" "length cur \<le> length ?fs" "unmarked (butlast ?fs)"
    using wr ps by (simp_all add: wrote_def)
  have psf: "page_size_fits ps" and h: "wh_magic ?h = WAL_MAGIC" "wh_page_size ?h = ps" and com: "committed_log crc ?h com" "sized ps com" "length com < 2 ^ 32"
    using inv ps by (auto simp: wal_inv_def)
  have nd: "\<not> w_header_dirty w'" using m(2) w'(1) by (auto simp: wal_inv_def)
  have fl: "w_file w' = wal_header_encode ?h @ enc_frames (com @ ?fs)" and sz: "sized ps (com @ ?fs)" using w'(1-3) nd by (auto simp: wal_inv_def)
  show ?thesis
  proof (cases "m = 0")
    case True
    then have "w_file w = []" using m(1) by simp
    then have "com = []" using inv by (auto simp: wal_inv_def split: if_splits)
    from open_empty [OF psf, of crc a b c d t] obtain v where "open_impl crc a b c d [] ps t = Ok v" "wal_inv crc {(c, d)} v [] [] []" by blast
    then show ?thesis using True \<open>com = []\<close> lookup_committed by (intro exI [of _ v]) simp
  next
    case False
    define k where "k = m - 32"
    have m': "m = 32 + k" using False m(3) by (simp add: k_def WAL_HEADER_SIZE_def)
    have k: "k < length (enc_frames (com @ ?fs))" using m(2) fl m' by simp
    from cut_frames [OF psf sz this] obtain part where part: "take k (enc_frames (com @ ?fs)) = enc_frames (take (k div frame_size ps) (com @ ?fs)) @ part"
      "length part < frame_size ps" "k div frame_size ps < length (com @ ?fs)" by blast
    define j where "j = k div frame_size ps - length com"
    have cj: "length com \<le> k div frame_size ps"
    proof (cases "w_header_dirty w")
      case True
      then show ?thesis using inv by (simp add: wal_inv_def)
    next
      case False
      then have "length com * frame_size ps \<le> k"
        using m(1) inv ps length_enc_frames [OF psf com(2)] m' by (simp add: wal_inv_def)
      then have "length com * frame_size ps div frame_size ps \<le> k div frame_size ps" by (rule div_le_mono)
      then show ?thesis using part(2) by simp
    qed
    have tk: "take (k div frame_size ps) (com @ ?fs) = com @ take j ?fs" "j < length ?fs" using cj part(3) by (simp_all add: j_def)
    have img: "take m (w_file w') = wal_header_encode ?h @ enc_frames (com @ take j ?fs) @ part"
      unfolding fl m' using part(1) unfolding tk(1) by simp
    have "\<exists>v tail. open_impl crc a b c d (wal_header_encode ?h @ enc_frames (com @ take j ?fs) @ part) ps t = Ok v \<and> wal_inv crc UNIV v com [] tail
        \<and> w_page_size v = wh_page_size ?h \<and> w_header v = ?h \<and> \<not> w_header_dirty v"
      using h psf com unmarked_idle [OF unmarked_take [OF w'(5) tk(2)]] sz part(2) by (intro open_log) (auto simp: sized_def dest: in_set_takeD)
    then show ?thesis unfolding img using lookup_committed by blast
  qed
qed

lemma admit_all_append: "admit_all f r (xs @ ys) = (case admit_all f r xs of None \<Rightarrow> None | Some r' \<Rightarrow> admit_all f r' ys)"
  by (induction xs arbitrary: r) (simp_all split: option.split)

definition no_leftover :: "wal \<Rightarrow> bool" where
  "no_leftover w \<longleftrightarrow> length (w_file w) = (if w_header_dirty w then 0 else frame_at (w_page_size w) (w_n_frames w))"

lemma no_leftover_tail:
  assumes "wal_inv crc used w com cur tail"
  shows "no_leftover w \<longleftrightarrow> tail = []"
proof (cases "w_header_dirty w")
  case True
  then show ?thesis using assms by (auto simp: wal_inv_def no_leftover_def)
next
  case False
  then have fl: "w_file w = (wal_header_encode (w_header w) @ enc_frames (com @ cur)) @ tail" using assms by (simp add: wal_inv_def)
  have "frame_at (w_page_size w) (w_n_frames w) = length (wal_header_encode (w_header w) @ enc_frames (com @ cur))"
    using assms frame_at_length [of "w_page_size w" "com @ cur" "wal_header_encode (w_header w)"] by (simp add: wal_inv_def)
  then show ?thesis using False unfolding no_leftover_def fl by simp
qed

text \<open>A run of the log and one more write after it.\<close>

lemma run_then_write:
  assumes ps: "page_size_fits ps" "ps \<noteq> 0" and ok: "admit_all (admit ps) ([(salt1, salt2)], 0) (evs @ [e]) = Some r" and e: "is_write e"
    and w: "wal_run crc salt1 salt2 ps evs = Ok w" "wal_step crc w e = Ok w'"
  shows "\<exists>used com cur tail new cur' tail'. wal_inv crc used w com cur tail \<and> w_page_size w = ps \<and> wrote crc used w com cur tail e w' new cur' tail'
    \<and> spec_run evs = \<lparr>st_committed = view com, st_working = view (com @ cur)\<rparr>"
proof -
  obtain used n where u: "admit_all (admit ps) ([(salt1, salt2)], 0) evs = Some (used, n)" "admit ps (used, n) e = Some r"
    using ok by (auto simp: admit_all_append split: option.splits)
  from wal_run_rel [OF ps u(1), of crc] w(1) obtain com cur tail where inv: "wal_inv crc (set used) w com cur tail" "w_page_size w = ps" "length (com @ cur) \<le> n"
      "spec_run evs = \<lparr>st_committed = view com, st_working = view (com @ cur)\<rparr>" by (auto simp: wal_rel_def)
  have "event_ok ps e" "length (com @ cur) + event_frames e < 2 ^ 32" using u(2) inv(3) by (auto split: if_splits)
  with write_step [OF inv(1) _ e] ps(2) inv(2) w(2) obtain new cur' tail' where "wrote crc (set used) w com cur tail e w' new cur' tail'" by fastforce
  then show ?thesis using inv by blast
qed

text \<open>
  A crash inside the very first write of the log, that of its header, leaves a file of one to
  thirty-one bytes. Opening such a file is an error, whatever the bytes: the log is not discarded
  and started again.
\<close>

lemma torn_header_refused:
  assumes "0 < length bs" "length bs < WAL_HEADER_SIZE"
  shows "\<exists>e. open_impl crc s1 s2 s3 s4 bs ps t = Err e"
  using assms by (simp add: open_impl_def recover_def Let_def read_exact_at_def read_full_short ok_or_def)

text \<open>
  C9: A crash in the middle of an append, a spill or a batch commit loses nothing but that
  operation, but for the header. After any admissible run that left no stale bytes at the end of
  the file, cut the file the next write produces anywhere at or past the end of the old one, short
  of its full length: reopening finds the pages committed before the write, unless the cut goes
  through the header of a log that was empty; a file of one to thirty-one bytes does not open.
\<close>

theorem torn_write_rolls_back:
  assumes "page_size_fits ps" "ps \<noteq> 0" "admit_all (admit ps) ([(salt1, salt2)], 0) (evs @ [e]) = Some r" "is_write e"
    and "wal_run crc salt1 salt2 ps evs = Ok w" "wal_step crc w e = Ok w'" "no_leftover w"
    and "length (w_file w) \<le> m" "m < length (w_file w')"
  shows "if 0 < m \<and> m < 32 then \<exists>e. open_impl crc a b c d (take m (w_file w')) ps t = Err e
    else \<exists>v. open_impl crc a b c d (take m (w_file w')) ps t = Ok v \<and> (\<forall>p. wal_lookup v p = Ok (st_committed (spec_run evs) p))"
proof -
  from run_then_write [OF assms(1-6)] obtain used com cur tail new cur' tail' where i: "wal_inv crc used w com cur tail" "w_page_size w = ps"
      "wrote crc used w com cur tail e w' new cur' tail'" "spec_run evs = \<lparr>st_committed = view com, st_working = view (com @ cur)\<rparr>" by blast
  have "tail = []" "tail' = []" using i(1,3) no_leftover_tail assms(7) by (auto simp: wrote_def)
  then have i': "wal_inv crc used w com cur []" "wrote crc used w com cur [] e w' new cur' []" using i by simp_all
  have m: "length (take m (w_file w')) = m" using assms(9) by simp
  show ?thesis
  proof (cases "0 < m \<and> m < 32")
    case True
    then show ?thesis using torn_header_refused [of "take m (w_file w')" crc a b c d ps t] unfolding m by (simp add: WAL_HEADER_SIZE_def)
  next
    case False
    then have "m = 0 \<or> WAL_HEADER_SIZE \<le> m" by (auto simp: WAL_HEADER_SIZE_def)
    from torn_file [OF i' i(2) assms(8,9) this, of a b c d t] show ?thesis unfolding if_not_P [OF False] i(4) by simp
  qed
qed

lemmas wal_eval = wal_run_def open_impl_def recover_def Let_def append_def materialize_header_def rechain_def write_at_def
  frame_at_def frame_size_def WAL_HEADER_SIZE_def

theorem torn_write_rolls_back_witness:
  "\<exists>w w'. wal_run (\<lambda>i bs. i + of_nat (length bs)) 7 8 2 [Append 5 [1, 2] True] = Ok w
    \<and> wal_step (\<lambda>i bs. i + of_nat (length bs)) w (Append 6 [3, 4] True) = Ok w' \<and> length (w_file w) < 59 \<and> 59 < length (w_file w')
    \<and> (\<exists>v. open_impl (\<lambda>i bs. i + of_nat (length bs)) 0 0 0 0 (take 59 (w_file w')) 2 True = Ok v
         \<and> wal_lookup v 5 = Ok (Some [1, 2]) \<and> wal_lookup v 6 = Ok None)"
proof -
  let ?crc = "(\<lambda>i bs. i + of_nat (length bs)) :: crc_fun"
  have ps: "page_size_fits 2" "(2 :: u32) \<noteq> 0" by (simp_all add: page_size_fits_def)
  have ok: "admit_all (admit 2) ([(7, 8)], 0) ([Append 5 [1, 2] True] @ [Append 6 [3, 4] True]) = Some ([(7, 8)], 2)" by simp
  obtain w where w: "wal_run ?crc 7 8 2 [Append 5 [1, 2] True] = Ok w" and nl: "no_leftover w" and l: "length (w_file w) = 58"
    by (simp add: wal_eval no_leftover_def)
  have "\<exists>w'. wal_run ?crc 7 8 2 ([Append 5 [1, 2] True] @ [Append 6 [3, 4] True]) = Ok w' \<and> length (w_file w') = 84"
    by (simp add: wal_eval)
  then obtain w' where w': "wal_step ?crc w (Append 6 [3, 4] True) = Ok w'" and l': "length (w_file w') = 84"
    using w unfolding wal_run_def by (auto simp: fold_outcome_append bind_outcome_eq_Ok)
  obtain v where v: "open_impl ?crc 0 0 0 0 (take 59 (w_file w')) 2 True = Ok v" "\<forall>p. wal_lookup v p = Ok (st_committed (spec_run [Append 5 [1, 2] True]) p)"
    using torn_write_rolls_back [OF ps ok _ w w' nl, of 59 0 0 0 0 True] l l' by (auto simp del: wal_step.simps)
  have "st_committed (spec_run [Append 5 [1, 2] True]) = [5 \<mapsto> [1, 2]]" by (simp add: spec_run_def empty_store_def Let_def)
  then have "wal_lookup v 5 = Ok (Some [1, 2])" "wal_lookup v 6 = Ok None" using v(2) by simp_all
  moreover have "length (w_file w) < 59" "59 < length (w_file w')" using l l' by simp_all
  ultimately show ?thesis using w w' v(1) by blast
qed

subsection \<open>The walk over the frames\<close>

lemma frames_loop_frames:
  assumes "page_size_fits ps" "sized ps fs" "length hdr = 32" "sized ps gs" "chained crc h c gs"
  shows "frames_loop crc (hdr @ enc_frames fs @ enc_frames gs @ rest) ps [length fs..<length fs + length gs] c
    = Ok (map (\<lambda>f. (page_of f, snd f, fr_commit (fst f) \<noteq> 0)) gs)"
  using assms
proof (induction gs arbitrary: fs c)
  case (Cons g gs)
  let ?file = "hdr @ enc_frames fs @ enc_frame g @ enc_frames gs @ rest"
  have rd: "read_exact_at ?file FRAME_HEADER_SIZE (frame_at ps (length fs)) = Ok (frame_header_encode (fst g))"
      "read_exact_at ?file (unat ps) (frame_at ps (length fs) + FRAME_HEADER_SIZE) = Ok (snd g)"
    using Cons.prems by (simp_all add: read_exact_at_def ok_or_def read_frame_header read_frame_page)
  have up: "[length fs..<length fs + length (g # gs)] = length fs # [length (fs @ [g])..<length (fs @ [g]) + length gs]"
    by (subst upt_conv_Cons) simp_all
  have f: "hdr @ enc_frames fs @ enc_frames (g # gs) @ rest = hdr @ enc_frames (fs @ [g]) @ enc_frames gs @ rest" by simp
  have ih: "frames_loop crc (hdr @ enc_frames (fs @ [g]) @ enc_frames gs @ rest) ps [length (fs @ [g])..<length (fs @ [g]) + length gs] (frame_sum crc c g)
      = Ok (map (\<lambda>f. (page_of f, snd f, fr_commit (fst f) \<noteq> 0)) gs)"
    using Cons.prems by (intro Cons.IH) simp_all
  have "crc32 crc (fst c) (snd c) (take 8 (frame_header_encode (fst g)) @ snd g) = frame_sum crc c g" by (simp add: frame_sum_def take8_frame_header)
  moreover have "fst (frame_sum crc c g) = fr_checksum1 (fst g)" "snd (frame_sum crc c g) = fr_checksum2 (fst g)"
    using Cons.prems by (simp_all add: frame_ok_def prod_eq_iff)
  ultimately have "frames_loop crc ?file ps (length fs # is) c = Ok ((page_of g, snd g, fr_commit (fst g) \<noteq> 0) # xs)"
    if "frames_loop crc ?file ps is (frame_sum crc c g) = Ok xs" for "is" xs
    using rd that by (simp add: Let_def frame_header_decode_encode page_of_def)
  from this [OF ih [folded f, unfolded enc_frames_simps append_assoc]] show ?case unfolding up by simp
qed simp

lemma replay_committed:
  assumes inv: "wal_inv crc used w com [] tail"
  shows "for_each_frame crc w = Ok (map (\<lambda>f. (page_of f, snd f, fr_commit (fst f) \<noteq> 0)) com)"
proof (cases "w_header_dirty w")
  case True
  then have "com = []" "w_n_frames w = 0" using inv by (auto simp: wal_inv_def)
  then show ?thesis by (simp add: for_each_frame_def)
next
  case False
  then have fl: "w_file w = wal_header_encode (w_header w) @ enc_frames [] @ enc_frames com @ tail" and nf: "w_n_frames w = 0 + length com"
    and i: "page_size_fits (w_page_size w)" "sized (w_page_size w) com" "chained crc (w_header w) (header_chain (w_header w)) com"
    using inv by (simp_all add: wal_inv_def committed_log_def)
  from frames_loop_frames [OF i(1) sized_simps(1) length_wal_header i(2,3), of "w_header w" tail]
  show ?thesis unfolding for_each_frame_def fl nf by (simp only: list.size(3))
qed

text \<open>
  C11: Two ways to read a log agree. After any admissible run, reopen the log: the frames that
  \<^verbatim>\<open>for_each_frame\<close> hands out, put in their order, give exactly the committed pages, and they give for
  every page what the committed page map and \<^verbatim>\<open>read_frame_at\<close> give.
\<close>

theorem frame_walk_is_page_map:
  assumes "page_size_fits ps" "ps \<noteq> 0" "admit_all (admit ps) ([(salt1, salt2)], 0) evs = Some r"
  shows "\<exists>w v frames. wal_run crc salt1 salt2 ps evs = Ok w \<and> open_impl crc a b c d (w_file w) ps t = Ok v \<and> for_each_frame crc v = Ok frames
    \<and> put_pages Map.empty (map (\<lambda>(p, d, _). (p, d)) frames) = st_committed (spec_run evs)
    \<and> (\<forall>p. wal_lookup v p = Ok (put_pages Map.empty (map (\<lambda>(p, d, _). (p, d)) frames) p))"
proof -
  from wal_run_rel [OF assms, of crc] obtain w com cur tail where w: "wal_run crc salt1 salt2 ps evs = Ok w" "wal_inv crc (set (fst r)) w com cur tail"
      "w_page_size w = ps" "spec_run evs = \<lparr>st_committed = view com, st_working = view (com @ cur)\<rparr>" by (auto simp: wal_rel_def)
  from reopen_inv [OF w(2), of a b c d t] w(3) obtain v used tail' where v: "open_impl crc a b c d (w_file w) ps t = Ok v" "wal_inv crc used v com [] tail'" by blast
  have "put_pages Map.empty (map (\<lambda>(p, d, _). (p, d)) (map (\<lambda>f. (page_of f, snd f, fr_commit (fst f) \<noteq> 0)) com)) = view com"
    by (simp add: view_pages put_pages_def pages_of_def comp_def)
  then show ?thesis using w(1,4) v(1) replay_committed [OF v(2)] lookup_committed [OF v(2)] by auto
qed

theorem frame_walk_is_page_map_witness:
  "\<exists>w v frames. wal_run (\<lambda>i bs. i + of_nat (length bs)) 7 8 2 [Spill 5 [1, 2], Append 6 [3, 4] True, Spill 5 [9, 9]] = Ok w
    \<and> open_impl (\<lambda>i bs. i + of_nat (length bs)) 0 0 0 0 (w_file w) 2 True = Ok v \<and> for_each_frame (\<lambda>i bs. i + of_nat (length bs)) v = Ok frames
    \<and> put_pages Map.empty (map (\<lambda>(p, d, _). (p, d)) frames) = [5 \<mapsto> [1, 2], 6 \<mapsto> [3, 4]]"
proof -
  have ps: "page_size_fits 2" "(2 :: u32) \<noteq> 0" by (simp_all add: page_size_fits_def)
  have ok: "admit_all (admit 2) ([(7, 8)], 0) [Spill 5 [1, 2], Append 6 [3, 4] True, Spill 5 [9, 9]] = Some ([(7, 8)], 3)" by simp
  have st: "st_committed (spec_run [Spill 5 [1, 2], Append 6 [3, 4] True, Spill 5 [9, 9]]) = [5 \<mapsto> [1, 2], 6 \<mapsto> [3, 4]]"
    by (simp add: spec_run_def empty_store_def Let_def)
  show ?thesis using frame_walk_is_page_map [OF ps ok, of "\<lambda>i bs. i + of_nat (length bs)" 0 0 0 0 True] unfolding st by blast
qed

end
