(* ===== verification/Wal_Reader.thy ===== *)
theory Wal_Reader
  imports Wal_Crash
begin

text \<open>
  A reader of a log that another connection writes: \<^verbatim>\<open>absorb_foreign_growth\<close> walks the frames past
  those the reader knows and moves it to the last commit among them.
\<close>

lemma scan_valid: "(scan_frames crc h i gs (s\<lparr>sc_last_valid := x\<rparr>))\<lparr>sc_last_valid := y\<rparr> = (scan_frames crc h i gs s)\<lparr>sc_last_valid := y\<rparr>"
proof (induction gs arbitrary: i s x)
  case (Cons g gs)
  show ?case by (simp add: Let_def)
qed simp

lemma salts_differ_here:
  assumes "page_size_fits ps" "sized ps fs" "length hdr = 32"
  shows "salts_differ (hdr @ enc_frames fs @ enc_frame f @ rest) h (frame_at ps (length fs))
    \<longleftrightarrow> (fr_salt1 (fst f), fr_salt2 (fst f)) \<noteq> (wh_salt1 h, wh_salt2 h)"
  using read_frame_header [OF assms, of f rest] by (auto simp: salts_differ_def frame_header_decode_encode)

lemma absorb_loop_frames:
  assumes "page_size_fits ps" "sized ps fs" "length hdr = 32" "sized ps gs" "salted h gs"
  shows "absorb_loop crc (hdr @ enc_frames fs @ enc_frames gs @ rest) h ps [length fs..<length fs + length gs] s
    = Some ((scan_frames crc h (length fs) gs s)\<lparr>sc_last_valid := sc_last_valid s\<rparr>)"
  using assms
proof (induction gs arbitrary: fs s)
  case (Cons g gs)
  let ?file = "hdr @ enc_frames fs @ enc_frame g @ enc_frames gs @ rest"
  have ck: "check_frame crc ?file h ps (sc_running s) (frame_at ps (length fs))
      = (if frame_ok crc h (sc_running s) g then Some (fst g, snd g, frame_sum crc (sc_running s) g) else None)"
    using Cons.prems by (intro check_frame_here) simp_all
  have sd: "\<not> salts_differ ?file h (frame_at ps (length fs))" using Cons.prems by (simp add: salts_differ_here)
  have up: "[length fs..<length fs + length (g # gs)] = length fs # [length (fs @ [g])..<length (fs @ [g]) + length gs]"
    by (subst upt_conv_Cons) simp_all
  have f: "hdr @ enc_frames fs @ enc_frames (g # gs) @ rest = hdr @ enc_frames (fs @ [g]) @ enc_frames gs @ rest" by simp
  have ih: "absorb_loop crc (hdr @ enc_frames (fs @ [g]) @ enc_frames gs @ rest) h ps [length (fs @ [g])..<length (fs @ [g]) + length gs] s'
      = Some ((scan_frames crc h (length (fs @ [g])) gs s')\<lparr>sc_last_valid := sc_last_valid s'\<rparr>)" for s'
    using Cons.prems by (intro Cons.IH) simp_all
  show ?case unfolding up f absorb_loop.simps using ck sd ih scan_valid by (simp add: Let_def)
qed simp

lemma visible_loop_frames:
  assumes "page_size_fits ps" "sized ps fs" "length hdr = 32" "sized ps gs"
  shows "visible_loop (hdr @ enc_frames fs @ enc_frames gs @ rest) ps [length fs..<length fs + length gs]
    = map (\<lambda>i. (page_of (gs ! i), frame_at ps (length fs + i))) [0..<length gs]"
  using assms
proof (induction gs arbitrary: fs)
  case (Cons g gs)
  have rd: "read_full (hdr @ enc_frames fs @ enc_frame g @ enc_frames gs @ rest) FRAME_HEADER_SIZE (frame_at ps (length fs)) = Some (frame_header_encode (fst g))"
    using Cons.prems by (intro read_frame_header) simp_all
  have up: "[length fs..<length fs + length (g # gs)] = length fs # [length (fs @ [g])..<length (fs @ [g]) + length gs]"
    by (subst upt_conv_Cons) simp_all
  have f: "hdr @ enc_frames fs @ enc_frames (g # gs) @ rest = hdr @ enc_frames (fs @ [g]) @ enc_frames gs @ rest" by simp
  have ih: "visible_loop (hdr @ enc_frames (fs @ [g]) @ enc_frames gs @ rest) ps [length (fs @ [g])..<length (fs @ [g]) + length gs]
      = map (\<lambda>i. (page_of (gs ! i), frame_at ps (length (fs @ [g]) + i))) [0..<length gs]"
    using Cons.prems by (intro Cons.IH) simp_all
  have sh: "map (\<lambda>i. (page_of ((g # gs) ! i), frame_at ps (length fs + i))) [0..<length (g # gs)]
      = (page_of g, frame_at ps (length fs)) # map (\<lambda>i. (page_of (gs ! i), frame_at ps (length (fs @ [g]) + i))) [0..<length gs]"
    by (simp add: upt_conv_Cons map_Suc_upt [symmetric] comp_def del: upt_Suc)
  show ?case unfolding up f visible_loop.simps sh using rd ih by (simp add: frame_header_decode_encode page_of_def)
qed simp

text \<open>The offsets handed over are those of the last frames.\<close>

lemma map_of_offsets:
  "map_of (rev (map (\<lambda>i. (page_of (gs ! i), frame_at ps (n + i))) [0..<length gs])) p = map_option (\<lambda>j. frame_at ps (n + j)) (last_index p gs)"
proof (induction gs rule: rev_induct)
  case (snoc g gs)
  have "map (\<lambda>i. (page_of ((gs @ [g]) ! i), frame_at ps (n + i))) [0..<length gs] = map (\<lambda>i. (page_of (gs ! i), frame_at ps (n + i))) [0..<length gs]"
    by (rule map_cong) (simp_all add: nth_append)
  then have e: "map (\<lambda>i. (page_of ((gs @ [g]) ! i), frame_at ps (n + i))) [0..<length (gs @ [g])]
      = map (\<lambda>i. (page_of (gs ! i), frame_at ps (n + i))) [0..<length gs] @ [(page_of g, frame_at ps (n + length gs))]"
    by (simp only: length_append list.size upt_Suc_append add_Suc_right add_0_right le0 map_append list.map nth_append_length)
  show ?case unfolding e using snoc by (simp add: last_index_append)
qed simp

text \<open>A reader that knows the committed frames \<open>com\<close> of the log in the file.\<close>

definition reads :: "crc_fun \<Rightarrow> wal_header \<Rightarrow> pframe list \<Rightarrow> wal \<Rightarrow> bool" where
  "reads crc h com r \<longleftrightarrow> w_header r = h \<and> w_page_size r = wh_page_size h \<and> w_n_frames r = length com \<and> w_checksum r = chain_end crc (header_chain h) com"

lemma inv_reads: "wal_inv crc used v com [] tail \<Longrightarrow> w_recksum_from v = None \<Longrightarrow> reads crc (w_header v) com v"
  by (simp add: wal_inv_def reads_def chain_inv_def)

lemma header_same: "wh_magic h = WAL_MAGIC \<Longrightarrow> header_changed (wal_header_encode h @ rest) h' \<longleftrightarrow> (wh_salt1 h, wh_salt2 h) \<noteq> (wh_salt1 h', wh_salt2 h')"
  using read_full_middle [of 0 "[]" WAL_HEADER_SIZE "wal_header_encode h" rest]
  by (auto simp: header_changed_def WAL_HEADER_SIZE_def wal_header_decode_encode)

lemma absorb_scan:
  assumes com: "committed_log crc h (com @ new)" and cur: "idle h cur" and n: "length (com @ new) < 2 ^ 32"
  defines "s \<equiv> scan_frames crc h (length com) (new @ cur)
      \<lparr>sc_running = chain_end crc (header_chain h) com, sc_last_valid = length com, sc_last_commit = length com, sc_last_chain = chain_end crc (header_chain h) com\<rparr>"
  shows "sc_last_commit s = length (com @ new) \<and> sc_last_chain s = chain_end crc (header_chain h) (com @ new)"
proof -
  define s0 where "s0 = \<lparr>sc_running = chain_end crc (header_chain h) com, sc_last_valid = length com, sc_last_commit = length com,
    sc_last_chain = chain_end crc (header_chain h) com\<rparr>"
  have c: "chained crc h (sc_running s0) new" using com by (simp add: committed_log_def chained_append s0_def)
  have "s = scan_frames crc h (length com + length new) cur (scan_frames crc h (length com) new s0)"
    using scan_append [OF c, of "length com" cur] by (simp add: s_def s0_def)
  then have p: "sc_last_commit s = sc_last_commit (scan_frames crc h (length com) new s0)" "sc_last_chain s = sc_last_chain (scan_frames crc h (length com) new s0)"
    using scan_pending [OF cur] by simp_all
  show ?thesis
  proof (cases "new = []")
    case True
    then show ?thesis using p by (simp add: s0_def)
  next
    case False
    then show ?thesis using scan_committed [OF c, of "length com"] p com n by (simp add: committed_log_def s0_def)
  qed
qed

lemma absorb_log:
  assumes inv: "wal_inv crc used w (com @ new) cur []" and nd: "\<not> w_header_dirty w" and r: "reads crc (w_header w) com r" "w_file r = w_file w"
  shows "\<exists>r' offs. absorb_foreign_growth crc r = (r', Some offs) \<and> reads crc (w_header w) (com @ new) r' \<and> w_file r' = w_file w
    \<and> offs = map (\<lambda>i. (page_of (new ! i), frame_at (w_page_size w) (length com + i))) [0..<length new]"
proof -
  let ?h = "w_header w" and ?ps = "w_page_size w"
  define u where "u = r\<lparr>w_uncommitted := Map.empty, w_recksum_from := None\<rparr>"
  have i: "wh_magic ?h = WAL_MAGIC" "wh_page_size ?h = ?ps" "page_size_fits ?ps" "sized ?ps com" "sized ?ps (new @ cur)" "committed_log crc ?h (com @ new)"
    "length (com @ new) < 2 ^ 32" "unmarked cur" "salted ?h cur" using inv by (simp_all add: wal_inv_def)
  have fl: "w_file w = wal_header_encode ?h @ enc_frames com @ enc_frames (new @ cur) @ []" using inv nd by (simp add: wal_inv_def)
  have u: "w_header u = ?h" "w_page_size u = ?ps" "w_n_frames u = length com" "w_checksum u = chain_end crc (header_chain ?h) com" "w_file u = w_file w"
    using r i(2) by (simp_all add: u_def reads_def)
  have "chained crc ?h (header_chain ?h) (com @ new)" using i(6) by (simp add: committed_log_def)
  then have salt: "salted ?h (new @ cur)" using chained_salted i(9) by fastforce
  have fs: "0 < frame_size ?ps" using i(3) by (simp add: frame_size_eq)
  have nf: "(length (w_file w) - WAL_HEADER_SIZE) div frame_size ?ps = length com + length (new @ cur)"
    unfolding fl using fs length_enc_frames [OF i(3,4)] length_enc_frames [OF i(3,5)]
    by (simp add: WAL_HEADER_SIZE_def add_mult_distrib [symmetric] del: enc_frames_simps)
  define s where "s = scan_frames crc ?h (length com) (new @ cur)
      \<lparr>sc_running = chain_end crc (header_chain ?h) com, sc_last_valid = length com, sc_last_commit = length com, sc_last_chain = chain_end crc (header_chain ?h) com\<rparr>"
  have sc: "sc_last_commit s = length (com @ new)" "sc_last_chain s = chain_end crc (header_chain ?h) (com @ new)"
    using absorb_scan [OF i(6) unmarked_idle [OF i(8)] i(7)] by (simp_all add: s_def)
  have loop: "absorb_loop crc (w_file w) ?h ?ps [length com..<length com + length (new @ cur)]
      \<lparr>sc_running = chain_end crc (header_chain ?h) com, sc_last_valid = length com, sc_last_commit = length com, sc_last_chain = chain_end crc (header_chain ?h) com\<rparr>
      = Some (s\<lparr>sc_last_valid := length com\<rparr>)"
    unfolding fl absorb_loop_frames [OF i(3,4) length_wal_header i(5) salt] s_def by simp
  have hc: "\<not> header_changed (w_file w) ?h" unfolding fl header_same [OF i(1)] by simp
  have vis: "visible_loop (w_file w) ?ps [length com..<length com + length new] = map (\<lambda>i. (page_of (new ! i), frame_at ?ps (length com + i))) [0..<length new]"
    using visible_loop_frames [OF i(3,4) length_wal_header, of new ?h "enc_frames cur"] i(5) by (simp add: fl)
  let ?r' = "u\<lparr>w_n_frames := length (com @ new), w_checksum := chain_end crc (header_chain ?h) (com @ new)\<rparr>"
  have "absorb_foreign_growth crc r = (?r', Some (map (\<lambda>i. (page_of (new ! i), frame_at ?ps (length com + i))) [0..<length new]))"
    unfolding absorb_foreign_growth_def Let_def u_def [symmetric] u nf loop if_not_P [OF hc] option.case
    using sc vis u by (cases "new = []") (simp_all add: u_def)
  moreover have "reads crc ?h (com @ new) ?r'" "w_file ?r' = w_file w" using u i(2) by (simp_all add: reads_def)
  ultimately show ?thesis by blast
qed

lemma reads_lookup:
  assumes "wal_inv crc used w com cur tail" "\<not> w_header_dirty w" "reads crc (w_header w) com r" "w_file r = w_file w"
  shows "wal_lookup r p = Ok (view com p)" "committed_page_map r = Ok (\<lambda>p. map_option (frame_at (w_page_size w)) (last_index p com))"
proof -
  have fl: "w_file r = wal_header_encode (w_header w) @ enc_frames com @ (enc_frames cur @ tail)" using assms by (simp add: wal_inv_def)
  have i: "w_n_frames r = length com" "page_size_fits (w_page_size r)" "sized (w_page_size r) com" "w_page_size r = w_page_size w" "w_header r = w_header w"
    using assms by (simp_all add: wal_inv_def reads_def)
  have "chained crc (w_header w) (header_chain (w_header w)) com" using assms(1) by (simp add: wal_inv_def committed_log_def)
  then show "wal_lookup r p = Ok (view com p)" using chained_salts i(5) by (intro wal_lookup_view [OF fl i(1-3)]) auto
  show "committed_page_map r = Ok (\<lambda>p. map_option (frame_at (w_page_size w)) (last_index p com))"
    using page_map_log [OF fl i(1-3)] i(4) by simp
qed

subsection \<open>A reader beside a writer\<close>

lemma run_writes:
  assumes "wal_inv crc (set used) w com cur tail" "w_page_size w \<noteq> 0" "length (com @ cur) \<le> n" "list_all is_write evs"
    and "admit_all (admit (w_page_size w)) (used, n) evs = Some r"
  shows "\<exists>w' new cur' tail'. fold_outcome (wal_step crc) w evs = Ok w' \<and> wal_inv crc (set used) w' (com @ new) cur' tail' \<and> w_header w' = w_header w
    \<and> (w_header_dirty w' \<longrightarrow> w_header_dirty w)
    \<and> foldl spec_step \<lparr>st_committed = view com, st_working = view (com @ cur)\<rparr> evs = \<lparr>st_committed = view (com @ new), st_working = view (com @ new @ cur')\<rparr>"
  using assms
proof (induction evs arbitrary: w com cur tail n)
  case Nil
  then show ?case by (intro exI [of _ w] exI [of _ "[]"] exI [of _ cur] exI [of _ tail]) simp
next
  case (Cons e evs)
  have e: "is_write e" "event_salts e = []" using Cons.prems(4) by (auto elim: is_write.elims)
  then have ad: "event_ok (w_page_size w) e" "n + event_frames e < 2 ^ 32" "admit_all (admit (w_page_size w)) (used, n + event_frames e) evs = Some r"
    using Cons.prems(5) by (auto split: option.splits if_splits)
  have "length (com @ cur) + event_frames e < 2 ^ 32" using ad(2) Cons.prems(3) by simp
  from write_step [OF Cons.prems(1,2) e(1) ad(1) this] obtain w1 new cur1 tail1 where w1: "wal_step crc w e = Ok w1" "wrote crc (set used) w com cur tail e w1 new cur1 tail1" by blast
  then have i: "wal_inv crc (set used) w1 (com @ new) cur1 tail1" "w_page_size w1 = w_page_size w" "w_header w1 = w_header w" "w_header_dirty w1 \<longrightarrow> w_header_dirty w"
      "length ((com @ new) @ cur1) \<le> n + event_frames e"
      "spec_step \<lparr>st_committed = view com, st_working = view (com @ cur)\<rparr> e = \<lparr>st_committed = view (com @ new), st_working = view ((com @ new) @ cur1)\<rparr>"
    using Cons.prems(3) by (auto simp: wrote_def)
  have "\<exists>w' new' cur' tail'. fold_outcome (wal_step crc) w1 evs = Ok w' \<and> wal_inv crc (set used) w' ((com @ new) @ new') cur' tail' \<and> w_header w' = w_header w1
      \<and> (w_header_dirty w' \<longrightarrow> w_header_dirty w1)
      \<and> foldl spec_step \<lparr>st_committed = view (com @ new), st_working = view ((com @ new) @ cur1)\<rparr> evs
         = \<lparr>st_committed = view ((com @ new) @ new'), st_working = view ((com @ new) @ new' @ cur')\<rparr>"
    using Cons.prems ad(3) i by (intro Cons.IH) simp_all
  then obtain w' new' cur' tail' where "fold_outcome (wal_step crc) w1 evs = Ok w'" "wal_inv crc (set used) w' (com @ (new @ new')) cur' tail'" "w_header w' = w_header w1"
      "w_header_dirty w' \<longrightarrow> w_header_dirty w1"
      "foldl spec_step \<lparr>st_committed = view (com @ new), st_working = view ((com @ new) @ cur1)\<rparr> evs
         = \<lparr>st_committed = view (com @ (new @ new')), st_working = view (com @ (new @ new') @ cur')\<rparr>" unfolding append_assoc by blast
  then show ?case using w1(1) i(3,4,6) by (intro exI [of _ w'] exI [of _ "new @ new'"] exI [of _ cur'] exI [of _ tail']) simp
qed

text \<open>
  C10: A reader catches up with a writer in one call, as long as the log only grows. It opened the
  log, not empty, after the first operations; the writer went on to append, spill and commit, did
  not reset the log, and its file ends with its last frame (after a reset that keeps the size, the
  stale frames behind the new ones make the walk answer that nothing was found). The walk over the grown file
  answers with the page offsets to add to the reader's page map, the map then is the committed page
  map of the log, and the reader finds for every page the version of the writer's last commit and
  nothing of the transaction in progress.
\<close>

theorem reader_catches_up:
  assumes "page_size_fits ps" "ps \<noteq> 0" "admit_all (admit ps) ([(salt1, salt2)], 0) (evs1 @ evs2) = Some r" "list_all is_write evs2"
    and "wal_run crc salt1 salt2 ps evs1 = Ok w1" "w_file w1 \<noteq> []" "fold_outcome (wal_step crc) w1 evs2 = Ok w2" "no_leftover w2"
    and "open_impl crc a b c d (w_file w1) ps False = Ok v"
  shows "\<exists>v' m offs. committed_page_map v = Ok m \<and> absorb_foreign_growth crc (v\<lparr>w_file := w_file w2\<rparr>) = (v', Some offs)
    \<and> committed_page_map v' = Ok (m ++ map_of (rev offs)) \<and> (\<forall>p. wal_lookup v' p = Ok (st_committed (spec_run (evs1 @ evs2)) p))"
proof -
  obtain used n where u: "admit_all (admit ps) ([(salt1, salt2)], 0) evs1 = Some (used, n)" "admit_all (admit ps) (used, n) evs2 = Some r"
    using assms(3) by (auto simp: admit_all_append split: option.splits)
  from wal_run_rel [OF assms(1,2) u(1), of crc] assms(5) obtain com cur tail where i: "wal_inv crc (set used) w1 com cur tail" "w_page_size w1 = ps" "length (com @ cur) \<le> n"
      "spec_run evs1 = \<lparr>st_committed = view com, st_working = view (com @ cur)\<rparr>" by (auto simp: wal_rel_def)
  have nd1: "\<not> w_header_dirty w1" using i(1) assms(6) by (auto simp: wal_inv_def)
  from run_writes [OF i(1) _ i(3) assms(4)] u(2) i(2) assms(2,7) obtain new cur' tail' where
      j: "wal_inv crc (set used) w2 (com @ new) cur' tail'" "w_header w2 = w_header w1" "w_header_dirty w2 \<longrightarrow> w_header_dirty w1"
        "foldl spec_step (spec_run evs1) evs2 = \<lparr>st_committed = view (com @ new), st_working = view (com @ new @ cur')\<rparr>" unfolding i(4) by fastforce
  have nd2: "\<not> w_header_dirty w2" and t: "tail' = []" using j(1,3) nd1 no_leftover_tail assms(8) by auto
  from reopen_inv [OF i(1), of a b c d False] nd1 assms(9) i(2) obtain tv where v: "wal_inv crc (insert (c, d) (set used)) v com [] tv" "w_header v = w_header w1" by auto
  have nr: "w_recksum_from v = None" using assms(9) by (auto simp: open_impl_def recover_def Let_def bind_outcome_eq_Ok reset_def reset_synced_def split: if_splits)
  have ndv: "\<not> w_header_dirty v" using assms(9) assms(6) by (auto simp: open_impl_def recover_def Let_def bind_outcome_eq_Ok reset_def reset_synced_def split: if_splits)
  have rv: "reads crc (w_header w1) com v" using inv_reads [OF v(1) nr] v(2) by simp
  then have "reads crc (w_header w2) com (v\<lparr>w_file := w_file w2\<rparr>)" by (simp add: reads_def j(2))
  from absorb_log [OF j(1) [unfolded t] nd2 this] obtain v' offs where ab: "absorb_foreign_growth crc (v\<lparr>w_file := w_file w2\<rparr>) = (v', Some offs)"
      "reads crc (w_header w2) (com @ new) v'" "w_file v' = w_file w2"
      "offs = map (\<lambda>i. (page_of (new ! i), frame_at (w_page_size w2) (length com + i))) [0..<length new]" by auto
  note m = reads_lookup(2) [OF v(1) ndv, of v, unfolded v(2), OF rv refl]
  note m' = reads_lookup [OF j(1) nd2 ab(2,3)]
  have "w_page_size v = w_page_size w2" using v j(1,2) by (simp add: wal_inv_def)
  then have "(\<lambda>p. map_option (frame_at (w_page_size w2)) (last_index p (com @ new)))
      = (\<lambda>p. map_option (frame_at (w_page_size v)) (last_index p com)) ++ map_of (rev offs)"
    unfolding ab(4) by (auto simp: fun_eq_iff map_add_def map_of_offsets last_index_append split: option.split)
  moreover have "spec_run (evs1 @ evs2) = foldl spec_step (spec_run evs1) evs2" by (simp add: spec_run_def)
  ultimately show ?thesis using m m' ab(1) j(4) by auto
qed

theorem reader_catches_up_witness:
  "\<exists>w1 w2 v v' offs. wal_run (\<lambda>i bs. i + of_nat (length bs)) 7 8 2 [Append 5 [1, 2] True] = Ok w1
    \<and> fold_outcome (wal_step (\<lambda>i bs. i + of_nat (length bs))) w1 [Append 6 [3, 4] True, Append 5 [9, 9] False] = Ok w2
    \<and> open_impl (\<lambda>i bs. i + of_nat (length bs)) 0 0 0 0 (w_file w1) 2 False = Ok v
    \<and> absorb_foreign_growth (\<lambda>i bs. i + of_nat (length bs)) (v\<lparr>w_file := w_file w2\<rparr>) = (v', Some offs)
    \<and> wal_lookup v' 5 = Ok (Some [1, 2]) \<and> wal_lookup v' 6 = Ok (Some [3, 4])"
proof -
  let ?crc = "(\<lambda>i bs. i + of_nat (length bs)) :: crc_fun"
  let ?evs = "[Append 5 [1, 2] True] @ [Append 6 [3, 4] True, Append 5 [9, 9] False]"
  have ps: "page_size_fits 2" "(2 :: u32) \<noteq> 0" by (simp_all add: page_size_fits_def)
  have ok: "admit_all (admit 2) ([(7, 8)], 0) [Append 5 [1, 2] True] = Some ([(7, 8)], 1)" "admit_all (admit 2) ([(7, 8)], 0) ?evs = Some ([(7, 8)], 3)" by simp_all
  from wal_run_rel [OF ps ok(1), of ?crc] obtain w1 com cur tail where w1: "wal_run ?crc 7 8 2 [Append 5 [1, 2] True] = Ok w1"
      "wal_inv ?crc (set [(7, 8)]) w1 com cur tail" "w_page_size w1 = 2" by (auto simp: wal_rel_def)
  have ne: "w_file w1 \<noteq> []" using w1(1) by (auto simp: wal_eval)
  from reopen_inv [OF w1(2), of 0 0 0 0 False] obtain v where v: "open_impl ?crc 0 0 0 0 (w_file w1) 2 False = Ok v" unfolding w1(3) by blast
  have "\<exists>w2. wal_run ?crc 7 8 2 ?evs = Ok w2 \<and> no_leftover w2" by (simp add: wal_eval no_leftover_def)
  then obtain w2 where w2: "fold_outcome (wal_step ?crc) w1 [Append 6 [3, 4] True, Append 5 [9, 9] False] = Ok w2" and nl: "no_leftover w2"
    using w1(1) unfolding wal_run_def fold_outcome_append by (auto simp: bind_outcome_eq_Ok simp del: fold_outcome.simps)
  from reader_catches_up [OF ps ok(2) _ w1(1) ne w2 nl v] obtain v' offs where
      "absorb_foreign_growth ?crc (v\<lparr>w_file := w_file w2\<rparr>) = (v', Some offs)" and l: "\<forall>p. wal_lookup v' p = Ok (st_committed (spec_run ?evs) p)" by auto
  moreover have "st_committed (spec_run ?evs) = [5 \<mapsto> [1, 2], 6 \<mapsto> [3, 4]]" by (simp add: spec_run_def empty_store_def Let_def)
  then have "wal_lookup v' 5 = Ok (Some [1, 2])" "wal_lookup v' 6 = Ok (Some [3, 4])" using l by simp_all
  ultimately show ?thesis using w1(1) w2 v by blast
qed

end
