(* ===== verification/Wal_Lease.thy ===== *)
theory Wal_Lease
  imports Prelude
begin

text \<open>
  The in-process registry of write-ahead log writers (\<^verbatim>\<open>storage/wal.rs\<close>): which pager may append to
  the log of a path, and the generation of the pagers of a path. The registry's lock is held for
  the whole of each function, so every function is one step. The closures the pager passes are
  arguments: \<open>relieve h\<close> tells whether the holder was idle, \<open>others_reserved\<close> whether a peer holds
  RESERVED without the lease; the Boolean of the answer tells whether \<open>busy_mark\<close> ran.
\<close>

type_synonym lease_map = "string \<rightharpoonup> u64"

datatype wal_lease = Ours | Acquired | Foreign string

definition acquire_wal_lease_key :: "lease_map \<Rightarrow> string \<Rightarrow> u64 \<Rightarrow> lease_map \<times> wal_lease" where
  "acquire_wal_lease_key leases key owner =
     (case leases key of
        Some held \<Rightarrow> (leases, if held \<noteq> owner then Foreign key else Ours)
      | None \<Rightarrow> (leases(key \<mapsto> owner), Acquired))"

definition acquire_wal_lease_relieving ::
    "lease_map \<Rightarrow> string \<Rightarrow> u64 \<Rightarrow> (u64 \<Rightarrow> bool) \<Rightarrow> bool \<Rightarrow> lease_map \<times> (string + wal_lease) \<times> bool" where
  "acquire_wal_lease_relieving leases key owner relieve others_reserved =
     (case leases key of
        None \<Rightarrow> if others_reserved then (leases, Inl key, False) else (leases(key \<mapsto> owner), Inr Acquired, True)
      | Some h \<Rightarrow>
          if h = owner then (leases, Inr Ours, True)
          else if relieve h then (leases(key \<mapsto> owner), Inr Acquired, True)
          else (leases, Inl key, False))"

definition wal_lease_owner :: "lease_map \<Rightarrow> string \<Rightarrow> u64 option" where
  "wal_lease_owner leases key = leases key"

definition release_wal_lease_key :: "lease_map \<Rightarrow> string \<Rightarrow> u64 \<Rightarrow> lease_map" where
  "release_wal_lease_key leases key owner = (if leases key = Some owner then leases(key := None) else leases)"

definition bump_generation :: "(string \<rightharpoonup> u64) \<Rightarrow> string \<Rightarrow> (string \<rightharpoonup> u64) \<times> u64" where
  "bump_generation g sidecar = (let next = (case g sidecar of Some n \<Rightarrow> n | None \<Rightarrow> 0) + 1 in (g(sidecar \<mapsto> next), next))"

definition current_generation :: "(string \<rightharpoonup> u64) \<Rightarrow> string \<Rightarrow> u64" where
  "current_generation g sidecar = (case g sidecar of Some n \<Rightarrow> n | None \<Rightarrow> 0)"

lemma current_bump [simp]: "current_generation (fst (bump_generation g s)) s = snd (bump_generation g s)"
    "s' \<noteq> s \<Longrightarrow> current_generation (fst (bump_generation g s)) s' = current_generation g s'"
  by (simp_all add: current_generation_def bump_generation_def Let_def)

text \<open>The calls a process makes to the registry, with what their closures answer.\<close>

datatype registry_call = Take string u64 "u64 \<Rightarrow> bool" bool | Confirm string u64 | Give string u64

fun lease_call :: "lease_map \<Rightarrow> registry_call \<Rightarrow> lease_map \<times> bool" where
  "lease_call leases (Take key owner relieve reserved) =
     (case acquire_wal_lease_relieving leases key owner relieve reserved of (l, r, marked) \<Rightarrow> (l, \<not> isl r))"
| "lease_call leases (Confirm key owner) = (case acquire_wal_lease_key leases key owner of (l, r) \<Rightarrow> (l, r = Ours \<or> r = Acquired))"
| "lease_call leases (Give key owner) = (release_wal_lease_key leases key owner, True)"

fun lease_calls :: "lease_map \<Rightarrow> registry_call list \<Rightarrow> lease_map \<times> bool list" where
  "lease_calls leases [] = (leases, [])"
| "lease_calls leases (c # cs) = (case lease_call leases c of (l, a) \<Rightarrow> case lease_calls l cs of (l', as) \<Rightarrow> (l', a # as))"

text \<open>A call that takes the lease of a path away from its owner: its own release, or an attempt that found it idle.\<close>

fun ends_lease :: "string \<Rightarrow> u64 \<Rightarrow> registry_call \<Rightarrow> bool" where
  "ends_lease key owner (Take k b relieve reserved) = (k = key \<and> b \<noteq> owner \<and> relieve owner)"
| "ends_lease key owner (Confirm k b) = False"
| "ends_lease key owner (Give k b) = (k = key \<and> b = owner)"

fun asks_for :: "string \<Rightarrow> u64 \<Rightarrow> registry_call \<Rightarrow> bool" where
  "asks_for key b (Take k c relieve reserved) = (k = key \<and> c = b)"
| "asks_for key b (Confirm k c) = (k = key \<and> c = b)"
| "asks_for key b (Give k c) = False"

lemma held_step:
  assumes "leases key = Some owner" "\<not> ends_lease key owner c"
  shows "fst (lease_call leases c) key = Some owner" "asks_for key b c \<Longrightarrow> snd (lease_call leases c) = (b = owner)"
  using assms by (cases c; auto simp: acquire_wal_lease_relieving_def acquire_wal_lease_key_def release_wal_lease_key_def split: option.splits)+

lemma held_calls:
  "leases key = Some owner \<Longrightarrow> list_all (\<lambda>c. \<not> ends_lease key owner c) cs \<Longrightarrow> lease_calls leases cs = (leases', as) \<Longrightarrow>
   leases' key = Some owner \<and> list_all2 (\<lambda>c a. \<forall>b. asks_for key b c \<longrightarrow> a = (b = owner)) cs as"
proof (induction cs arbitrary: leases as)
  case (Cons c cs)
  obtain l a as' where c: "lease_call leases c = (l, a)" "lease_calls l cs = (leases', as')" "as = a # as'"
    using Cons.prems(3) by (auto split: prod.splits)
  then show ?case using Cons.IH [of l as'] held_step [of leases key owner c] Cons.prems(1,2) by simp
qed simp

text \<open>
  C38: The registry excludes. A pager that was granted the lease of a log keeps it through any
  sequence of calls to the registry in which it does not release it and in which no attempt finds
  it idle: the registry goes on naming it, every attempt of another pager on that log is refused,
  by either function, and every attempt of its own is granted.
\<close>

theorem lease_excludes:
  assumes "lease_call leases c0 = (leases0, True)" "asks_for key owner c0"
    and "list_all (\<lambda>c. \<not> ends_lease key owner c) cs" "lease_calls leases0 cs = (leases', as)"
  shows "wal_lease_owner leases' key = Some owner \<and> list_all2 (\<lambda>c a. \<forall>b. asks_for key b c \<longrightarrow> a = (b = owner)) cs as"
proof -
  have "leases0 key = Some owner" using assms(1,2)
    by (cases c0) (auto simp: acquire_wal_lease_relieving_def acquire_wal_lease_key_def split: option.splits if_splits)
  then show ?thesis using held_calls [OF _ assms(3,4)] by (simp add: wal_lease_owner_def)
qed

theorem lease_excludes_witness:
  "lease_calls (fst (lease_call Map.empty (Take ''db-wal'' 4 (\<lambda>_. True) False)))
     [Take ''db-wal'' 5 (\<lambda>_. False) False, Confirm ''db-wal'' 6, Give ''db-wal'' 5, Take ''db-wal'' 4 (\<lambda>_. True) False]
   = ([''db-wal'' \<mapsto> 4], [False, False, True, True])
   \<and> list_all2 (\<lambda>c a. \<forall>b. asks_for ''db-wal'' b c \<longrightarrow> a = (b = 4))
       [Take ''db-wal'' 5 (\<lambda>_. False) False, Confirm ''db-wal'' 6, Give ''db-wal'' 5, Take ''db-wal'' 4 (\<lambda>_. True) False] [False, False, True, True]"
proof -
  let ?c0 = "Take ''db-wal'' 4 (\<lambda>_. True) False" and ?cs = "[Take ''db-wal'' 5 (\<lambda>_. False) False, Confirm ''db-wal'' 6, Give ''db-wal'' 5, Take ''db-wal'' 4 (\<lambda>_. True) False]"
  have c0: "lease_call Map.empty ?c0 = ([''db-wal'' \<mapsto> 4], True)" by (simp add: acquire_wal_lease_relieving_def)
  have cs: "lease_calls [''db-wal'' \<mapsto> 4] ?cs = ([''db-wal'' \<mapsto> 4], [False, False, True, True])"
    by (simp add: acquire_wal_lease_relieving_def acquire_wal_lease_key_def release_wal_lease_key_def)
  have "list_all2 (\<lambda>c a. \<forall>b. asks_for ''db-wal'' b c \<longrightarrow> a = (b = 4)) ?cs [False, False, True, True]"
    using lease_excludes [OF c0 _ _ cs, of "''db-wal''" 4] by simp
  then show ?thesis using c0 cs by simp
qed

end
