(* ===== verification/Btree_Varint.thy ===== *)
theory Btree_Varint
  imports Varint
begin

text \<open>
  The varint of \<^verbatim>\<open>src/storage/btree.rs\<close>: an encoder by cases, a decoder with an inlined path for
  one to three bytes, and the length function. The encoder fills a caller's array of at least
  nine bytes and returns how many it wrote; the model returns those bytes. An \<^verbatim>\<open>i64\<close> is encoded as
  its 64-bit pattern.
\<close>

text \<open>
  The search for the number of groups; it is reached with values below \<open>2^56\<close> only, so the
  bound \<^verbatim>\<open>(max << 7) | 0x7F\<close> never leaves 64 bits and is taken as a natural number.
\<close>

function bt_groups :: "nat \<Rightarrow> nat \<Rightarrow> nat \<Rightarrow> nat" where
  "bt_groups v n mx = (if mx < v then bt_groups v (n + 1) (mx * 128 + 127) else n)"
  by pat_completeness auto
termination
  by (relation "measure (\<lambda>(v, n, mx). v - mx)") auto

declare bt_groups.simps [simp del]

definition varint_encode :: "u64 \<Rightarrow> bytes" where
  "varint_encode v =
     (if v = 0 then [0]
      else if v \<le> 0x7F then [ucast v]
      else if v \<le> 0x3FFF then [ucast (drop_bit 7 v) OR 0x80, ucast (v AND 0x7F)]
      else if v < 2 ^ 56
      then let n = bt_groups (unat v) 1 0x7F in
           map (\<lambda>i. let byte = (ucast (drop_bit ((n - 1 - i) * 7) v AND 0x7F) :: byte) in if i < n - 1 then byte OR 0x80 else byte) [0..<n]
      else map (\<lambda>i. ucast (drop_bit ((7 - i) * 7) (drop_bit 8 v) AND 0x7F) OR 0x80) [0..<8] @ [ucast (v AND 0xFF)])"

function decode_slow_loop :: "bytes \<Rightarrow> nat \<Rightarrow> u64 \<Rightarrow> (u64 \<times> nat) option" where
  "decode_slow_loop buf i v =
     (if i < 9
      then if length buf \<le> i then None
           else let b = buf ! i in
                if i = 8 then Some (push_bit 8 v OR ucast b, 9)
                else let v' = push_bit 7 v OR ucast (b AND 0x7F) in
                     if b AND 0x80 = 0 then Some (v', i + 1) else decode_slow_loop buf (i + 1) v'
      else Some (v, 9))"
  by pat_completeness auto
termination
  by (relation "measure (\<lambda>(buf, i, v). 9 - i)") auto

declare decode_slow_loop.simps [simp del]

definition decode_slow :: "bytes \<Rightarrow> (u64 \<times> nat) option" where
  "decode_slow buf = (if buf = [] then None else decode_slow_loop buf 0 0)"

definition varint_decode :: "bytes \<Rightarrow> (u64 \<times> nat) option" where
  "varint_decode buf =
     (if 0 < length buf \<and> buf ! 0 < 0x80 then Some (ucast (buf ! 0), 1)
      else if 1 < length buf \<and> buf ! 1 < 0x80 then Some (push_bit 7 (ucast (buf ! 0 AND 0x7F)) OR ucast (buf ! 1), 2)
      else if 2 < length buf \<and> buf ! 2 < 0x80
      then Some (push_bit 14 (ucast (buf ! 0 AND 0x7F)) OR push_bit 7 (ucast (buf ! 1 AND 0x7F)) OR ucast (buf ! 2), 3)
      else decode_slow buf)"

definition encode_signed :: "i64 \<Rightarrow> bytes" where
  "encode_signed v = varint_encode v"

definition decode_signed :: "bytes \<Rightarrow> (i64 \<times> nat) option" where
  "decode_signed buf = varint_decode buf"

definition len_of :: "u64 \<Rightarrow> nat" where
  "len_of v = (if v \<le> 0x7F then 1 else if v < 2 ^ 56 then bt_groups (unat v) 1 0x7F else 9)"

subsection \<open>They are the varints of the file format\<close>

lemma bt_groups_spec: "0 < n \<Longrightarrow> bt_groups v n (128 ^ n - 1) = max n (groups v)"
proof (induction "groups v - n" arbitrary: n)
  case 0
  then have "groups v \<le> n" by simp
  then have "128 ^ groups v \<le> (128 ^ n :: nat)" by (intro power_increasing) simp_all
  then have "v < 128 ^ n" using groups_bound [of v] by linarith
  then have "\<not> 128 ^ n - 1 < v" by linarith
  then show ?case using \<open>groups v \<le> n\<close> by (subst bt_groups.simps) simp
next
  case (Suc k)
  then have "\<not> v < 128 ^ n" using groups_le [of v n] by linarith
  moreover have "(128 ^ n - 1) * 128 + 127 = 128 ^ Suc n - (1 :: nat)"
  proof -
    have "1 \<le> (128 ^ n :: nat)" by simp
    then show ?thesis by (simp add: diff_mult_distrib)
  qed
  moreover have "0 < (128 ^ n :: nat)" by simp
  then have "128 ^ n - 1 < v" using \<open>\<not> v < 128 ^ n\<close> by linarith
  ultimately show ?case using Suc.hyps(1) [of "Suc n"] Suc.hyps(2) by (simp add: bt_groups.simps [of v n])
qed

lemma bt_groups_groups: "bt_groups v 1 127 = Suc (groups (v div 128))"
  using bt_groups_spec [of 1 v] by (simp add: groups.simps [of v])

lemma group_bytes_up:
  "map (\<lambda>i. let byte = (ucast (drop_bit ((n - 1 - i) * 7) (v :: u64) AND 0x7F) :: byte) in if i < n - 1 then byte OR 0x80 else byte) [0..<n]
   = map (\<lambda>i. (ucast (drop_bit (7 * i) v AND 0x7f) :: byte) OR (if 0 < i then 0x80 else 0)) (rev [0 ..< n])"
  by (rule nth_equalityI) (auto simp: rev_nth Let_def mult.commute)

lemma nine_groups_up: "map (\<lambda>i. ucast (drop_bit ((7 - i) * 7) (x :: u64) AND 0x7F) OR (0x80 :: byte)) [0..<8] = nine_groups 8 x"
  by (simp add: upt_rec numeral_eq_Suc drop_bit_drop_bit)

lemma ucast_byte: "unat (v :: u64) < 256 \<Longrightarrow> (ucast v :: byte) = word_of_nat (unat v)"
  by (simp add: word_unat_eq_iff unsigned_ucast_eq take_bit_eq_mod byte_simps)

lemma varint_encode_vspec: "varint_encode v = vspec (unat v)"
proof -
  consider (one) "unat v \<le> 127" | (two) "127 < unat v" "unat v \<le> 16383" | (mid) "16383 < unat v" "unat v < 2 ^ 56" | (nine) "2 ^ 56 \<le> unat v"
    by linarith
  then show ?thesis
  proof cases
    case one
    then show ?thesis using ucast_byte [of v] by (auto simp: varint_encode_def vspec_def word_le_nat_alt unat_eq_0)
  next
    case two
    then have "unat v div 128 < 128 ^ 1" "0 < unat v div 128" by (simp_all add: div_less_iff_less_mult div_greater_zero_iff)
    then have "groups (unat v div 128) = 1" using groups_le [of "unat v div 128" 1] by (simp add: groups.simps [of "unat v div 128"])
    moreover have "(ucast (drop_bit 7 v) :: byte) OR 0x80 = word_of_nat (128 + unat v div 128 mod 128)"
    proof -
      have "take_bit 7 (drop_bit 7 v) = drop_bit 7 v" using two unat_drop7 [of 7 v] unat_take_bit [of 7 "drop_bit 7 v"]
        by (simp add: word_unat_eq_iff div_less_iff_less_mult)
      moreover have "drop_bit 7 v AND 0x7f = take_bit 7 (drop_bit 7 v)" using take_bit_eq_mask [of 7 "drop_bit 7 v"] by (simp add: mask_eq_exp_minus_1)
      ultimately have "drop_bit 7 v AND 0x7f = drop_bit 7 v" by simp
      then show ?thesis using cont_byte [of "drop_bit 7 v"] unat_drop7 [of 7 v] by simp
    qed
    ultimately show ?thesis using two by (auto simp: varint_encode_def vspec_def word_le_nat_alt last_byte)
  next
    case mid
    then show ?thesis unfolding varint_encode_def vspec_def Let_def
      using group_bytes_vhi [of v "groups (unat v div 128)"] bt_groups_groups [of "unat v"]
      by (simp only: group_bytes_up [unfolded Let_def]) (auto simp: word_le_nat_alt word_less_nat_alt)
  next
    case nine
    have "unat (drop_bit 8 v) = unat v div 256" using unat_drop7 [of 8 v] by simp
    then show ?thesis using nine unfolding varint_encode_def vspec_def
      by (simp only: nine_groups_up nine_groups_vhi) (auto simp: word_le_nat_alt word_less_nat_alt raw_byte)
  qed
qed

lemma decode_slow_rd: "i \<le> 8 \<Longrightarrow> decode_slow_loop buf i v = rd i v (drop i buf)"
proof (induction buf i v rule: decode_slow_loop.induct)
  case (1 buf i v)
  show ?case
  proof (cases "i < length buf")
    case False
    then show ?thesis using 1 by (subst decode_slow_loop.simps) simp
  next
    case True
    then have d: "drop i buf = buf ! i # drop (Suc i) buf" by (rule Cons_nth_drop_Suc [symmetric])
    show ?thesis
    proof (cases "i = 8")
      case True
      then show ?thesis using \<open>i < length buf\<close> unfolding d by (subst decode_slow_loop.simps) simp
    next
      case False
      then have "i < 8" "\<not> length buf \<le> i" using 1(2) True by simp_all
      then show ?thesis using 1(1) [of "buf ! i" "push_bit 7 v OR ucast (buf ! i AND 0x7F)"] by (subst decode_slow_loop.simps) (simp add: d Let_def)
    qed
  qed
qed

lemma less_80: "(b :: byte) < 0x80 \<longleftrightarrow> b AND 0x80 = 0"
  by (simp add: and_80_iff word_less_nat_alt)

lemma and_7f_id: "(b :: byte) < 0x80 \<Longrightarrow> b AND 0x7F = b"
  using and_7f [of b] by (simp add: word_unat_eq_iff word_less_nat_alt)

lemma varint_decode_slow: "varint_decode buf = decode_slow buf"
proof -
  have "rd 0 0 buf = varint_decode buf" if ne: "buf \<noteq> []" and slow: "varint_decode buf \<noteq> decode_slow buf"
  proof -
    obtain b0 bs where b: "buf = b0 # bs" using ne by (cases buf) simp_all
    show ?thesis
    proof (cases "b0 < 0x80")
      case True
      then show ?thesis by (simp add: b varint_decode_def less_80 [symmetric] and_7f_id)
    next
      case F0: False
      then obtain b1 bs1 where b1: "bs = b1 # bs1" using slow by (cases bs) (auto simp: varint_decode_def b)
      show ?thesis
      proof (cases "b1 < 0x80")
        case True
        then show ?thesis using F0 by (simp add: b b1 varint_decode_def less_80 [symmetric] and_7f_id)
      next
        case False
        then obtain b2 bs2 where "bs1 = b2 # bs2" "b2 < 0x80" using F0 slow by (cases bs1) (auto simp: varint_decode_def b b1 split: if_splits)
        then show ?thesis using F0 False by (simp add: b b1 varint_decode_def less_80 [symmetric] and_7f_id push_bit_or or.assoc)
      qed
    qed
  qed
  moreover have "decode_slow buf = rd 0 0 buf" if "buf \<noteq> []" using decode_slow_rd [of 0 buf 0] that by (simp add: decode_slow_def)
  moreover have "varint_decode [] = decode_slow []" by (simp add: varint_decode_def)
  ultimately show ?thesis by (cases "buf = []") auto
qed

lemma varint_decode_rd: "varint_decode buf = rd 0 0 buf"
  using decode_slow_rd [of 0 buf 0] by (cases buf) (simp_all add: varint_decode_slow decode_slow_def)

lemma len_of_encode: "len_of v = length (varint_encode v)"
proof -
  have "length (varint_encode v) = (if unat v < 2 ^ 56 then Suc (groups (unat v div 128)) else 9)" by (simp add: varint_encode_vspec vspec_def)
  then show ?thesis by (auto simp: len_of_def word_le_nat_alt word_less_nat_alt bt_groups_groups [simplified])
qed

interpretation bt_varint: prefix_codec varint_encode varint_decode "\<lambda>_. True"
  by unfold_locales (simp add: varint_decode_rd varint_encode_vspec rd_vspec [OF u64_bound])

lemma varint_decode_encode [simp]: "varint_decode (varint_encode v @ rest) = Some (v, length (varint_encode v))"
  by (simp add: varint_decode_rd varint_encode_vspec rd_vspec [OF u64_bound])

lemma decode_signed_encode [simp]: "decode_signed (encode_signed v @ rest) = Some (v, length (encode_signed v))"
  by (simp add: decode_signed_def encode_signed_def)

lemma varint_decode_consumed: "varint_decode buf = Some (v, n) \<Longrightarrow> 1 \<le> n \<and> n \<le> 9 \<and> n \<le> length buf"
  using rd_consumed [of 0 0 buf v n] by (simp add: varint_decode_rd)

text \<open>
  The B-tree's varint, its length function and both paths of its decoder are the varint of
  the SQLite file format, on every value and on every buffer.
\<close>

theorem btree_varint_is_sqlite_varint:
  "varint_encode v = write_varint v \<and> len_of v = length (write_varint v)
   \<and> varint_decode buf = read_varint buf 0 \<and> decode_slow buf = read_varint buf 0"
  by (simp add: varint_encode_vspec write_varint_vspec len_of_encode read_varint_rd varint_decode_rd flip: varint_decode_slow)

end
