(* ===== verification/Page.thy ===== *)
theory Page
  imports Prelude
begin

text \<open>
  \<^verbatim>\<open>src/storage/page.rs\<close>: the layout of B-tree pages and of the database file header. A page's
  data is exactly the page size, at least 512 bytes, so the accesses to the fixed fields of the
  page header (which end at offset 112 at most) are always in range and have no panic branch;
  accesses whose offset depends on what the page holds do. \<open>u16\<close> and \<open>u32\<close> fields are natural
  numbers, cut to their width where they are written. The serial number a new page draws from
  the global counter is an argument.
\<close>

subsection \<open>Windows of a buffer\<close>

definition window :: "bytes \<Rightarrow> nat \<Rightarrow> nat \<Rightarrow> bytes" where
  "window data off n = take n (drop off data)"

definition put :: "bytes \<Rightarrow> nat \<Rightarrow> bytes \<Rightarrow> bytes" where
  "put data off bs = take off data @ bs @ drop (off + length bs) data"

text \<open>\<^verbatim>\<open>data[off..off + n].copy_from_slice(bs)\<close> and \<^verbatim>\<open>data.copy_within(s..e, dst)\<close>.\<close>

definition copy_at :: "bytes \<Rightarrow> nat \<Rightarrow> bytes \<Rightarrow> bytes outcome" where
  "copy_at data off bs = (if off + length bs \<le> length data then Ok (put data off bs) else Panic)"

definition copy_within :: "bytes \<Rightarrow> nat \<Rightarrow> nat \<Rightarrow> nat \<Rightarrow> bytes outcome" where
  "copy_within data s e dst =
     (if s \<le> e \<and> e \<le> length data \<and> dst + (e - s) \<le> length data then Ok (put data dst (window data s (e - s))) else Panic)"

definition get16 :: "bytes \<Rightarrow> nat \<Rightarrow> nat" where
  "get16 data off = be_nat (window data off 2)"

definition get32 :: "bytes \<Rightarrow> nat \<Rightarrow> nat" where
  "get32 data off = be_nat (window data off 4)"

lemma length_put: "off + length bs \<le> length data \<Longrightarrow> length (put data off bs) = length data"
  by (simp add: put_def)

lemma length_window: "off + n \<le> length data \<Longrightarrow> length (window data off n) = n"
  by (simp add: window_def)

lemma window_put_same: "off + length bs \<le> length data \<Longrightarrow> n = length bs \<Longrightarrow> window (put data off bs) off n = bs"
  by (simp add: window_def put_def)

lemma window_put_inside:
  assumes "off + length bs \<le> length data" "off \<le> o'" "o' + n \<le> off + length bs"
  shows "window (put data off bs) o' n = window bs (o' - off) n"
  using assms by (simp add: window_def put_def)

lemma window_put_before: "o' + n \<le> off \<Longrightarrow> off + length bs \<le> length data \<Longrightarrow> window (put data off bs) o' n = window data o' n"
  by (rule nth_equalityI) (auto simp: window_def put_def nth_append)

lemma window_put_after: "off + length bs \<le> o' \<Longrightarrow> off + length bs \<le> length data \<Longrightarrow> window (put data off bs) o' n = window data o' n"
  by (simp add: window_def put_def)

lemma window_window: "k + m \<le> n \<Longrightarrow> window (window data off n) k m = window data (off + k) m"
  by (simp add: window_def drop_take min_def add.commute)

lemma be16_get: "v < 65536 \<Longrightarrow> be_nat (be_bytes 2 v) = v"
  by (simp add: be_nat_be_bytes)

lemma get16_bound: "get16 data off < 65536"
proof -
  have "length (window data off 2) \<le> 2" by (simp add: window_def)
  then have "256 ^ length (window data off 2) \<le> (256 ^ 2 :: nat)" by (intro power_increasing) simp_all
  then show ?thesis using be_nat_bound [of "window data off 2"] by (simp add: get16_def)
qed

subsection \<open>Constants and page types\<close>

definition MIN_PAGE_SIZE :: nat where
  "MIN_PAGE_SIZE = 512"

definition MAX_PAGE_SIZE :: nat where
  "MAX_PAGE_SIZE = 65536"

definition DB_MAGIC :: bytes where
  "DB_MAGIC = lit ''RSQLDB06''"

definition DB_HEADER_SIZE :: nat where
  "DB_HEADER_SIZE = 100"

definition PAGE_HEADER_SIZE :: nat where
  "PAGE_HEADER_SIZE = 12"

datatype page_type = InteriorTable | LeafTable | InteriorIndex | LeafIndex | Overflow

fun type_byte :: "page_type \<Rightarrow> byte" where
  "type_byte InteriorTable = 0x05"
| "type_byte LeafTable = 0x0D"
| "type_byte InteriorIndex = 0x02"
| "type_byte LeafIndex = 0x0A"
| "type_byte Overflow = 0x04"

definition from_byte :: "byte \<Rightarrow> page_type outcome" where
  "from_byte b =
     (if b = 0x05 then Ok InteriorTable else if b = 0x0D then Ok LeafTable else if b = 0x04 then Ok Overflow
      else if b = 0x02 then Ok InteriorIndex else if b = 0x0A then Ok LeafIndex else Err ''invalid page type byte'')"

definition is_leaf :: "page_type \<Rightarrow> bool" where
  "is_leaf pt \<longleftrightarrow> pt = LeafTable \<or> pt = LeafIndex"

definition is_interior :: "page_type \<Rightarrow> bool" where
  "is_interior pt \<longleftrightarrow> pt = InteriorTable \<or> pt = InteriorIndex"

definition is_table :: "page_type \<Rightarrow> bool" where
  "is_table pt \<longleftrightarrow> pt = InteriorTable \<or> pt = LeafTable"

definition is_index :: "page_type \<Rightarrow> bool" where
  "is_index pt \<longleftrightarrow> pt = InteriorIndex \<or> pt = LeafIndex"

lemma from_byte_type_byte [simp]: "from_byte (type_byte pt) = Ok pt"
  by (cases pt) (simp_all add: from_byte_def)

subsection \<open>Pages\<close>

record page =
  pg_id :: u32
  pg_data :: bytes
  pg_dirty :: bool
  pg_serial :: u64
  pg_epoch :: u32
  pg_live_cache :: "(u32 \<times> nat \<times> nat \<times> nat) option"

definition new_page :: "u32 \<Rightarrow> nat \<Rightarrow> u64 \<Rightarrow> page" where
  "new_page pid psz serial =
     \<lparr>pg_id = pid, pg_data = replicate psz 0, pg_dirty = False, pg_serial = serial, pg_epoch = 0, pg_live_cache = None\<rparr>"

definition page_size :: "page \<Rightarrow> nat" where
  "page_size p = length (pg_data p) mod 2 ^ 32"

definition header_offset :: "page \<Rightarrow> nat" where
  "header_offset p = (if pg_id p = 0 then DB_HEADER_SIZE else 0)"

definition cell_pointer_base :: "page \<Rightarrow> nat" where
  "cell_pointer_base p = header_offset p + PAGE_HEADER_SIZE"

definition touch :: "page \<Rightarrow> page" where
  "touch p = p\<lparr>pg_dirty := True, pg_epoch := pg_epoch p + 1\<rparr>"

definition bump_epoch :: "page \<Rightarrow> page" where
  "bump_epoch p = p\<lparr>pg_epoch := pg_epoch p + 1\<rparr>"

definition set_field :: "page \<Rightarrow> nat \<Rightarrow> bytes \<Rightarrow> page" where
  "set_field p off bs = touch (p\<lparr>pg_data := put (pg_data p) (header_offset p + off) bs\<rparr>)"

definition page_type_of :: "page \<Rightarrow> page_type outcome" where
  "page_type_of p = from_byte (pg_data p ! header_offset p)"

definition set_page_type :: "page \<Rightarrow> page_type \<Rightarrow> page" where
  "set_page_type p pt = set_field p 0 [type_byte pt]"

definition n_cells :: "page \<Rightarrow> nat" where
  "n_cells p = get16 (pg_data p) (header_offset p + 4)"

definition set_n_cells :: "page \<Rightarrow> nat \<Rightarrow> page" where
  "set_n_cells p n = set_field p 4 (be_bytes 2 n)"

definition cell_content_start :: "page \<Rightarrow> nat" where
  "cell_content_start p = (let v = get16 (pg_data p) (header_offset p + 6) in if v = 0 then page_size p else v)"

definition set_cell_content_start :: "page \<Rightarrow> nat \<Rightarrow> page" where
  "set_cell_content_start p offset = set_field p 6 (be_bytes 2 (if page_size p \<le> offset then 0 else offset))"

definition right_most_pointer :: "page \<Rightarrow> u32" where
  "right_most_pointer p = word_of_nat (get32 (pg_data p) (header_offset p + 8))"

definition set_right_most_pointer :: "page \<Rightarrow> u32 \<Rightarrow> page" where
  "set_right_most_pointer p q = set_field p 8 (be32 q)"

definition cell_pointer :: "page \<Rightarrow> nat \<Rightarrow> nat outcome" where
  "cell_pointer p idx =
     (let off = cell_pointer_base p + idx * 2 in
      bind_outcome (slice (pg_data p) off (off + 2)) (\<lambda>bs. Ok (be_nat bs)))"

definition set_cell_pointer :: "page \<Rightarrow> nat \<Rightarrow> nat \<Rightarrow> page outcome" where
  "set_cell_pointer p idx ptr =
     bind_outcome (copy_at (pg_data p) (cell_pointer_base p + idx * 2) (be_bytes 2 ptr)) (\<lambda>d. Ok (touch (p\<lparr>pg_data := d\<rparr>)))"

definition cell_slice_checked :: "page \<Rightarrow> nat \<Rightarrow> bytes outcome" where
  "cell_slice_checked p ptr = (if length (pg_data p) \<le> ptr then Err ''cell pointer out of range'' else Ok (drop ptr (pg_data p)))"

definition cell_slice :: "page \<Rightarrow> nat \<Rightarrow> bytes outcome" where
  "cell_slice p idx = bind_outcome (cell_pointer p idx) (cell_slice_checked p)"

definition free_space :: "page \<Rightarrow> nat" where
  "free_space p = cell_content_start p - (header_offset p + PAGE_HEADER_SIZE + n_cells p * 2)"

definition init_page :: "page \<Rightarrow> page_type \<Rightarrow> page" where
  "init_page p pt =
     touch (set_right_most_pointer (set_cell_content_start (set_n_cells (set_page_type p pt) 0) 0) 0)"

definition init_leaf_table :: "page \<Rightarrow> page" where
  "init_leaf_table p = init_page p LeafTable"

definition init_interior_table :: "page \<Rightarrow> page" where
  "init_interior_table p = init_page p InteriorTable"

definition init_leaf_index :: "page \<Rightarrow> page" where
  "init_leaf_index p = init_page p LeafIndex"

definition init_interior_index :: "page \<Rightarrow> page" where
  "init_interior_index p = init_page p InteriorIndex"

subsection \<open>Overflow pages\<close>

definition init_overflow :: "page \<Rightarrow> page" where
  "init_overflow p =
     (let p1 = set_page_type p Overflow;
          p2 = p1\<lparr>pg_data := put (pg_data p1) (header_offset p1 + 1) [0, 0, 0]\<rparr>;
          p3 = set_right_most_pointer (set_cell_content_start (set_n_cells p2 0) 12) 0
      in set_field p3 12 (be32 0))"

definition overflow_next :: "page \<Rightarrow> u32" where
  "overflow_next p = word_of_nat (get32 (pg_data p) (header_offset p + 12))"

definition set_overflow_next :: "page \<Rightarrow> u32 \<Rightarrow> page" where
  "set_overflow_next p next = set_field p 12 (be32 next)"

definition overflow_data :: "page \<Rightarrow> bytes" where
  "overflow_data p = drop (header_offset p + 16) (pg_data p)"

subsection \<open>The file header\<close>

definition put_all :: "bytes \<Rightarrow> (nat \<times> bytes) list \<Rightarrow> bytes outcome" where
  "put_all buf fs = fold_outcome (\<lambda>b (off, bs). copy_at b off bs) buf fs"

definition le32_at :: "bytes \<Rightarrow> nat \<Rightarrow> u32 outcome" where
  "le32_at buf off = bind_outcome (slice buf off (off + 4)) (\<lambda>bs. Ok (word_of_nat (le_nat bs)))"

definition header_write :: "bytes \<Rightarrow> u32 \<Rightarrow> u32 \<Rightarrow> u32 \<Rightarrow> bytes outcome" where
  "header_write buf psz db_size cookie =
     put_all buf [(0, DB_MAGIC), (8, le_bytes 4 (unat psz)), (12, le_bytes 4 1), (16, le_bytes 4 (unat db_size)),
       (20, le_bytes 4 0), (24, le_bytes 4 0), (28, le_bytes 4 (unat cookie)), (32, le_bytes 4 1), (36, le_bytes 4 2048),
       (40, le_bytes 8 0), (48, le_bytes 4 1)]"

definition change_counter :: "bytes \<Rightarrow> u32 outcome" where
  "change_counter buf = bind_outcome (slice buf 24 28) (\<lambda>bs. Ok (word_of_nat (be_nat bs)))"

definition user_version :: "bytes \<Rightarrow> u32 outcome" where
  "user_version buf = le32_at buf 60"

definition set_user_version :: "bytes \<Rightarrow> u32 \<Rightarrow> bytes outcome" where
  "set_user_version buf v = copy_at buf 60 (le_bytes 4 (unat v))"

definition application_id :: "bytes \<Rightarrow> u32 outcome" where
  "application_id buf = le32_at buf 68"

definition set_application_id :: "bytes \<Rightarrow> u32 \<Rightarrow> bytes outcome" where
  "set_application_id buf v = copy_at buf 68 (le_bytes 4 (unat v))"

definition magic :: "bytes \<Rightarrow> bytes option" where
  "magic buf = (if length buf < 8 then None else Some (take 8 buf))"

definition header_page_size :: "bytes \<Rightarrow> u32 outcome" where
  "header_page_size buf = (if length buf < 12 then Err ''file too small for header'' else le32_at buf 8)"

definition db_size_pages :: "bytes \<Rightarrow> u32 outcome" where
  "db_size_pages buf = le32_at buf 16"

definition schema_cookie :: "bytes \<Rightarrow> u32 outcome" where
  "schema_cookie buf = le32_at buf 28"

definition set_schema_cookie :: "bytes \<Rightarrow> u32 \<Rightarrow> bytes outcome" where
  "set_schema_cookie buf cookie = put_all buf [(28, le_bytes 4 (unat cookie)), (12, le_bytes 4 (unat (cookie + 1)))]"

definition journal_mode :: "bytes \<Rightarrow> u32 outcome" where
  "journal_mode buf = (if length buf < 76 then Ok 0 else le32_at buf 72)"

definition set_journal_mode :: "bytes \<Rightarrow> u32 \<Rightarrow> bytes outcome" where
  "set_journal_mode buf mode = copy_at buf 72 (le_bytes 4 (unat mode))"

end
