(* ===== verification/Btree_Cell.thy ===== *)
theory Btree_Cell
  imports Btree_Varint Page Ordering
begin

text \<open>
  The cells of B-tree pages (\<^verbatim>\<open>src/storage/btree.rs\<close>): how much of a payload stays in the page, the
  encoding and decoding of a cell, its size read from the page, and the comparison of index
  cells without decoding them. The length of a payload is a \<^verbatim>\<open>usize\<close>; a length read from a page
  can have any 64-bit value.
\<close>

subsection \<open>Local sizes\<close>

definition clamp :: "nat \<Rightarrow> nat \<Rightarrow> nat \<Rightarrow> nat outcome" where
  "clamp x lo hi = (if hi < lo then Panic else Ok (max lo (min x hi)))"

definition overflow_local_len_for :: "nat \<Rightarrow> nat \<Rightarrow> nat outcome" where
  "overflow_local_len_for tot psz =
     (let max_local = psz - 128 in
      if tot \<le> max_local then Ok tot
      else
        let chain_cap = psz - 16 in
        bind_outcome (clamp (psz div 4) 16 (max_local - 8)) (\<lambda>min_local.
          let surplus = min_local + (tot - min_local) mod max chain_cap 1 in
          Ok (if surplus \<le> max_local then surplus else min_local)))"

definition INDEX_V6_MARK :: u64 where
  "INDEX_V6_MARK = push_bit 62 1"

definition index_max_local :: "nat \<Rightarrow> nat" where
  "index_max_local psz = (psz - 12) * 64 div 255 - 23"

definition index_min_local :: "nat \<Rightarrow> nat" where
  "index_min_local psz = (psz - 12) * 32 div 255 - 23"

definition index_local_len_v6 :: "nat \<Rightarrow> nat \<Rightarrow> nat" where
  "index_local_len_v6 tot psz =
     (let max_local = index_max_local psz in
      if tot \<le> max_local then tot
      else
        let min_local = index_min_local psz; chain_cap = max (psz - 16) 1;
            surplus = min_local + (tot - min_local) mod chain_cap
        in if surplus \<le> max_local then surplus else min_local)"

definition index_total_raw :: "u64 \<Rightarrow> bool \<Rightarrow> u64" where
  "index_total_raw tot v6 = (if v6 then tot OR INDEX_V6_MARK else tot)"

definition index_cell_split :: "u64 \<Rightarrow> nat \<Rightarrow> (nat \<times> nat \<times> bool) outcome" where
  "index_cell_split raw psz =
     (if raw AND INDEX_V6_MARK \<noteq> 0
      then let tot = unat (raw AND NOT INDEX_V6_MARK) in Ok (tot, index_local_len_v6 tot psz, True)
      else let tot = unat raw in bind_outcome (overflow_local_len_for tot psz) (\<lambda>l. Ok (tot, l, False)))"

subsection \<open>Cells\<close>

datatype cell =
    TableLeafCell i64 bytes
  | TableLeafOverflow i64 u64 bytes u32
  | TableInteriorCell u32 i64
  | IndexLeafCell bytes i64
  | IndexLeafOverflow i64 u64 bytes u32 bool
  | IndexInteriorCell u32 bytes i64
  | IndexInteriorOverflow u32 i64 u64 bytes u32 bool

fun cell_key :: "cell \<Rightarrow> i64" where
  "cell_key (TableLeafCell rowid payload) = rowid"
| "cell_key (TableLeafOverflow rowid tot local overflow) = rowid"
| "cell_key (TableInteriorCell lc key) = key"
| "cell_key (IndexLeafCell key rowid) = rowid"
| "cell_key (IndexLeafOverflow rowid tot local overflow v6) = rowid"
| "cell_key (IndexInteriorCell lc key rowid) = rowid"
| "cell_key (IndexInteriorOverflow lc rowid tot local overflow v6) = rowid"

fun left_child :: "cell \<Rightarrow> u32" where
  "left_child (TableInteriorCell lc key) = lc"
| "left_child (IndexInteriorCell lc key rowid) = lc"
| "left_child (IndexInteriorOverflow lc rowid tot local overflow v6) = lc"
| "left_child _ = 0"

fun index_key :: "cell \<Rightarrow> bytes" where
  "index_key (IndexLeafCell key rowid) = key"
| "index_key (IndexInteriorCell lc key rowid) = key"
| "index_key (IndexLeafOverflow rowid tot local overflow v6) = local"
| "index_key (IndexInteriorOverflow lc rowid tot local overflow v6) = local"
| "index_key _ = []"

fun index_overflow :: "cell \<Rightarrow> u32" where
  "index_overflow (IndexLeafOverflow rowid tot local overflow v6) = overflow"
| "index_overflow (IndexInteriorOverflow lc rowid tot local overflow v6) = overflow"
| "index_overflow _ = 0"

definition sint_cmp :: "i64 \<Rightarrow> i64 \<Rightarrow> ordering" where
  "sint_cmp a b = cmp_of (sint a) (sint b)"

definition cmp_index_target :: "cell \<Rightarrow> bytes \<Rightarrow> i64 \<Rightarrow> ordering" where
  "cmp_index_target c key rowid = and_then (cmp_list (index_key c) key) (sint_cmp (cell_key c) rowid)"

definition len64 :: "bytes \<Rightarrow> u64" where
  "len64 bs = word_of_nat (length bs)"

fun cell_encoded_size :: "cell \<Rightarrow> nat" where
  "cell_encoded_size (TableLeafCell rowid payload) =
     length (encode_signed rowid) + length (varint_encode (len64 payload)) + length payload"
| "cell_encoded_size (TableLeafOverflow rowid tot local overflow) =
     length (encode_signed rowid) + length (varint_encode tot) + length local + 4"
| "cell_encoded_size (TableInteriorCell lc key) = 4 + length (encode_signed key)"
| "cell_encoded_size (IndexLeafCell key rowid) =
     length (encode_signed rowid) + length (varint_encode (len64 key)) + length key"
| "cell_encoded_size (IndexLeafOverflow rowid tot local overflow v6) =
     length (encode_signed rowid) + length (varint_encode (index_total_raw tot v6)) + length local + 4"
| "cell_encoded_size (IndexInteriorCell lc key rowid) =
     4 + length (encode_signed rowid) + length (varint_encode (len64 key)) + length key"
| "cell_encoded_size (IndexInteriorOverflow lc rowid tot local overflow v6) =
     4 + length (encode_signed rowid) + length (varint_encode (index_total_raw tot v6)) + length local + 4"

text \<open>The encoder that appends to a vector.\<close>

fun cell_encode :: "cell \<Rightarrow> bytes" where
  "cell_encode (TableLeafCell rowid payload) = encode_signed rowid @ varint_encode (len64 payload) @ payload"
| "cell_encode (TableLeafOverflow rowid tot local overflow) =
     encode_signed rowid @ varint_encode tot @ local @ be32 overflow"
| "cell_encode (TableInteriorCell lc key) = be32 lc @ encode_signed key"
| "cell_encode (IndexLeafCell key rowid) = encode_signed rowid @ varint_encode (len64 key) @ key"
| "cell_encode (IndexLeafOverflow rowid tot local overflow v6) =
     encode_signed rowid @ varint_encode (index_total_raw tot v6) @ local @ be32 overflow"
| "cell_encode (IndexInteriorCell lc key rowid) =
     be32 lc @ encode_signed rowid @ varint_encode (len64 key) @ key"
| "cell_encode (IndexInteriorOverflow lc rowid tot local overflow v6) =
     be32 lc @ encode_signed rowid @ varint_encode (index_total_raw tot v6) @ local @ be32 overflow"

text \<open>The encoder that fills a slice of the page, one piece after the other.\<close>

definition put_next :: "bytes \<times> nat \<Rightarrow> bytes \<Rightarrow> (bytes \<times> nat) outcome" where
  "put_next s b = bind_outcome (copy_at (fst s) (snd s) b) (\<lambda>out. Ok (out, snd s + length b))"

fun encode_pieces :: "cell \<Rightarrow> bytes list" where
  "encode_pieces (TableLeafCell rowid payload) = [encode_signed rowid, varint_encode (len64 payload), payload]"
| "encode_pieces (TableLeafOverflow rowid tot local overflow) =
     [encode_signed rowid, varint_encode tot, local, be32 overflow]"
| "encode_pieces (TableInteriorCell lc key) = [be32 lc, encode_signed key]"
| "encode_pieces (IndexLeafCell key rowid) = [encode_signed rowid, varint_encode (len64 key), key]"
| "encode_pieces (IndexLeafOverflow rowid tot local overflow v6) =
     [encode_signed rowid, varint_encode (index_total_raw tot v6), local, be32 overflow]"
| "encode_pieces (IndexInteriorCell lc key rowid) =
     [be32 lc, encode_signed rowid, varint_encode (len64 key), key]"
| "encode_pieces (IndexInteriorOverflow lc rowid tot local overflow v6) =
     [be32 lc, encode_signed rowid, varint_encode (index_total_raw tot v6), local, be32 overflow]"

definition encode_into :: "cell \<Rightarrow> bytes \<Rightarrow> bytes outcome" where
  "encode_into c out = bind_outcome (fold_outcome put_next (out, 0) (encode_pieces c)) (\<lambda>s. Ok (fst s))"

definition of_be32 :: "bytes \<Rightarrow> u32" where
  "of_be32 bs = word_of_nat (be_nat bs)"

definition decode_leaf_table :: "bytes \<Rightarrow> nat \<Rightarrow> cell outcome" where
  "decode_leaf_table buf psz =
     bind_outcome (ok_or (decode_signed buf) ''truncated leaf rowid'') (\<lambda>(rowid, n).
     bind_outcome (ok_or (varint_decode (drop n buf)) ''truncated leaf payload length'') (\<lambda>(plen, m).
       let rest = drop m (drop n buf) in
       bind_outcome (overflow_local_len_for (unat plen) psz) (\<lambda>local_len.
         if local_len = unat plen
         then if length rest < unat plen then Err ''truncated leaf payload''
              else Ok (TableLeafCell rowid (take (unat plen) rest))
         else if length rest < local_len + 4 then Err ''truncated overflow leaf cell''
              else Ok (TableLeafOverflow rowid plen (take local_len rest) (of_be32 (take 4 (drop local_len rest)))))))"

definition decode_interior_table :: "bytes \<Rightarrow> cell outcome" where
  "decode_interior_table buf =
     (if length buf < 4 then Err ''truncated interior child''
      else bind_outcome (ok_or (decode_signed (drop 4 buf)) ''truncated interior key'') (\<lambda>(key, _).
             Ok (TableInteriorCell (of_be32 (take 4 buf)) key)))"

definition decode_leaf_index :: "bytes \<Rightarrow> nat \<Rightarrow> cell outcome" where
  "decode_leaf_index buf psz =
     bind_outcome (ok_or (decode_signed buf) ''truncated index leaf rowid'') (\<lambda>(rowid, n).
     bind_outcome (ok_or (varint_decode (drop n buf)) ''truncated index leaf key length'') (\<lambda>(raw_len, m).
       let rest = drop m (drop n buf) in
       bind_outcome (index_cell_split raw_len psz) (\<lambda>(key_len, local_len, v6).
         if local_len = key_len
         then if length rest < key_len then Err ''truncated index leaf key''
              else Ok (IndexLeafCell (take key_len rest) rowid)
         else if length rest < local_len + 4 then Err ''truncated index leaf overflow cell''
              else Ok (IndexLeafOverflow rowid (word_of_nat key_len) (take local_len rest) (of_be32 (take 4 (drop local_len rest))) v6))))"

definition decode_interior_index :: "bytes \<Rightarrow> nat \<Rightarrow> cell outcome" where
  "decode_interior_index buf psz =
     (if length buf < 4 then Err ''truncated index interior child''
      else
        bind_outcome (ok_or (decode_signed (drop 4 buf)) ''truncated index interior rowid'') (\<lambda>(rowid, n).
        bind_outcome (ok_or (varint_decode (drop (4 + n) buf)) ''truncated index interior key length'') (\<lambda>(raw_len, m).
          let rest = drop m (drop (4 + n) buf) in
          bind_outcome (index_cell_split raw_len psz) (\<lambda>(key_len, local_len, v6).
            if local_len = key_len
            then if length rest < key_len then Err ''truncated index interior key''
                 else Ok (IndexInteriorCell (of_be32 (take 4 buf)) (take key_len rest) rowid)
            else if length rest < local_len + 4 then Err ''truncated index interior overflow cell''
                 else Ok (IndexInteriorOverflow (of_be32 (take 4 buf)) rowid (word_of_nat key_len) (take local_len rest)
                            (of_be32 (take 4 (drop local_len rest))) v6)))))"

fun cell_decode :: "bytes \<Rightarrow> page_type \<Rightarrow> nat \<Rightarrow> cell outcome" where
  "cell_decode buf LeafTable psz = decode_leaf_table buf psz"
| "cell_decode buf InteriorTable psz = decode_interior_table buf"
| "cell_decode buf LeafIndex psz = decode_leaf_index buf psz"
| "cell_decode buf InteriorIndex psz = decode_interior_index buf psz"
| "cell_decode buf Overflow psz = Err ''overflow page reached as a btree cell page''"

subsection \<open>Sizes and views\<close>

text \<open>\<open>None\<close> is a truncated cell. Lengths are added in \<^verbatim>\<open>usize\<close>.\<close>

definition index_leaf_cell_size :: "bytes \<Rightarrow> nat \<Rightarrow> nat option outcome" where
  "index_leaf_cell_size buf psz =
     (case decode_signed buf of None \<Rightarrow> Ok None
      | Some (_, n1) \<Rightarrow>
          (case varint_decode (drop n1 buf) of None \<Rightarrow> Ok None
           | Some (raw, n2) \<Rightarrow>
               bind_outcome (index_cell_split raw psz) (\<lambda>(klen, local, _).
                 Ok (Some (if local = klen then usize_add (n1 + n2) klen else usize_add (n1 + n2) (local + 4))))))"

definition table_leaf_cell_size :: "bytes \<Rightarrow> nat option" where
  "table_leaf_cell_size buf =
     (case decode_signed buf of None \<Rightarrow> None
      | Some (_, n1) \<Rightarrow>
          (case varint_decode (drop n1 buf) of None \<Rightarrow> None
           | Some (plen, n2) \<Rightarrow> Some (usize_add (n1 + n2) (unat plen))))"

definition table_leaf_cell_size_paged :: "bytes \<Rightarrow> nat \<Rightarrow> nat option outcome" where
  "table_leaf_cell_size_paged buf psz =
     (case decode_signed buf of None \<Rightarrow> Ok None
      | Some (_, n1) \<Rightarrow>
          (case varint_decode (drop n1 buf) of None \<Rightarrow> Ok None
           | Some (plen, n2) \<Rightarrow>
               bind_outcome (overflow_local_len_for (unat plen) psz) (\<lambda>local.
                 Ok (Some (if local = unat plen then usize_add (n1 + n2) (unat plen) else usize_add (n1 + n2) (local + 4))))))"

record index_view =
  iv_key :: bytes
  iv_rowid :: i64
  iv_left_child :: u32
  iv_total :: u64
  iv_overflow :: u32

definition decode_index_cell :: "bytes \<Rightarrow> bool \<Rightarrow> nat \<Rightarrow> index_view option outcome" where
  "decode_index_cell buf interior psz =
     (if interior \<and> length buf < 4 then Ok None
      else
        let child = (if interior then of_be32 (take 4 buf) else 0); after = (if interior then 4 else 0) in
        case decode_signed (drop after buf) of None \<Rightarrow> Ok None
        | Some (rowid, n) \<Rightarrow>
            (case varint_decode (drop (after + n) buf) of None \<Rightarrow> Ok None
             | Some (raw_len, m) \<Rightarrow>
                 let rest = drop m (drop (after + n) buf) in
                 bind_outcome (index_cell_split raw_len psz) (\<lambda>(key_len, local_len, _).
                   if local_len = key_len
                   then if length rest < key_len then Ok None
                        else Ok (Some \<lparr>iv_key = take key_len rest, iv_rowid = rowid, iv_left_child = child,
                                       iv_total = word_of_nat key_len, iv_overflow = 0\<rparr>)
                   else if length rest < local_len + 4 then Ok None
                        else Ok (Some \<lparr>iv_key = take local_len rest, iv_rowid = rowid, iv_left_child = child,
                                       iv_total = word_of_nat key_len, iv_overflow = of_be32 (take 4 (drop local_len rest))\<rparr>))))"

text \<open>The comparison of byte strings eight bytes at a time.\<close>

function cmp_words :: "bytes \<Rightarrow> bytes \<Rightarrow> nat \<Rightarrow> nat \<Rightarrow> ordering + nat" where
  "cmp_words a b n i =
     (if i + 8 \<le> n
      then let x = be_nat (take 8 (drop i a)); y = be_nat (take 8 (drop i b)) in
           if x \<noteq> y then Inl (cmp_of x y) else cmp_words a b n (i + 8)
      else Inr i)"
  by pat_completeness auto
termination
  by (relation "measure (\<lambda>(a, b, n, i). n - i)") auto

function cmp_tail :: "bytes \<Rightarrow> bytes \<Rightarrow> nat \<Rightarrow> nat \<Rightarrow> ordering" where
  "cmp_tail a b n i =
     (if i < n then if a ! i \<noteq> b ! i then cmp_of (a ! i) (b ! i) else cmp_tail a b n (i + 1)
      else cmp_of (length a) (length b))"
  by pat_completeness auto
termination
  by (relation "measure (\<lambda>(a, b, n, i). n - i)") auto

declare cmp_words.simps [simp del] cmp_tail.simps [simp del]

definition cmp_key_bytes :: "bytes \<Rightarrow> bytes \<Rightarrow> ordering" where
  "cmp_key_bytes a b =
     (let n = min (length a) (length b) in
      case cmp_words a b n 0 of Inl c \<Rightarrow> c | Inr i \<Rightarrow> cmp_tail a b n i)"

definition key_starts_with :: "bytes \<Rightarrow> bytes \<Rightarrow> bool" where
  "key_starts_with a b \<longleftrightarrow> length b \<le> length a \<and> cmp_key_bytes (take (length b) a) b = Equal"

text \<open>Skipping a varint; \<open>None\<close> past the end of the buffer.\<close>

function skip_varint :: "bytes \<Rightarrow> nat \<Rightarrow> nat option" where
  "skip_varint rb rlen =
     (if rlen < length rb
      then if rb ! rlen < 0x80 \<or> rlen + 1 = 9 then Some (rlen + 1) else skip_varint rb (rlen + 1)
      else None)"
  by pat_completeness auto
termination
  by (relation "measure (\<lambda>(rb, rlen). length rb - rlen)") auto

declare skip_varint.simps [simp del]

definition index_cell_lt :: "bytes \<Rightarrow> bool \<Rightarrow> nat \<Rightarrow> bytes \<Rightarrow> i64 \<Rightarrow> bool option option outcome" where
  "index_cell_lt buf interior psz key rowid =
     (if interior \<and> length buf < 4 then Ok None
      else
        let rb = (if interior then drop 4 buf else buf) in
        case skip_varint rb 0 of None \<Rightarrow> Ok None
        | Some rlen \<Rightarrow>
            (case varint_decode (drop rlen rb) of None \<Rightarrow> Ok None
             | Some (raw_len, m) \<Rightarrow>
                 let rest = drop rlen rb; tot = unat (raw_len AND NOT INDEX_V6_MARK) in
                 bind_outcome
                   (if tot \<le> 64 then Ok (Some tot)
                    else bind_outcome (index_cell_split raw_len psz) (\<lambda>(key_len, local_len, _).
                           Ok (if local_len \<noteq> key_len then None else Some key_len)))
                   (\<lambda>kl. case kl of None \<Rightarrow> Ok (Some None)
                     | Some key_len \<Rightarrow>
                         if length rest < m + key_len then Ok None
                         else
                           (case cmp_key_bytes (take key_len (drop m rest)) key of
                              Less \<Rightarrow> Ok (Some (Some True))
                            | Greater \<Rightarrow> Ok (Some (Some False))
                            | Equal \<Rightarrow> (case decode_signed rb of None \<Rightarrow> Ok None | Some (r, _) \<Rightarrow> Ok (Some (Some (sint r < sint rowid))))))))"

definition decode_table_interior_key :: "bytes \<Rightarrow> i64 option" where
  "decode_table_interior_key buf = (if length buf < 4 then None else map_option fst (decode_signed (drop 4 buf)))"

definition decode_table_interior_child :: "bytes \<Rightarrow> u32 option" where
  "decode_table_interior_child buf = (if length buf < 4 then None else Some (of_be32 (take 4 buf)))"

definition decode_rowid_only :: "bytes \<Rightarrow> (i64 \<times> nat) option" where
  "decode_rowid_only buf = decode_signed buf"

end
