(* ===== verification/Btree_Page.thy ===== *)
theory Btree_Page
  imports Btree_Cell
begin

text \<open>
  The operations of \<^verbatim>\<open>src/storage/btree.rs\<close> on one page: searching, inserting and removing a cell,
  laying out sorted cells, reading the cells of a leaf and compacting it. The page the pager hands
  out is the argument and the page it gets back is the result; marking it dirty in the pager and
  the append hint of the tree handle, which is advisory, are not modelled. The reassembly of an
  overflow payload follows a chain of other pages: it is the argument \<open>asm\<close>, from the local part,
  the total length and the first page of the chain to the payload, and \<open>Btree_Overflow\<close> defines it.
\<close>

type_synonym assemble = "bytes \<Rightarrow> u64 \<Rightarrow> u32 \<Rightarrow> bytes outcome"

subsection \<open>Searching\<close>

datatype probe = GoRight | GoLeft | Stop

text \<open>
  The binary search of an insert. Its bounds are \<^verbatim>\<open>u16\<close>, so their sum wraps; on a page whose header
  claims more than 32767 cells the loop need not end, and \<open>None\<close> is not ending.
\<close>

partial_function (option) bsearch :: "(nat \<Rightarrow> probe outcome) \<Rightarrow> nat \<Rightarrow> nat \<Rightarrow> nat outcome option" where
  "bsearch probe lo hi =
     (if lo < hi
      then let mid = (lo + hi) mod 65536 div 2 in
           case probe mid of
             Ok GoRight \<Rightarrow> bsearch probe ((mid + 1) mod 65536) hi
           | Ok GoLeft \<Rightarrow> bsearch probe lo mid
           | Ok Stop \<Rightarrow> Some (Ok lo)
           | Err e \<Rightarrow> Some (Err e)
           | Panic \<Rightarrow> Some Panic
      else Some (Ok lo))"

definition index_view_key :: "assemble \<Rightarrow> index_view \<Rightarrow> bytes outcome" where
  "index_view_key asm v = (if iv_overflow v = 0 then Ok (iv_key v) else asm (iv_key v) (iv_total v) (iv_overflow v))"

fun cell_index_key :: "assemble \<Rightarrow> cell \<Rightarrow> bytes outcome" where
  "cell_index_key asm (IndexLeafCell key rowid) = Ok key"
| "cell_index_key asm (IndexInteriorCell lc key rowid) = Ok key"
| "cell_index_key asm (IndexLeafOverflow rowid tot local overflow v6) = asm local tot overflow"
| "cell_index_key asm (IndexInteriorOverflow lc rowid tot local overflow v6) = asm local tot overflow"
| "cell_index_key asm _ = Ok []"

definition key_lt :: "bytes \<Rightarrow> i64 \<Rightarrow> bytes \<Rightarrow> i64 \<Rightarrow> bool" where
  "key_lt k r nk nr \<longleftrightarrow> and_then (cmp_list k nk) (sint_cmp r nr) = Less"

definition index_probe :: "string \<Rightarrow> assemble \<Rightarrow> page \<Rightarrow> bool \<Rightarrow> bytes \<Rightarrow> i64 \<Rightarrow> nat \<Rightarrow> probe outcome" where
  "index_probe msg asm p interior nk nr mid =
     bind_outcome (cell_pointer p mid) (\<lambda>ptr.
     bind_outcome (cell_slice_checked p ptr) (\<lambda>stored.
     bind_outcome (index_cell_lt stored interior (page_size p) nk nr) (\<lambda>fast.
       case fast of
         Some (Some True) \<Rightarrow> Ok GoRight
       | Some (Some False) \<Rightarrow> Ok GoLeft
       | _ \<Rightarrow>
           bind_outcome (decode_index_cell stored interior (page_size p)) (\<lambda>d.
             case d of None \<Rightarrow> Err msg
             | Some v \<Rightarrow>
                 bind_outcome (if iv_overflow v \<noteq> 0 then index_view_key asm v else Ok (iv_key v)) (\<lambda>full.
                   Ok (if key_lt full (iv_rowid v) nk nr then GoRight else GoLeft))))))"

definition table_probe :: "page \<Rightarrow> bool \<Rightarrow> i64 \<Rightarrow> nat \<Rightarrow> probe outcome" where
  "table_probe p interior target mid =
     bind_outcome (cell_pointer p mid) (\<lambda>ptr.
     bind_outcome (cell_slice_checked p ptr) (\<lambda>stored.
       case (if interior then decode_table_interior_key stored else map_option fst (decode_signed stored)) of
         None \<Rightarrow> Ok Stop
       | Some k \<Rightarrow> Ok (if sint k < sint target then GoRight else GoLeft)))"

definition find_pos ::
    "assemble \<Rightarrow> page \<Rightarrow> page_type \<Rightarrow> cell \<Rightarrow> nat outcome option" where
  "find_pos asm p pt c =
     (if is_index pt
      then case (if index_overflow c \<noteq> 0 then cell_index_key asm c else Ok (index_key c)) of
             Ok nk \<Rightarrow> bsearch (index_probe ''truncated index cell in search'' asm p (is_interior pt) nk (cell_key c)) 0 (n_cells p)
           | Err e \<Rightarrow> Some (Err e)
           | Panic \<Rightarrow> Some Panic
      else bsearch (table_probe p (is_interior pt) (cell_key c)) 0 (n_cells p))"

text \<open>The search of a table leaf: the position that holds the rowid, or the one where it would go.\<close>

definition leaf_rowid :: "page \<Rightarrow> nat \<Rightarrow> string \<Rightarrow> i64 outcome" where
  "leaf_rowid p i msg =
     (let ptr = get16 (pg_data p) (cell_pointer_base p + i * 2) in
      if length (pg_data p) < ptr then Err msg
      else case decode_rowid_only (drop ptr (pg_data p)) of None \<Rightarrow> Err msg | Some (r, _) \<Rightarrow> Ok r)"

function leaf_search_loop :: "page \<Rightarrow> i64 \<Rightarrow> nat \<Rightarrow> nat \<Rightarrow> (nat + nat) outcome" where
  "leaf_search_loop p rowid lo hi =
     (if lo < hi
      then let mid = lo + (hi - lo) div 2 in
           bind_outcome (leaf_rowid p mid ''truncated leaf rowid in search'') (\<lambda>r.
             if sint r < sint rowid then leaf_search_loop p rowid (mid + 1) hi
             else if sint rowid < sint r then leaf_search_loop p rowid lo mid
             else Ok (Inl mid))
      else Ok (Inr lo))"
  by pat_completeness auto
termination
  by (relation "measure (\<lambda>(p, rowid, lo, hi). hi - lo)") auto

declare leaf_search_loop.simps [simp del]

definition table_leaf_search :: "page \<Rightarrow> i64 \<Rightarrow> (nat + nat) outcome" where
  "table_leaf_search p rowid =
     (if length (pg_data p) < cell_pointer_base p + n_cells p * 2 then Err ''cell pointer array overruns the page''
      else leaf_search_loop p rowid 0 (n_cells p))"

function bracket_loop :: "page \<Rightarrow> i64 \<Rightarrow> nat \<Rightarrow> nat \<Rightarrow> nat option outcome" where
  "bracket_loop p rowid lo hi =
     (if lo < hi
      then let mid = (lo + hi) div 2 in
           bind_outcome (leaf_rowid p mid ''truncated leaf rowid in biased search'') (\<lambda>r.
             if r = rowid then Ok (Some mid)
             else if sint r < sint rowid then bracket_loop p rowid (mid + 1) hi
             else bracket_loop p rowid lo mid)
      else Ok None)"
  by pat_completeness auto
termination
  by (relation "measure (\<lambda>(p, rowid, lo, hi). hi - lo)") auto

declare bracket_loop.simps [simp del]

definition biased_rowid_search :: "page \<Rightarrow> nat \<Rightarrow> nat \<Rightarrow> i64 \<Rightarrow> nat option outcome" where
  "biased_rowid_search p n bias0 rowid =
     (if n = 0 then Ok None
      else if bias0 = 0
      then bind_outcome (table_leaf_search p rowid) (\<lambda>r. Ok (case r of Inl i \<Rightarrow> Some i | Inr _ \<Rightarrow> None))
      else if length (pg_data p) < cell_pointer_base p + n * 2 then Err ''cell pointer array overruns the page''
      else
        let bias = min bias0 (n - 1) in
        bind_outcome (leaf_rowid p bias ''truncated leaf rowid in biased search'') (\<lambda>b.
          if b = rowid then Ok (Some bias)
          else if sint rowid < sint b then bracket_loop p rowid 0 bias
          else
            let lo = bias + 1 in
            if lo < n
            then bind_outcome (leaf_rowid p lo ''truncated leaf rowid in biased search'') (\<lambda>r.
                   if r = rowid then Ok (Some lo)
                   else if sint r < sint rowid then bracket_loop p rowid (lo + 1) n
                   else bracket_loop p rowid lo lo)
            else bracket_loop p rowid lo n))"

subsection \<open>Live bytes\<close>

definition leaf_cell_size :: "page_type \<Rightarrow> bytes \<Rightarrow> nat \<Rightarrow> nat option outcome" where
  "leaf_cell_size pt buf psz = (if pt = LeafIndex then index_leaf_cell_size buf psz else table_leaf_cell_size_paged buf psz)"

fun live_loop :: "page \<Rightarrow> page_type \<Rightarrow> nat \<Rightarrow> nat list \<Rightarrow> nat \<Rightarrow> nat option outcome" where
  "live_loop p pt usable [] used = Ok (Some used)"
| "live_loop p pt usable (i # is) used =
     bind_outcome (cell_pointer p i) (\<lambda>ptr.
       if ptr < PAGE_HEADER_SIZE \<or> length (pg_data p) \<le> ptr then Ok None
       else bind_outcome (leaf_cell_size pt (drop ptr (pg_data p)) (page_size p)) (\<lambda>size.
              live_loop p pt usable is (usize_add used ((case size of None \<Rightarrow> usable | Some s \<Rightarrow> s) + 2))))"

definition leaf_live_bytes :: "page \<Rightarrow> page_type \<Rightarrow> nat \<Rightarrow> nat option outcome" where
  "leaf_live_bytes p pt usable = live_loop p pt usable [0..<n_cells p] 0"

definition live_cache_adjust :: "page \<Rightarrow> page_type \<Rightarrow> u32 \<times> nat \<times> nat \<Rightarrow> nat \<Rightarrow> bool \<Rightarrow> nat option outcome" where
  "live_cache_adjust p pt before ptr grow =
     (if \<not> is_leaf pt then Ok None
      else case pg_live_cache p of None \<Rightarrow> Ok None
      | Some (e, n, cs, live) \<Rightarrow>
          if (e, n, cs) \<noteq> before \<or> length (pg_data p) \<le> ptr then Ok None
          else bind_outcome (leaf_cell_size pt (drop ptr (pg_data p)) (page_size p)) (\<lambda>size.
                 Ok (map_option (\<lambda>s. let sz = (s mod 2 ^ 32 + 2) mod 2 ^ 32 in if grow then (live + sz) mod 2 ^ 32 else live - sz) size)))"

subsection \<open>Inserting and removing\<close>

definition encode_at :: "bytes \<Rightarrow> nat \<Rightarrow> cell \<Rightarrow> bytes outcome" where
  "encode_at data off c =
     bind_outcome (slice data off (off + cell_encoded_size c)) (\<lambda>out.
     bind_outcome (encode_into c out) (\<lambda>bs. Ok (put data off bs)))"

definition write_cell :: "page \<Rightarrow> page_type \<Rightarrow> cell \<Rightarrow> nat \<Rightarrow> page outcome" where
  "write_cell p0 pt c pos =
     (let n = n_cells p0; size = cell_encoded_size c; start = cell_content_start p0 - size mod 2 ^ 32 in
      if start = 0 \<and> 0 < size \<and> cell_content_start p0 < size mod 2 ^ 32 then Err ''cell does not fit page''
      else if length (pg_data p0) < start + size then Err ''cell content area out of range in insert''
      else
        bind_outcome (encode_at (pg_data p0) start c) (\<lambda>d1.
        let p1 = p0\<lparr>pg_data := d1\<rparr> in
        bind_outcome (live_cache_adjust p1 pt (pg_epoch p0, n, cell_content_start p0) start True) (\<lambda>live_after.
        let p2 = set_cell_content_start p1 start; base = header_offset p0 + PAGE_HEADER_SIZE in
        bind_outcome (copy_within (pg_data p2) (base + pos * 2) (base + n * 2) (base + (pos + 1) * 2)) (\<lambda>d3.
        bind_outcome (copy_at d3 (base + pos * 2) (be_bytes 2 start)) (\<lambda>d4.
        let p5 = touch (set_n_cells (p2\<lparr>pg_data := d4\<rparr>) (n + 1)) in
        Ok (p5\<lparr>pg_live_cache := map_option (\<lambda>l. (pg_epoch p5, (n + 1) mod 2 ^ 16, cell_content_start p5, l)) live_after\<rparr>))))))"

definition insert_cell_into_ref_at ::
    "assemble \<Rightarrow> page \<Rightarrow> cell \<Rightarrow> nat option \<Rightarrow> page outcome option" where
  "insert_cell_into_ref_at asm p c known_pos =
     (case page_type_of p of
        Ok pt \<Rightarrow>
          (case (case known_pos of Some pos \<Rightarrow> Some (Ok pos) | None \<Rightarrow> find_pos asm p pt c) of
             None \<Rightarrow> None
           | Some (Ok pos) \<Rightarrow> Some (write_cell p pt c pos)
           | Some (Err e) \<Rightarrow> Some (Err e)
           | Some Panic \<Rightarrow> Some Panic)
      | Err e \<Rightarrow> Some (Err e)
      | Panic \<Rightarrow> Some Panic)"

definition remove_cell_at :: "page \<Rightarrow> nat \<Rightarrow> nat \<Rightarrow> page outcome" where
  "remove_cell_at p pos n =
     (let base = header_offset p + PAGE_HEADER_SIZE in
      bind_outcome
        (case page_type_of p of
           Ok pt \<Rightarrow> bind_outcome (cell_pointer p pos) (\<lambda>ptr. live_cache_adjust p pt (pg_epoch p, n, cell_content_start p) ptr False)
         | _ \<Rightarrow> Ok None) (\<lambda>live_after.
      bind_outcome (copy_within (pg_data p) (base + (pos + 1) * 2) (base + n * 2) (base + pos * 2)) (\<lambda>d.
        let p' = touch (set_n_cells (p\<lparr>pg_data := d\<rparr>) (n - 1)) in
        Ok (p'\<lparr>pg_live_cache := map_option (\<lambda>l. (pg_epoch p', n - 1, cell_content_start p', l)) live_after\<rparr>))))"

text \<open>The append of a local table cell as the last of its page; \<open>None\<close> is the answer false.\<close>

definition append_table_leaf_cell :: "page \<Rightarrow> nat \<Rightarrow> i64 \<Rightarrow> bytes \<Rightarrow> page option outcome" where
  "append_table_leaf_cell p n rowid payload =
     (let rid = encode_signed rowid; plen = varint_encode (len64 payload);
          size = length rid + length plen + length payload; start = cell_content_start p in
      if start < size \<or> length (pg_data p) < start then Ok None
      else
        let off = start - size in
        bind_outcome (put_all (pg_data p) [(off, rid), (off + length rid, plen), (off + length rid + length plen, payload)]) (\<lambda>d.
        let p1 = set_cell_content_start (p\<lparr>pg_data := d\<rparr>) off in
        bind_outcome (copy_at (pg_data p1) (header_offset p + PAGE_HEADER_SIZE + n * 2) (be_bytes 2 off)) (\<lambda>d2.
          Ok (Some (touch (set_n_cells (p1\<lparr>pg_data := d2\<rparr>) (n + 1)))))))"

subsection \<open>Whole pages\<close>

fun ordered_loop :: "cell list \<Rightarrow> bytes \<Rightarrow> nat \<Rightarrow> nat \<Rightarrow> (bytes \<times> nat) outcome" where
  "ordered_loop [] data ptr start = Ok (data, start)"
| "ordered_loop (c # cs) data ptr start =
     (if start < cell_encoded_size c \<or> start - cell_encoded_size c < ptr + 2 then Err ''cells do not fit page''
      else
        let start' = start - cell_encoded_size c in
        bind_outcome (encode_at data start' c) (\<lambda>d.
        bind_outcome (copy_at d ptr (be_bytes 2 start')) (\<lambda>d'. ordered_loop cs d' (ptr + 2) start')))"

definition write_ordered_cells :: "page \<Rightarrow> cell list \<Rightarrow> page outcome" where
  "write_ordered_cells p cells =
     (if n_cells p \<noteq> 0 then Err ''page is not empty for an ordered rebuild''
      else bind_outcome (ordered_loop cells (pg_data p) (header_offset p + PAGE_HEADER_SIZE) (cell_content_start p)) (\<lambda>(d, start).
             Ok (touch (set_n_cells (set_cell_content_start (p\<lparr>pg_data := d\<rparr>) start) (length cells)))))"

fun leaf_cells_loop :: "page \<Rightarrow> page_type \<Rightarrow> nat list \<Rightarrow> bytes list option outcome" where
  "leaf_cells_loop p pt [] = Ok (Some [])"
| "leaf_cells_loop p pt (i # is) =
     bind_outcome (cell_pointer p i) (\<lambda>ptr.
       if ptr < PAGE_HEADER_SIZE \<or> length (pg_data p) \<le> ptr then Ok None
       else bind_outcome (leaf_cell_size pt (drop ptr (pg_data p)) (page_size p)) (\<lambda>size.
              case size of
                Some n \<Rightarrow>
                  if 0 < n \<and> usize_add ptr n \<le> length (pg_data p)
                  then bind_outcome (slice (pg_data p) ptr (usize_add ptr n)) (\<lambda>c.
                       bind_outcome (leaf_cells_loop p pt is) (\<lambda>cs. Ok (map_option (Cons c) cs)))
                  else Ok None
              | None \<Rightarrow> Ok None))"

definition leaf_cells :: "page \<Rightarrow> (page_type \<times> bytes list) option outcome" where
  "leaf_cells p =
     bind_outcome (page_type_of p) (\<lambda>pt.
       if \<not> is_leaf pt then Ok None
       else bind_outcome (leaf_cells_loop p pt [0..<n_cells p]) (\<lambda>cs. Ok (map_option (Pair pt) cs)))"

fun slices_loop :: "bytes list \<Rightarrow> nat \<Rightarrow> bytes \<Rightarrow> nat \<Rightarrow> (bytes \<times> nat) outcome" where
  "slices_loop [] i data write_off = Ok (data, write_off)"
| "slices_loop (c # cs) i data write_off =
     (if write_off < length c then Panic
      else
        let off = write_off - length c in
        bind_outcome (copy_at data off c) (\<lambda>d.
        bind_outcome (copy_at d (PAGE_HEADER_SIZE + i * 2) (be_bytes 2 off)) (\<lambda>d'. slices_loop cs (i + 1) d' off)))"

definition write_leaf_slices :: "page \<Rightarrow> bytes list \<Rightarrow> page outcome" where
  "write_leaf_slices p cells =
     bind_outcome (slices_loop cells 0 (pg_data p) (length (pg_data p))) (\<lambda>(d, off).
       Ok (touch (set_cell_content_start (set_n_cells (p\<lparr>pg_data := d\<rparr>) (length cells)) off)))"

text \<open>The compaction of a fragmented leaf. The sum of the sizes stops at the first cell that is no whole cell.\<close>

fun sum_sizes :: "page \<Rightarrow> page_type \<Rightarrow> nat list \<Rightarrow> nat \<Rightarrow> nat option outcome" where
  "sum_sizes p pt [] tot = Ok (Some tot)"
| "sum_sizes p pt (i # is) tot =
     bind_outcome (cell_pointer p i) (\<lambda>ptr.
       if length (pg_data p) \<le> ptr then Ok None
       else bind_outcome (leaf_cell_size pt (drop ptr (pg_data p)) (length (pg_data p))) (\<lambda>size.
              case size of
                Some s \<Rightarrow> if 0 < s \<and> usize_add ptr s \<le> length (pg_data p) then sum_sizes p pt is (tot + s) else Ok None
              | None \<Rightarrow> Ok None))"

fun scratch_copy :: "page \<Rightarrow> page_type \<Rightarrow> nat list \<Rightarrow> bytes list outcome" where
  "scratch_copy p pt [] = Ok []"
| "scratch_copy p pt (i # is) =
     bind_outcome (cell_pointer p i) (\<lambda>ptr.
     bind_outcome (slice (pg_data p) ptr (length (pg_data p))) (\<lambda>buf.
     bind_outcome (leaf_cell_size pt buf (length (pg_data p))) (\<lambda>size.
     bind_outcome (slice (pg_data p) ptr (usize_add ptr (case size of None \<Rightarrow> 0 | Some s \<Rightarrow> s))) (\<lambda>c.
     bind_outcome (scratch_copy p pt is) (\<lambda>cs. Ok (c # cs))))))"

text \<open>The rewrite from the end of the page, the last cell first; the pairs are position and bytes.\<close>

fun rewrite_loop :: "nat \<Rightarrow> (nat \<times> bytes) list \<Rightarrow> bytes \<Rightarrow> nat \<Rightarrow> (bytes \<times> nat) outcome" where
  "rewrite_loop base [] data write_off = Ok (data, write_off)"
| "rewrite_loop base ((i, c) # cs) data write_off =
     (if write_off < length c then Panic
      else
        let off = write_off - length c in
        bind_outcome (copy_at data off c) (\<lambda>d.
        bind_outcome (copy_at d (base + i * 2) (be_bytes 2 off)) (\<lambda>d'. rewrite_loop base cs d' off)))"

definition compact_leaf_if_fragmented :: "page \<Rightarrow> nat \<Rightarrow> (page \<times> bool) outcome" where
  "compact_leaf_if_fragmented p need =
     bind_outcome (page_type_of p) (\<lambda>pt.
       let psz = page_size p; n = n_cells p; start = cell_content_start p in
       if \<not> is_leaf pt then Ok (p, False)
       else if n = 0
       then let p' = set_cell_content_start p psz in Ok (p', need \<le> free_space p')
       else if (case pg_live_cache p of None \<Rightarrow> False
                | Some (e, cn, cs, live) \<Rightarrow> (e, cn, cs) = (pg_epoch p, n, start) \<and> (live - 2 * n) + start = psz)
       then Ok (p, False)
       else
         bind_outcome (sum_sizes p pt [0..<n] 0) (\<lambda>sum.
           case sum of None \<Rightarrow> Ok (p, False)
           | Some live_bytes \<Rightarrow>
               let base = header_offset p + PAGE_HEADER_SIZE in
               if live_bytes + start = psz then Ok (p, False)
               else if psz - (base + (n + 1) * 2 + live_bytes) < need then Ok (p, False)
               else
                 bind_outcome (scratch_copy p pt [0..<n]) (\<lambda>cells.
                 bind_outcome (rewrite_loop base (rev (zip [0..<n] cells)) (pg_data p) psz) (\<lambda>(d, off).
                   Ok (touch (set_cell_content_start (p\<lparr>pg_data := d\<rparr>) off), True)))))"

subsection \<open>The leaf operations of the tree\<close>

text \<open>
  The leaf branch of \<^verbatim>\<open>insert_into_page\<close>. A leaf that is full even after compaction is handed to
  the balancing of the tree (\<open>Full\<close>, with the page as it is then).
\<close>

datatype leaf_insert = Done page | Duplicate | Full page

fun run_then :: "'a outcome option \<Rightarrow> ('a \<Rightarrow> 'b outcome option) \<Rightarrow> 'b outcome option" where
  "run_then None f = None"
| "run_then (Some (Ok x)) f = f x"
| "run_then (Some (Err e)) f = Some (Err e)"
| "run_then (Some Panic) f = Some Panic"

definition insert_with_room :: "assemble \<Rightarrow> page \<Rightarrow> cell \<Rightarrow> nat option \<Rightarrow> leaf_insert outcome option" where
  "insert_with_room asm p c known_pos =
     (if free_space p < (cell_encoded_size c mod 2 ^ 32 + 2) mod 2 ^ 32
      then run_then (Some (compact_leaf_if_fragmented p (cell_encoded_size c + 2))) (\<lambda>(p', fits).
             if fits then run_then (insert_cell_into_ref_at asm p' c None) (\<lambda>q. Some (Ok (Done q))) else Some (Ok (Full p')))
      else run_then (insert_cell_into_ref_at asm p c known_pos) (\<lambda>q. Some (Ok (Done q))))"

definition insert_into_leaf :: "assemble \<Rightarrow> bool \<Rightarrow> page \<Rightarrow> cell \<Rightarrow> leaf_insert outcome option" where
  "insert_into_leaf asm reject_dup_rowid p c =
     run_then (Some (page_type_of p)) (\<lambda>pt.
       if reject_dup_rowid \<and> pt = LeafTable
       then run_then (Some (table_leaf_search p (cell_key c))) (\<lambda>r.
              case r of Inl _ \<Rightarrow> Some (Ok Duplicate) | Inr pos \<Rightarrow> insert_with_room asm p c (Some pos))
       else insert_with_room asm p c None)"

text \<open>
  Lookups: the row of a table leaf, searched from a remembered position. \<open>find_in_leaf\<close> is what
  the lookup through a leaf hint and the descent share.
\<close>

fun cell_payload :: "assemble \<Rightarrow> cell \<Rightarrow> bytes outcome" where
  "cell_payload asm (TableLeafCell rowid payload) = Ok payload"
| "cell_payload asm (TableLeafOverflow rowid tot local overflow) = asm local tot overflow"
| "cell_payload asm _ = Panic"

definition find_in_leaf :: "assemble \<Rightarrow> page \<Rightarrow> page_type \<Rightarrow> nat \<Rightarrow> i64 \<Rightarrow> bytes option outcome" where
  "find_in_leaf asm p pt bias rowid =
     bind_outcome (biased_rowid_search p (n_cells p) bias rowid) (\<lambda>r.
       case r of None \<Rightarrow> Ok None
       | Some idx \<Rightarrow>
           bind_outcome (cell_pointer p (idx mod 2 ^ 16)) (\<lambda>ptr.
           bind_outcome (cell_slice_checked p ptr) (\<lambda>stored.
           bind_outcome (cell_decode stored pt (page_size p)) (\<lambda>c.
           bind_outcome (cell_payload asm c) (\<lambda>payload. Ok (Some payload))))))"

definition lookup_table_leaf :: "assemble \<Rightarrow> page \<Rightarrow> i64 \<Rightarrow> nat \<Rightarrow> bytes option option outcome" where
  "lookup_table_leaf asm p rowid bias =
     bind_outcome (page_type_of p) (\<lambda>pt.
       if pt \<noteq> LeafTable then Ok None
       else if n_cells p = 0 then Ok None
       else bind_outcome (find_in_leaf asm p pt bias rowid) (\<lambda>r. Ok (Some r)))"

text \<open>
  The leaf branch of \<^verbatim>\<open>delete_from_page\<close>. \<open>free_chain\<close> is \<^verbatim>\<open>free_overflow_chain\<close> on the state of the
  pager; the result \<open>None\<close> is the answer false.
\<close>

definition rowid_of_cell :: "page_type \<Rightarrow> bytes \<Rightarrow> nat \<Rightarrow> i64 option outcome" where
  "rowid_of_cell pt stored psz =
     (if pt = LeafIndex then bind_outcome (decode_index_cell stored False psz) (\<lambda>v. Ok (map_option iv_rowid v))
      else Ok (map_option fst (decode_signed stored)))"

definition delete_probe :: "page \<Rightarrow> page_type \<Rightarrow> i64 \<Rightarrow> nat \<Rightarrow> probe outcome" where
  "delete_probe p pt rowid mid =
     bind_outcome (cell_pointer p mid) (\<lambda>ptr.
     bind_outcome (cell_slice_checked p ptr) (\<lambda>stored.
     bind_outcome (rowid_of_cell pt stored (page_size p)) (\<lambda>k.
       case k of None \<Rightarrow> Err (if pt = LeafIndex then ''truncated index cell'' else ''truncated rowid'')
       | Some k \<Rightarrow> Ok (if sint k < sint rowid then GoRight else GoLeft))))"

definition overflow_head :: "bytes \<Rightarrow> nat \<Rightarrow> u32 outcome" where
  "overflow_head rest psz =
     bind_outcome (ok_or (decode_rowid_only rest) ''truncated rowid'') (\<lambda>(_, rn).
     bind_outcome (ok_or (varint_decode (drop rn rest)) ''truncated payload length'') (\<lambda>(plen, pn).
     bind_outcome (overflow_local_len_for (unat plen) psz) (\<lambda>local.
       if local \<noteq> unat plen
       then let at = rn + pn + local in
            if at + 4 \<le> length rest then Ok (of_be32 (take 4 (drop at rest))) else Err ''truncated overflow head''
       else Ok 0)))"

definition live_after_delete :: "page \<Rightarrow> page_type \<Rightarrow> nat \<Rightarrow> nat \<Rightarrow> nat option outcome" where
  "live_after_delete p pt pos n =
     (case pg_live_cache p of None \<Rightarrow> Ok None
      | Some (e, cn, cs, live) \<Rightarrow>
          if (e, cn, cs) \<noteq> (pg_epoch p, n, cell_content_start p) then Ok None
          else
            bind_outcome (cell_pointer p pos) (\<lambda>ptr.
            bind_outcome (slice (pg_data p) ptr (length (pg_data p))) (\<lambda>buf.
            bind_outcome (leaf_cell_size pt buf (page_size p)) (\<lambda>size.
              Ok (map_option (\<lambda>s. live - (s mod 2 ^ 32 + 2) mod 2 ^ 32) size)))))"

definition remove_slot :: "page \<Rightarrow> page_type \<Rightarrow> nat \<Rightarrow> nat \<Rightarrow> page outcome" where
  "remove_slot p pt pos n =
     bind_outcome (live_after_delete p pt pos n) (\<lambda>live_after.
     let base = header_offset p + PAGE_HEADER_SIZE in
     bind_outcome (copy_within (pg_data p) (base + (pos + 1) * 2) (base + n * 2) (base + pos * 2)) (\<lambda>d.
       let p' = touch (set_n_cells (p\<lparr>pg_data := d\<rparr>) (n - 1)) in
       Ok (p'\<lparr>pg_live_cache := map_option (\<lambda>l. (pg_epoch p', n - 1, cell_content_start p', l)) live_after\<rparr>)))"

definition delete_from_leaf :: "('s \<Rightarrow> u32 \<Rightarrow> 's outcome) \<Rightarrow> 's \<Rightarrow> page \<Rightarrow> i64 \<Rightarrow> (page \<times> 's) option outcome option" where
  "delete_from_leaf free_chain s p rowid =
     run_then (Some (page_type_of p)) (\<lambda>pt.
     run_then (bsearch (delete_probe p pt rowid) 0 (n_cells p)) (\<lambda>pos.
       if n_cells p \<le> pos then Some (Ok None)
       else Some (
         bind_outcome (cell_pointer p pos) (\<lambda>ptr.
         bind_outcome (cell_slice_checked p ptr) (\<lambda>stored.
         bind_outcome (rowid_of_cell pt stored (page_size p)) (\<lambda>k.
           if k \<noteq> Some rowid then Ok None
           else
             bind_outcome
               (if pt = LeafTable
                then bind_outcome (overflow_head stored (length (pg_data p))) (\<lambda>overflow.
                       if overflow \<noteq> 0 then free_chain s overflow else Ok s)
                else Ok s) (\<lambda>s'.
             bind_outcome (remove_slot p pt pos (n_cells p)) (\<lambda>p'. Ok (Some (p', s'))))))))))"

text \<open>
  The leaf branch of \<^verbatim>\<open>delete_index_from_page\<close>. The chain of the removed entry is freed after the
  removal; the result \<open>None\<close> is the answer false.
\<close>

definition delete_index_leaf ::
    "assemble \<Rightarrow> ('s \<Rightarrow> u32 \<Rightarrow> 's outcome) \<Rightarrow> 's \<Rightarrow> page \<Rightarrow> bytes \<Rightarrow> i64 \<Rightarrow> (page \<times> 's) option outcome option" where
  "delete_index_leaf asm free_chain s p key rowid =
     run_then (bsearch (index_probe ''truncated index leaf cell'' asm p False key rowid) 0 (n_cells p)) (\<lambda>pos.
       if n_cells p \<le> pos then Some (Ok None)
       else Some (
         bind_outcome (cell_pointer p pos) (\<lambda>ptr.
         bind_outcome (cell_slice_checked p ptr) (\<lambda>stored.
         bind_outcome (decode_index_cell stored False (page_size p)) (\<lambda>d.
           case d of None \<Rightarrow> Ok None
           | Some v \<Rightarrow>
               bind_outcome (if iv_overflow v \<noteq> 0 then index_view_key asm v else Ok (iv_key v)) (\<lambda>full.
                 if \<not> (full = key \<and> iv_rowid v = rowid) then Ok None
                 else
                   bind_outcome (remove_cell_at p pos (n_cells p)) (\<lambda>p'.
                   bind_outcome (if iv_overflow v \<noteq> 0 then free_chain s (iv_overflow v) else Ok s) (\<lambda>s'.
                     Ok (Some (p', s'))))))))))"

text \<open>The live bytes of a leaf through its cache, and the test of an underfull leaf.\<close>

definition leaf_live_cached :: "page \<Rightarrow> nat \<Rightarrow> (page \<times> (page_type \<times> nat) option) outcome" where
  "leaf_live_cached p usable =
     bind_outcome (page_type_of p) (\<lambda>pt.
       if \<not> is_leaf pt then Ok (p, None)
       else
         let key = (pg_epoch p, n_cells p, cell_content_start p);
             recompute = bind_outcome (leaf_live_bytes p pt usable) (\<lambda>used.
               case used of None \<Rightarrow> Ok (p, None)
               | Some u \<Rightarrow> Ok (p\<lparr>pg_live_cache := Some (fst key, fst (snd key), snd (snd key), u mod 2 ^ 32)\<rparr>, Some (pt, u)))
         in case pg_live_cache p of None \<Rightarrow> recompute
            | Some (e, n, cs, live) \<Rightarrow> if (e, n, cs) = key then Ok (p, Some (pt, live)) else recompute)"

definition leaf_is_underfull :: "page \<Rightarrow> nat \<Rightarrow> (page \<times> bool) outcome" where
  "leaf_is_underfull p usable =
     bind_outcome (page_type_of p) (\<lambda>pt.
       if \<not> is_leaf pt \<or> n_cells p = 0 then Ok (p, False)
       else
         let key = (pg_epoch p, n_cells p, cell_content_start p);
             recompute = bind_outcome (leaf_live_bytes p pt usable) (\<lambda>used.
               case used of None \<Rightarrow> Ok (p, False)
               | Some u \<Rightarrow> Ok (p\<lparr>pg_live_cache := Some (fst key, fst (snd key), snd (snd key), u mod 2 ^ 32)\<rparr>, u \<le> usable div 3))
         in case pg_live_cache p of None \<Rightarrow> recompute
            | Some (e, n, cs, live) \<Rightarrow> if (e, n, cs) = key then Ok (p, live \<le> usable div 3) else recompute)"

end
