(* ===== verification/Btree_Codec.thy ===== *)
theory Btree_Codec
  imports Btree_Cell
begin

text \<open>
  The codec of B-tree cells is right: cells are read back as they were written, both encoders
  agree, sizes read from a page are the sizes written, and the fast comparisons compare keys.
\<close>

subsection \<open>Local sizes\<close>

definition table_local :: "nat \<Rightarrow> nat \<Rightarrow> nat" where
  "table_local tot psz =
     (if tot \<le> psz - 128 then tot
      else let surplus = psz div 4 + (tot - psz div 4) mod (psz - 16) in if surplus \<le> psz - 128 then surplus else psz div 4)"

lemma overflow_local_len: "512 \<le> psz \<Longrightarrow> overflow_local_len_for tot psz = Ok (table_local tot psz)"
proof -
  assume "512 \<le> psz"
  then have "psz div 4 \<le> psz - 136" "16 \<le> psz div 4" "\<not> psz - 136 < 16" "max (psz - 16) 1 = psz - 16" by (simp_all add: max_def)
  then have "clamp (psz div 4) 16 (psz - 128 - 8) = Ok (psz div 4)" by (simp add: clamp_def)
  then show ?thesis using \<open>max (psz - 16) 1 = psz - 16\<close> by (simp add: overflow_local_len_for_def table_local_def Let_def)
qed

lemma local_len_le: "512 \<le> psz \<Longrightarrow> table_local tot psz \<le> psz - 128"
  by (auto simp: table_local_def Let_def)

lemma local_len_whole: "512 \<le> psz \<Longrightarrow> table_local tot psz = tot \<longleftrightarrow> tot \<le> psz - 128"
  using local_len_le [of psz tot] by (auto simp: table_local_def)

lemma index_min_max: "index_min_local psz \<le> index_max_local psz"
proof -
  have "(psz - 12) * 32 div 255 \<le> (psz - 12) * 64 div 255" by (intro div_le_mono) simp
  then show ?thesis unfolding index_min_local_def index_max_local_def by (rule diff_le_mono)
qed

lemma index_local_le: "index_max_local psz < tot \<Longrightarrow> index_local_len_v6 tot psz \<le> index_max_local psz"
  using index_min_max [of psz] by (simp add: index_local_len_v6_def Let_def)

lemma index_local_whole: "index_local_len_v6 tot psz = tot \<longleftrightarrow> tot \<le> index_max_local psz"
  using index_local_le [of psz tot] by (cases "tot \<le> index_max_local psz") (auto simp: index_local_len_v6_def)

lemma index_max_local_bounds: "512 \<le> psz \<Longrightarrow> 64 \<le> index_max_local psz" "512 \<le> psz \<Longrightarrow> index_max_local psz \<le> psz - 128"
proof -
  assume p: "512 \<le> psz"
  then have "500 * 64 div 255 \<le> (psz - 12) * 64 div 255" by (intro div_le_mono mult_right_mono) simp_all
  then show "64 \<le> index_max_local psz" by (simp add: index_max_local_def)
  have "(psz - 12) * 64 < (psz - 104) * 255" using p by linarith
  then have "(psz - 12) * 64 div 255 < psz - 104" by (rule less_mult_imp_div_less)
  then show "index_max_local psz \<le> psz - 128" by (simp add: index_max_local_def)
qed

subsection \<open>The mark of index cells\<close>

lemma bit_mark: "bit INDEX_V6_MARK n \<longleftrightarrow> n = 62"
  unfolding INDEX_V6_MARK_def by (auto simp only: bit_push_bit_iff bit_1_iff) (simp_all add: exp_eq_0_imp_not_bit)

lemma mark_bit: "(w :: u64) AND INDEX_V6_MARK \<noteq> 0 \<longleftrightarrow> bit w 62"
proof -
  have "w AND INDEX_V6_MARK = 0 \<longleftrightarrow> \<not> bit w 62" unfolding bit_eq_iff [of "w AND INDEX_V6_MARK" 0] bit_and_iff bit_mark by (auto dest: spec [of _ 62])
  then show ?thesis by simp
qed

lemma small_no_mark: "unat (w :: u64) < 2 ^ 62 \<Longrightarrow> \<not> bit w 62"
proof -
  assume "unat w < 2 ^ 62"
  then have "drop_bit 62 (unat w) = 0" by (simp add: drop_bit_eq_div)
  then have "\<not> bit (unat w) 62" by (simp add: bit_iff_odd_drop_bit)
  then show ?thesis by (simp add: bit_unsigned_iff)
qed

lemma raw_mark: "unat tot < 2 ^ 62 \<Longrightarrow> index_total_raw tot v6 AND INDEX_V6_MARK \<noteq> 0 \<longleftrightarrow> v6"
  using small_no_mark [of tot] by (simp add: mark_bit index_total_raw_def bit_or_iff bit_mark)

lemma raw_unmark: "unat tot < 2 ^ 62 \<Longrightarrow> index_total_raw tot v6 AND NOT INDEX_V6_MARK = tot"
  using small_no_mark [of tot] by (intro bit_word_eqI) (auto simp: index_total_raw_def bit_and_iff bit_or_iff bit_not_iff bit_mark)

lemma index_split_raw:
  assumes "512 \<le> psz" "unat tot < 2 ^ 62"
  shows "index_cell_split (index_total_raw tot v6) psz
    = Ok (unat tot, if v6 then index_local_len_v6 (unat tot) psz else table_local (unat tot) psz, v6)"
  using assms raw_mark [of tot v6] raw_unmark [of tot v6]
  by (auto simp: index_cell_split_def Let_def overflow_local_len index_total_raw_def)

lemma index_split_total:
  assumes "512 \<le> psz"
  shows "\<exists>l v6. index_cell_split raw psz = Ok (unat (if raw AND INDEX_V6_MARK \<noteq> 0 then raw AND NOT INDEX_V6_MARK else raw), l, v6)"
  using assms by (auto simp: index_cell_split_def Let_def overflow_local_len)

subsection \<open>Encoding\<close>

lemma cell_encoded_size_encode: "cell_encoded_size c = length (cell_encode c)"
  by (cases c) simp_all

lemma concat_pieces: "concat (encode_pieces c) = cell_encode c"
  by (cases c) simp_all

lemma put_pieces:
  "length pre + length (concat bs) \<le> length pre + length rest \<Longrightarrow>
   fold_outcome put_next (pre @ rest, length pre) bs = Ok (pre @ concat bs @ drop (length (concat bs)) rest, length pre + length (concat bs))"
proof (induction bs arbitrary: pre rest)
  case (Cons b bs)
  have "put_next (pre @ rest, length pre) b = Ok ((pre @ b) @ drop (length b) rest, length (pre @ b))"
    using Cons.prems by (simp add: put_next_def copy_at_def put_def)
  then show ?case using Cons.IH [of "pre @ b" "drop (length b) rest"] Cons.prems by (simp add: add.commute)
qed simp

lemma encode_into_encode: "cell_encoded_size c \<le> length out \<Longrightarrow> encode_into c out = Ok (cell_encode c @ drop (cell_encoded_size c) out)"
  using put_pieces [of "[]" "encode_pieces c" out] by (simp add: encode_into_def concat_pieces cell_encoded_size_encode)

subsection \<open>Decoding\<close>

fun cell_type :: "cell \<Rightarrow> page_type" where
  "cell_type (TableLeafCell rowid payload) = LeafTable"
| "cell_type (TableLeafOverflow rowid tot local overflow) = LeafTable"
| "cell_type (TableInteriorCell lc key) = InteriorTable"
| "cell_type (IndexLeafCell key rowid) = LeafIndex"
| "cell_type (IndexLeafOverflow rowid tot local overflow v6) = LeafIndex"
| "cell_type (IndexInteriorCell lc key rowid) = InteriorIndex"
| "cell_type (IndexInteriorOverflow lc rowid tot local overflow v6) = InteriorIndex"

text \<open>Cells that split their payload where the rule of their kind says.\<close>

definition split_ok :: "nat \<Rightarrow> u64 \<Rightarrow> bytes \<Rightarrow> bool \<Rightarrow> bool" where
  "split_ok psz tot local v6 \<longleftrightarrow> unat tot < 2 ^ 62
     \<and> (if v6 then index_max_local psz < unat tot \<and> length local = index_local_len_v6 (unat tot) psz
        else psz - 128 < unat tot \<and> length local = table_local (unat tot) psz)"

fun cell_ok :: "nat \<Rightarrow> cell \<Rightarrow> bool" where
  "cell_ok psz (TableLeafCell rowid payload) = (length payload \<le> psz - 128)"
| "cell_ok psz (TableLeafOverflow rowid tot local overflow) = (psz - 128 < unat tot \<and> length local = table_local (unat tot) psz)"
| "cell_ok psz (TableInteriorCell lc key) = True"
| "cell_ok psz (IndexLeafCell key rowid) = (length key \<le> psz - 128)"
| "cell_ok psz (IndexLeafOverflow rowid tot local overflow v6) = split_ok psz tot local v6"
| "cell_ok psz (IndexInteriorCell lc key rowid) = (length key \<le> psz - 128)"
| "cell_ok psz (IndexInteriorOverflow lc rowid tot local overflow v6) = split_ok psz tot local v6"

lemma of_be32_be32 [simp]: "of_be32 (be32 w) = w"
  by (simp add: of_be32_def be32_word)

lemma unat_len64: "length bs < 2 ^ 62 \<Longrightarrow> unat (len64 bs) = length bs"
  by (simp add: len64_def unat_of_nat)

lemma index_split_len64:
  assumes "512 \<le> psz" "psz \<le> 65536" "length key \<le> psz - 128"
  shows "index_cell_split (len64 key) psz = Ok (length key, length key, False)"
proof -
  have "unat (len64 key) = length key" using assms by (intro unat_len64) simp
  then show ?thesis using index_split_raw [OF assms(1), of "len64 key" False] assms local_len_whole [OF assms(1), of "length key"]
    by (simp add: index_total_raw_def)
qed

lemma split_ok_split:
  assumes "512 \<le> psz" "split_ok psz tot local v6"
  shows "index_cell_split (index_total_raw tot v6) psz = Ok (unat tot, length local, v6)" and "length local \<noteq> unat tot"
  using assms index_split_raw [OF assms(1)] local_len_whole [OF assms(1), of "unat tot"] index_local_whole [of "unat tot" psz]
  by (cases v6; simp add: split_ok_def)+

lemma cell_decode_encode:
  assumes "512 \<le> psz" "psz \<le> 65536" "cell_ok psz c"
  shows "cell_decode (cell_encode c @ rest) (cell_type c) psz = Ok c"
proof (cases c)
  case (TableLeafCell rowid payload)
  then have "unat (len64 payload) = length payload" using assms by (intro unat_len64) simp
  then show ?thesis using TableLeafCell assms local_len_whole [OF assms(1)]
    by (simp add: decode_leaf_table_def ok_or_def overflow_local_len)
next
  case (TableLeafOverflow rowid tot local overflow)
  then show ?thesis using assms local_len_whole [OF assms(1), of "unat tot"]
    by (simp add: decode_leaf_table_def ok_or_def overflow_local_len)
next
  case (IndexLeafCell key rowid)
  then show ?thesis using assms index_split_len64 [OF assms(1,2), of key] by (simp add: decode_leaf_index_def ok_or_def)
next
  case (IndexLeafOverflow rowid tot local overflow v6)
  then show ?thesis using assms split_ok_split [OF assms(1), of tot local v6] by (simp add: decode_leaf_index_def ok_or_def)
next
  case (IndexInteriorCell lc key rowid)
  then show ?thesis using assms index_split_len64 [OF assms(1,2), of key]
    by (simp add: decode_interior_index_def ok_or_def flip: drop_drop)
next
  case (IndexInteriorOverflow lc rowid tot local overflow v6)
  then show ?thesis using assms split_ok_split [OF assms(1), of tot local v6]
    by (simp add: decode_interior_index_def ok_or_def flip: drop_drop)
qed (simp add: decode_interior_table_def ok_or_def decode_signed_encode [of _ rest, unfolded append_Nil2])

subsection \<open>Sizes read from a page\<close>

lemma leaf_cell_sizes:
  assumes "512 \<le> psz" "psz \<le> 65536" "cell_ok psz c"
  shows "cell_type c = LeafTable \<Longrightarrow> table_leaf_cell_size_paged (cell_encode c @ rest) psz = Ok (Some (length (cell_encode c)))"
    and "cell_type c = LeafIndex \<Longrightarrow> index_leaf_cell_size (cell_encode c @ rest) psz = Ok (Some (length (cell_encode c)))"
proof -
  have vl: "length (varint_encode x) \<le> 9" "length (encode_signed x) \<le> 9" for x
    using varint_decode_consumed [OF varint_decode_encode [of x "[]"]] by (simp_all add: encode_signed_def)
  have lim: "usize_add (length (encode_signed x) + length (varint_encode y)) n = length (encode_signed x) + length (varint_encode y) + n" if "n \<le> 131072" for x y n
    using vl(2) [of x] vl(1) [of y] that by (intro usize_add_exact) simp
  show "table_leaf_cell_size_paged (cell_encode c @ rest) psz = Ok (Some (length (cell_encode c)))" if "cell_type c = LeafTable"
  proof (cases c)
    case (TableLeafCell rowid payload)
    then have "unat (len64 payload) = length payload" using assms by (intro unat_len64) simp
    then show ?thesis using TableLeafCell assms local_len_whole [OF assms(1)] lim
      by (simp add: table_leaf_cell_size_paged_def overflow_local_len)
  next
    case (TableLeafOverflow rowid tot local overflow)
    then show ?thesis using assms local_len_whole [OF assms(1), of "unat tot"] local_len_le [OF assms(1), of "unat tot"] lim
      by (simp add: table_leaf_cell_size_paged_def overflow_local_len)
  qed (use that in simp_all)
  show "index_leaf_cell_size (cell_encode c @ rest) psz = Ok (Some (length (cell_encode c)))" if "cell_type c = LeafIndex"
  proof (cases c)
    case (IndexLeafCell key rowid)
    then show ?thesis using assms index_split_len64 [OF assms(1,2), of key] lim by (simp add: index_leaf_cell_size_def)
  next
    case (IndexLeafOverflow rowid tot local overflow v6)
    then have "length local \<le> 131068" using assms local_len_le [OF assms(1), of "unat tot"] index_local_le [of psz "unat tot"] index_max_local_bounds(2) [OF assms(1)]
      by (auto simp: split_ok_def split: if_splits)
    then show ?thesis using IndexLeafOverflow assms split_ok_split [OF assms(1), of tot local v6] lim by (simp add: index_leaf_cell_size_def)
  qed (use that in simp_all)
qed

subsection \<open>The fast comparisons\<close>

lemma cmp_be_nat: "length xs = length ys \<Longrightarrow> cmp_of (be_nat xs) (be_nat ys) = cmp_list xs ys"
proof (induction xs ys rule: list_induct2)
  case (Cons x xs y ys)
  have "cmp_of (be_nat (x # xs)) (be_nat (y # ys)) = (if x < y then Less else if y < x then Greater else cmp_of (be_nat xs) (be_nat ys))"
  proof -
    let ?B = "256 ^ length ys :: nat"
    have b: "be_nat xs < ?B" "be_nat ys < ?B" using be_nat_bound [of xs] be_nat_bound [of ys] Cons.hyps by simp_all
    have step: "unat u * ?B + p < unat v * ?B + q" if "u < v" "p < ?B" for u v :: byte and p q
    proof -
      have "Suc (unat u) * ?B \<le> unat v * ?B" using that(1) by (intro mult_right_mono) (simp_all add: word_less_nat_alt)
      then show ?thesis using that(2) by simp
    qed
    show ?thesis using step [of x y "be_nat xs" "be_nat ys"] step [of y x "be_nat ys" "be_nat xs"] b Cons.hyps
      by (auto simp: be_nat_Cons cmp_of_def)
  qed
  with Cons.IH show ?case by simp
qed simp

lemma cmp_list_drop: "take i a = take i b \<Longrightarrow> i \<le> length a \<Longrightarrow> i \<le> length b \<Longrightarrow> cmp_list a b = cmp_list (drop i a) (drop i b)"
  by (metis append_take_drop_id cmp_list_append and_then_simps(2) cmp_list_self)

lemma cmp_tail_list:
  "take i a = take i b \<Longrightarrow> i \<le> n \<Longrightarrow> n = min (length a) (length b) \<Longrightarrow> cmp_tail a b n i = cmp_list a b"
proof (induction a b n i rule: cmp_tail.induct)
  case (1 a b n i)
  show ?case
  proof (cases "i < n")
    case True
    then have l: "i < length a" "i < length b" using 1 by simp_all
    then have d: "drop i a = a ! i # drop (Suc i) a" "drop i b = b ! i # drop (Suc i) b" by (simp_all add: Cons_nth_drop_Suc)
    show ?thesis
    proof (cases "a ! i = b ! i")
      case eq: True
      then have "take (i + 1) a = take (i + 1) b" using 1 l by (simp add: take_Suc_conv_app_nth)
      then show ?thesis using 1 True eq by (subst cmp_tail.simps) simp
    next
      case False
      then show ?thesis using True cmp_list_drop [OF 1(2)] l by (subst cmp_tail.simps) (auto simp: d cmp_of_def)
    qed
  next
    case False
    then have i: "i = n" using 1 by linarith
    have "drop n a = [] \<or> drop n b = []" using 1 by (auto simp: min_def)
    then have "cmp_list (drop n a) (drop n b) = cmp_of (length a) (length b)"
      using 1 by (cases "drop n a"; cases "drop n b") (auto simp: cmp_of_def min_def split: if_splits)
    then show ?thesis using cmp_list_drop [OF 1(2)] 1 i by (subst cmp_tail.simps) simp
  qed
qed

lemma cmp_words_list:
  assumes "take i a = take i b" "i \<le> n" "n = min (length a) (length b)"
  shows "(case cmp_words a b n i of Inl c \<Rightarrow> c | Inr j \<Rightarrow> cmp_tail a b n j) = cmp_list a b"
  using assms
proof (induction a b n i rule: cmp_words.induct)
  case (1 a b n i)
  show ?case
  proof (cases "i + 8 \<le> n")
    case True
    let ?x = "take 8 (drop i a)" and ?y = "take 8 (drop i b)"
    have l: "length ?x = 8" "length ?y = 8" "i \<le> length a" "i \<le> length b" using True 1(4) by auto
    have c: "cmp_list a b = and_then (cmp_list ?x ?y) (cmp_list (drop 8 (drop i a)) (drop 8 (drop i b)))"
      using cmp_list_drop [OF 1(2) l(3,4)] cmp_list_append [of ?x ?y "drop 8 (drop i a)" "drop 8 (drop i b)"] l(1,2) by (simp only: append_take_drop_id)
    show ?thesis
    proof (cases "be_nat ?x = be_nat ?y")
      case eq: True
      then have "?x = ?y" using cmp_be_nat [of ?x ?y] l(1,2) by (metis cmp_list_Equal cmp_of_simps(4))
      then have "take (i + 8) a = take (i + 8) b" using 1 by (simp add: take_add)
      then show ?thesis using 1 True eq by (subst cmp_words.simps) (simp add: Let_def)
    next
      case False
      have "cmp_list ?x ?y \<noteq> Equal" using False by (auto simp: cmp_list_Equal)
      then have "cmp_list a b = cmp_of (be_nat ?x) (be_nat ?y)" using c cmp_be_nat [of ?x ?y] l(1,2) by (simp add: and_then_def)
      then show ?thesis using True False by (subst cmp_words.simps) (simp add: Let_def)
    qed
  next
    case False
    then show ?thesis using cmp_tail_list [OF 1(2-4)] by (subst cmp_words.simps) simp
  qed
qed

lemma cmp_key_bytes_list: "cmp_key_bytes a b = cmp_list a b"
  using cmp_words_list [of 0 a b] by (simp add: cmp_key_bytes_def Let_def)

lemma key_starts_with_prefix: "key_starts_with a b \<longleftrightarrow> take (length b) a = b"
  by (auto simp: key_starts_with_def cmp_key_bytes_list cmp_list_Equal dest: arg_cong [of _ _ length])

lemma skip_varint_rd: "i \<le> 8 \<Longrightarrow> skip_varint rb i = map_option snd (rd i r (drop i rb))"
proof (induction rb i arbitrary: r rule: skip_varint.induct)
  case (1 rb i)
  show ?case
  proof (cases "i < length rb")
    case True
    then have d: "drop i rb = rb ! i # drop (Suc i) rb" by (simp add: Cons_nth_drop_Suc)
    show ?thesis
    proof (cases "i = 8")
      case True
      then show ?thesis using \<open>i < length rb\<close> unfolding d by (subst skip_varint.simps) simp
    next
      case False
      then have "i < 8" using 1 by simp
      then show ?thesis unfolding d using 1(1) [of "push_bit 7 r OR ucast (rb ! i AND 0x7f)"] True
        by (subst skip_varint.simps) (auto simp: Let_def less_80)
    qed
  qed (simp add: skip_varint.simps)
qed

lemma skip_varint_decode: "skip_varint rb 0 = map_option snd (decode_signed rb)"
  using skip_varint_rd [of 0 rb 0] by (simp add: decode_signed_def varint_decode_rd)

text \<open>A key of at most 64 bytes is never split, at no legal page size.\<close>

lemma short_key_whole:
  assumes "512 \<le> psz" "unat (raw AND NOT INDEX_V6_MARK) \<le> 64"
  shows "\<exists>v6. index_cell_split raw psz = Ok (unat (raw AND NOT INDEX_V6_MARK), unat (raw AND NOT INDEX_V6_MARK), v6)"
proof (cases "bit raw 62")
  case True
  then show ?thesis using assms index_max_local_bounds(1) [OF assms(1)] index_local_whole [of "unat (raw AND NOT INDEX_V6_MARK)" psz]
    by (auto simp: index_cell_split_def mark_bit Let_def)
next
  case False
  then have "raw AND NOT INDEX_V6_MARK = raw" by (intro bit_word_eqI) (auto simp: bit_and_iff bit_not_iff bit_mark)
  then show ?thesis using assms False local_len_whole [OF assms(1), of "unat raw"]
    by (auto simp: index_cell_split_def mark_bit Let_def overflow_local_len)
qed

lemma split_total_bits:
  assumes "512 \<le> psz"
  shows "\<exists>l v6. index_cell_split raw psz = Ok (unat (raw AND NOT INDEX_V6_MARK), l, v6)"
proof (cases "bit raw 62")
  case True
  then show ?thesis by (auto simp: index_cell_split_def mark_bit Let_def)
next
  case False
  then have "raw AND NOT INDEX_V6_MARK = raw" by (intro bit_word_eqI) (auto simp: bit_and_iff bit_not_iff bit_mark)
  then show ?thesis using False assms by (auto simp: index_cell_split_def mark_bit Let_def overflow_local_len)
qed

definition view_lt :: "index_view \<Rightarrow> bytes \<Rightarrow> i64 \<Rightarrow> bool" where
  "view_lt v key rowid \<longleftrightarrow> and_then (cmp_list (iv_key v) key) (sint_cmp (iv_rowid v) rowid) = Less"

lemma view_lt_cases:
  "view_lt v key rowid \<longleftrightarrow> cmp_list (iv_key v) key = Less \<or> cmp_list (iv_key v) key = Equal \<and> sint (iv_rowid v) < sint rowid"
  by (cases "cmp_list (iv_key v) key") (simp_all add: view_lt_def sint_cmp_def)

lemma index_cell_lt_view:
  assumes psz: "512 \<le> psz"
  shows "\<exists>x d. index_cell_lt buf interior psz key rowid = Ok x \<and> decode_index_cell buf interior psz = Ok d
    \<and> (\<forall>b. x = Some (Some b) \<longleftrightarrow> (\<exists>v. d = Some v \<and> unat (iv_total v) = length (iv_key v) \<and> b = view_lt v key rowid))"
proof (cases "interior \<and> length buf < 4")
  case True
  then show ?thesis by (simp add: index_cell_lt_def decode_index_cell_def)
next
  case False
  define rb where "rb = (if interior then drop 4 buf else buf)"
  define child where "child = (if interior then of_be32 (take 4 buf) else 0)"
  have dec: "decode_index_cell buf interior psz =
      (case decode_signed rb of None \<Rightarrow> Ok None
        | Some (rowid, n) \<Rightarrow>
            (case varint_decode (drop n rb) of None \<Rightarrow> Ok None
             | Some (raw_len, m) \<Rightarrow>
                 let rest = drop m (drop n rb) in
                 bind_outcome (index_cell_split raw_len psz) (\<lambda>(key_len, table_local, _).
                   if table_local = key_len
                   then if length rest < key_len then Ok None
                        else Ok (Some \<lparr>iv_key = take key_len rest, iv_rowid = rowid, iv_left_child = child,
                                       iv_total = word_of_nat key_len, iv_overflow = 0\<rparr>)
                   else if length rest < table_local + 4 then Ok None
                        else Ok (Some \<lparr>iv_key = take table_local rest, iv_rowid = rowid, iv_left_child = child,
                                       iv_total = word_of_nat key_len, iv_overflow = of_be32 (take 4 (drop table_local rest))\<rparr>))))"
    using False unfolding decode_index_cell_def rb_def child_def by (cases interior) (auto simp: Let_def add.commute split: option.split)
  show ?thesis
  proof (cases "decode_signed rb")
    case None
    then show ?thesis using False dec by (simp add: index_cell_lt_def rb_def [symmetric] skip_varint_decode)
  next
    case (Some rn)
    then obtain r n where rn: "decode_signed rb = Some (r, n)" by (cases rn) auto
    show ?thesis
    proof (cases "varint_decode (drop n rb)")
      case None
      then show ?thesis using False dec rn by (simp add: index_cell_lt_def rb_def [symmetric] skip_varint_decode)
    next
      case (Some rm)
      then obtain raw m where rm: "varint_decode (drop n rb) = Some (raw, m)" by (cases rm) auto
      define tot where "tot = unat (raw AND NOT INDEX_V6_MARK)"
      obtain l v6 where sp: "index_cell_split raw psz = Ok (tot, l, v6)" using split_total_bits [OF psz, of raw] by (auto simp: tot_def)
      have short: "l = tot" if "tot \<le> 64" using short_key_whole [OF psz, of raw] that sp by (auto simp: tot_def)
      have ut: "unat (word_of_nat tot :: u64) = tot" by (simp add: tot_def)
      have lt: "index_cell_lt buf interior psz key rowid =
          (if l \<noteq> tot then Ok (Some None)
           else if length (drop n rb) < m + tot then Ok None
           else Ok (Some (Some (view_lt \<lparr>iv_key = take tot (drop m (drop n rb)), iv_rowid = r, iv_left_child = child,
                                       iv_total = word_of_nat tot, iv_overflow = 0\<rparr> key rowid))))"
        using False rn rm sp short
        by (auto simp: index_cell_lt_def rb_def [symmetric] skip_varint_decode Let_def tot_def [symmetric] cmp_key_bytes_list view_lt_cases split: ordering.split)
      have mb: "m \<le> length (drop n rb)" using varint_decode_consumed [OF rm] by simp
      show ?thesis
      proof (cases "l = tot")
        case True
        then show ?thesis using dec rn rm sp lt ut mb by (auto simp: Let_def)
      next
        case False
        have "l \<noteq> unat (word_of_nat tot :: u64)" using ut False by simp
        then show ?thesis using dec rn rm sp lt False by (auto simp: Let_def min_def split: if_splits)
      qed
    qed
  qed
qed

subsection \<open>Properties\<close>

text \<open>
  C20: Every B-tree cell, of tables and of indexes, leaf and interior, whole or with an overflow
  chain under either local-size rule, is decoded from the page as it was encoded, whatever
  follows it; the two encoders write the same bytes, as many as \<^verbatim>\<open>encoded_size\<close> says, and the
  sizes that compaction and balancing read from a leaf are those sizes.
\<close>

theorem cell_roundtrip:
  assumes "512 \<le> psz" "psz \<le> 65536" "cell_ok psz c"
  shows "cell_decode (cell_encode c @ rest) (cell_type c) psz = Ok c \<and> cell_encoded_size c = length (cell_encode c)
    \<and> encode_into c (replicate (cell_encoded_size c) 0) = Ok (cell_encode c)
    \<and> (cell_type c = LeafTable \<longrightarrow> table_leaf_cell_size_paged (cell_encode c @ rest) psz = Ok (Some (cell_encoded_size c)))
    \<and> (cell_type c = LeafIndex \<longrightarrow> index_leaf_cell_size (cell_encode c @ rest) psz = Ok (Some (cell_encoded_size c)))"
  using cell_decode_encode [OF assms, of rest] leaf_cell_sizes [OF assms, of rest] encode_into_encode [of c "replicate (cell_encoded_size c) 0"]
  by (simp add: cell_encoded_size_encode)

theorem cell_roundtrip_witness:
  "cell_decode (cell_encode (IndexLeafOverflow 7 4200 (replicate (index_local_len_v6 4200 4096) 1) 9 True) @ [5]) LeafIndex 4096
     = Ok (IndexLeafOverflow 7 4200 (replicate (index_local_len_v6 4200 4096) 1) 9 True)"
  using cell_roundtrip [of 4096 "IndexLeafOverflow 7 4200 (replicate (index_local_len_v6 4200 4096) 1) 9 True" "[5]"]
  by (simp add: split_ok_def index_max_local_def)

text \<open>
  C22: The probe of the index searches, which skips the rowid and compares the key in place eight
  bytes at a time, decides exactly like decoding the cell: it answers for the cells whose key is
  in the page, with the order of the keys and then of the rowids, and it never panics, whatever
  the bytes.
\<close>

theorem index_probe_is_decoded_order:
  assumes "512 \<le> psz"
  shows "\<exists>x d. index_cell_lt buf interior psz key rowid = Ok x \<and> decode_index_cell buf interior psz = Ok d
    \<and> (\<forall>b. x = Some (Some b) \<longleftrightarrow> (\<exists>v. d = Some v \<and> unat (iv_total v) = length (iv_key v)
          \<and> b = (and_then (cmp_list (iv_key v) key) (sint_cmp (iv_rowid v) rowid) = Less)))"
  using index_cell_lt_view [OF assms, of buf interior key rowid] unfolding view_lt_def .

theorem index_probe_is_decoded_order_witness:
  "\<exists>x d. index_cell_lt (cell_encode (IndexLeafCell [1, 2, 3] 7)) False 4096 [1, 2, 3] 8 = Ok x \<and> decode_index_cell (cell_encode (IndexLeafCell [1, 2, 3] 7)) False 4096 = Ok d
    \<and> (\<forall>b. x = Some (Some b) \<longleftrightarrow> (\<exists>v. d = Some v \<and> unat (iv_total v) = length (iv_key v)
          \<and> b = (and_then (cmp_list (iv_key v) [1, 2, 3]) (sint_cmp (iv_rowid v) 8) = Less)))"
  by (rule index_probe_is_decoded_order) simp

end
