(* ===== verification/Page_Repr.thy ===== *)
theory Page_Repr
  imports Page
begin

text \<open>
  What a page holds. The accessors of \<^verbatim>\<open>page.rs\<close> read back what the setters wrote, and a page
  represents a list of cells when its pointer array names them, each inside the content area.
  Every operation of the page is explained on that list.
\<close>

named_theorems page_simps \<open>what the accessors read after a setter\<close>

subsection \<open>Reads after writes\<close>

lemma window_put_other:
  "o' + n \<le> off \<or> off + length bs \<le> o' \<Longrightarrow> off + length bs \<le> length data \<Longrightarrow> window (put data off bs) o' n = window data o' n"
  by (metis window_put_before window_put_after)

lemma get16_put_same [page_simps]: "off + 2 \<le> length data \<Longrightarrow> get16 (put data off (be_bytes 2 v)) off = v mod 65536"
  by (simp add: get16_def window_put_same be_nat_be_bytes)

lemma get16_put_other:
  "o' + 2 \<le> off \<or> off + length bs \<le> o' \<Longrightarrow> off + length bs \<le> length data \<Longrightarrow> get16 (put data off bs) o' = get16 data o'"
  by (simp add: get16_def window_put_other)

lemma get32_put_other:
  "o' + 4 \<le> off \<or> off + length bs \<le> o' \<Longrightarrow> off + length bs \<le> length data \<Longrightarrow> get32 (put data off bs) o' = get32 data o'"
  by (simp add: get32_def window_put_other)

lemma nth_put_other:
  "o' < off \<or> off + length bs \<le> o' \<Longrightarrow> off + length bs \<le> length data \<Longrightarrow> o' < length data \<Longrightarrow> put data off bs ! o' = data ! o'"
  by (auto simp: put_def nth_append min_def)

lemma window_full: "window data 0 (length data) = data"
  by (simp add: window_def)

text \<open>The header of a page lies within its first 112 bytes.\<close>

definition sized :: "page \<Rightarrow> bool" where
  "sized p \<longleftrightarrow> 512 \<le> length (pg_data p) \<and> length (pg_data p) \<le> 65536"

lemma header_offset_le: "header_offset p \<le> 100"
  by (simp add: header_offset_def DB_HEADER_SIZE_def)

lemma header_offset_same [simp]:
  "header_offset (p\<lparr>pg_data := d\<rparr>) = header_offset p" "header_offset (p\<lparr>pg_live_cache := l\<rparr>) = header_offset p"
  "header_offset (touch p) = header_offset p" "header_offset (set_field p off bs) = header_offset p"
  by (simp_all add: header_offset_def touch_def set_field_def)

lemma cell_pointer_base_eq: "cell_pointer_base p = header_offset p + 12"
  by (simp add: cell_pointer_base_def PAGE_HEADER_SIZE_def)

lemma page_size_sized [simp]: "sized p \<Longrightarrow> page_size p = length (pg_data p)"
  by (simp add: page_size_def sized_def)

lemma touch_simps [simp]:
  "pg_data (touch p) = pg_data p" "pg_id (touch p) = pg_id p" "pg_live_cache (touch p) = pg_live_cache p"
  by (simp_all add: touch_def)

lemma set_field_simps [simp]:
  "pg_data (set_field p off bs) = put (pg_data p) (header_offset p + off) bs" "pg_id (set_field p off bs) = pg_id p"
  "pg_live_cache (set_field p off bs) = pg_live_cache p"
  by (simp_all add: set_field_def)

lemmas setter_defs = set_page_type_def set_n_cells_def set_cell_content_start_def set_right_most_pointer_def

lemma length_set_field [simp]:
  "sized p \<Longrightarrow> off + length bs \<le> 412 \<Longrightarrow> length (put (pg_data p) (header_offset p + off) bs) = length (pg_data p)"
  using header_offset_le [of p] by (simp add: length_put sized_def)

lemma setter_simps [simp]:
  assumes "sized p"
  shows "length (pg_data (set_page_type p pt)) = length (pg_data p)" "length (pg_data (set_n_cells p n)) = length (pg_data p)"
    "length (pg_data (set_cell_content_start p s)) = length (pg_data p)" "length (pg_data (set_right_most_pointer p q)) = length (pg_data p)"
    "sized (set_page_type p pt)" "sized (set_n_cells p n)" "sized (set_cell_content_start p s)" "sized (set_right_most_pointer p q)"
  using assms length_set_field [OF assms, of 0 "[type_byte pt]"]
  by (simp_all add: setter_defs sized_def [of "set_field p off bs" for off bs]) (simp_all add: sized_def)

lemma setter_offsets [simp]:
  "header_offset (set_page_type p pt) = header_offset p" "header_offset (set_n_cells p n) = header_offset p"
  "header_offset (set_cell_content_start p s) = header_offset p" "header_offset (set_right_most_pointer p q) = header_offset p"
  by (simp_all add: setter_defs)

subsection \<open>A view of a page\<close>

text \<open>The fields of a page's header, and the buffer they are read from.\<close>

definition head :: "page \<Rightarrow> page_type outcome \<times> nat \<times> nat \<times> u32" where
  "head p = (page_type_of p, n_cells p, cell_content_start p, right_most_pointer p)"

lemma head_congD:
  "head p = (t, n, s, r) \<Longrightarrow> page_type_of p = t" "head p = (t, n, s, r) \<Longrightarrow> n_cells p = n"
  "head p = (t, n, s, r) \<Longrightarrow> cell_content_start p = s" "head p = (t, n, s, r) \<Longrightarrow> right_most_pointer p = r"
  by (simp_all add: head_def)

lemmas head_defs = Let_def head_def page_type_of_def n_cells_def cell_content_start_def right_most_pointer_def

lemma head_put:
  assumes "sized p" "header_offset p + 12 \<le> off" "off + length bs \<le> length (pg_data p)"
  shows "head (p\<lparr>pg_data := put (pg_data p) off bs\<rparr>) = head p"
  using assms by (simp add: head_defs get16_put_other get32_put_other nth_put_other page_size_def length_put)

lemma head_touch [simp]: "head (touch p) = head p" "head (p\<lparr>pg_live_cache := l\<rparr>) = head p"
  by (simp_all add: head_defs page_size_def)

lemma accessors_same [simp]:
  "n_cells (touch p) = n_cells p" "cell_content_start (touch p) = cell_content_start p"
  "right_most_pointer (touch p) = right_most_pointer p" "page_type_of (touch p) = page_type_of p"
  "n_cells (p\<lparr>pg_live_cache := l\<rparr>) = n_cells p" "cell_content_start (p\<lparr>pg_live_cache := l\<rparr>) = cell_content_start p"
  "right_most_pointer (p\<lparr>pg_live_cache := l\<rparr>) = right_most_pointer p" "page_type_of (p\<lparr>pg_live_cache := l\<rparr>) = page_type_of p"
  using head_touch(1) [of p] head_touch(2) [where p = p and l = l] by (simp_all add: head_def)

lemma head_set_n_cells:
  "sized p \<Longrightarrow> head (set_n_cells p n) = (page_type_of p, n mod 65536, cell_content_start p, right_most_pointer p)"
  using header_offset_le [of p]
  by (simp add: head_defs set_n_cells_def page_simps get16_put_other get32_put_other nth_put_other page_size_def length_put sized_def)

lemma head_set_cell_content_start:
  assumes "sized p" "0 < s" "s \<le> length (pg_data p)"
  shows "head (set_cell_content_start p s) = (page_type_of p, n_cells p, s, right_most_pointer p)"
proof -
  have "s < 65536" if "\<not> page_size p \<le> s" using that assms by (simp add: sized_def page_size_def)
  then show ?thesis using assms header_offset_le [of p]
    by (auto simp: head_defs set_cell_content_start_def page_simps get16_put_other get32_put_other nth_put_other page_size_def length_put sized_def)
qed

lemma nth_put_same: "off < length data \<Longrightarrow> put data off [b] ! off = b"
  by (simp add: put_def nth_append)

lemma head_set_page_type:
  "sized p \<Longrightarrow> head (set_page_type p pt) = (Ok pt, n_cells p, cell_content_start p, right_most_pointer p)"
  using header_offset_le [of p]
  by (simp add: head_defs set_page_type_def get16_put_other get32_put_other page_size_def length_put sized_def nth_put_same)

lemma head_set_right_most_pointer:
  "sized p \<Longrightarrow> head (set_right_most_pointer p q) = (page_type_of p, n_cells p, cell_content_start p, q)"
  using header_offset_le [of p]
  by (simp add: head_defs set_right_most_pointer_def get16_put_other nth_put_other page_size_def length_put sized_def get32_def window_put_same be32_word)

text \<open>A start of zero, which the initialisers write, is the end of the page.\<close>

lemma head_start_zero:
  "sized p \<Longrightarrow> head (set_cell_content_start p 0) = (page_type_of p, n_cells p, length (pg_data p), right_most_pointer p)"
  using header_offset_le [of p]
  by (auto simp: head_defs set_cell_content_start_def page_simps get16_put_other get32_put_other nth_put_other page_size_def length_put sized_def)


subsection \<open>Pointer arrays\<close>

lemma ptr_insert:
  assumes "pos \<le> n" "b + (n + 1) * 2 \<le> length d" "i \<le> n"
  shows "get16 (put (put d (b + (pos + 1) * 2) (window d (b + pos * 2) ((n - pos) * 2))) (b + pos * 2) (be_bytes 2 s)) (b + i * 2)
    = (if i < pos then get16 d (b + i * 2) else if i = pos then s mod 65536 else get16 d (b + (i - 1) * 2))"
proof -
  let ?w = "window d (b + pos * 2) ((n - pos) * 2)"
  have w: "length ?w = (n - pos) * 2" using assms by (intro length_window) simp
  have l: "b + (pos + 1) * 2 + length ?w \<le> length d" using assms w by simp
  consider "i < pos" | "i = pos" | "pos < i" by linarith
  then show ?thesis
  proof cases
    case 1
    then show ?thesis using l by (simp add: get16_put_other length_put)
  next
    case 2
    then show ?thesis using l by (simp add: page_simps length_put)
  next
    case 3
    then have "b + (pos + 1) * 2 \<le> b + i * 2" "b + i * 2 + 2 \<le> b + (pos + 1) * 2 + length ?w" "b + pos * 2 + (b + i * 2 - (b + (pos + 1) * 2)) = b + (i - 1) * 2"
      using assms w by auto
    then have "window (put d (b + (pos + 1) * 2) ?w) (b + i * 2) 2 = window d (b + (i - 1) * 2) 2"
      using window_put_inside [OF l, of "b + i * 2" 2] window_window [of "b + i * 2 - (b + (pos + 1) * 2)" 2 "(n - pos) * 2" d "b + pos * 2"] w by simp
    then have "get16 (put d (b + (pos + 1) * 2) ?w) (b + i * 2) = get16 d (b + (i - 1) * 2)" by (simp only: get16_def)
    then show ?thesis using 3 l by (simp add: get16_put_other length_put)
  qed
qed

lemma ptr_remove:
  assumes "pos < n" "b + n * 2 \<le> length d" "i < n - 1"
  shows "get16 (put d (b + pos * 2) (window d (b + (pos + 1) * 2) ((n - (pos + 1)) * 2))) (b + i * 2)
    = (if i < pos then get16 d (b + i * 2) else get16 d (b + (i + 1) * 2))"
proof -
  let ?w = "window d (b + (pos + 1) * 2) ((n - (pos + 1)) * 2)"
  have w: "length ?w = (n - (pos + 1)) * 2" using assms by (intro length_window) simp
  then have l: "b + pos * 2 + length ?w \<le> length d" using assms by simp
  show ?thesis
  proof (cases "i < pos")
    case True
    then show ?thesis using l by (simp add: get16_put_other)
  next
    case False
    then have "b + pos * 2 \<le> b + i * 2" "b + i * 2 + 2 \<le> b + pos * 2 + length ?w" "b + (pos + 1) * 2 + (b + i * 2 - (b + pos * 2)) = b + (i + 1) * 2"
      using assms w by auto
    then have "window (put d (b + pos * 2) ?w) (b + i * 2) 2 = window d (b + (i + 1) * 2) 2"
      using window_put_inside [OF l, of "b + i * 2" 2] window_window [of "b + i * 2 - (b + pos * 2)" 2 "(n - (pos + 1)) * 2" d "b + (pos + 1) * 2"] w by simp
    then show ?thesis using False by (simp add: get16_def)
  qed
qed

subsection \<open>Representation\<close>

definition entry :: "bytes \<Rightarrow> nat \<Rightarrow> nat \<Rightarrow> bytes \<Rightarrow> bool" where
  "entry data lo ptr c \<longleftrightarrow> c \<noteq> [] \<and> lo \<le> ptr \<and> ptr + length c \<le> length data \<and> window data ptr (length c) = c"

definition ptr_at :: "page \<Rightarrow> nat \<Rightarrow> nat" where
  "ptr_at p i = get16 (pg_data p) (header_offset p + 12 + i * 2)"

definition page_repr :: "page \<Rightarrow> page_type \<Rightarrow> bytes list \<Rightarrow> bool" where
  "page_repr p pt cs \<longleftrightarrow> sized p \<and> page_type_of p = Ok pt \<and> n_cells p = length cs
     \<and> header_offset p + 12 + length cs * 2 \<le> cell_content_start p \<and> cell_content_start p \<le> length (pg_data p)
     \<and> (\<forall>i<length cs. entry (pg_data p) (cell_content_start p) (ptr_at p i) (cs ! i))"

lemma page_reprD:
  assumes "page_repr p pt cs"
  shows "sized p" "page_type_of p = Ok pt" "n_cells p = length cs"
    "header_offset p + 12 + length cs * 2 \<le> cell_content_start p" "cell_content_start p \<le> length (pg_data p)"
    "i < length cs \<Longrightarrow> entry (pg_data p) (cell_content_start p) (ptr_at p i) (cs ! i)"
  using assms by (simp_all add: page_repr_def)

lemma entry_frame:
  assumes "entry data lo ptr c" "length data' = length data" "lo' \<le> lo" "\<And>o' m. lo \<le> o' \<Longrightarrow> window data' o' m = window data o' m"
  shows "entry data' lo' ptr c"
  using assms by (auto simp: entry_def)

lemma cell_pointer_repr: "page_repr p pt cs \<Longrightarrow> i < length cs \<Longrightarrow> cell_pointer p i = Ok (ptr_at p i)"
  using page_reprD [of p pt cs]
  by (simp add: cell_pointer_def Let_def cell_pointer_base_eq ptr_at_def get16_def window_def outcome_simps)

lemma entry_slice:
  assumes "entry data lo ptr c"
  shows "ptr < length data \<and> drop ptr data = c @ drop (ptr + length c) data"
proof
  show "ptr < length data" using assms by (cases c) (auto simp: entry_def)
  have "take (length c) (drop ptr data) = c" using assms by (simp add: entry_def window_def)
  then show "drop ptr data = c @ drop (ptr + length c) data"
    using append_take_drop_id [of "length c" "drop ptr data"] by (simp add: add.commute)
qed

lemma cell_slice_repr:
  assumes "page_repr p pt cs" "i < length cs"
  obtains rest where "cell_slice_checked p (ptr_at p i) = Ok (cs ! i @ rest)" "drop (ptr_at p i) (pg_data p) = cs ! i @ rest" "ptr_at p i < length (pg_data p)"
  using entry_slice [OF page_reprD(6) [OF assms]] that by (simp add: cell_slice_checked_def)

lemma free_space_repr:
  "page_repr p pt cs \<Longrightarrow> free_space p = cell_content_start p - (header_offset p + 12 + length cs * 2)"
  by (simp add: free_space_def PAGE_HEADER_SIZE_def page_reprD)

text \<open>A page that was just initialised is empty.\<close>

lemma init_page_repr:
  assumes "sized p"
  shows "page_repr (init_page p pt) pt []" "right_most_pointer (init_page p pt) = 0" "cell_content_start (init_page p pt) = length (pg_data p)"
proof -
  let ?a = "set_page_type p pt" let ?b = "set_n_cells ?a 0" let ?c = "set_cell_content_start ?b 0"
  note h = head_congD [OF head_set_page_type [OF assms, of pt]] head_congD [OF head_set_n_cells, of ?a 0]
    head_congD [OF head_start_zero, of ?b] head_congD [OF head_set_right_most_pointer, of ?c 0]
  have "head (init_page p pt) = (Ok pt, 0, length (pg_data p), 0)" using assms h by (simp add: init_page_def head_set_right_most_pointer)
  then show "page_repr (init_page p pt) pt []" "right_most_pointer (init_page p pt) = 0" "cell_content_start (init_page p pt) = length (pg_data p)"
    using assms header_offset_le [of p] by (simp_all add: page_repr_def head_def init_page_def sized_def [of "touch q" for q]) (simp_all add: sized_def)
qed

end
