(* ===== verification/Btree_Leaf.thy ===== *)
theory Btree_Leaf
  imports Btree_Page Btree_Codec Page_Repr
begin

text \<open>
  The operations on one page do on the list of its cells what their names say: insertion and
  removal at a position, reading all cells, laying out and compacting; and the running count of
  live bytes that a page caches stays exact.
\<close>

subsection \<open>Live bytes\<close>

definition live_total :: "bytes list \<Rightarrow> nat" where
  "live_total cs = (\<Sum>c\<leftarrow>cs. length c + 2)"

definition cache_ok :: "page \<Rightarrow> bytes list \<Rightarrow> bool" where
  "cache_ok p cs \<longleftrightarrow> (case pg_live_cache p of None \<Rightarrow> True
     | Some (e, n, s, live) \<Rightarrow> (e, n, s) = (pg_epoch p, n_cells p, cell_content_start p) \<longrightarrow> live = live_total cs)"

text \<open>The insertions and removals leave no cache, or one that is current.\<close>

definition cache_tight :: "page \<Rightarrow> bytes list \<Rightarrow> bool" where
  "cache_tight p cs \<longleftrightarrow> (case pg_live_cache p of None \<Rightarrow> True | Some c \<Rightarrow> c = (pg_epoch p, n_cells p, cell_content_start p, live_total cs))"

lemma cache_tight_ok: "cache_tight p cs \<Longrightarrow> cache_ok p cs"
  by (auto simp: cache_tight_def cache_ok_def split: option.splits)

lemma live_total_simps [simp]:
  "live_total [] = 0" "live_total (c # cs) = length c + 2 + live_total cs"
  by (simp_all add: live_total_def)

lemma live_total_append: "live_total (as @ bs) = live_total as + live_total bs"
  by (simp add: live_total_def)

lemma live_total_insert: "live_total (take i cs @ c # drop i cs) = live_total cs + (length c + 2)"
  using live_total_append [of "take i cs" "drop i cs"] by (simp add: live_total_append)

lemma live_total_remove: "i < length cs \<Longrightarrow> live_total (take i cs @ drop (Suc i) cs) = live_total cs - (length (cs ! i) + 2)"
  using live_total_append [of "take i cs" "drop i cs"] live_total_simps(2) [of "cs ! i" "drop (Suc i) cs"] by (simp add: Cons_nth_drop_Suc live_total_append)

lemma live_total_bound:
  assumes "page_repr p pt cs"
  shows "live_total cs < 2 ^ 32"
proof -
  have "length c + 2 \<le> 65538" if c: "c \<in> set cs" for c
  proof -
    obtain i where "i < length cs" "c = cs ! i" using c by (auto simp: in_set_conv_nth)
    then show ?thesis using page_reprD(1) [OF assms] page_reprD(6) [OF assms, of i] by (simp add: entry_def sized_def)
  qed
  then have "live_total cs \<le> (\<Sum>c\<leftarrow>cs. 65538)" unfolding live_total_def by (rule sum_list_mono)
  also have "\<dots> = length cs * 65538" by (simp add: sum_list_triv)
  also have "\<dots> \<le> 32768 * 65538" using page_reprD(1,4,5) [OF assms] by (intro mult_right_mono) (simp_all add: sized_def)
  finally show ?thesis by simp
qed

lemma leaf_cell_size_encode:
  assumes "512 \<le> psz" "psz \<le> 65536" "cell_ok psz c" "cell_type c = pt" "is_leaf pt"
  shows "leaf_cell_size pt (cell_encode c @ rest) psz = Ok (Some (length (cell_encode c)))"
  using assms leaf_cell_sizes [OF assms(1-3)] by (auto simp: leaf_cell_size_def is_leaf_def)

lemma cell_encode_nonempty [simp]: "cell_encode c \<noteq> []"
proof -
  have "varint_encode x \<noteq> []" for x using varint_decode_consumed [OF varint_decode_encode [of x "[]"]] by auto
  then show ?thesis by (cases c) (simp_all add: encode_signed_def)
qed

subsection \<open>Insertion\<close>

lemma encode_at_put:
  assumes "off + cell_encoded_size c \<le> length data"
  shows "encode_at data off c = Ok (put data off (cell_encode c))"
  using assms by (simp add: encode_at_def outcome_simps encode_into_encode)

lemma nth_insert: "pos \<le> length cs \<Longrightarrow> i \<le> length cs \<Longrightarrow>
    (take pos cs @ c # drop pos cs) ! i = (if i < pos then cs ! i else if i = pos then c else cs ! (i - 1))"
  by (auto simp: nth_append nth_Cons' min_def)

text \<open>The two halves of an insertion: the cell goes below the content area, its pointer into the array.\<close>

definition grown :: "page \<Rightarrow> bytes \<Rightarrow> page" where
  "grown p c = (let start = cell_content_start p - length c in set_cell_content_start (p\<lparr>pg_data := put (pg_data p) start c\<rparr>) start)"

definition pointed :: "page \<Rightarrow> nat \<Rightarrow> nat \<Rightarrow> nat \<Rightarrow> page" where
  "pointed p n pos ptr =
     (let base = header_offset p + 12;
          d = put (pg_data p) (base + (pos + 1) * 2) (window (pg_data p) (base + pos * 2) ((n - pos) * 2))
      in touch (set_n_cells (p\<lparr>pg_data := put d (base + pos * 2) (be_bytes 2 ptr)\<rparr>) (n + 1)))"

lemma grown_page:
  assumes "sized p" "cell_content_start p \<le> length (pg_data p)" "header_offset p + 12 + length c < cell_content_start p"
  defines "start \<equiv> cell_content_start p - length c"
  shows "sized (grown p c)" "length (pg_data (grown p c)) = length (pg_data p)" "header_offset (grown p c) = header_offset p"
    "head (grown p c) = (page_type_of p, n_cells p, start, right_most_pointer p)"
    "window (pg_data (grown p c)) start (length c) = c"
    "cell_content_start p \<le> o' \<Longrightarrow> window (pg_data (grown p c)) o' m = window (pg_data p) o' m"
    "header_offset p + 12 + i * 2 + 2 \<le> start \<Longrightarrow> ptr_at (grown p c) i = ptr_at p i"
proof -
  have st: "0 < start" "start + length c = cell_content_start p" "header_offset p + 12 < start" using assms by simp_all
  let ?p1 = "p\<lparr>pg_data := put (pg_data p) start c\<rparr>"
  have l1: "length (put (pg_data p) start c) = length (pg_data p)" using assms st by (simp add: length_put)
  then have s1: "sized ?p1" using assms(1) by (simp add: sized_def)
  have h1: "head ?p1 = head p" using assms st by (intro head_put) simp_all
  have g: "grown p c = set_cell_content_start ?p1 start" by (simp add: grown_def start_def Let_def)
  show "sized (grown p c)" "length (pg_data (grown p c)) = length (pg_data p)" "header_offset (grown p c) = header_offset p"
    using s1 l1 by (simp_all add: g)
  show "head (grown p c) = (page_type_of p, n_cells p, start, right_most_pointer p)"
    using head_set_cell_content_start [OF s1 st(1)] l1 st assms(2) h1 by (simp add: g head_def)
  have w: "window (pg_data (grown p c)) o' m = window (put (pg_data p) start c) o' m" if "header_offset p + 12 \<le> o'" for o' m
    using that l1 s1 header_offset_le [of p] by (simp add: g set_cell_content_start_def window_put_other sized_def)
  show "window (pg_data (grown p c)) start (length c) = c" using w [of start] assms(2) st by (simp add: window_put_same)
  show "window (pg_data (grown p c)) o' m = window (pg_data p) o' m" if "cell_content_start p \<le> o'"
    using w [of o'] that assms(2) st by (simp add: window_put_other)
  show "ptr_at (grown p c) i = ptr_at p i" if "header_offset p + 12 + i * 2 + 2 \<le> start"
    using w [of "header_offset p + 12 + i * 2" 2] that assms(2) st by (simp add: ptr_at_def get16_def window_put_other g)
qed

lemma pointed_page:
  assumes "sized p" "pos \<le> n" "header_offset p + 12 + (n + 1) * 2 \<le> length (pg_data p)"
  shows "sized (pointed p n pos ptr)" "length (pg_data (pointed p n pos ptr)) = length (pg_data p)" "header_offset (pointed p n pos ptr) = header_offset p"
    "head (pointed p n pos ptr) = (page_type_of p, n + 1, cell_content_start p, right_most_pointer p)"
    "header_offset p + 12 + (n + 1) * 2 \<le> o' \<Longrightarrow> window (pg_data (pointed p n pos ptr)) o' m = window (pg_data p) o' m"
    "i \<le> n \<Longrightarrow> ptr_at (pointed p n pos ptr) i = (if i < pos then ptr_at p i else if i = pos then ptr mod 65536 else ptr_at p (i - 1))"
proof -
  define base where "base = header_offset p + 12"
  let ?w = "window (pg_data p) (base + pos * 2) ((n - pos) * 2)"
  define d where "d = put (pg_data p) (base + (pos + 1) * 2) ?w"
  let ?p2 = "p\<lparr>pg_data := put d (base + pos * 2) (be_bytes 2 ptr)\<rparr>"
  have lw: "length ?w = (n - pos) * 2" using assms base_def by (intro length_window) simp
  then have ld: "length d = length (pg_data p)" using assms base_def by (simp add: d_def length_put)
  then have l2: "length (put d (base + pos * 2) (be_bytes 2 ptr)) = length (pg_data p)" using assms base_def by (simp add: length_put)
  have s: "sized (p\<lparr>pg_data := d\<rparr>)" "sized ?p2" using assms(1) ld l2 by (simp_all add: sized_def)
  have q: "pointed p n pos ptr = touch (set_n_cells ?p2 (n + 1))" by (simp add: pointed_def Let_def base_def d_def)
  show "sized (pointed p n pos ptr)" "length (pg_data (pointed p n pos ptr)) = length (pg_data p)" "header_offset (pointed p n pos ptr) = header_offset p"
    using s l2 by (simp_all add: q sized_def [of "touch r" for r]) (simp_all add: sized_def)
  have "head (p\<lparr>pg_data := d\<rparr>) = head p" unfolding d_def using assms lw base_def by (intro head_put) simp_all
  moreover have "head ?p2 = head (p\<lparr>pg_data := d\<rparr>)"
    using head_put [OF s(1), of "base + pos * 2" "be_bytes 2 ptr"] ld assms base_def by simp
  moreover have "n + 1 < 65536" using assms by (simp add: sized_def)
  ultimately have "head (set_n_cells ?p2 (n + 1)) = (page_type_of p, n + 1, cell_content_start p, right_most_pointer p)"
    using head_set_n_cells [OF s(2), of "n + 1"] by (simp add: head_def)
  then show "head (pointed p n pos ptr) = (page_type_of p, n + 1, cell_content_start p, right_most_pointer p)" by (simp add: q)
  have w: "window (pg_data (pointed p n pos ptr)) o' m = window (pg_data ?p2) o' m" if "base \<le> o'" for o' m
    using that l2 s(2) header_offset_le [of p] base_def by (simp add: q set_n_cells_def window_put_other sized_def)
  show "window (pg_data (pointed p n pos ptr)) o' m = window (pg_data p) o' m" if above: "header_offset p + 12 + (n + 1) * 2 \<le> o'"
  proof -
    have "base + (pos + 1) * 2 + length ?w = base + (n + 1) * 2" using lw assms(2) by simp
    then have "window d o' m = window (pg_data p) o' m" unfolding d_def using above assms(3) base_def by (intro window_put_other) simp_all
    then show ?thesis using above w [of o' m] ld assms base_def by (simp add: window_put_other)
  qed
  show "ptr_at (pointed p n pos ptr) i = (if i < pos then ptr_at p i else if i = pos then ptr mod 65536 else ptr_at p (i - 1))" if "i \<le> n"
  proof -
    have "ptr_at (pointed p n pos ptr) i = get16 (pg_data ?p2) (base + i * 2)"
      using w [of "base + i * 2" 2] \<open>header_offset (pointed p n pos ptr) = header_offset p\<close> by (simp add: ptr_at_def get16_def base_def)
    then show ?thesis using ptr_insert [of pos n base "pg_data p" i ptr] that assms base_def by (simp add: ptr_at_def d_def)
  qed
qed

lemma inserted_repr:
  assumes repr: "page_repr p pt cs" and pos: "pos \<le> length cs" and ne: "c \<noteq> []" and room: "length c + 2 \<le> free_space p"
  defines "p' \<equiv> pointed (grown p c) (length cs) pos (cell_content_start p - length c)"
  shows "page_repr p' pt (take pos cs @ c # drop pos cs)"
    "right_most_pointer p' = right_most_pointer p" "length (pg_data p') = length (pg_data p)"
    "cell_content_start p' = cell_content_start p - length c" "header_offset p' = header_offset p"
proof -
  note r = page_reprD [OF repr]
  let ?start = "cell_content_start p - length c"
  have room': "header_offset p + 12 + length cs * 2 + 2 + length c \<le> cell_content_start p"
    using room r(4) free_space_repr [OF repr] by simp
  have pre: "header_offset p + 12 + length c < cell_content_start p" using room' by simp
  note g = grown_page [OF r(1,5) pre]
  have pre2: "header_offset (grown p c) + 12 + (length cs + 1) * 2 \<le> length (pg_data (grown p c))" using room' r(5) g(2,3) by simp
  note q = pointed_page [OF g(1) pos pre2, where ptr = ?start, folded p'_def]
  have "0 < length c" using ne by simp
  then have st: "?start < 65536" using r(1,5) room' unfolding sized_def by linarith
  have h: "head p' = (Ok pt, length cs + 1, ?start, right_most_pointer p)" using q(4) g(4) r(2) by (simp add: head_def)
  have len: "length (pg_data p') = length (pg_data p)" "header_offset p' = header_offset p" using q(2,3) g(2,3) by simp_all
  have win: "window (pg_data p') o' m = window (pg_data (grown p c)) o' m" if "?start \<le> o'" for o' m
    using that room' g(3) by (intro q(5)) simp
  have ptr: "ptr_at p' i = (if i < pos then ptr_at p i else if i = pos then ?start else ptr_at p (i - 1))" if "i \<le> length cs" for i
    using q(6) [OF that] that pos st room' g(7) by (auto simp: algebra_simps)
  have new: "entry (pg_data p') ?start ?start c"
    using win [of ?start "length c"] g(5) ne len room' r(5) by (simp add: entry_def)
  have keep: "entry (pg_data p') ?start (ptr_at p j) (cs ! j)" if "j < length cs" for j
  proof (rule entry_frame [OF r(6) [OF that] len(1)])
    show "window (pg_data p') o' m = window (pg_data p) o' m" if "cell_content_start p \<le> o'" for o' m
      using win [of o' m] g(6) [OF that] that by simp
  qed simp
  have "entry (pg_data p') ?start (ptr_at p' i) ((take pos cs @ c # drop pos cs) ! i)" if "i \<le> length cs" for i
    using that nth_insert [OF pos that, of c] pos ptr [OF that] new keep by auto
  moreover have "header_offset p + 12 + (length cs + 1) * 2 \<le> ?start" "?start \<le> length (pg_data p)" using room' r(5) by auto
  ultimately show "page_repr p' pt (take pos cs @ c # drop pos cs)" using h len pos q(1) by (simp add: page_repr_def head_def)
  show "right_most_pointer p' = right_most_pointer p" "cell_content_start p' = ?start" using h by (simp_all add: head_def)
  show "length (pg_data p') = length (pg_data p)" "header_offset p' = header_offset p" by (rule len)+
qed


lemma page_repr_cache [simp]: "page_repr (p\<lparr>pg_live_cache := l\<rparr>) pt cs = page_repr p pt cs"
proof -
  have "head (p\<lparr>pg_live_cache := l\<rparr>) = head p" by simp
  then show ?thesis by (simp add: page_repr_def head_def sized_def ptr_at_def)
qed

lemma cache_tightI:
  assumes "\<And>live. l = Some live \<Longrightarrow> live = live_total cs" "n_cells p = n"
  shows "cache_tight (p\<lparr>pg_live_cache := map_option (\<lambda>l. (pg_epoch p, n, cell_content_start p, l)) l\<rparr>) cs"
  using assms by (cases l) (simp_all add: cache_tight_def)

definition fits_page :: "nat \<Rightarrow> page_type \<Rightarrow> cell \<Rightarrow> bool" where
  "fits_page psz pt c \<longleftrightarrow> cell_ok psz c \<and> cell_type c = pt"

lemma live_cache_adjust_leaf:
  assumes "sized p" "cache_ok q cs" "pg_live_cache p = pg_live_cache q" "is_leaf pt"
    "ptr < length (pg_data p)" "drop ptr (pg_data p) = cell_encode c @ rest" "fits_page (length (pg_data p)) pt c" "length (cell_encode c) \<le> 65536"
  shows "\<exists>r. live_cache_adjust p pt (pg_epoch q, n_cells q, cell_content_start q) ptr grow = Ok r
     \<and> (\<forall>l. r = Some l \<longrightarrow> l = (if grow then (live_total cs + (length (cell_encode c) + 2)) mod 2 ^ 32 else live_total cs - (length (cell_encode c) + 2)))"
  using assms leaf_cell_size_encode [of "length (pg_data p)" c pt rest]
  by (auto simp: live_cache_adjust_def fits_page_def sized_def [of p] page_size_def Let_def cache_ok_def split: option.splits prod.splits)

lemma write_cell_repr:
  assumes repr: "page_repr p pt cs" and pos: "pos \<le> length cs" and c: "fits_page (length (pg_data p)) pt c"
    and room: "cell_encoded_size c + 2 \<le> free_space p" and cache: "cache_ok p cs"
  shows "\<exists>p'. write_cell p pt c pos = Ok p' \<and> page_repr p' pt (take pos cs @ cell_encode c # drop pos cs)
    \<and> cache_tight p' (take pos cs @ cell_encode c # drop pos cs) \<and> right_most_pointer p' = right_most_pointer p
    \<and> length (pg_data p') = length (pg_data p) \<and> header_offset p' = header_offset p \<and> cell_content_start p' = cell_content_start p - cell_encoded_size c"
proof -
  note r = page_reprD [OF repr]
  let ?e = "cell_encode c" let ?start = "cell_content_start p - length ?e"
  have room': "header_offset p + 12 + length cs * 2 + 2 + length ?e \<le> cell_content_start p"
    using room r(4) free_space_repr [OF repr] by (simp add: cell_encoded_size_encode)
  note ins = inserted_repr [OF repr pos cell_encode_nonempty room [unfolded cell_encoded_size_encode]]
  let ?q = "pointed (grown p ?e) (length cs) pos ?start"
  have small: "length ?e mod 4294967296 = length ?e" "length ?e \<le> 65536" using room' r(1,5) by (simp_all add: sized_def)
  have enc: "encode_at (pg_data p) ?start c = Ok (put (pg_data p) ?start ?e)"
    using room' r(5) by (intro encode_at_put) (simp add: cell_encoded_size_encode)
  have l1: "length (put (pg_data p) ?start ?e) = length (pg_data p)" using room' r(5) by (simp add: length_put)
  have "\<exists>live. live_cache_adjust (p\<lparr>pg_data := put (pg_data p) ?start ?e\<rparr>) pt (pg_epoch p, n_cells p, cell_content_start p) ?start True = Ok live
     \<and> (\<forall>l. live = Some l \<longrightarrow> l = live_total (take pos cs @ ?e # drop pos cs))"
  proof (cases "is_leaf pt")
    case True
    have "drop ?start (put (pg_data p) ?start ?e) = ?e @ drop (cell_content_start p) (pg_data p)" using room' r(5) by (simp add: put_def)
    moreover have "0 < length ?e" by simp
    then have "?start < length (pg_data p)" using room' r(5) by linarith
    ultimately show ?thesis using live_cache_adjust_leaf [of "p\<lparr>pg_data := put (pg_data p) ?start ?e\<rparr>" p cs pt ?start c "drop (cell_content_start p) (pg_data p)" True]
        True cache c r(1) l1 small live_total_bound [OF ins(1)] by (simp add: sized_def live_total_insert)
  qed (simp add: live_cache_adjust_def)
  then obtain live where live: "live_cache_adjust (p\<lparr>pg_data := put (pg_data p) ?start ?e\<rparr>) pt (pg_epoch p, n_cells p, cell_content_start p) ?start True = Ok live"
    "\<And>l. live = Some l \<Longrightarrow> l = live_total (take pos cs @ ?e # drop pos cs)" by blast
  have g: "set_cell_content_start (p\<lparr>pg_data := put (pg_data p) ?start ?e\<rparr>) ?start = grown p ?e" by (simp add: grown_def Let_def)
  note gr = grown_page [OF r(1,5), of ?e]
  have "write_cell p pt c pos = Ok (?q\<lparr>pg_live_cache := map_option (\<lambda>l. (pg_epoch ?q, (length cs + 1) mod 65536, cell_content_start ?q, l)) live\<rparr>)"
    using small room' r(3,5) enc live(1) pos gr(2,3)
    by (simp add: write_cell_def Let_def cell_encoded_size_encode g PAGE_HEADER_SIZE_def copy_within_def copy_at_def length_put length_window pointed_def diff_mult_distrib)
  moreover have "n_cells ?q = (length cs + 1) mod 65536"
    using page_reprD(3) [OF ins(1)] pos room' r(1,5) by (simp add: sized_def)
  ultimately show ?thesis using ins live(2) cache_tightI [of live "take pos cs @ ?e # drop pos cs" ?q "(length cs + 1) mod 65536"]
    by (auto simp: cell_encoded_size_encode)
qed


subsection \<open>Removal\<close>

definition unpointed :: "page \<Rightarrow> nat \<Rightarrow> nat \<Rightarrow> page" where
  "unpointed p n pos =
     (let base = header_offset p + 12
      in touch (set_n_cells (p\<lparr>pg_data := put (pg_data p) (base + pos * 2) (window (pg_data p) (base + (pos + 1) * 2) ((n - (pos + 1)) * 2))\<rparr>) (n - 1)))"

lemma nth_remove: "pos < length cs \<Longrightarrow> i < length cs - 1 \<Longrightarrow> (take pos cs @ drop (Suc pos) cs) ! i = (if i < pos then cs ! i else cs ! (i + 1))"
  by (simp add: nth_append)

lemma unpointed_repr:
  assumes repr: "page_repr p pt cs" and pos: "pos < length cs"
  defines "p' \<equiv> unpointed p (length cs) pos"
  shows "page_repr p' pt (take pos cs @ drop (Suc pos) cs)"
    "right_most_pointer p' = right_most_pointer p" "length (pg_data p') = length (pg_data p)"
    "cell_content_start p' = cell_content_start p" "header_offset p' = header_offset p"
proof -
  note r = page_reprD [OF repr]
  define base n where "base = header_offset p + 12" and "n = length cs"
  let ?w = "window (pg_data p) (base + (pos + 1) * 2) ((n - (pos + 1)) * 2)"
  define d where "d = put (pg_data p) (base + pos * 2) ?w"
  have lw: "length ?w = (n - (pos + 1)) * 2" using r(4,5) pos base_def n_def by (intro length_window) simp
  then have lb: "base + pos * 2 + length ?w + 2 = base + n * 2" using pos n_def by simp
  have bn: "base + n * 2 \<le> cell_content_start p" "n < 65536" using r(1,4,5) base_def n_def by (simp_all add: sized_def)
  have ld: "length d = length (pg_data p)" using lb bn r(5) by (simp add: d_def length_put)
  have s: "sized (p\<lparr>pg_data := d\<rparr>)" using r(1) ld by (simp add: sized_def)
  have q: "p' = touch (set_n_cells (p\<lparr>pg_data := d\<rparr>) (n - 1))" by (simp add: p'_def unpointed_def Let_def base_def n_def d_def)
  have "head (p\<lparr>pg_data := d\<rparr>) = head p" unfolding d_def using r(1,5) lb bn base_def by (intro head_put) simp_all
  then have "head (set_n_cells (p\<lparr>pg_data := d\<rparr>) (n - 1)) = (Ok pt, n - 1, cell_content_start p, right_most_pointer p)"
    using head_set_n_cells [OF s, of "n - 1"] bn r(2) by (simp add: head_def)
  then have h: "head p' = (Ok pt, n - 1, cell_content_start p, right_most_pointer p)" by (simp add: q)
  have len: "length (pg_data p') = length (pg_data p)" "header_offset p' = header_offset p" "sized p'"
    using s ld r(1) by (simp_all add: q sized_def [of "touch r" for r]) (simp_all add: sized_def)
  have w: "window (pg_data p') o' m = window d o' m" if "base \<le> o'" for o' m
    using that ld s header_offset_le [of p] base_def by (simp add: q set_n_cells_def window_put_other sized_def)
  have ptr: "ptr_at p' i = (if i < pos then ptr_at p i else ptr_at p (i + 1))" if "i < n - 1" for i
    using w [of "base + i * 2" 2] ptr_remove [of pos n base "pg_data p" i] that pos len(2) bn r(5)
    by (simp add: ptr_at_def get16_def base_def [symmetric] d_def n_def)
  have keep: "entry (pg_data p') (cell_content_start p) (ptr_at p j) (cs ! j)" if "j < n" for j
  proof (rule entry_frame [OF r(6) len(1)])
    show "window (pg_data p') o' m = window (pg_data p) o' m" if "cell_content_start p \<le> o'" for o' m
      using w [of o' m] that lb bn r(5) by (simp add: d_def window_put_other)
  qed (use that n_def in simp_all)
  have "entry (pg_data p') (cell_content_start p) (ptr_at p' i) ((take pos cs @ drop (Suc pos) cs) ! i)" if "i < n - 1" for i
    using that nth_remove [OF pos, of i] ptr [OF that] keep [of i] keep [of "i + 1"] n_def by auto
  then show "page_repr p' pt (take pos cs @ drop (Suc pos) cs)" using h len pos r(5) bn by (simp add: page_repr_def head_def n_def base_def)
  show "right_most_pointer p' = right_most_pointer p" "cell_content_start p' = cell_content_start p" using h by (simp_all add: head_def)
  show "length (pg_data p') = length (pg_data p)" "header_offset p' = header_offset p" by (rule len)+
qed

definition holds_cells :: "page \<Rightarrow> page_type \<Rightarrow> cell list \<Rightarrow> bool" where
  "holds_cells p pt rs \<longleftrightarrow> page_repr p pt (map cell_encode rs) \<and> (\<forall>c\<in>set rs. fits_page (length (pg_data p)) pt c)"

lemma take_drop_map: "take n (map f xs) @ f x # drop m (map f xs) = map f (take n xs @ x # drop m xs)"
  "take n (map f xs) @ drop m (map f xs) = map f (take n xs @ drop m xs)"
  by (simp_all add: take_map drop_map)

lemma holds_cell_at:
  assumes "holds_cells p pt rs" "i < length rs"
  obtains rest where "cell_pointer p i = Ok (ptr_at p i)" "ptr_at p i < length (pg_data p)"
    "drop (ptr_at p i) (pg_data p) = cell_encode (rs ! i) @ rest" "fits_page (length (pg_data p)) pt (rs ! i)"
    "ptr_at p i + length (cell_encode (rs ! i)) \<le> length (pg_data p)" "header_offset p + 12 \<le> ptr_at p i" "length (cell_encode (rs ! i)) \<le> 65536"
proof -
  have i: "i < length (map cell_encode rs)" and repr: "page_repr p pt (map cell_encode rs)" using assms by (simp_all add: holds_cells_def)
  note r = page_reprD [OF repr] and e = page_reprD(6) [OF repr i]
  obtain rest where "drop (ptr_at p i) (pg_data p) = cell_encode (rs ! i) @ rest" "ptr_at p i < length (pg_data p)"
    using cell_slice_repr [OF repr i] assms(2) by auto
  then show thesis using that [of rest] cell_pointer_repr [OF repr i] e r(1,4) assms by (simp add: entry_def holds_cells_def sized_def)
qed

lemma remove_cell_at_repr:
  assumes holds: "holds_cells p pt rs" and pos: "pos < length rs" and cache: "cache_ok p (map cell_encode rs)"
  defines "rs' \<equiv> take pos rs @ drop (Suc pos) rs"
  shows "\<exists>p'. remove_cell_at p pos (length rs) = Ok p' \<and> holds_cells p' pt rs' \<and> cache_tight p' (map cell_encode rs')
    \<and> right_most_pointer p' = right_most_pointer p \<and> length (pg_data p') = length (pg_data p) \<and> header_offset p' = header_offset p
    \<and> cell_content_start p' = cell_content_start p"
proof -
  have repr: "page_repr p pt (map cell_encode rs)" using holds by (simp add: holds_cells_def)
  note r = page_reprD [OF repr] and u = unpointed_repr [OF repr, of pos, simplified length_map, OF pos]
  obtain rest where at: "cell_pointer p pos = Ok (ptr_at p pos)" "ptr_at p pos < length (pg_data p)"
    "drop (ptr_at p pos) (pg_data p) = cell_encode (rs ! pos) @ rest" "fits_page (length (pg_data p)) pt (rs ! pos)"
    "length (cell_encode (rs ! pos)) \<le> 65536" by (rule holds_cell_at [OF holds pos])
  have "\<exists>live. live_cache_adjust p pt (pg_epoch p, n_cells p, cell_content_start p) (ptr_at p pos) False = Ok live
     \<and> (\<forall>l. live = Some l \<longrightarrow> l = live_total (map cell_encode rs'))"
  proof (cases "is_leaf pt")
    case True
    show ?thesis using live_cache_adjust_leaf [OF r(1) cache refl True at(2,3,4,5), of False] pos
        live_total_remove [of pos "map cell_encode rs"] by (simp add: rs'_def take_drop_map)
  qed (simp add: live_cache_adjust_def)
  then obtain live where live: "live_cache_adjust p pt (pg_epoch p, n_cells p, cell_content_start p) (ptr_at p pos) False = Ok live"
    "\<And>l. live = Some l \<Longrightarrow> l = live_total (map cell_encode rs')" by blast
  let ?q = "unpointed p (length rs) pos"
  have "remove_cell_at p pos (length rs) = Ok (?q\<lparr>pg_live_cache := map_option (\<lambda>l. (pg_epoch ?q, length rs - 1, cell_content_start ?q, l)) live\<rparr>)"
    using r(2,3,4,5) at(1) live(1) pos
    by (simp add: remove_cell_at_def Let_def PAGE_HEADER_SIZE_def copy_within_def unpointed_def diff_mult_distrib)
  moreover have "\<forall>c\<in>set rs'. fits_page (length (pg_data p)) pt c"
    using holds by (auto simp: rs'_def holds_cells_def dest: in_set_takeD in_set_dropD)
  moreover have "n_cells ?q = length rs - 1" using page_reprD(3) [OF u(1)] pos by simp
  ultimately show ?thesis using u live(2) cache_tightI [of live "map cell_encode rs'" ?q "length rs - 1"]
    by (auto simp: holds_cells_def rs'_def take_drop_map)
qed

lemma write_cell_holds:
  assumes holds: "holds_cells p pt rs" and pos: "pos \<le> length rs" and c: "fits_page (length (pg_data p)) pt c"
    and room: "cell_encoded_size c + 2 \<le> free_space p" and cache: "cache_ok p (map cell_encode rs)"
  defines "rs' \<equiv> take pos rs @ c # drop pos rs"
  shows "\<exists>p'. write_cell p pt c pos = Ok p' \<and> holds_cells p' pt rs' \<and> cache_tight p' (map cell_encode rs')
    \<and> right_most_pointer p' = right_most_pointer p \<and> length (pg_data p') = length (pg_data p) \<and> header_offset p' = header_offset p
    \<and> cell_content_start p' = cell_content_start p - cell_encoded_size c"
proof -
  have "\<forall>c\<in>set rs'. fits_page (length (pg_data p)) pt c"
    using holds c by (auto simp: rs'_def holds_cells_def dest: in_set_takeD in_set_dropD)
  then show ?thesis using write_cell_repr [of p pt "map cell_encode rs" pos c] assms by (auto simp: holds_cells_def take_drop_map)
qed

end
