(* ===== verification/Btree_Search.thy ===== *)
theory Btree_Search
  imports Btree_Leaf
begin

text \<open>
  The binary searches of a page find the place of a key among sorted cells: the search of an
  insert (\<^verbatim>\<open>u16\<close> bounds), the search of a table leaf, and the search biased by a remembered
  position. The rank of a key is the number of cells before it.
\<close>

subsection \<open>Ranks\<close>

definition rank :: "('a \<Rightarrow> bool) \<Rightarrow> 'a list \<Rightarrow> nat" where
  "rank lt xs = length (takeWhile lt xs)"

definition downward :: "('a \<Rightarrow> bool) \<Rightarrow> 'a list \<Rightarrow> bool" where
  "downward lt xs \<longleftrightarrow> (\<forall>i j. i < j \<and> j < length xs \<and> lt (xs ! j) \<longrightarrow> lt (xs ! i))"

lemma rank_le: "rank lt xs \<le> length xs"
  by (simp add: rank_def length_takeWhile_le)

lemma rank_less: "downward lt xs \<Longrightarrow> i < length xs \<Longrightarrow> i < rank lt xs \<longleftrightarrow> lt (xs ! i)"
proof
  assume i: "i < rank lt xs"
  then have "takeWhile lt xs ! i \<in> set (takeWhile lt xs)" by (simp add: rank_def)
  then have "lt (takeWhile lt xs ! i)" by (rule set_takeWhileD [THEN conjunct2])
  then show "lt (xs ! i)" using i by (simp add: rank_def takeWhile_nth)
next
  assume d: "downward lt xs" and l: "i < length xs" and lt: "lt (xs ! i)"
  show "i < rank lt xs"
  proof (rule ccontr)
    assume "\<not> i < rank lt xs"
    then have r: "rank lt xs \<le> i" "rank lt xs < length xs" using l by simp_all
    then have "\<not> lt (xs ! rank lt xs)" unfolding rank_def by (intro nth_length_takeWhile) simp
    moreover have "lt (xs ! rank lt xs)" using d [unfolded downward_def, rule_format, of "rank lt xs" i] r l lt by (cases "rank lt xs = i") auto
    ultimately show False by simp
  qed
qed

subsection \<open>The search of an insert\<close>

lemma bsearch_rank_from:
  assumes "n < 32768" "k \<le> n" "\<And>i. m0 \<le> i \<Longrightarrow> i < n \<Longrightarrow> probe i = Ok (if i < k then GoRight else GoLeft)"
  shows "m0 \<le> lo \<Longrightarrow> lo \<le> k \<Longrightarrow> k \<le> hi \<Longrightarrow> hi \<le> n \<Longrightarrow> bsearch probe lo hi = Some (Ok k)"
proof (induction "hi - lo" arbitrary: lo hi rule: less_induct)
  case less
  show ?case
  proof (cases "lo < hi")
    case True
    define mid where "mid = (lo + hi) div 2"
    have m: "(lo + hi) mod 65536 div 2 = mid" "lo \<le> mid" "mid < hi" "(mid + 1) mod 65536 = mid + 1"
      using True less.prems assms(1) by (auto simp: mid_def)
    have p: "probe mid = Ok (if mid < k then GoRight else GoLeft)" using m less.prems by (intro assms(3)) simp_all
    show ?thesis
    proof (cases "mid < k")
      case True
      have "bsearch probe (mid + 1) hi = Some (Ok k)" using True m less.prems by (intro less.hyps) simp_all
      then show ?thesis using \<open>lo < hi\<close> m p True by (subst bsearch.simps) (simp add: Let_def)
    next
      case False
      have "bsearch probe lo mid = Some (Ok k)" using False m less.prems by (intro less.hyps) simp_all
      then show ?thesis using \<open>lo < hi\<close> m p False by (subst bsearch.simps) (simp add: Let_def)
    qed
  next
    case False
    then show ?thesis using less.prems by (subst bsearch.simps) simp
  qed
qed

lemma bsearch_rank:
  assumes "n < 32768" "k \<le> n" "\<And>i. i < n \<Longrightarrow> probe i = Ok (if i < k then GoRight else GoLeft)"
  shows "lo \<le> k \<Longrightarrow> k \<le> hi \<Longrightarrow> hi \<le> n \<Longrightarrow> bsearch probe lo hi = Some (Ok k)"
  using bsearch_rank_from [of n k 0 probe lo hi] assms by simp

text \<open>Cells of a table are compared by rowid.\<close>

definition row_lt :: "i64 \<Rightarrow> cell \<Rightarrow> bool" where
  "row_lt r c \<longleftrightarrow> sint (cell_key c) < sint r"

definition sorted_rows :: "cell list \<Rightarrow> bool" where
  "sorted_rows rs \<longleftrightarrow> sorted_wrt (<) (map (sint \<circ> cell_key) rs)"

lemma sorted_rows_nth: "sorted_rows rs \<Longrightarrow> i < j \<Longrightarrow> j < length rs \<Longrightarrow> sint (cell_key (rs ! i)) < sint (cell_key (rs ! j))"
  by (simp add: sorted_rows_def sorted_wrt_iff_nth_less)

lemma sorted_rows_downward: "sorted_rows rs \<Longrightarrow> downward (row_lt r) rs"
  using sorted_rows_nth [of rs] by (fastforce simp: downward_def row_lt_def)

lemma holds_few: "holds_cells p pt rs \<Longrightarrow> length rs < 32768"
  using page_reprD(1,4,5) [of p pt "map cell_encode rs"] by (simp add: holds_cells_def sized_def)

lemma table_key_of_cell:
  assumes "cell_type c = pt" "is_table pt"
  shows "(if is_interior pt then decode_table_interior_key (cell_encode c @ rest) else map_option fst (decode_signed (cell_encode c @ rest))) = Some (cell_key c)"
  using assms by (cases c) (auto simp: is_table_def is_interior_def decode_table_interior_key_def)

lemma table_probe_holds:
  assumes "holds_cells p pt rs" "is_table pt" "i < length rs"
  shows "table_probe p (is_interior pt) r i = Ok (if row_lt r (rs ! i) then GoRight else GoLeft)"
proof (rule holds_cell_at [OF assms(1,3)])
  fix rest
  assume a: "cell_pointer p i = Ok (ptr_at p i)" "ptr_at p i < length (pg_data p)" "drop (ptr_at p i) (pg_data p) = cell_encode (rs ! i) @ rest"
    "fits_page (length (pg_data p)) pt (rs ! i)"
  have "cell_type (rs ! i) = pt" using a(4) by (simp add: fits_page_def)
  from table_key_of_cell [OF this assms(2), of rest] show ?thesis
    using a by (simp add: table_probe_def cell_slice_checked_def row_lt_def)
qed

lemma find_pos_table:
  assumes "holds_cells p pt rs" "is_table pt" "sorted_rows rs"
  shows "find_pos asm p pt c = Some (Ok (rank (row_lt (cell_key c)) rs))"
proof -
  let ?k = "rank (row_lt (cell_key c)) rs"
  have "table_probe p (is_interior pt) (cell_key c) i = Ok (if i < ?k then GoRight else GoLeft)" if "i < length rs" for i
    using table_probe_holds [OF assms(1,2) that] rank_less [OF sorted_rows_downward [OF assms(3)] that] by simp
  then have "bsearch (table_probe p (is_interior pt) (cell_key c)) 0 (length rs) = Some (Ok ?k)"
    using holds_few [OF assms(1)] rank_le by (intro bsearch_rank) auto
  moreover have "\<not> is_index pt" using assms(2) by (auto simp: is_table_def is_index_def)
  ultimately show ?thesis using page_reprD(3) [of p pt "map cell_encode rs"] assms(1) by (simp add: find_pos_def holds_cells_def)
qed

subsection \<open>The searches of a table leaf\<close>

lemma leaf_rowid_holds:
  assumes "holds_cells p LeafTable rs" "i < length rs"
  shows "leaf_rowid p i msg = Ok (cell_key (rs ! i))"
proof (rule holds_cell_at [OF assms])
  fix rest
  assume a: "ptr_at p i < length (pg_data p)" "drop (ptr_at p i) (pg_data p) = cell_encode (rs ! i) @ rest" "fits_page (length (pg_data p)) LeafTable (rs ! i)"
  have "cell_type (rs ! i) = LeafTable" using a(3) by (simp add: fits_page_def)
  then have "\<exists>n. decode_signed (cell_encode (rs ! i) @ rest) = Some (cell_key (rs ! i), n)" by (cases "rs ! i") auto
  then show ?thesis using a by (auto simp: leaf_rowid_def Let_def cell_pointer_base_eq ptr_at_def decode_rowid_only_def)
qed

text \<open>The place of a rowid: its position if a cell holds it, else where it would go.\<close>

definition place :: "i64 \<Rightarrow> cell list \<Rightarrow> nat + nat" where
  "place r rs = (let k = rank (row_lt r) rs in if k < length rs \<and> cell_key (rs ! k) = r then Inl k else Inr k)"

lemma rank_eqI:
  assumes "downward lt xs" "k \<le> length xs" "\<And>i. i < k \<Longrightarrow> lt (xs ! i)" "k < length xs \<Longrightarrow> \<not> lt (xs ! k)"
  shows "rank lt xs = k"
proof (rule antisym)
  show "rank lt xs \<le> k" using rank_less [OF assms(1), of k] assms(2,4) rank_le [of lt xs] by (cases "k < length xs") auto
  show "k \<le> rank lt xs" using rank_less [OF assms(1), of "k - 1"] assms(2,3) by (cases k) auto
qed

lemma place_found: "sorted_rows rs \<Longrightarrow> i < length rs \<Longrightarrow> cell_key (rs ! i) = r \<Longrightarrow> place r rs = Inl i"
proof -
  assume a: "sorted_rows rs" "i < length rs" "cell_key (rs ! i) = r"
  then have "rank (row_lt r) rs = i"
    using sorted_rows_nth [OF a(1)] by (intro rank_eqI sorted_rows_downward) (auto simp: row_lt_def)
  then show ?thesis using a by (simp add: place_def)
qed

lemma place_absent:
  assumes "sorted_rows rs" "k \<le> length rs" "\<And>i. i < k \<Longrightarrow> sint (cell_key (rs ! i)) < sint r" "\<And>i. k \<le> i \<Longrightarrow> i < length rs \<Longrightarrow> sint r < sint (cell_key (rs ! i))"
  shows "place r rs = Inr k"
proof -
  have "rank (row_lt r) rs = k"
    using assms(2,3) assms(4) [of k] by (intro rank_eqI sorted_rows_downward assms(1)) (auto simp: row_lt_def)
  then show ?thesis using assms(4) [of k] by (auto simp: place_def)
qed

text \<open>Both loops of the leaf search narrow the cells that can hold the rowid.\<close>

definition bracket :: "cell list \<Rightarrow> i64 \<Rightarrow> nat \<Rightarrow> nat \<Rightarrow> bool" where
  "bracket rs r lo hi \<longleftrightarrow> lo \<le> hi \<and> hi \<le> length rs \<and> (\<forall>i<lo. sint (cell_key (rs ! i)) < sint r) \<and> (\<forall>i. hi \<le> i \<and> i < length rs \<longrightarrow> sint r < sint (cell_key (rs ! i)))"

lemma bracket_step:
  assumes "sorted_rows rs" "bracket rs r lo hi" "lo \<le> mid" "mid < hi"
  shows "sint (cell_key (rs ! mid)) < sint r \<Longrightarrow> bracket rs r (mid + 1) hi" "sint r < sint (cell_key (rs ! mid)) \<Longrightarrow> bracket rs r lo mid"
proof -
  show "bracket rs r (mid + 1) hi" if "sint (cell_key (rs ! mid)) < sint r"
    using assms that sorted_rows_nth [OF assms(1), of _ mid] by (fastforce simp: bracket_def less_Suc_eq)
  show "bracket rs r lo mid" if "sint r < sint (cell_key (rs ! mid))"
    using assms that sorted_rows_nth [OF assms(1), of mid] by (fastforce simp: bracket_def le_less)
qed

lemma bracket_empty: "sorted_rows rs \<Longrightarrow> bracket rs r lo hi \<Longrightarrow> \<not> lo < hi \<Longrightarrow> place r rs = Inr lo"
  by (intro place_absent) (auto simp: bracket_def)

lemma sint_trichotomy: "\<not> sint a < sint b \<Longrightarrow> \<not> sint b < sint a \<Longrightarrow> (a :: i64) = b"
  using signed_word_eqI [of a b] by simp

lemma leaf_search_loop_place:
  assumes holds: "holds_cells p LeafTable rs" and sorted: "sorted_rows rs"
  shows "bracket rs r lo hi \<Longrightarrow> leaf_search_loop p r lo hi = Ok (place r rs)"
proof (induction "hi - lo" arbitrary: lo hi rule: less_induct)
  case less
  show ?case
  proof (cases "lo < hi")
    case True
    define mid where "mid = lo + (hi - lo) div 2"
    have m: "lo \<le> mid" "mid < hi" "mid < length rs" using True less.prems by (auto simp: mid_def bracket_def)
    note k = leaf_rowid_holds [OF holds m(3)] and step = bracket_step [OF sorted less.prems m(1,2)]
    consider "sint (cell_key (rs ! mid)) < sint r" | "sint r < sint (cell_key (rs ! mid))" | "cell_key (rs ! mid) = r"
      using sint_trichotomy by blast
    then show ?thesis
    proof cases
      case 1
      have "leaf_search_loop p r (mid + 1) hi = Ok (place r rs)" using m True by (intro less.hyps step 1) simp
      then show ?thesis using True 1 k by (subst leaf_search_loop.simps) (simp add: mid_def [symmetric])
    next
      case 2
      have "leaf_search_loop p r lo mid = Ok (place r rs)" using m True by (intro less.hyps step 2) simp
      then show ?thesis using True 2 k by (subst leaf_search_loop.simps) (simp add: mid_def [symmetric])
    next
      case 3
      then show ?thesis using True k place_found [OF sorted m(3) 3] by (subst leaf_search_loop.simps) (simp add: mid_def [symmetric])
    qed
  next
    case False
    then show ?thesis using bracket_empty [OF sorted less.prems] by (subst leaf_search_loop.simps) simp
  qed
qed

definition found :: "nat + nat \<Rightarrow> nat option" where
  "found x = (case x of Inl i \<Rightarrow> Some i | Inr _ \<Rightarrow> None)"

lemma bracket_loop_found:
  assumes holds: "holds_cells p LeafTable rs" and sorted: "sorted_rows rs"
  shows "bracket rs r lo hi \<Longrightarrow> bracket_loop p r lo hi = Ok (found (place r rs))"
proof (induction "hi - lo" arbitrary: lo hi rule: less_induct)
  case less
  show ?case
  proof (cases "lo < hi")
    case True
    define mid where "mid = (lo + hi) div 2"
    have m: "lo \<le> mid" "mid < hi" "mid < length rs" using True less.prems by (auto simp: mid_def bracket_def)
    note k = leaf_rowid_holds [OF holds m(3)] and step = bracket_step [OF sorted less.prems m(1,2)]
    consider "sint (cell_key (rs ! mid)) < sint r" | "sint r < sint (cell_key (rs ! mid))" | "cell_key (rs ! mid) = r"
      using sint_trichotomy by blast
    then show ?thesis
    proof cases
      case 1
      then have ne: "cell_key (rs ! mid) \<noteq> r" by auto
      have "bracket_loop p r (mid + 1) hi = Ok (found (place r rs))" using m True by (intro less.hyps step 1) simp
      then show ?thesis using True 1 ne k by (subst bracket_loop.simps) (simp add: mid_def [symmetric])
    next
      case 2
      then have ne: "cell_key (rs ! mid) \<noteq> r" by auto
      have "bracket_loop p r lo mid = Ok (found (place r rs))" using m True by (intro less.hyps step 2) simp
      then show ?thesis using True 2 ne k by (subst bracket_loop.simps) (simp add: mid_def [symmetric])
    next
      case 3
      then show ?thesis using True k place_found [OF sorted m(3) 3] by (subst bracket_loop.simps) (simp add: mid_def [symmetric] found_def)
    qed
  next
    case False
    then show ?thesis using bracket_empty [OF sorted less.prems] by (subst bracket_loop.simps) (simp add: found_def)
  qed
qed

lemma bracket_all: "bracket rs r 0 (length rs)"
  by (simp add: bracket_def)

lemma array_fits: "holds_cells p pt rs \<Longrightarrow> cell_pointer_base p + length rs * 2 \<le> length (pg_data p)"
  using page_reprD(4,5) [of p pt "map cell_encode rs"] by (simp add: holds_cells_def cell_pointer_base_eq)

lemma table_leaf_search_place:
  assumes "holds_cells p LeafTable rs" "sorted_rows rs"
  shows "table_leaf_search p r = Ok (place r rs)"
  using leaf_search_loop_place [OF assms bracket_all, of r] array_fits [OF assms(1)] assms(1) page_reprD(3) [of p LeafTable "map cell_encode rs"]
  by (simp add: table_leaf_search_def holds_cells_def)

lemma biased_search_found:
  assumes holds: "holds_cells p LeafTable rs" and sorted: "sorted_rows rs"
  shows "biased_rowid_search p (length rs) bias r = Ok (found (place r rs))"
proof -
  consider "rs = []" | "rs \<noteq> []" "bias = 0" | "rs \<noteq> []" "bias \<noteq> 0" by blast
  then show ?thesis
  proof cases
    case 1
    then show ?thesis using place_absent [of rs 0 r] sorted by (simp add: biased_rowid_search_def found_def)
  next
    case 2
    then show ?thesis using table_leaf_search_place [OF assms, of r]
      by (auto simp: biased_rowid_search_def found_def split: sum.split)
  next
    case 3
    define b where "b = min bias (length rs - Suc 0)"
    have b: "b < length rs" using 3 by (cases rs) (auto simp: b_def)
    note kb = leaf_rowid_holds [OF holds b] and step = bracket_step [OF sorted bracket_all le0 b]
    have run: "biased_rowid_search p (length rs) bias r =
       (if cell_key (rs ! b) = r then Ok (Some b)
        else if sint r < sint (cell_key (rs ! b)) then bracket_loop p r 0 b
        else if b + 1 < length rs
             then (if cell_key (rs ! (b + 1)) = r then Ok (Some (b + 1))
                   else if sint (cell_key (rs ! (b + 1))) < sint r then bracket_loop p r (b + 1 + 1) (length rs)
                   else bracket_loop p r (b + 1) (b + 1))
             else bracket_loop p r (b + 1) (length rs))"
      using 3 kb leaf_rowid_holds [OF holds, of "b + 1"] array_fits [OF holds]
      by (simp add: biased_rowid_search_def b_def [symmetric] Let_def)
    consider "cell_key (rs ! b) = r" | "sint r < sint (cell_key (rs ! b))" | "sint (cell_key (rs ! b)) < sint r" using sint_trichotomy by blast
    then show ?thesis
    proof cases
      case 1
      then show ?thesis using run place_found [OF sorted b] by (simp add: found_def)
    next
      case 2
      then have "cell_key (rs ! b) \<noteq> r" by auto
      then show ?thesis using run 2 bracket_loop_found [OF assms step(2) [OF 2]] by simp
    next
      case 3
      then have ne: "cell_key (rs ! b) \<noteq> r" "\<not> sint r < sint (cell_key (rs ! b))" by auto
      note br = step(1) [OF 3]
      show ?thesis
      proof (cases "b + 1 < length rs")
        case True
        note next_step = bracket_step [OF sorted br order_refl True]
        consider "cell_key (rs ! (b + 1)) = r" | "sint (cell_key (rs ! (b + 1))) < sint r" | "sint r < sint (cell_key (rs ! (b + 1)))"
          using sint_trichotomy by blast
        then show ?thesis
        proof cases
          case 1
          then show ?thesis using run ne True place_found [OF sorted True 1] by (simp add: found_def)
        next
          case 2
          then have "cell_key (rs ! (b + 1)) \<noteq> r" by auto
          then show ?thesis using run ne True 2 bracket_loop_found [OF assms next_step(1) [OF 2]] by simp
        next
          case 3
          then have "cell_key (rs ! (b + 1)) \<noteq> r" "\<not> sint (cell_key (rs ! (b + 1))) < sint r" by auto
          then show ?thesis using run ne True bracket_loop_found [OF assms next_step(2) [OF 3]] by simp
        qed
      next
        case False
        then show ?thesis using run ne bracket_loop_found [OF assms br] by simp
      qed
    qed
  qed
qed

end
