(* ===== verification/Btree_Compact.thy ===== *)
theory Btree_Compact
  imports Btree_Leaf "HOL-Library.Multiset"
begin

text \<open>
  Operations on all cells of a page. The three loops that lay cells out from the end of a page
  (\<^verbatim>\<open>write_ordered_cells\<close>, \<^verbatim>\<open>write_leaf_slices\<close> and the rewrite of \<^verbatim>\<open>compact_leaf_if_fragmented\<close>)
  are one loop with different orders and checks, so one lemma explains them.
\<close>

subsection \<open>Reading all cells\<close>

lemma leaf_page:
  assumes "holds_cells p pt rs"
  shows "page_repr p pt (map cell_encode rs)" "sized p" "page_type_of p = Ok pt" "n_cells p = length rs"
    "512 \<le> length (pg_data p)" "length (pg_data p) \<le> 65536"
  using assms page_reprD [of p pt "map cell_encode rs"] by (simp_all add: holds_cells_def sized_def)

lemma stored_cell:
  assumes "holds_cells p pt rs" "is_leaf pt" "i < length rs"
  obtains rest where "cell_pointer p i = Ok (ptr_at p i)" "12 \<le> ptr_at p i" "ptr_at p i < length (pg_data p)"
    "drop (ptr_at p i) (pg_data p) = cell_encode (rs ! i) @ rest"
    "leaf_cell_size pt (drop (ptr_at p i) (pg_data p)) (length (pg_data p)) = Ok (Some (length (cell_encode (rs ! i))))"
    "slice (pg_data p) (ptr_at p i) (usize_add (ptr_at p i) (length (cell_encode (rs ! i)))) = Ok (cell_encode (rs ! i))"
    "usize_add (ptr_at p i) (length (cell_encode (rs ! i))) \<le> length (pg_data p)"
proof (rule holds_cell_at [OF assms(1,3)])
  fix rest
  let ?e = "cell_encode (rs ! i)" and ?ptr = "ptr_at p i"
  assume a: "cell_pointer p i = Ok ?ptr" "?ptr < length (pg_data p)" "drop ?ptr (pg_data p) = ?e @ rest"
    "fits_page (length (pg_data p)) pt (rs ! i)" "?ptr + length ?e \<le> length (pg_data p)" "header_offset p + 12 \<le> ?ptr" "length ?e \<le> 65536"
  have u: "usize_add ?ptr (length ?e) = ?ptr + length ?e" using a leaf_page(6) [OF assms(1)] by (intro usize_add_exact) simp
  have "slice (pg_data p) ?ptr (?ptr + length ?e) = Ok ?e" using a(3,5) by (simp add: slice_eq_Ok)
  then show thesis using that [of rest] a u leaf_cell_size_encode [OF leaf_page(5,6) [OF assms(1)], of "rs ! i" pt rest] assms(2)
    by (simp add: fits_page_def)
qed

lemma leaf_cells_loop_holds:
  assumes "holds_cells p pt rs" "is_leaf pt"
  shows "set is \<subseteq> {..<length rs} \<Longrightarrow> leaf_cells_loop p pt is = Ok (Some (map (\<lambda>i. cell_encode (rs ! i)) is))"
proof (induction "is")
  case (Cons i "is")
  obtain rest where "cell_pointer p i = Ok (ptr_at p i)" "12 \<le> ptr_at p i" "ptr_at p i < length (pg_data p)"
    "leaf_cell_size pt (drop (ptr_at p i) (pg_data p)) (length (pg_data p)) = Ok (Some (length (cell_encode (rs ! i))))"
    "slice (pg_data p) (ptr_at p i) (usize_add (ptr_at p i) (length (cell_encode (rs ! i)))) = Ok (cell_encode (rs ! i))"
    "usize_add (ptr_at p i) (length (cell_encode (rs ! i))) \<le> length (pg_data p)"
    using Cons.prems by (auto intro: stored_cell [OF assms])
  then show ?case using Cons leaf_page(2) [OF assms(1)] by (simp add: PAGE_HEADER_SIZE_def)
qed simp

lemma all_cells: "map (\<lambda>i. cell_encode (rs ! i)) [0..<length rs] = map cell_encode rs" "set [0..<length rs] \<subseteq> {..<length rs}"
  by (rule nth_equalityI) auto

lemma leaf_cells_holds:
  assumes "holds_cells p pt rs" "is_leaf pt"
  shows "leaf_cells p = Ok (Some (pt, map cell_encode rs))"
  using leaf_cells_loop_holds [OF assms all_cells(2)] leaf_page(3,4) [OF assms(1)] assms(2)
  by (simp add: leaf_cells_def all_cells(1))

lemma live_loop_holds:
  assumes "holds_cells p pt rs" "is_leaf pt"
  shows "set is \<subseteq> {..<length rs} \<Longrightarrow> used + live_total (map (\<lambda>i. cell_encode (rs ! i)) is) < 2 ^ 64 \<Longrightarrow>
    live_loop p pt usable is used = Ok (Some (used + live_total (map (\<lambda>i. cell_encode (rs ! i)) is)))"
proof (induction "is" arbitrary: used)
  case (Cons i "is")
  obtain rest where "cell_pointer p i = Ok (ptr_at p i)" "12 \<le> ptr_at p i" "ptr_at p i < length (pg_data p)"
    "leaf_cell_size pt (drop (ptr_at p i) (pg_data p)) (length (pg_data p)) = Ok (Some (length (cell_encode (rs ! i))))"
    using Cons.prems by (auto intro: stored_cell [OF assms])
  moreover have "usize_add used (length (cell_encode (rs ! i)) + 2) = used + (length (cell_encode (rs ! i)) + 2)"
    using Cons.prems by (intro usize_add_exact) simp
  ultimately show ?case using Cons leaf_page(2) [OF assms(1)] by (simp add: PAGE_HEADER_SIZE_def add.assoc)
qed simp

lemma leaf_live_bytes_holds:
  assumes "holds_cells p pt rs" "is_leaf pt"
  shows "leaf_live_bytes p pt usable = Ok (Some (live_total (map cell_encode rs)))"
  using live_loop_holds [OF assms all_cells(2), of 0] live_total_bound [OF leaf_page(1) [OF assms(1)]] leaf_page(4) [OF assms(1)]
  by (simp add: leaf_live_bytes_def all_cells(1))

lemma sum_sizes_holds:
  assumes "holds_cells p pt rs" "is_leaf pt"
  shows "set is \<subseteq> {..<length rs} \<Longrightarrow> sum_sizes p pt is tot = Ok (Some (tot + (\<Sum>c\<leftarrow>map (\<lambda>i. cell_encode (rs ! i)) is. length c)))"
proof (induction "is" arbitrary: tot)
  case (Cons i "is")
  obtain rest where "cell_pointer p i = Ok (ptr_at p i)" "ptr_at p i < length (pg_data p)"
    "leaf_cell_size pt (drop (ptr_at p i) (pg_data p)) (length (pg_data p)) = Ok (Some (length (cell_encode (rs ! i))))"
    "usize_add (ptr_at p i) (length (cell_encode (rs ! i))) \<le> length (pg_data p)"
    using Cons.prems by (auto intro: stored_cell [OF assms])
  then show ?case using Cons by (simp add: add.assoc)
qed simp

lemma scratch_copy_holds:
  assumes "holds_cells p pt rs" "is_leaf pt"
  shows "set is \<subseteq> {..<length rs} \<Longrightarrow> scratch_copy p pt is = Ok (map (\<lambda>i. cell_encode (rs ! i)) is)"
proof (induction "is")
  case (Cons i "is")
  obtain rest where "cell_pointer p i = Ok (ptr_at p i)" "ptr_at p i < length (pg_data p)"
    "leaf_cell_size pt (drop (ptr_at p i) (pg_data p)) (length (pg_data p)) = Ok (Some (length (cell_encode (rs ! i))))"
    "slice (pg_data p) (ptr_at p i) (usize_add (ptr_at p i) (length (cell_encode (rs ! i)))) = Ok (cell_encode (rs ! i))"
    using Cons.prems by (auto intro: stored_cell [OF assms])
  then show ?case using Cons by (simp add: slice_Ok)
qed simp

subsection \<open>Laying cells out\<close>

lemma rewrite_loop_layout:
  assumes "distinct (map fst ics)" "\<forall>(i, c)\<in>set ics. i < n \<and> c \<noteq> []" "base + n * 2 + (\<Sum>(i, c)\<leftarrow>ics. length c) \<le> off"
    "off \<le> length data" "length data \<le> 65536"
  shows "\<exists>d. rewrite_loop base ics data off = Ok (d, off - (\<Sum>(i, c)\<leftarrow>ics. length c)) \<and> length d = length data
    \<and> (\<forall>o' m. o' + m \<le> base \<or> off \<le> o' \<longrightarrow> window d o' m = window data o' m)
    \<and> (\<forall>i<n. i \<notin> fst ` set ics \<longrightarrow> get16 d (base + i * 2) = get16 data (base + i * 2))
    \<and> (\<forall>(i, c)\<in>set ics. entry d (off - (\<Sum>(i, c)\<leftarrow>ics. length c)) (get16 d (base + i * 2)) c)"
  using assms
proof (induction ics arbitrary: data off)
  case (Cons ic ics)
  obtain i c where ic: "ic = (i, c)" by (cases ic)
  define off' where "off' = off - length c"
  define d1 where "d1 = put data off' c"
  define d2 where "d2 = put d1 (base + i * 2) (be_bytes 2 off')"
  let ?s = "\<Sum>(i, c)\<leftarrow>ics. length c"
  have i: "i < n" "c \<noteq> []" "i \<notin> fst ` set ics" using Cons.prems ic by auto
  have o1: "base + n * 2 + ?s \<le> off'" "off' + length c = off" "off' + length c \<le> length data"
    using Cons.prems(3,4) ic by (auto simp: off'_def)
  have "0 < length c" using i by simp
  then have o2: "off' < 65536" "base + i * 2 + 2 \<le> off'" using o1 i Cons.prems(5) by linarith+
  have l1: "length d1 = length data" using o1 by (simp add: d1_def length_put)
  then have l2: "length d2 = length data" using o1 o2 by (simp add: d2_def length_put)
  have run: "rewrite_loop base (ic # ics) data off = rewrite_loop base ics d2 off'"
    using o1 o2 l1 by (simp add: ic off'_def [symmetric] copy_at_def d1_def [symmetric] d2_def [symmetric])
  have pre: "distinct (map fst ics)" "\<forall>(i, c)\<in>set ics. i < n \<and> c \<noteq> []" "off' \<le> length d2" "length d2 \<le> 65536"
    using Cons.prems(1,2,5) o1(3) l2 by auto
  obtain d where D: "rewrite_loop base ics d2 off' = Ok (d, off' - ?s) \<and> length d = length d2
    \<and> (\<forall>o' m. o' + m \<le> base \<or> off' \<le> o' \<longrightarrow> window d o' m = window d2 o' m)
    \<and> (\<forall>i<n. i \<notin> fst ` set ics \<longrightarrow> get16 d (base + i * 2) = get16 d2 (base + i * 2))
    \<and> (\<forall>(i, c)\<in>set ics. entry d (off' - ?s) (get16 d (base + i * 2)) c)"
    using Cons.IH [OF pre(1,2) o1(1) pre(3,4)] by blast
  then have d: "rewrite_loop base ics d2 off' = Ok (d, off' - ?s)" "length d = length d2"
    "o' + m \<le> base \<or> off' \<le> o' \<Longrightarrow> window d o' m = window d2 o' m"
    "j < n \<Longrightarrow> j \<notin> fst ` set ics \<Longrightarrow> get16 d (base + j * 2) = get16 d2 (base + j * 2)"
    "(j, e) \<in> set ics \<Longrightarrow> entry d (off' - ?s) (get16 d (base + j * 2)) e" for o' m j e by blast+
  have fin: "off - (\<Sum>(i, c)\<leftarrow>ic # ics. length c) = off' - ?s" by (simp add: ic off'_def)
  have ptr: "get16 d (base + i * 2) = off'" using d(4) [OF i(1,3)] o1 o2 l1 by (simp add: d2_def page_simps)
  have "window d off' (length c) = c" using d(3) [of off' "length c"] o1 o2 l1 by (simp add: d2_def d1_def window_put_other window_put_same)
  then have "entry d (off' - ?s) (get16 d (base + i * 2)) c" using ptr i o1 d(2) l2 by (simp add: entry_def)
  moreover have "window d o' m = window data o' m" if "o' + m \<le> base \<or> off \<le> o'" for o' m
  proof -
    have "window d o' m = window d2 o' m" using that o1 by (intro d(3)) auto
    also have "\<dots> = window d1 o' m" unfolding d2_def using that o1 o2 l1 by (intro window_put_other) auto
    also have "\<dots> = window data o' m" unfolding d1_def using that o1 by (intro window_put_other) auto
    finally show ?thesis .
  qed
  moreover have "get16 d (base + j * 2) = get16 data (base + j * 2)" if "j < n" "j \<notin> fst ` set (ic # ics)" for j
  proof -
    have "get16 d (base + j * 2) = get16 d2 (base + j * 2)" using that by (intro d(4)) auto
    also have "\<dots> = get16 d1 (base + j * 2)" unfolding d2_def using that ic o1 o2 l1 by (intro get16_put_other) auto
    also have "\<dots> = get16 data (base + j * 2)" unfolding d1_def using that o1 by (intro get16_put_other) auto
    finally show ?thesis .
  qed
  ultimately show ?case unfolding fin run using d(1,2,5) l2 ic by auto
qed simp


lemma page_repr_touch [simp]: "page_repr (touch p) pt cs = page_repr p pt cs"
  by (simp add: page_repr_def ptr_at_def sized_def)

lemma head_frame:
  assumes "sized p" "length d = length (pg_data p)" "\<And>o' m. o' + m \<le> header_offset p + 12 \<Longrightarrow> window d o' m = window (pg_data p) o' m"
  shows "head (p\<lparr>pg_data := d\<rparr>) = head p"
proof -
  let ?h = "header_offset p"
  have "get16 d (?h + 4) = get16 (pg_data p) (?h + 4)" "get16 d (?h + 6) = get16 (pg_data p) (?h + 6)" "get32 d (?h + 8) = get32 (pg_data p) (?h + 8)"
    by (simp_all add: get16_def get32_def assms(3))
  moreover have "d ! ?h = pg_data p ! ?h"
    using assms(3) [of ?h 1] assms(1,2) header_offset_le [of p] by (simp add: window_def sized_def take_Suc_conv_app_nth)
  ultimately show ?thesis using assms(2) by (simp add: head_defs page_size_def)
qed

lemma entries_repr:
  assumes "sized q" "head q = (Ok pt, length cs, off, r)" "header_offset q = h" "length (pg_data q) = length d" "off \<le> length d"
    "\<And>o' m. h + 12 \<le> o' \<Longrightarrow> window (pg_data q) o' m = window d o' m" "h + 12 + length cs * 2 \<le> off"
    "\<And>i. i < length cs \<Longrightarrow> entry d off (get16 d (h + 12 + i * 2)) (cs ! i)"
  shows "page_repr q pt cs"
proof -
  have "entry (pg_data q) off (ptr_at q i) (cs ! i)" if "i < length cs" for i
  proof -
    have "ptr_at q i = get16 d (h + 12 + i * 2)" using assms(3,6) by (simp add: ptr_at_def get16_def)
    then show ?thesis using entry_frame [OF assms(8) [OF that] assms(4) order_refl] assms(6,7) by simp
  qed
  then show ?thesis using assms by (simp add: page_repr_def head_def)
qed

lemma setter_windows:
  assumes "sized p" "header_offset p + 12 \<le> o'"
  shows "window (pg_data (set_cell_content_start p s)) o' m = window (pg_data p) o' m" "window (pg_data (set_n_cells p n)) o' m = window (pg_data p) o' m"
  using assms header_offset_le [of p] by (simp_all add: set_cell_content_start_def set_n_cells_def window_put_other sized_def)

text \<open>Cells laid out from the end of the page, in any order, give a page that holds them.\<close>

lemma layout_repr:
  assumes p: "sized p" "page_type_of p = Ok pt" and cs: "\<forall>c\<in>set cs. c \<noteq> []" and ics: "mset ics = mset (zip [0..<length cs] cs)"
    and room: "header_offset p + 12 + length cs * 2 + (\<Sum>c\<leftarrow>cs. length c) \<le> length (pg_data p)"
  defines "off \<equiv> length (pg_data p) - (\<Sum>c\<leftarrow>cs. length c)"
  shows "\<exists>d. rewrite_loop (header_offset p + 12) ics (pg_data p) (length (pg_data p)) = Ok (d, off)
    \<and> (\<forall>q. q = set_cell_content_start (set_n_cells (p\<lparr>pg_data := d\<rparr>) (length cs)) off
          \<or> q = set_n_cells (set_cell_content_start (p\<lparr>pg_data := d\<rparr>) off) (length cs)
          \<or> n_cells p = length cs \<and> q = set_cell_content_start (p\<lparr>pg_data := d\<rparr>) off
       \<longrightarrow> page_repr q pt cs \<and> head q = (Ok pt, length cs, off, right_most_pointer p) \<and> header_offset q = header_offset p
          \<and> length (pg_data q) = length (pg_data p))"
proof -
  let ?n = "length cs" and ?b = "header_offset p + 12"
  have fst: "mset (map fst ics) = mset [0..<?n]" using ics by (simp add: mset_map) (simp flip: mset_map add: map_fst_zip)
  have set: "set ics = set (zip [0..<?n] cs)" using ics by (metis set_mset_mset)
  have "(\<Sum>(i, c)\<leftarrow>ics. length c) = (\<Sum>(i, c)\<leftarrow>zip [0..<?n] cs. length c)"
    using ics by (metis mset_map sum_mset_sum_list)
  also have "map (\<lambda>(i, c). length c) (zip [0..<?n] cs) = map length cs" by (rule nth_equalityI) simp_all
  finally have sum: "(\<Sum>(i, c)\<leftarrow>ics. length c) = (\<Sum>c\<leftarrow>cs. length c)" .
  have pre: "distinct (map fst ics)" "\<forall>(i, c)\<in>set ics. i < ?n \<and> c \<noteq> []"
    using mset_eq_imp_distinct_iff [OF fst] cs set by (auto dest: set_zip_rightD set_zip_leftD)
  have n: "?n < 65536" using room p(1) by (simp add: sized_def)
  have room2: "?b + ?n * 2 + (\<Sum>(i, c)\<leftarrow>ics. length c) \<le> length (pg_data p)" using room sum by simp
  obtain d where d: "rewrite_loop ?b ics (pg_data p) (length (pg_data p)) = Ok (d, off)" "length d = length (pg_data p)"
    "\<forall>o' m. o' + m \<le> ?b \<or> length (pg_data p) \<le> o' \<longrightarrow> window d o' m = window (pg_data p) o' m"
    "\<forall>(i, c)\<in>set ics. entry d off (get16 d (?b + i * 2)) c"
    using rewrite_loop_layout [OF pre room2 order_refl, unfolded sum, folded off_def] p(1) unfolding sized_def by blast
  have ent: "entry d off (get16 d (?b + i * 2)) (cs ! i)" if "i < ?n" for i
  proof -
    have "(i, cs ! i) \<in> set ics" unfolding set using that by (auto simp: set_zip intro!: exI [of _ i])
    then show ?thesis using d(4) by blast
  qed
  have off: "?b + ?n * 2 \<le> off" "off \<le> length (pg_data p)" "0 < off" using room by (simp_all add: off_def)
  let ?p1 = "p\<lparr>pg_data := d\<rparr>"
  have s1: "sized ?p1" "length (pg_data ?p1) = length (pg_data p)" using p(1) d(2) by (simp_all add: sized_def)
  have h1: "head ?p1 = (Ok pt, n_cells p, cell_content_start p, right_most_pointer p)" using head_frame [OF p(1) d(2)] d(3) p(2) by (simp add: head_def)
  note hs = head_set_cell_content_start [OF _ off(3)] head_set_n_cells
  have "page_repr q pt cs \<and> head q = (Ok pt, ?n, off, right_most_pointer p) \<and> header_offset q = header_offset p \<and> length (pg_data q) = length (pg_data p)"
    if q: "q = set_cell_content_start (set_n_cells ?p1 ?n) off \<or> q = set_n_cells (set_cell_content_start ?p1 off) ?n
      \<or> n_cells p = ?n \<and> q = set_cell_content_start ?p1 off" for q
  proof -
    have hq: "head q = (Ok pt, ?n, off, right_most_pointer p)"
      using q head_congD [OF h1] head_congD [OF hs(2) [OF s1(1), of ?n]] head_congD [OF hs(1) [OF s1(1)]] s1 off(2) n d(2) by (auto simp: hs)
    have lq: "sized q" "length (pg_data q) = length d" "header_offset q = header_offset p" using q s1 d(2) by auto
    have "window (pg_data q) o' m = window d o' m" if "?b \<le> o'" for o' m
      using q that s1 by (auto simp: setter_windows)
    then show ?thesis using entries_repr [OF lq(1) hq lq(3,2)] off ent d(2) hq lq by auto
  qed
  then show ?thesis using d(1) by blast
qed


subsection \<open>The three layouts\<close>

lemma zip_upt_Cons: "zip [i..<i + length (c # cs)] (f c # map f cs) = (i, f c) # zip [i + 1..<i + 1 + length cs] (map f cs)"
  by (subst upt_conv_Cons) (simp_all del: upt_Suc)

lemma slices_loop_rewrite: "slices_loop cs i data off = rewrite_loop 12 (zip [i..<i + length cs] cs) data off"
proof (induction cs arbitrary: i data off)
  case (Cons c cs)
  show ?case unfolding zip_upt_Cons [of i c cs id, simplified id_apply list.map_id] using Cons.IH by (simp add: PAGE_HEADER_SIZE_def Let_def del: upt_Suc)
qed simp

lemma ordered_loop_rewrite:
  assumes "base + (i + length cs) * 2 + (\<Sum>c\<leftarrow>cs. cell_encoded_size c) \<le> start" "start \<le> length data"
  shows "ordered_loop cs data (base + i * 2) start = rewrite_loop base (zip [i..<i + length cs] (map cell_encode cs)) data start"
  using assms
proof (induction cs arbitrary: i data start)
  case (Cons c cs)
  let ?s = "start - cell_encoded_size c" let ?d = "put data ?s (cell_encode c)" let ?d' = "put ?d (base + i * 2) (be_bytes 2 ?s)"
  have fit: "cell_encoded_size c \<le> start" "base + i * 2 + 2 \<le> ?s" "base + i * 2 + 2 \<le> length data" using Cons.prems by auto
  have e: "encode_at data ?s c = Ok ?d" using fit Cons.prems(2) by (intro encode_at_put) simp
  have l: "length ?d = length data" "length ?d' = length data" using fit Cons.prems(2) by (simp_all add: length_put cell_encoded_size_encode)
  have z: "zip [i..<i + length (c # cs)] (map cell_encode (c # cs)) = (i, cell_encode c) # zip [i + 1..<i + 1 + length cs] (map cell_encode cs)"
    unfolding list.map by (rule zip_upt_Cons)
  have ih: "ordered_loop cs ?d' (base + (i + 1) * 2) ?s = rewrite_loop base (zip [i + 1..<i + 1 + length cs] (map cell_encode cs)) ?d' ?s"
    using Cons.prems l by (intro Cons.IH) auto
  have "ordered_loop (c # cs) data (base + i * 2) start = ordered_loop cs ?d' (base + (i + 1) * 2) ?s"
    using fit e l Cons.prems(2) by (simp add: Let_def copy_at_def algebra_simps)
  also have "\<dots> = rewrite_loop base ((i, cell_encode c) # zip [i + 1..<i + 1 + length cs] (map cell_encode cs)) data start"
    unfolding ih using fit l Cons.prems(2) by (simp add: Let_def copy_at_def cell_encoded_size_encode)
  finally show ?case unfolding z .
qed simp

lemma write_ordered_cells_holds:
  assumes empty: "page_repr p pt []" "cell_content_start p = length (pg_data p)" and ok: "\<forall>c\<in>set cs. fits_page (length (pg_data p)) pt c"
    and room: "header_offset p + 12 + length cs * 2 + (\<Sum>c\<leftarrow>cs. cell_encoded_size c) \<le> length (pg_data p)"
  shows "\<exists>p'. write_ordered_cells p cs = Ok p' \<and> holds_cells p' pt cs \<and> right_most_pointer p' = right_most_pointer p
    \<and> length (pg_data p') = length (pg_data p)"
proof -
  note r = page_reprD [OF empty(1)]
  have sum: "(\<Sum>c\<leftarrow>cs. cell_encoded_size c) = (\<Sum>c\<leftarrow>map cell_encode cs. length c)" by (simp add: cell_encoded_size_encode comp_def)
  have room': "header_offset p + 12 + length (map cell_encode cs) * 2 + (\<Sum>c\<leftarrow>map cell_encode cs. length c) \<le> length (pg_data p)"
    using room sum by simp
  have "\<forall>c\<in>set (map cell_encode cs). c \<noteq> []" by simp
  from layout_repr [OF r(1,2) this refl room', unfolded length_map] obtain d
    where d: "rewrite_loop (header_offset p + 12) (zip [0..<length cs] (map cell_encode cs)) (pg_data p) (length (pg_data p))
      = Ok (d, length (pg_data p) - (\<Sum>c\<leftarrow>map cell_encode cs. length c))"
    and q: "q = set_n_cells (set_cell_content_start (p\<lparr>pg_data := d\<rparr>) (length (pg_data p) - (\<Sum>c\<leftarrow>map cell_encode cs. length c))) (length cs)
       \<Longrightarrow> page_repr q pt (map cell_encode cs) \<and> head q = (Ok pt, length cs, length (pg_data p) - (\<Sum>c\<leftarrow>map cell_encode cs. length c), right_most_pointer p)
         \<and> length (pg_data q) = length (pg_data p)" for q by blast
  let ?q = "set_n_cells (set_cell_content_start (p\<lparr>pg_data := d\<rparr>) (length (pg_data p) - (\<Sum>c\<leftarrow>map cell_encode cs. length c))) (length cs)"
  have "write_ordered_cells p cs = Ok (touch ?q)"
    using ordered_loop_rewrite [of "header_offset p + 12" 0 cs "length (pg_data p)" "pg_data p"] room d r(3) empty(2)
    by (simp add: write_ordered_cells_def PAGE_HEADER_SIZE_def)
  then show ?thesis using q [OF refl] ok by (simp add: holds_cells_def head_def)
qed

lemma write_leaf_slices_repr:
  assumes p: "sized p" "page_type_of p = Ok pt" "pg_id p \<noteq> 0" and cs: "\<forall>c\<in>set cs. c \<noteq> []"
    and room: "12 + length cs * 2 + (\<Sum>c\<leftarrow>cs. length c) \<le> length (pg_data p)"
  shows "\<exists>p'. write_leaf_slices p cs = Ok p' \<and> page_repr p' pt cs \<and> right_most_pointer p' = right_most_pointer p"
proof -
  have h: "header_offset p = 0" using p(3) by (simp add: header_offset_def)
  let ?off = "length (pg_data p) - (\<Sum>c\<leftarrow>cs. length c)"
  obtain d where "rewrite_loop 12 (zip [0..<length cs] cs) (pg_data p) (length (pg_data p)) = Ok (d, ?off)"
    "page_repr (set_cell_content_start (set_n_cells (p\<lparr>pg_data := d\<rparr>) (length cs)) ?off) pt cs"
    "right_most_pointer (set_cell_content_start (set_n_cells (p\<lparr>pg_data := d\<rparr>) (length cs)) ?off) = right_most_pointer p"
    using layout_repr [OF p(1,2) cs refl, unfolded h add_0, OF room] unfolding head_def by blast
  then show ?thesis using slices_loop_rewrite [of cs 0] by (simp add: write_leaf_slices_def)
qed


subsection \<open>Compaction\<close>

lemma live_total_sum: "live_total cs = (\<Sum>c\<leftarrow>cs. length c) + 2 * length cs"
  by (induction cs) simp_all

text \<open>The bytes that compaction could reclaim are those outside every cell of the content area.\<close>

definition cell_bytes :: "cell list \<Rightarrow> nat" where
  "cell_bytes rs = (\<Sum>c\<leftarrow>map cell_encode rs. length c)"

lemma sum_sizes_all:
  assumes "holds_cells p pt rs" "is_leaf pt"
  shows "sum_sizes p pt [0..<length rs] 0 = Ok (Some (cell_bytes rs))"
  using sum_sizes_holds [OF assms all_cells(2), of 0, unfolded all_cells(1)] by (simp only: cell_bytes_def add_0)

lemma compact_rewrite:
  assumes holds: "holds_cells p pt rs" and leaf: "is_leaf pt" and ne: "rs \<noteq> []" and tight: "cache_tight p (map cell_encode rs)"
    and gap: "cell_bytes rs + cell_content_start p \<noteq> length (pg_data p)"
    and room: "need \<le> length (pg_data p) - (header_offset p + 12 + (length rs + 1) * 2 + cell_bytes rs)" "0 < need"
  shows "\<exists>p'. compact_leaf_if_fragmented p need = Ok (p', True) \<and> holds_cells p' pt rs \<and> cache_ok p' (map cell_encode rs)
    \<and> right_most_pointer p' = right_most_pointer p \<and> length (pg_data p') = length (pg_data p) \<and> header_offset p' = header_offset p
    \<and> cell_content_start p' = length (pg_data p) - cell_bytes rs"
proof -
  note lp = leaf_page [OF holds]
  let ?cs = "map cell_encode rs" and ?n = "length rs" and ?off = "length (pg_data p) - cell_bytes rs"
  note sum = sum_sizes_all [OF holds leaf]
  have copy: "scratch_copy p pt [0..<?n] = Ok ?cs" using scratch_copy_holds [OF holds leaf all_cells(2)] by (simp add: all_cells(1))
  have perm: "mset (rev (zip [0..<length ?cs] ?cs)) = mset (zip [0..<length ?cs] ?cs)" by simp
  have nonempty: "\<forall>c\<in>set ?cs. c \<noteq> []" by simp
  have fit: "header_offset p + 12 + length ?cs * 2 + (\<Sum>c\<leftarrow>?cs. length c) \<le> length (pg_data p)"
    using room by (simp add: cell_bytes_def)
  from layout_repr [OF lp(2,3) nonempty perm fit, folded cell_bytes_def, unfolded length_map, folded lp(4)]
  obtain d where d: "rewrite_loop (header_offset p + 12) (rev (zip [0..<n_cells p] ?cs)) (pg_data p) (length (pg_data p)) = Ok (d, ?off)"
    and q: "q = set_cell_content_start (p\<lparr>pg_data := d\<rparr>) ?off \<Longrightarrow> page_repr q pt ?cs \<and> head q = (Ok pt, n_cells p, ?off, right_most_pointer p)
      \<and> header_offset q = header_offset p \<and> length (pg_data q) = length (pg_data p)" for q by blast
  let ?q = "touch (set_cell_content_start (p\<lparr>pg_data := d\<rparr>) ?off)"
  have cached: "\<not> (case pg_live_cache p of None \<Rightarrow> False
      | Some (e, cn, cs, live) \<Rightarrow> (e, cn, cs) = (pg_epoch p, length rs, cell_content_start p) \<and> (live - 2 * length rs) + cell_content_start p = length (pg_data p))"
    using tight gap lp(2,4) by (auto simp: cache_tight_def live_total_sum cell_bytes_def split: option.splits)
  have "compact_leaf_if_fragmented p need = Ok (?q, True)"
    using cached sum copy d gap room lp leaf ne
    by (auto simp: compact_leaf_if_fragmented_def Let_def PAGE_HEADER_SIZE_def)
  moreover have "pg_epoch ?q \<noteq> pg_epoch p" by (simp add: touch_def set_cell_content_start_def set_field_def add.assoc)
  then have "cache_ok ?q ?cs" using tight by (auto simp: cache_ok_def cache_tight_def set_cell_content_start_def split: option.splits)
  ultimately show ?thesis using q [OF refl] holds by (auto simp: holds_cells_def head_def)
qed


lemma compact_leaf_holds:
  assumes holds: "holds_cells p pt rs" and leaf: "is_leaf pt" and tight: "cache_tight p (map cell_encode rs)" and need: "0 < need"
  shows "\<exists>p' fits. compact_leaf_if_fragmented p need = Ok (p', fits) \<and> holds_cells p' pt rs \<and> cache_ok p' (map cell_encode rs)
    \<and> right_most_pointer p' = right_most_pointer p \<and> length (pg_data p') = length (pg_data p) \<and> header_offset p' = header_offset p
    \<and> (fits \<longrightarrow> need \<le> free_space p')
    \<and> (\<not> fits \<longrightarrow> p' = p \<and> cell_bytes rs + cell_content_start p = length (pg_data p)
          \<or> length (pg_data p) < header_offset p + 12 + (length rs + 1) * 2 + cell_bytes rs + need)"
proof -
  note lp = leaf_page [OF holds] and r = page_reprD [OF leaf_page(1) [OF holds]]
  let ?base = "header_offset p + 12"
  note sum_all = sum_sizes_all [OF holds leaf]
  consider (empty) "rs = []" | (same) "rs \<noteq> []" "cell_bytes rs + cell_content_start p = length (pg_data p)"
    | (full) "rs \<noteq> []" "cell_bytes rs + cell_content_start p \<noteq> length (pg_data p)"
        "length (pg_data p) - (?base + (length rs + 1) * 2 + cell_bytes rs) < need"
    | (rewrite) "rs \<noteq> []" "cell_bytes rs + cell_content_start p \<noteq> length (pg_data p)"
        "need \<le> length (pg_data p) - (?base + (length rs + 1) * 2 + cell_bytes rs)"
    by linarith
  then show ?thesis
  proof cases
    case empty
    let ?q = "set_cell_content_start p (length (pg_data p))"
    have h: "head ?q = (Ok pt, 0, length (pg_data p), right_most_pointer p)"
      using head_set_cell_content_start [OF lp(2), of "length (pg_data p)"] lp(3,4,5) empty by (cases "pg_data p") simp_all
    have c: "compact_leaf_if_fragmented p need = Ok (?q, need \<le> free_space ?q)"
      using lp empty leaf by (simp add: compact_leaf_if_fragmented_def Let_def)
    have "pg_epoch ?q \<noteq> pg_epoch p" by (simp add: touch_def set_cell_content_start_def set_field_def)
    then have "cache_ok ?q []" using tight empty by (auto simp: cache_ok_def cache_tight_def set_cell_content_start_def split: option.splits)
    moreover have "holds_cells ?q pt rs" using h lp(2,5) empty header_offset_le [of p] by (simp add: holds_cells_def page_repr_def head_def)
    moreover have "free_space ?q = length (pg_data p) - ?base" using h by (simp add: free_space_def head_def PAGE_HEADER_SIZE_def)
    ultimately show ?thesis using c h empty lp(2) by (auto simp: head_def)
  next
    case same
    then have "compact_leaf_if_fragmented p need = Ok (p, False)"
      using lp sum_all leaf by (simp add: compact_leaf_if_fragmented_def Let_def)
    then show ?thesis using same holds cache_tight_ok [OF tight] by auto
  next
    case full
    then have "compact_leaf_if_fragmented p need = Ok (p, False)"
      using lp sum_all leaf by (simp add: compact_leaf_if_fragmented_def Let_def PAGE_HEADER_SIZE_def)
    moreover have "length (pg_data p) < ?base + (length rs + 1) * 2 + cell_bytes rs + need" using full(3) by linarith
    ultimately show ?thesis using holds cache_tight_ok [OF tight] by (intro exI [of _ p] exI [of _ False]) simp
  next
    case rewrite
    obtain p' where p': "compact_leaf_if_fragmented p need = Ok (p', True)" "holds_cells p' pt rs" "cache_ok p' (map cell_encode rs)"
      "right_most_pointer p' = right_most_pointer p" "length (pg_data p') = length (pg_data p)" "header_offset p' = header_offset p"
      "cell_content_start p' = length (pg_data p) - cell_bytes rs"
      using compact_rewrite [OF holds leaf rewrite(1) tight rewrite(2,3) need] by blast
    then have "need \<le> free_space p'" using rewrite(3) free_space_repr [OF leaf_page(1) [OF p'(2)]] by simp
    then show ?thesis using p' by auto
  qed
qed

end
