(* ===== verification/Btree_Rows.thy ===== *)
theory Btree_Rows
  imports Btree_Search Btree_Compact
begin

text \<open>
  Table leaves hold rows: a leaf whose cells are sorted by rowid is a finite map from rowids to
  cells, and the leaf operations of the tree insert, delete and find rows in it.
\<close>

subsection \<open>Sorted rows as a map\<close>

definition row_map :: "cell list \<Rightarrow> i64 \<rightharpoonup> cell" where
  "row_map rs = map_of (map (\<lambda>c. (cell_key c, c)) rs)"

definition insert_row :: "cell \<Rightarrow> cell list \<Rightarrow> cell list" where
  "insert_row c rs = (let k = rank (row_lt (cell_key c)) rs in take k rs @ c # drop k rs)"

lemma row_map_Cons [simp]: "row_map (c # rs) = (row_map rs)(cell_key c \<mapsto> c)"
  by (simp add: row_map_def)

lemma row_map_Nil [simp]: "row_map [] = Map.empty"
  by (simp add: row_map_def)

lemma row_map_append: "row_map (as @ bs) = row_map bs ++ row_map as"
  by (simp add: row_map_def)

lemma row_map_None: "row_map rs r = None \<longleftrightarrow> r \<notin> cell_key ` set rs"
  by (induction rs) auto

lemma sorted_rows_distinct: "sorted_rows rs \<Longrightarrow> distinct (map cell_key rs)"
  unfolding sorted_rows_def by (metis distinct_map list.map_comp sorted_wrt_map strict_sorted_iff sorted_wrt_iff_nth_less comp_def list.map_comp)

lemma row_map_nth:
  assumes "sorted_rows rs" "i < length rs"
  shows "row_map rs (cell_key (rs ! i)) = Some (rs ! i)"
  unfolding row_map_def using assms sorted_rows_distinct [OF assms(1)]
  by (intro map_of_is_SomeI) (auto simp: comp_def)

lemma place_row_map:
  assumes "sorted_rows rs"
  shows "place r rs = Inl i \<Longrightarrow> i < length rs \<and> cell_key (rs ! i) = r \<and> row_map rs r = Some (rs ! i)"
    and "place r rs = Inr k \<Longrightarrow> row_map rs r = None \<and> k = rank (row_lt r) rs"
proof -
  show "i < length rs \<and> cell_key (rs ! i) = r \<and> row_map rs r = Some (rs ! i)" if "place r rs = Inl i"
    using that row_map_nth [OF assms, of i] by (auto simp: place_def Let_def split: if_splits)
  assume p: "place r rs = Inr k"
  have "r \<notin> cell_key ` set rs"
  proof
    assume "r \<in> cell_key ` set rs"
    then obtain i where "i < length rs" "cell_key (rs ! i) = r" by (auto simp: in_set_conv_nth)
    then show False using place_found [OF assms] p by simp
  qed
  then show "row_map rs r = None \<and> k = rank (row_lt r) rs" using p by (auto simp: row_map_None place_def Let_def split: if_splits)
qed

lemma place_None: "sorted_rows rs \<Longrightarrow> row_map rs r = None \<Longrightarrow> place r rs = Inr (rank (row_lt r) rs)"
  using place_row_map [of rs r] by (cases "place r rs") auto

lemma row_lt_below: "sorted_rows rs \<Longrightarrow> i < length rs \<Longrightarrow> i < rank (row_lt r) rs \<longleftrightarrow> sint (cell_key (rs ! i)) < sint r"
  using rank_less [OF sorted_rows_downward] by (simp add: row_lt_def)

lemma sorted_insert_row:
  assumes "sorted_rows rs" "row_map rs (cell_key c) = None"
  shows "sorted_rows (insert_row c rs)"
proof -
  let ?k = "rank (row_lt (cell_key c)) rs"
  have below: "sint (cell_key x) < sint (cell_key c)" if "x \<in> set (take ?k rs)" for x
    using that row_lt_below [OF assms(1)] by (auto simp: in_set_conv_nth)
  have above: "sint (cell_key c) < sint (cell_key x)" if x: "x \<in> set (drop ?k rs)" for x
  proof -
    obtain j where j: "j < length rs - ?k" "x = rs ! (?k + j)" using x by (auto simp: in_set_conv_nth)
    define i where "i = ?k + j"
    have i: "i < length rs" "x = rs ! i" "?k \<le> i" using j by (simp_all add: i_def)
    moreover have "cell_key x \<noteq> cell_key c" using assms(2) i nth_mem [OF i(1)] by (metis image_eqI row_map_None)
    ultimately show ?thesis using row_lt_below [OF assms(1) i(1), of "cell_key c"] sint_trichotomy [of "cell_key x" "cell_key c"] by fastforce
  qed
  have "sorted_wrt (<) (map (sint \<circ> cell_key) (take ?k rs @ drop ?k rs))" using assms(1) by (simp add: sorted_rows_def)
  then show ?thesis using below above by (auto simp: sorted_rows_def insert_row_def Let_def sorted_wrt_append simp del: append_take_drop_id)
qed

lemma row_map_insert_row:
  assumes "row_map rs (cell_key c) = None"
  shows "row_map (insert_row c rs) = (row_map rs)(cell_key c \<mapsto> c)"
proof -
  let ?k = "rank (row_lt (cell_key c)) rs"
  have "row_map (take ?k rs) (cell_key c) = None" using assms by (auto simp: row_map_None dest: in_set_takeD)
  then have "row_map (take ?k rs @ c # drop ?k rs) = (row_map (take ?k rs @ drop ?k rs))(cell_key c \<mapsto> c)"
    unfolding row_map_append row_map_Cons by (auto simp: map_add_def fun_eq_iff split: option.split)
  then show ?thesis by (simp add: insert_row_def Let_def)
qed

lemma sorted_remove_row:
  assumes "sorted_rows rs"
  shows "sorted_rows (take i rs @ drop (Suc i) rs)"
proof -
  have "sorted_wrt (\<lambda>a b. sint (cell_key a) < sint (cell_key b)) (take i rs @ drop i rs)" using assms by (simp add: sorted_rows_def sorted_wrt_map)
  moreover have "set (drop (Suc i) rs) \<subseteq> set (drop i rs)" by (intro set_drop_subset_set_drop) simp
  ultimately show ?thesis unfolding sorted_rows_def sorted_wrt_map sorted_wrt_append comp_def
    using sorted_wrt_drop [of _ "drop i rs" 1] by fastforce
qed

lemma row_map_remove:
  assumes "sorted_rows rs" "i < length rs"
  shows "row_map (take i rs @ drop (Suc i) rs) = (row_map rs)(cell_key (rs ! i) := None)"
proof -
  have d: "distinct (map cell_key (take i rs @ rs ! i # drop (Suc i) rs))" using sorted_rows_distinct [OF assms(1)] assms(2) by (simp add: id_take_nth_drop [symmetric])
  have "row_map rs = row_map (take i rs @ rs ! i # drop (Suc i) rs)" using assms(2) by (simp add: id_take_nth_drop [symmetric])
  moreover have "row_map (take i rs) (cell_key (rs ! i)) = None" "row_map (drop (Suc i) rs) (cell_key (rs ! i)) = None"
    using d by (auto simp: row_map_None)
  ultimately show ?thesis by (auto simp: row_map_append map_add_def fun_eq_iff split: option.split)
qed


subsection \<open>Operations on a table leaf\<close>

text \<open>What a table leaf holds between operations.\<close>

definition table_leaf :: "page \<Rightarrow> cell list \<Rightarrow> bool" where
  "table_leaf p rs \<longleftrightarrow> holds_cells p LeafTable rs \<and> sorted_rows rs \<and> cache_tight p (map cell_encode rs)"

lemma fits_page_size: "512 \<le> psz \<Longrightarrow> psz \<le> 65536 \<Longrightarrow> fits_page psz LeafTable c \<Longrightarrow> cell_encoded_size c \<le> 131072"
proof -
  assume a: "512 \<le> psz" "psz \<le> 65536" "fits_page psz LeafTable c"
  have vl: "length (varint_encode x) \<le> 9" "length (encode_signed x) \<le> 9" for x
    using varint_decode_consumed [OF varint_decode_encode [of x "[]"]] by (simp_all add: encode_signed_def)
  show ?thesis
  proof (cases c)
    case (TableLeafCell r payload)
    then show ?thesis using a vl(1) [of "len64 payload"] vl(2) [of r] by (simp add: fits_page_def)
  next
    case (TableLeafOverflow r tot local ov)
    then show ?thesis using a vl(1) [of tot] vl(2) [of r] local_len_le [OF a(1), of "unat tot"] by (simp add: fits_page_def)
  qed (use a in \<open>simp_all add: fits_page_def\<close>)
qed

lemma insert_at_rank:
  assumes holds: "holds_cells p LeafTable rs" and sorted: "sorted_rows rs" and cache: "cache_ok p (map cell_encode rs)"
    and c: "fits_page (length (pg_data p)) LeafTable c" and room: "cell_encoded_size c + 2 \<le> free_space p"
    and absent: "row_map rs (cell_key c) = None" and pos: "known = None \<or> known = Some (rank (row_lt (cell_key c)) rs)"
  shows "\<exists>p'. insert_cell_into_ref_at asm p c known = Some (Ok p') \<and> table_leaf p' (insert_row c rs) \<and> length (pg_data p') = length (pg_data p)"
proof -
  let ?k = "rank (row_lt (cell_key c)) rs"
  obtain p' where "write_cell p LeafTable c ?k = Ok p'" "holds_cells p' LeafTable (insert_row c rs)"
    "cache_tight p' (map cell_encode (insert_row c rs))" "length (pg_data p') = length (pg_data p)"
    using write_cell_holds [OF holds rank_le c room cache, of "row_lt (cell_key c)"] by (auto simp: insert_row_def Let_def)
  then show ?thesis
    using leaf_page(3) [OF holds] find_pos_table [OF holds _ sorted, of asm c] sorted_insert_row [OF sorted absent] pos
    by (auto simp: insert_cell_into_ref_at_def table_leaf_def is_table_def)
qed

lemma insert_with_room_leaf:
  assumes leaf: "table_leaf p rs" and c: "fits_page (length (pg_data p)) LeafTable c" and absent: "row_map rs (cell_key c) = None"
    and pos: "known = None \<or> known = Some (rank (row_lt (cell_key c)) rs)"
  shows "(\<exists>p'. insert_with_room asm p c known = Some (Ok (Done p')) \<and> table_leaf p' (insert_row c rs) \<and> length (pg_data p') = length (pg_data p))
    \<or> (\<exists>p'. insert_with_room asm p c known = Some (Ok (Full p')) \<and> holds_cells p' LeafTable rs \<and> length (pg_data p') = length (pg_data p)
         \<and> length (pg_data p) < header_offset p + 12 + length rs * 2 + cell_bytes rs + cell_encoded_size c + 4)"
proof -
  have l: "holds_cells p LeafTable rs" "sorted_rows rs" "cache_tight p (map cell_encode rs)" using leaf by (simp_all add: table_leaf_def)
  note lp = leaf_page [OF l(1)]
  have "cell_encoded_size c \<le> 131072" using fits_page_size [OF lp(5,6) c] .
  then have small: "(cell_encoded_size c mod 2 ^ 32 + 2) mod 2 ^ 32 = cell_encoded_size c + 2" by simp
  show ?thesis
  proof (cases "cell_encoded_size c + 2 \<le> free_space p")
    case True
    then show ?thesis using insert_at_rank [OF l(1,2) cache_tight_ok [OF l(3)] c True absent pos, of asm] small
      by (auto simp: insert_with_room_def)
  next
    case False
    obtain p' fits where cp: "compact_leaf_if_fragmented p (cell_encoded_size c + 2) = Ok (p', fits)" "holds_cells p' LeafTable rs" "cache_ok p' (map cell_encode rs)"
      "length (pg_data p') = length (pg_data p)" "fits \<Longrightarrow> cell_encoded_size c + 2 \<le> free_space p'"
      "\<not> fits \<Longrightarrow> p' = p \<and> cell_bytes rs + cell_content_start p = length (pg_data p)
          \<or> length (pg_data p) < header_offset p + 12 + (length rs + 1) * 2 + cell_bytes rs + (cell_encoded_size c + 2)"
      using compact_leaf_holds [OF l(1) _ l(3), of "cell_encoded_size c + 2"] by (auto simp: is_leaf_def)
    show ?thesis
    proof (cases fits)
      case True
      then show ?thesis using insert_at_rank [OF cp(2) l(2) cp(3) _ cp(5) [OF True] absent, of None asm] c cp(1,4) False small
        by (auto simp: insert_with_room_def)
    next
      case unfit: False
      have "length (pg_data p) < header_offset p + 12 + length rs * 2 + cell_bytes rs + cell_encoded_size c + 4"
        using cp(6) [OF unfit] False free_space_repr [OF lp(1)] by auto
      then show ?thesis using unfit cp(1,2,4) False small by (auto simp: insert_with_room_def)
    qed
  qed
qed


text \<open>Deletion: the rowid is sought, checked, its chain freed, and the slot closed.\<close>

definition chain_of :: "cell \<Rightarrow> u32" where
  "chain_of c = (case c of TableLeafOverflow rowid tot local overflow \<Rightarrow> overflow | _ \<Rightarrow> 0)"

definition free_of :: "('s \<Rightarrow> u32 \<Rightarrow> 's outcome) \<Rightarrow> 's \<Rightarrow> cell \<Rightarrow> 's outcome" where
  "free_of free_chain s c = (if chain_of c \<noteq> 0 then free_chain s (chain_of c) else Ok s)"

lemma overflow_head_encode:
  assumes "512 \<le> psz" "psz \<le> 65536" "fits_page psz LeafTable c"
  shows "overflow_head (cell_encode c @ rest) psz = Ok (chain_of c)"
proof (cases c)
  case (TableLeafCell r payload)
  then have "unat (len64 payload) = length payload" using assms by (intro unat_len64) (simp add: fits_page_def)
  then show ?thesis using TableLeafCell assms local_len_whole [OF assms(1), of "length payload"]
    by (simp add: overflow_head_def ok_or_def decode_rowid_only_def overflow_local_len fits_page_def chain_of_def)
next
  case (TableLeafOverflow r tot local ov)
  then have "table_local (unat tot) psz \<noteq> unat tot" "length local = table_local (unat tot) psz" using assms local_len_whole [OF assms(1), of "unat tot"] by (auto simp: fits_page_def)
  then show ?thesis using TableLeafOverflow assms
    by (simp add: overflow_head_def ok_or_def decode_rowid_only_def overflow_local_len chain_of_def)
qed (use assms in \<open>simp_all add: fits_page_def\<close>)

lemma remove_slot_eq:
  assumes holds: "holds_cells p pt rs" and pos: "pos < length rs" and leaf: "is_leaf pt"
  shows "remove_slot p pt pos (length rs) = remove_cell_at p pos (length rs)"
proof (rule holds_cell_at [OF holds pos])
  fix rest
  assume a: "cell_pointer p pos = Ok (ptr_at p pos)" "ptr_at p pos < length (pg_data p)" "drop (ptr_at p pos) (pg_data p) = cell_encode (rs ! pos) @ rest"
    "fits_page (length (pg_data p)) pt (rs ! pos)"
  note lp = leaf_page [OF holds]
  have tail: "slice (pg_data p) (ptr_at p pos) (length (pg_data p)) = Ok (drop (ptr_at p pos) (pg_data p))" using a(2) by (simp add: slice_eq_Ok)
  have "live_after_delete p pt pos (length rs) = live_cache_adjust p pt (pg_epoch p, length rs, cell_content_start p) (ptr_at p pos) False"
    using a(1,2) tail lp(2) leaf by (auto simp: live_after_delete_def live_cache_adjust_def Let_def split: option.split)
  then show ?thesis using a(1) lp(3) by (simp add: remove_slot_def remove_cell_at_def Let_def)
qed

lemma delete_probe_holds:
  assumes holds: "holds_cells p LeafTable rs" and i: "i < length rs"
  shows "delete_probe p LeafTable r i = Ok (if row_lt r (rs ! i) then GoRight else GoLeft)"
proof (rule holds_cell_at [OF assms])
  fix rest
  assume a: "cell_pointer p i = Ok (ptr_at p i)" "ptr_at p i < length (pg_data p)" "drop (ptr_at p i) (pg_data p) = cell_encode (rs ! i) @ rest"
    "fits_page (length (pg_data p)) LeafTable (rs ! i)"
  have "cell_type (rs ! i) = LeafTable" using a(4) by (simp add: fits_page_def)
  from table_key_of_cell [OF this, of rest] show ?thesis
    using a by (auto simp: delete_probe_def rowid_of_cell_def cell_slice_checked_def row_lt_def is_table_def is_interior_def)
qed

lemma delete_search:
  assumes "holds_cells p LeafTable rs" "sorted_rows rs"
  shows "bsearch (delete_probe p LeafTable r) 0 (n_cells p) = Some (Ok (rank (row_lt r) rs))"
  using delete_probe_holds [OF assms(1)] rank_less [OF sorted_rows_downward [OF assms(2)]] holds_few [OF assms(1)] rank_le
  by (simp add: leaf_page(4) [OF assms(1)]) (intro bsearch_rank, auto)

lemma delete_from_leaf_rows:
  assumes leaf: "table_leaf p rs"
  shows "row_map rs r = None \<Longrightarrow> delete_from_leaf free_chain s p r = Some (Ok None)"
    and "row_map rs r = Some c \<Longrightarrow> \<exists>p' rs'. table_leaf p' rs' \<and> row_map rs' = (row_map rs)(r := None) \<and> length (pg_data p') = length (pg_data p)
      \<and> delete_from_leaf free_chain s p r = Some (bind_outcome (free_of free_chain s c) (\<lambda>s'. Ok (Some (p', s'))))"
proof -
  have l: "holds_cells p LeafTable rs" "sorted_rows rs" "cache_tight p (map cell_encode rs)" using leaf by (simp_all add: table_leaf_def)
  note lp = leaf_page [OF l(1)]
  let ?k = "rank (row_lt r) rs"
  have cellk: "\<exists>stored. cell_pointer p ?k = Ok (ptr_at p ?k) \<and> cell_slice_checked p (ptr_at p ?k) = Ok stored
      \<and> rowid_of_cell LeafTable stored (page_size p) = Ok (Some (cell_key (rs ! ?k))) \<and> overflow_head stored (length (pg_data p)) = Ok (chain_of (rs ! ?k))"
    if k: "?k < length rs"
  proof (rule holds_cell_at [OF l(1) k])
    fix rest
    assume a: "cell_pointer p ?k = Ok (ptr_at p ?k)" "ptr_at p ?k < length (pg_data p)" "drop (ptr_at p ?k) (pg_data p) = cell_encode (rs ! ?k) @ rest"
      "fits_page (length (pg_data p)) LeafTable (rs ! ?k)"
    have "cell_type (rs ! ?k) = LeafTable" using a(4) by (simp add: fits_page_def)
    from table_key_of_cell [OF this, of rest] show ?thesis using a overflow_head_encode [OF lp(5,6) a(4), of rest]
      by (auto simp: rowid_of_cell_def cell_slice_checked_def is_table_def is_interior_def)
  qed
  show "delete_from_leaf free_chain s p r = Some (Ok None)" if none: "row_map rs r = None"
  proof (cases "?k < length rs")
    case True
    then have "cell_key (rs ! ?k) \<noteq> r" using none nth_mem [OF True] by (metis image_eqI row_map_None)
    then show ?thesis using cellk [OF True] True delete_search [OF l(1,2), of r] lp(3,4) by (auto simp: delete_from_leaf_def)
  qed (use delete_search [OF l(1,2), of r] lp(3,4) in \<open>simp add: delete_from_leaf_def\<close>)
  assume some: "row_map rs r = Some c"
  have pl: "place r rs = Inl ?k"
  proof (cases "place r rs")
    case (Inl i)
    then show ?thesis by (simp add: place_def Let_def split: if_splits)
  next
    case (Inr k)
    then show ?thesis using place_row_map(2) [OF l(2) Inr] some by simp
  qed
  then have k: "?k < length rs" "cell_key (rs ! ?k) = r" "rs ! ?k = c" using place_row_map(1) [OF l(2), of r ?k] some by auto
  obtain p' where p': "remove_cell_at p ?k (length rs) = Ok p'" "holds_cells p' LeafTable (take ?k rs @ drop (Suc ?k) rs)"
    "cache_tight p' (map cell_encode (take ?k rs @ drop (Suc ?k) rs))" "length (pg_data p') = length (pg_data p)"
    using remove_cell_at_repr [OF l(1) k(1) cache_tight_ok [OF l(3)]] by auto
  have "table_leaf p' (take ?k rs @ drop (Suc ?k) rs)" using p' sorted_remove_row [OF l(2)] by (simp add: table_leaf_def)
  moreover obtain stored where "cell_pointer p ?k = Ok (ptr_at p ?k)" "cell_slice_checked p (ptr_at p ?k) = Ok stored"
    "rowid_of_cell LeafTable stored (page_size p) = Ok (Some r)" "overflow_head stored (length (pg_data p)) = Ok (chain_of c)"
    using cellk [OF k(1)] k(2,3) by auto
  then have "delete_from_leaf free_chain s p r = Some (bind_outcome (free_of free_chain s c) (\<lambda>s'. Ok (Some (p', s'))))"
    using k(1) p'(1) remove_slot_eq [OF l(1) k(1)] delete_search [OF l(1,2), of r] lp(3,4)
    by (simp add: delete_from_leaf_def free_of_def is_leaf_def)
  ultimately show "\<exists>p' rs'. table_leaf p' rs' \<and> row_map rs' = (row_map rs)(r := None) \<and> length (pg_data p') = length (pg_data p)
      \<and> delete_from_leaf free_chain s p r = Some (bind_outcome (free_of free_chain s c) (\<lambda>s'. Ok (Some (p', s'))))"
    using row_map_remove [OF l(2) k(1)] k(2) p'(4) by (intro exI [of _ p'] exI [of _ "take ?k rs @ drop (Suc ?k) rs"]) simp
qed


text \<open>Lookup: the payload of the row, whatever the remembered position.\<close>

lemma find_in_leaf_rows:
  assumes leaf: "table_leaf p rs"
  shows "find_in_leaf asm p LeafTable bias r =
    (case row_map rs r of None \<Rightarrow> Ok None | Some c \<Rightarrow> bind_outcome (cell_payload asm c) (\<lambda>payload. Ok (Some payload)))"
proof -
  have l: "holds_cells p LeafTable rs" "sorted_rows rs" using leaf by (simp_all add: table_leaf_def)
  note lp = leaf_page [OF l(1)]
  have search: "biased_rowid_search p (n_cells p) bias r = Ok (found (place r rs))" using biased_search_found [OF l] lp(4) by simp
  show ?thesis
  proof (cases "place r rs")
    case (Inr k)
    then show ?thesis using search place_row_map(2) [OF l(2) Inr] by (simp add: find_in_leaf_def found_def)
  next
    case (Inl i)
    note i = place_row_map(1) [OF l(2) Inl]
    have small: "i mod 2 ^ 16 = i" using i holds_few [OF l(1)] by simp
    show ?thesis
    proof (rule holds_cell_at [OF l(1), of i])
      fix rest
      assume a: "cell_pointer p i = Ok (ptr_at p i)" "ptr_at p i < length (pg_data p)" "drop (ptr_at p i) (pg_data p) = cell_encode (rs ! i) @ rest"
        "fits_page (length (pg_data p)) LeafTable (rs ! i)"
      have "cell_decode (cell_encode (rs ! i) @ rest) LeafTable (length (pg_data p)) = Ok (rs ! i)"
        using cell_decode_encode [OF lp(5,6), of "rs ! i" rest] a(4) by (simp add: fits_page_def)
      then show ?thesis using search Inl i small a lp(2) by (simp add: find_in_leaf_def found_def cell_slice_checked_def)
    qed (use i in simp)
  qed
qed

subsection \<open>Machines with observed answers\<close>

fun run_until :: "('s \<Rightarrow> 'o \<Rightarrow> 's \<times> 'a) \<Rightarrow> ('a \<Rightarrow> bool) \<Rightarrow> 's \<Rightarrow> 'o list \<Rightarrow> 's \<times> 'a list" where
  "run_until exec stop s [] = (s, [])"
| "run_until exec stop s (op # ops) =
     (let (t, a) = exec s op in
      if stop a then (t, [a]) else let (u, as) = run_until exec stop t ops in (u, a # as))"

fun check_until :: "('m \<Rightarrow> 'o \<Rightarrow> 'a \<Rightarrow> 'm option) \<Rightarrow> ('a \<Rightarrow> bool) \<Rightarrow> 'm \<Rightarrow> 'o list \<Rightarrow> 'a list \<Rightarrow> 'm option" where
  "check_until spec stop m ops [] = (if ops = [] then Some m else None)"
| "check_until spec stop m [] (a # as) = None"
| "check_until spec stop m (op # ops) (a # as) =
     (case spec m op a of None \<Rightarrow> None
      | Some m' \<Rightarrow> if stop a then if as = [] then Some m' else None else check_until spec stop m' ops as)"

text \<open>
  Machines whose answers a specification admits: each legal step from related states answers what
  the specification allows and leads to related states; a stopping answer ends the run.
\<close>

locale observed_machine =
  fixes exec :: "'s \<Rightarrow> 'o \<Rightarrow> 's \<times> 'a"
    and spec :: "'m \<Rightarrow> 'o \<Rightarrow> 'a \<Rightarrow> 'm option"
    and stop :: "'a \<Rightarrow> bool"
    and legal :: "'o \<Rightarrow> bool"
    and rel :: "'s \<Rightarrow> 'm \<Rightarrow> bool"
    and final :: "'s \<Rightarrow> 'm \<Rightarrow> bool"
  assumes steps: "rel s m \<Longrightarrow> legal op \<Longrightarrow> \<exists>t a m'. exec s op = (t, a) \<and> spec m op a = Some m' \<and> (if stop a then final t m' else rel t m')"
    and rel_final: "rel s m \<Longrightarrow> final s m"
begin

lemma run_admitted:
  assumes "rel s m" "list_all legal ops"
  shows "\<exists>t as m'. run_until exec stop s ops = (t, as) \<and> check_until spec stop m ops as = Some m' \<and> final t m'"
  using assms
proof (induction ops arbitrary: s m)
  case (Cons op ops)
  then obtain t a m' where s: "exec s op = (t, a)" "spec m op a = Some m'" "if stop a then final t m' else rel t m'" using steps by fastforce
  show ?case
  proof (cases "stop a")
    case False
    with Cons s obtain u as m'' where "run_until exec stop t ops = (u, as)" "check_until spec stop m' ops as = Some m''" "final u m''" by fastforce
    with s False show ?thesis by simp
  qed (use s in simp)
qed (simp add: rel_final)

end

subsection \<open>A leaf is a map\<close>

text \<open>
  A run of operations on one leaf, as the tree issues them, ends when the leaf is full, which is
  where the tree splits it. The pager's state is threaded for the chains that deletions free.
\<close>

datatype leaf_op = Put cell | Del i64 | Get i64

datatype leaf_answer = Stored | Exists | NoRoom | Deleted | Absent | Row bytes | Failed string | Crashed

definition leaf_exec ::
    "assemble \<Rightarrow> ('s \<Rightarrow> u32 \<Rightarrow> 's outcome) \<Rightarrow> page \<times> 's \<Rightarrow> leaf_op \<Rightarrow> (page \<times> 's) \<times> leaf_answer" where
  "leaf_exec asm free_chain ps op =
     (case op of
        Put c \<Rightarrow>
          (case insert_into_leaf asm True (fst ps) c of
             Some (Ok (Done q)) \<Rightarrow> ((q, snd ps), Stored)
           | Some (Ok Duplicate) \<Rightarrow> (ps, Exists)
           | Some (Ok (Full q)) \<Rightarrow> ((q, snd ps), NoRoom)
           | Some (Err e) \<Rightarrow> (ps, Failed e)
           | _ \<Rightarrow> (ps, Crashed))
      | Del r \<Rightarrow>
          (case delete_from_leaf free_chain (snd ps) (fst ps) r of
             Some (Ok None) \<Rightarrow> (ps, Absent)
           | Some (Ok (Some qs)) \<Rightarrow> (qs, Deleted)
           | Some (Err e) \<Rightarrow> (ps, Failed e)
           | _ \<Rightarrow> (ps, Crashed))
      | Get r \<Rightarrow>
          (case find_in_leaf asm (fst ps) LeafTable 0 r of
             Ok None \<Rightarrow> (ps, Absent)
           | Ok (Some payload) \<Rightarrow> (ps, Row payload)
           | Err e \<Rightarrow> (ps, Failed e)
           | Panic \<Rightarrow> (ps, Crashed)))"

text \<open>What a map of rows may answer, and the map after it. Only a spilled row can fail.\<close>

definition row_step :: "assemble \<Rightarrow> ('s \<Rightarrow> u32 \<Rightarrow> 's outcome) \<Rightarrow> (i64 \<rightharpoonup> cell) \<times> 's \<Rightarrow> leaf_op \<Rightarrow> leaf_answer \<Rightarrow> ((i64 \<rightharpoonup> cell) \<times> 's) option" where
  "row_step asm free_chain ms op a =
     (case op of
        Put c \<Rightarrow>
          (case fst ms (cell_key c) of
             None \<Rightarrow> if a = Stored then Some ((fst ms)(cell_key c \<mapsto> c), snd ms) else if a = NoRoom then Some ms else None
           | Some _ \<Rightarrow> if a = Exists then Some ms else None)
      | Del r \<Rightarrow>
          (case fst ms r of None \<Rightarrow> if a = Absent then Some ms else None
           | Some c \<Rightarrow>
               (case free_of free_chain (snd ms) c of
                  Ok s' \<Rightarrow> if a = Deleted then Some ((fst ms)(r := None), s') else None
                | Err e \<Rightarrow> if a = Failed e then Some ms else None
                | Panic \<Rightarrow> if a = Crashed then Some ms else None))
      | Get r \<Rightarrow>
          (case fst ms r of None \<Rightarrow> if a = Absent then Some ms else None
           | Some c \<Rightarrow>
               (case cell_payload asm c of
                  Ok payload \<Rightarrow> if a = Row payload then Some ms else None
                | Err e \<Rightarrow> if a = Failed e then Some ms else None
                | Panic \<Rightarrow> if a = Crashed then Some ms else None)))"

definition legal_op :: "nat \<Rightarrow> leaf_op \<Rightarrow> bool" where
  "legal_op psz op = (case op of Put c \<Rightarrow> cell_ok psz c \<and> cell_type c = LeafTable | _ \<Rightarrow> True)"

lemma insert_into_leaf_rows:
  assumes leaf: "table_leaf p rs" and c: "fits_page (length (pg_data p)) LeafTable c"
  shows "row_map rs (cell_key c) = Some c' \<Longrightarrow> insert_into_leaf asm True p c = Some (Ok Duplicate)"
    and "row_map rs (cell_key c) = None \<Longrightarrow>
      (\<exists>q. insert_into_leaf asm True p c = Some (Ok (Done q)) \<and> table_leaf q (insert_row c rs) \<and> length (pg_data q) = length (pg_data p))
      \<or> (\<exists>q. insert_into_leaf asm True p c = Some (Ok (Full q)) \<and> holds_cells q LeafTable rs \<and> length (pg_data q) = length (pg_data p))"
proof -
  have l: "holds_cells p LeafTable rs" "sorted_rows rs" using leaf by (simp_all add: table_leaf_def)
  note search = table_leaf_search_place [OF l, of "cell_key c"] and pt = leaf_page(3) [OF l(1)]
  {
    assume "row_map rs (cell_key c) = Some c'"
    then obtain i where "place (cell_key c) rs = Inl i" using place_row_map(2) [OF l(2)] by (cases "place (cell_key c) rs") fastforce+
    then show "insert_into_leaf asm True p c = Some (Ok Duplicate)" using search pt by (simp add: insert_into_leaf_def)
  }
  assume None: "row_map rs (cell_key c) = None"
  have "insert_into_leaf asm True p c = insert_with_room asm p c (Some (rank (row_lt (cell_key c)) rs))"
    using search place_None [OF l(2) None] pt by (simp add: insert_into_leaf_def)
  then show "(\<exists>q. insert_into_leaf asm True p c = Some (Ok (Done q)) \<and> table_leaf q (insert_row c rs) \<and> length (pg_data q) = length (pg_data p))
      \<or> (\<exists>q. insert_into_leaf asm True p c = Some (Ok (Full q)) \<and> holds_cells q LeafTable rs \<and> length (pg_data q) = length (pg_data p))"
    using insert_with_room_leaf [OF leaf c None, of "Some (rank (row_lt (cell_key c)) rs)" asm] by auto
qed

lemma put_simulates:
  assumes leaf: "table_leaf p rs" and c: "fits_page (length (pg_data p)) LeafTable c"
  shows "\<exists>p' a. leaf_exec asm free_chain (p, s) (Put c) = ((p', s), a)
    \<and> row_step asm free_chain (row_map rs, s) (Put c) a = Some (if a = Stored then (row_map (insert_row c rs), s) else (row_map rs, s))
    \<and> (a \<noteq> NoRoom \<longrightarrow> table_leaf p' (if a = Stored then insert_row c rs else rs)) \<and> (a = NoRoom \<longrightarrow> holds_cells p' LeafTable rs)
    \<and> length (pg_data p') = length (pg_data p)"
proof (cases "row_map rs (cell_key c)")
  case None
  consider q where "insert_into_leaf asm True p c = Some (Ok (Done q))" "table_leaf q (insert_row c rs)" "length (pg_data q) = length (pg_data p)"
    | q where "insert_into_leaf asm True p c = Some (Ok (Full q))" "holds_cells q LeafTable rs" "length (pg_data q) = length (pg_data p)"
    using insert_into_leaf_rows(2) [OF assms None] by blast
  then show ?thesis
    by cases (use None row_map_insert_row [OF None] in \<open>simp_all add: leaf_exec_def row_step_def\<close>)
next
  case (Some c')
  then show ?thesis using insert_into_leaf_rows(1) [OF assms Some] leaf by (simp add: leaf_exec_def row_step_def)
qed

lemma leaf_simulates:
  assumes leaf: "table_leaf p rs" and psz: "length (pg_data p) = psz" and legal: "legal_op psz op"
  shows "\<exists>p' s' a rs' m'. leaf_exec asm free_chain (p, s) op = ((p', s'), a)
    \<and> row_step asm free_chain (row_map rs, s) op a = Some (m', s') \<and> m' = row_map rs'
    \<and> (if a = NoRoom then holds_cells p' LeafTable rs' \<and> sorted_rows rs' else table_leaf p' rs') \<and> length (pg_data p') = psz"
proof (cases op)
  case (Put c)
  then have "fits_page (length (pg_data p)) LeafTable c" using legal psz by (simp add: legal_op_def fits_page_def)
  from put_simulates [OF leaf this, of asm free_chain s] obtain p' a where
    "leaf_exec asm free_chain (p, s) (Put c) = ((p', s), a)"
    "row_step asm free_chain (row_map rs, s) (Put c) a = Some (if a = Stored then (row_map (insert_row c rs), s) else (row_map rs, s))"
    "a \<noteq> NoRoom \<Longrightarrow> table_leaf p' (if a = Stored then insert_row c rs else rs)" "a = NoRoom \<Longrightarrow> holds_cells p' LeafTable rs"
    "length (pg_data p') = length (pg_data p)" by blast
  moreover have "sorted_rows rs" using leaf by (simp add: table_leaf_def)
  ultimately show ?thesis using Put psz
    by (intro exI [of _ p'] exI [of _ s] exI [of _ a] exI [of _ "if a = Stored then insert_row c rs else rs"]) auto
next
  case (Del r)
  show ?thesis
  proof (cases "row_map rs r")
    case None
    then show ?thesis using Del psz leaf delete_from_leaf_rows(1) [OF leaf None, of free_chain s] by (auto simp: leaf_exec_def row_step_def)
  next
    case (Some c)
    from delete_from_leaf_rows(2) [OF leaf Some, of free_chain s] obtain p' rs' where p': "table_leaf p' rs'" "row_map rs' = (row_map rs)(r := None)"
      "length (pg_data p') = length (pg_data p)"
      "delete_from_leaf free_chain s p r = Some (bind_outcome (free_of free_chain s c) (\<lambda>s'. Ok (Some (p', s'))))" by blast
    show ?thesis
    proof (cases "free_of free_chain s c")
      case (Ok s')
      then show ?thesis using Del psz p' Some by (intro exI [of _ p'] exI [of _ s'] exI [of _ Deleted] exI [of _ rs']) (simp add: leaf_exec_def row_step_def)
    qed (use Del psz p' Some leaf in \<open>auto simp: leaf_exec_def row_step_def\<close>)
  qed
next
  case (Get r)
  show ?thesis
  proof (cases "row_map rs r")
    case None
    then show ?thesis using Get psz leaf find_in_leaf_rows [OF leaf, of asm 0 r] by (auto simp: leaf_exec_def row_step_def)
  next
    case (Some c)
    then show ?thesis using Get psz leaf find_in_leaf_rows [OF leaf, of asm 0 r]
      by (cases "cell_payload asm c") (auto simp: leaf_exec_def row_step_def)
  qed
qed

definition leaf_rel :: "nat \<Rightarrow> page \<times> 's \<Rightarrow> (i64 \<rightharpoonup> cell) \<times> 's \<Rightarrow> bool" where
  "leaf_rel psz ps ms \<longleftrightarrow> snd ps = snd ms \<and> length (pg_data (fst ps)) = psz \<and> (\<exists>rs. table_leaf (fst ps) rs \<and> fst ms = row_map rs)"

definition leaf_holds :: "nat \<Rightarrow> page \<times> 's \<Rightarrow> (i64 \<rightharpoonup> cell) \<times> 's \<Rightarrow> bool" where
  "leaf_holds psz ps ms \<longleftrightarrow> snd ps = snd ms \<and> length (pg_data (fst ps)) = psz
     \<and> (\<exists>rs. holds_cells (fst ps) LeafTable rs \<and> sorted_rows rs \<and> fst ms = row_map rs)"

interpretation leaf_store: observed_machine "leaf_exec asm free_chain" "row_step asm free_chain" "\<lambda>a. a = NoRoom" "legal_op psz" "leaf_rel psz" "leaf_holds psz"
  for asm free_chain psz
proof unfold_locales
  fix ps :: "page \<times> 'a" and ms op
  assume "leaf_rel psz ps ms" "legal_op psz op"
  then obtain p s rs where "ps = (p, s)" "ms = (row_map rs, s)" "table_leaf p rs" "length (pg_data p) = psz" by (cases ps; cases ms) (auto simp: leaf_rel_def)
  with leaf_simulates [of p rs psz op asm free_chain s] \<open>legal_op psz op\<close>
  show "\<exists>t a m'. leaf_exec asm free_chain ps op = (t, a) \<and> row_step asm free_chain ms op a = Some m' \<and> (if a = NoRoom then leaf_holds psz t m' else leaf_rel psz t m')"
    by (fastforce simp: leaf_rel_def leaf_holds_def)
qed (auto simp: leaf_rel_def leaf_holds_def table_leaf_def)

lemma init_table_leaf: "sized p \<Longrightarrow> pg_live_cache p = None \<Longrightarrow> table_leaf (init_leaf_table p) []"
  using init_page_repr(1) [of p LeafTable]
  by (simp add: table_leaf_def holds_cells_def init_leaf_table_def cache_tight_def sorted_rows_def init_page_def setter_defs)

text \<open>
  C17: A table leaf is a map from rowids to rows. Whatever inserts, deletes and lookups a fresh
  leaf goes through, in any order, each is answered as the map answers it: an insert stores
  the row, reports the rowid as taken or reports a full leaf; a delete removes it and frees its
  overflow chain; a lookup returns the payload. No operation panics or loops, and the page holds
  the rows of the map, sorted, at the end; the cached count of live bytes, on which compaction
  and merging decide, never misleads them.
\<close>

theorem table_leaf_is_map:
  assumes "512 \<le> psz" "psz \<le> 65536" "list_all (legal_op psz) ops"
  shows "\<exists>p s' as m rs. run_until (leaf_exec asm free_chain) (\<lambda>a. a = NoRoom) (init_leaf_table (new_page pid psz serial), s) ops = ((p, s'), as)
    \<and> check_until (row_step asm free_chain) (\<lambda>a. a = NoRoom) (Map.empty, s) ops as = Some (m, s')
    \<and> leaf_cells p = Ok (Some (LeafTable, map cell_encode rs)) \<and> m = map_of (map (\<lambda>c. (cell_key c, c)) rs)
    \<and> sorted_wrt (<) (map (\<lambda>c. sint (cell_key c)) rs)"
proof -
  let ?p = "init_leaf_table (new_page pid psz serial)"
  have sized: "sized (new_page pid psz serial)" "pg_live_cache (new_page pid psz serial) = None" "length (pg_data (new_page pid psz serial)) = psz"
    using assms by (simp_all add: new_page_def sized_def)
  have "length (pg_data ?p) = psz" using sized by (simp add: init_leaf_table_def init_page_def)
  then have rel: "leaf_rel psz (?p, s) (Map.empty, s)" using init_table_leaf [OF sized(1,2)] by (auto simp: leaf_rel_def intro!: exI [of _ "[]"])
  from leaf_store.run_admitted [OF rel assms(3), of asm free_chain] show ?thesis
    using leaf_cells_holds [of _ LeafTable] by (fastforce simp: leaf_holds_def is_leaf_def row_map_def sorted_rows_def comp_def)
qed

theorem table_leaf_is_map_witness:
  "\<exists>p s' as m rs. run_until (leaf_exec (\<lambda>_ _ _. Ok []) (\<lambda>s _. Ok (s :: nat))) (\<lambda>a. a = NoRoom) (init_leaf_table (new_page 3 512 0), 0)
      [Put (TableLeafCell 5 [1, 2]), Put (TableLeafCell (- 7) [3]), Get 5, Del 5, Get 5] = ((p, s'), as)
    \<and> check_until (row_step (\<lambda>_ _ _. Ok []) (\<lambda>s _. Ok s)) (\<lambda>a. a = NoRoom) (Map.empty, 0)
      [Put (TableLeafCell 5 [1, 2]), Put (TableLeafCell (- 7) [3]), Get 5, Del 5, Get 5] as = Some (m, s')
    \<and> leaf_cells p = Ok (Some (LeafTable, map cell_encode rs)) \<and> m = map_of (map (\<lambda>c. (cell_key c, c)) rs)
    \<and> sorted_wrt (<) (map (\<lambda>c. sint (cell_key c)) rs)"
  by (rule table_leaf_is_map) (simp_all add: legal_op_def)


subsection \<open>Compaction\<close>

text \<open>
  C21: Compacting a leaf whose cached count of live bytes, if it has one, is current keeps its cells
  in order and never fails. When it says that the bytes asked for fit, they do; when it does not,
  either the page had no dead byte to reclaim, or the cells with their pointers, one pointer more
  and those bytes exceed the page. Since the bytes asked for already count the new pointer, a leaf
  is given up two bytes before it is full.
\<close>

theorem compaction_reclaims:
  assumes "holds_cells p pt rs" "is_leaf pt" "cache_tight p (map cell_encode rs)" "0 < need"
  shows "\<exists>p' fits. compact_leaf_if_fragmented p need = Ok (p', fits) \<and> leaf_cells p' = leaf_cells p \<and> leaf_cells p = Ok (Some (pt, map cell_encode rs))
    \<and> (fits \<longrightarrow> need \<le> free_space p')
    \<and> (\<not> fits \<longrightarrow> p' = p \<and> cell_bytes rs + cell_content_start p = length (pg_data p)
          \<or> length (pg_data p) < header_offset p + 12 + (length rs + 1) * 2 + cell_bytes rs + need)"
proof -
  obtain p' fits where "compact_leaf_if_fragmented p need = Ok (p', fits)" "holds_cells p' pt rs" "fits \<Longrightarrow> need \<le> free_space p'"
    "\<not> fits \<Longrightarrow> p' = p \<and> cell_bytes rs + cell_content_start p = length (pg_data p)
          \<or> length (pg_data p) < header_offset p + 12 + (length rs + 1) * 2 + cell_bytes rs + need"
    using compact_leaf_holds [OF assms] by blast
  then show ?thesis using leaf_cells_holds [OF assms(1,2)] leaf_cells_holds [of p' pt rs, OF _ assms(2)] by auto
qed

text \<open>A leaf that two rows were stored in, of which the first was deleted.\<close>

lemma fragmented_leaf:
  "\<exists>p. holds_cells p LeafTable [TableLeafCell 9 [3]] \<and> cache_tight p (map cell_encode [TableLeafCell 9 [3]]) \<and> length (pg_data p) = 512
    \<and> header_offset p = 0 \<and> cell_content_start p = 505"
proof -
  let ?p = "init_leaf_table (new_page 3 512 0)" and ?a = "TableLeafCell 5 [1, 2]" and ?b = "TableLeafCell 9 [3]"
  have sized: "sized (new_page 3 512 0)" by (simp add: new_page_def sized_def)
  have "table_leaf ?p []" by (rule init_table_leaf) (simp_all add: new_page_def sized_def)
  then have 0: "holds_cells ?p LeafTable []" "cache_ok ?p (map cell_encode [])" by (simp_all add: table_leaf_def cache_tight_ok)
  have len: "length (pg_data ?p) = 512" by (simp add: init_leaf_table_def init_page_def new_page_def sized_def)
  have off: "header_offset ?p = 0" by (simp add: init_leaf_table_def init_page_def new_page_def header_offset_def setter_defs)
  have start: "cell_content_start ?p = 512" using init_page_repr(3) [OF sized, of LeafTable] by (simp add: init_leaf_table_def new_page_def)
  have fit: "fits_page 512 LeafTable ?a" "fits_page 512 LeafTable ?b" by (simp_all add: fits_page_def)
  have size: "cell_encoded_size ?a = 4" "cell_encoded_size ?b = 3" by code_simp+
  note room = free_space_repr [OF leaf_page(1)]
  obtain p1 where p1: "holds_cells p1 LeafTable [?a]" "cache_tight p1 (map cell_encode [?a])" "length (pg_data p1) = 512" "header_offset p1 = 0" "cell_content_start p1 = 508"
    using write_cell_holds [OF 0(1) _ _ _ 0(2), of 0 ?a] len off start fit size room [OF 0(1)] by auto
  obtain p2 where p2: "holds_cells p2 LeafTable [?a, ?b]" "cache_tight p2 (map cell_encode [?a, ?b])" "length (pg_data p2) = 512" "header_offset p2 = 0" "cell_content_start p2 = 505"
    using write_cell_holds [OF p1(1) _ _ _ cache_tight_ok [OF p1(2)], of 1 ?b] p1(3-5) fit size room [OF p1(1)] by auto
  show ?thesis using remove_cell_at_repr [OF p2(1) _ cache_tight_ok [OF p2(2)], of 0] p2(3-5) by auto
qed

theorem compaction_reclaims_witness:
  "\<exists>p p'. leaf_cells p = Ok (Some (LeafTable, [cell_encode (TableLeafCell 9 [3])])) \<and> free_space p = 491
    \<and> compact_leaf_if_fragmented p 493 = Ok (p', True) \<and> leaf_cells p' = leaf_cells p \<and> 493 \<le> free_space p'"
proof -
  let ?b = "TableLeafCell 9 [3]"
  obtain p where p: "holds_cells p LeafTable [?b]" "cache_tight p (map cell_encode [?b])" "length (pg_data p) = 512" "header_offset p = 0" "cell_content_start p = 505"
    using fragmented_leaf by blast
  have "cell_bytes [?b] = 3" by code_simp
  then show ?thesis using compaction_reclaims [OF p(1) _ p(2), of 493] p(3-5) free_space_repr [OF leaf_page(1) [OF p(1)]] by (fastforce simp: is_leaf_def)
qed

end
