(* ===== verification/Btree_Overflow.thy ===== *)
theory Btree_Overflow
  imports Btree_Rows
begin

text \<open>
  Overflow chains: how a payload that does not fit a leaf is written to a chain of pages, read
  back and freed. The pager is a parameter: \<open>get\<close> is \<^verbatim>\<open>Pager::get_page\<close>, from a page number to the
  page, \<open>alloc\<close> is \<^verbatim>\<open>Pager::allocate_pages_opts\<close>, which hands out pages with their numbers, and
  \<open>free_page\<close> gives one back. The pager reads a chain page from its cache, the log or the file;
  all of them hold the page that \<open>get\<close> returns, so the three readers of \<^verbatim>\<open>gather_overflow_chain_range\<close>
  are one here. Positions in a payload stay below \<open>2\<^sup>4\<^sup>9\<close>, so \<^verbatim>\<open>usize\<close> additions do not wrap.
\<close>

type_synonym page_getter = "u32 \<Rightarrow> page outcome"

subsection \<open>Reading a chain\<close>

definition gather_page :: "nat \<Rightarrow> nat \<Rightarrow> nat \<Rightarrow> bytes \<Rightarrow> nat \<Rightarrow> bytes \<Rightarrow> nat \<Rightarrow> bytes \<times> nat" where
  "gather_page tk start fin data page_pos out appended =
     (let p_end = page_pos + tk in
      if start < p_end \<and> page_pos < fin
      then let from = max start page_pos - page_pos; upto = min fin p_end - page_pos in
           if from < upto then (out @ take (upto - from) (drop from data), appended + (upto - from)) else (out, appended)
      else (out, appended))"

primrec gather_loop :: "nat \<Rightarrow> page_getter \<Rightarrow> nat \<Rightarrow> nat \<Rightarrow> nat \<Rightarrow> u32 \<Rightarrow> nat \<Rightarrow> bytes \<Rightarrow> nat \<Rightarrow> (bytes \<times> nat) outcome" where
  "gather_loop 0 get cap start fin cur page_pos out appended = Err ''overflow chain cycle''"
| "gather_loop (Suc steps) get cap start fin cur page_pos out appended =
     (if fin \<le> page_pos then Ok (out, appended)
      else
        bind_outcome (get cur) (\<lambda>p.
        bind_outcome (page_type_of p) (\<lambda>pt.
          if pt \<noteq> Overflow then Err ''overflow chain hit non-overflow page''
          else
            let tk = min (length (overflow_data p)) cap;
                r = gather_page tk start fin (overflow_data p) page_pos out appended
            in if overflow_next p = 0 then Ok r
               else gather_loop steps get cap start fin (overflow_next p) (page_pos + tk) (fst r) (snd r))))"

definition gather_overflow_chain_range :: "page_getter \<Rightarrow> nat \<Rightarrow> nat \<Rightarrow> u32 \<Rightarrow> nat \<Rightarrow> nat \<Rightarrow> nat \<Rightarrow> bytes \<Rightarrow> (bytes \<times> nat) outcome" where
  "gather_overflow_chain_range get n_pages psz first_page local_len start fin out =
     (if fin \<le> start \<or> first_page = 0 then Ok (out, 0)
      else gather_loop (n_pages + 4) get (psz - 16) start fin first_page local_len out 0)"

definition assemble_overflow_payload :: "page_getter \<Rightarrow> nat \<Rightarrow> nat \<Rightarrow> bytes \<Rightarrow> u64 \<Rightarrow> u32 \<Rightarrow> bytes outcome" where
  "assemble_overflow_payload get n_pages psz local tot first_page =
     (let total_len = unat tot in
      if total_len < length local then Err ''overflow cell local prefix longer than payload''
      else
        bind_outcome (gather_overflow_chain_range get n_pages psz first_page (length local) (length local) total_len local) (\<lambda>(out, got).
          if got \<noteq> total_len - length local then Err ''overflow chain shorter than payload'' else Ok out))"

subsection \<open>Writing a chain\<close>

definition write_overflow_data :: "page \<Rightarrow> nat \<Rightarrow> bytes \<Rightarrow> page outcome" where
  "write_overflow_data p off bs =
     (if off + length bs \<le> length (overflow_data p)
      then Ok (p\<lparr>pg_data := put (pg_data p) (header_offset p + 16 + off) bs\<rparr>) else Panic)"

fun fill_chain :: "bytes \<Rightarrow> nat \<Rightarrow> (u32 \<times> page) option \<Rightarrow> (u32 \<times> page) list \<Rightarrow> nat \<Rightarrow> (u32 \<times> page) list outcome" where
  "fill_chain rest cap prev [] off = Ok (case prev of None \<Rightarrow> [] | Some q \<Rightarrow> [q])"
| "fill_chain rest cap prev ((page_id, p) # ps) off =
     (let linked = (case prev of None \<Rightarrow> [] | Some (prev_id, q) \<Rightarrow> [(prev_id, set_overflow_next q page_id)]);
          tk = min (length rest - off) cap
      in bind_outcome (write_overflow_data (init_overflow p) 0 (take tk (drop off rest))) (\<lambda>p1.
         bind_outcome (if ps = [] \<and> tk < cap then write_overflow_data p1 tk (replicate (length (overflow_data p1) - tk) 0) else Ok p1) (\<lambda>p2.
         bind_outcome (fill_chain rest cap (Some (page_id, p2)) ps (off + tk)) (\<lambda>filled. Ok (linked @ filled)))))"

definition div_ceil :: "nat \<Rightarrow> nat \<Rightarrow> nat" where
  "div_ceil a b = (a + b - 1) div b"

definition build_overflow_chain_rest :: "(nat \<Rightarrow> (u32 \<times> page) list outcome) \<Rightarrow> bytes \<Rightarrow> nat \<Rightarrow> ((u32 \<times> page) list \<times> u32) outcome" where
  "build_overflow_chain_rest alloc rest cap =
     (if cap = 0 then Panic
      else
        bind_outcome (alloc (div_ceil (length rest) cap)) (\<lambda>pages.
          bind_outcome (fill_chain rest cap None pages 0) (\<lambda>filled. Ok (filled, if pages = [] then 0 else fst (hd pages)))))"

definition build_overflow_chain :: "(nat \<Rightarrow> (u32 \<times> page) list outcome) \<Rightarrow> nat \<Rightarrow> bytes \<Rightarrow> nat \<Rightarrow> ((u32 \<times> page) list \<times> u32) outcome" where
  "build_overflow_chain alloc psz payload local_len =
     bind_outcome (slice payload local_len (length payload)) (\<lambda>rest.
       if rest = [] then Ok ([], 0) else build_overflow_chain_rest alloc rest (psz - 16))"

definition MAX_PAYLOAD :: nat where
  "MAX_PAYLOAD = 2 ^ 30"

definition make_leaf_cell :: "(nat \<Rightarrow> (u32 \<times> page) list outcome) \<Rightarrow> nat \<Rightarrow> i64 \<Rightarrow> bytes \<Rightarrow> (cell \<times> (u32 \<times> page) list) outcome" where
  "make_leaf_cell alloc psz rowid payload =
     (if length payload \<le> psz - 128 then Ok (TableLeafCell rowid payload, [])
      else if MAX_PAYLOAD < length payload then Err ''string or blob too big''
      else
        bind_outcome (overflow_local_len_for (length payload) psz) (\<lambda>local_len.
        bind_outcome (build_overflow_chain alloc psz payload local_len) (\<lambda>(pages, overflow).
        bind_outcome (slice payload 0 local_len) (\<lambda>local.
          Ok (TableLeafOverflow rowid (len64 payload) local overflow, pages)))))"

text \<open>The separator of an interior index page: a copy of the key, with its own chain when it is long.\<close>

definition index_interior_separator ::
    "(nat \<Rightarrow> (u32 \<times> page) list outcome) \<Rightarrow> nat \<Rightarrow> u32 \<Rightarrow> bytes \<Rightarrow> i64 \<Rightarrow> (cell \<times> (u32 \<times> page) list) outcome" where
  "index_interior_separator alloc psz lc key rowid =
     (if length key \<le> index_max_local psz then Ok (IndexInteriorCell lc key rowid, [])
      else
        let local_len = index_local_len_v6 (length key) psz in
        bind_outcome (build_overflow_chain alloc psz key local_len) (\<lambda>(pages, chain).
        bind_outcome (slice key 0 local_len) (\<lambda>local.
          Ok (IndexInteriorOverflow lc rowid (len64 key) local chain True, pages))))"

subsection \<open>Freeing a chain\<close>

primrec free_chain_loop :: "nat \<Rightarrow> page_getter \<Rightarrow> ('s \<Rightarrow> u32 \<Rightarrow> 's outcome) \<Rightarrow> 's \<Rightarrow> u32 \<Rightarrow> 's outcome" where
  "free_chain_loop 0 get free_page s cur = (if cur = 0 then Ok s else Err ''overflow chain cycle'')"
| "free_chain_loop (Suc steps) get free_page s cur =
     (if cur = 0 then Ok s
      else
        bind_outcome (get cur) (\<lambda>p.
        bind_outcome (page_type_of p) (\<lambda>pt.
          if pt \<noteq> Overflow then Err ''overflow chain hit non-overflow page''
          else bind_outcome (free_page s cur) (\<lambda>s'. free_chain_loop steps get free_page s' (overflow_next p)))))"

definition free_overflow_chain :: "page_getter \<Rightarrow> ('s \<Rightarrow> u32 \<Rightarrow> 's outcome) \<Rightarrow> nat \<Rightarrow> 's \<Rightarrow> u32 \<Rightarrow> 's outcome" where
  "free_overflow_chain get free_page n_pages s first_page = free_chain_loop (n_pages + 4) get free_page s first_page"


subsection \<open>Chain pages\<close>

text \<open>A page as the pager hands it out for a chain, and a page of a finished chain.\<close>

definition fresh_page :: "nat \<Rightarrow> u32 \<times> page \<Rightarrow> bool" where
  "fresh_page psz ip \<longleftrightarrow> fst ip \<noteq> 0 \<and> pg_id (snd ip) = fst ip \<and> length (pg_data (snd ip)) = psz"

definition chain_page :: "page \<Rightarrow> u32 \<Rightarrow> bytes \<Rightarrow> bool" where
  "chain_page p next data \<longleftrightarrow> sized p \<and> header_offset p = 0 \<and> page_type_of p = Ok Overflow \<and> overflow_next p = next \<and> overflow_data p = data"

lemma sized_touch: "sized (touch p) = sized p"
  by (simp add: sized_def)

lemma sized_put: "sized p \<Longrightarrow> off + length bs \<le> length (pg_data p) \<Longrightarrow> sized (p\<lparr>pg_data := put (pg_data p) off bs\<rparr>)"
  by (simp add: sized_def length_put)

lemma type_put:
  "sized p \<Longrightarrow> header_offset p = 0 \<Longrightarrow> 1 \<le> off \<Longrightarrow> off + length bs \<le> length (pg_data p) \<Longrightarrow> page_type_of (p\<lparr>pg_data := put (pg_data p) off bs\<rparr>) = page_type_of p"
  using nth_put_other [of 0 off bs "pg_data p"] by (cases "pg_data p = []") (auto simp: page_type_of_def sized_def)

lemma init_overflow_page:
  assumes "fresh_page psz (i, p)" "512 \<le> psz" "psz \<le> 65536"
  shows "\<exists>data. chain_page (init_overflow p) 0 data \<and> length data = psz - 16 \<and> length (pg_data (init_overflow p)) = psz"
proof -
  have p: "sized p" "header_offset p = 0" "length (pg_data p) = psz" using assms by (simp_all add: fresh_page_def sized_def header_offset_def)
  let ?p1 = "set_page_type p Overflow" let ?p2 = "?p1\<lparr>pg_data := put (pg_data ?p1) (header_offset ?p1 + 1) [0, 0, 0]\<rparr>"
  let ?p3 = "set_right_most_pointer (set_cell_content_start (set_n_cells ?p2 0) 12) 0"
  have s1: "sized ?p1" "length (pg_data ?p1) = psz" "header_offset ?p1 = 0" "page_type_of ?p1 = Ok Overflow"
    using p head_congD(1) [OF head_set_page_type [OF p(1), of Overflow]] by simp_all
  then have s2: "sized ?p2" "length (pg_data ?p2) = psz" "page_type_of ?p2 = Ok Overflow" "header_offset ?p2 = 0"
    using assms by (simp_all add: sized_put type_put length_put)
  then have s3: "sized ?p3" "length (pg_data ?p3) = psz" "header_offset ?p3 = 0" by simp_all
  have t3: "page_type_of ?p3 = Ok Overflow"
    using s2 head_congD(1) [OF head_set_n_cells [OF s2(1), of 0]] head_congD(1) [OF head_set_cell_content_start [of "set_n_cells ?p2 0" 12]]
      head_congD(1) [OF head_set_right_most_pointer [of "set_cell_content_start (set_n_cells ?p2 0) 12" 0]] assms by simp
  have i: "init_overflow p = touch (?p3\<lparr>pg_data := put (pg_data ?p3) 12 (be32 0)\<rparr>)"
    unfolding init_overflow_def Let_def set_field_def [of ?p3] s3(3) by (simp only: add_0)
  have "get32 (put (pg_data ?p3) 12 (be32 0)) 12 = be_nat (be32 0)" using s3(2) assms by (simp add: get32_def window_put_same)
  then have "chain_page (init_overflow p) 0 (overflow_data (init_overflow p))"
    using s3 t3 assms be_nat_be_bytes [of 4 0] by (simp add: i chain_page_def overflow_next_def sized_touch sized_put type_put)
  moreover have "length (pg_data (init_overflow p)) = psz" "header_offset (init_overflow p) = 0" using s3 assms by (simp_all add: i length_put)
  ultimately show ?thesis by (auto simp: overflow_data_def)
qed

lemma chain_page_write:
  assumes "chain_page p next data" "off + length bs \<le> length data"
  shows "\<exists>q. write_overflow_data p off bs = Ok q \<and> chain_page q next (take off data @ bs @ drop (off + length bs) data)"
proof -
  have p: "sized p" "header_offset p = 0" "page_type_of p = Ok Overflow" "overflow_next p = next" "drop 16 (pg_data p) = data"
    using assms by (auto simp: chain_page_def overflow_data_def)
  have len: "16 + off + length bs \<le> length (pg_data p)" using p(1,5) assms(2) by (auto simp: sized_def)
  let ?q = "p\<lparr>pg_data := put (pg_data p) (16 + off) bs\<rparr>"
  have "overflow_next ?q = next" using p(2,4) len by (simp add: overflow_next_def get32_put_other)
  moreover have "overflow_data ?q = take off data @ bs @ drop (off + length bs) data"
    using p(2,5) len by (simp add: overflow_data_def put_def drop_take ac_simps flip: p(5))
  ultimately have "chain_page ?q next (take off data @ bs @ drop (off + length bs) data)"
    using p len by (simp add: chain_page_def sized_put type_put)
  then show ?thesis using assms(2) p(2,5) by (simp add: write_overflow_data_def overflow_data_def)
qed

lemma chain_page_link:
  assumes "chain_page p next data"
  shows "chain_page (set_overflow_next p j) j data"
proof -
  have p: "sized p" "header_offset p = 0" using assms by (simp_all add: chain_page_def)
  then have len: "12 + length (be32 j) \<le> length (pg_data p)" by (simp add: sized_def)
  have "set_overflow_next p j = touch (p\<lparr>pg_data := put (pg_data p) 12 (be32 j)\<rparr>)" using p by (simp add: set_overflow_next_def set_field_def)
  moreover have "get32 (put (pg_data p) 12 (be32 j)) 12 = be_nat (be32 j)" using len by (simp add: get32_def window_put_same)
  moreover have "drop 16 (put (pg_data p) 12 (be32 j)) = drop 16 (pg_data p)" using len by (simp add: put_def)
  ultimately show ?thesis using assms p len
    by (simp add: chain_page_def overflow_next_def overflow_data_def be32_word type_put sized_touch sized_put)
qed


subsection \<open>Chains\<close>

text \<open>Pages that hold a payload: full pages in order, each linked to the next, the last one padded with zeros.\<close>

fun chain_list :: "nat \<Rightarrow> (u32 \<times> page) list \<Rightarrow> bytes \<Rightarrow> bool" where
  "chain_list cap [] bs = (bs = [])"
| "chain_list cap ((i, p) # ps) bs =
     (i \<noteq> 0 \<and> bs \<noteq> [] \<and> chain_page p (case ps of [] \<Rightarrow> 0 | q # _ \<Rightarrow> fst q) (take cap bs @ replicate (cap - length bs) 0) \<and> chain_list cap ps (drop cap bs))"

lemma fill_page:
  assumes "fresh_page psz (i, p)" "512 \<le> psz" "psz \<le> 65536" "length bs \<le> psz - 16" "\<not> fin_page \<Longrightarrow> length bs = psz - 16"
  shows "\<exists>q1 q2. write_overflow_data (init_overflow p) 0 bs = Ok q1
    \<and> (if fin_page \<and> length bs < psz - 16 then write_overflow_data q1 (length bs) (replicate (length (overflow_data q1) - length bs) 0) else Ok q1) = Ok q2
    \<and> chain_page q2 0 (bs @ replicate (psz - 16 - length bs) 0)"
proof -
  obtain data where d: "chain_page (init_overflow p) 0 data" "length data = psz - 16" using init_overflow_page [OF assms(1-3)] by blast
  obtain q1 where q1: "write_overflow_data (init_overflow p) 0 bs = Ok q1" "chain_page q1 0 (bs @ drop (length bs) data)"
    using chain_page_write [OF d(1), of 0 bs] d(2) assms(4) by auto
  show ?thesis
  proof (cases "length bs < psz - 16")
    case True
    then have fin_page using assms(5) by auto
    have od: "overflow_data q1 = bs @ drop (length bs) data" using q1(2) by (simp add: chain_page_def)
    have "\<exists>q2. write_overflow_data q1 (length bs) (replicate (psz - 16 - length bs) 0) = Ok q2 \<and> chain_page q2 0 (bs @ replicate (psz - 16 - length bs) 0)"
      using chain_page_write [OF q1(2), of "length bs" "replicate (psz - 16 - length bs) 0"] d(2) by simp
    then show ?thesis using q1 od d(2) True \<open>fin_page\<close> by simp
  next
    case False
    then show ?thesis using q1 d(2) assms(4) by simp
  qed
qed

lemma div_ceil_pos: "0 < b \<Longrightarrow> 0 < div_ceil a b \<longleftrightarrow> 0 < a"
  by (cases a) (auto simp: div_ceil_def div_greater_zero_iff)

lemma div_ceil_step: "0 < b \<Longrightarrow> 0 < a \<Longrightarrow> div_ceil a b = Suc (div_ceil (a - min a b) b)"
proof -
  assume b: "0 < b" "0 < a"
  show ?thesis
  proof (cases "a \<le> b")
    case True
    have "(a - 1 + b) div b = 1" using b True by (intro div_nat_eqI) auto
    moreover have "a + b - 1 = a - 1 + b" using b by simp
    ultimately show ?thesis using True b by (simp add: div_ceil_def min_def)
  next
    case False
    then have "a + b - 1 = (a - 1) + b" by simp
    moreover have "((a - 1) + b) div b = Suc ((a - 1) div b)" using b div_add_self2 [of b "a - 1"] by simp
    ultimately have "(a + b - 1) div b = Suc ((a - 1) div b)" by metis
    then show ?thesis using False b by (simp add: div_ceil_def min_def)
  qed
qed

lemma fill_chain_list:
  assumes "list_all (fresh_page psz) ps" "512 \<le> psz" "psz \<le> 65536" "length ps = div_ceil (length rest - off) (psz - 16)"
  shows "\<exists>filled. fill_chain rest (psz - 16) prev ps off
      = Ok ((case prev of None \<Rightarrow> [] | Some (j, q) \<Rightarrow> [(j, if ps = [] then q else set_overflow_next q (fst (hd ps)))]) @ filled)
    \<and> map fst filled = map fst ps \<and> chain_list (psz - 16) filled (drop off rest)"
  using assms(1,4)
proof (induction ps arbitrary: prev off)
  case Nil
  then have "length rest \<le> off" using div_ceil_pos [of "psz - 16" "length rest - off"] assms(2) by simp
  then show ?case by (auto split: option.split)
next
  case (Cons ip ps)
  obtain i p where ip: "ip = (i, p)" by (cases ip)
  let ?cap = "psz - 16" and ?left = "length rest - off" let ?tk = "min ?left ?cap" let ?bs = "take ?tk (drop off rest)"
  have left: "0 < ?left" using Cons.prems(2) div_ceil_pos [of ?cap ?left] assms(2) by simp
  have len: "length ps = div_ceil (length rest - (off + ?tk)) ?cap"
    using Cons.prems(2) div_ceil_step [of ?cap ?left] left assms(2) by simp
  have full: "length ?bs = ?tk" "ps \<noteq> [] \<Longrightarrow> length ?bs = ?cap"
  proof -
    show "length ?bs = ?tk" by simp
    assume "ps \<noteq> []"
    then have "0 < div_ceil (length rest - (off + ?tk)) ?cap" unfolding len [symmetric] by simp
    then have "0 < length rest - (off + ?tk)" using div_ceil_pos [of ?cap "length rest - (off + ?tk)"] assms(2) by simp
    then show "length ?bs = ?cap" by (simp add: min_def split: if_splits)
  qed
  have fresh: "fresh_page psz (i, p)" using Cons.prems(1) ip by simp
  obtain q1 q2 where q: "write_overflow_data (init_overflow p) 0 ?bs = Ok q1"
      "(if ps = [] \<and> ?tk < ?cap then write_overflow_data q1 ?tk (replicate (length (overflow_data q1) - ?tk) 0) else Ok q1) = Ok q2"
      "chain_page q2 0 (?bs @ replicate (?cap - ?tk) 0)"
    using fill_page [OF fresh assms(2,3), of ?bs "ps = []", unfolded full(1)] full(2) [unfolded full(1)] by fastforce
  obtain filled where f: "fill_chain rest ?cap (Some (i, q2)) ps (off + ?tk) = Ok ([(i, if ps = [] then q2 else set_overflow_next q2 (fst (hd ps)))] @ filled)"
      "map fst filled = map fst ps" "chain_list ?cap filled (drop (off + ?tk) rest)"
    using Cons.IH [of "off + ?tk" "Some (i, q2)"] Cons.prems(1) len ip by auto
  let ?q = "if ps = [] then q2 else set_overflow_next q2 (fst (hd ps))"
  have "(case filled of [] \<Rightarrow> 0 | q # _ \<Rightarrow> fst q) = (if ps = [] then 0 else fst (hd ps))" using f(2) by (cases ps; cases filled) auto
  moreover have "chain_page ?q (if ps = [] then 0 else fst (hd ps)) (?bs @ replicate (?cap - ?tk) 0)" using q(3) chain_page_link by auto
  moreover have "?bs = take ?cap (drop off rest)" "replicate (?cap - ?tk) 0 = replicate (?cap - length (drop off rest)) (0 :: byte)" "drop (off + ?tk) rest = drop ?cap (drop off rest)"
    by (auto simp: min_def add.commute)
  moreover have "i \<noteq> 0" using fresh by (simp add: fresh_page_def)
  ultimately have "chain_list ?cap ((i, ?q) # filled) (drop off rest)" using f(3) left by simp
  moreover have "fill_chain rest ?cap prev (ip # ps) off
      = Ok ((case prev of None \<Rightarrow> [] | Some (j, q) \<Rightarrow> [(j, set_overflow_next q i)]) @ (i, ?q) # filled)"
    using q(1,2) f(1) by (simp add: ip Let_def split: option.split)
  ultimately show ?case using f(2) ip by (intro exI [of _ "(i, ?q) # filled"]) (auto split: option.split)
qed

lemma gather_chain:
  assumes "chain_list cap ps bs" "ps \<noteq> []" "length ps \<le> steps" "\<And>i p. (i, p) \<in> set ps \<Longrightarrow> get i = Ok p" "start \<le> page_pos"
  shows "gather_loop steps get cap start (page_pos + length bs) (fst (hd ps)) page_pos out n = Ok (out @ bs, n + length bs)"
  using assms
proof (induction ps arbitrary: steps bs page_pos out n)
  case (Cons ip ps)
  obtain i p where ip: "ip = (i, p)" by (cases ip)
  obtain k where k: "steps = Suc k" using Cons.prems(3) by (cases steps) auto
  let ?nxt = "case ps of [] \<Rightarrow> 0 | q # _ \<Rightarrow> fst q"
  have p: "bs \<noteq> []" "page_type_of p = Ok Overflow" "overflow_next p = ?nxt" "overflow_data p = take cap bs @ replicate (cap - length bs) 0" "chain_list cap ps (drop cap bs)"
    using Cons.prems(1) ip by (simp_all add: chain_page_def)
  have len: "min (length (overflow_data p)) cap = cap" by (simp add: p(4))
  have g: "gather_page cap start (page_pos + length bs) (overflow_data p) page_pos out n = (out @ take cap bs, n + min (length bs) cap)"
  proof (cases "0 < cap")
    case True
    then show ?thesis using p(1) Cons.prems(5) by (auto simp: gather_page_def Let_def p(4) min_def max_def)
  next
    case False
    then show ?thesis by (simp add: gather_page_def)
  qed
  have get: "get i = Ok p" using Cons.prems(4) ip by simp
  show ?case
  proof (cases ps)
    case Nil
    then have "drop cap bs = []" using p(5) by simp
    then show ?thesis using Nil p(1-3) g len get k ip by (simp add: min_def)
  next
    case (Cons jq ps')
    have "drop cap bs \<noteq> []" "fst jq \<noteq> 0" using p(5) Cons by (cases jq; simp)+
    then have long: "cap < length bs" "?nxt \<noteq> 0" "?nxt = fst (hd ps)" using Cons by auto
    have "gather_loop k get cap start (page_pos + cap + length (drop cap bs)) (fst (hd ps)) (page_pos + cap) (out @ take cap bs) (n + cap)
        = Ok ((out @ take cap bs) @ drop cap bs, n + cap + length (drop cap bs))"
      using Cons.prems(3-5) k Cons p(5) by (intro Cons.IH) auto
    then show ?thesis using long p(1-3) g len get k ip by simp
  qed
qed simp


subsection \<open>Round trips\<close>

lemma assemble_chain:
  assumes "chain_list (psz - 16) ps bs" "ps \<noteq> []" "length ps \<le> n_pages + 4" "\<And>i p. (i, p) \<in> set ps \<Longrightarrow> get i = Ok p"
    "unat tot = length local + length bs"
  shows "assemble_overflow_payload get n_pages psz local tot (fst (hd ps)) = Ok (local @ bs)"
proof -
  have "fst (hd ps) \<noteq> 0" "bs \<noteq> []" using assms(1,2) by (cases ps; auto)+
  then show ?thesis using gather_chain [OF assms(1-4), where start = "length local" and page_pos = "length local" and out = local and n = 0] assms(5)
    by (simp add: assemble_overflow_payload_def gather_overflow_chain_range_def)
qed

lemma free_chain:
  assumes "chain_list cap ps bs" "length ps \<le> steps" "\<And>i p. (i, p) \<in> set ps \<Longrightarrow> get i = Ok p"
  shows "free_chain_loop steps get free_page s (case ps of [] \<Rightarrow> 0 | q # _ \<Rightarrow> fst q) = fold_outcome free_page s (map fst ps)"
  using assms
proof (induction ps arbitrary: steps bs s)
  case Nil
  then show ?case by (cases steps) simp_all
next
  case (Cons ip ps)
  obtain i p where ip: "ip = (i, p)" by (cases ip)
  obtain k where k: "steps = Suc k" using Cons.prems(2) by (cases steps) auto
  have p: "i \<noteq> 0" "page_type_of p = Ok Overflow" "overflow_next p = (case ps of [] \<Rightarrow> 0 | q # _ \<Rightarrow> fst q)" "chain_list cap ps (drop cap bs)"
    using Cons.prems(1) ip by (simp_all add: chain_page_def)
  have "get i = Ok p" using Cons.prems(3) ip by simp
  moreover have "free_chain_loop k get free_page s' (case ps of [] \<Rightarrow> 0 | q # _ \<Rightarrow> fst q) = fold_outcome free_page s' (map fst ps)" for s'
    using Cons.IH [OF p(4)] Cons.prems(2,3) k by simp
  ultimately show ?case using p(1-3) k ip by simp
qed

text \<open>What the pager promises of an allocation: as many pages as asked for, none of them page 0.\<close>

definition allocates :: "nat \<Rightarrow> (nat \<Rightarrow> (u32 \<times> page) list outcome) \<Rightarrow> bool" where
  "allocates psz alloc \<longleftrightarrow> (\<forall>n\<le>MAX_PAYLOAD. \<exists>ps. alloc n = Ok ps \<and> length ps = n \<and> list_all (fresh_page psz) ps)"

lemma build_chain:
  assumes "512 \<le> psz" "psz \<le> 65536" "allocates psz alloc" "l < length payload" "length payload \<le> MAX_PAYLOAD"
  shows "\<exists>pages. build_overflow_chain alloc psz payload l = Ok (pages, fst (hd pages)) \<and> pages \<noteq> [] \<and> chain_list (psz - 16) pages (drop l payload)"
proof -
  let ?rest = "drop l payload" let ?n = "div_ceil (length ?rest) (psz - 16)"
  have "?n \<le> length ?rest"
  proof -
    have "length ?rest + (psz - 16) - 1 < (length ?rest + 1) * (psz - 16)" using assms(1,4) by (cases "psz - 16") auto
    then have "?n < length ?rest + 1" unfolding div_ceil_def by (rule less_mult_imp_div_less)
    then show ?thesis by simp
  qed
  then have "?n \<le> MAX_PAYLOAD" using assms(5) by simp
  then obtain ps where ps: "alloc ?n = Ok ps" "length ps = ?n" "list_all (fresh_page psz) ps" using assms(3) unfolding allocates_def by blast
  have pos: "0 < ?n" using div_ceil_pos [of "psz - 16" "length ?rest"] assms(1,4) by simp
  then have ne: "ps \<noteq> []" using ps(2) by auto
  obtain filled where f: "fill_chain ?rest (psz - 16) None ps 0 = Ok filled" "map fst filled = map fst ps" "chain_list (psz - 16) filled ?rest"
    using fill_chain_list [OF ps(3) assms(1,2), of ?rest 0 None] ps(2) by auto
  have "filled \<noteq> []" "fst (hd filled) = fst (hd ps)" using f(2) ne by (cases filled; cases ps; auto)+
  then show ?thesis using f ps ne assms(1,4) by (simp add: build_overflow_chain_def build_overflow_chain_rest_def slice_Ok)
qed

text \<open>
  C18: A row of any size up to the limit is stored and read back. The leaf cell that is made for
  it keeps the part the split rule says, the rest fills a chain of fresh pages whose unused bytes
  are zero, a lookup assembles the payload again from any store that holds those pages, and
  deleting the row frees exactly them, in order. The walks end whatever the pages hold: they are
  bounded by the number of pages.
\<close>

theorem spilled_row_roundtrip:
  assumes "512 \<le> psz" "psz \<le> 65536" "length payload \<le> MAX_PAYLOAD" "allocates psz alloc"
  shows "\<exists>c pages. make_leaf_cell alloc psz rowid payload = Ok (c, pages) \<and> cell_ok psz c \<and> cell_type c = LeafTable \<and> cell_key c = rowid
    \<and> (\<forall>get n_pages. length pages \<le> n_pages + 4 \<and> (\<forall>(i, p)\<in>set pages. get i = Ok p) \<longrightarrow>
          cell_payload (assemble_overflow_payload get n_pages psz) c = Ok payload
          \<and> (\<forall>free_page (s :: 's). free_of (free_overflow_chain get free_page n_pages) s c = fold_outcome free_page s (map fst pages)))"
proof (cases "length payload \<le> psz - 128")
  case True
  then show ?thesis by (auto simp: make_leaf_cell_def free_of_def chain_of_def)
next
  case False
  let ?l = "table_local (length payload) psz"
  have l: "?l < length payload" using False local_len_le [OF assms(1), of "length payload"] by simp
  obtain pages where b: "build_overflow_chain alloc psz payload ?l = Ok (pages, fst (hd pages))" "pages \<noteq> []" "chain_list (psz - 16) pages (drop ?l payload)"
    using build_chain [OF assms(1,2,4) l assms(3)] by blast
  have tot: "unat (len64 payload) = length payload" using assms(3) by (intro unat_len64) (simp add: MAX_PAYLOAD_def)
  define c where "c = TableLeafOverflow rowid (len64 payload) (take ?l payload) (fst (hd pages))"
  have m: "make_leaf_cell alloc psz rowid payload = Ok (c, pages)"
    using False assms(1,3) b(1) l by (simp add: make_leaf_cell_def overflow_local_len slice_Ok c_def)
  have ok: "cell_ok psz c" "cell_type c = LeafTable" "cell_key c = rowid" using False tot l by (simp_all add: c_def)
  have hd: "(case pages of [] \<Rightarrow> 0 | q # _ \<Rightarrow> fst q) = fst (hd pages)" "fst (hd pages) \<noteq> 0" using b(2,3) by (cases pages; auto)+
  have "cell_payload (assemble_overflow_payload get n_pages psz) c = Ok payload"
    "free_of (free_overflow_chain get free_page n_pages) s c = fold_outcome free_page s (map fst pages)"
    if "length pages \<le> n_pages + 4" "\<forall>(i, p)\<in>set pages. get i = Ok p" for get n_pages free_page and s :: 's
  proof -
    have g: "\<And>i p. (i, p) \<in> set pages \<Longrightarrow> get i = Ok p" using that(2) by blast
    show "cell_payload (assemble_overflow_payload get n_pages psz) c = Ok payload"
      using assemble_chain [OF b(3,2) that(1) g, where tot = "len64 payload" and local = "take ?l payload"] tot l by (simp add: c_def)
    show "free_of (free_overflow_chain get free_page n_pages) s c = fold_outcome free_page s (map fst pages)"
      using free_chain [OF b(3) that(1) g, where free_page = free_page and s = s] hd by (simp add: free_of_def chain_of_def c_def free_overflow_chain_def)
  qed
  then show ?thesis using m ok by blast
qed

definition counting_alloc :: "nat \<Rightarrow> nat \<Rightarrow> (u32 \<times> page) list outcome" where
  "counting_alloc psz n = Ok (map (\<lambda>i. (word_of_nat (i + 2), new_page (word_of_nat (i + 2)) psz 0)) [0..<n])"

lemma counting_allocates: "allocates psz (counting_alloc psz)"
proof -
  have "(word_of_nat (i + 2) :: u32) \<noteq> 0" if "i < 2 ^ 30" for i
  proof -
    have "unat (word_of_nat (i + 2) :: u32) = i + 2" using that by (simp only: unat_of_nat) simp
    then show ?thesis by (metis add_is_0 unat_0 zero_neq_numeral)
  qed
  then show ?thesis by (auto simp: allocates_def counting_alloc_def list_all_iff fresh_page_def new_page_def MAX_PAYLOAD_def)
qed

theorem spilled_row_roundtrip_witness:
  "\<exists>c pages. make_leaf_cell (counting_alloc 512) 512 5 (replicate 1500 7) = Ok (c, pages) \<and> cell_ok 512 c \<and> cell_type c = LeafTable \<and> cell_key c = 5
    \<and> (\<forall>get n_pages. length pages \<le> n_pages + 4 \<and> (\<forall>(i, p)\<in>set pages. get i = Ok p) \<longrightarrow>
          cell_payload (assemble_overflow_payload get n_pages 512) c = Ok (replicate 1500 7)
          \<and> (\<forall>free_page (s :: nat). free_of (free_overflow_chain get free_page n_pages) s c = fold_outcome free_page s (map fst pages)))"
  by (rule spilled_row_roundtrip) (simp_all add: MAX_PAYLOAD_def counting_allocates)

end
