(* ===== verification/Btree_Descent.thy ===== *)
theory Btree_Descent
  imports Btree_Overflow
begin

text \<open>
  The descents of \<^verbatim>\<open>btree.rs\<close> from the root of a tree to a leaf: the choice of a child in an interior
  page, and the lookup, the insertion and the deletion of a row along the path it gives. The pager
  is \<open>get\<close> (\<^verbatim>\<open>get_page\<close>), a function from page numbers to pages that a write updates. Nothing bounds
  a descent, so a cyclic tree is never left: \<open>None\<close> is not returning. What happens to a leaf that
  is full, or that a deletion left underfull, is \<open>Unbalanced\<close> or a parameter: splitting, merging and
  recycling are not modelled, and neither are the leaf hints that only skip the descent.
\<close>

subsection \<open>Choosing a child\<close>

text \<open>The search of \<^verbatim>\<open>lookup_table\<close>, which carries the child found so far.\<close>

function lookup_child :: "page \<Rightarrow> i64 \<Rightarrow> nat \<Rightarrow> nat \<Rightarrow> u32 \<Rightarrow> u32 outcome" where
  "lookup_child p rowid lo hi next =
     (if lo < hi
      then let mid = (lo + hi) div 2 in
           bind_outcome (cell_pointer p (mid mod 2 ^ 16)) (\<lambda>ptr.
             if length (pg_data p) < ptr + 4 then Ok next
             else
               case decode_signed (drop (ptr + 4) (pg_data p)) of
                 None \<Rightarrow> Err ''truncated interior key in lookup''
               | Some (key, _) \<Rightarrow>
                   if sint rowid \<le> sint key then lookup_child p rowid lo mid (of_be32 (take 4 (drop ptr (pg_data p))))
                   else lookup_child p rowid (mid + 1) hi next)
      else Ok next)"
  by pat_completeness auto
termination
  by (relation "measure (\<lambda>(p, rowid, lo, hi, next). hi - lo)") auto

declare lookup_child.simps [simp del]

text \<open>The search of an insertion; with no right-most child the last cell's child is the right edge.\<close>

definition insert_child_probe :: "page \<Rightarrow> i64 \<Rightarrow> nat \<Rightarrow> probe outcome" where
  "insert_child_probe p target mid =
     bind_outcome (cell_pointer p mid) (\<lambda>ptr.
     bind_outcome (slice (pg_data p) ptr (length (pg_data p))) (\<lambda>stored.
       case decode_table_interior_key stored of
         None \<Rightarrow> Ok Stop
       | Some k \<Rightarrow> Ok (if sint k < sint target then GoRight else GoLeft)))"

definition child_at :: "page \<Rightarrow> nat \<Rightarrow> u32 \<Rightarrow> u32 outcome" where
  "child_at p i dflt =
     bind_outcome (cell_pointer p i) (\<lambda>ptr.
     bind_outcome (slice (pg_data p) ptr (length (pg_data p))) (\<lambda>stored.
       Ok (case decode_table_interior_child stored of None \<Rightarrow> dflt | Some c \<Rightarrow> c)))"

definition insert_child :: "page \<Rightarrow> i64 \<Rightarrow> u32 outcome option" where
  "insert_child p target =
     run_then (bsearch (insert_child_probe p target) 0 (n_cells p)) (\<lambda>lo.
       Some (if n_cells p \<le> lo
             then if right_most_pointer p \<noteq> 0 then Ok (right_most_pointer p)
                  else if 0 < n_cells p then child_at p (n_cells p - 1) 0
                  else Ok 0
             else child_at p lo (right_most_pointer p)))"

text \<open>The search of a deletion.\<close>

definition separator_rowid :: "page_type \<Rightarrow> bytes \<Rightarrow> nat \<Rightarrow> i64 option outcome" where
  "separator_rowid pt stored psz =
     (if pt = InteriorIndex then bind_outcome (decode_index_cell stored True psz) (\<lambda>v. Ok (map_option iv_rowid v))
      else Ok (decode_table_interior_key stored))"

definition separator_child :: "page_type \<Rightarrow> bytes \<Rightarrow> nat \<Rightarrow> u32 option outcome" where
  "separator_child pt stored psz =
     (if pt = InteriorIndex then bind_outcome (decode_index_cell stored True psz) (\<lambda>v. Ok (map_option iv_left_child v))
      else Ok (decode_table_interior_child stored))"

definition delete_child_probe :: "page \<Rightarrow> page_type \<Rightarrow> i64 \<Rightarrow> nat \<Rightarrow> probe outcome" where
  "delete_child_probe p pt rowid mid =
     bind_outcome (cell_pointer p mid) (\<lambda>ptr.
     bind_outcome (cell_slice_checked p ptr) (\<lambda>stored.
     bind_outcome (separator_rowid pt stored (page_size p)) (\<lambda>sep.
       case sep of
         None \<Rightarrow> Err (if pt = InteriorIndex then ''truncated index interior cell'' else ''truncated interior cell'')
       | Some k \<Rightarrow> Ok (if sint rowid \<le> sint k then GoLeft else GoRight))))"

definition delete_child :: "page \<Rightarrow> page_type \<Rightarrow> i64 \<Rightarrow> u32 outcome option" where
  "delete_child p pt rowid =
     run_then (bsearch (delete_child_probe p pt rowid) 0 (n_cells p)) (\<lambda>lo.
       Some (if n_cells p \<le> lo then Ok (right_most_pointer p)
             else
               bind_outcome (cell_pointer p lo) (\<lambda>ptr.
               bind_outcome (cell_slice_checked p ptr) (\<lambda>stored.
               bind_outcome (separator_child pt stored (page_size p)) (\<lambda>c.
                 Ok (case c of None \<Rightarrow> right_most_pointer p | Some c \<Rightarrow> c))))))"

text \<open>
  The search of an interior index page. A comparison with the local part of a spilled separator is
  enough unless that part is a proper prefix of the key; a chain that cannot be read sends the
  search right.
\<close>

definition index_go_right :: "assemble \<Rightarrow> index_view \<Rightarrow> bytes \<Rightarrow> i64 \<Rightarrow> bool outcome" where
  "index_go_right asm v key rowid =
     (if iv_overflow v \<noteq> 0 \<and> length (iv_key v) < length key \<and> take (length (iv_key v)) key = iv_key v
      then case asm (iv_key v) (iv_total v) (iv_overflow v) of
             Ok full \<Rightarrow> Ok (key_lt full (iv_rowid v) key rowid)
           | Err e \<Rightarrow> Ok True
           | Panic \<Rightarrow> Panic
      else Ok (key_lt (iv_key v) (iv_rowid v) key rowid))"

definition get_from :: "bytes \<Rightarrow> nat \<Rightarrow> bytes option" where
  "get_from data ptr = (if ptr \<le> length data then Some (drop ptr data) else None)"

definition view_at :: "page \<Rightarrow> nat \<Rightarrow> index_view option outcome" where
  "view_at p ptr = (case get_from (pg_data p) ptr of None \<Rightarrow> Ok None | Some c \<Rightarrow> decode_index_cell c True (page_size p))"

function index_child_loop :: "assemble \<Rightarrow> page \<Rightarrow> bytes \<Rightarrow> i64 \<Rightarrow> nat \<Rightarrow> nat \<Rightarrow> nat outcome" where
  "index_child_loop asm p key rowid lo hi =
     (if lo < hi
      then let mid = (lo + hi) div 2 in
           bind_outcome (cell_pointer p mid) (\<lambda>ptr.
           bind_outcome (case get_from (pg_data p) ptr of None \<Rightarrow> Ok None | Some c \<Rightarrow> index_cell_lt c True (page_size p) key rowid) (\<lambda>fast.
             case fast of
               Some (Some True) \<Rightarrow> index_child_loop asm p key rowid (mid + 1) hi
             | Some (Some False) \<Rightarrow> index_child_loop asm p key rowid lo mid
             | _ \<Rightarrow>
                 bind_outcome (view_at p ptr) (\<lambda>d.
                   case d of None \<Rightarrow> Ok lo
                   | Some v \<Rightarrow>
                       bind_outcome (index_go_right asm v key rowid) (\<lambda>go_right.
                         if go_right then index_child_loop asm p key rowid (mid + 1) hi
                         else index_child_loop asm p key rowid lo mid))))
      else Ok lo)"
  by pat_completeness auto
termination
  by (relation "measure (\<lambda>(asm, p, key, rowid, lo, hi). hi - lo)") auto

declare index_child_loop.simps [simp del]

definition find_index_child :: "assemble \<Rightarrow> page \<Rightarrow> bytes \<Rightarrow> i64 \<Rightarrow> (nat \<times> u32) outcome" where
  "find_index_child asm p key rowid =
     (let n = n_cells p; right_most = right_most_pointer p in
      bind_outcome (index_child_loop asm p key rowid 0 n) (\<lambda>lo.
        if n \<le> lo
        then if right_most \<noteq> 0 \<or> n = 0 then Ok (n, right_most)
             else bind_outcome (cell_pointer p (n - 1)) (\<lambda>ptr.
                  bind_outcome (view_at p ptr) (\<lambda>d. Ok (n, case d of None \<Rightarrow> 0 | Some v \<Rightarrow> iv_left_child v)))
        else bind_outcome (cell_pointer p lo) (\<lambda>ptr.
             bind_outcome (view_at p ptr) (\<lambda>d. Ok (case d of None \<Rightarrow> (n, right_most) | Some v \<Rightarrow> (lo, iv_left_child v))))))"

subsection \<open>Descents\<close>

text \<open>
  The hint that a lookup records at a leaf is left out, but not the reads of its first and last cell:
  a pointer past the page is passed over, a cell count past it stops the program.
\<close>

definition hint_bounds :: "page \<Rightarrow> unit outcome" where
  "hint_bounds p =
     (if n_cells p = 0 then Ok ()
      else bind_outcome (cell_pointer p 0) (\<lambda>_. bind_outcome (cell_pointer p (n_cells p - 1)) (\<lambda>_. Ok ())))"

partial_function (option) lookup_from :: "page_getter \<Rightarrow> assemble \<Rightarrow> i64 \<Rightarrow> u32 \<Rightarrow> bytes option outcome option" where
  "lookup_from get asm rowid page_id =
     (case get page_id of
        Ok p \<Rightarrow>
          (case page_type_of p of
             Ok pt \<Rightarrow>
               if pt = LeafTable then Some (bind_outcome (hint_bounds p) (\<lambda>_. find_in_leaf asm p pt 0 rowid))
               else if pt = InteriorTable
               then (case lookup_child p rowid 0 (n_cells p) (right_most_pointer p) of
                       Ok next \<Rightarrow> if next = 0 then Some (Err ''interior page has no valid child'') else lookup_from get asm rowid next
                     | Err e \<Rightarrow> Some (Err e)
                     | Panic \<Rightarrow> Some Panic)
               else Some (Err ''unexpected page type in table btree'')
           | Err e \<Rightarrow> Some (Err e)
           | Panic \<Rightarrow> Some Panic)
      | Err e \<Rightarrow> Some (Err e)
      | Panic \<Rightarrow> Some Panic)"

text \<open>\<open>hint\<close> is the leaf and the position that the hint probes return for the rowid.\<close>

definition lookup_table :: "page_getter \<Rightarrow> assemble \<Rightarrow> (page \<times> nat) option \<Rightarrow> u32 \<Rightarrow> i64 \<Rightarrow> bytes option outcome option" where
  "lookup_table get asm hint root rowid =
     (case hint of
        None \<Rightarrow> lookup_from get asm rowid root
      | Some (leaf, bias) \<Rightarrow>
          (case lookup_table_leaf asm leaf rowid bias of
             Ok (Some res) \<Rightarrow> Some (Ok res)
           | Panic \<Rightarrow> Some Panic
           | _ \<Rightarrow> lookup_from get asm rowid root))"

text \<open>
  The child an insertion descends into, with whether it is on the right edge of the page: its
  right-most child, or the last cell's child where there is none.
\<close>

definition right_edge :: "page \<Rightarrow> page_type \<Rightarrow> u32 \<Rightarrow> bool outcome" where
  "right_edge p pt child =
     (if right_most_pointer p \<noteq> 0 then Ok (child = right_most_pointer p)
      else if 0 < n_cells p
      then bind_outcome (cell_pointer p (n_cells p - 1)) (\<lambda>ptr.
           bind_outcome (slice (pg_data p) ptr (length (pg_data p))) (\<lambda>stored.
           bind_outcome (separator_child pt stored (page_size p)) (\<lambda>c. Ok (c = Some child))))
      else Ok False)"

definition insert_route :: "assemble \<Rightarrow> page \<Rightarrow> page_type \<Rightarrow> cell \<Rightarrow> (u32 \<times> bool) outcome option" where
  "insert_route asm p pt c =
     run_then
       (if is_index pt
        then Some (bind_outcome (if index_overflow c \<noteq> 0 then cell_index_key asm c else Ok (index_key c)) (\<lambda>nk.
                   bind_outcome (find_index_child asm p nk (cell_key c)) (\<lambda>r. Ok (snd r))))
        else insert_child p (cell_key c))
       (\<lambda>child. Some (bind_outcome (right_edge p pt child) (\<lambda>e. Ok (child, e))))"

text \<open>
  \<open>Unbalanced\<close> is a leaf with no room, at which the sharing with siblings and the split begin; it
  carries what they read: the leaf, its parent and whether the path left the right edge.
\<close>

datatype placed = Placed page_getter | Taken | Unbalanced page_getter u32 u32 bool

partial_function (option) insert_from :: "page_getter \<Rightarrow> assemble \<Rightarrow> bool \<Rightarrow> cell \<Rightarrow> u32 \<Rightarrow> bool \<Rightarrow> u32 \<Rightarrow> placed outcome option" where
  "insert_from get asm reject c leaf_parent off_right_edge page_id =
     (case get page_id of
        Ok p \<Rightarrow>
          (case page_type_of p of
             Ok pt \<Rightarrow>
               if is_leaf pt
               then run_then (insert_into_leaf asm reject p c) (\<lambda>r.
                      Some (Ok (case r of Done q \<Rightarrow> Placed (get(page_id := Ok q)) | Duplicate \<Rightarrow> Taken
                                | Full q \<Rightarrow> Unbalanced (get(page_id := Ok q)) page_id leaf_parent off_right_edge)))
               else (case insert_route asm p pt c of
                       Some (Ok r) \<Rightarrow> insert_from get asm reject c page_id (off_right_edge \<or> \<not> snd r) (fst r)
                     | Some (Err e) \<Rightarrow> Some (Err e)
                     | Some Panic \<Rightarrow> Some Panic
                     | None \<Rightarrow> None)
           | Err e \<Rightarrow> Some (Err e)
           | Panic \<Rightarrow> Some Panic)
      | Err e \<Rightarrow> Some (Err e)
      | Panic \<Rightarrow> Some Panic)"

text \<open>
  \<^verbatim>\<open>delete_from_page\<close>. The state is the pages and what else the pager keeps; \<open>rebalance\<close> is
  \<^verbatim>\<open>rebalance_after_delete\<close> on a parent and its child.
\<close>

type_synonym 's pages = "page_getter \<times> 's"

partial_function (option) delete_from ::
    "('s pages \<Rightarrow> u32 \<Rightarrow> 's pages outcome) \<Rightarrow> ('s pages \<Rightarrow> u32 \<Rightarrow> u32 \<Rightarrow> 's pages outcome) \<Rightarrow> 's pages \<Rightarrow> i64 \<Rightarrow> u32 \<Rightarrow> ('s pages \<times> bool) outcome option" where
  "delete_from free_chain rebalance st rowid page_id =
     (case fst st page_id of
        Ok p \<Rightarrow>
          (case page_type_of p of
             Ok pt \<Rightarrow>
               if pt = Overflow then Some (Err ''overflow page reached as a btree node in delete_from_page'')
               else if is_leaf pt
               then run_then (delete_from_leaf free_chain st p rowid) (\<lambda>r.
                      Some (Ok (case r of None \<Rightarrow> (st, False) | Some (q, st') \<Rightarrow> (((fst st')(page_id := Ok q), snd st'), True))))
               else (case delete_child p pt rowid of
                       Some (Ok child) \<Rightarrow>
                         if child = 0 then Some (Ok (st, False))
                         else Option.bind (delete_from free_chain rebalance st rowid child) (\<lambda>r.
                                Some (bind_outcome r (\<lambda>(st', deleted).
                                  if deleted then bind_outcome (rebalance st' page_id child) (\<lambda>st''. Ok (st'', True))
                                  else Ok (st', False))))
                     | Some (Err e) \<Rightarrow> Some (Err e)
                     | Some Panic \<Rightarrow> Some Panic
                     | None \<Rightarrow> None)
           | Err e \<Rightarrow> Some (Err e)
           | Panic \<Rightarrow> Some Panic)
      | Err e \<Rightarrow> Some (Err e)
      | Panic \<Rightarrow> Some Panic)"

end
