(* ===== verification/Btree_Tree.thy ===== *)
theory Btree_Tree
  imports Btree_Descent
begin

text \<open>
  Table trees of any height. An abstract tree carries the numbers of the pages it occupies; it is
  stored when every page holds what its node says, and ranged when the separators bound the rows
  of the subtrees. The descents then find, insert and delete rows of the tree as of one map. An
  interior page without a right-most child, which every split of an interior page leaves on the
  left, is a node whose last subtree is \<open>NoChild\<close>: its last separator is its upper bound.
\<close>

subsection \<open>Trees\<close>

datatype btree = TLeaf u32 "cell list" | TNode u32 "(btree \<times> i64) list" btree | NoChild

fun root_id :: "btree \<Rightarrow> u32" where
  "root_id (TLeaf i rs) = i"
| "root_id (TNode i tks t) = i"
| "root_id NoChild = 0"

fun tree_rows :: "btree \<Rightarrow> cell list" where
  "tree_rows (TLeaf i rs) = rs"
| "tree_rows (TNode i tks t) = concat (map (\<lambda>(s, k). tree_rows s) tks) @ tree_rows t"
| "tree_rows NoChild = []"

fun tree_ids :: "btree \<Rightarrow> u32 list" where
  "tree_ids (TLeaf i rs) = [i]"
| "tree_ids (TNode i tks t) = i # concat (map (\<lambda>(s, k). tree_ids s) tks) @ tree_ids t"
| "tree_ids NoChild = []"

text \<open>The rows of a tree lie above \<open>lo\<close> and at most at \<open>hi\<close>; a separator is an upper bound of its
  subtree. Nothing lies between the last separator and \<open>hi\<close> where there is no right-most child.\<close>

fun ranged :: "int \<Rightarrow> int \<Rightarrow> btree \<Rightarrow> bool" where
  "ranged lo hi (TLeaf i rs) = (sorted_rows rs \<and> (\<forall>c\<in>set rs. lo < sint (cell_key c) \<and> sint (cell_key c) \<le> hi))"
| "ranged lo hi (TNode i [] t) = ranged lo hi t"
| "ranged lo hi (TNode i ((s, k) # tks) t) = (lo < sint k \<and> sint k \<le> hi \<and> ranged lo (sint k) s \<and> ranged (sint k) hi (TNode i tks t))"
| "ranged lo hi NoChild = (hi \<le> lo)"

definition separators :: "(btree \<times> i64) list \<Rightarrow> cell list" where
  "separators tks = map (\<lambda>(s, k). TableInteriorCell (root_id s) k) tks"

fun stored :: "page_getter \<Rightarrow> btree \<Rightarrow> bool" where
  "stored get (TLeaf i rs) = (\<exists>p. get i = Ok p \<and> table_leaf p rs)"
| "stored get (TNode i tks t) =
     ((\<exists>p. get i = Ok p \<and> holds_cells p InteriorTable (separators tks) \<and> right_most_pointer p = root_id t)
      \<and> (\<forall>sk\<in>set tks. root_id (fst sk) \<noteq> 0 \<and> stored get (fst sk)) \<and> (t = NoChild \<or> root_id t \<noteq> 0) \<and> stored get t)"
| "stored get NoChild = True"

text \<open>The subtree where a rowid belongs.\<close>

fun subtree_for :: "i64 \<Rightarrow> (btree \<times> i64) list \<Rightarrow> btree \<Rightarrow> btree" where
  "subtree_for r [] t = t"
| "subtree_for r ((s, k) # tks) t = (if sint r \<le> sint k then s else subtree_for r tks t)"

lemma ranged_rows: "ranged lo hi t \<Longrightarrow> c \<in> set (tree_rows t) \<Longrightarrow> lo < sint (cell_key c) \<and> sint (cell_key c) \<le> hi"
proof (induction lo hi t rule: ranged.induct)
  case (3 lo hi i s k tks t)
  have r: "lo < sint k" "sint k \<le> hi" "ranged lo (sint k) s" "ranged (sint k) hi (TNode i tks t)" using "3.prems"(1) by simp_all
  consider "c \<in> set (tree_rows s)" | "c \<in> set (tree_rows (TNode i tks t))" using "3.prems"(2) by auto
  then show ?case
  proof cases
    case 1
    then show ?thesis using "3.IH"(1) [OF r(3)] r(2) by simp
  next
    case 2
    then show ?thesis using "3.IH"(2) [OF r(4) 2] r(1) by simp
  qed
qed auto

lemma row_map_range: "ranged lo hi t \<Longrightarrow> \<not> (lo < sint r \<and> sint r \<le> hi) \<Longrightarrow> row_map (tree_rows t) r = None"
  unfolding row_map_None by (metis imageE ranged_rows)

lemma row_map_subtree: "ranged lo hi (TNode i tks t) \<Longrightarrow> row_map (tree_rows (TNode i tks t)) r = row_map (tree_rows (subtree_for r tks t)) r"
proof (induction tks arbitrary: lo)
  case (Cons sk tks)
  obtain s k where sk: "sk = (s, k)" by (cases sk)
  have rg: "ranged lo (sint k) s" "ranged (sint k) hi (TNode i tks t)" using Cons.prems sk by simp_all
  have split: "row_map (tree_rows (TNode i (sk # tks) t)) = row_map (tree_rows (TNode i tks t)) ++ row_map (tree_rows s)"
    by (simp add: sk row_map_append)
  show ?case
  proof (cases "sint r \<le> sint k")
    case True
    then have "row_map (tree_rows (TNode i tks t)) r = None" using row_map_range [OF rg(2)] by simp
    then show ?thesis using True unfolding split by (simp add: sk map_add_def split: option.split)
  next
    case False
    then have "row_map (tree_rows s) r = None" using row_map_range [OF rg(1)] by simp
    then show ?thesis using False Cons.IH [OF rg(2)] unfolding split by (simp add: sk map_add_def)
  qed
qed simp

lemma subtree_cases: "subtree_for r tks t = t \<or> (\<exists>k. (subtree_for r tks t, k) \<in> set tks)"
proof (induction tks)
  case (Cons sk tks)
  then show ?case by (cases sk) fastforce
qed simp

lemma subtree_ranged: "ranged lo hi (TNode i tks t) \<Longrightarrow> lo < sint r \<Longrightarrow> sint r \<le> hi \<Longrightarrow>
    \<exists>lo' hi'. ranged lo' hi' (subtree_for r tks t) \<and> lo' < sint r \<and> sint r \<le> hi'"
  by (induction tks arbitrary: lo) fastforce+

lemma subtree_bounds: "ranged lo hi (TNode i tks t) \<Longrightarrow> \<exists>lo' hi'. ranged lo' hi' (subtree_for r tks t)"
  by (induction tks arbitrary: lo) fastforce+

lemma separators_sorted: "ranged lo hi (TNode i tks t) \<Longrightarrow> sorted_rows (separators tks) \<and> (\<forall>c\<in>set (separators tks). lo < sint (cell_key c))"
proof (induction tks arbitrary: lo)
  case (Cons sk tks)
  obtain s k where sk: "sk = (s, k)" by (cases sk)
  then show ?case using Cons.IH [of "sint k"] Cons.prems by (fastforce simp: separators_def sorted_rows_def)
qed (simp add: separators_def sorted_rows_def)

lemma sorted_rows_append:
  "sorted_rows (xs @ ys) \<longleftrightarrow> sorted_rows xs \<and> sorted_rows ys \<and> (\<forall>x\<in>set xs. \<forall>y\<in>set ys. sint (cell_key x) < sint (cell_key y))"
  by (auto simp: sorted_rows_def sorted_wrt_append)

lemma sorted_tree_rows: "ranged lo hi t \<Longrightarrow> sorted_rows (tree_rows t)"
proof (induction lo hi t rule: ranged.induct)
  case (3 lo hi i s k tks t)
  then have "sint (cell_key x) < sint (cell_key y)" if "x \<in> set (tree_rows s)" "y \<in> set (tree_rows (TNode i tks t))" for x y
    using that ranged_rows [of lo "sint k" s x] ranged_rows [of "sint k" hi "TNode i tks t" y] by auto
  moreover have "sorted_rows (tree_rows s)" "sorted_rows (tree_rows (TNode i tks t))" using 3 by simp_all
  moreover have "tree_rows (TNode i ((s, k) # tks) t) = tree_rows s @ tree_rows (TNode i tks t)" by simp
  ultimately show ?case by (simp only: sorted_rows_append) blast
qed (simp_all add: sorted_rows_def)

text \<open>The right-most child, if there is one.\<close>

definition right_trees :: "btree \<Rightarrow> btree list" where
  "right_trees t = (if t = NoChild then [] else [t])"

lemma right_trees_rows [simp]: "concat (map tree_rows (right_trees t)) = tree_rows t"
  by (simp add: right_trees_def)

lemma in_right_trees: "v \<in> set (right_trees t) \<Longrightarrow> v = t \<and> v \<noteq> NoChild"
  by (simp add: right_trees_def split: if_splits)

subsection \<open>Choosing a child\<close>

definition child_id :: "(btree \<times> i64) list \<Rightarrow> btree \<Rightarrow> nat \<Rightarrow> u32" where
  "child_id tks t i = (if i < length tks then root_id (fst (tks ! i)) else root_id t)"

lemma child_id_rank: "child_id tks t (rank (row_lt r) (separators tks)) = root_id (subtree_for r tks t)"
proof (induction tks)
  case (Cons sk tks)
  then show ?case by (cases sk) (auto simp: child_id_def separators_def rank_def row_lt_def)
qed (simp add: child_id_def separators_def rank_def)

lemma separator_at:
  assumes "holds_cells p InteriorTable (separators tks)" "i < length tks"
  obtains rest where "cell_pointer p i = Ok (ptr_at p i)" "ptr_at p i + 4 \<le> length (pg_data p)"
    "drop (ptr_at p i) (pg_data p) = cell_encode (separators tks ! i) @ rest"
    "take 4 (drop (ptr_at p i) (pg_data p)) = be32 (child_id tks t i)"
    "\<exists>n. decode_signed (drop (ptr_at p i + 4) (pg_data p)) = Some (cell_key (separators tks ! i), n)"
proof -
  have i: "i < length (separators tks)" using assms(2) by (simp add: separators_def)
  obtain s k where sk: "tks ! i = (s, k)" by (cases "tks ! i")
  then have cell: "separators tks ! i = TableInteriorCell (root_id s) k" using assms(2) by (simp add: separators_def)
  show thesis
  proof (rule holds_cell_at [OF assms(1) i])
    fix rest
    assume a: "cell_pointer p i = Ok (ptr_at p i)" "ptr_at p i < length (pg_data p)" "drop (ptr_at p i) (pg_data p) = cell_encode (separators tks ! i) @ rest"
      "ptr_at p i + length (cell_encode (separators tks ! i)) \<le> length (pg_data p)"
    have "drop (ptr_at p i + 4) (pg_data p) = drop 4 (drop (ptr_at p i) (pg_data p))" by (simp add: add.commute)
    also have "\<dots> = encode_signed k @ rest" unfolding a(3) cell by simp
    finally have "drop (ptr_at p i + 4) (pg_data p) = encode_signed k @ rest" .
    then show thesis using that [of rest] a cell sk assms(2) by (simp add: child_id_def)
  qed
qed

lemma separator_reads:
  assumes "holds_cells p InteriorTable (separators tks)" "i < length tks"
  shows "\<exists>n. cell_pointer p i = Ok (ptr_at p i) \<and> ptr_at p i + 4 \<le> length (pg_data p) \<and> take 4 (drop (ptr_at p i) (pg_data p)) = be32 (child_id tks t i)
    \<and> decode_signed (drop (ptr_at p i + 4) (pg_data p)) = Some (cell_key (separators tks ! i), n)"
  using separator_at [OF assms, of t] by metis

lemma lookup_child_subtree:
  fixes r :: i64
  assumes holds: "holds_cells p InteriorTable (separators tks)" and sorted: "sorted_rows (separators tks)"
  defines "k \<equiv> rank (row_lt r) (separators tks)"
  shows "lo \<le> k \<Longrightarrow> k \<le> hi \<Longrightarrow> hi \<le> length tks \<Longrightarrow> next = child_id tks t hi \<Longrightarrow> lookup_child p r lo hi next = Ok (child_id tks t k)"
proof (induction "hi - lo" arbitrary: lo hi "next" rule: less_induct)
  case less
  show ?case
  proof (cases "lo < hi")
    case False
    then have "k = hi" using less.prems by simp
    moreover have "lookup_child p r lo hi next = Ok (child_id tks t hi)" using False less.prems(4) lookup_child.simps [of p r lo hi] by simp
    ultimately show ?thesis by simp
  next
    case True
    define mid where "mid = (lo + hi) div 2"
    have m: "lo \<le> mid" "mid < hi" "mid < length tks" using True less.prems by (auto simp: mid_def)
    have len: "length (separators tks) = length tks" by (simp add: separators_def)
    then have small: "mid mod 2 ^ 16 = mid" using m holds_few [OF holds] by simp
    obtain n where at: "cell_pointer p mid = Ok (ptr_at p mid)" "ptr_at p mid + 4 \<le> length (pg_data p)"
      "take 4 (drop (ptr_at p mid) (pg_data p)) = be32 (child_id tks t mid)"
      "decode_signed (drop (ptr_at p mid + 4) (pg_data p)) = Some (cell_key (separators tks ! mid), n)"
      using separator_at [OF holds m(3)] by blast
    have cmp: "mid < k \<longleftrightarrow> sint (cell_key (separators tks ! mid)) < sint r"
      using row_lt_below [OF sorted, of mid r] m(3) len by (simp add: k_def)
    show ?thesis
    proof (cases "mid < k")
      case True
      have "lookup_child p r (mid + 1) hi next = Ok (child_id tks t k)" using True m less.prems by (intro less.hyps) auto
      then show ?thesis using \<open>lo < hi\<close> True cmp at small by (subst lookup_child.simps) (simp add: mid_def [symmetric])
    next
      case False
      have "lookup_child p r lo mid (child_id tks t mid) = Ok (child_id tks t k)" using False m less.prems by (intro less.hyps) auto
      then show ?thesis using \<open>lo < hi\<close> False cmp at small by (subst lookup_child.simps) (simp add: mid_def [symmetric])
    qed
  qed
qed

lemma lookup_child_node:
  assumes "holds_cells p InteriorTable (separators tks)" "ranged lo hi (TNode i tks t)" "right_most_pointer p = root_id t"
  shows "lookup_child p r 0 (n_cells p) (right_most_pointer p) = Ok (root_id (subtree_for r tks t))"
proof -
  have "n_cells p = length tks" using leaf_page(4) [OF assms(1)] by (simp add: separators_def)
  moreover have "rank (row_lt r) (separators tks) \<le> length tks" using rank_le [of "row_lt r" "separators tks"] by (simp add: separators_def)
  ultimately show ?thesis using lookup_child_subtree [OF assms(1) conjunct1 [OF separators_sorted [OF assms(2)]], of 0 r "length tks" "root_id t" t] assms(3) child_id_rank [of tks t r]
    by (simp add: child_id_def)
qed

subsection \<open>Lookup\<close>

lemma subtree_stored:
  assumes "stored get (TNode i tks t)" "ranged lo hi (TNode i tks t)" "lo < sint r" "sint r \<le> hi"
  shows "stored get (subtree_for r tks t) \<and> root_id (subtree_for r tks t) \<noteq> 0"
proof -
  have "subtree_for r tks t \<noteq> NoChild" using subtree_ranged [OF assms(2-4)] by auto
  then show ?thesis using subtree_cases [of r tks t] assms(1) by auto
qed

lemma subtree_smaller: "size (subtree_for r tks t) < size (TNode i tks t)"
  by (induction tks) auto

definition answer :: "assemble \<Rightarrow> cell option \<Rightarrow> bytes option outcome" where
  "answer asm row = (case row of None \<Rightarrow> Ok None | Some c \<Rightarrow> bind_outcome (cell_payload asm c) (\<lambda>payload. Ok (Some payload)))"

lemma hint_bounds_holds:
  assumes "holds_cells p pt rs"
  shows "hint_bounds p = Ok ()"
proof -
  have "cell_pointer p i = Ok (ptr_at p i)" if "i < length rs" for i by (rule holds_cell_at [OF assms that])
  then show ?thesis using leaf_page(4) [OF assms] by (simp add: hint_bounds_def)
qed

lemma lookup_from_tree:
  assumes "stored get t" "ranged lo hi t" "lo < sint r" "sint r \<le> hi"
  shows "lookup_from get asm r (root_id t) = Some (answer asm (row_map (tree_rows t) r))"
  using assms
proof (induction t arbitrary: lo hi rule: measure_induct_rule [where f = size])
  case (less t)
  show ?case
  proof (cases t)
    case (TLeaf i rs)
    then obtain p where p: "get i = Ok p" "table_leaf p rs" using less.prems by auto
    then have "page_type_of p = Ok LeafTable" "hint_bounds p = Ok ()" using leaf_page(3) hint_bounds_holds by (auto simp: table_leaf_def)
    then show ?thesis using p TLeaf find_in_leaf_rows [OF p(2), of asm 0 r] by (subst lookup_from.simps) (simp add: answer_def)
  next
    case (TNode i tks u)
    then obtain p where p: "get i = Ok p" "holds_cells p InteriorTable (separators tks)" "right_most_pointer p = root_id u" using less.prems by auto
    have pt: "page_type_of p = Ok InteriorTable" using leaf_page(3) [OF p(2)] .
    let ?s = "subtree_for r tks u"
    have s: "stored get ?s" "root_id ?s \<noteq> 0" using subtree_stored [OF less.prems [unfolded TNode]] by simp_all
    obtain lo' hi' where "ranged lo' hi' ?s" "lo' < sint r" "sint r \<le> hi'" using subtree_ranged less.prems(2-4) TNode by blast
    then have "lookup_from get asm r (root_id ?s) = Some (answer asm (row_map (tree_rows ?s) r))"
      using less.IH [of ?s] s subtree_smaller TNode by auto
    then show ?thesis using p pt s TNode lookup_child_node [OF p(2) _ p(3), of lo hi i r] less.prems(2) row_map_subtree [of lo hi i tks u r]
      by (subst lookup_from.simps) (simp add: p(3))
  qed (use less.prems(2-4) in simp)
qed


text \<open>The other searches choose the same child.\<close>

lemma insert_child_node:
  assumes holds: "holds_cells p InteriorTable (separators tks)" and rg: "ranged lo hi (TNode i tks t)"
    and rm: "right_most_pointer p = root_id t" and nz: "root_id (subtree_for r tks t) \<noteq> 0"
  shows "insert_child p r = Some (Ok (root_id (subtree_for r tks t)))"
proof -
  let ?cs = "separators tks" let ?k = "rank (row_lt r) ?cs"
  have len: "length ?cs = length tks" by (simp add: separators_def)
  have n: "n_cells p = length tks" using leaf_page(4) [OF holds] len by simp
  have sorted: "sorted_rows ?cs" using separators_sorted [OF rg] by simp
  note cell = separator_reads [OF holds, of _ t]
  have probe: "insert_child_probe p r j = Ok (if j < ?k then GoRight else GoLeft)" if "j < length tks" for j
    using cell [OF that] row_lt_below [OF sorted, of j r] that len
    by (auto simp: insert_child_probe_def slice_def decode_table_interior_key_def add.commute)
  have "bsearch (insert_child_probe p r) 0 (length tks) = Some (Ok ?k)"
    using holds_few [OF holds] rank_le [of "row_lt r" ?cs] len by (intro bsearch_rank probe) auto
  moreover have "child_at p ?k dflt = Ok (root_id (subtree_for r tks t))" if "?k < length tks" for dflt
    using cell [OF that] child_id_rank [of tks t r] by (auto simp: child_at_def slice_def decode_table_interior_child_def)
  moreover have "root_id (subtree_for r tks t) = root_id t" if "\<not> ?k < length tks"
    using child_id_rank [of tks t r] that by (simp add: child_id_def)
  ultimately show ?thesis using n rm nz by (cases "?k < length tks") (simp_all add: insert_child_def)
qed

lemma insert_route_node:
  assumes "holds_cells p InteriorTable (separators tks)" "ranged lo hi (TNode i tks t)" "right_most_pointer p = root_id t" "root_id (subtree_for (cell_key c) tks t) \<noteq> 0"
  shows "\<exists>e. insert_route asm p InteriorTable c = Some (Ok (root_id (subtree_for (cell_key c) tks t), e))"
proof -
  have "n_cells p = length tks" using leaf_page(4) [OF assms(1)] by (simp add: separators_def)
  then have "\<exists>e. right_edge p InteriorTable child = Ok e" for child
    using separator_reads [OF assms(1), of "length tks - 1" t] by (auto simp: right_edge_def slice_def separator_child_def)
  then obtain e where "right_edge p InteriorTable (root_id (subtree_for (cell_key c) tks t)) = Ok e" by blast
  then show ?thesis using insert_child_node [OF assms] by (simp add: insert_route_def is_index_def)
qed

subsection \<open>Insertion\<close>

text \<open>A subtree replaced by another.\<close>

fun with_subtree :: "i64 \<Rightarrow> btree \<Rightarrow> (btree \<times> i64) list \<Rightarrow> btree \<Rightarrow> (btree \<times> i64) list \<times> btree" where
  "with_subtree r n [] t = ([], n)"
| "with_subtree r n ((s, k) # tks) t =
     (if sint r \<le> sint k then ((n, k) # tks, t) else ((s, k) # fst (with_subtree r n tks t), snd (with_subtree r n tks t)))"

definition graft :: "u32 \<Rightarrow> i64 \<Rightarrow> btree \<Rightarrow> (btree \<times> i64) list \<Rightarrow> btree \<Rightarrow> btree" where
  "graft i r n tks t = TNode i (fst (with_subtree r n tks t)) (snd (with_subtree r n tks t))"

definition revised :: "i64 \<Rightarrow> cell option \<Rightarrow> btree \<Rightarrow> btree \<Rightarrow> bool" where
  "revised r v t t' \<longleftrightarrow> root_id t' = root_id t \<and> tree_ids t' = tree_ids t \<and> row_map (tree_rows t') = (row_map (tree_rows t))(r := v)
     \<and> (\<forall>lo hi. lo < sint r \<and> sint r \<le> hi \<and> ranged lo hi t \<longrightarrow> ranged lo hi t')"

lemma separators_graft: "root_id n = root_id (subtree_for r tks t) \<Longrightarrow>
    separators (fst (with_subtree r n tks t)) = separators tks \<and> root_id (snd (with_subtree r n tks t)) = root_id t"
  by (induction tks) (auto simp: separators_def)

lemma ids_graft: "tree_ids n = tree_ids (subtree_for r tks t) \<Longrightarrow> tree_ids (graft i r n tks t) = tree_ids (TNode i tks t)"
  by (induction tks) (auto simp: graft_def)

lemma ranged_graft:
  "ranged lo hi (TNode i tks t) \<Longrightarrow> lo < sint r \<Longrightarrow> sint r \<le> hi \<Longrightarrow>
   (\<And>lo hi. lo < sint r \<Longrightarrow> sint r \<le> hi \<Longrightarrow> ranged lo hi (subtree_for r tks t) \<Longrightarrow> ranged lo hi n) \<Longrightarrow> ranged lo hi (graft i r n tks t)"
  by (induction tks arbitrary: lo) (auto simp: graft_def split: if_splits)

lemma subtree_graft:
  "subtree_for x (fst (with_subtree r n tks t)) (snd (with_subtree r n tks t)) = subtree_for x tks t
   \<or> subtree_for x (fst (with_subtree r n tks t)) (snd (with_subtree r n tks t)) = n \<and> subtree_for x tks t = subtree_for r tks t"
proof (induction tks)
  case (Cons sk tks)
  obtain s k where sk: "sk = (s, k)" by (cases sk)
  show ?case using Cons.IH by (cases "sint r \<le> sint k"; cases "sint x \<le> sint k") (simp_all add: sk)
qed simp

lemma graft_right: "snd (with_subtree r n tks t) = t \<or> snd (with_subtree r n tks t) = n"
  by (induction tks) auto

lemma subtree_graft_self: "subtree_for r (fst (with_subtree r n tks t)) (snd (with_subtree r n tks t)) = n"
  by (induction tks) auto

lemma revised_graft:
  assumes rg: "ranged lo hi (TNode i tks t)" "lo < sint r" "sint r \<le> hi" and n: "revised r v (subtree_for r tks t) n"
  shows "revised r v (TNode i tks t) (graft i r n tks t)"
proof -
  have range: "ranged lo' hi' (graft i r n tks t)" if "ranged lo' hi' (TNode i tks t)" "lo' < sint r" "sint r \<le> hi'" for lo' hi'
    using ranged_graft [OF that] n by (simp add: revised_def)
  have map: "row_map (tree_rows n) = (row_map (tree_rows (subtree_for r tks t)))(r := v)" using n by (simp add: revised_def)
  have "row_map (tree_rows (graft i r n tks t)) x = ((row_map (tree_rows (TNode i tks t)))(r := v)) x" for x
  proof -
    let ?tks = "fst (with_subtree r n tks t)" and ?t = "snd (with_subtree r n tks t)"
    have "row_map (tree_rows (graft i r n tks t)) x = row_map (tree_rows (subtree_for x ?tks ?t)) x"
      using row_map_subtree [of lo hi i ?tks ?t x] range [OF rg] by (simp only: graft_def)
    moreover have "row_map (tree_rows (TNode i tks t)) x = row_map (tree_rows (subtree_for x tks t)) x" by (rule row_map_subtree [OF rg(1)])
    moreover have "row_map (tree_rows (subtree_for x ?tks ?t)) x = row_map (tree_rows (subtree_for x tks t)) x" if "x \<noteq> r"
      using subtree_graft [of x r n tks t] that by (auto simp: map)
    ultimately show ?thesis using subtree_graft_self [of r n tks t] by (simp add: map)
  qed
  then have "row_map (tree_rows (graft i r n tks t)) = (row_map (tree_rows (TNode i tks t)))(r := v)" by (rule ext)
  then show ?thesis using n range ids_graft [of n r tks t i] unfolding revised_def by (simp add: graft_def)
qed

text \<open>A write to the pages of one subtree leaves the others stored.\<close>

lemma stored_cong: "(\<And>i. i \<in> set (tree_ids t) \<Longrightarrow> get' i = get i) \<Longrightarrow> stored get' t = stored get t"
  by (induction get t rule: stored.induct) fastforce+

definition below_ids :: "(btree \<times> i64) list \<Rightarrow> btree \<Rightarrow> u32 list" where
  "below_ids tks t = concat (map (\<lambda>(s, k). tree_ids s) tks) @ tree_ids t"

lemma below_ids_simps [simp]: "below_ids [] t = tree_ids t" "below_ids ((s, k) # tks) t = tree_ids s @ below_ids tks t"
  by (simp_all add: below_ids_def)

lemma tree_ids_below: "tree_ids (TNode i tks t) = i # below_ids tks t"
  by (simp add: below_ids_def)

lemma subtree_ids: "set (tree_ids (subtree_for r tks t)) \<subseteq> set (below_ids tks t)"
proof (induction tks)
  case (Cons sk tks)
  then show ?case by (cases sk) auto
qed simp

lemma distinct_subtree: "distinct (below_ids tks t) \<Longrightarrow> distinct (tree_ids (subtree_for r tks t))"
proof (induction tks)
  case (Cons sk tks)
  then show ?case by (cases sk) auto
qed simp

lemma child_ids: "sk \<in> set tks \<Longrightarrow> set (tree_ids (fst sk)) \<subseteq> set (below_ids tks t)"
proof (induction tks)
  case (Cons x tks)
  then show ?case by (cases x) auto
qed simp

lemma stored_children_cong:
  assumes "\<And>j. j \<in> set (below_ids tks t) \<Longrightarrow> get' j = get j"
  shows "(\<forall>sk\<in>set tks. stored get' (fst sk)) = (\<forall>sk\<in>set tks. stored get (fst sk))" "stored get' t = stored get t"
proof -
  have "get' j = get j" if "sk \<in> set tks" "j \<in> set (tree_ids (fst sk))" for sk j
    using that assms [of j] child_ids [of sk tks t] by blast
  then show "(\<forall>sk\<in>set tks. stored get' (fst sk)) = (\<forall>sk\<in>set tks. stored get (fst sk))" using stored_cong by metis
  show "stored get' t = stored get t" by (rule stored_cong) (simp add: assms below_ids_def)
qed

lemma stored_graft:
  assumes "\<forall>sk\<in>set tks. root_id (fst sk) \<noteq> 0" "\<forall>sk\<in>set tks. stored get (fst sk)" "stored get t"
    "stored get' n" "root_id n = root_id (subtree_for r tks t)" "root_id n \<noteq> 0" "distinct (below_ids tks t)"
    "\<And>j. j \<notin> set (tree_ids (subtree_for r tks t)) \<Longrightarrow> get' j = get j"
  shows "(\<forall>sk\<in>set (fst (with_subtree r n tks t)). root_id (fst sk) \<noteq> 0 \<and> stored get' (fst sk)) \<and> stored get' (snd (with_subtree r n tks t))"
  using assms
proof (induction tks)
  case (Cons sk tks)
  obtain s k where sk: "sk = (s, k)" by (cases sk)
  have apart: "set (tree_ids s) \<inter> set (below_ids tks t) = {}" "distinct (below_ids tks t)" using Cons.prems(7) sk by auto
  show ?case
  proof (cases "sint r \<le> sint k")
    case True
    then have "get' j = get j" if "j \<in> set (below_ids tks t)" for j using Cons.prems(8) [of j] that apart sk by auto
    then show ?thesis using stored_children_cong [of tks t get' get] Cons.prems(1-4,6) True sk by simp
  next
    case False
    have "get' j = get j" if "j \<in> set (tree_ids s)" for j
      using Cons.prems(8) [of j] that apart(1) subtree_ids [of r tks t] False sk by auto
    then have "stored get' s" using stored_cong [of s get' get] Cons.prems(2) sk by simp
    moreover have "(\<forall>sk\<in>set (fst (with_subtree r n tks t)). root_id (fst sk) \<noteq> 0 \<and> stored get' (fst sk)) \<and> stored get' (snd (with_subtree r n tks t))"
      using Cons.prems False sk apart(2) by (intro Cons.IH) auto
    ultimately show ?thesis using False sk Cons.prems(1) by simp
  qed
qed simp

end
