(* ===== verification/Btree_Store.thy ===== *)
theory Btree_Store
  imports Btree_Tree
begin

text \<open>
  Insertions and deletions in a table tree. Below the balancing, an insertion writes one leaf and a
  deletion one leaf and the chain of its row; the trees they leave store the map with that one row
  changed. A tree is then a map for any sequence of insertions and lookups that fills no leaf.
\<close>

subsection \<open>Insertion\<close>

definition pages_sized :: "nat \<Rightarrow> page_getter \<Rightarrow> btree \<Rightarrow> bool" where
  "pages_sized psz get t \<longleftrightarrow> (\<forall>i\<in>set (tree_ids t). \<forall>p. get i = Ok p \<longrightarrow> length (pg_data p) = psz)"

lemma pages_sized_subtree: "pages_sized psz get (TNode i tks t) \<Longrightarrow> pages_sized psz get (subtree_for r tks t)"
  using subtree_ids [of r tks t] by (auto simp: pages_sized_def tree_ids_below simp del: tree_ids.simps)

text \<open>A write to one page of a tree, with the tree it stores.\<close>

definition rewritten :: "nat \<Rightarrow> i64 \<Rightarrow> cell option \<Rightarrow> page_getter \<Rightarrow> btree \<Rightarrow> page_getter \<Rightarrow> btree \<Rightarrow> bool" where
  "rewritten psz r v get t get' t' \<longleftrightarrow> stored get' t' \<and> revised r v t t' \<and> pages_sized psz get' t
     \<and> (\<forall>j. j \<notin> set (tree_ids t) \<longrightarrow> get' j = get j)"

lemma rewritten_leaf:
  assumes "table_leaf q rs'" "length (pg_data q) = psz" "row_map rs' = (row_map rs)(r := v)"
  shows "rewritten psz r v get (TLeaf i rs) (get(i := Ok q)) (TLeaf i rs')"
proof -
  have "cell_key c = r \<or> cell_key c \<in> cell_key ` set rs" if "c \<in> set rs'" for c
    using that row_map_None [of rs' "cell_key c"] row_map_None [of rs "cell_key c"] assms(3) by (cases "cell_key c = r") auto
  then show ?thesis using assms by (fastforce simp: rewritten_def revised_def pages_sized_def table_leaf_def)
qed

lemma rewritten_node:
  assumes st: "stored get (TNode i tks t)" and rg: "ranged lo hi (TNode i tks t)" "lo < sint r" "sint r \<le> hi"
    and d: "distinct (tree_ids (TNode i tks t))" and sz: "pages_sized psz get (TNode i tks t)"
    and n: "rewritten psz r v get (subtree_for r tks t) get' n"
  shows "rewritten psz r v get (TNode i tks t) get' (graft i r n tks t)"
proof -
  let ?s = "subtree_for r tks t"
  have n': "stored get' n" "revised r v ?s n" "root_id n = root_id ?s" "pages_sized psz get' ?s" "\<And>j. j \<notin> set (tree_ids ?s) \<Longrightarrow> get' j = get j"
    using n by (auto simp: rewritten_def revised_def)
  have ids: "i \<notin> set (below_ids tks t)" "distinct (below_ids tks t)" using d by (simp_all add: tree_ids_below del: tree_ids.simps)
  have out: "get' j = get j" if "j \<notin> set (below_ids tks t)" for j using n'(5) subtree_ids [of r tks t] that by blast
  note children = stored_graft [of tks get t get' n r, OF _ _ _ n'(1,3) _ ids(2) n'(5)]
  have "stored get' (graft i r n tks t)"
    using st children separators_graft [OF n'(3)] subtree_stored [OF st rg] n'(3) out [OF ids(1)] graft_right [of r n tks t] unfolding graft_def by auto
  moreover have "pages_sized psz get' (TNode i tks t)"
    using sz n'(4,5) unfolding pages_sized_def by metis
  moreover have "get' j = get j" if "j \<notin> set (tree_ids (TNode i tks t))" for j
    using out [of j] that by (simp add: tree_ids_below del: tree_ids.simps)
  ultimately show ?thesis using revised_graft [OF rg n'(2)] unfolding rewritten_def by blast
qed

lemma insert_from_leaf:
  assumes "stored get (TLeaf i rs)" "pages_sized psz get (TLeaf i rs)" "fits_page psz LeafTable c"
  shows "row_map rs (cell_key c) = Some c' \<Longrightarrow> insert_from get asm True c parent off i = Some (Ok Taken)"
    and "row_map rs (cell_key c) = None \<Longrightarrow>
      (\<exists>get' t'. insert_from get asm True c parent off i = Some (Ok (Placed get')) \<and> rewritten psz (cell_key c) (Some c) get (TLeaf i rs) get' t')
      \<or> (\<exists>p q. insert_from get asm True c parent off i = Some (Ok (Unbalanced (get(i := Ok q)) i parent off)) \<and> get i = Ok p \<and> leaf_cells q = leaf_cells p)"
proof -
  obtain p where p: "get i = Ok p" "table_leaf p rs" "length (pg_data p) = psz" using assms(1,2) by (auto simp: pages_sized_def)
  have pt: "page_type_of p = Ok LeafTable" using leaf_page(3) p(2) by (auto simp: table_leaf_def)
  note rows = insert_into_leaf_rows [OF p(2), of c, unfolded p(3), OF assms(3)]
  note step = insert_from.simps [of get asm True c parent off i]
  show "row_map rs (cell_key c) = Some c' \<Longrightarrow> insert_from get asm True c parent off i = Some (Ok Taken)"
    using rows(1) step p(1) pt by (simp add: is_leaf_def)
  assume None: "row_map rs (cell_key c) = None"
  from rows(2) [OF None, of asm] show "(\<exists>get' t'. insert_from get asm True c parent off i = Some (Ok (Placed get')) \<and> rewritten psz (cell_key c) (Some c) get (TLeaf i rs) get' t')
      \<or> (\<exists>p q. insert_from get asm True c parent off i = Some (Ok (Unbalanced (get(i := Ok q)) i parent off)) \<and> get i = Ok p \<and> leaf_cells q = leaf_cells p)"
  proof
    assume "\<exists>q. insert_into_leaf asm True p c = Some (Ok (Done q)) \<and> table_leaf q (insert_row c rs) \<and> length (pg_data q) = psz"
    then obtain q where q: "insert_into_leaf asm True p c = Some (Ok (Done q))" "table_leaf q (insert_row c rs)" "length (pg_data q) = psz" by blast
    have "rewritten psz (cell_key c) (Some c) get (TLeaf i rs) (get(i := Ok q)) (TLeaf i (insert_row c rs))"
      using row_map_insert_row [OF None] q(2,3) by (intro rewritten_leaf)
    moreover have "insert_from get asm True c parent off i = Some (Ok (Placed (get(i := Ok q))))" using step p(1) pt q(1) by (simp add: is_leaf_def)
    ultimately show ?thesis by blast
  next
    assume "\<exists>q. insert_into_leaf asm True p c = Some (Ok (Full q)) \<and> holds_cells q LeafTable rs \<and> length (pg_data q) = psz"
    then obtain q where q: "insert_into_leaf asm True p c = Some (Ok (Full q))" "holds_cells q LeafTable rs" by blast
    then have "leaf_cells q = leaf_cells p" using leaf_cells_holds [of _ LeafTable rs] p(2) by (simp add: table_leaf_def is_leaf_def)
    moreover have "insert_from get asm True c parent off i = Some (Ok (Unbalanced (get(i := Ok q)) i parent off))"
      using step p(1) pt q(1) by (simp add: is_leaf_def)
    ultimately show ?thesis using p(1) by blast
  qed
qed

lemma insert_from_tree:
  assumes "stored get t" "ranged lo hi t" "lo < sint (cell_key c)" "sint (cell_key c) \<le> hi" "distinct (tree_ids t)" "pages_sized psz get t" "fits_page psz LeafTable c"
  shows "case row_map (tree_rows t) (cell_key c) of
      Some c' \<Rightarrow> insert_from get asm True c parent off (root_id t) = Some (Ok Taken)
    | None \<Rightarrow>
        (\<exists>get' t'. insert_from get asm True c parent off (root_id t) = Some (Ok (Placed get')) \<and> rewritten psz (cell_key c) (Some c) get t get' t')
        \<or> (\<exists>leaf p q parent' off'. insert_from get asm True c parent off (root_id t) = Some (Ok (Unbalanced (get(leaf := Ok q)) leaf parent' off'))
              \<and> leaf \<in> set (tree_ids t) \<and> get leaf = Ok p \<and> leaf_cells q = leaf_cells p)"
  using assms(1-6)
proof (induction t arbitrary: lo hi parent off rule: measure_induct_rule [where f = size])
  case (less t)
  show ?case
  proof (cases t)
    case (TLeaf i rs)
    note leaf = insert_from_leaf [OF less.prems(1,6) [unfolded TLeaf] assms(7)]
    show ?thesis
    proof (cases "row_map rs (cell_key c)")
      case None
      then show ?thesis using leaf(2) [OF None, of asm parent off] unfolding TLeaf by (simp del: fun_upd_apply) blast
    next
      case (Some c')
      then show ?thesis using leaf(1) [OF Some] TLeaf by simp
    qed
  next
    case (TNode i tks u)
    let ?s = "subtree_for (cell_key c) tks u"
    obtain p where p: "get i = Ok p" "holds_cells p InteriorTable (separators tks)" "right_most_pointer p = root_id u"
      using less.prems(1) TNode by auto
    have st: "stored get ?s" "root_id ?s \<noteq> 0" using subtree_stored [OF less.prems(1-4) [unfolded TNode]] by simp_all
    obtain lo' hi' where rg: "ranged lo' hi' ?s" "lo' < sint (cell_key c)" "sint (cell_key c) \<le> hi'"
      using subtree_ranged less.prems(2-4) TNode by blast
    obtain e where e: "insert_route asm p InteriorTable c = Some (Ok (root_id ?s, e))"
      using insert_route_node [OF p(2) _ p(3) st(2)] less.prems(2) TNode by blast
    have step: "insert_from get asm True c parent off (root_id t) = insert_from get asm True c i (off \<or> \<not> e) (root_id ?s)"
      using insert_from.simps [of get asm True c parent off i] p(1) leaf_page(3) [OF p(2)] e TNode by (simp add: is_leaf_def)
    have ids: "distinct (tree_ids ?s)" "set (tree_ids ?s) \<subseteq> set (tree_ids t)"
      using distinct_subtree [of tks u] subtree_ids [of "cell_key c" tks u] less.prems(5) TNode by (auto simp: tree_ids_below simp del: tree_ids.simps)
    have map: "row_map (tree_rows t) (cell_key c) = row_map (tree_rows ?s) (cell_key c)" using row_map_subtree less.prems(2) TNode by metis
    have up: "\<exists>t'. rewritten psz (cell_key c) (Some c) get t get' t'" if "rewritten psz (cell_key c) (Some c) get ?s get' n" for get' n
      using rewritten_node [OF less.prems(1-6) [unfolded TNode] that] TNode by blast
    have "case row_map (tree_rows ?s) (cell_key c) of
        Some c' \<Rightarrow> insert_from get asm True c i (off \<or> \<not> e) (root_id ?s) = Some (Ok Taken)
      | None \<Rightarrow>
          (\<exists>get' t'. insert_from get asm True c i (off \<or> \<not> e) (root_id ?s) = Some (Ok (Placed get')) \<and> rewritten psz (cell_key c) (Some c) get ?s get' t')
          \<or> (\<exists>leaf p q parent' off'. insert_from get asm True c i (off \<or> \<not> e) (root_id ?s) = Some (Ok (Unbalanced (get(leaf := Ok q)) leaf parent' off'))
                \<and> leaf \<in> set (tree_ids ?s) \<and> get leaf = Ok p \<and> leaf_cells q = leaf_cells p)"
      using less.prems(6) TNode st(1) pages_sized_subtree subtree_smaller rg ids(1) by (intro less.IH) blast+
    then show ?thesis using up ids(2) unfolding step map by (cases "row_map (tree_rows ?s) (cell_key c)") (simp, blast, simp)
  qed (use less.prems(2-4) in simp)
qed

subsection \<open>Deletion\<close>

lemma delete_child_node:
  assumes holds: "holds_cells p InteriorTable (separators tks)" and rg: "ranged lo hi (TNode i tks t)" and rm: "right_most_pointer p = root_id t"
  shows "delete_child p InteriorTable r = Some (Ok (root_id (subtree_for r tks t)))"
proof -
  let ?cs = "separators tks" let ?k = "rank (row_lt r) ?cs"
  have len: "length ?cs = length tks" by (simp add: separators_def)
  have n: "n_cells p = length tks" using leaf_page(4) [OF holds] len by simp
  have sorted: "sorted_rows ?cs" using separators_sorted [OF rg] by simp
  note cell = separator_reads [OF holds, of _ t]
  have probe: "delete_child_probe p InteriorTable r j = Ok (if j < ?k then GoRight else GoLeft)" if "j < length tks" for j
    using cell [OF that] row_lt_below [OF sorted, of j r] that len
    by (auto simp: delete_child_probe_def cell_slice_checked_def separator_rowid_def decode_table_interior_key_def add.commute)
  have "bsearch (delete_child_probe p InteriorTable r) 0 (length tks) = Some (Ok ?k)"
    using holds_few [OF holds] rank_le [of "row_lt r" ?cs] len by (intro bsearch_rank probe) auto
  moreover have "root_id (subtree_for r tks t) = root_id t" if "\<not> ?k < length tks"
    using child_id_rank [of tks t r] that by (simp add: child_id_def)
  ultimately show ?thesis using n rm cell [of ?k] child_id_rank [of tks t r]
    by (cases "?k < length tks") (auto simp: delete_child_def cell_slice_checked_def separator_child_def decode_table_interior_child_def)
qed

text \<open>The pages a deletion hands to the balancing: each parent and child of the path, from the leaf up.\<close>

function path_edges :: "i64 \<Rightarrow> btree \<Rightarrow> (u32 \<times> u32) list" where
  "path_edges r (TLeaf i rs) = []"
| "path_edges r NoChild = []"
| "path_edges r (TNode i tks t) = path_edges r (subtree_for r tks t) @ [(i, root_id (subtree_for r tks t))]"
  by pat_completeness auto
termination
  by (relation "measure (size \<circ> snd)") (simp_all add: subtree_smaller del: btree.size)

definition rebalance_path :: "('s pages \<Rightarrow> u32 \<Rightarrow> u32 \<Rightarrow> 's pages outcome) \<Rightarrow> 's pages \<Rightarrow> (u32 \<times> u32) list \<Rightarrow> 's pages outcome" where
  "rebalance_path rebalance = fold_outcome (\<lambda>st e. rebalance st (fst e) (snd e))"

lemma delete_from_leaf_page:
  assumes "stored get (TLeaf i rs)" "pages_sized psz get (TLeaf i rs)"
  shows "row_map rs r = None \<Longrightarrow> delete_from free_chain rebalance (get, s) r i = Some (Ok ((get, s), False))"
    and "row_map rs r = Some c \<Longrightarrow> \<exists>q rs'. table_leaf q rs' \<and> row_map rs' = (row_map rs)(r := None) \<and> length (pg_data q) = psz
      \<and> delete_from free_chain rebalance (get, s) r i = Some (bind_outcome (free_of free_chain (get, s) c) (\<lambda>(get', s'). Ok ((get'(i := Ok q), s'), True)))"
proof -
  obtain p where p: "get i = Ok p" "table_leaf p rs" "length (pg_data p) = psz" using assms(1,2) by (auto simp: pages_sized_def)
  have pt: "page_type_of p = Ok LeafTable" using leaf_page(3) p(2) by (auto simp: table_leaf_def)
  note rows = delete_from_leaf_rows [OF p(2), of r]
  note step = delete_from.simps [of free_chain rebalance "(get, s)" r i]
  show "row_map rs r = None \<Longrightarrow> delete_from free_chain rebalance (get, s) r i = Some (Ok ((get, s), False))"
    using rows(1) [of free_chain "(get, s)"] step p(1) pt by (simp add: is_leaf_def)
  assume "row_map rs r = Some c"
  from rows(2) [OF this, of free_chain "(get, s)"] obtain q rs' where q: "table_leaf q rs'" "row_map rs' = (row_map rs)(r := None)" "length (pg_data q) = psz"
    "delete_from_leaf free_chain (get, s) p r = Some (bind_outcome (free_of free_chain (get, s) c) (\<lambda>s'. Ok (Some (q, s'))))" using p(3) by auto
  have "delete_from free_chain rebalance (get, s) r i = Some (bind_outcome (free_of free_chain (get, s) c) (\<lambda>(get', s'). Ok ((get'(i := Ok q), s'), True)))"
    using step p(1) pt q(4) by (cases "free_of free_chain (get, s) c") (auto simp: is_leaf_def)
  then show "\<exists>q rs'. table_leaf q rs' \<and> row_map rs' = (row_map rs)(r := None) \<and> length (pg_data q) = psz
      \<and> delete_from free_chain rebalance (get, s) r i = Some (bind_outcome (free_of free_chain (get, s) c) (\<lambda>(get', s'). Ok ((get'(i := Ok q), s'), True)))"
    using q(1-3) by blast
qed

lemma delete_from_node:
  assumes st: "stored get (TNode i tks t)" and rg: "ranged lo hi (TNode i tks t)" "lo < sint r" "sint r \<le> hi"
  shows "delete_from free_chain rebalance (get, s) r i =
    Option.bind (delete_from free_chain rebalance (get, s) r (root_id (subtree_for r tks t))) (\<lambda>res.
      Some (bind_outcome res (\<lambda>(st', deleted).
        if deleted then bind_outcome (rebalance st' i (root_id (subtree_for r tks t))) (\<lambda>st''. Ok (st'', True)) else Ok (st', False))))"
proof -
  obtain p where p: "get i = Ok p" "holds_cells p InteriorTable (separators tks)" "right_most_pointer p = root_id t" using st by auto
  show ?thesis using delete_from.simps [of free_chain rebalance "(get, s)" r i] p(1) leaf_page(3) [OF p(2)]
      delete_child_node [OF p(2) rg(1) p(3), of r] subtree_stored [OF st rg] by (simp add: is_leaf_def)
qed

lemma delete_from_absent:
  assumes "stored get t" "ranged lo hi t" "lo < sint r" "sint r \<le> hi" "pages_sized psz get t" "row_map (tree_rows t) r = None"
  shows "delete_from free_chain rebalance (get, s) r (root_id t) = Some (Ok ((get, s), False))"
  using assms
proof (induction t arbitrary: lo hi rule: measure_induct_rule [where f = size])
  case (less t)
  show ?case
  proof (cases t)
    case (TLeaf i rs)
    then show ?thesis using delete_from_leaf_page(1) [OF less.prems(1,5) [unfolded TLeaf]] less.prems(6) by simp
  next
    case (TNode i tks u)
    let ?s = "subtree_for r tks u"
    note node = less.prems(1-4) [unfolded TNode]
    obtain lo' hi' where rg: "ranged lo' hi' ?s" "lo' < sint r" "sint r \<le> hi'" using subtree_ranged node(2-4) by blast
    have map: "row_map (tree_rows ?s) r = None" using row_map_subtree less.prems(2,6) TNode by metis
    have "delete_from free_chain rebalance (get, s) r (root_id ?s) = Some (Ok ((get, s), False))"
      using less.IH [OF _ _ rg _ map] subtree_smaller subtree_stored [OF node] less.prems(5) pages_sized_subtree TNode by blast
    then show ?thesis using delete_from_node [OF node, of free_chain rebalance s] TNode by simp
  qed (use less.prems(2-4) in simp)
qed

lemma delete_from_present:
  assumes "stored get t" "ranged lo hi t" "lo < sint r" "sint r \<le> hi" "distinct (tree_ids t)" "pages_sized psz get t" "row_map (tree_rows t) r = Some c"
  shows "\<exists>leaf q. leaf \<in> set (tree_ids t)
    \<and> (\<forall>get1. (\<forall>j\<in>set (tree_ids t). get1 j = get j) \<longrightarrow> (\<exists>t'. rewritten psz r None get1 t (get1(leaf := Ok q)) t'))
    \<and> delete_from free_chain rebalance (get, s) r (root_id t) = Some (bind_outcome (free_of free_chain (get, s) c) (\<lambda>(get1, s1).
        bind_outcome (rebalance_path rebalance (get1(leaf := Ok q), s1) (path_edges r t)) (\<lambda>st. Ok (st, True))))"
  using assms
proof (induction t arbitrary: lo hi rule: measure_induct_rule [where f = size])
  case (less t)
  show ?case
  proof (cases t)
    case (TLeaf i rs)
    obtain q rs' where q: "table_leaf q rs'" "row_map rs' = (row_map rs)(r := None)" "length (pg_data q) = psz"
      "delete_from free_chain rebalance (get, s) r i = Some (bind_outcome (free_of free_chain (get, s) c) (\<lambda>(get', s'). Ok ((get'(i := Ok q), s'), True)))"
      using delete_from_leaf_page(2) [OF less.prems(1,6) [unfolded TLeaf], of r c free_chain rebalance s] less.prems(7) TLeaf by auto
    have "rewritten psz r None get1 t (get1(i := Ok q)) (TLeaf i rs')" for get1
      unfolding TLeaf using q(1-3) by (intro rewritten_leaf)
    then have "\<exists>t'. rewritten psz r None get1 t (get1(i := Ok q)) t'" for get1 by blast
    moreover have "path_edges r t = []" "root_id t = i" "i \<in> set (tree_ids t)" using TLeaf by simp_all
    ultimately show ?thesis using q(4) by (intro exI [of _ i] exI [of _ q]) (simp add: rebalance_path_def del: fun_upd_apply)
  next
    case (TNode i tks u)
    let ?s = "subtree_for r tks u"
    note node = less.prems(1-6) [unfolded TNode]
    obtain lo' hi' where rg: "ranged lo' hi' ?s" "lo' < sint r" "sint r \<le> hi'" using subtree_ranged node(2-4) by blast
    have ids: "distinct (tree_ids ?s)" "set (tree_ids ?s) \<subseteq> set (tree_ids t)"
      using distinct_subtree [of tks u] subtree_ids [of r tks u] node(5) TNode by (auto simp: tree_ids_below simp del: tree_ids.simps)
    have map: "row_map (tree_rows ?s) r = Some c" using row_map_subtree less.prems(2,7) TNode by metis
    obtain leaf q where q: "leaf \<in> set (tree_ids ?s)"
      "\<And>get1. \<forall>j\<in>set (tree_ids ?s). get1 j = get j \<Longrightarrow> \<exists>t'. rewritten psz r None get1 ?s (get1(leaf := Ok q)) t'"
      "delete_from free_chain rebalance (get, s) r (root_id ?s) = Some (bind_outcome (free_of free_chain (get, s) c) (\<lambda>(get1, s1).
        bind_outcome (rebalance_path rebalance (get1(leaf := Ok q), s1) (path_edges r ?s)) (\<lambda>st. Ok (st, True))))"
      using less.IH [OF _ _ rg ids(1) _ map] subtree_smaller subtree_stored [OF node(1-4)] node(6) pages_sized_subtree TNode by blast
    have "\<exists>t'. rewritten psz r None get1 t (get1(leaf := Ok q)) t'" if agree: "\<forall>j\<in>set (tree_ids t). get1 j = get j" for get1
    proof -
      obtain n where n: "rewritten psz r None get1 ?s (get1(leaf := Ok q)) n" using q(2) agree ids(2) by blast
      have "stored get1 (TNode i tks u)" using stored_cong [of t get1 get] agree less.prems(1) TNode by simp
      moreover have "pages_sized psz get1 (TNode i tks u)" using node(6) agree TNode by (simp add: pages_sized_def)
      ultimately show ?thesis using rewritten_node [OF _ node(2-5) _ n] TNode by blast
    qed
    moreover have "delete_from free_chain rebalance (get, s) r (root_id t) = Some (bind_outcome (free_of free_chain (get, s) c) (\<lambda>(get1, s1).
        bind_outcome (rebalance_path rebalance (get1(leaf := Ok q), s1) (path_edges r t)) (\<lambda>st. Ok (st, True))))"
      using delete_from_node [OF node(1-4), of free_chain rebalance s] q(3) TNode
      by (simp add: rebalance_path_def fold_outcome_append bind_outcome_assoc case_prod_unfold)
    ultimately show ?thesis using q(1) ids(2) by blast
  qed (use less.prems(2-4) in simp)
qed

subsection \<open>A tree is a map\<close>

definition table_tree :: "nat \<Rightarrow> page_getter \<Rightarrow> btree \<Rightarrow> bool" where
  "table_tree psz get t \<longleftrightarrow> stored get t \<and> ranged (- (2 ^ 63) - 1) (2 ^ 63 - 1) t \<and> distinct (tree_ids t) \<and> pages_sized psz get t"

lemma i64_range: "- (2 ^ 63) - 1 < sint (r :: i64)" "sint (r :: i64) \<le> 2 ^ 63 - 1"
  using sint_ge [of r] sint_lt [of r] by simp_all

lemma table_tree_rewritten:
  assumes "table_tree psz get t" "rewritten psz r v get1 t get' t'"
  shows "table_tree psz get' t'" "root_id t' = root_id t" "row_map (tree_rows t') = (row_map (tree_rows t))(r := v)"
  using assms i64_range [of r] by (auto simp: table_tree_def rewritten_def revised_def pages_sized_def)

datatype tree_op = Store cell | Find i64

fun as_leaf_op :: "tree_op \<Rightarrow> leaf_op" where
  "as_leaf_op (Store c) = Put c"
| "as_leaf_op (Find r) = Get r"

definition tree_exec :: "assemble \<Rightarrow> u32 \<Rightarrow> page_getter \<Rightarrow> tree_op \<Rightarrow> page_getter \<times> leaf_answer" where
  "tree_exec asm root get op =
     (case op of
        Store c \<Rightarrow>
          (case insert_from get asm True c 0 False root of
             Some (Ok (Placed get')) \<Rightarrow> (get', Stored)
           | Some (Ok Taken) \<Rightarrow> (get, Exists)
           | Some (Ok (Unbalanced get' _ _ _)) \<Rightarrow> (get', NoRoom)
           | Some (Err e) \<Rightarrow> (get, Failed e)
           | _ \<Rightarrow> (get, Crashed))
      | Find r \<Rightarrow>
          (case lookup_table get asm None root r of
             Some (Ok None) \<Rightarrow> (get, Absent)
           | Some (Ok (Some payload)) \<Rightarrow> (get, Row payload)
           | Some (Err e) \<Rightarrow> (get, Failed e)
           | _ \<Rightarrow> (get, Crashed)))"

definition tree_step :: "assemble \<Rightarrow> (i64 \<rightharpoonup> cell) \<Rightarrow> tree_op \<Rightarrow> leaf_answer \<Rightarrow> (i64 \<rightharpoonup> cell) option" where
  "tree_step asm m op a = map_option fst (row_step asm (\<lambda>s _. Ok s) (m, ()) (as_leaf_op op) a)"

definition tree_rel :: "nat \<Rightarrow> u32 \<Rightarrow> page_getter \<Rightarrow> (i64 \<rightharpoonup> cell) \<Rightarrow> bool" where
  "tree_rel psz root get m \<longleftrightarrow> (\<exists>t. table_tree psz get t \<and> root_id t = root \<and> m = row_map (tree_rows t))"

text \<open>After an insertion that found no room, only the layout of one leaf has changed.\<close>

definition tree_final :: "nat \<Rightarrow> u32 \<Rightarrow> page_getter \<Rightarrow> (i64 \<rightharpoonup> cell) \<Rightarrow> bool" where
  "tree_final psz root get m \<longleftrightarrow> tree_rel psz root get m
     \<or> (\<exists>get0 leaf p q. tree_rel psz root get0 m \<and> get = get0(leaf := Ok q) \<and> get0 leaf = Ok p \<and> leaf_cells q = leaf_cells p)"

lemma tree_simulates:
  assumes "tree_rel psz root get m" "legal_op psz (as_leaf_op op)"
  shows "\<exists>get' a m'. tree_exec asm root get op = (get', a) \<and> tree_step asm m op a = Some m'
    \<and> (if a = NoRoom then tree_final psz root get' m' else tree_rel psz root get' m')"
proof -
  obtain t where t: "table_tree psz get t" "root_id t = root" "m = row_map (tree_rows t)" using assms(1) by (auto simp: tree_rel_def)
  then have tt: "stored get t" "ranged (- (2 ^ 63) - 1) (2 ^ 63 - 1) t" "distinct (tree_ids t)" "pages_sized psz get t" by (simp_all add: table_tree_def)
  show ?thesis
  proof (cases op)
    case (Store c)
    have fits: "fits_page psz LeafTable c" using assms(2) Store by (simp add: legal_op_def fits_page_def)
    note ins = insert_from_tree [OF tt(1,2) i64_range tt(3,4) fits, of asm 0 False, unfolded t(2)]
    show ?thesis
    proof (cases "m (cell_key c)")
      case None
      then consider get' t' where "insert_from get asm True c 0 False root = Some (Ok (Placed get'))" "rewritten psz (cell_key c) (Some c) get t get' t'"
        | leaf p q parent' off' where "insert_from get asm True c 0 False root = Some (Ok (Unbalanced (get(leaf := Ok q)) leaf parent' off'))" "get leaf = Ok p" "leaf_cells q = leaf_cells p"
        using ins t(3) by auto
      then show ?thesis
      proof cases
        case (1 get' t')
        then have "tree_rel psz root get' (m(cell_key c \<mapsto> c))" using table_tree_rewritten [OF t(1) 1(2)] t(2,3) by (auto simp: tree_rel_def)
        then show ?thesis using 1(1) None Store by (simp add: tree_exec_def tree_step_def row_step_def)
      next
        case (2 leaf p q parent' off')
        then have "tree_final psz root (get(leaf := Ok q)) m" using assms(1) unfolding tree_final_def by blast
        then show ?thesis using 2(1) None Store by (simp add: tree_exec_def tree_step_def row_step_def)
      qed
    next
      case (Some c')
      then show ?thesis using ins assms(1) t(3) Store by (simp add: tree_exec_def tree_step_def row_step_def)
    qed
  next
    case (Find r)
    have "lookup_table get asm None root r = Some (answer asm (m r))" using lookup_from_tree [OF tt(1,2) i64_range, of asm r] t(2,3) by (simp add: lookup_table_def)
    then show ?thesis using assms(1) Find by (auto simp: tree_exec_def tree_step_def row_step_def answer_def split: option.split outcome.split)
  qed
qed

interpretation tree_store: observed_machine "tree_exec asm root" "tree_step asm" "\<lambda>a. a = NoRoom" "\<lambda>op. legal_op psz (as_leaf_op op)" "tree_rel psz root" "tree_final psz root"
  for asm root psz
  by unfold_locales (rule tree_simulates, auto simp: tree_final_def)

text \<open>A tree of two leaves, built by the operations of the pages.\<close>

lemma leaf_with_row:
  assumes "fits_page 512 LeafTable c" "cell_encoded_size c \<le> 100"
  shows "\<exists>p. table_leaf p [c] \<and> length (pg_data p) = 512"
proof -
  let ?p = "init_leaf_table (new_page 5 512 0)"
  have "table_leaf ?p []" "length (pg_data ?p) = 512"
    by (rule init_table_leaf) (simp_all add: new_page_def sized_def init_leaf_table_def init_page_def)
  then show ?thesis using insert_with_room_leaf [of ?p "[]" c None undefined] assms header_offset_le [of ?p] by (auto simp: cell_bytes_def insert_row_def)
qed

lemma interior_with_separator:
  assumes "cell_encoded_size (TableInteriorCell child key) \<le> 100"
  shows "\<exists>p. holds_cells p InteriorTable [TableInteriorCell child key] \<and> right_most_pointer p = right \<and> length (pg_data p) = 512"
proof -
  let ?i = "init_interior_table (new_page 4 512 0)" let ?p = "set_right_most_pointer ?i right"
  have sized: "sized (new_page 4 512 0)" by (simp add: new_page_def sized_def)
  note repr = init_page_repr(1) [OF sized, of InteriorTable]
  have i: "page_type_of ?i = Ok InteriorTable" "n_cells ?i = 0" "sized ?i" "header_offset ?i + 12 \<le> cell_content_start ?i" "cell_content_start ?i \<le> length (pg_data ?i)"
    using page_reprD [OF repr] by (simp_all add: init_interior_table_def)
  have h: "head ?p = (Ok InteriorTable, 0, cell_content_start ?i, right)" using head_set_right_most_pointer [OF i(3), of right] i(1,2) by simp
  then have p: "holds_cells ?p InteriorTable []" "right_most_pointer ?p = right" using i by (simp_all add: holds_cells_def page_repr_def head_def)
  have len: "length (pg_data (new_page 4 512 0)) = 512" by (simp add: new_page_def)
  have "length (pg_data ?i) = 512" using sized len by (simp add: init_interior_table_def init_page_def)
  then have start: "cell_content_start ?p = 512" "length (pg_data ?p) = 512"
    using h i(3) init_page_repr(3) [OF sized, of InteriorTable] len by (simp_all add: head_def init_interior_table_def)
  have "cell_encoded_size (TableInteriorCell child key) + 2 \<le> free_space ?p"
    using assms start header_offset_le [of ?p] free_space_repr [of ?p InteriorTable "[]"] p(1) by (simp add: holds_cells_def)
  moreover have "cache_ok ?p []" by (simp add: cache_ok_def init_interior_table_def init_page_def new_page_def setter_defs)
  moreover have "fits_page 512 InteriorTable (TableInteriorCell child key)" by (simp add: fits_page_def)
  ultimately show ?thesis using write_cell_holds [OF p(1), of 0 "TableInteriorCell child key"] p(2) start(2) by auto
qed

text \<open>
  C12: A table tree is a map from rowids to rows, whatever its height. From any tree of pages that
  stores rows in the order of its separators, whatever insertions and lookups follow, each is
  answered as the map answers it: the searches of interior pages agree, an insertion stores the
  row, reports a taken rowid or ends at a full leaf, a lookup returns the payload; nothing panics
  or loops, and the pages still are such a tree for the new map. An interior page may lack a
  right-most child, as the left page of every interior split does, when its last separator is also
  its upper bound; the sequence ends at the first leaf with no room, where the balancing begins.
\<close>

theorem table_tree_is_map:
  assumes "table_tree psz get t" "list_all (\<lambda>op. legal_op psz (as_leaf_op op)) ops"
  shows "\<exists>get' as m. run_until (tree_exec asm (root_id t)) (\<lambda>a. a = NoRoom) get ops = (get', as)
    \<and> check_until (tree_step asm) (\<lambda>a. a = NoRoom) (map_of (map (\<lambda>c. (cell_key c, c)) (tree_rows t))) ops as = Some m
    \<and> tree_final psz (root_id t) get' m"
  using tree_store.run_admitted [of psz "root_id t" get "row_map (tree_rows t)" ops asm] assms by (auto simp: tree_rel_def row_map_def)

definition two_leaves :: btree where
  "two_leaves = TNode 4 [(TLeaf 5 [TableLeafCell 3 [1]], 10)] (TLeaf 6 [TableLeafCell 12 [2]])"

lemma two_leaves_stored: "\<exists>get. table_tree 512 get two_leaves"
proof -
  have small: "cell_encoded_size (TableLeafCell 3 [1]) \<le> 100" "cell_encoded_size (TableLeafCell 12 [2]) \<le> 100" "cell_encoded_size (TableInteriorCell 5 10) \<le> 100" by code_simp+
  obtain p where p: "holds_cells p InteriorTable [TableInteriorCell 5 10]" "right_most_pointer p = 6" "length (pg_data p) = 512" using interior_with_separator [OF small(3)] by blast
  obtain q where q: "table_leaf q [TableLeafCell 3 [1]]" "length (pg_data q) = 512" using leaf_with_row [OF _ small(1)] by (auto simp: fits_page_def)
  obtain r where r: "table_leaf r [TableLeafCell 12 [2]]" "length (pg_data r) = 512" using leaf_with_row [OF _ small(2)] by (auto simp: fits_page_def)
  let ?get = "\<lambda>i. if i = 4 then Ok p else if i = 5 then Ok q else Ok r"
  have "table_tree 512 ?get two_leaves"
    using p q r by (auto simp: table_tree_def two_leaves_def separators_def pages_sized_def sorted_rows_def)
  then show ?thesis by blast
qed

text \<open>Three levels, with no right-most child in the interior page on the left, as a split leaves them.\<close>

definition split_tree :: btree where
  "split_tree = TNode 4 [(TNode 7 [(TLeaf 5 [TableLeafCell 3 [1]], 10)] NoChild, 10)]
     (TNode 8 [(TLeaf 6 [TableLeafCell 12 [2]], 15)] (TLeaf 9 [TableLeafCell 20 [3]]))"

lemma split_tree_stored: "\<exists>get. table_tree 512 get split_tree"
proof -
  have small: "cell_encoded_size (TableLeafCell 3 [1]) \<le> 100" "cell_encoded_size (TableLeafCell 12 [2]) \<le> 100" "cell_encoded_size (TableLeafCell 20 [3]) \<le> 100"
    "cell_encoded_size (TableInteriorCell 7 10) \<le> 100" "cell_encoded_size (TableInteriorCell 5 10) \<le> 100" "cell_encoded_size (TableInteriorCell 6 15) \<le> 100" by code_simp+
  obtain p where p: "holds_cells p InteriorTable [TableInteriorCell 7 10]" "right_most_pointer p = 8" "length (pg_data p) = 512" using interior_with_separator [OF small(4)] by blast
  obtain p' where p': "holds_cells p' InteriorTable [TableInteriorCell 5 10]" "right_most_pointer p' = 0" "length (pg_data p') = 512" using interior_with_separator [OF small(5)] by blast
  obtain p'' where p'': "holds_cells p'' InteriorTable [TableInteriorCell 6 15]" "right_most_pointer p'' = 9" "length (pg_data p'') = 512" using interior_with_separator [OF small(6)] by blast
  obtain q where q: "table_leaf q [TableLeafCell 3 [1]]" "length (pg_data q) = 512" using leaf_with_row [OF _ small(1)] by (auto simp: fits_page_def)
  obtain q' where q': "table_leaf q' [TableLeafCell 12 [2]]" "length (pg_data q') = 512" using leaf_with_row [OF _ small(2)] by (auto simp: fits_page_def)
  obtain q'' where q'': "table_leaf q'' [TableLeafCell 20 [3]]" "length (pg_data q'') = 512" using leaf_with_row [OF _ small(3)] by (auto simp: fits_page_def)
  let ?get = "\<lambda>i. if i = 4 then Ok p else if i = 7 then Ok p' else if i = 8 then Ok p'' else if i = 5 then Ok q else if i = 6 then Ok q' else Ok q''"
  have "stored ?get split_tree" using p p' p'' q q' q'' by (simp add: split_tree_def separators_def)
  moreover have "ranged (- (2 ^ 63) - 1) (2 ^ 63 - 1) split_tree" "distinct (tree_ids split_tree)" by (simp_all add: split_tree_def sorted_rows_def)
  moreover have "pages_sized 512 ?get split_tree" using p(3) p'(3) p''(3) q(2) q'(2) q''(2) by (simp add: pages_sized_def split_tree_def)
  ultimately have "table_tree 512 ?get split_tree" by (simp add: table_tree_def)
  then show ?thesis by blast
qed

theorem table_tree_is_map_witness:
  "\<exists>get get' as m. table_tree 512 get split_tree
    \<and> run_until (tree_exec (\<lambda>_ _ _. Ok []) 4) (\<lambda>a. a = NoRoom) get [Find 12, Store (TableLeafCell 7 [9]), Find 7, Store (TableLeafCell 3 [0])] = (get', as)
    \<and> check_until (tree_step (\<lambda>_ _ _. Ok [])) (\<lambda>a. a = NoRoom) [3 \<mapsto> TableLeafCell 3 [1], 12 \<mapsto> TableLeafCell 12 [2], 20 \<mapsto> TableLeafCell 20 [3]]
        [Find 12, Store (TableLeafCell 7 [9]), Find 7, Store (TableLeafCell 3 [0])] as = Some m
    \<and> tree_final 512 4 get' m"
proof -
  obtain get where get: "table_tree 512 get split_tree" using split_tree_stored by blast
  let ?ops = "[Find 12, Store (TableLeafCell 7 [9]), Find 7, Store (TableLeafCell 3 [0])]"
  have legal: "list_all (\<lambda>op. legal_op 512 (as_leaf_op op)) ?ops" by (simp add: legal_op_def)
  have m: "map_of (map (\<lambda>c. (cell_key c, c)) (tree_rows split_tree)) = [3 \<mapsto> TableLeafCell 3 [1], 12 \<mapsto> TableLeafCell 12 [2], 20 \<mapsto> TableLeafCell 20 [3]]" "root_id split_tree = 4"
    by (auto simp: split_tree_def)
  show ?thesis using table_tree_is_map [OF get legal, unfolded m] get by blast
qed

text \<open>
  C16: A deletion from a table tree removes that row and no other. Without the row nothing changes;
  with it, the chain of its payload is freed, the leaf loses the row, and the pages store the map
  without it when they are handed to the balancing, which is called for each parent and child of
  the path, from the leaf up. It is assumed that the chain can be freed and that freeing it leaves
  the pages of the tree alone; interior pages may lack a right-most child, as after a split.
\<close>

theorem tree_delete_removes_row:
  assumes tree: "table_tree psz get t" and free: "\<And>c. map_of (map (\<lambda>c. (cell_key c, c)) (tree_rows t)) r = Some c \<Longrightarrow> free_of free_chain (get, s) c = Ok (get1, s1)"
    and apart: "\<And>j. j \<in> set (tree_ids t) \<Longrightarrow> get1 j = get j"
  shows "case map_of (map (\<lambda>c. (cell_key c, c)) (tree_rows t)) r of
      None \<Rightarrow> delete_from free_chain rebalance (get, s) r (root_id t) = Some (Ok ((get, s), False))
    | Some c \<Rightarrow> \<exists>leaf q t'. table_tree psz (get1(leaf := Ok q)) t' \<and> root_id t' = root_id t
        \<and> map_of (map (\<lambda>c. (cell_key c, c)) (tree_rows t')) = (map_of (map (\<lambda>c. (cell_key c, c)) (tree_rows t)))(r := None)
        \<and> delete_from free_chain rebalance (get, s) r (root_id t)
          = Some (bind_outcome (rebalance_path rebalance (get1(leaf := Ok q), s1) (path_edges r t)) (\<lambda>st. Ok (st, True)))"
proof -
  have tt: "stored get t" "ranged (- (2 ^ 63) - 1) (2 ^ 63 - 1) t" "distinct (tree_ids t)" "pages_sized psz get t" using tree by (simp_all add: table_tree_def)
  show ?thesis
  proof (cases "row_map (tree_rows t) r")
    case None
    then show ?thesis using delete_from_absent [OF tt(1,2) i64_range tt(4) None] by (simp add: row_map_def)
  next
    case (Some c)
    obtain leaf q where q: "\<forall>get1. (\<forall>j\<in>set (tree_ids t). get1 j = get j) \<longrightarrow> (\<exists>t'. rewritten psz r None get1 t (get1(leaf := Ok q)) t')"
      "delete_from free_chain rebalance (get, s) r (root_id t) = Some (bind_outcome (free_of free_chain (get, s) c) (\<lambda>(get1, s1).
        bind_outcome (rebalance_path rebalance (get1(leaf := Ok q), s1) (path_edges r t)) (\<lambda>st. Ok (st, True))))"
      using delete_from_present [OF tt(1,2) i64_range tt(3,4) Some, of free_chain rebalance s] by blast
    obtain t' where t': "rewritten psz r None get1 t (get1(leaf := Ok q)) t'" using q(1) apart by blast
    have "delete_from free_chain rebalance (get, s) r (root_id t)
        = Some (bind_outcome (rebalance_path rebalance (get1(leaf := Ok q), s1) (path_edges r t)) (\<lambda>st. Ok (st, True)))"
      using q(2) free [of c] Some by (simp add: row_map_def)
    then show ?thesis using table_tree_rewritten [OF tree t'] Some unfolding row_map_def by (simp del: fun_upd_apply) blast
  qed
qed

theorem tree_delete_removes_row_witness:
  "\<exists>get leaf q t'. table_tree 512 get split_tree \<and> table_tree 512 (get(leaf := Ok q)) t' \<and> map_of (map (\<lambda>c. (cell_key c, c)) (tree_rows t')) = [20 \<mapsto> TableLeafCell 20 [3], 12 \<mapsto> TableLeafCell 12 [2]]
    \<and> delete_from (\<lambda>s _. Ok s) (\<lambda>st _ _. Ok st) (get, ()) 3 4 = Some (Ok ((get(leaf := Ok q), ()), True))"
proof -
  obtain get where get: "table_tree 512 get split_tree" using split_tree_stored by blast
  let ?free = "\<lambda>s (_ :: u32). Ok s :: unit pages outcome"
  have m: "map_of (map (\<lambda>c. (cell_key c, c)) (tree_rows split_tree)) = [20 \<mapsto> TableLeafCell 20 [3], 12 \<mapsto> TableLeafCell 12 [2], 3 \<mapsto> TableLeafCell 3 [1]]" "root_id split_tree = 4"
    by (simp_all add: split_tree_def)
  have upd: "([20 :: i64 \<mapsto> TableLeafCell 20 [3], 12 \<mapsto> TableLeafCell 12 [2], 3 \<mapsto> TableLeafCell 3 [1]])(3 := None) = [20 \<mapsto> TableLeafCell 20 [3], 12 \<mapsto> TableLeafCell 12 [2]]" by (auto simp: fun_eq_iff)
  have "free_of ?free (get, ()) c = Ok (get, ())" for c by (simp add: free_of_def)
  from tree_delete_removes_row [OF get this refl, where r = 3 and rebalance = "\<lambda>st _ _. Ok st", unfolded m]
  obtain leaf q t' where "table_tree 512 (get(leaf := Ok q)) t'" "map_of (map (\<lambda>c. (cell_key c, c)) (tree_rows t')) = ([20 \<mapsto> TableLeafCell 20 [3], 12 \<mapsto> TableLeafCell 12 [2], 3 \<mapsto> TableLeafCell 3 [1]])(3 := None)"
    "delete_from ?free (\<lambda>st _ _. Ok st) (get, ()) 3 4 = Some (bind_outcome (rebalance_path (\<lambda>st _ _. Ok st) (get(leaf := Ok q), ()) (path_edges 3 split_tree)) (\<lambda>st. Ok (st, True)))"
    by auto
  moreover have "rebalance_path (\<lambda>st _ _. Ok st) st es = Ok st" for st :: "unit pages" and es by (induction es) (simp_all add: rebalance_path_def)
  ultimately show ?thesis using get unfolding upd by auto
qed

subsection \<open>Pages without a right-most child\<close>

text \<open>
  The balancing may leave an interior page whose right-most child is 0. An insertion above the last
  separator then descends into the last cell's child; a deletion finds no child and deletes
  nothing, and a lookup reports corruption, so a row inserted there is not found again.
\<close>

theorem no_right_most_child:
  assumes holds: "holds_cells p InteriorTable (separators tks)" and rg: "ranged lo hi (TNode i tks NoChild)" and rm: "right_most_pointer p = 0"
    and ne: "tks \<noteq> []" and above: "\<forall>sk\<in>set tks. sint (snd sk) < sint r"
  shows "insert_child p r = Some (Ok (root_id (fst (last tks))))" "delete_child p InteriorTable r = Some (Ok 0)"
    "get j = Ok p \<Longrightarrow> lookup_from get asm r j = Some (Err ''interior page has no valid child'')"
proof -
  let ?cs = "separators tks"
  have sub: "subtree_for r tks NoChild = NoChild" using above by (induction tks) auto
  have n: "n_cells p = length tks" using leaf_page(4) [OF holds] by (simp add: separators_def)
  show "delete_child p InteriorTable r = Some (Ok 0)" using delete_child_node [OF holds rg, of r] rm sub by simp
  show "lookup_from get asm r j = Some (Err ''interior page has no valid child'')" if "get j = Ok p"
    using lookup_child_node [OF holds rg, of r] rm sub that leaf_page(3) [OF holds] by (subst lookup_from.simps) simp
  have all: "row_lt r c" if "c \<in> set ?cs" for c using that above by (auto simp: separators_def row_lt_def)
  note cell = separator_reads [OF holds, of _ NoChild]
  have probe: "insert_child_probe p r m = Ok (if m < length tks then GoRight else GoLeft)" if "m < length tks" for m
    using cell [OF that] all [of "?cs ! m"] that by (auto simp: insert_child_probe_def slice_def decode_table_interior_key_def add.commute row_lt_def separators_def)
  have "bsearch (insert_child_probe p r) 0 (length tks) = Some (Ok (length tks))"
    using holds_few [OF holds] by (intro bsearch_rank probe) (auto simp: separators_def)
  moreover have "child_at p (length tks - 1) 0 = Ok (root_id (fst (last tks)))"
    using cell [of "length tks - 1"] ne by (auto simp: child_at_def slice_def decode_table_interior_child_def child_id_def last_conv_nth)
  ultimately show "insert_child p r = Some (Ok (root_id (fst (last tks))))" using n rm ne by (simp add: insert_child_def)
qed

end
