(* ===== verification/Btree_Scan.thy ===== *)
theory Btree_Scan
  imports Btree_Store
begin

text \<open>
  The scans and counts of a table tree: the full scans in their three forms (decoding each cell,
  lending the bytes of the page, and copying a leaf into a batch before the visitor runs), the
  range scans in the same forms and the scan that copies records for a statement, and the counts
  that decode no payload. A visitor is a function of its own state; \<open>False\<close> asks to stop. The
  state is kept when a scan fails, as the closure's captures are. \<open>None\<close> is not returning, from a
  cyclic tree. Locks, prefetches and the undo capture that a read suspends are left out.
\<close>

type_synonym 's visitor = "'s \<Rightarrow> i64 \<Rightarrow> bytes \<Rightarrow> 's \<times> bool"

type_synonym 's visited = "'s \<times> bool outcome"

subsection \<open>Loops with a visitor\<close>

primrec each_visit :: "('s \<Rightarrow> 'a \<Rightarrow> 's visited) \<Rightarrow> 's \<Rightarrow> 'a list \<Rightarrow> 's visited" where
  "each_visit step s [] = (s, Ok True)"
| "each_visit step s (x # xs) = (case step s x of (s', r) \<Rightarrow> if r = Ok True then each_visit step s' xs else (s', r))"

primrec visit_children :: "(u32 \<Rightarrow> 's \<Rightarrow> 's visited option) \<Rightarrow> 's \<Rightarrow> u32 list \<Rightarrow> 's visited option" where
  "visit_children go s [] = Some (s, Ok True)"
| "visit_children go s (c # cs) = Option.bind (go c s) (\<lambda>(s', r). if r = Ok True then visit_children go s' cs else Some (s', r))"

lemma visit_children_mono [partial_function_mono]:
  assumes "\<And>c s. mono_option (\<lambda>F. go F c s)"
  shows "mono_option (\<lambda>F. visit_children (go F) s cs)"
proof (induction cs arbitrary: s)
  case Nil
  then show ?case by (simp add: option.const_mono)
next
  case (Cons c cs)
  have "mono_option (\<lambda>F. case y of (s', r) \<Rightarrow> if r = Ok True then visit_children (go F) s' cs else Some (s', r))" for y
    by (cases y; cases "snd y = Ok True") (simp_all add: Cons.IH option.const_mono)
  then show ?case unfolding visit_children.simps by (intro bind_mono assms)
qed

definition lift_visit :: "'s \<Rightarrow> 'a outcome \<Rightarrow> ('a \<Rightarrow> 's visited) \<Rightarrow> 's visited" where
  "lift_visit s m f = (case m of Ok x \<Rightarrow> f x | Err e \<Rightarrow> (s, Err e) | Panic \<Rightarrow> (s, Panic))"

definition lift_scan :: "'s \<Rightarrow> 'a outcome \<Rightarrow> ('a \<Rightarrow> 's visited option) \<Rightarrow> 's visited option" where
  "lift_scan s m f = (case m of Ok x \<Rightarrow> f x | Err e \<Rightarrow> Some (s, Err e) | Panic \<Rightarrow> Some (s, Panic))"

lemma lift_scan_mono [partial_function_mono]:
  "(\<And>x. mono_option (\<lambda>F. f F x)) \<Longrightarrow> mono_option (\<lambda>F. lift_scan s m (f F))"
  by (cases m) (simp_all add: lift_scan_def option.const_mono)

definition lift_search :: "'s \<Rightarrow> nat outcome option \<Rightarrow> (nat \<Rightarrow> 's visited option) \<Rightarrow> 's visited option" where
  "lift_search s m f = (case m of None \<Rightarrow> None | Some r \<Rightarrow> lift_scan s r f)"

lemma lift_search_mono [partial_function_mono]:
  "(\<And>x. mono_option (\<lambda>F. f F x)) \<Longrightarrow> mono_option (\<lambda>F. lift_search s m (f F))"
  by (cases m) (simp_all add: lift_search_def option.const_mono lift_scan_mono)

subsection \<open>Cells under a scan\<close>

datatype fetched = Whole bytes | Spilled bytes u64 u32

text \<open>The messages of a scan: for the rowid, the length, the payload and the spilled payload.\<close>

type_synonym scan_msgs = "string \<times> string \<times> string \<times> string"

definition full_msgs :: scan_msgs where
  "full_msgs = (''truncated leaf rowid in scan_borrowed'', ''truncated leaf payload len in scan_borrowed'',
                ''truncated leaf payload in scan_borrowed'', ''truncated overflow cell in scan_borrowed'')"

definition range_msgs :: scan_msgs where
  "range_msgs = (''truncated leaf rowid in range_borrowed'', ''truncated payload len in range_borrowed'',
                 ''truncated payload in range_borrowed'', ''truncated overflow cell in range_borrowed'')"

definition scan_rowid :: "string \<Rightarrow> page \<Rightarrow> nat \<Rightarrow> (bytes \<times> i64 \<times> nat) outcome" where
  "scan_rowid msg p i =
     bind_outcome (cell_pointer p i) (\<lambda>ptr.
     bind_outcome (cell_slice_checked p ptr) (\<lambda>buf.
     bind_outcome (ok_or (decode_signed buf) msg) (\<lambda>(rowid, n1). Ok (buf, rowid, n1))))"

definition scan_payload :: "scan_msgs \<Rightarrow> bytes \<Rightarrow> nat \<Rightarrow> nat \<Rightarrow> fetched outcome" where
  "scan_payload msgs buf n1 psz =
     bind_outcome (ok_or (varint_decode (drop n1 buf)) (fst (snd msgs))) (\<lambda>(plen, n2).
       let payload_start = n1 + n2 in
       bind_outcome (overflow_local_len_for (unat plen) psz) (\<lambda>local_len.
         if local_len = unat plen
         then if length buf < payload_start + unat plen then Err (fst (snd (snd msgs)))
              else Ok (Whole (take (unat plen) (drop payload_start buf)))
         else if length buf - payload_start < local_len + 4 then Err (snd (snd (snd msgs)))
              else Ok (Spilled (take local_len (drop payload_start buf)) plen (of_be32 (take 4 (drop (payload_start + local_len) buf))))))"

definition scan_cell :: "scan_msgs \<Rightarrow> page \<Rightarrow> nat \<Rightarrow> (i64 \<times> fetched) outcome" where
  "scan_cell msgs p i =
     bind_outcome (scan_rowid (fst msgs) p i) (\<lambda>(buf, rowid, n1).
     bind_outcome (scan_payload msgs buf n1 (length (pg_data p))) (\<lambda>v. Ok (rowid, v)))"

definition call_visitor :: "'s visitor \<Rightarrow> 's \<Rightarrow> i64 \<Rightarrow> bytes \<Rightarrow> 's visited" where
  "call_visitor f s rowid payload = (case f s rowid payload of (s', cont) \<Rightarrow> (s', Ok cont))"

definition visit_fetched :: "assemble \<Rightarrow> 's visitor \<Rightarrow> 's \<Rightarrow> i64 \<Rightarrow> fetched \<Rightarrow> 's visited" where
  "visit_fetched asm f s rowid v =
     (case v of Whole payload \<Rightarrow> call_visitor f s rowid payload
      | Spilled local plen chain \<Rightarrow> lift_visit s (asm local plen chain) (call_visitor f s rowid))"

text \<open>The children of an interior page, without a right-most child 0.\<close>

definition interior_child :: "page \<Rightarrow> nat \<Rightarrow> u32 list outcome" where
  "interior_child p i =
     bind_outcome (cell_pointer p i) (\<lambda>ptr.
     bind_outcome (cell_slice_checked p ptr) (\<lambda>buf.
     bind_outcome (cell_decode buf InteriorTable (page_size p)) (\<lambda>c.
       Ok (case c of TableInteriorCell lc key \<Rightarrow> [lc] | _ \<Rightarrow> []))))"

definition collect_at :: "(nat \<Rightarrow> 'a list outcome) \<Rightarrow> nat list \<Rightarrow> 'a list outcome" where
  "collect_at f = fold_outcome (\<lambda>v i. bind_outcome (f i) (\<lambda>xs. Ok (v @ xs))) []"

definition right_child :: "page \<Rightarrow> u32 list" where
  "right_child p = (if right_most_pointer p \<noteq> 0 then [right_most_pointer p] else [])"

definition all_children :: "page \<Rightarrow> u32 list outcome" where
  "all_children p = bind_outcome (collect_at (interior_child p) [0..<n_cells p]) (\<lambda>v. Ok (v @ right_child p))"

subsection \<open>Full scans\<close>

definition scan_leaf_borrowed :: "assemble \<Rightarrow> 's visitor \<Rightarrow> page \<Rightarrow> 's \<Rightarrow> 's visited" where
  "scan_leaf_borrowed asm f p s =
     each_visit (\<lambda>s i. lift_visit s (scan_cell full_msgs p i) (\<lambda>(rowid, v). visit_fetched asm f s rowid v)) s [0..<n_cells p]"

partial_function (option) scan_subtree_borrowed_fast :: "page_getter \<Rightarrow> assemble \<Rightarrow> 's visitor \<Rightarrow> u32 \<Rightarrow> 's \<Rightarrow> 's visited option" where
  "scan_subtree_borrowed_fast get asm f page_id s =
     lift_scan s (get page_id) (\<lambda>p. lift_scan s (page_type_of p) (\<lambda>pt.
       if pt = LeafTable then Some (scan_leaf_borrowed asm f p s)
       else if pt = InteriorTable
       then lift_scan s (all_children p) (visit_children (\<lambda>child s. scan_subtree_borrowed_fast get asm f child s) s)
       else Some (s, Err ''unexpected page type in scan_borrowed'')))"

text \<open>\<^verbatim>\<open>ScanBatch\<close>: offsets are \<^verbatim>\<open>u32\<close>, as cast from the length of the copied bytes.\<close>

datatype batch_cell = InPage i64 u32 u32 | OverflowCell i64 u32 u32 u64 u32

record scan_batch =
  sb_payload :: bytes
  sb_cells :: "batch_cell list"

definition empty_batch :: scan_batch where
  "empty_batch = \<lparr>sb_payload = [], sb_cells = []\<rparr>"

definition push_in_page :: "scan_batch \<Rightarrow> i64 \<Rightarrow> bytes \<Rightarrow> scan_batch" where
  "push_in_page b rowid bs =
     \<lparr>sb_payload = sb_payload b @ bs, sb_cells = sb_cells b @ [InPage rowid (word_of_nat (length (sb_payload b))) (word_of_nat (length bs))]\<rparr>"

definition push_overflow :: "scan_batch \<Rightarrow> i64 \<Rightarrow> bytes \<Rightarrow> u64 \<Rightarrow> u32 \<Rightarrow> scan_batch" where
  "push_overflow b rowid local plen chain =
     \<lparr>sb_payload = sb_payload b @ local,
      sb_cells = sb_cells b @ [OverflowCell rowid (word_of_nat (length (sb_payload b))) (word_of_nat (length local)) plen chain]\<rparr>"

definition push_fetched :: "scan_batch \<Rightarrow> i64 \<Rightarrow> fetched \<Rightarrow> scan_batch" where
  "push_fetched b rowid v = (case v of Whole bs \<Rightarrow> push_in_page b rowid bs | Spilled local plen chain \<Rightarrow> push_overflow b rowid local plen chain)"

definition visit_batch_cell :: "assemble \<Rightarrow> 's visitor \<Rightarrow> bytes \<Rightarrow> 's \<Rightarrow> batch_cell \<Rightarrow> 's visited" where
  "visit_batch_cell asm f payload s c =
     (case c of
        InPage rowid off len \<Rightarrow> lift_visit s (slice payload (unat off) (unat off + unat len)) (call_visitor f s rowid)
      | OverflowCell rowid off len plen chain \<Rightarrow>
          lift_visit s (slice payload (unat off) (unat off + unat len)) (\<lambda>local.
            lift_visit s (asm local plen chain) (call_visitor f s rowid)))"

definition batch_visit :: "assemble \<Rightarrow> 's visitor \<Rightarrow> scan_batch \<Rightarrow> 's \<Rightarrow> 's visited" where
  "batch_visit asm f b s = each_visit (visit_batch_cell asm f (sb_payload b)) s (sb_cells b)"

definition batch_leaf :: "page \<Rightarrow> scan_batch outcome" where
  "batch_leaf p = fold_outcome (\<lambda>b i. bind_outcome (scan_cell full_msgs p i) (\<lambda>(rowid, v). Ok (push_fetched b rowid v))) empty_batch [0..<n_cells p]"

partial_function (option) scan_subtree_borrowed :: "page_getter \<Rightarrow> assemble \<Rightarrow> 's visitor \<Rightarrow> u32 \<Rightarrow> 's \<Rightarrow> 's visited option" where
  "scan_subtree_borrowed get asm f page_id s =
     lift_scan s (get page_id) (\<lambda>p. lift_scan s (page_type_of p) (\<lambda>pt.
       if pt = LeafTable then lift_scan s (batch_leaf p) (\<lambda>b. Some (batch_visit asm f b s))
       else if pt = InteriorTable
       then lift_scan s (all_children p) (visit_children (\<lambda>child s. scan_subtree_borrowed get asm f child s) s)
       else Some (s, Err ''unexpected page type in scan_borrowed'')))"

text \<open>The scan that decodes each cell.\<close>

definition decode_at :: "page \<Rightarrow> page_type \<Rightarrow> nat \<Rightarrow> cell outcome" where
  "decode_at p pt i = bind_outcome (cell_pointer p i) (\<lambda>ptr. bind_outcome (cell_slice_checked p ptr) (\<lambda>buf. cell_decode buf pt (page_size p)))"

definition visit_cell :: "assemble \<Rightarrow> 's visitor \<Rightarrow> 's \<Rightarrow> cell \<Rightarrow> 's visited" where
  "visit_cell asm f s c =
     (case c of TableLeafCell rowid payload \<Rightarrow> call_visitor f s rowid payload
      | TableLeafOverflow rowid tot local overflow \<Rightarrow> lift_visit s (asm local tot overflow) (call_visitor f s rowid)
      | _ \<Rightarrow> (s, Ok True))"

partial_function (option) scan_subtree :: "page_getter \<Rightarrow> assemble \<Rightarrow> 's visitor \<Rightarrow> u32 \<Rightarrow> 's \<Rightarrow> 's visited option" where
  "scan_subtree get asm f page_id s =
     lift_scan s (get page_id) (\<lambda>p. lift_scan s (page_type_of p) (\<lambda>pt.
       if pt = LeafTable then Some (each_visit (\<lambda>s i. lift_visit s (decode_at p pt i) (visit_cell asm f s)) s [0..<n_cells p])
       else if pt = InteriorTable
       then lift_scan s (all_children p) (visit_children (\<lambda>child s. scan_subtree get asm f child s) s)
       else Some (s, Err ''unexpected page type in scan'')))"

text \<open>\<^verbatim>\<open>scan_table\<close> and \<^verbatim>\<open>scan_table_borrowed_opts\<close>, which drop the flag.\<close>

definition outcome_of :: "'s visited option \<Rightarrow> ('s \<times> unit outcome) option" where
  "outcome_of v = map_option (\<lambda>(s', r). (s', bind_outcome r (\<lambda>_. Ok ()))) v"

definition scan_table :: "page_getter \<Rightarrow> assemble \<Rightarrow> u32 \<Rightarrow> 's visitor \<Rightarrow> 's \<Rightarrow> ('s \<times> unit outcome) option" where
  "scan_table get asm root f s = outcome_of (scan_subtree get asm f root s)"

definition scan_table_borrowed_opts :: "page_getter \<Rightarrow> assemble \<Rightarrow> u32 \<Rightarrow> 's visitor \<Rightarrow> bool \<Rightarrow> 's \<Rightarrow> ('s \<times> unit outcome) option" where
  "scan_table_borrowed_opts get asm root f may_reenter s =
     outcome_of
       (if may_reenter then scan_subtree_borrowed get asm f root s else scan_subtree_borrowed_fast get asm f root s)"

subsection \<open>Range scans\<close>

definition range_probe :: "page \<Rightarrow> i64 \<Rightarrow> nat \<Rightarrow> probe outcome" where
  "range_probe p start mid =
     bind_outcome (cell_pointer p mid) (\<lambda>ptr.
     bind_outcome (cell_slice_checked p ptr) (\<lambda>buf.
       Ok (case decode_signed buf of None \<Rightarrow> GoLeft | Some (rowid, _) \<Rightarrow> if sint rowid < sint start then GoRight else GoLeft)))"

definition range_child_probe :: "string \<Rightarrow> page \<Rightarrow> i64 \<Rightarrow> nat \<Rightarrow> probe outcome" where
  "range_child_probe msg p start mid =
     bind_outcome (cell_pointer p mid) (\<lambda>ptr.
     bind_outcome (cell_slice_checked p ptr) (\<lambda>buf.
     bind_outcome (ok_or (decode_table_interior_key buf) msg) (\<lambda>key.
       Ok (if sint key < sint start then GoRight else GoLeft))))"

definition range_child :: "page \<Rightarrow> nat \<Rightarrow> u32 list outcome" where
  "range_child p i =
     bind_outcome (cell_pointer p i) (\<lambda>ptr.
     bind_outcome (cell_slice_checked p ptr) (\<lambda>buf.
       Ok (case decode_table_interior_child buf of None \<Rightarrow> [] | Some c \<Rightarrow> [c])))"

definition range_children :: "page \<Rightarrow> nat \<Rightarrow> u32 list outcome" where
  "range_children p lo = bind_outcome (collect_at (range_child p) [lo..<n_cells p]) (\<lambda>v. Ok (v @ right_child p))"

definition range_step :: "assemble \<Rightarrow> 's visitor \<Rightarrow> i64 \<Rightarrow> i64 \<Rightarrow> page \<Rightarrow> 's \<Rightarrow> nat \<Rightarrow> 's visited" where
  "range_step asm f start fin p s i =
     lift_visit s (scan_rowid (fst range_msgs) p i) (\<lambda>(buf, rowid, n1).
       if sint fin < sint rowid then (s, Ok False)
       else if sint start \<le> sint rowid
       then lift_visit s (scan_payload range_msgs buf n1 (length (pg_data p))) (visit_fetched asm f s rowid)
       else (s, Ok True))"

partial_function (option) scan_range_subtree_borrowed :: "page_getter \<Rightarrow> assemble \<Rightarrow> 's visitor \<Rightarrow> i64 \<Rightarrow> i64 \<Rightarrow> u32 \<Rightarrow> 's \<Rightarrow> 's visited option" where
  "scan_range_subtree_borrowed get asm f start fin page_id s =
     lift_scan s (get page_id) (\<lambda>p. lift_scan s (page_type_of p) (\<lambda>pt.
       if pt = LeafTable
       then lift_search s (bsearch (range_probe p start) 0 (n_cells p)) (\<lambda>lo.
              Some (each_visit (range_step asm f start fin p) s [lo..<n_cells p]))
       else if pt = InteriorTable
       then lift_search s (bsearch (range_child_probe ''truncated interior cell in range scan'' p start) 0 (n_cells p)) (\<lambda>lo.
              lift_scan s (range_children p lo) (visit_children (\<lambda>child s. scan_range_subtree_borrowed get asm f start fin child s) s))
       else Some (s, Err ''unexpected page type in range scan'')))"

text \<open>The deferred form; \<open>True\<close> is a row past the range.\<close>

fun batch_range :: "page \<Rightarrow> i64 \<Rightarrow> i64 \<Rightarrow> scan_batch \<Rightarrow> nat list \<Rightarrow> (scan_batch \<times> bool) outcome" where
  "batch_range p start fin b [] = Ok (b, False)"
| "batch_range p start fin b (i # is) =
     bind_outcome (scan_rowid (fst range_msgs) p i) (\<lambda>(buf, rowid, n1).
       if sint fin < sint rowid then Ok (b, True)
       else if sint start \<le> sint rowid
       then bind_outcome (scan_payload range_msgs buf n1 (length (pg_data p))) (\<lambda>v. batch_range p start fin (push_fetched b rowid v) is)
       else batch_range p start fin b is)"

definition visit_range_batch :: "assemble \<Rightarrow> 's visitor \<Rightarrow> 's \<Rightarrow> scan_batch \<times> bool \<Rightarrow> 's visited" where
  "visit_range_batch asm f s r = (case batch_visit asm f (fst r) s of (s', v) \<Rightarrow> (s', bind_outcome v (\<lambda>cont. Ok (cont \<and> \<not> snd r))))"

partial_function (option) scan_range_subtree_borrowed_deferred ::
    "page_getter \<Rightarrow> assemble \<Rightarrow> 's visitor \<Rightarrow> i64 \<Rightarrow> i64 \<Rightarrow> u32 \<Rightarrow> 's \<Rightarrow> 's visited option" where
  "scan_range_subtree_borrowed_deferred get asm f start fin page_id s =
     lift_scan s (get page_id) (\<lambda>p. lift_scan s (page_type_of p) (\<lambda>pt.
       if pt = LeafTable
       then lift_search s (bsearch (range_probe p start) 0 (n_cells p)) (\<lambda>lo.
              lift_scan s (batch_range p start fin empty_batch [lo..<n_cells p]) (\<lambda>r. Some (visit_range_batch asm f s r)))
       else if pt = InteriorTable
       then lift_scan s (all_children p) (visit_children (\<lambda>child s. scan_range_subtree_borrowed_deferred get asm f start fin child s) s)
       else Some (s, Err ''unexpected page type in range_borrowed'')))"

definition scan_table_range_borrowed_opts :: "page_getter \<Rightarrow> assemble \<Rightarrow> u32 \<Rightarrow> i64 \<Rightarrow> i64 \<Rightarrow> 's visitor \<Rightarrow> bool \<Rightarrow> 's \<Rightarrow> ('s \<times> unit outcome) option" where
  "scan_table_range_borrowed_opts get asm root start fin f may_reenter s =
     outcome_of
       (if may_reenter then scan_range_subtree_borrowed_deferred get asm f start fin root s
        else scan_range_subtree_borrowed get asm f start fin root s)"

text \<open>
  The range scan that decodes each cell. It answers nothing, so that what stops a leaf, a row past
  the range or the visitor, does not stop the walk; a right-most child 0 is walked like another.
\<close>

definition keyed_child :: "page \<Rightarrow> nat \<Rightarrow> (u32 \<times> i64) list outcome" where
  "keyed_child p i = bind_outcome (decode_at p InteriorTable i) (\<lambda>c. Ok (case c of TableInteriorCell lc key \<Rightarrow> [(lc, key)] | _ \<Rightarrow> []))"

definition keyed_children :: "page \<Rightarrow> (u32 \<times> i64) list outcome" where
  "keyed_children p = bind_outcome (collect_at (keyed_child p) [0..<n_cells p]) (\<lambda>v. Ok (v @ [(right_most_pointer p, 2 ^ 63 - 1)]))"

definition range_cell :: "assemble \<Rightarrow> 's visitor \<Rightarrow> i64 \<Rightarrow> i64 \<Rightarrow> 's \<Rightarrow> cell \<Rightarrow> 's visited" where
  "range_cell asm f start fin s c =
     (if \<not> (case c of TableLeafCell _ _ \<Rightarrow> True | TableLeafOverflow _ _ _ _ \<Rightarrow> True | _ \<Rightarrow> False) then (s, Ok True)
      else if sint fin < sint (cell_key c) then (s, Ok False)
      else if sint start \<le> sint (cell_key c) then visit_cell asm f s c
      else (s, Ok True))"

definition answers_nothing :: "'s visited \<Rightarrow> 's visited" where
  "answers_nothing v = (fst v, bind_outcome (snd v) (\<lambda>_. Ok True))"

partial_function (option) scan_range_subtree :: "page_getter \<Rightarrow> assemble \<Rightarrow> 's visitor \<Rightarrow> i64 \<Rightarrow> i64 \<Rightarrow> u32 \<Rightarrow> 's \<Rightarrow> 's visited option" where
  "scan_range_subtree get asm f start fin page_id s =
     lift_scan s (get page_id) (\<lambda>p. lift_scan s (page_type_of p) (\<lambda>pt.
       if pt = LeafTable
       then Some (answers_nothing (each_visit (\<lambda>s i. lift_visit s (decode_at p pt i) (range_cell asm f start fin s)) s [0..<n_cells p]))
       else if pt = InteriorTable
       then lift_scan s (keyed_children p) (\<lambda>cells.
              visit_children (\<lambda>child s. scan_range_subtree get asm f start fin child s) s
                (map fst (filter (\<lambda>(child, key). \<not> sint key < sint start) cells)))
       else Some (s, Err ''unexpected page type in range scan'')))"

subsection \<open>Counts\<close>

text \<open>A total is a \<^verbatim>\<open>u64\<close>; a tree has fewer rows than it can count.\<close>

definition add_count :: "u64 \<Rightarrow> u64 outcome \<Rightarrow> u64 visited" where
  "add_count tally r = lift_visit tally r (\<lambda>n. (tally + n, Ok True))"

definition tally_children :: "(u32 \<Rightarrow> u64 outcome option) \<Rightarrow> u32 list \<Rightarrow> u64 outcome option" where
  "tally_children go cs =
     Option.bind (visit_children (\<lambda>child tally. Option.bind (go child) (\<lambda>r. Some (add_count tally r))) 0 cs) (\<lambda>(tally, r).
       Some (bind_outcome r (\<lambda>_. Ok tally)))"

lemma tally_children_mono [partial_function_mono]:
  assumes "\<And>c. mono_option (\<lambda>F. go F c)"
  shows "mono_option (\<lambda>F. tally_children (go F) cs)"
  unfolding tally_children_def by (intro bind_mono visit_children_mono option.const_mono assms)

lemma run_then_mono [partial_function_mono]:
  "(\<And>x. mono_option (\<lambda>F. f F x)) \<Longrightarrow> mono_option (\<lambda>F. run_then m (f F))"
  by (cases m) (simp add: option.const_mono, rename_tac r, case_tac r, simp_all add: option.const_mono)

partial_function (option) count_subtree :: "page_getter \<Rightarrow> u32 \<Rightarrow> u64 outcome option" where
  "count_subtree get page_id =
     run_then (Some (get page_id)) (\<lambda>p. run_then (Some (page_type_of p)) (\<lambda>pt.
       if pt = LeafTable then Some (Ok (word_of_nat (n_cells p)))
       else if pt = InteriorTable then run_then (Some (all_children p)) (tally_children (\<lambda>child. count_subtree get child))
       else Some (Err ''unexpected page type in count'')))"

definition past_probe :: "page \<Rightarrow> i64 \<Rightarrow> nat \<Rightarrow> probe outcome" where
  "past_probe p fin mid =
     bind_outcome (cell_pointer p mid) (\<lambda>ptr.
     bind_outcome (cell_slice_checked p ptr) (\<lambda>buf.
     bind_outcome (ok_or (decode_signed buf) ''truncated leaf rowid in count_range'') (\<lambda>(rowid, _).
       Ok (if sint rowid \<le> sint fin then GoRight else GoLeft))))"

definition count_leaf :: "page \<Rightarrow> i64 \<Rightarrow> i64 \<Rightarrow> u64 outcome option" where
  "count_leaf p start fin =
     run_then (bsearch (range_probe p start) 0 (n_cells p)) (\<lambda>first_in.
     run_then (bsearch (past_probe p fin) first_in (n_cells p)) (\<lambda>hi_lo.
       Some (Ok (word_of_nat (hi_lo - first_in)))))"

text \<open>The children up to the first whose separator reaches the end; \<open>True\<close> when there is one.\<close>

fun count_children :: "page \<Rightarrow> i64 \<Rightarrow> nat list \<Rightarrow> (u32 list \<times> bool) outcome" where
  "count_children p fin [] = Ok ([], False)"
| "count_children p fin (i # is) =
     bind_outcome (cell_pointer p i) (\<lambda>ptr.
     bind_outcome (cell_slice_checked p ptr) (\<lambda>buf.
       let child = (case decode_table_interior_child buf of None \<Rightarrow> [] | Some c \<Rightarrow> [c]) in
       if (case decode_table_interior_key buf of None \<Rightarrow> False | Some k \<Rightarrow> sint fin \<le> sint k) then Ok (child, True)
       else bind_outcome (count_children p fin is) (\<lambda>(cs, past). Ok (child @ cs, past))))"

partial_function (option) count_range_subtree :: "page_getter \<Rightarrow> i64 \<Rightarrow> i64 \<Rightarrow> u32 \<Rightarrow> u64 outcome option" where
  "count_range_subtree get start fin page_id =
     run_then (Some (get page_id)) (\<lambda>p. run_then (Some (page_type_of p)) (\<lambda>pt.
       if pt = LeafTable then count_leaf p start fin
       else if pt = InteriorTable
       then run_then (bsearch (range_child_probe ''truncated interior cell in count_range'' p start) 0 (n_cells p)) (\<lambda>lo.
            run_then (Some (count_children p fin [lo..<n_cells p])) (\<lambda>r.
              tally_children (\<lambda>child. count_range_subtree get start fin child) (fst r @ (if snd r then [] else right_child p))))
       else Some (Err ''unexpected page type in count_range'')))"

subsection \<open>Records for a statement\<close>

text \<open>\<^verbatim>\<open>CellsWalk\<close>: the records copied into one arena, with the rowid, offset and length of each.\<close>

record cells_walk =
  cw_arena :: bytes
  cw_entries :: "(i64 \<times> u32 \<times> u32) list"
  cw_budget :: nat
  cw_max_bytes :: nat
  cw_hit_end :: bool
  cw_overflow_stop :: bool
  cw_last :: i64

definition cw_full :: "cells_walk \<Rightarrow> bool" where
  "cw_full w \<longleftrightarrow> cw_budget w \<le> length (cw_entries w) \<or> cw_max_bytes w \<le> length (cw_arena w)"

definition cw_copy :: "cells_walk \<Rightarrow> i64 \<Rightarrow> bytes \<Rightarrow> cells_walk" where
  "cw_copy w rowid bs =
     w\<lparr>cw_arena := cw_arena w @ bs, cw_entries := cw_entries w @ [(rowid, word_of_nat (length (cw_arena w)), word_of_nat (length bs))],
       cw_last := rowid\<rparr>"

definition cells_step :: "i64 \<Rightarrow> page \<Rightarrow> cells_walk \<Rightarrow> nat \<Rightarrow> cells_walk visited" where
  "cells_step fin p w i =
     lift_visit w (scan_rowid ''truncated leaf rowid in scan_cells'' p i) (\<lambda>(buf, rowid, n1).
       if sint fin < sint rowid then (w, Ok False)
       else lift_visit w (ok_or (varint_decode (drop n1 buf)) ''truncated leaf payload len in scan_cells'') (\<lambda>(plen, n2).
         if cw_full w then (w\<lparr>cw_hit_end := False\<rparr>, Ok False)
         else if 2 ^ 32 - 1 < unat plen then (w, Err ''record payload too large for cell serving'')
         else lift_visit w (overflow_local_len_for (unat plen) (length (pg_data p))) (\<lambda>local_len.
           if local_len = unat plen
           then if length buf < n1 + n2 + unat plen then (w, Err ''truncated leaf payload in scan_cells'')
                else (cw_copy w rowid (take (unat plen) (drop (n1 + n2) buf)), Ok True)
           else (w\<lparr>cw_hit_end := False, cw_overflow_stop := True\<rparr>, Ok False))))"

partial_function (option) scan_range_subtree_cells :: "page_getter \<Rightarrow> i64 \<Rightarrow> i64 \<Rightarrow> u32 \<Rightarrow> cells_walk \<Rightarrow> cells_walk visited option" where
  "scan_range_subtree_cells get start fin page_id w =
     lift_scan w (get page_id) (\<lambda>p. lift_scan w (page_type_of p) (\<lambda>pt.
       if pt = LeafTable
       then lift_search w (bsearch (range_probe p start) 0 (n_cells p)) (\<lambda>lo. Some (each_visit (cells_step fin p) w [lo..<n_cells p]))
       else if pt = InteriorTable
       then lift_search w (bsearch (range_child_probe ''truncated interior cell in cells scan'' p start) 0 (n_cells p)) (\<lambda>lo.
              lift_scan w (range_children p lo) (visit_children (\<lambda>child w. scan_range_subtree_cells get start fin child w) w))
       else Some (w, Err ''unexpected page type in scan_cells'')))"

definition scan_table_range_cells :: "page_getter \<Rightarrow> u32 \<Rightarrow> i64 \<Rightarrow> i64 \<Rightarrow> nat \<Rightarrow> nat \<Rightarrow> cells_walk visited option" where
  "scan_table_range_cells get root start fin budget max_arena_bytes =
     scan_range_subtree_cells get start fin root
       \<lparr>cw_arena = [], cw_entries = [], cw_budget = max budget 1, cw_max_bytes = max max_arena_bytes 1, cw_hit_end = True,
        cw_overflow_stop = False, cw_last = - (2 ^ 63)\<rparr>"

text \<open>Where the driver of a statement begins its next pull, from the last rowid it keeps.\<close>

definition resume_start :: "i64 \<Rightarrow> i64" where
  "resume_start last_rowid = (if last_rowid = - (2 ^ 63) then - (2 ^ 63) else last_rowid + 1)"

end
