(* ===== verification/Btree_Scan_Rows.thy ===== *)
theory Btree_Scan_Rows
  imports Btree_Scan
begin

text \<open>
  What the scans and counts of a stored tree do: each form of a scan shows its visitor the rows of
  the tree, or those of the range, once each and in the order of their rowids, until it asks to
  stop; the counts are the numbers of those rows.
\<close>

subsection \<open>Loops\<close>

lemma each_visit_append:
  "each_visit step s (xs @ ys) = (case each_visit step s xs of (s', r) \<Rightarrow> if r = Ok True then each_visit step s' ys else (s', r))"
  by (induction xs arbitrary: s) (auto split: prod.split)

lemma each_visit_cong: "(\<And>s x. x \<in> set xs \<Longrightarrow> step s x = step' s x) \<Longrightarrow> each_visit step s xs = each_visit step' s xs"
  by (induction xs arbitrary: s) (auto split: prod.split)

lemma each_visit_map: "each_visit step s (map g xs) = each_visit (\<lambda>s x. step s (g x)) s xs"
  by (induction xs arbitrary: s) (auto split: prod.split)

lemma map_nth_from: "map ((!) rs) [lo..<length rs] = drop lo rs"
  by (rule nth_equalityI) auto

lemma each_visit_nth:
  assumes "\<And>s i. lo \<le> i \<Longrightarrow> i < length rs \<Longrightarrow> step s i = step' s (rs ! i)"
  shows "each_visit step s [lo..<length rs] = each_visit step' s (drop lo rs)"
proof -
  have "each_visit step s [lo..<length rs] = each_visit (\<lambda>s i. step' s (rs ! i)) s [lo..<length rs]"
    using assms by (intro each_visit_cong) auto
  then show ?thesis using each_visit_map [of step' s "(!) rs" "[lo..<length rs]"] by (simp add: map_nth_from)
qed

lemma each_visit_neutral: "(\<And>s x. x \<in> set xs \<Longrightarrow> step s x = (s, Ok True)) \<Longrightarrow> each_visit step s xs = (s, Ok True)"
  by (induction xs) auto

lemma each_visit_skip:
  "(\<And>s x. x \<in> set (take k xs) \<Longrightarrow> step s x = (s, Ok True)) \<Longrightarrow> each_visit step s (drop k xs) = each_visit step s xs"
  using each_visit_append [of step s "take k xs" "drop k xs"] each_visit_neutral [of "take k xs" step s] by simp

lemma fold_outcome_total: "(\<And>b i. i \<in> set xs \<Longrightarrow> g b i = Ok (h b i)) \<Longrightarrow> fold_outcome g b xs = Ok (foldl h b xs)"
  by (induction xs arbitrary: b) auto

lemma fold_outcome_nth:
  assumes "\<And>b i. lo \<le> i \<Longrightarrow> i < length rs \<Longrightarrow> g b i = Ok (h b (rs ! i))"
  shows "fold_outcome g b [lo..<length rs] = Ok (foldl h b (drop lo rs))"
proof -
  have "fold_outcome g b [lo..<length rs] = Ok (foldl (\<lambda>b i. h b (rs ! i)) b [lo..<length rs])"
    using assms by (intro fold_outcome_total) auto
  then show ?thesis by (simp add: foldl_map flip: map_nth_from)
qed

lemma collect_at_nth:
  assumes "\<And>i. lo \<le> i \<Longrightarrow> i < length rs \<Longrightarrow> g i = Ok [h (rs ! i)]"
  shows "collect_at g [lo..<length rs] = Ok (map h (drop lo rs))"
proof -
  have "fold_outcome (\<lambda>v i. bind_outcome (g i) (\<lambda>xs. Ok (v @ xs))) [] [lo..<length rs] = Ok (foldl (\<lambda>v x. v @ [h x]) [] (drop lo rs))"
    using assms by (intro fold_outcome_nth) simp
  moreover have "foldl (\<lambda>v x. v @ [h x]) v xs = v @ map h xs" for v xs by (induction xs arbitrary: v) auto
  ultimately show ?thesis by (simp add: collect_at_def)
qed

subsection \<open>Children of a node\<close>

lemma subtree_size: "(v, key) \<in> set tks \<Longrightarrow> size v < size (TNode i tks u)"
  by (induction tks) auto

lemma child_ranged: "ranged lo hi (TNode i tks u) \<Longrightarrow> v = u \<or> (\<exists>key. (v, key) \<in> set tks) \<Longrightarrow> \<exists>lo' hi'. ranged lo' hi' v"
  by (induction tks arbitrary: lo) fastforce+

lemma child_below:
  "ranged lo hi (TNode i tks u) \<Longrightarrow> (v, key) \<in> set tks \<Longrightarrow> c \<in> set (tree_rows v) \<Longrightarrow> sint (cell_key c) \<le> sint key"
proof (induction tks arbitrary: lo)
  case (Cons sk tks)
  obtain s k where sk: "sk = (s, k)" by (cases sk)
  then show ?case using Cons ranged_rows [of lo "sint k" s c] by auto
qed simp

lemma concat_take_drop_fst:
  "concat (map (tree_rows \<circ> fst) (take k tks)) @ concat (map (tree_rows \<circ> fst) (drop k tks)) = concat (map (tree_rows \<circ> fst) tks)"
  by (metis append_take_drop_id concat_append map_append)

subsection \<open>Walks\<close>

text \<open>
  A walk visits a leaf's rows by a step and an interior page's children in their order, but for
  children on the left whose rows the step passes over. It visits the rows of the tree. A walk that
  is not \<open>guarded\<close> descends into a right-most child 0, so it does so only where there is none.
\<close>

fun all_right :: "btree \<Rightarrow> bool" where
  "all_right (TLeaf i rs) = True"
| "all_right (TNode i tks t) = ((\<forall>sk\<in>set tks. all_right (fst sk)) \<and> all_right t)"
| "all_right NoChild = False"

locale tree_walk =
  fixes guarded :: bool
    and get :: page_getter
    and walk :: "u32 \<Rightarrow> 's \<Rightarrow> 's visited option"
    and step :: "'s \<Rightarrow> cell \<Rightarrow> 's visited"
  assumes visit_leaf: "get i = Ok p \<Longrightarrow> table_leaf p rs \<Longrightarrow> walk i s = Some (each_visit step s rs)"
    and visit_node: "guarded \<or> t \<noteq> NoChild \<Longrightarrow> get i = Ok p \<Longrightarrow> holds_cells p InteriorTable (separators tks) \<Longrightarrow> right_most_pointer p = root_id t \<Longrightarrow> t = NoChild \<or> root_id t \<noteq> 0 \<Longrightarrow>
      ranged lo hi (TNode i tks t) \<Longrightarrow>
      \<exists>k. (\<forall>sk\<in>set (take k tks). \<forall>s c. sint (cell_key c) \<le> sint (snd sk) \<longrightarrow> step s c = (s, Ok True))
        \<and> walk i s = visit_children walk s (map (root_id \<circ> fst) (drop k tks) @ map root_id (right_trees t))"
begin

lemma walk_children:
  assumes "\<And>u s. u \<in> set us \<Longrightarrow> walk (root_id u) s = Some (each_visit step s (tree_rows u))"
  shows "visit_children walk s (map root_id us) = Some (each_visit step s (concat (map tree_rows us)))"
  using assms
proof (induction us arbitrary: s)
  case (Cons u us)
  then show ?case by (cases "each_visit step s (tree_rows u)") (simp add: each_visit_append)
qed simp

lemma walk_rows: "stored get t \<Longrightarrow> ranged lo hi t \<Longrightarrow> t \<noteq> NoChild \<Longrightarrow> guarded \<or> all_right t \<Longrightarrow> walk (root_id t) s = Some (each_visit step s (tree_rows t))"
proof (induction t arbitrary: lo hi s rule: measure_induct_rule [where f = size])
  case (less t)
  show ?case
  proof (cases t)
    case (TLeaf i rs)
    then show ?thesis using less.prems(1) visit_leaf by auto
  next
    case (TNode i tks u)
    then obtain p where p: "get i = Ok p" "holds_cells p InteriorTable (separators tks)" "right_most_pointer p = root_id u" "u = NoChild \<or> root_id u \<noteq> 0"
      using less.prems(1) by auto
    have g: "guarded \<or> u \<noteq> NoChild" using less.prems(4) TNode by auto
    from visit_node [OF g p, of lo hi s] obtain k where
      k: "\<And>sk s c. sk \<in> set (take k tks) \<Longrightarrow> sint (cell_key c) \<le> sint (snd sk) \<Longrightarrow> step s c = (s, Ok True)"
        "walk i s = visit_children walk s (map (root_id \<circ> fst) (drop k tks) @ map root_id (right_trees u))"
      using less.prems(2) TNode by blast
    have sub: "walk (root_id v) s = Some (each_visit step s (tree_rows v))" if "v \<in> set (map fst (drop k tks) @ right_trees u)" for v s
    proof -
      have v: "v = u \<and> v \<noteq> NoChild \<or> (\<exists>key. (v, key) \<in> set tks)" using that by (auto dest: in_set_dropD in_right_trees)
      then have "size v < size t" "stored get v" "v \<noteq> NoChild" "guarded \<or> all_right v"
        using TNode less.prems(1,4) subtree_size [of v _ tks i u] by auto
      moreover obtain lo' hi' where "ranged lo' hi' v" using child_ranged [of lo hi i tks u v] v less.prems(2) TNode by blast
      ultimately show ?thesis using less.IH by blast
    qed
    have "walk i s = Some (each_visit step s (concat (map tree_rows (map fst (drop k tks) @ right_trees u))))"
      using walk_children [of "map fst (drop k tks) @ right_trees u" s] sub k(2) by (simp add: comp_def)
    moreover have "each_visit step s (concat (map tree_rows (map fst (take k tks)))) = (s, Ok True)" for s
    proof (rule each_visit_neutral)
      fix s c
      assume "c \<in> set (concat (map tree_rows (map fst (take k tks))))"
      then obtain v key where v: "(v, key) \<in> set (take k tks)" "c \<in> set (tree_rows v)" by auto
      then have "sint (cell_key c) \<le> sint key" using child_below [of lo hi i tks u v key c] less.prems(2) TNode by (auto dest: in_set_takeD)
      then show "step s c = (s, Ok True)" using k(1) [OF v(1), of c s] by simp
    qed
    moreover have "tree_rows t = concat (map tree_rows (map fst (take k tks))) @ concat (map tree_rows (map fst (drop k tks) @ right_trees u))"
      using concat_take_drop_fst [of k tks] TNode by (simp add: case_prod_unfold comp_def flip: append_assoc)
    ultimately show ?thesis using TNode by (simp add: each_visit_append)
  qed (use less.prems(3) in simp)
qed

end

text \<open>A walk that visits every child.\<close>

locale full_walk =
  fixes get :: page_getter
    and walk :: "u32 \<Rightarrow> 's \<Rightarrow> 's visited option"
    and step :: "'s \<Rightarrow> cell \<Rightarrow> 's visited"
  assumes full_leaf: "get i = Ok p \<Longrightarrow> table_leaf p rs \<Longrightarrow> walk i s = Some (each_visit step s rs)"
    and full_node: "get i = Ok p \<Longrightarrow> holds_cells p InteriorTable (separators tks) \<Longrightarrow> right_most_pointer p = root_id t \<Longrightarrow> t = NoChild \<or> root_id t \<noteq> 0 \<Longrightarrow>
      walk i s = visit_children walk s (map (root_id \<circ> fst) tks @ map root_id (right_trees t))"

sublocale full_walk \<subseteq> tree_walk True
proof unfold_locales
  fix i p tks t lo hi s
  assume "get i = Ok p" "holds_cells p InteriorTable (separators tks)" "right_most_pointer p = root_id t" "t = NoChild \<or> root_id t \<noteq> 0"
  then show "\<exists>k. (\<forall>sk\<in>set (take k tks). \<forall>s c. sint (cell_key c) \<le> sint (snd sk) \<longrightarrow> step s c = (s, Ok True))
      \<and> walk i s = visit_children walk s (map (root_id \<circ> fst) (drop k tks) @ map root_id (right_trees t))"
    using full_node [of i p tks t s] by (intro exI [of _ 0]) simp
qed (rule full_leaf)

text \<open>A walk that begins at the child where the start of a range belongs, with a step that passes over the rows below it.\<close>

locale range_walk =
  fixes guarded :: bool
    and get :: page_getter
    and walk :: "u32 \<Rightarrow> 's \<Rightarrow> 's visited option"
    and step :: "'s \<Rightarrow> cell \<Rightarrow> 's visited"
    and start :: i64
  assumes range_leaf: "get i = Ok p \<Longrightarrow> table_leaf p rs \<Longrightarrow> walk i s = Some (each_visit step s rs)"
    and range_node: "guarded \<or> t \<noteq> NoChild \<Longrightarrow> get i = Ok p \<Longrightarrow> holds_cells p InteriorTable (separators tks) \<Longrightarrow> right_most_pointer p = root_id t \<Longrightarrow> t = NoChild \<or> root_id t \<noteq> 0 \<Longrightarrow>
      sorted_rows (separators tks) \<Longrightarrow>
      walk i s = visit_children walk s (map (root_id \<circ> fst) (drop (rank (row_lt start) (separators tks)) tks) @ map root_id (right_trees t))"
    and below: "sint (cell_key c) < sint start \<Longrightarrow> step s c = (s, Ok True)"

sublocale range_walk \<subseteq> tree_walk
proof unfold_locales
  fix i p tks t lo hi s
  assume a: "guarded \<or> t \<noteq> NoChild" "get i = Ok p" "holds_cells p InteriorTable (separators tks)" "right_most_pointer p = root_id t" "t = NoChild \<or> root_id t \<noteq> 0" "ranged lo hi (TNode i tks t)"
  have sorted: "sorted_rows (separators tks)" using separators_sorted [OF a(6)] by simp
  have "sint (snd sk) < sint start" if sk: "sk \<in> set (take (rank (row_lt start) (separators tks)) tks)" for sk
  proof -
    obtain j where j: "j < rank (row_lt start) (separators tks)" "j < length tks" "tks ! j = sk" using sk by (auto simp: in_set_conv_nth)
    then have "sint (cell_key (separators tks ! j)) < sint start" using row_lt_below [OF sorted, of j start] by (simp add: separators_def)
    then show ?thesis using j(2,3) by (cases sk) (simp add: separators_def)
  qed
  then show "\<exists>k. (\<forall>sk\<in>set (take k tks). \<forall>s c. sint (cell_key c) \<le> sint (snd sk) \<longrightarrow> step s c = (s, Ok True))
      \<and> walk i s = visit_children walk s (map (root_id \<circ> fst) (drop k tks) @ map root_id (right_trees t))"
    using range_node [OF a(1-5) sorted, of s] below by (intro exI [of _ "rank (row_lt start) (separators tks)"]) fastforce
qed (rule range_leaf)

subsection \<open>Reading the cells of a page\<close>

fun fetched_of :: "cell \<Rightarrow> fetched" where
  "fetched_of (TableLeafOverflow rowid tot local overflow) = Spilled local tot overflow"
| "fetched_of (TableLeafCell rowid payload) = Whole payload"
| "fetched_of _ = Whole []"

lemma scan_payload_encode:
  assumes "512 \<le> psz" "psz \<le> 65536" "cell_ok psz c" "cell_type c = LeafTable"
  shows "\<exists>n1. decode_signed (cell_encode c @ rest) = Some (cell_key c, n1) \<and> scan_payload msgs (cell_encode c @ rest) n1 psz = Ok (fetched_of c)"
proof (cases c)
  case (TableLeafCell rowid payload)
  then have "unat (len64 payload) = length payload" using assms by (intro unat_len64) simp
  then show ?thesis using TableLeafCell assms local_len_whole [OF assms(1), of "length payload"]
    by (intro exI [of _ "length (encode_signed rowid)"]) (simp add: scan_payload_def ok_or_def overflow_local_len)
next
  case (TableLeafOverflow rowid tot local overflow)
  then show ?thesis using assms local_len_whole [OF assms(1), of "unat tot"]
    by (intro exI [of _ "length (encode_signed rowid)"]) (simp add: scan_payload_def ok_or_def overflow_local_len)
qed (use assms(4) in simp_all)

lemma scan_rowid_holds:
  assumes "holds_cells p LeafTable rs" "i < length rs"
  shows "\<exists>buf n1. scan_rowid msg p i = Ok (buf, cell_key (rs ! i), n1) \<and> scan_payload msgs buf n1 (length (pg_data p)) = Ok (fetched_of (rs ! i))"
proof (rule holds_cell_at [OF assms])
  fix rest
  assume a: "cell_pointer p i = Ok (ptr_at p i)" "ptr_at p i < length (pg_data p)" "drop (ptr_at p i) (pg_data p) = cell_encode (rs ! i) @ rest"
    "fits_page (length (pg_data p)) LeafTable (rs ! i)"
  obtain n1 where "decode_signed (cell_encode (rs ! i) @ rest) = Some (cell_key (rs ! i), n1)"
    "scan_payload msgs (cell_encode (rs ! i) @ rest) n1 (length (pg_data p)) = Ok (fetched_of (rs ! i))"
    using scan_payload_encode [OF leaf_page(5,6) [OF assms(1)], of "rs ! i" rest msgs] a(4) by (auto simp: fits_page_def)
  then show ?thesis using a by (simp add: scan_rowid_def cell_slice_checked_def ok_or_def)
qed

lemma decode_at_holds:
  assumes "holds_cells p pt rs" "i < length rs" "pt \<noteq> Overflow"
  shows "decode_at p pt i = Ok (rs ! i)"
proof (rule holds_cell_at [OF assms(1,2)])
  fix rest
  assume a: "cell_pointer p i = Ok (ptr_at p i)" "ptr_at p i < length (pg_data p)" "drop (ptr_at p i) (pg_data p) = cell_encode (rs ! i) @ rest"
    "fits_page (length (pg_data p)) pt (rs ! i)"
  have "cell_decode (cell_encode (rs ! i) @ rest) pt (length (pg_data p)) = Ok (rs ! i)"
    using cell_decode_encode [OF leaf_page(5,6) [OF assms(1)], of "rs ! i" rest] a(4) by (simp add: fits_page_def)
  then show ?thesis using a leaf_page(2) [OF assms(1)] by (simp add: decode_at_def cell_slice_checked_def)
qed

lemma visit_fetched_of: "cell_type c = LeafTable \<Longrightarrow> visit_fetched asm f s (cell_key c) (fetched_of c) = visit_cell asm f s c"
  by (cases c) (simp_all add: visit_fetched_def visit_cell_def)

lemma scan_cell_holds: "holds_cells p LeafTable rs \<Longrightarrow> i < length rs \<Longrightarrow> scan_cell msgs p i = Ok (cell_key (rs ! i), fetched_of (rs ! i))"
  using scan_rowid_holds [of p rs i "fst msgs" msgs] by (auto simp: scan_cell_def)

lemma cell_type_holds: "holds_cells p pt rs \<Longrightarrow> c \<in> set rs \<Longrightarrow> cell_type c = pt"
  by (auto simp: holds_cells_def fits_page_def)

lemma all_children_node:
  assumes holds: "holds_cells p InteriorTable (separators tks)" and rm: "right_most_pointer p = root_id t" "t = NoChild \<or> root_id t \<noteq> 0"
  shows "all_children p = Ok (map (root_id \<circ> fst) tks @ map root_id (right_trees t))"
proof -
  have len: "length (separators tks) = length tks" by (simp add: separators_def)
  have "interior_child p i = Ok [root_id (fst (tks ! i))]" if "i < length tks" for i
    using decode_at_holds [OF holds, of i] that len by (cases "tks ! i") (auto simp: decode_at_def interior_child_def separators_def bind_outcome_eq_Ok)
  then show ?thesis using collect_at_nth [of 0 tks "interior_child p" "root_id \<circ> fst"] leaf_page(4) [OF holds] len rm
    by (auto simp: all_children_def right_child_def right_trees_def)
qed

subsection \<open>Full scans\<close>

lemma scan_leaf_borrowed_rows:
  assumes "holds_cells p LeafTable rs"
  shows "scan_leaf_borrowed asm f p s = each_visit (visit_cell asm f) s rs"
proof -
  have "each_visit (\<lambda>s i. lift_visit s (scan_cell full_msgs p i) (\<lambda>(rowid, v). visit_fetched asm f s rowid v)) s [0..<length rs] = each_visit (visit_cell asm f) s (drop 0 rs)"
    using scan_cell_holds [OF assms] cell_type_holds [OF assms] by (intro each_visit_nth) (simp add: lift_visit_def visit_fetched_of)
  then show ?thesis using leaf_page(4) [OF assms] by (simp add: scan_leaf_borrowed_def)
qed

text \<open>The bytes that a batch keeps of a cell.\<close>

fun local_part :: "cell \<Rightarrow> bytes" where
  "local_part (TableLeafOverflow rowid tot local overflow) = local"
| "local_part (TableLeafCell rowid payload) = payload"
| "local_part _ = []"

fun batch_cell_of :: "nat \<Rightarrow> cell \<Rightarrow> batch_cell" where
  "batch_cell_of off (TableLeafOverflow rowid tot local overflow) = OverflowCell rowid (word_of_nat off) (word_of_nat (length local)) tot overflow"
| "batch_cell_of off c = InPage (cell_key c) (word_of_nat off) (word_of_nat (length (local_part c)))"

definition batched :: "bytes \<Rightarrow> batch_cell \<Rightarrow> cell \<Rightarrow> bool" where
  "batched payload b c \<longleftrightarrow> cell_type c = LeafTable \<and> (\<exists>off. b = batch_cell_of off c \<and> slice payload off (off + length (local_part c)) = Ok (local_part c))"

lemma batched_mono: "batched payload b c \<Longrightarrow> batched (payload @ bs) b c"
  by (fastforce simp: batched_def slice_def split: if_splits)

lemma visit_batched: "batched payload b c \<Longrightarrow> length payload < 2 ^ 32 \<Longrightarrow> visit_batch_cell asm f payload s b = visit_cell asm f s c"
  by (cases c) (auto simp: batched_def visit_batch_cell_def visit_cell_def lift_visit_def unat_of_nat slice_def split: if_splits)

definition push_cell :: "scan_batch \<Rightarrow> cell \<Rightarrow> scan_batch" where
  "push_cell b c = push_fetched b (cell_key c) (fetched_of c)"

lemma push_cell_batched:
  assumes "cell_type c = LeafTable"
  shows "sb_payload (push_cell b c) = sb_payload b @ local_part c"
    and "\<exists>x. sb_cells (push_cell b c) = sb_cells b @ [x] \<and> batched (sb_payload (push_cell b c)) x c"
  using assms by (cases c; simp add: push_cell_def push_fetched_def push_in_page_def push_overflow_def batched_def slice_def; fastforce)+

lemma push_cells_batched:
  assumes "\<And>c. c \<in> set rs \<Longrightarrow> cell_type c = LeafTable" "list_all2 (batched (sb_payload b)) (sb_cells b) cs"
  shows "list_all2 (batched (sb_payload (foldl push_cell b rs))) (sb_cells (foldl push_cell b rs)) (cs @ rs)
    \<and> length (sb_payload (foldl push_cell b rs)) = length (sb_payload b) + sum_list (map (length \<circ> local_part) rs)"
  using assms
proof (induction rs arbitrary: b cs)
  case (Cons c rs)
  obtain x where x: "sb_cells (push_cell b c) = sb_cells b @ [x]" "batched (sb_payload (push_cell b c)) x c"
    using push_cell_batched(2) Cons.prems(1) by fastforce
  have pl: "sb_payload (push_cell b c) = sb_payload b @ local_part c" using push_cell_batched(1) Cons.prems(1) by simp
  have "list_all2 (batched (sb_payload (push_cell b c))) (sb_cells (push_cell b c)) (cs @ [c])"
    using x Cons.prems(2) batched_mono pl by (auto intro!: list_all2_appendI elim: list_all2_mono)
  from Cons.IH [OF _ this] show ?case using Cons.prems(1) pl by simp
qed simp

lemma local_part_le:
  assumes "holds_cells p LeafTable rs" "c \<in> set rs"
  shows "length (local_part c) \<le> 65536"
proof -
  obtain i where i: "i < length rs" "rs ! i = c" using assms(2) by (auto simp: in_set_conv_nth)
  obtain "length (cell_encode c) \<le> 65536" using holds_cell_at [OF assms(1) i(1)] i(2) by blast
  moreover have "length (local_part c) \<le> length (cell_encode c)" by (cases c) auto
  ultimately show ?thesis by linarith
qed

lemma local_part_small:
  assumes "holds_cells p LeafTable rs"
  shows "sum_list (map (length \<circ> local_part) rs) < 2 ^ 32"
proof -
  have "sum_list (map (length \<circ> local_part) rs) \<le> length rs * 65536" using local_part_le [OF assms] by (induction rs) fastforce+
  then show ?thesis using holds_few [OF assms] by simp
qed

lemma batch_visit_rows:
  assumes "\<And>c. c \<in> set rs \<Longrightarrow> cell_type c = LeafTable" "sum_list (map (length \<circ> local_part) rs) < 2 ^ 32"
  shows "batch_visit asm f (foldl push_cell empty_batch rs) s = each_visit (visit_cell asm f) s rs"
proof -
  let ?b = "foldl push_cell empty_batch rs"
  have b: "list_all2 (batched (sb_payload ?b)) (sb_cells ?b) rs" "length (sb_payload ?b) < 2 ^ 32"
    using push_cells_batched [of rs empty_batch "[]"] assms by (simp_all add: empty_batch_def)
  have "each_visit (visit_batch_cell asm f (sb_payload ?b)) s xs = each_visit (visit_cell asm f) s ys" if "list_all2 (batched (sb_payload ?b)) xs ys" for s xs ys
    using that by (induction arbitrary: s rule: list_all2_induct) (simp_all add: visit_batched [OF _ b(2)] split: prod.split)
  then show ?thesis using b(1) by (simp add: batch_visit_def)
qed

lemma batch_leaf_rows:
  assumes "holds_cells p LeafTable rs"
  shows "batch_leaf p = Ok (foldl push_cell empty_batch rs)"
proof -
  have "fold_outcome (\<lambda>b i. bind_outcome (scan_cell full_msgs p i) (\<lambda>(rowid, v). Ok (push_fetched b rowid v))) empty_batch [0..<length rs]
      = Ok (foldl push_cell empty_batch (drop 0 rs))"
    using scan_cell_holds [OF assms] by (intro fold_outcome_nth) (simp add: push_cell_def)
  then show ?thesis using leaf_page(4) [OF assms] by (simp add: batch_leaf_def)
qed

lemma table_leaf_holds: "table_leaf p rs \<Longrightarrow> holds_cells p LeafTable rs \<and> page_type_of p = Ok LeafTable"
  using leaf_page(3) by (auto simp: table_leaf_def)

interpretation borrowed_scan: full_walk get "scan_subtree_borrowed_fast get asm f" "visit_cell asm f"
  for get asm f
proof unfold_locales
  fix i p rs s
  assume "get i = Ok p" "table_leaf p rs"
  then show "scan_subtree_borrowed_fast get asm f i s = Some (each_visit (visit_cell asm f) s rs)"
    using table_leaf_holds [of p rs] scan_leaf_borrowed_rows [of p rs asm f s] by (subst scan_subtree_borrowed_fast.simps) (simp add: lift_scan_def)
next
  fix i p tks t s
  assume a: "get i = Ok p" "holds_cells p InteriorTable (separators tks)" "right_most_pointer p = root_id t" "t = NoChild \<or> root_id t \<noteq> 0"
  then show "scan_subtree_borrowed_fast get asm f i s = visit_children (scan_subtree_borrowed_fast get asm f) s (map (root_id \<circ> fst) tks @ map root_id (right_trees t))"
    using leaf_page(3) [OF a(2)] all_children_node [OF a(2-4)] by (subst scan_subtree_borrowed_fast.simps) (simp add: lift_scan_def)
qed

interpretation deferred_scan: full_walk get "scan_subtree_borrowed get asm f" "visit_cell asm f"
  for get asm f
proof unfold_locales
  fix i p rs s
  assume a: "get i = Ok p" "table_leaf p rs"
  then have h: "holds_cells p LeafTable rs" "page_type_of p = Ok LeafTable" using table_leaf_holds by auto
  show "scan_subtree_borrowed get asm f i s = Some (each_visit (visit_cell asm f) s rs)"
    using a(1) h(2) batch_leaf_rows [OF h(1)] batch_visit_rows [OF cell_type_holds [OF h(1)] local_part_small [OF h(1)], of asm f s]
    by (subst scan_subtree_borrowed.simps) (simp add: lift_scan_def)
next
  fix i p tks t s
  assume a: "get i = Ok p" "holds_cells p InteriorTable (separators tks)" "right_most_pointer p = root_id t" "t = NoChild \<or> root_id t \<noteq> 0"
  then show "scan_subtree_borrowed get asm f i s = visit_children (scan_subtree_borrowed get asm f) s (map (root_id \<circ> fst) tks @ map root_id (right_trees t))"
    using leaf_page(3) [OF a(2)] all_children_node [OF a(2-4)] by (subst scan_subtree_borrowed.simps) (simp add: lift_scan_def)
qed

lemma decoded_each_visit:
  assumes "holds_cells p LeafTable rs"
  shows "each_visit (\<lambda>s i. lift_visit s (decode_at p LeafTable i) (step s)) s [0..<n_cells p] = each_visit step s rs"
  using each_visit_nth [of 0 rs "\<lambda>s i. lift_visit s (decode_at p LeafTable i) (step s)" step s] decode_at_holds [OF assms] leaf_page(4) [OF assms]
  by (simp add: lift_visit_def)

interpretation decoded_scan: full_walk get "scan_subtree get asm f" "visit_cell asm f"
  for get asm f
proof unfold_locales
  fix i p rs s
  assume a: "get i = Ok p" "table_leaf p rs"
  then show "scan_subtree get asm f i s = Some (each_visit (visit_cell asm f) s rs)"
    using table_leaf_holds [OF a(2)] decoded_each_visit [of p rs "visit_cell asm f" s] by (subst scan_subtree.simps) (simp add: lift_scan_def)
next
  fix i p tks t s
  assume a: "get i = Ok p" "holds_cells p InteriorTable (separators tks)" "right_most_pointer p = root_id t" "t = NoChild \<or> root_id t \<noteq> 0"
  then show "scan_subtree get asm f i s = visit_children (scan_subtree get asm f) s (map (root_id \<circ> fst) tks @ map root_id (right_trees t))"
    using leaf_page(3) [OF a(2)] all_children_node [OF a(2-4)] by (subst scan_subtree.simps) (simp add: lift_scan_def)
qed

subsection \<open>Range scans\<close>

definition range_row :: "assemble \<Rightarrow> 's visitor \<Rightarrow> i64 \<Rightarrow> i64 \<Rightarrow> 's \<Rightarrow> cell \<Rightarrow> 's visited" where
  "range_row asm f start fin s c =
     (if sint (cell_key c) < sint start then (s, Ok True) else if sint fin < sint (cell_key c) then (s, Ok False) else visit_cell asm f s c)"

lemma rows_from_start:
  assumes "sorted_rows rs" "c \<in> set (drop (rank (row_lt start) rs) rs)"
  shows "sint start \<le> sint (cell_key c)"
proof -
  obtain j where "j < length (drop (rank (row_lt start) rs) rs)" "drop (rank (row_lt start) rs) rs ! j = c" using assms(2) by (metis in_set_conv_nth)
  then have "rank (row_lt start) rs + j < length rs" "rs ! (rank (row_lt start) rs + j) = c" by simp_all
  then show ?thesis using row_lt_below [OF assms(1), of "rank (row_lt start) rs + j" start] by simp
qed

lemma rows_before_start: "sorted_rows rs \<Longrightarrow> c \<in> set (take (rank (row_lt start) rs) rs) \<Longrightarrow> sint (cell_key c) < sint start"
proof -
  assume a: "sorted_rows rs" "c \<in> set (take (rank (row_lt start) rs) rs)"
  then obtain j where "j < rank (row_lt start) rs" "j < length rs" "rs ! j = c" by (auto simp: in_set_conv_nth)
  then show ?thesis using row_lt_below [OF a(1), of j start] by simp
qed

lemma range_row_skip: "sorted_rows rs \<Longrightarrow> each_visit (range_row asm f start fin) s (drop (rank (row_lt start) rs) rs) = each_visit (range_row asm f start fin) s rs"
  by (rule each_visit_skip) (simp add: range_row_def rows_before_start)

lemma range_search:
  assumes "holds_cells p LeafTable rs" "sorted_rows rs"
  shows "bsearch (range_probe p start) 0 (n_cells p) = Some (Ok (rank (row_lt start) rs))"
proof -
  have "range_probe p start i = Ok (if i < rank (row_lt start) rs then GoRight else GoLeft)" if i: "i < length rs" for i
  proof (rule holds_cell_at [OF assms(1) i])
    fix rest
    assume a: "cell_pointer p i = Ok (ptr_at p i)" "ptr_at p i < length (pg_data p)" "drop (ptr_at p i) (pg_data p) = cell_encode (rs ! i) @ rest"
      "fits_page (length (pg_data p)) LeafTable (rs ! i)"
    have "\<exists>n1. decode_signed (cell_encode (rs ! i) @ rest) = Some (cell_key (rs ! i), n1)"
      using scan_payload_encode [OF leaf_page(5,6) [OF assms(1)], of "rs ! i" rest full_msgs] a(4) by (auto simp: fits_page_def)
    then show ?thesis using a row_lt_below [OF assms(2) i, of start] by (auto simp: range_probe_def cell_slice_checked_def)
  qed
  then show ?thesis using holds_few [OF assms(1)] rank_le [of "row_lt start" rs] leaf_page(4) [OF assms(1)] by (simp add: bsearch_rank)
qed

lemma range_child_search:
  assumes holds: "holds_cells p InteriorTable (separators tks)" and sorted: "sorted_rows (separators tks)"
  shows "bsearch (range_child_probe msg p start) 0 (n_cells p) = Some (Ok (rank (row_lt start) (separators tks)))"
proof -
  have len: "length (separators tks) = length tks" by (simp add: separators_def)
  have "range_child_probe msg p start i = Ok (if i < rank (row_lt start) (separators tks) then GoRight else GoLeft)" if "i < length tks" for i
    using separator_reads [OF holds that, of NoChild] row_lt_below [OF sorted, of i start] that len
    by (auto simp: range_child_probe_def cell_slice_checked_def decode_table_interior_key_def ok_or_def add.commute)
  then show ?thesis using holds_few [OF holds] rank_le [of "row_lt start" "separators tks"] leaf_page(4) [OF holds] len by (simp add: bsearch_rank)
qed

lemma range_children_node:
  assumes holds: "holds_cells p InteriorTable (separators tks)" and rm: "right_most_pointer p = root_id t" "t = NoChild \<or> root_id t \<noteq> 0"
  shows "range_children p lo = Ok (map (root_id \<circ> fst) (drop lo tks) @ map root_id (right_trees t))"
proof -
  have "range_child p i = Ok [root_id (fst (tks ! i))]" if "i < length tks" for i
    using separator_reads [OF holds that, of t] that by (auto simp: range_child_def cell_slice_checked_def decode_table_interior_child_def child_id_def)
  then show ?thesis using collect_at_nth [of lo tks "range_child p" "root_id \<circ> fst"] leaf_page(4) [OF holds] rm
    by (auto simp: range_children_def right_child_def right_trees_def separators_def)
qed

lemma range_step_rows:
  assumes holds: "holds_cells p LeafTable rs" and sorted: "sorted_rows rs"
  shows "each_visit (range_step asm f start fin p) s [rank (row_lt start) rs..<n_cells p] = each_visit (range_row asm f start fin) s rs"
proof -
  let ?k = "rank (row_lt start) rs"
  have "range_step asm f start fin p s i = range_row asm f start fin s (rs ! i)" if i: "?k \<le> i" "i < length rs" for s i
  proof -
    obtain buf n1 where "scan_rowid (fst range_msgs) p i = Ok (buf, cell_key (rs ! i), n1)" "scan_payload range_msgs buf n1 (length (pg_data p)) = Ok (fetched_of (rs ! i))"
      using scan_rowid_holds [OF holds i(2)] by blast
    moreover have "sint start \<le> sint (cell_key (rs ! i))" using row_lt_below [OF sorted i(2), of start] i(1) by simp
    moreover have "visit_fetched asm f s (cell_key (rs ! i)) (fetched_of (rs ! i)) = visit_cell asm f s (rs ! i)"
      using cell_type_holds [OF holds] i(2) by (intro visit_fetched_of) simp
    ultimately show ?thesis by (simp add: range_step_def range_row_def lift_visit_def)
  qed
  then have "each_visit (range_step asm f start fin p) s [?k..<length rs] = each_visit (range_row asm f start fin) s (drop ?k rs)"
    by (intro each_visit_nth)
  then show ?thesis using leaf_page(4) [OF holds] range_row_skip [OF sorted, of asm f start fin s] by simp
qed

interpretation range_scan: range_walk True get "scan_range_subtree_borrowed get asm f start fin" "range_row asm f start fin" start
  for get asm f start fin
proof unfold_locales
  fix i p rs s
  assume a: "get i = Ok p" "table_leaf p rs"
  then have h: "holds_cells p LeafTable rs" "sorted_rows rs" "page_type_of p = Ok LeafTable" using table_leaf_holds by (auto simp: table_leaf_def)
  then show "scan_range_subtree_borrowed get asm f start fin i s = Some (each_visit (range_row asm f start fin) s rs)"
    using a(1) range_search [OF h(1,2)] range_step_rows [OF h(1,2), of asm f start fin s]
    by (subst scan_range_subtree_borrowed.simps) (simp add: lift_scan_def lift_search_def)
next
  fix i p tks t s
  assume a: "get i = Ok p" "holds_cells p InteriorTable (separators tks)" "right_most_pointer p = root_id t" "t = NoChild \<or> root_id t \<noteq> 0" "sorted_rows (separators tks)"
  then show "scan_range_subtree_borrowed get asm f start fin i s
      = visit_children (scan_range_subtree_borrowed get asm f start fin) s (map (root_id \<circ> fst) (drop (rank (row_lt start) (separators tks)) tks) @ map root_id (right_trees t))"
    using leaf_page(3) [OF a(2)] range_child_search [OF a(2,5)] range_children_node [OF a(2-4)]
    by (subst scan_range_subtree_borrowed.simps) (simp add: lift_scan_def lift_search_def)
qed (simp add: range_row_def)

end
