(* ===== verification/Btree_Scan_Range.thy ===== *)
theory Btree_Scan_Range
  imports Btree_Scan_Rows
begin

text \<open>
  The deferred and the decoding form of a range scan, the rows a range scan shows, and the counts.
\<close>

subsection \<open>The deferred form\<close>

lemma batch_range_rows:
  assumes holds: "holds_cells p LeafTable rs"
  shows "(\<And>c. c \<in> set (drop lo rs) \<Longrightarrow> sint start \<le> sint (cell_key c)) \<Longrightarrow> lo \<le> length rs \<Longrightarrow>
    batch_range p start fin b [lo..<length rs] =
      Ok (foldl push_cell b (takeWhile (\<lambda>c. sint (cell_key c) \<le> sint fin) (drop lo rs)), \<exists>c\<in>set (drop lo rs). sint fin < sint (cell_key c))"
proof (induction "length rs - lo" arbitrary: lo b)
  case (Suc d)
  then have lo: "lo < length rs" by simp
  obtain buf n1 where r: "scan_rowid (fst range_msgs) p lo = Ok (buf, cell_key (rs ! lo), n1)" "scan_payload range_msgs buf n1 (length (pg_data p)) = Ok (fetched_of (rs ! lo))"
    using scan_rowid_holds [OF holds lo] by blast
  have d: "drop lo rs = rs ! lo # drop (Suc lo) rs" using Cons_nth_drop_Suc [OF lo] by simp
  have u: "[lo..<length rs] = lo # [Suc lo..<length rs]" using lo by (simp add: upt_conv_Cons)
  have start: "sint start \<le> sint (cell_key (rs ! lo))" using Suc.prems(1) d by simp
  show ?case
  proof (cases "sint fin < sint (cell_key (rs ! lo))")
    case True
    then show ?thesis unfolding u d using r by simp
  next
    case False
    have "batch_range p start fin (push_cell b (rs ! lo)) [Suc lo..<length rs] =
      Ok (foldl push_cell (push_cell b (rs ! lo)) (takeWhile (\<lambda>c. sint (cell_key c) \<le> sint fin) (drop (Suc lo) rs)), \<exists>c\<in>set (drop (Suc lo) rs). sint fin < sint (cell_key c))"
      using Suc.hyps(2) Suc.prems(1) lo d by (intro Suc.hyps(1)) auto
    then show ?thesis unfolding u d using r False start by (simp add: push_cell_def)
  qed
qed simp

lemma range_row_until:
  assumes "\<And>c. c \<in> set rs \<Longrightarrow> sint start \<le> sint (cell_key c)"
  shows "each_visit (range_row asm f start fin) s rs =
    (case each_visit (visit_cell asm f) s (takeWhile (\<lambda>c. sint (cell_key c) \<le> sint fin) rs) of (s', r) \<Rightarrow>
       (s', bind_outcome r (\<lambda>cont. Ok (cont \<and> \<not> (\<exists>c\<in>set rs. sint fin < sint (cell_key c))))))"
  using assms
proof (induction rs arbitrary: s)
  case (Cons c rs)
  have c: "\<not> sint (cell_key c) < sint start" using Cons.prems [of c] by simp
  show ?case
  proof (cases "sint fin < sint (cell_key c)")
    case True
    then show ?thesis using c by (simp add: range_row_def)
  next
    case False
    obtain s' r where v: "visit_cell asm f s c = (s', r)" by (cases "visit_cell asm f s c")
    show ?thesis
    proof (cases "r = Ok True")
      case True
      then show ?thesis using False c v Cons.IH [of s'] Cons.prems by (simp add: range_row_def)
    next
      case r: False
      have "bind_outcome r (\<lambda>cont. Ok (cont \<and> \<not> (\<exists>c\<in>set rs. sint fin < sint (cell_key c)))) = r" using r by (cases r) auto
      then show ?thesis using False c v r by (simp add: range_row_def)
    qed
  qed
qed simp

lemma sum_list_takeWhile: "sum_list (map g (takeWhile P xs)) \<le> (sum_list (map g xs) :: nat)"
  by (induction xs) auto

lemma sum_list_drop: "sum_list (map g (drop k xs)) \<le> (sum_list (map g xs) :: nat)"
  by (metis append_take_drop_id le_add2 map_append sum_list_append)

lemma deferred_leaf_rows:
  assumes "table_leaf p rs"
  shows "lift_search s (bsearch (range_probe p start) 0 (n_cells p)) (\<lambda>lo.
      lift_scan s (batch_range p start fin empty_batch [lo..<n_cells p]) (\<lambda>r. Some (visit_range_batch asm f s r)))
    = Some (each_visit (range_row asm f start fin) s rs)"
proof -
  have h: "holds_cells p LeafTable rs" "sorted_rows rs" using assms by (auto simp: table_leaf_def)
  let ?k = "rank (row_lt start) rs" let ?ds = "takeWhile (\<lambda>c. sint (cell_key c) \<le> sint fin) (drop ?k rs)"
  note from_start = rows_from_start [OF h(2), of _ start]
  have "sum_list (map (length \<circ> local_part) ?ds) < 2 ^ 32"
    using local_part_small [OF h(1)] sum_list_takeWhile [of "length \<circ> local_part" _ "drop ?k rs"] sum_list_drop [of "length \<circ> local_part" ?k rs] by (meson le_less_trans)
  moreover have "cell_type c = LeafTable" if "c \<in> set ?ds" for c
    using cell_type_holds [OF h(1)] that by (auto dest!: set_takeWhileD in_set_dropD)
  ultimately have "batch_visit asm f (foldl push_cell empty_batch ?ds) s = each_visit (visit_cell asm f) s ?ds" by (intro batch_visit_rows)
  then have "visit_range_batch asm f s (foldl push_cell empty_batch ?ds, \<exists>c\<in>set (drop ?k rs). sint fin < sint (cell_key c)) = each_visit (range_row asm f start fin) s rs"
    using range_row_until [of "drop ?k rs" start asm f fin s] from_start range_row_skip [OF h(2), of asm f start fin s] by (simp add: visit_range_batch_def)
  then show ?thesis using range_search [OF h] batch_range_rows [OF h(1), of ?k start fin empty_batch] from_start rank_le [of "row_lt start" rs] leaf_page(4) [OF h(1)]
    by (simp add: lift_search_def lift_scan_def)
qed

interpretation deferred_range_scan: full_walk get "scan_range_subtree_borrowed_deferred get asm f start fin" "range_row asm f start fin"
  for get asm f start fin
proof unfold_locales
  fix i p rs s
  assume a: "get i = Ok p" "table_leaf p rs"
  then show "scan_range_subtree_borrowed_deferred get asm f start fin i s = Some (each_visit (range_row asm f start fin) s rs)"
    using table_leaf_holds [OF a(2)] deferred_leaf_rows [OF a(2), of s start fin asm f]
    by (subst scan_range_subtree_borrowed_deferred.simps) (simp add: lift_scan_def [of _ "Ok x" for x])
next
  fix i p tks t s
  assume a: "get i = Ok p" "holds_cells p InteriorTable (separators tks)" "right_most_pointer p = root_id t" "t = NoChild \<or> root_id t \<noteq> 0"
  then show "scan_range_subtree_borrowed_deferred get asm f start fin i s
      = visit_children (scan_range_subtree_borrowed_deferred get asm f start fin) s (map (root_id \<circ> fst) tks @ map root_id (right_trees t))"
    using leaf_page(3) [OF a(2)] all_children_node [OF a(2-4)] by (subst scan_range_subtree_borrowed_deferred.simps) (simp add: lift_scan_def)
qed

subsection \<open>The form that decodes each cell\<close>

definition never_stops :: "'s visitor \<Rightarrow> bool" where
  "never_stops f \<longleftrightarrow> (\<forall>s r b. snd (f s r b))"

lemma never_stops_call: "never_stops f \<Longrightarrow> snd (call_visitor f s r b) = Ok True"
  by (simp add: never_stops_def call_visitor_def split: prod.split) (metis snd_conv)

lemma never_stops_visit: "never_stops f \<Longrightarrow> snd (visit_cell asm f s c) \<noteq> Ok False"
  by (cases c) (simp_all add: visit_cell_def lift_visit_def never_stops_call split: outcome.split)

lemma decoded_range_rows:
  assumes "never_stops f" "\<And>c. c \<in> set rs \<Longrightarrow> cell_type c = LeafTable" "sorted_rows rs"
  shows "answers_nothing (each_visit (range_cell asm f start fin) s rs) = each_visit (\<lambda>s c. answers_nothing (range_row asm f start fin s c)) s rs"
  using assms(2,3)
proof (induction rs arbitrary: s)
  case (Cons c rs)
  have kind: "case c of TableLeafCell _ _ \<Rightarrow> True | TableLeafOverflow _ _ _ _ \<Rightarrow> True | _ \<Rightarrow> False" using Cons.prems(1) [of c] by (cases c) auto
  have later: "sint (cell_key c) < sint (cell_key d)" if "d \<in> set rs" for d using Cons.prems(2) that by (auto simp: sorted_rows_def)
  have IH: "answers_nothing (each_visit (range_cell asm f start fin) s rs) = each_visit (\<lambda>s c. answers_nothing (range_row asm f start fin s c)) s rs" for s
    using Cons by (simp add: sorted_rows_def)
  show ?case
  proof (cases "sint fin < sint (cell_key c)")
    case True
    have "each_visit (\<lambda>s c. answers_nothing (range_row asm f start fin s c)) s (c # rs) = (s, Ok True)"
      using True later by (intro each_visit_neutral) (fastforce simp: range_row_def answers_nothing_def)
    moreover have "answers_nothing (each_visit (range_cell asm f start fin) s (c # rs)) = (s, Ok True)"
      using True kind by (simp add: range_cell_def answers_nothing_def)
    ultimately show ?thesis by simp
  next
    case False
    obtain s' r where v: "visit_cell asm f s c = (s', r)" by (cases "visit_cell asm f s c")
    have "r \<noteq> Ok False" using never_stops_visit [OF assms(1), of asm s c] v by simp
    then have a: "answers_nothing (s', r) = (s', r)" by (cases r) (auto simp: answers_nothing_def)
    have "range_cell asm f start fin s c = (if sint (cell_key c) < sint start then (s, Ok True) else (s', r))"
      "answers_nothing (range_row asm f start fin s c) = (if sint (cell_key c) < sint start then (s, Ok True) else (s', r))"
      using False kind v a by (simp_all add: range_cell_def range_row_def) (simp add: answers_nothing_def)
    then show ?thesis using IH a by simp
  qed
qed (simp add: answers_nothing_def)

lemma keyed_children_node:
  assumes holds: "holds_cells p InteriorTable (separators tks)" and rm: "right_most_pointer p = root_id t"
  shows "keyed_children p = Ok (map (\<lambda>sk. (root_id (fst sk), snd sk)) tks @ [(root_id t, 2 ^ 63 - 1)])"
proof -
  have len: "length (separators tks) = length tks" by (simp add: separators_def)
  have "keyed_child p i = Ok [(root_id (fst (tks ! i)), snd (tks ! i))]" if "i < length tks" for i
    using decode_at_holds [OF holds, of i] that len by (cases "tks ! i") (simp add: keyed_child_def separators_def)
  then show ?thesis using collect_at_nth [of 0 tks "keyed_child p" "\<lambda>sk. (root_id (fst sk), snd sk)"] leaf_page(4) [OF holds] len rm
    by (simp add: keyed_children_def)
qed

lemma filter_separators:
  "sorted_rows (separators tks) \<Longrightarrow>
   map fst (filter (\<lambda>(child, key). \<not> sint key < sint start) (map (\<lambda>sk. (root_id (fst sk), snd sk)) tks)) =
   map (root_id \<circ> fst) (drop (rank (row_lt start) (separators tks)) tks)"
proof (induction tks)
  case (Cons sk tks)
  obtain s k where sk: "sk = (s, k)" by (cases sk)
  have sorted: "sorted_rows (separators tks)" "\<And>sk. sk \<in> set tks \<Longrightarrow> sint k < sint (snd sk)"
    using Cons.prems sk by (auto simp: separators_def sorted_rows_def)
  show ?case
  proof (cases "sint k < sint start")
    case True
    then show ?thesis using Cons.IH [OF sorted(1)] sk by (simp add: rank_def separators_def row_lt_def)
  next
    case False
    then have "filter (\<lambda>(child, key). \<not> sint key < sint start) (map (\<lambda>sk. (root_id (fst sk), snd sk)) tks) = map (\<lambda>sk. (root_id (fst sk), snd sk)) tks"
      using sorted(2) by (fastforce intro!: filter_True)
    then show ?thesis using False sk by (simp add: rank_def separators_def row_lt_def comp_def)
  qed
qed (simp add: separators_def rank_def)

lemma i64_max: "\<not> sint (2 ^ 63 - 1 :: i64) < sint (start :: i64)"
  using i64_range(2) [of start] by simp

definition keeps_going :: "'s visitor \<Rightarrow> 's visitor" where
  "keeps_going f s r b = (fst (f s r b), True)"

lemma keeps_going: "never_stops (keeps_going f)" "never_stops f \<Longrightarrow> keeps_going f = f"
  by (auto simp: never_stops_def keeps_going_def fun_eq_iff prod_eq_iff)

lemma decoded_range_leaf:
  assumes "get i = Ok p" "table_leaf p rs"
  shows "scan_range_subtree get asm f start fin i s = Some (answers_nothing (each_visit (range_cell asm f start fin) s rs))"
  using assms table_leaf_holds [OF assms(2)] decoded_each_visit [of p rs "range_cell asm f start fin" s] by (subst scan_range_subtree.simps) (simp add: lift_scan_def)

lemma decoded_range_node:
  assumes "get i = Ok p" "holds_cells p InteriorTable (separators tks)" "right_most_pointer p = root_id t" "sorted_rows (separators tks)"
  shows "scan_range_subtree get asm f start fin i s
    = visit_children (scan_range_subtree get asm f start fin) s (map (root_id \<circ> fst) (drop (rank (row_lt start) (separators tks)) tks) @ [root_id t])"
  using assms(1) leaf_page(3) [OF assms(2)] keyed_children_node [OF assms(2,3)] filter_separators [OF assms(4), of start] i64_max [of start]
  by (subst scan_range_subtree.simps) (simp add: lift_scan_def)

interpretation decoded_range_scan: range_walk False get "scan_range_subtree get asm (keeps_going f) start fin" "\<lambda>s c. answers_nothing (range_row asm (keeps_going f) start fin s c)" start
  for get asm f start fin
proof unfold_locales
  fix i p rs s
  assume a: "get i = Ok p" "table_leaf p rs"
  then have h: "holds_cells p LeafTable rs" "sorted_rows rs" by (auto simp: table_leaf_def)
  show "scan_range_subtree get asm (keeps_going f) start fin i s = Some (each_visit (\<lambda>s c. answers_nothing (range_row asm (keeps_going f) start fin s c)) s rs)"
    using a decoded_range_leaf [of get i p rs asm "keeps_going f" start fin s] decoded_range_rows [OF keeps_going(1) cell_type_holds [OF h(1)] h(2), of asm f start fin s] by simp
qed (simp_all add: decoded_range_node right_trees_def range_row_def answers_nothing_def)

subsection \<open>The rows of a range\<close>

definition in_range :: "i64 \<Rightarrow> i64 \<Rightarrow> cell \<Rightarrow> bool" where
  "in_range start fin c \<longleftrightarrow> sint start \<le> sint (cell_key c) \<and> sint (cell_key c) \<le> sint fin"

lemma range_row_filter:
  "sorted_rows rs \<Longrightarrow> outcome_of (Some (each_visit (range_row asm f start fin) s rs)) = outcome_of (Some (each_visit (visit_cell asm f) s (filter (in_range start fin) rs)))"
proof (induction rs arbitrary: s)
  case (Cons c rs)
  have later: "sint (cell_key c) < sint (cell_key d)" if "d \<in> set rs" for d using Cons.prems that by (auto simp: sorted_rows_def)
  have IH: "outcome_of (Some (each_visit (range_row asm f start fin) s rs)) = outcome_of (Some (each_visit (visit_cell asm f) s (filter (in_range start fin) rs)))" for s
    using Cons by (simp add: sorted_rows_def)
  consider "sint (cell_key c) < sint start" | "sint start \<le> sint (cell_key c)" "sint fin < sint (cell_key c)" | "in_range start fin c" unfolding in_range_def by linarith
  then show ?case
  proof cases
    case 1
    then have "range_row asm f start fin s c = (s, Ok True)" "\<not> in_range start fin c" by (simp_all add: range_row_def in_range_def)
    then show ?thesis using IH by simp
  next
    case 2
    then have "filter (in_range start fin) (c # rs) = []" using later by (fastforce simp: in_range_def filter_empty_conv)
    moreover have "range_row asm f start fin s c = (s, Ok False)" using 2 by (simp add: range_row_def)
    ultimately show ?thesis by (simp add: outcome_of_def)
  next
    case 3
    obtain s' r where v: "visit_cell asm f s c = (s', r)" by (cases "visit_cell asm f s c")
    moreover have "range_row asm f start fin s c = visit_cell asm f s c" using 3 by (simp add: range_row_def in_range_def)
    ultimately show ?thesis using 3 IH [of s'] by (cases "r = Ok True") simp_all
  qed
qed simp

lemma never_stops_rows:
  assumes "never_stops f"
  shows "outcome_of (Some (each_visit (\<lambda>s c. answers_nothing (range_row asm f start fin s c)) s rs)) = outcome_of (Some (each_visit (visit_cell asm f) s (filter (in_range start fin) rs)))"
proof (induction rs arbitrary: s)
  case (Cons c rs)
  consider "\<not> in_range start fin c" | "in_range start fin c" by blast
  then show ?case
  proof cases
    case 1
    then have "answers_nothing (range_row asm f start fin s c) = (s, Ok True)" by (auto simp: range_row_def answers_nothing_def in_range_def)
    then show ?thesis using 1 Cons.IH by simp
  next
    case 2
    obtain s' r where v: "visit_cell asm f s c = (s', r)" by (cases "visit_cell asm f s c")
    have "r \<noteq> Ok False" using never_stops_visit [OF assms, of asm s c] v by simp
    then have "answers_nothing (range_row asm f start fin s c) = (s', r)" using 2 v by (cases r) (auto simp: range_row_def answers_nothing_def in_range_def)
    then show ?thesis using 2 v Cons.IH by simp
  qed
qed simp

subsection \<open>What a scan shows\<close>

lemma table_treeD: "table_tree psz get t \<Longrightarrow> stored get t" "table_tree psz get t \<Longrightarrow> ranged (- (2 ^ 63) - 1) (2 ^ 63 - 1) t"
    "table_tree psz get t \<Longrightarrow> t \<noteq> NoChild"
  by (auto simp: table_tree_def)

text \<open>
  C13: The three full scans of a table tree are one. Lending the bytes of the page, copying each leaf
  before the visitor runs and decoding each cell all show the visitor the rows of the tree, once
  each and in ascending order of rowid, with the payload assembled from its chain, and leave at
  the first row it refuses or whose chain fails, with the same state of the visitor and the same
  outcome; the 32-bit offsets of the copied leaf never wrap. The interior pages may lack a
  right-most child, as those on the left of a split do: no scan descends into page 0.
\<close>

theorem full_scans_agree:
  assumes "table_tree psz get t"
  shows "scan_table_borrowed_opts get asm (root_id t) f may_reenter s = scan_table get asm (root_id t) f s
    \<and> scan_table get asm (root_id t) f s = outcome_of (Some (each_visit (visit_cell asm f) s (tree_rows t)))
    \<and> sorted_wrt (<) (map (\<lambda>c. sint (cell_key c)) (tree_rows t))"
  using borrowed_scan.walk_rows [OF table_treeD [OF assms] disjI1, of asm f s] deferred_scan.walk_rows [OF table_treeD [OF assms] disjI1, of asm f s]
    decoded_scan.walk_rows [OF table_treeD [OF assms] disjI1, of asm f s] sorted_tree_rows [OF table_treeD(2) [OF assms]]
  by (simp add: scan_table_borrowed_opts_def scan_table_def sorted_rows_def comp_def)

theorem full_scans_agree_witness:
  "\<exists>get. scan_table_borrowed_opts get (\<lambda>_ _ _. Ok []) 4 (\<lambda>s r b. (s @ [(r, b)], True)) True [] = Some ([(3, [1]), (12, [2]), (20, [3])], Ok ())
    \<and> scan_table_borrowed_opts get (\<lambda>_ _ _. Ok []) 4 (\<lambda>s r b. (s @ [(r, b)], False)) False [] = Some ([(3, [1])], Ok ())"
proof -
  obtain get where get: "table_tree 512 get split_tree" using split_tree_stored by blast
  note agree = full_scans_agree [OF get, of "\<lambda>_ _ _. Ok []"]
  have "each_visit (visit_cell (\<lambda>_ _ _. Ok []) (\<lambda>s r b. (s @ [(r, b)], True))) [] (tree_rows split_tree) = ([(3, [1]), (12, [2]), (20, [3])], Ok True)"
    "each_visit (visit_cell (\<lambda>_ _ _. Ok []) (\<lambda>s r b. (s @ [(r, b)], False))) [] (tree_rows split_tree) = ([(3, [1])], Ok False)"
    by (simp_all add: split_tree_def visit_cell_def call_visitor_def)
  then show ?thesis using agree [of "\<lambda>s r b. (s @ [(r, b)], True)" True "[]"] agree [of "\<lambda>s r b. (s @ [(r, b)], False)" False "[]"]
    by (intro exI [of _ get]) (simp add: outcome_of_def split_tree_def)
qed

text \<open>
  C14: A range scan of a table tree shows its visitor exactly the rows whose rowids lie in the range,
  once each and in order, whether the bytes are lent or copied, whatever the bounds: the subtrees
  it skips on the left and the rows at which it leaves on the right hold none of them, and an
  interior page may lack a right-most child. Where none does, and for a visitor that never stops,
  the form that decodes each cell shows the same rows.
\<close>

theorem range_scan_shows_range:
  assumes "table_tree psz get t"
  shows "scan_table_range_borrowed_opts get asm (root_id t) start fin f may_reenter s
      = outcome_of (Some (each_visit (visit_cell asm f) s (filter (\<lambda>c. sint start \<le> sint (cell_key c) \<and> sint (cell_key c) \<le> sint fin) (tree_rows t))))
    \<and> (all_right t \<and> never_stops f \<longrightarrow> outcome_of (scan_range_subtree get asm f start fin (root_id t) s) = scan_table_range_borrowed_opts get asm (root_id t) start fin f may_reenter s)"
proof -
  note t = table_treeD [OF assms]
  have filter: "filter (\<lambda>c. sint start \<le> sint (cell_key c) \<and> sint (cell_key c) \<le> sint fin) (tree_rows t) = filter (in_range start fin) (tree_rows t)"
    by (simp add: in_range_def [abs_def])
  have 1: "scan_table_range_borrowed_opts get asm (root_id t) start fin f may_reenter s
      = outcome_of (Some (each_visit (visit_cell asm f) s (filter (\<lambda>c. sint start \<le> sint (cell_key c) \<and> sint (cell_key c) \<le> sint fin) (tree_rows t))))"
    using range_scan.walk_rows [OF t disjI1, of asm f start fin s] deferred_range_scan.walk_rows [OF t disjI1, of asm f start fin s]
      range_row_filter [OF sorted_tree_rows [OF t(2)], of asm f start fin s]
    unfolding filter by (simp add: scan_table_range_borrowed_opts_def)
  have "outcome_of (scan_range_subtree get asm f start fin (root_id t) s) = scan_table_range_borrowed_opts get asm (root_id t) start fin f may_reenter s" if "all_right t" "never_stops f"
    using that(2) decoded_range_scan.walk_rows [OF t disjI2 [OF that(1)], of asm f start fin s] never_stops_rows [of f asm start fin s "tree_rows t"] keeps_going(2) [of f]
    unfolding 1 filter by simp
  then show ?thesis using 1 by blast
qed

theorem range_scan_shows_range_witness:
  "\<exists>get get'. scan_table_range_borrowed_opts get (\<lambda>_ _ _. Ok []) 4 2 15 (\<lambda>s r b. (s @ [r], True)) True [] = Some ([3, 12], Ok ())
    \<and> outcome_of (scan_range_subtree get' (\<lambda>_ _ _. Ok []) (\<lambda>s r b. (s @ [r], True)) 5 20 4 []) = Some ([12], Ok ())"
proof -
  obtain get get' where get: "table_tree 512 get split_tree" "table_tree 512 get' two_leaves" using split_tree_stored two_leaves_stored by blast
  let ?f = "\<lambda>s r b. (s @ [r], True)"
  have "never_stops ?f" "all_right two_leaves" by (simp_all add: never_stops_def two_leaves_def)
  moreover have "each_visit (visit_cell (\<lambda>_ _ _. Ok []) ?f) [] (filter (\<lambda>c. sint (5 :: i64) \<le> sint (cell_key c) \<and> sint (cell_key c) \<le> sint (20 :: i64)) (tree_rows two_leaves)) = ([12], Ok True)"
    "each_visit (visit_cell (\<lambda>_ _ _. Ok []) ?f) [] (filter (\<lambda>c. sint (2 :: i64) \<le> sint (cell_key c) \<and> sint (cell_key c) \<le> sint (15 :: i64)) (tree_rows split_tree)) = ([3, 12], Ok True)"
    by (simp_all add: two_leaves_def split_tree_def visit_cell_def call_visitor_def)
  ultimately show ?thesis
    using range_scan_shows_range [OF get(1), where asm = "\<lambda>_ _ _. Ok []" and start = 2 and fin = 15 and f = ?f and may_reenter = True and s = "[]"]
      range_scan_shows_range [OF get(2), where asm = "\<lambda>_ _ _. Ok []" and start = 5 and fin = 20 and f = ?f and may_reenter = True and s = "[]"]
    by (intro exI [of _ get] exI [of _ get']) (simp add: outcome_of_def two_leaves_def split_tree_def)
qed

text \<open>
  The form that decodes each cell has no guard: below an interior page without a right-most child
  it walks page 0 after the children, whatever that page holds.
\<close>

theorem decoded_range_scan_walks_page_zero:
  assumes "stored get (TNode i tks NoChild)" "ranged lo hi (TNode i tks NoChild)"
  shows "scan_range_subtree get asm f start fin i s
    = visit_children (scan_range_subtree get asm f start fin) s (map (root_id \<circ> fst) (drop (rank (row_lt start) (separators tks)) tks) @ [0])"
proof -
  obtain p where p: "get i = Ok p" "holds_cells p InteriorTable (separators tks)" "right_most_pointer p = root_id NoChild" using assms(1) by auto
  show ?thesis using decoded_range_node [of get i p tks NoChild asm f start fin s] p separators_sorted [OF assms(2)] by simp
qed

text \<open>
  A visitor that stops in one leaf is called again in the next by the form that decodes each cell:
  it answers nothing to the page above.
\<close>

theorem decoded_range_scan_goes_on:
  "\<exists>get. scan_range_subtree get (\<lambda>_ _ _. Ok []) (\<lambda>s r b. (s @ [r], False)) 0 20 4 [] = Some ([3, 12], Ok True)
    \<and> scan_range_subtree_borrowed get (\<lambda>_ _ _. Ok []) (\<lambda>s r b. (s @ [r], False)) 0 20 4 [] = Some ([3], Ok False)"
proof -
  obtain get where get: "table_tree 512 get two_leaves" using two_leaves_stored by blast
  let ?f = "\<lambda>s r b. (s @ [r], False)" let ?tks = "[(TLeaf 5 [TableLeafCell 3 [1]], 10)]" and ?t = "TLeaf 6 [TableLeafCell 12 [2]]"
  obtain p q r where p: "get 4 = Ok p" "holds_cells p InteriorTable (separators ?tks)" "right_most_pointer p = root_id ?t"
    and q: "get 5 = Ok q" "table_leaf q [TableLeafCell 3 [1]]" and r: "get 6 = Ok r" "table_leaf r [TableLeafCell 12 [2]]"
    using table_treeD(1) [OF get] by (auto simp: two_leaves_def)
  have "scan_range_subtree get (\<lambda>_ _ _. Ok []) ?f 0 20 4 [] = Some ([3, 12], Ok True)"
    using p q r decoded_range_node [of get 4 p ?tks ?t "\<lambda>_ _ _. Ok []" ?f 0 20 "[]"] decoded_range_leaf [of get 5 q _ "\<lambda>_ _ _. Ok []" ?f 0 20] decoded_range_leaf [of get 6 r _ "\<lambda>_ _ _. Ok []" ?f 0 20]
    by (simp add: separators_def sorted_rows_def rank_def row_lt_def range_cell_def visit_cell_def call_visitor_def answers_nothing_def)
  moreover have "scan_range_subtree_borrowed get (\<lambda>_ _ _. Ok []) ?f 0 20 4 [] = Some ([3], Ok False)"
    using range_scan.walk_rows [OF table_treeD [OF get] disjI1, of "\<lambda>_ _ _. Ok []" ?f 0 20 "[]"] by (simp add: two_leaves_def range_row_def visit_cell_def call_visitor_def)
  ultimately show ?thesis by blast
qed

end
