(* ===== verification/Btree_Count.thy ===== *)
theory Btree_Count
  imports Btree_Scan_Range
begin

text \<open>The counts of a table tree, which decode no payload.\<close>

subsection \<open>Sums over children\<close>

lemma tally_trees:
  assumes "\<And>u. u \<in> set us \<Longrightarrow> go (root_id u) = Some (Ok (word_of_nat (n u)))"
  shows "tally_children go (map root_id us) = Some (Ok (word_of_nat (sum_list (map n us))))"
proof -
  have "visit_children (\<lambda>child tally. Option.bind (go child) (\<lambda>r. Some (add_count tally r))) tally (map root_id us)
      = Some (tally + word_of_nat (sum_list (map n us)), Ok True)" for tally
    using assms by (induction us arbitrary: tally) (simp_all add: add_count_def lift_visit_def)
  then show ?thesis by (simp add: tally_children_def)
qed

lemma count_rows:
  assumes "stored get t" "ranged lo hi t" "t \<noteq> NoChild"
  shows "count_subtree get (root_id t) = Some (Ok (word_of_nat (length (tree_rows t))))"
  using assms
proof (induction t arbitrary: lo hi rule: measure_induct_rule [where f = size])
  case (less t)
  show ?case
  proof (cases t)
    case (TLeaf i rs)
    then obtain p where p: "get i = Ok p" "table_leaf p rs" using less.prems(1) by auto
    then have "page_type_of p = Ok LeafTable" "n_cells p = length rs" using table_leaf_holds [of p rs] leaf_page(4) [of p LeafTable rs] by auto
    then show ?thesis using p TLeaf by (subst count_subtree.simps) simp
  next
    case (TNode i tks u)
    then obtain p where p: "get i = Ok p" "holds_cells p InteriorTable (separators tks)" "right_most_pointer p = root_id u" "u = NoChild \<or> root_id u \<noteq> 0"
      using less.prems(1) by auto
    let ?us = "map fst tks @ right_trees u"
    have "count_subtree get (root_id v) = Some (Ok (word_of_nat (length (tree_rows v))))" if "v \<in> set ?us" for v
    proof -
      have v: "v = u \<and> v \<noteq> NoChild \<or> (\<exists>key. (v, key) \<in> set tks)" using that by (auto dest: in_right_trees)
      then have "size v < size t" "stored get v" "v \<noteq> NoChild" using TNode less.prems(1) subtree_size [of v _ tks i u] by auto
      then show ?thesis using less.IH child_ranged [of lo hi i tks u v] v less.prems(2) TNode by blast
    qed
    then have "tally_children (count_subtree get) (map root_id ?us) = Some (Ok (word_of_nat (sum_list (map (length \<circ> tree_rows) ?us))))"
      by (intro tally_trees) simp
    moreover have "length (tree_rows t) = sum_list (map (length \<circ> tree_rows) ?us)" using TNode by (simp add: length_concat case_prod_unfold comp_def right_trees_def)
    ultimately show ?thesis using p(1) TNode leaf_page(3) [OF p(2)] all_children_node [OF p(2-4)] by (subst count_subtree.simps) simp
  qed (use less.prems(3) in simp)
qed

text \<open>A tree has fewer rows than a \<^verbatim>\<open>u64\<close> counts: its pages are distinct and each holds fewer than \<open>2\<^sup>1\<^sup>5\<close>.\<close>

lemma rows_per_page:
  "stored get t \<Longrightarrow> length (tree_rows t) \<le> 32768 * length (tree_ids t)"
proof (induction t)
  case (TLeaf i rs)
  then obtain p where "holds_cells p LeafTable rs" by (auto simp: table_leaf_def)
  then show ?case using holds_few [of p LeafTable rs] by simp
next
  case (TNode i tks t)
  have "sum_list (map (length \<circ> tree_rows \<circ> fst) xs) \<le> 32768 * sum_list (map (length \<circ> tree_ids \<circ> fst) xs)" if "set xs \<subseteq> set tks" for xs
    using that
  proof (induction xs)
    case (Cons sk xs)
    then have "length (tree_rows (fst sk)) \<le> 32768 * length (tree_ids (fst sk))"
      using TNode.IH(1) [of sk "fst sk"] TNode.prems by (cases sk) auto
    then show ?case using Cons by simp
  qed simp
  then have "sum_list (map (length \<circ> tree_rows \<circ> fst) tks) \<le> 32768 * sum_list (map (length \<circ> tree_ids \<circ> fst) tks)" by blast
  then show ?case using TNode.IH(2) TNode.prems by (simp add: length_concat case_prod_unfold comp_def)
qed simp

lemma rows_bounded:
  assumes "table_tree psz get t"
  shows "length (tree_rows t) < 2 ^ 64"
proof -
  have "length (tree_ids t) = card (set (tree_ids t))" using assms by (simp add: table_tree_def distinct_card)
  also have "\<dots> \<le> card (UNIV :: u32 set)" by (rule card_mono) simp_all
  finally show ?thesis using rows_per_page [OF table_treeD(1) [OF assms]] by (simp add: card_word)
qed

subsection \<open>Counting a range\<close>

lemma rank_Cons: "rank P (c # rs) = (if P c then Suc (rank P rs) else 0)"
  by (simp add: rank_def)

lemma range_length:
  "sorted_rows rs \<Longrightarrow> max (rank (row_lt start) rs) (rank (\<lambda>c. sint (cell_key c) \<le> sint fin) rs) - rank (row_lt start) rs = length (filter (in_range start fin) rs)"
proof (induction rs)
  case (Cons c rs)
  have sorted: "sorted_rows rs" and later: "\<And>d. d \<in> set rs \<Longrightarrow> sint (cell_key c) < sint (cell_key d)" using Cons.prems by (auto simp: sorted_rows_def)
  show ?case
  proof (cases "sint (cell_key c) < sint start")
    case True
    show ?thesis
    proof (cases "sint (cell_key c) \<le> sint fin")
      case f: True
      have "row_lt start c" "\<not> in_range start fin c" using True by (simp_all add: row_lt_def in_range_def)
      then show ?thesis using f Cons.IH [OF sorted] by (simp add: rank_Cons)
    next
      case False
      then have "filter (in_range start fin) (c # rs) = []" using later by (fastforce simp: filter_empty_conv in_range_def)
      then show ?thesis using False by (simp add: rank_def)
    qed
  next
    case False
    then have zero: "rank (row_lt start) rs = 0" using later by (cases rs) (fastforce simp: rank_def row_lt_def)+
    show ?thesis
    proof (cases "sint (cell_key c) \<le> sint fin")
      case True
      have "\<not> row_lt start c" "in_range start fin c" using True False by (simp_all add: row_lt_def in_range_def)
      then show ?thesis using True zero Cons.IH [OF sorted] by (simp add: rank_Cons)
    next
      case f: False
      then have "filter (in_range start fin) (c # rs) = []" using later by (fastforce simp: filter_empty_conv in_range_def)
      then show ?thesis using f by (simp add: rank_def)
    qed
  qed
qed (simp add: rank_def)

lemma past_rank:
  assumes "sorted_rows rs" "i < length rs"
  shows "i < rank (\<lambda>c. sint (cell_key c) \<le> sint fin) rs \<longleftrightarrow> sint (cell_key (rs ! i)) \<le> sint fin"
proof -
  have "downward (\<lambda>c. sint (cell_key c) \<le> sint fin) rs" using sorted_rows_nth [OF assms(1)] by (fastforce simp: downward_def)
  from rank_less [OF this assms(2)] show ?thesis .
qed

lemma count_leaf_rows:
  assumes "table_leaf p rs"
  shows "count_leaf p start fin = Some (Ok (word_of_nat (length (filter (in_range start fin) rs))))"
proof -
  have h: "holds_cells p LeafTable rs" "sorted_rows rs" using assms by (auto simp: table_leaf_def)
  let ?k = "rank (row_lt start) rs" and ?m = "rank (\<lambda>c. sint (cell_key c) \<le> sint fin) rs"
  have "past_probe p fin i = Ok (if i < max ?k ?m then GoRight else GoLeft)" if i: "?k \<le> i" "i < length rs" for i
  proof (rule holds_cell_at [OF h(1) i(2)])
    fix rest
    assume a: "cell_pointer p i = Ok (ptr_at p i)" "ptr_at p i < length (pg_data p)" "drop (ptr_at p i) (pg_data p) = cell_encode (rs ! i) @ rest"
      "fits_page (length (pg_data p)) LeafTable (rs ! i)"
    have "\<exists>n1. decode_signed (cell_encode (rs ! i) @ rest) = Some (cell_key (rs ! i), n1)"
      using scan_payload_encode [OF leaf_page(5,6) [OF h(1)], of "rs ! i" rest full_msgs] a(4) by (auto simp: fits_page_def)
    then show ?thesis using a past_rank [OF h(2) i(2), of fin] i(1) by (auto simp: past_probe_def cell_slice_checked_def ok_or_def)
  qed
  then have "bsearch (past_probe p fin) ?k (length rs) = Some (Ok (max ?k ?m))"
    using holds_few [OF h(1)] rank_le [of "row_lt start" rs] rank_le [of "\<lambda>c. sint (cell_key c) \<le> sint fin" rs] by (intro bsearch_rank_from [where n = "length rs" and ?m0.0 = ?k]) auto
  then show ?thesis using range_search [OF h, of start] leaf_page(4) [OF h(1)] range_length [OF h(2), of start fin] by (simp add: count_leaf_def)
qed

text \<open>The children that a count visits: from the start, up to the first whose separator reaches the end.\<close>

fun until :: "i64 \<Rightarrow> (btree \<times> i64) list \<Rightarrow> btree list \<times> bool" where
  "until fin [] = ([], False)"
| "until fin ((u, k) # tks) = (if sint fin \<le> sint k then ([u], True) else (u # fst (until fin tks), snd (until fin tks)))"

definition counted :: "i64 \<Rightarrow> (btree \<times> i64) list \<Rightarrow> btree \<Rightarrow> btree list" where
  "counted fin tks t = fst (until fin tks) @ (if snd (until fin tks) then [] else right_trees t)"

lemma counted_sub: "v \<in> set (counted fin tks t) \<Longrightarrow> v = t \<and> v \<noteq> NoChild \<or> (\<exists>key. (v, key) \<in> set tks)"
  by (induction tks) (auto simp: counted_def dest: in_right_trees split: if_splits)

lemma counted_rows:
  "ranged lo hi (TNode i tks t) \<Longrightarrow> sum_list (map (length \<circ> filter (in_range start fin) \<circ> tree_rows) (counted fin tks t)) = length (filter (in_range start fin) (tree_rows (TNode i tks t)))"
proof (induction tks arbitrary: lo)
  case (Cons sk tks)
  obtain s k where sk: "sk = (s, k)" by (cases sk)
  have rg: "ranged (sint k) hi (TNode i tks t)" using Cons.prems sk by simp
  have rows: "tree_rows (TNode i (sk # tks) t) = tree_rows s @ tree_rows (TNode i tks t)" using sk by simp
  show ?case
  proof (cases "sint fin \<le> sint k")
    case True
    then have "filter (in_range start fin) (tree_rows (TNode i tks t)) = []"
      using ranged_rows [OF rg] by (fastforce simp: filter_empty_conv in_range_def)
    then show ?thesis using True sk unfolding rows by (simp add: counted_def)
  next
    case False
    then show ?thesis using Cons.IH [OF rg] sk unfolding rows by (simp add: counted_def)
  qed
qed (simp add: counted_def right_trees_def)

lemma count_children_until:
  assumes holds: "holds_cells p InteriorTable (separators tks)"
  shows "lo \<le> length tks \<Longrightarrow> count_children p fin [lo..<length tks] = Ok (map root_id (fst (until fin (drop lo tks))), snd (until fin (drop lo tks)))"
proof (induction "length tks - lo" arbitrary: lo)
  case (Suc d)
  then have lo: "lo < length tks" by simp
  obtain s k where sk: "tks ! lo = (s, k)" by (cases "tks ! lo")
  have d: "drop lo tks = (s, k) # drop (Suc lo) tks" using Cons_nth_drop_Suc [OF lo] sk by simp
  have key: "cell_key (separators tks ! lo) = k" using lo sk by (simp add: separators_def)
  obtain n where r: "cell_pointer p lo = Ok (ptr_at p lo)" "ptr_at p lo + 4 \<le> length (pg_data p)" "take 4 (drop (ptr_at p lo) (pg_data p)) = be32 (root_id s)"
    "decode_signed (drop (ptr_at p lo + 4) (pg_data p)) = Some (k, n)"
    using separator_reads [OF holds lo, of NoChild] lo sk key by (auto simp: child_id_def)
  have "count_children p fin [Suc lo..<length tks] = Ok (map root_id (fst (until fin (drop (Suc lo) tks))), snd (until fin (drop (Suc lo) tks)))"
    using Suc.hyps(2) lo by (intro Suc.hyps(1)) simp_all
  moreover have "[lo..<length tks] = lo # [Suc lo..<length tks]" using lo by (simp add: upt_conv_Cons)
  ultimately show ?case using r d
    by (simp add: cell_slice_checked_def decode_table_interior_child_def decode_table_interior_key_def add.commute)
qed simp

lemma drop_ranged:
  "ranged lo hi (TNode i tks t) \<Longrightarrow> \<exists>lo'. ranged lo' hi (TNode i (drop k tks) t)"
proof (induction tks arbitrary: lo k)
  case (Cons sk tks)
  then show ?case by (cases k; cases sk) auto
qed auto

lemma dropped_rows:
  assumes rg: "ranged lo hi (TNode i tks t)"
  shows "filter (in_range start fin) (tree_rows (TNode i (drop (rank (row_lt start) (separators tks)) tks) t)) = filter (in_range start fin) (tree_rows (TNode i tks t))"
  using rg
proof (induction tks arbitrary: lo)
  case (Cons sk tks)
  obtain s k where sk: "sk = (s, k)" by (cases sk)
  have rg: "ranged lo (sint k) s" "ranged (sint k) hi (TNode i tks t)" using Cons.prems sk by simp_all
  show ?case
  proof (cases "sint k < sint start")
    case True
    then have "filter (in_range start fin) (tree_rows s) = []" using ranged_rows [OF rg(1)] by (fastforce simp: filter_empty_conv in_range_def)
    then show ?thesis using True sk Cons.IH [OF rg(2)] by (simp add: separators_def rank_Cons row_lt_def [of start "TableInteriorCell a b" for a b])
  next
    case False
    then show ?thesis using sk by (simp add: separators_def rank_Cons row_lt_def [of start "TableInteriorCell a b" for a b])
  qed
qed (simp add: separators_def rank_def)

lemma count_range_rows:
  assumes "stored get t" "ranged lo hi t" "t \<noteq> NoChild"
  shows "count_range_subtree get start fin (root_id t) = Some (Ok (word_of_nat (length (filter (in_range start fin) (tree_rows t)))))"
  using assms
proof (induction t arbitrary: lo hi rule: measure_induct_rule [where f = size])
  case (less t)
  show ?case
  proof (cases t)
    case (TLeaf i rs)
    then obtain p where p: "get i = Ok p" "table_leaf p rs" using less.prems(1) by auto
    then show ?thesis using TLeaf table_leaf_holds [OF p(2)] count_leaf_rows [OF p(2), of start fin] by (subst count_range_subtree.simps) simp
  next
    case (TNode i tks u)
    then obtain p where p: "get i = Ok p" "holds_cells p InteriorTable (separators tks)" "right_most_pointer p = root_id u" "u = NoChild \<or> root_id u \<noteq> 0"
      using less.prems(1) by auto
    let ?k = "rank (row_lt start) (separators tks)" let ?us = "counted fin (drop ?k tks) u"
    have sorted: "sorted_rows (separators tks)" using separators_sorted less.prems(2) TNode by blast
    have n: "n_cells p = length tks" "?k \<le> length tks" using leaf_page(4) [OF p(2)] rank_le [of "row_lt start" "separators tks"] by (simp_all add: separators_def)
    have "count_range_subtree get start fin (root_id v) = Some (Ok (word_of_nat (length (filter (in_range start fin) (tree_rows v)))))" if "v \<in> set ?us" for v
    proof -
      have v: "v = u \<and> v \<noteq> NoChild \<or> (\<exists>key. (v, key) \<in> set tks)" using counted_sub [OF that] by (auto dest: in_set_dropD)
      then have "size v < size t" "stored get v" "v \<noteq> NoChild" using TNode less.prems(1) subtree_size [of v _ tks i u] by auto
      then show ?thesis using less.IH child_ranged [of lo hi i tks u v] v less.prems(2) TNode by blast
    qed
    then have "tally_children (count_range_subtree get start fin) (map root_id ?us) = Some (Ok (word_of_nat (sum_list (map (length \<circ> filter (in_range start fin) \<circ> tree_rows) ?us))))"
      by (intro tally_trees) simp
    moreover obtain lo' where "ranged lo' hi (TNode i (drop ?k tks) u)" using drop_ranged less.prems(2) TNode by blast
    then have "sum_list (map (length \<circ> filter (in_range start fin) \<circ> tree_rows) ?us) = length (filter (in_range start fin) (tree_rows t))"
      using counted_rows [of lo' hi i "drop ?k tks" u start fin] dropped_rows [of lo hi i tks u start fin] less.prems(2) TNode by simp
    moreover have "map root_id ?us = map root_id (fst (until fin (drop ?k tks))) @ (if snd (until fin (drop ?k tks)) then [] else right_child p)"
      using p(3,4) by (auto simp: counted_def right_child_def right_trees_def)
    ultimately show ?thesis using p(1) TNode leaf_page(3) [OF p(2)] range_child_search [OF p(2) sorted, of _ start] n count_children_until [OF p(2) n(2), of fin]
      by (subst count_range_subtree.simps) simp
  qed (use less.prems(3) in simp)
qed

text \<open>
  C19: Counting rows without reading them counts them: the count of a table tree is the number of its
  rows, the count of a range is the number of rows whose rowids lie in it, though only the leaves
  at its ends are searched and whole subtrees are skipped on both sides; neither overflows, and
  neither counts page 0 below an interior page that lacks a right-most child.
\<close>

theorem counts_are_exact:
  assumes "table_tree psz get t"
  shows "\<exists>n m. count_subtree get (root_id t) = Some (Ok n) \<and> unat n = length (tree_rows t)
    \<and> count_range_subtree get start fin (root_id t) = Some (Ok m)
    \<and> unat m = card {r. \<exists>c\<in>set (tree_rows t). cell_key c = r \<and> sint start \<le> sint r \<and> sint r \<le> sint fin}"
proof -
  note t = table_treeD [OF assms]
  let ?in = "filter (in_range start fin) (tree_rows t)"
  have small: "length (tree_rows t) < 2 ^ 64" "length ?in < 2 ^ 64" using rows_bounded [OF assms] length_filter_le [of "in_range start fin" "tree_rows t"] by linarith+
  have "distinct (map cell_key (tree_rows t))"
    using sorted_tree_rows [OF t(2)] strict_sorted_iff [of "map (sint \<circ> cell_key) (tree_rows t)"] distinct_map [of sint "map cell_key (tree_rows t)"] by (simp add: sorted_rows_def)
  then have "length ?in = card (cell_key ` set ?in)" using distinct_card [of "map cell_key ?in"] by (simp add: distinct_map_filter)
  moreover have "cell_key ` set ?in = {r. \<exists>c\<in>set (tree_rows t). cell_key c = r \<and> sint start \<le> sint r \<and> sint r \<le> sint fin}" by (auto simp: in_range_def)
  ultimately show ?thesis using count_rows [OF t] count_range_rows [OF t, of start fin] small by (simp add: unat_of_nat)
qed

theorem counts_are_exact_witness:
  "\<exists>get n m. count_subtree get 4 = Some (Ok n) \<and> unat n = 3 \<and> count_range_subtree get 2 15 4 = Some (Ok m) \<and> unat m = 2"
proof -
  obtain get where get: "table_tree 512 get split_tree" using split_tree_stored by blast
  have rows: "{r. \<exists>c\<in>set (tree_rows split_tree). cell_key c = r \<and> sint (2 :: i64) \<le> sint r \<and> sint r \<le> sint (15 :: i64)} = {3, 12}"
    by (auto simp: split_tree_def)
  have root: "root_id split_tree = 4" "length (tree_rows split_tree) = 3" "card {3, 12 :: i64} = 2" by (simp_all add: split_tree_def)
  show ?thesis using counts_are_exact [OF get, of 2 15] unfolding rows root by blast
qed

end
