(* ===== verification/Btree_Pull.thy ===== *)
theory Btree_Pull
  imports Btree_Count
begin

text \<open>
  The pulls of a statement that reads a range of records: each copies rows into an arena until its
  budget is spent, a row spills or the range ends, and the next begins after the last row copied.
\<close>

subsection \<open>A pull over a list of rows\<close>

fun spilled :: "cell \<Rightarrow> bool" where
  "spilled (TableLeafOverflow rowid tot local overflow) = True"
| "spilled _ = False"

fun total_len :: "cell \<Rightarrow> nat" where
  "total_len (TableLeafOverflow rowid tot local overflow) = unat tot"
| "total_len c = length (local_part c)"

definition cells_row :: "i64 \<Rightarrow> i64 \<Rightarrow> cells_walk \<Rightarrow> cell \<Rightarrow> cells_walk visited" where
  "cells_row start fin w c =
     (if sint (cell_key c) < sint start then (w, Ok True)
      else if sint fin < sint (cell_key c) then (w, Ok False)
      else if cw_full w then (w\<lparr>cw_hit_end := False\<rparr>, Ok False)
      else if 2 ^ 32 - 1 < total_len c then (w, Err ''record payload too large for cell serving'')
      else if spilled c then (w\<lparr>cw_hit_end := False, cw_overflow_stop := True\<rparr>, Ok False)
      else (cw_copy w (cell_key c) (local_part c), Ok True))"

lemma cells_step_encode:
  assumes "512 \<le> psz" "psz \<le> 65536" "cell_ok psz c" "cell_type c = LeafTable"
  shows "\<exists>n1 plen n2. decode_signed (cell_encode c @ rest) = Some (cell_key c, n1) \<and> varint_decode (drop n1 (cell_encode c @ rest)) = Some (plen, n2)
    \<and> unat plen = total_len c \<and> overflow_local_len_for (unat plen) psz = Ok (length (local_part c)) \<and> (length (local_part c) = unat plen \<longleftrightarrow> \<not> spilled c)
    \<and> (\<not> spilled c \<longrightarrow> n1 + n2 + unat plen \<le> length (cell_encode c @ rest) \<and> take (unat plen) (drop (n1 + n2) (cell_encode c @ rest)) = local_part c)"
proof (cases c)
  case (TableLeafCell rowid payload)
  then have "unat (len64 payload) = length payload" using assms by (intro unat_len64) simp
  then show ?thesis using TableLeafCell assms local_len_whole [OF assms(1), of "length payload"]
    by (intro exI [of _ "length (encode_signed rowid)"] exI [of _ "len64 payload"] exI [of _ "length (varint_encode (len64 payload))"]) (simp add: overflow_local_len)
next
  case (TableLeafOverflow rowid tot local overflow)
  then show ?thesis using assms local_len_whole [OF assms(1), of "unat tot"]
    by (intro exI [of _ "length (encode_signed rowid)"] exI [of _ tot] exI [of _ "length (varint_encode tot)"]) (auto simp: overflow_local_len)
qed (use assms(4) in simp_all)

lemma cells_step_row:
  assumes holds: "holds_cells p LeafTable rs" and i: "i < length rs" and start: "sint start \<le> sint (cell_key (rs ! i))"
  shows "cells_step fin p w i = cells_row start fin w (rs ! i)"
proof (rule holds_cell_at [OF holds i])
  fix rest
  assume a: "cell_pointer p i = Ok (ptr_at p i)" "ptr_at p i < length (pg_data p)" "drop (ptr_at p i) (pg_data p) = cell_encode (rs ! i) @ rest"
    "fits_page (length (pg_data p)) LeafTable (rs ! i)"
  define buf where "buf = cell_encode (rs ! i) @ rest"
  have "cell_ok (length (pg_data p)) (rs ! i)" "cell_type (rs ! i) = LeafTable" using a(4) by (simp_all add: fits_page_def)
  from cells_step_encode [OF leaf_page(5,6) [OF holds] this, of rest]
  obtain n1 plen n2 where e: "decode_signed buf = Some (cell_key (rs ! i), n1)" "varint_decode (drop n1 buf) = Some (plen, n2)" "unat plen = total_len (rs ! i)"
    "overflow_local_len_for (unat plen) (length (pg_data p)) = Ok (length (local_part (rs ! i)))" "length (local_part (rs ! i)) = unat plen \<longleftrightarrow> \<not> spilled (rs ! i)"
    "\<not> spilled (rs ! i) \<longrightarrow> n1 + n2 + unat plen \<le> length buf \<and> take (unat plen) (drop (n1 + n2) buf) = local_part (rs ! i)"
    unfolding buf_def by blast
  have rowid: "scan_rowid ''truncated leaf rowid in scan_cells'' p i = Ok (buf, cell_key (rs ! i), n1)"
    using a e(1) by (simp add: scan_rowid_def cell_slice_checked_def ok_or_def buf_def)
  show ?thesis
  proof (cases "spilled (rs ! i)")
    case True
    then show ?thesis using rowid e start unfolding cells_step_def cells_row_def by (simp add: lift_visit_def ok_or_def)
  next
    case False
    then show ?thesis using rowid e start unfolding cells_step_def cells_row_def by (simp add: lift_visit_def ok_or_def)
  qed
qed

interpretation cells_scan: range_walk True get "scan_range_subtree_cells get start fin" "cells_row start fin" start
  for get start fin
proof unfold_locales
  fix i p rs w
  assume a: "get i = Ok p" "table_leaf p rs"
  then have h: "holds_cells p LeafTable rs" "sorted_rows rs" "page_type_of p = Ok LeafTable" using table_leaf_holds by (auto simp: table_leaf_def)
  let ?k = "rank (row_lt start) rs"
  have "each_visit (cells_step fin p) w [?k..<length rs] = each_visit (cells_row start fin) w (drop ?k rs)"
    using row_lt_below [OF h(2), of _ start] by (intro each_visit_nth cells_step_row [OF h(1)]) fastforce+
  also have "\<dots> = each_visit (cells_row start fin) w rs" by (rule each_visit_skip) (simp add: cells_row_def rows_before_start [OF h(2)])
  finally show "scan_range_subtree_cells get start fin i w = Some (each_visit (cells_row start fin) w rs)"
    using a(1) h(3) range_search [OF h(1,2)] leaf_page(4) [OF h(1)] by (subst scan_range_subtree_cells.simps) (simp add: lift_scan_def lift_search_def)
next
  fix i p tks t w
  assume a: "get i = Ok p" "holds_cells p InteriorTable (separators tks)" "right_most_pointer p = root_id t" "t = NoChild \<or> root_id t \<noteq> 0" "sorted_rows (separators tks)"
  then show "scan_range_subtree_cells get start fin i w
      = visit_children (scan_range_subtree_cells get start fin) w (map (root_id \<circ> fst) (drop (rank (row_lt start) (separators tks)) tks) @ map root_id (right_trees t))"
    using leaf_page(3) [OF a(2)] range_child_search [OF a(2,5)] range_children_node [OF a(2-4)]
    by (subst scan_range_subtree_cells.simps) (simp add: lift_scan_def lift_search_def)
qed (simp add: cells_row_def)

subsection \<open>What a pull copies\<close>

fun pull :: "cells_walk \<Rightarrow> cell list \<Rightarrow> cells_walk \<times> unit outcome" where
  "pull w [] = (w, Ok ())"
| "pull w (c # cs) =
     (if cw_full w then (w\<lparr>cw_hit_end := False\<rparr>, Ok ())
      else if 2 ^ 32 - 1 < total_len c then (w, Err ''record payload too large for cell serving'')
      else if spilled c then (w\<lparr>cw_hit_end := False, cw_overflow_stop := True\<rparr>, Ok ())
      else pull (cw_copy w (cell_key c) (local_part c)) cs)"

lemma pull_rows: "sorted_rows rs \<Longrightarrow> outcome_of (Some (each_visit (cells_row start fin) w rs)) = Some (pull w (filter (in_range start fin) rs))"
proof (induction rs arbitrary: w)
  case (Cons c rs)
  have later: "sint (cell_key c) < sint (cell_key d)" if "d \<in> set rs" for d using Cons.prems that by (auto simp: sorted_rows_def)
  have IH: "outcome_of (Some (each_visit (cells_row start fin) w rs)) = Some (pull w (filter (in_range start fin) rs))" for w
    using Cons by (simp add: sorted_rows_def)
  consider "sint (cell_key c) < sint start" | "sint start \<le> sint (cell_key c)" "sint fin < sint (cell_key c)" | "in_range start fin c" unfolding in_range_def by linarith
  then show ?case
  proof cases
    case 1
    then have "cells_row start fin w c = (w, Ok True)" "\<not> in_range start fin c" by (simp_all add: cells_row_def in_range_def)
    then show ?thesis using IH by simp
  next
    case 2
    then have "filter (in_range start fin) (c # rs) = []" using later by (fastforce simp: in_range_def filter_empty_conv)
    moreover have "cells_row start fin w c = (w, Ok False)" using 2 by (simp add: cells_row_def)
    ultimately show ?thesis by (simp add: outcome_of_def)
  next
    case 3
    then have r: "\<not> sint (cell_key c) < sint start" "\<not> sint fin < sint (cell_key c)" by (simp_all add: in_range_def)
    consider "cw_full w" | "\<not> cw_full w" "2 ^ 32 - 1 < total_len c" | "\<not> cw_full w" "\<not> 2 ^ 32 - 1 < total_len c" "spilled c" | "\<not> cw_full w" "\<not> 2 ^ 32 - 1 < total_len c" "\<not> spilled c" by blast
    then show ?thesis
    proof cases
      case 4
      then have "cells_row start fin w c = (cw_copy w (cell_key c) (local_part c), Ok True)" using r by (simp add: cells_row_def)
      then show ?thesis using 3 4 IH by simp
    qed (use 3 r in \<open>simp_all add: cells_row_def [of start fin w c] outcome_of_def\<close>)
  qed
qed (simp add: outcome_of_def)

definition copies :: "cells_walk \<Rightarrow> cell list \<Rightarrow> cells_walk" where
  "copies = foldl (\<lambda>w c. cw_copy w (cell_key c) (local_part c))"

lemma copies_simps [simp]: "copies w [] = w" "copies w (c # cs) = copies (cw_copy w (cell_key c) (local_part c)) cs" "copies w (cs @ [c]) = cw_copy (copies w cs) (cell_key c) (local_part c)"
  by (simp_all add: copies_def)

text \<open>Where a pull stops: before the row at \<open>m\<close>, for want of budget or because it spills.\<close>

lemma pull_stops:
  "\<exists>m\<le>length cs. list_all (\<lambda>c. \<not> spilled c) (take m cs) \<and> (\<forall>j<m. \<not> cw_full (copies w (take j cs)))
    \<and> (m = length cs \<and> pull w cs = (copies w cs, Ok ())
       \<or> m < length cs \<and> cw_full (copies w (take m cs)) \<and> pull w cs = ((copies w (take m cs))\<lparr>cw_hit_end := False\<rparr>, Ok ())
       \<or> m < length cs \<and> spilled (cs ! m) \<and> total_len (cs ! m) < 2 ^ 32 \<and> pull w cs = ((copies w (take m cs))\<lparr>cw_hit_end := False, cw_overflow_stop := True\<rparr>, Ok ())
       \<or> m < length cs \<and> 2 ^ 32 \<le> total_len (cs ! m) \<and> pull w cs = (copies w (take m cs), Err ''record payload too large for cell serving''))"
proof (induction cs arbitrary: w)
  case (Cons c cs)
  consider "cw_full w" | "\<not> cw_full w" "2 ^ 32 \<le> total_len c" | "\<not> cw_full w" "total_len c < 2 ^ 32" "spilled c" | "\<not> cw_full w" "total_len c < 2 ^ 32" "\<not> spilled c" by linarith
  then show ?case
  proof cases
    case 4
    let ?w = "cw_copy w (cell_key c) (local_part c)"
    from Cons.IH [of ?w] obtain m where m: "m \<le> length cs" "list_all (\<lambda>c. \<not> spilled c) (take m cs)" "\<forall>j<m. \<not> cw_full (copies ?w (take j cs))"
      "m = length cs \<and> pull ?w cs = (copies ?w cs, Ok ())
       \<or> m < length cs \<and> cw_full (copies ?w (take m cs)) \<and> pull ?w cs = ((copies ?w (take m cs))\<lparr>cw_hit_end := False\<rparr>, Ok ())
       \<or> m < length cs \<and> spilled (cs ! m) \<and> total_len (cs ! m) < 2 ^ 32 \<and> pull ?w cs = ((copies ?w (take m cs))\<lparr>cw_hit_end := False, cw_overflow_stop := True\<rparr>, Ok ())
       \<or> m < length cs \<and> 2 ^ 32 \<le> total_len (cs ! m) \<and> pull ?w cs = (copies ?w (take m cs), Err ''record payload too large for cell serving'')" by blast
    have "\<forall>j<Suc m. \<not> cw_full (copies w (take j (c # cs)))" using m(3) 4(1) by (auto simp: less_Suc_eq_0_disj)
    then show ?thesis using m(1,2,4) 4 by (intro exI [of _ "Suc m"]) auto
  qed (auto intro!: exI [of _ 0])
qed auto

definition cw_records :: "cells_walk \<Rightarrow> (i64 \<times> bytes) list" where
  "cw_records w = map (\<lambda>(rowid, off, len). (rowid, take (unat len) (drop (unat off) (cw_arena w)))) (cw_entries w)"

definition fresh_walk :: "nat \<Rightarrow> nat \<Rightarrow> cells_walk" where
  "fresh_walk budget max_bytes =
     \<lparr>cw_arena = [], cw_entries = [], cw_budget = max budget 1, cw_max_bytes = max max_bytes 1, cw_hit_end = True, cw_overflow_stop = False, cw_last = - (2 ^ 63)\<rparr>"

lemma copies_fixed:
  "length (cw_entries (copies w cs)) = length (cw_entries w) + length cs" "cw_arena (copies w cs) = cw_arena w @ concat (map local_part cs)"
  "cw_budget (copies w cs) = cw_budget w" "cw_max_bytes (copies w cs) = cw_max_bytes w" "cw_hit_end (copies w cs) = cw_hit_end w"
  "cw_overflow_stop (copies w cs) = cw_overflow_stop w" "cs \<noteq> [] \<Longrightarrow> cw_last (copies w cs) = cell_key (last cs)"
  by (induction cs rule: rev_induct) (simp_all add: cw_copy_def)

definition entries_within :: "cells_walk \<Rightarrow> bool" where
  "entries_within w = list_all (\<lambda>(rowid, off, len). unat off + unat len \<le> length (cw_arena w)) (cw_entries w)"

lemma copies_records:
  "length (concat (map local_part cs)) < 2 ^ 32 \<Longrightarrow>
   cw_records (copies (fresh_walk budget mb) cs) = map (\<lambda>c. (cell_key c, local_part c)) cs \<and> entries_within (copies (fresh_walk budget mb) cs)"
proof (induction cs rule: rev_induct)
  case (snoc c cs)
  let ?w = "copies (fresh_walk budget mb) cs"
  have IH: "cw_records ?w = map (\<lambda>c. (cell_key c, local_part c)) cs" "entries_within ?w" using snoc by simp_all
  have small: "length (cw_arena ?w) < 2 ^ 32" "length (local_part c) < 2 ^ 32" using snoc.prems by (simp_all add: copies_fixed fresh_walk_def)
  have old: "map (\<lambda>(rowid, off, len). (rowid, take (unat len) (drop (unat off) (cw_arena ?w @ local_part c)))) (cw_entries ?w) = cw_records ?w"
    using IH(2) by (auto simp: cw_records_def entries_within_def list_all_iff)
  have new: "take (unat (word_of_nat (length (local_part c)) :: u32)) (drop (unat (word_of_nat (length (cw_arena ?w)) :: u32)) (cw_arena ?w @ local_part c)) = local_part c"
    using small by (simp add: unat_of_nat)
  have "cw_records (cw_copy ?w (cell_key c) (local_part c)) = cw_records ?w @ [(cell_key c, local_part c)]"
    unfolding cw_records_def [of "cw_copy ?w (cell_key c) (local_part c)"] using old new by (simp add: cw_copy_def del: take_append drop_append)
  moreover have "entries_within (cw_copy ?w (cell_key c) (local_part c))"
    using IH(2) small by (auto simp: cw_copy_def entries_within_def list_all_iff unat_of_nat)
  ultimately show ?case using IH(1) by simp
qed (simp add: cw_records_def entries_within_def fresh_walk_def)

lemma tree_rows_small: "stored get t \<Longrightarrow> c \<in> set (tree_rows t) \<Longrightarrow> length (local_part c) \<le> 65536 \<and> cell_type c = LeafTable"
proof (induction t)
  case (TLeaf i rs)
  then obtain p where "holds_cells p LeafTable rs" by (auto simp: table_leaf_def)
  then show ?case using local_part_le [of p rs c] cell_type_holds [of p LeafTable rs c] TLeaf.prems(2) by simp
next
  case (TNode i tks t)
  then show ?case by fastforce
qed simp

lemma copied_small:
  assumes "\<And>c. c \<in> set cs \<Longrightarrow> length (local_part c) \<le> 65536" "\<forall>j<m. \<not> cw_full (copies (fresh_walk budget mb) (take j cs))" "mb \<le> 2 ^ 31" "m \<le> length cs"
  shows "length (concat (map local_part (take m cs))) < 2 ^ 32" "m \<le> max budget 1"
proof -
  have "length (concat (map local_part (take m cs))) < 2 ^ 32 \<and> m \<le> max budget 1"
  proof (cases m)
    case (Suc j)
    then have "\<not> cw_full (copies (fresh_walk budget mb) (take j cs))" using assms(2) by simp
    then have "length (concat (map local_part (take j cs))) < max mb 1" "j < max budget 1"
      using Suc assms(4) by (auto simp: cw_full_def copies_fixed fresh_walk_def)
    moreover have "take m cs = take j cs @ [cs ! j]" using Suc assms(4) by (simp add: take_Suc_conv_app_nth)
    moreover have "length (local_part (cs ! j)) \<le> 65536" using assms(1,4) Suc by simp
    ultimately show ?thesis using assms(3) Suc by simp
  qed simp
  then show "length (concat (map local_part (take m cs))) < 2 ^ 32" "m \<le> max budget 1" by simp_all
qed

lemma resume_rows:
  assumes "sorted_rows rs" "0 < m" "m < length (filter (in_range start fin) rs)"
  shows "filter (in_range (cell_key (filter (in_range start fin) rs ! (m - 1)) + 1) fin) rs = drop m (filter (in_range start fin) rs)"
proof -
  let ?R = "filter (in_range start fin) rs" let ?l = "cell_key (?R ! (m - 1))"
  have sorted: "sorted_rows ?R" using assms(1) by (simp add: sorted_rows_def sorted_wrt_map sorted_wrt_filter)
  have "?R ! m \<in> set ?R" "?R ! (m - 1) \<in> set ?R" using assms(3) by (intro nth_mem; linarith)+
  then have "sint ?l < sint (cell_key (?R ! m))" "in_range start fin (?R ! m)" "in_range start fin (?R ! (m - 1))" using sorted_rows_nth [OF sorted, of "m - 1" m] assms(2,3) by auto
  then have l: "sint start \<le> sint ?l" "sint ?l < sint fin" by (simp_all add: in_range_def)
  then have succ: "sint (?l + 1) = sint ?l + 1" using i64_range [of ?l] i64_range [of fin] by (simp add: signed_take_bit_int_eq_self sint_word_ariths)
  have "in_range (?l + 1) fin = (\<lambda>c. in_range start fin c \<and> sint ?l < sint (cell_key c))" using succ l by (auto simp: in_range_def)
  then have "filter (in_range (?l + 1) fin) rs = filter (\<lambda>c. sint ?l < sint (cell_key c)) ?R" by (simp add: conj_commute)
  also have "\<dots> = filter (\<lambda>c. sint ?l < sint (cell_key c)) (take m ?R @ drop m ?R)" by simp
  also have "\<dots> = drop m ?R"
  proof -
    have "\<not> sint ?l < sint (cell_key c)" if c: "c \<in> set (take m ?R)" for c
    proof -
      obtain j where "j < m" "?R ! j = c" using c by (auto simp: in_set_conv_nth)
      then show ?thesis using sorted_rows_nth [OF sorted, of j "m - 1"] assms(3) by (cases "j = m - 1") fastforce+
    qed
    moreover have "sint ?l < sint (cell_key c)" if c: "c \<in> set (drop m ?R)" for c
    proof -
      obtain j where "m + j < length ?R" "?R ! (m + j) = c" using c assms(3) by (auto simp: in_set_conv_nth less_diff_conv add.commute)
      then show ?thesis using sorted_rows_nth [OF sorted, of "m - 1" "m + j"] assms(2) by simp
    qed
    ultimately show ?thesis by (simp only: filter_append) (simp add: filter_empty_conv filter_id_conv)
  qed
  finally show ?thesis .
qed

text \<open>
  C15: A pull of records copies the first rows of the range, at most its budget, each with its rowid
  and exactly its record, and stops before a row that spills; the flag \<^verbatim>\<open>hit_end\<close> says that the
  range is used up. When a pull has copied a row and not reached the end, the rows from the rowid
  after the last copied are precisely those that are left, beginning with the one it stopped at. A
  pull that copies nothing, because a spilled row comes first, answers the least rowid, which
  stands for a scan that has not begun: the driver that keeps it begins again at the first row.
\<close>

theorem pull_resumes:
  fixes start fin :: i64
  assumes "table_tree psz get t" "max_bytes \<le> 2 ^ 31"
  defines "rows \<equiv> \<lambda>a. filter (\<lambda>c. sint a \<le> sint (cell_key c) \<and> sint (cell_key c) \<le> sint fin) (tree_rows t)"
  shows "\<exists>w r m. outcome_of (scan_table_range_cells get (root_id t) start fin budget max_bytes) = Some (w, r) \<and> m \<le> length (rows start) \<and> m \<le> max budget 1
    \<and> cw_records w = map (\<lambda>c. (cell_key c, local_part c)) (take m (rows start)) \<and> list_all (\<lambda>c. \<exists>k b. c = TableLeafCell k b) (take m (rows start))
    \<and> (r = Ok () \<longrightarrow> (cw_hit_end w \<longleftrightarrow> m = length (rows start)))
    \<and> (0 < m \<and> m < length (rows start) \<longrightarrow> rows (cw_last w + 1) = drop m (rows start))
    \<and> (r \<noteq> Ok () \<or> cw_overflow_stop w \<or> m = 0 \<and> rows start \<noteq> [] \<longrightarrow> m < length (rows start) \<and> (\<exists>k tot local chain. rows start ! m = TableLeafOverflow k tot local chain))
    \<and> (m = 0 \<longrightarrow> resume_start (cw_last w) = - (2 ^ 63))"
proof -
  note t = table_treeD [OF assms(1)] and sorted = sorted_tree_rows [OF table_treeD(2) [OF assms(1)]]
  have rows: "rows a = filter (in_range a fin) (tree_rows t)" for a by (simp add: rows_def in_range_def [abs_def])
  let ?R = "rows start" and ?w = "fresh_walk budget max_bytes"
  have small: "length (local_part c) \<le> 65536" "cell_type c = LeafTable" if "c \<in> set ?R" for c using tree_rows_small [OF t(1), of c] that by (auto simp: rows)
  have run: "outcome_of (scan_table_range_cells get (root_id t) start fin budget max_bytes) = Some (pull ?w ?R)"
    using cells_scan.walk_rows [OF t disjI1, of start fin ?w] pull_rows [OF sorted, of start fin ?w] by (simp add: scan_table_range_cells_def fresh_walk_def rows)
  obtain m where m: "m \<le> length ?R" "list_all (\<lambda>c. \<not> spilled c) (take m ?R)" "\<forall>j<m. \<not> cw_full (copies ?w (take j ?R))"
    and stop: "m = length ?R \<and> pull ?w ?R = (copies ?w ?R, Ok ())
       \<or> m < length ?R \<and> cw_full (copies ?w (take m ?R)) \<and> pull ?w ?R = ((copies ?w (take m ?R))\<lparr>cw_hit_end := False\<rparr>, Ok ())
       \<or> m < length ?R \<and> spilled (?R ! m) \<and> total_len (?R ! m) < 2 ^ 32 \<and> pull ?w ?R = ((copies ?w (take m ?R))\<lparr>cw_hit_end := False, cw_overflow_stop := True\<rparr>, Ok ())
       \<or> m < length ?R \<and> 2 ^ 32 \<le> total_len (?R ! m) \<and> pull ?w ?R = (copies ?w (take m ?R), Err ''record payload too large for cell serving'')"
    using pull_stops [of ?R ?w] by blast
  note few = copied_small [OF small(1) m(3) assms(2) m(1)] and recs = copies_records [of "take m ?R" budget max_bytes]
  have whole: "\<exists>k b. c = TableLeafCell k b" if "c \<in> set (take m ?R)" for c
    using m(2) small(2) [of c] that in_set_takeD [OF that] by (cases c) (auto simp: list_all_iff)
  have spilt: "\<exists>k tot local chain. ?R ! m = TableLeafOverflow k tot local chain" if "m < length ?R" "spilled (?R ! m) \<or> 2 ^ 32 \<le> total_len (?R ! m)"
    using small [of "?R ! m"] nth_mem [OF that(1)] that(2) by (cases "?R ! m") auto
  have empty: "\<not> cw_full ?w" by (simp add: cw_full_def fresh_walk_def)
  have cont: "rows (cw_last (copies ?w (take m ?R)) + 1) = drop m ?R" if "0 < m" "m < length ?R"
    using resume_rows [OF sorted that(1), of start fin] that copies_fixed(7) [of "take m ?R" ?w] by (cases "?R = []") (simp_all add: rows [symmetric] last_conv_nth)
  have flags: "cw_hit_end (copies ?w (take m ?R))" "\<not> cw_overflow_stop (copies ?w (take m ?R))" by (simp_all add: copies_fixed fresh_walk_def)
  have recs': "cw_records (copies ?w (take m ?R)) = map (\<lambda>c. (cell_key c, local_part c)) (take m ?R)" using recs few(1) by simp
  show ?thesis
  proof (intro exI conjI)
    show "outcome_of (scan_table_range_cells get (root_id t) start fin budget max_bytes) = Some (fst (pull ?w ?R), snd (pull ?w ?R))" using run by simp
    show "m \<le> length ?R" by (fact m(1))
    show "m \<le> max budget 1" using few(2) by simp
    show "cw_records (fst (pull ?w ?R)) = map (\<lambda>c. (cell_key c, local_part c)) (take m ?R)" using stop recs' by (auto simp: cw_records_def)
    show "list_all (\<lambda>c. \<exists>k b. c = TableLeafCell k b) (take m ?R)" using whole by (auto simp: list_all_iff)
    show "snd (pull ?w ?R) = Ok () \<longrightarrow> (cw_hit_end (fst (pull ?w ?R)) \<longleftrightarrow> m = length ?R)" using stop flags by auto
    show "0 < m \<and> m < length ?R \<longrightarrow> rows (cw_last (fst (pull ?w ?R)) + 1) = drop m ?R" using stop cont by auto
    show "snd (pull ?w ?R) \<noteq> Ok () \<or> cw_overflow_stop (fst (pull ?w ?R)) \<or> m = 0 \<and> ?R \<noteq> [] \<longrightarrow> m < length ?R \<and> (\<exists>k tot local chain. ?R ! m = TableLeafOverflow k tot local chain)"
      using stop flags spilt empty by auto
    show "m = 0 \<longrightarrow> resume_start (cw_last (fst (pull ?w ?R))) = - (2 ^ 63)" using stop by (auto simp: fresh_walk_def resume_start_def)
  qed
qed

theorem pull_resumes_witness:
  "\<exists>get w r. outcome_of (scan_table_range_cells get 4 0 20 1 64) = Some (w, r) \<and> cw_records w = [(3, [1])]"
proof -
  obtain get where get: "table_tree 512 get split_tree" using split_tree_stored by blast
  have rows: "filter (\<lambda>c. sint (0 :: i64) \<le> sint (cell_key c) \<and> sint (cell_key c) \<le> sint (20 :: i64)) (tree_rows split_tree) = [TableLeafCell 3 [1], TableLeafCell 12 [2], TableLeafCell 20 [3]]"
    and root: "root_id split_tree = 4" by (simp_all add: split_tree_def)
  have "(64 :: nat) \<le> 2 ^ 31" by simp
  from pull_resumes [OF get this, of 0 20 1, unfolded rows root]
  obtain w r m where m: "outcome_of (scan_table_range_cells get 4 0 20 1 64) = Some (w, r)" "m \<le> max 1 (1 :: nat)"
    "cw_records w = map (\<lambda>c. (cell_key c, local_part c)) (take m [TableLeafCell 3 [1], TableLeafCell 12 [2], TableLeafCell 20 [3]])"
    "m = 0 \<longrightarrow> (\<exists>k tot local chain. [TableLeafCell 3 [1], TableLeafCell 12 [2], TableLeafCell 20 [3]] ! m = TableLeafOverflow k tot local chain)" by blast
  then have "m \<noteq> 0" by auto
  then have "m = 1" using m(2) by simp
  then show ?thesis using m(1,3) by auto
qed

end
