(* ===== verification/Spec2Isabelle.thy ===== *)
theory Spec2Isabelle
  imports Session_Invert Session_Rebase Session_Changeset Session_Findings Record_Roundtrip Sqlite_Header Value_Codec Order_Key Wal_Reader Wal_Lease Btree_Pull
begin

text \<open>
  \<^bold>\<open>Verification of rustqlite\<close>, a SQL database engine in Rust that reads and writes the SQLite
  file format. This development models the parts of it whose correctness decides what data a
  user gets back: how values are ordered, hashed, stored and indexed, how rows and files are
  laid out, how tables are kept in trees of pages, how committed pages survive a crash, and how changes are recorded in changesets,
  combined, rebased and undone.

  \<^bold>\<open>How the parts fit together.\<close> SQL values (\<^verbatim>\<open>types/value.rs\<close>, \<^verbatim>\<open>types/text.rs\<close>) are compared
  by the executor, stored by the row codec and indexed by order-preserving keys. A database
  exported in the SQLite format is a header (\<^verbatim>\<open>sqlitefmt/header.rs\<close>) and pages of records
  (\<^verbatim>\<open>sqlitefmt/record.rs\<close>) built from varints (\<^verbatim>\<open>sqlitefmt/varint.rs\<close>). A native database keeps each
  table in a B+tree (\<^verbatim>\<open>storage/btree.rs\<close>) of pages (\<^verbatim>\<open>storage/page.rs\<close>) that the pager holds, and commits the pages a
  transaction changed to a write-ahead log (\<^verbatim>\<open>storage/wal.rs\<close>), from which readers are served and
  which a checkpoint copies back. A session
  (\<^verbatim>\<open>session/state.rs\<close>) captures the row events of a connection; \<^verbatim>\<open>session/gen.rs\<close> turns what it
  captured into a changeset, a byte string in the format of \<^verbatim>\<open>session/codec.rs\<close>, which
  \<^verbatim>\<open>session/iter.rs\<close> reads, \<^verbatim>\<open>session/transform.rs\<close> inverts, \<^verbatim>\<open>session/group.rs\<close> concatenates and
  \<^verbatim>\<open>session/rebase.rs\<close> rebases on top of others.

  \<^bold>\<open>Shared theories.\<close>
  \<^item> \<open>Prelude\<close>: machine integers, \<open>outcome\<close> (result, error or panic), slices and indexing that
    panic, \<^verbatim>\<open>usize\<close> arithmetic that wraps, bytes as digits.
  \<^item> \<open>Codec\<close>: the locale \<open>prefix_codec\<close> of self-delimiting encodings; the two SQLite varints, the
    changeset field and the storage varint interpret it.
  \<^item> \<open>Ordering\<close>: Rust's \<open>Ordering\<close>, the locale \<open>total_preorder\<close> (the contract of \<^verbatim>\<open>Ord\<close>, interpreted
    by the comparison of values) and the locale \<open>order_encoding\<close> (keys whose byte order is the
    order of what they encode, interpreted by the index keys).
  \<^item> \<open>Chained_Index\<close>: the locale of a vector of entries with hash chains and growth, interpreted by
    the session's tables and by the changegroup.
  \<^item> \<open>F64\<close>: doubles as bit patterns. A number is an integer multiple of \<open>2 ^ -1074\<close>, so the
    comparisons and casts are defined on integers and the rounding of \<^verbatim>\<open>i64 as f64\<close> is exact
    where it has to be.
  \<^item> \<open>Change_Spec\<close>, \<open>Merge_Spec\<close>: the meaning of a change on a database (a map from tables and keys
    to rows) and of the coalescing of two changes, independent of any encoding.

  \<^bold>\<open>Values.\<close> \<open>Text\<close> models the text representation with its masked view of invalid UTF-8,
  \<open>Values\<close> the value type, \<open>Value_Order\<close> the SQL order, equality and grouping hash,
  \<open>Value_Codec\<close> the storage codec with its varint, \<open>Order_Key\<close> the index keys, the encoder into a
  fixed buffer and the decoder of index-only scans. The order is total, equal values hash alike,
  every value is read back from its encoding, and keys sort as the rows they encode, over
  several columns and beyond the precision of a double.

  \<^bold>\<open>File format.\<close> \<open>Varint\<close>, \<open>Utf16\<close>, \<open>Sqlite_Record\<close> and \<open>Record_Roundtrip\<close> cover records in the three
  text encodings; \<open>Sqlite_Header\<close> the file header. Round trips hold for every value, arbitrary
  bytes never make the record decoder panic (a column count beyond the address space does), and text compares as its bytes in the file do.

  \<^bold>\<open>Tables as trees.\<close> \<open>Page\<close> models a page as the bytes of \<^verbatim>\<open>page.rs\<close> with their header and pointer
  array, \<open>Btree_Varint\<close> and \<open>Btree_Cell\<close> the cells, \<open>Btree_Page\<close> the operations on one page of
  \<^verbatim>\<open>btree.rs\<close>: searches, insertion, deletion, compaction and the cached count of live bytes.
  \<open>Page_Repr\<close> says which cells a page holds, \<open>Btree_Codec\<close>, \<open>Btree_Leaf\<close>, \<open>Btree_Compact\<close> and
  \<open>Btree_Search\<close> prove what each operation does to them, and \<open>Btree_Rows\<close> that a leaf is a map from
  rowids to rows (locale \<open>observed_machine\<close>). \<open>Btree_Overflow\<close> has the chains of long payloads,
  \<open>Btree_Descent\<close> the descents from the root for lookup, insertion and deletion. \<open>Btree_Tree\<close> and
  \<open>Btree_Store\<close> give the pages of a tree their meaning (\<open>stored\<close>, \<open>ranged\<close>, \<open>table_tree\<close>) and show
  that a tree of any height is a map too, up to the leaf that is full or underfull, where the
  code balances. An interior page without a right-most child, which the split of an interior page
  leaves on the left, is a node whose last subtree is \<open>NoChild\<close>, and all results hold with such nodes
  unless they say otherwise (\<open>all_right\<close>). \<open>Btree_Scan\<close> models the full scans, range scans, counts and pulls of records, each
  in the several forms the code has; \<open>Btree_Scan_Rows\<close> proves with the locales \<open>tree_walk\<close>,
  \<open>full_walk\<close> and \<open>range_walk\<close>, interpreted for every form, that they visit the rows of the tree in
  order, \<open>Btree_Scan_Range\<close> and \<open>Btree_Count\<close> that ranges and counts are exact, \<open>Btree_Pull\<close> that a
  sequence of pulls loses no row. The pager is a function from page numbers to pages; allocating
  and freeing pages, the balancing, and the hints that skip a descent are parameters.

  \<^bold>\<open>Write-ahead log.\<close> \<open>Wal\<close> models the log on the bytes of its file: headers, appends, spills that
  rewrite a frame in place and defer its checksum, the chunked batch commit, both resets,
  recovery, frame reads, the walk of a reader and the walk over all frames. \<open>Wal_Log\<close> gives the bytes their
  meaning as frames chained by checksums and states what recovery finds; \<open>Wal_Store\<close> and
  \<open>Wal_Batch\<close> prove that every operation keeps the invariant \<open>wal_inv\<close>; \<open>Wal_Spec\<close> has the abstract
  store of committed and working pages and the locale \<open>protocol_simulation\<close>, interpreted by the
  log: runs of operations, resets and crashes implement the store. \<open>Wal_Crash\<close> adds interrupted
  writes and the walk over the frames, \<open>Wal_Reader\<close> a reader beside a writer, \<open>Wal_Lease\<close> the
  registry of leases: what its calls promise a pager that holds one, not how the pager uses them. The CRC-32 is a parameter no property of which is used: uncommitted frames
  carry no commit mark, and frames of an older generation have other salts. That new salts are
  fresh is a hypothesis (\<open>admit\<close>), as are pages of the page size and fewer than \<open>2 ^ 32\<close> frames.
  Writes reach the file in order; a crash in the middle of one is a prefix of the new end of the
  file. Crashes inside the rewrite of a frame in place or of a header are not covered.

  \<^bold>\<open>Sessions.\<close> \<open>Session_Codec\<close> and \<open>Session_Iter\<close> model the changeset format and its reader,
  \<open>Session_Invert\<close> inversion, \<open>Session_Hash\<close>, \<open>Session_Group\<close>, \<open>Session_Concat\<close> the changegroup,
  \<open>Session_Rebase\<close> the rebaser, \<open>Session_State\<close> and \<open>Session_Capture\<close> the capture of row events,
  \<open>Session_Gen\<close>, \<open>Session_Resolve\<close>, \<open>Session_Faithful\<close> and \<open>Session_Changeset\<close> the generation. The
  refinement theorems state that the byte-level code has the effect the specification
  prescribes: a captured changeset leads from the old to the current database, inversion undoes
  it, concatenation composes, and a configured rebaser rewrites a changeset by its matrix.
  \<open>Session_Findings\<close> states inputs on which the code panics or captures a row twice. The SQL engine
  that generation queries, its equality of a column with a parameter, the catalog and the DEFAULT
  evaluator are parameters, with what the code relies on as hypotheses: the SELECT returns the
  rows that satisfy its WHERE clause, and the equality tells the keys of the events apart.

  \<^bold>\<open>Bounds and termination.\<close> Loops over buffers are recursive functions with a termination proof
  (the distance to the end of the buffer, the value of the number), or steps whose progress is
  proved. Searches with 16-bit bounds, descents and scans are partial functions, since a corrupt
  page or a cyclic tree keeps them running: the theorems state that they return. The one fuel is
  the code's own, the number of pages of the file plus four as the bound of an overflow chain.
  Theorems about encodings assume that buffers are shorter than \<open>2 ^ 63\<close> bytes (\<open>fits\<close>), as every
  Rust slice is; theorems about pages, that a page has 512 to 65536 bytes (\<open>sized\<close>).

  \<^bold>\<open>Not modelled.\<close> The SQL front end, the planner, the executor and the connection interface: they
  are a hundred thousand lines whose behaviour is SQL semantics, beyond a byte-level model. The
  splits, merges and neighbour balancing of trees, the trees of indexes beyond the search of one
  page, the scans that decode selected columns, and the pager with its page cache, locking and
  free list. The importer and exporter of whole
  database files, which drive the pager. The application of changesets, which issues SQL.
  Plugins, drivers, the command line and the server, which are input and output.
\<close>

end
